(* ===== verification/Prelude.thy ===== *)
theory Prelude
  imports Main "HOL-Library.Word" "HOL-Library.Monad_Syntax" "HOL-Library.Multiset"
begin

text \<open>
  The shared vocabulary of the development: Go's machine types, the run-time panics of
  slices, and the facts on words, lists and options that every component uses.

  A Go computation that may panic (an explicit \<^verbatim>\<open>panic\<close>, \<^verbatim>\<open>logger.Panicf\<close>, a nil
  dereference, an index out of range) is a function into \<open>'a option\<close>: \<open>None\<close> is the
  panic, which ends the process, so no state survives it. A Go \<^verbatim>\<open>error\<close> result is a
  value of a datatype of its own. A method with a pointer receiver takes the receiver's
  record and returns the updated one. \<^verbatim>\<open>uint64\<close> is \<open>64 word\<close>, so additions and
  subtractions wrap as Go's do; a Go \<^verbatim>\<open>int\<close> is an \<open>int\<close> (every such value here is a
  length, a tick counter or a configured size).
\<close>

section \<open>Go's types\<close>

type_synonym uint64 = "64 word"
type_synonym byte = "8 word"

abbreviation MaxUint64 :: uint64 where
  "MaxUint64 \<equiv> - 1"

text \<open>A map read through a nil-or-present pointer: \<^verbatim>\<open>x.GetF()\<close> of an optional field.\<close>

definition get0 :: "'a::zero option \<Rightarrow> 'a" where
  "get0 x = (case x of None \<Rightarrow> 0 | Some v \<Rightarrow> v)"

text \<open>A \<^verbatim>\<open>[]byte\<close> (or any slice) field whose nil differs from empty, read as a list.\<close>

definition get_list :: "'a list option \<Rightarrow> 'a list" where
  "get_list x = (case x of None \<Rightarrow> [] | Some v \<Rightarrow> v)"

definition get_bool :: "bool option \<Rightarrow> bool" where
  "get_bool x = (x = Some True)"

definition len64 :: "'a list \<Rightarrow> uint64" where
  "len64 xs = of_nat (length xs)"

section \<open>Panics\<close>

definition panic_if :: "bool \<Rightarrow> unit option" where
  "panic_if b = (if b then None else Some ())"

text \<open>\<^verbatim>\<open>xs[i]\<close>, \<^verbatim>\<open>xs[i:]\<close> and \<^verbatim>\<open>xs[lo:hi]\<close> with the bounds checks of the run time.\<close>

definition go_index :: "'a list \<Rightarrow> nat \<Rightarrow> 'a option" where
  "go_index xs i = (if i < length xs then Some (xs ! i) else None)"

definition go_from :: "'a list \<Rightarrow> nat \<Rightarrow> 'a list option" where
  "go_from xs i = (if i \<le> length xs then Some (drop i xs) else None)"

definition go_slice :: "'a list \<Rightarrow> nat \<Rightarrow> nat \<Rightarrow> 'a list option" where
  "go_slice xs lo hi =
     (if lo \<le> hi \<and> hi \<le> length xs then Some (take (hi - lo) (drop lo xs)) else None)"

section \<open>Simplification\<close>

named_theorems go_simps "the run-time primitives, unfolded"

lemma get0_simps [simp]: "get0 None = 0" "get0 (Some v) = v"
  by (simp_all add: get0_def)

lemma get_list_simps [simp]: "get_list None = []" "get_list (Some v) = v"
  by (simp_all add: get_list_def)

lemma get_bool_simps [simp]: "get_bool None = False" "get_bool (Some b) = b"
  by (simp_all add: get_bool_def)

lemma panic_if_Some [simp]: "panic_if b = Some u \<longleftrightarrow> \<not> b"
  by (simp add: panic_if_def)

lemma panic_if_None [simp]: "panic_if b = None \<longleftrightarrow> b"
  by (simp add: panic_if_def)

lemma panic_if_bind [simp]:
  "Option.bind (panic_if b) f = (if b then None else f ())"
  by (simp add: panic_if_def)

lemmas bind_Some_conv = Option.bind_eq_Some_conv

lemma go_index_Some [simp]: "go_index xs i = Some x \<longleftrightarrow> i < length xs \<and> x = xs ! i"
  by (auto simp: go_index_def)

lemma go_index_None [simp]: "go_index xs i = None \<longleftrightarrow> length xs \<le> i"
  by (auto simp: go_index_def)

lemma go_from_Some [simp]: "go_from xs i = Some ys \<longleftrightarrow> i \<le> length xs \<and> ys = drop i xs"
  by (auto simp: go_from_def)

lemma go_from_None [simp]: "go_from xs i = None \<longleftrightarrow> length xs < i"
  by (auto simp: go_from_def)

lemma go_slice_Some [simp]:
  "go_slice xs lo hi = Some ys \<longleftrightarrow>
     lo \<le> hi \<and> hi \<le> length xs \<and> ys = take (hi - lo) (drop lo xs)"
  by (auto simp: go_slice_def)

lemmas go_run = go_index_def go_from_def go_slice_def
declare go_run [go_simps]

section \<open>Words\<close>

text \<open>
  Comparisons of word literals with 0 and 1 that the simplifier does not decide by
  itself; they make closed instances evaluate.
\<close>

lemma word_lit_cmp [simp]:
  "(numeral n :: uint64) \<le> 1 \<longleftrightarrow> unat (numeral n :: uint64) \<le> 1"
  "(1 :: uint64) < numeral n \<longleftrightarrow> 1 < unat (numeral n :: uint64)"
  by (simp_all add: word_le_nat_alt word_less_nat_alt)

lemma unat_Suc64: "x \<noteq> MaxUint64 \<Longrightarrow> unat (x + 1) = Suc (unat x)" for x :: uint64
  by (metis add.commute add_eq_0_iff minus_minus unatSuc)

lemma unat_pred64: "x \<noteq> 0 \<Longrightarrow> unat (x - 1) = unat x - 1" for x :: uint64
  by (simp add: unat_minus_one)

lemma not_max64: "x < y \<Longrightarrow> x \<noteq> MaxUint64" for x y :: uint64
  using word_order.extremum_strict by blast

lemma below_succ64: "x < y \<Longrightarrow> x < x + 1" for x y :: uint64
  using not_max64 [of x y] by (simp add: word_less_nat_alt unat_Suc64)

lemma succ_le64: "x < y \<Longrightarrow> x + 1 \<le> y" for x y :: uint64
  using not_max64 [of x y] by (simp add: word_less_nat_alt word_le_nat_alt unat_Suc64)

lemma unat_add_of_nat:
  fixes x :: uint64
  assumes "unat x + n < 2 ^ 64"
  shows "unat (x + of_nat n) = unat x + n"
  using assms by (simp add: unat_word_ariths unat_of_nat)

lemma unat_of_nat64: "n < 2 ^ 64 \<Longrightarrow> unat (of_nat n :: uint64) = n"
  by (simp add: unat_of_nat)

lemma uint_of_int64: "0 \<le> k \<Longrightarrow> k < 2 ^ 64 \<Longrightarrow> uint (word_of_int k :: uint64) = k"
  by (simp add: unsigned_of_int take_bit_int_eq_self)

lemma unat_sub64: "y \<le> x \<Longrightarrow> unat (x - y) = unat x - unat y" for x y :: uint64
  by (simp add: unat_sub)

lemma unat_lt64 [simp]: "unat (x :: uint64) < 18446744073709551616"
  using unsigned_less [of x] by simp

section \<open>Lists\<close>

text \<open>
  In a sorted list, the element at position \<open>k\<close> is at least \<open>v\<close> exactly when the list
  holds at least \<open>length - k\<close> elements that are.
\<close>

lemma sorted_nth_ge_iff:
  fixes xs :: "'a::linorder list"
  assumes "sorted xs" and "k < length xs"
  shows "v \<le> xs ! k \<longleftrightarrow> length xs - k \<le> length (filter (\<lambda>x. v \<le> x) xs)"
proof
  assume v: "v \<le> xs ! k"
  have "v \<le> xs ! (k + i)" if "i < length xs - k" for i
    using order_trans [OF v sorted_nth_mono [OF assms(1), of k "k + i"]] that by simp
  then have "\<forall>x \<in> set (drop k xs). v \<le> x"
    by (auto simp: in_set_conv_nth)
  then have "length (filter (\<lambda>x. v \<le> x) (drop k xs)) = length xs - k"
    by simp
  moreover have "length (filter (\<lambda>x. v \<le> x) xs) =
      length (filter (\<lambda>x. v \<le> x) (take k xs)) + length (filter (\<lambda>x. v \<le> x) (drop k xs))"
    by (metis append_take_drop_id filter_append length_append)
  ultimately show "length xs - k \<le> length (filter (\<lambda>x. v \<le> x) xs)"
    by simp
next
  assume len: "length xs - k \<le> length (filter (\<lambda>x. v \<le> x) xs)"
  show "v \<le> xs ! k"
  proof (rule ccontr)
    assume nv: "\<not> v \<le> xs ! k"
    have "\<not> v \<le> xs ! i" if "i < Suc k" for i
      using nv order_trans [OF _ sorted_nth_mono [OF assms(1), of i k]] that assms(2) by auto
    then have "\<forall>x \<in> set (take (Suc k) xs). \<not> v \<le> x"
      by (auto simp: in_set_conv_nth)
    then have "filter (\<lambda>x. v \<le> x) (take (Suc k) xs) = []"
      by (simp add: filter_empty_conv)
    then have "filter (\<lambda>x. v \<le> x) xs = filter (\<lambda>x. v \<le> x) (drop (Suc k) xs)"
      by (metis append_take_drop_id filter_append append_Nil)
    then have "length (filter (\<lambda>x. v \<le> x) xs) \<le> length xs - Suc k"
      by (metis length_drop length_filter_le)
    with len assms(2) show False by simp
  qed
qed

lemma take_drop_nth_eq:
  "i < length xs \<Longrightarrow> take 1 (drop i xs) = [xs ! i]"
  by (simp add: take_Suc_conv_app_nth hd_drop_conv_nth take_Suc Cons_nth_drop_Suc [symmetric])

text \<open>The steps of a \<open>do\<close> block that did not panic, one by one.\<close>

lemma bindE:
  assumes "Option.bind x f = Some z"
  obtains y where "x = Some y" and "f y = Some z"
  using assms by (auto simp: bind_Some_conv)

lemma bind_prodE:
  assumes "Option.bind x (case_prod f) = Some z"
  obtains a b where "x = Some (a, b)" and "f a b = Some z"
  using assms by (auto simp: bind_Some_conv)

end
