(* ===== verification/Quorum.thy ===== *)
theory Quorum
  imports Prelude
begin

text \<open>
  The package \<^verbatim>\<open>quorum\<close> (src/raftsubject/quorum): majority and joint configurations,
  the committed index they agree on and the result of a vote. A Go map
  \<^verbatim>\<open>map[uint64]struct{}\<close> is a set, nil being \<open>None\<close>; ranging over it visits the members
  in some order, which the loops take as a list. The locales state what a client of a
  configuration relies on: a quorum system, a vote count and a commit count over it; they
  are interpreted for majority and for joint configurations.
\<close>

section \<open>The configurations\<close>

type_synonym Index = uint64

text \<open>\<^verbatim>\<open>AckedIndex(voterID) (idx, found)\<close>, the method of the interface \<^verbatim>\<open>AckedIndexer\<close>.\<close>

type_synonym AckedIndexer = "uint64 \<Rightarrow> Index option"

datatype VoteResult = VotePending | VoteLost | VoteWon

type_synonym MajorityConfig = "uint64 set option"
type_synonym JointConfig = "MajorityConfig \<times> MajorityConfig"

definition elems :: "uint64 set option \<Rightarrow> uint64 set" where
  "elems c = (case c of None \<Rightarrow> {} | Some s \<Rightarrow> s)"

definition MajorityConfig_Slice :: "MajorityConfig \<Rightarrow> uint64 list" where
  "MajorityConfig_Slice c = sorted_list_of_set (elems c)"

text \<open>
  \<^verbatim>\<open>CommittedIndex\<close>: the acknowledged indexes fill a zeroed slice of length \<open>n\<close> from the
  right, in the order the map is ranged over; the slice is sorted and read at
  \<open>n - (n/2 + 1)\<close>.
\<close>

fun fillAcked :: "AckedIndexer \<Rightarrow> uint64 list \<Rightarrow> int \<Rightarrow> uint64 list \<Rightarrow> uint64 list" where
  "fillAcked l [] i srt = srt"
| "fillAcked l (v # ids) i srt =
     (case l v of
        Some idx \<Rightarrow> fillAcked l ids (i - 1) (srt[nat i := idx])
      | None \<Rightarrow> fillAcked l ids i srt)"

definition CommittedIndexOver :: "uint64 list \<Rightarrow> AckedIndexer \<Rightarrow> Index" where
  "CommittedIndexOver ids l =
     (let n = length ids in
      if n = 0 then MaxUint64
      else let srt = sort (fillAcked l ids (int n - 1) (replicate n 0));
               pos = n - (n div 2 + 1)
           in srt ! pos)"

definition MajorityConfig_CommittedIndex :: "MajorityConfig \<Rightarrow> AckedIndexer \<Rightarrow> Index" where
  "MajorityConfig_CommittedIndex c l = CommittedIndexOver (MajorityConfig_Slice c) l"

fun tallyVotes :: "(uint64 \<rightharpoonup> bool) \<Rightarrow> uint64 list \<Rightarrow> nat \<Rightarrow> nat \<Rightarrow> nat \<times> nat" where
  "tallyVotes votes [] votedCnt missing = (votedCnt, missing)"
| "tallyVotes votes (v # ids) votedCnt missing =
     (case votes v of
        None \<Rightarrow> tallyVotes votes ids votedCnt (missing + 1)
      | Some b \<Rightarrow> tallyVotes votes ids (if b then votedCnt + 1 else votedCnt) missing)"

definition VoteResultOver :: "uint64 list \<Rightarrow> (uint64 \<rightharpoonup> bool) \<Rightarrow> VoteResult" where
  "VoteResultOver ids votes =
     (if ids = [] then VoteWon
      else let (votedCnt, missing) = tallyVotes votes ids 0 0;
               q = length ids div 2 + 1
           in if q \<le> votedCnt then VoteWon
              else if q \<le> votedCnt + missing then VotePending
              else VoteLost)"

definition MajorityConfig_VoteResult ::
    "MajorityConfig \<Rightarrow> (uint64 \<rightharpoonup> bool) \<Rightarrow> VoteResult" where
  "MajorityConfig_VoteResult c votes = VoteResultOver (MajorityConfig_Slice c) votes"

definition JointConfig_IDs :: "JointConfig \<Rightarrow> uint64 set" where
  "JointConfig_IDs c = elems (fst c) \<union> elems (snd c)"

definition JointConfig_CommittedIndex :: "JointConfig \<Rightarrow> AckedIndexer \<Rightarrow> Index" where
  "JointConfig_CommittedIndex c l =
     (let idx0 = MajorityConfig_CommittedIndex (fst c) l;
          idx1 = MajorityConfig_CommittedIndex (snd c) l
      in if idx0 < idx1 then idx0 else idx1)"

definition JointConfig_VoteResult :: "JointConfig \<Rightarrow> (uint64 \<rightharpoonup> bool) \<Rightarrow> VoteResult" where
  "JointConfig_VoteResult c votes =
     (let r1 = MajorityConfig_VoteResult (fst c) votes;
          r2 = MajorityConfig_VoteResult (snd c) votes
      in if r1 = r2 then r1
         else if r1 = VoteLost \<or> r2 = VoteLost then VoteLost
         else VotePending)"

section \<open>What a quorum is\<close>

text \<open>
  A set of nodes decides for a majority configuration when it holds more than half of the
  members; every set decides for the empty configuration, by the code's convention. It
  decides for a joint configuration when it decides for both halves.
\<close>

definition majority :: "MajorityConfig \<Rightarrow> uint64 set \<Rightarrow> bool" where
  "majority c A \<longleftrightarrow> elems c = {} \<or> card (elems c) div 2 + 1 \<le> card (A \<inter> elems c)"

definition joint_majority :: "JointConfig \<Rightarrow> uint64 set \<Rightarrow> bool" where
  "joint_majority c A \<longleftrightarrow> majority (fst c) A \<and> majority (snd c) A"

definition acked_ge :: "AckedIndexer \<Rightarrow> Index \<Rightarrow> uint64 set" where
  "acked_ge l i = {v. i = 0 \<or> (\<exists>x. l v = Some x \<and> i \<le> x)}"

definition voted :: "(uint64 \<rightharpoonup> bool) \<Rightarrow> bool \<Rightarrow> uint64 set" where
  "voted votes v = {n. votes n = Some v}"

lemma elems_simps [simp]: "elems None = {}" "elems (Some s) = s"
  by (simp_all add: elems_def)

lemma set_Slice [simp]: "set (MajorityConfig_Slice c) = elems c"
  by (simp add: MajorityConfig_Slice_def)

lemma distinct_Slice [simp]: "distinct (MajorityConfig_Slice c)"
  by (simp add: MajorityConfig_Slice_def)

lemma length_Slice [simp]: "length (MajorityConfig_Slice c) = card (elems c)"
  by (simp add: MajorityConfig_Slice_def)

lemma Slice_Nil_iff [simp]: "MajorityConfig_Slice c = [] \<longleftrightarrow> elems c = {}"
  by (metis set_Slice set_empty)

section \<open>The loops\<close>

lemma fillAcked_eq:
  assumes "length (List.map_filter l ids) \<le> k"
  shows "fillAcked l ids (int k - 1) (replicate k 0 @ ys) =
    replicate (k - length (List.map_filter l ids)) 0 @ rev (List.map_filter l ids) @ ys"
  using assms
proof (induction ids arbitrary: k ys)
  case Nil
  then show ?case by simp
next
  case (Cons v ids)
  show ?case
  proof (cases "l v")
    case None
    with Cons show ?thesis by (simp add: map_filter_simps)
  next
    case (Some idx)
    with Cons.prems obtain j where k: "k = Suc j"
      by (cases k) (auto simp: map_filter_simps)
    have "replicate k (0 :: uint64) = replicate j 0 @ [0]"
      by (simp add: k replicate_append_same)
    then have upd: "(replicate k 0 @ ys)[j := idx] = replicate j 0 @ idx # ys"
      by (simp add: list_update_append)
    from Cons.prems Some k have len: "length (List.map_filter l ids) \<le> j"
      by (simp add: map_filter_simps)
    from Cons.IH [OF len, of "idx # ys"] Some k upd show ?thesis
      by (simp add: map_filter_simps)
  qed
qed

lemma length_filter_map_filter:
  "length (filter P (List.map_filter l ids)) = length (filter (\<lambda>v. \<exists>x. l v = Some x \<and> P x) ids)"
  by (induction ids) (auto simp: map_filter_simps split: option.splits)

lemma length_map_filter_le: "length (List.map_filter l ids) \<le> length ids"
  by (induction ids) (auto simp: map_filter_simps split: option.splits)

lemma CommittedIndexOver_ge_iff:
  assumes "distinct ids" and "ids \<noteq> []"
  shows "i \<le> CommittedIndexOver ids l \<longleftrightarrow>
    length ids div 2 + 1 \<le> card (acked_ge l i \<inter> set ids)"
proof (cases "i = 0")
  case True
  with assms show ?thesis
    by (simp add: acked_ge_def distinct_card) (metis One_nat_def Suc_leI div_less_dividend
        length_greater_0_conv lessI numeral_2_eq_2)
next
  case False
  let ?n = "length ids"
  let ?ack = "List.map_filter l ids"
  let ?srt = "sort (fillAcked l ids (int ?n - 1) (replicate ?n 0))"
  have fill: "fillAcked l ids (int ?n - 1) (replicate ?n 0) =
      replicate (?n - length ?ack) 0 @ rev ?ack"
    using fillAcked_eq [of l ids ?n "[]"] by (simp add: length_map_filter_le)
  have len: "length ?srt = ?n"
    using length_map_filter_le [of l ids] by (simp add: fill)
  have "length (filter (\<lambda>x. i \<le> x) ?srt) = length (filter (\<lambda>x. i \<le> x) (fillAcked l ids (int ?n - 1) (replicate ?n 0)))"
    by (metis mset_filter mset_sort size_mset)
  also have "\<dots> = length (filter (\<lambda>x. i \<le> x) ?ack)"
    using False by (simp add: fill filter_replicate rev_filter [symmetric] del: rev_filter)
  also have "\<dots> = card (acked_ge l i \<inter> set ids)"
    using assms(1) False
    by (simp add: length_filter_map_filter acked_ge_def distinct_length_filter Collect_conj_eq
        Int_commute)
  finally have cnt: "length (filter (\<lambda>x. i \<le> x) ?srt) = card (acked_ge l i \<inter> set ids)" .
  have pos: "?n - (?n div 2 + 1) < ?n" and pos': "?n - (?n - (?n div 2 + 1)) = ?n div 2 + 1"
    using assms(2) by (cases ids; simp)+
  have "i \<le> ?srt ! (?n - (?n div 2 + 1)) \<longleftrightarrow> ?n div 2 + 1 \<le> card (acked_ge l i \<inter> set ids)"
    using sorted_nth_ge_iff [of ?srt "?n - (?n div 2 + 1)" i] pos pos' len cnt by simp
  then show ?thesis
    using assms(2) by (simp add: CommittedIndexOver_def Let_def)
qed

lemma tallyVotes_eq:
  "tallyVotes votes ids a b =
    (a + length (filter (\<lambda>v. votes v = Some True) ids), b + length (filter (\<lambda>v. votes v = None) ids))"
  by (induction ids arbitrary: a b) (auto split: option.splits)

lemma CommittedIndex_majority:
  "i \<le> MajorityConfig_CommittedIndex c l \<longleftrightarrow> majority c (acked_ge l i)"
proof (cases "elems c = {}")
  case True
  then show ?thesis
    by (simp add: MajorityConfig_CommittedIndex_def majority_def CommittedIndexOver_def)
next
  case False
  then show ?thesis
    using CommittedIndexOver_ge_iff [of "MajorityConfig_Slice c" i l]
    by (simp add: MajorityConfig_CommittedIndex_def majority_def)
qed

lemma CommittedIndex_joint:
  "i \<le> JointConfig_CommittedIndex c l \<longleftrightarrow> joint_majority c (acked_ge l i)"
proof -
  have "JointConfig_CommittedIndex c l =
      min (MajorityConfig_CommittedIndex (fst c) l) (MajorityConfig_CommittedIndex (snd c) l)"
    by (auto simp: JointConfig_CommittedIndex_def Let_def min_def)
  then show ?thesis
    by (simp add: joint_majority_def CommittedIndex_majority)
qed

lemma VoteResultOver_won_iff:
  assumes "distinct ids" and "ids \<noteq> []"
  shows "VoteResultOver ids votes = VoteWon \<longleftrightarrow>
    length ids div 2 + 1 \<le> card (voted votes True \<inter> set ids)"
  using assms
  by (simp add: VoteResultOver_def tallyVotes_eq Let_def voted_def distinct_length_filter
      Collect_conj_eq Int_commute)

lemma VoteResultOver_lost_iff:
  assumes "distinct ids" and "ids \<noteq> []"
  shows "VoteResultOver ids votes = VoteLost \<longleftrightarrow>
    \<not> length ids div 2 + 1 \<le> card ((- voted votes False) \<inter> set ids)"
proof -
  let ?yes = "{n. votes n = Some True} \<inter> set ids" and ?miss = "{n. votes n = None} \<inter> set ids"
  have "(- voted votes False) \<inter> set ids = ?yes \<union> ?miss"
    by (auto simp: voted_def)
  then have "card ((- voted votes False) \<inter> set ids) = card ?yes + card ?miss"
    by (subst card_Un_disjoint [symmetric]) auto
  with assms show ?thesis
    by (simp add: VoteResultOver_def tallyVotes_eq Let_def distinct_length_filter Collect_conj_eq
        Int_commute)
qed

lemma VoteResult_majority:
  "MajorityConfig_VoteResult c votes = VoteWon \<longleftrightarrow> majority c (voted votes True)"
  "MajorityConfig_VoteResult c votes = VoteLost \<longleftrightarrow> \<not> majority c (- voted votes False)"
proof -
  have "MajorityConfig_VoteResult c votes = VoteWon" if "elems c = {}"
    using that by (simp add: MajorityConfig_VoteResult_def VoteResultOver_def)
  then show
    "MajorityConfig_VoteResult c votes = VoteWon \<longleftrightarrow> majority c (voted votes True)"
    "MajorityConfig_VoteResult c votes = VoteLost \<longleftrightarrow> \<not> majority c (- voted votes False)"
    using VoteResultOver_won_iff [of "MajorityConfig_Slice c" votes]
      VoteResultOver_lost_iff [of "MajorityConfig_Slice c" votes]
    by (cases "elems c = {}"; simp add: majority_def MajorityConfig_VoteResult_def)+
qed

lemma VoteResult_joint:
  "JointConfig_VoteResult c votes = VoteWon \<longleftrightarrow> joint_majority c (voted votes True)"
  "JointConfig_VoteResult c votes = VoteLost \<longleftrightarrow> \<not> joint_majority c (- voted votes False)"
  using VoteResult_majority [of "fst c" votes] VoteResult_majority [of "snd c" votes]
  by (auto simp: JointConfig_VoteResult_def Let_def joint_majority_def split: if_splits)

lemma majority_mono:
  assumes "majority c A" and "A \<subseteq> B"
  shows "majority c B"
proof -
  have "card (A \<inter> elems c) \<le> card (B \<inter> elems c)"
    using assms(2) by (intro card_mono) auto
  with assms(1) show ?thesis
    by (auto simp: majority_def)
qed

text \<open>Two sets that together outnumber a finite set they are drawn from share a member.\<close>

lemma overlap:
  fixes A B E :: "uint64 set"
  assumes "card E < card (A \<inter> E) + card (B \<inter> E)"
  shows "A \<inter> B \<inter> E \<noteq> {}"
proof
  assume "A \<inter> B \<inter> E = {}"
  then have "card (A \<inter> E) + card (B \<inter> E) = card ((A \<inter> E) \<union> (B \<inter> E))"
    by (subst card_Un_disjoint) auto
  also have "\<dots> \<le> card E"
    by (rule card_mono) auto
  finally show False using assms by simp
qed

lemma majority_meet:
  assumes "elems c \<noteq> {}" and "majority c A" and "majority c B"
  shows "A \<inter> B \<inter> elems c \<noteq> {}"
  using assms by (intro overlap) (auto simp: majority_def)

section \<open>The interfaces\<close>

locale quorum_system =
  fixes quorum :: "'c \<Rightarrow> uint64 set \<Rightarrow> bool"
    and members :: "'c \<Rightarrow> uint64 set"
  assumes quorum_mono: "quorum c A \<Longrightarrow> A \<subseteq> B \<Longrightarrow> quorum c B"
    and quorum_members: "quorum c (A \<inter> members c) = quorum c A"
    and quorum_meet: "members c \<noteq> {} \<Longrightarrow> quorum c A \<Longrightarrow> quorum c B \<Longrightarrow> A \<inter> B \<inter> members c \<noteq> {}"

locale voting = quorum_system +
  fixes vote_result :: "'c \<Rightarrow> (uint64 \<rightharpoonup> bool) \<Rightarrow> VoteResult"
  assumes won_iff: "vote_result c votes = VoteWon \<longleftrightarrow> quorum c (voted votes True)"
    and lost_iff: "vote_result c votes = VoteLost \<longleftrightarrow> \<not> quorum c (- voted votes False)"
begin

lemma won_twice_common_voter:
  assumes "members c \<noteq> {}" and "vote_result c v = VoteWon" and "vote_result c w = VoteWon"
  shows "\<exists>n \<in> members c. v n = Some True \<and> w n = Some True"
  using quorum_meet [OF assms(1)] assms(2,3) by (fastforce simp: won_iff voted_def)

lemma won_stable:
  assumes "v \<subseteq>\<^sub>m w" and "vote_result c v = VoteWon"
  shows "vote_result c w = VoteWon"
  using assms by (auto simp: won_iff voted_def map_le_def dom_def elim!: quorum_mono)

lemma lost_stable:
  assumes "v \<subseteq>\<^sub>m w" and "vote_result c v = VoteLost"
  shows "vote_result c w = VoteLost"
proof -
  have "- voted w False \<subseteq> - voted v False"
    using assms(1) by (auto simp: voted_def map_le_def dom_def)
  with assms(2) show ?thesis
    by (auto simp: lost_iff dest: quorum_mono)
qed

lemma all_voted_decided:
  assumes "\<And>n. n \<in> members c \<Longrightarrow> v n \<noteq> None"
  shows "vote_result c v \<noteq> VotePending"
proof
  assume pending: "vote_result c v = VotePending"
  then have "quorum c (- voted v False)"
    using lost_iff [of c v] by simp
  then have "quorum c ((- voted v False) \<inter> members c)"
    by (simp add: quorum_members)
  moreover have "(- voted v False) \<inter> members c \<subseteq> voted v True"
    using assms by (fastforce simp: voted_def)
  ultimately have "vote_result c v = VoteWon"
    by (auto simp: won_iff intro: quorum_mono)
  with pending show False by simp
qed

end

locale committing = quorum_system +
  fixes committed_index :: "'c \<Rightarrow> AckedIndexer \<Rightarrow> Index"
  assumes committed_iff: "i \<le> committed_index c l \<longleftrightarrow> quorum c (acked_ge l i)"
begin

lemma committed_acks_mono:
  assumes "\<And>n x. l n = Some x \<Longrightarrow> \<exists>y. l' n = Some y \<and> x \<le> y"
  shows "committed_index c l \<le> committed_index c l'"
proof -
  have "quorum c (acked_ge l (committed_index c l))"
    by (simp flip: committed_iff)
  moreover have "acked_ge l (committed_index c l) \<subseteq> acked_ge l' (committed_index c l)"
    using assms by (fastforce simp: acked_ge_def)
  ultimately show ?thesis
    by (auto simp: committed_iff intro: quorum_mono)
qed

end

locale deciding = voting quorum members vote_result + committing quorum members committed_index
  for quorum :: "'c \<Rightarrow> uint64 set \<Rightarrow> bool" and members vote_result committed_index
begin

lemma winner_knows_committed:
  assumes "members c \<noteq> {}" and "0 < i" and "i \<le> committed_index c l"
    and "vote_result c v = VoteWon"
  shows "\<exists>n \<in> members c. v n = Some True \<and> (\<exists>x. l n = Some x \<and> i \<le> x)"
proof -
  have "quorum c (acked_ge l i)" and "quorum c (voted v True)"
    using assms by (simp_all add: committed_iff won_iff)
  then have "acked_ge l i \<inter> voted v True \<inter> members c \<noteq> {}"
    by (rule quorum_meet [OF assms(1)])
  with assms(2) show ?thesis
    by (auto simp: acked_ge_def voted_def)
qed

end

interpretation maj: deciding majority elems MajorityConfig_VoteResult MajorityConfig_CommittedIndex
  by unfold_locales
    (auto simp: majority_mono majority_meet VoteResult_majority CommittedIndex_majority,
     simp_all add: majority_def Int_assoc)

interpretation jnt: deciding joint_majority JointConfig_IDs JointConfig_VoteResult
  JointConfig_CommittedIndex
proof unfold_locales
  fix c :: JointConfig and A B :: "uint64 set"
  show "joint_majority c A \<Longrightarrow> A \<subseteq> B \<Longrightarrow> joint_majority c B"
    by (auto simp: joint_majority_def intro: majority_mono)
  have "A \<inter> JointConfig_IDs c \<inter> elems (fst c) = A \<inter> elems (fst c)"
    and "A \<inter> JointConfig_IDs c \<inter> elems (snd c) = A \<inter> elems (snd c)"
    by (auto simp: JointConfig_IDs_def)
  then show "joint_majority c (A \<inter> JointConfig_IDs c) = joint_majority c A"
    by (simp add: joint_majority_def majority_def)
  show "JointConfig_IDs c \<noteq> {} \<Longrightarrow> joint_majority c A \<Longrightarrow> joint_majority c B \<Longrightarrow>
      A \<inter> B \<inter> JointConfig_IDs c \<noteq> {}"
    using majority_meet [of "fst c" A B] majority_meet [of "snd c" A B]
    by (auto simp: joint_majority_def JointConfig_IDs_def)
qed (auto simp: VoteResult_joint CommittedIndex_joint)

section \<open>Properties\<close>

text \<open>
  C13. The committed index of a joint configuration is the largest index that a majority of
  each half has acknowledged (a voter that has not reported counts as having acknowledged
  0, an empty half agrees to everything).
\<close>

theorem joint_committed_index_iff:
  "i \<le> JointConfig_CommittedIndex c l \<longleftrightarrow> joint_majority c (acked_ge l i)"
  by (rule CommittedIndex_joint)

text \<open>
  C14. A vote is won exactly when a majority of each half has said yes, and lost exactly
  when the nodes that have not said no are no majority of some half.
\<close>

theorem joint_vote_result_iff:
  "(JointConfig_VoteResult c votes = VoteWon \<longleftrightarrow> joint_majority c (voted votes True)) \<and>
   (JointConfig_VoteResult c votes = VoteLost \<longleftrightarrow> \<not> joint_majority c (- voted votes False))"
  using VoteResult_joint [of c votes] by simp

text \<open>
  A decided vote stays decided: ballots that come in later change neither a won nor a
  lost election.
\<close>

lemma joint_vote_decision_stable:
  assumes "votes \<subseteq>\<^sub>m votes'" and "JointConfig_VoteResult c votes \<noteq> VotePending"
  shows "JointConfig_VoteResult c votes' = JointConfig_VoteResult c votes"
  using assms jnt.won_stable jnt.lost_stable by (cases "JointConfig_VoteResult c votes") auto

lemma joint_vote_decision_stable_demo:
  "JointConfig_VoteResult (Some {1, 2, 3}, None) [1 \<mapsto> True, 2 \<mapsto> True, 3 \<mapsto> False] =
   JointConfig_VoteResult (Some {1, 2, 3}, None) [1 \<mapsto> True, 2 \<mapsto> True]"
proof (rule joint_vote_decision_stable)
  show "[1 \<mapsto> True, 2 \<mapsto> True] \<subseteq>\<^sub>m [1 :: uint64 \<mapsto> True, 2 \<mapsto> True, 3 \<mapsto> False]"
    by (auto simp: map_le_def)
  show "JointConfig_VoteResult (Some {1, 2, 3}, None) [1 \<mapsto> True, 2 \<mapsto> True] \<noteq> VotePending"
    by (simp add: JointConfig_VoteResult_def MajorityConfig_VoteResult_def VoteResultOver_def
        MajorityConfig_Slice_def)
qed

text \<open>
  The order in which a Go map is ranged over does not matter: any duplicate-free
  enumeration of the members gives the committed index and the vote result that the
  sorted enumeration gives.
\<close>

lemma committed_index_range_order:
  assumes "distinct ids" and "set ids = elems c"
  shows "CommittedIndexOver ids l = MajorityConfig_CommittedIndex c l \<and>
    VoteResultOver ids votes = MajorityConfig_VoteResult c votes"
proof (cases "ids = []")
  case True
  with assms show ?thesis
    by (simp add: MajorityConfig_CommittedIndex_def MajorityConfig_VoteResult_def
        CommittedIndexOver_def VoteResultOver_def)
next
  case False
  with assms have ne: "elems c \<noteq> {}" and len: "length ids = card (elems c)"
    by (auto simp: distinct_card [symmetric])
  have "i \<le> CommittedIndexOver ids l \<longleftrightarrow> i \<le> MajorityConfig_CommittedIndex c l" for i
    using CommittedIndexOver_ge_iff [OF assms(1) False] assms(2) ne len
    by (simp add: CommittedIndex_majority majority_def)
  then have "CommittedIndexOver ids l = MajorityConfig_CommittedIndex c l"
    by (meson order_antisym order_refl)
  moreover have "VoteResultOver ids votes = MajorityConfig_VoteResult c votes"
    using VoteResultOver_won_iff [OF assms(1) False, of votes]
      VoteResultOver_lost_iff [OF assms(1) False, of votes]
      VoteResult_majority [of c votes] assms(2) ne len
    by (cases "VoteResultOver ids votes"; cases "MajorityConfig_VoteResult c votes")
      (auto simp: majority_def)
  ultimately show ?thesis by simp
qed

lemma committed_index_range_order_demo:
  "CommittedIndexOver [3, 1, 2] [1 \<mapsto> 5, 2 \<mapsto> 7] =
     MajorityConfig_CommittedIndex (Some {1, 2, 3}) [1 \<mapsto> 5, 2 \<mapsto> 7] \<and>
   VoteResultOver [3, 1, 2] [1 \<mapsto> True, 2 \<mapsto> True] =
     MajorityConfig_VoteResult (Some {1, 2, 3}) [1 \<mapsto> True, 2 \<mapsto> True]"
  by (rule committed_index_range_order) auto

text \<open>
  Whoever wins a vote of a non-empty joint configuration has the vote of a node that
  acknowledged every committed index of that configuration.
\<close>

lemma winner_has_committed_voter:
  assumes "JointConfig_IDs c \<noteq> {}" and "0 < i" and "i \<le> JointConfig_CommittedIndex c l"
    and "JointConfig_VoteResult c v = VoteWon"
  shows "\<exists>n \<in> JointConfig_IDs c. v n = Some True \<and> (\<exists>x. l n = Some x \<and> i \<le> x)"
  by (rule jnt.winner_knows_committed [OF assms])

lemma winner_has_committed_voter_demo:
  "\<exists>n \<in> JointConfig_IDs (Some {1, 2, 3}, Some {1, 2}).
     [1 \<mapsto> True, 2 \<mapsto> True] n = Some True \<and> (\<exists>x. [1 \<mapsto> 4, 2 \<mapsto> 7] n = Some x \<and> 4 \<le> (x :: Index))"
  by (rule winner_has_committed_voter)
    (simp_all add: JointConfig_IDs_def JointConfig_VoteResult_def MajorityConfig_VoteResult_def
      VoteResultOver_def MajorityConfig_Slice_def JointConfig_CommittedIndex_def
      MajorityConfig_CommittedIndex_def CommittedIndexOver_def)

end
