(* ===== verification/Inflights.thy ===== *)
theory Inflights
  imports Prelude
begin

text \<open>
  The sliding window of in-flight appends (src/raftsubject/tracker/inflights.go): a ring
  buffer that grows on demand. Its contents, oldest first, are the list \<open>window\<close>; the locale
  \<open>flow_window\<close> is the contract of a bounded FIFO window, and the interpretation shows that
  the ring buffer keeps it. The sizes and positions are natural numbers: the subtractions of
  the code are guarded.
\<close>

section \<open>The ring buffer\<close>

record inflight =
  ifIndex :: uint64
  ifBytes :: uint64

record Inflights =
  inStart :: nat
  inCount :: nat
  inBytes :: uint64
  inSize :: nat
  inMaxBytes :: uint64
  inBuffer :: "inflight list"

definition NewInflights :: "nat \<Rightarrow> uint64 \<Rightarrow> Inflights" where
  "NewInflights siz maxb =
     \<lparr>inStart = 0, inCount = 0, inBytes = 0, inSize = siz, inMaxBytes = maxb, inBuffer = []\<rparr>"

definition Inflights_Full :: "Inflights \<Rightarrow> bool" where
  "Inflights_Full s \<longleftrightarrow> inCount s = inSize s \<or> (inMaxBytes s \<noteq> 0 \<and> inMaxBytes s \<le> inBytes s)"

definition Inflights_Count :: "Inflights \<Rightarrow> nat" where
  "Inflights_Count s = inCount s"

definition Inflights_Clone :: "Inflights \<Rightarrow> Inflights" where
  "Inflights_Clone s = s"

definition Inflights_grow :: "Inflights \<Rightarrow> Inflights" where
  "Inflights_grow s =
     (let newSize = length (inBuffer s) * 2;
          newSize = (if newSize = 0 then 1 else if inSize s < newSize then inSize s else newSize)
      in s\<lparr>inBuffer := take newSize (inBuffer s) @
             replicate (newSize - length (inBuffer s)) \<lparr>ifIndex = 0, ifBytes = 0\<rparr>\<rparr>)"

definition Inflights_Add :: "uint64 \<Rightarrow> uint64 \<Rightarrow> Inflights \<Rightarrow> Inflights option" where
  "Inflights_Add idx b s = do {
     panic_if (Inflights_Full s);
     let next = inStart s + inCount s;
     let next = (if inSize s \<le> next then next - inSize s else next);
     let s = (if length (inBuffer s) \<le> next then Inflights_grow s else s);
     panic_if (length (inBuffer s) \<le> next);
     Some (s\<lparr>inBuffer := (inBuffer s)[next := \<lparr>ifIndex = idx, ifBytes = b\<rparr>],
             inCount := inCount s + 1, inBytes := inBytes s + b\<rparr>)
   }"

text \<open>The loop of \<^verbatim>\<open>FreeLE\<close>: \<open>n\<close> messages are left to look at, of which those above \<open>lim\<close> stay.\<close>

fun freeLoop :: "Inflights \<Rightarrow> uint64 \<Rightarrow> nat \<Rightarrow> nat \<Rightarrow> uint64 \<Rightarrow> (nat \<times> nat \<times> uint64) option" where
  "freeLoop s lim 0 idx b = Some (0, idx, b)"
| "freeLoop s lim (Suc n) idx b = do {
     x \<leftarrow> go_index (inBuffer s) idx;
     if lim < ifIndex x then Some (Suc n, idx, b)
     else freeLoop s lim n (if inSize s \<le> idx + 1 then idx + 1 - inSize s else idx + 1) (b + ifBytes x)
   }"

definition Inflights_FreeLE :: "uint64 \<Rightarrow> Inflights \<Rightarrow> Inflights option" where
  "Inflights_FreeLE lim s =
     (if inCount s = 0 then Some s
      else do {
        x \<leftarrow> go_index (inBuffer s) (inStart s);
        if lim < ifIndex x then Some s
        else do {
          (n, idx, b) \<leftarrow> freeLoop s lim (inCount s) (inStart s) 0;
          let s = s\<lparr>inCount := n, inBytes := inBytes s - b, inStart := idx\<rparr>;
          Some (if inCount s = 0 then s\<lparr>inStart := 0\<rparr> else s)
        }
      })"

definition Inflights_reset :: "Inflights \<Rightarrow> Inflights" where
  "Inflights_reset s = s\<lparr>inStart := 0, inCount := 0, inBytes := 0\<rparr>"

section \<open>Its contents\<close>

definition slot :: "Inflights \<Rightarrow> nat \<Rightarrow> nat" where
  "slot s i = (if inSize s \<le> inStart s + i then inStart s + i - inSize s else inStart s + i)"

definition window :: "Inflights \<Rightarrow> inflight list" where
  "window s = map (\<lambda>i. inBuffer s ! slot s i) [0..<inCount s]"

text \<open>
  The invariant: the messages lie in allocated slots, the buffer is no larger than the
  window, an empty window starts at 0, and the byte count is the sum of the messages' sizes.
\<close>

definition inflights_inv :: "Inflights \<Rightarrow> bool" where
  "inflights_inv s \<longleftrightarrow> inCount s \<le> inSize s \<and> inStart s < max 1 (inSize s) \<and>
     length (inBuffer s) \<le> max 1 (inSize s) \<and> (inCount s = 0 \<longrightarrow> inStart s = 0) \<and>
     (\<forall>i < inCount s. slot s i < length (inBuffer s)) \<and>
     inBytes s = sum_list (map ifBytes (window s))"

lemma length_window [simp]: "length (window s) = inCount s"
  by (simp add: window_def)

lemma inflights_new: "inflights_inv (NewInflights siz maxb) \<and> window (NewInflights siz maxb) = []"
  by (simp add: inflights_inv_def NewInflights_def window_def)

lemma inflights_reset:
  "inflights_inv s \<Longrightarrow> inflights_inv (Inflights_reset s) \<and> window (Inflights_reset s) = []"
  by (simp add: inflights_inv_def Inflights_reset_def window_def)

lemma slot_inj:
  "inStart s < inSize s \<Longrightarrow> i < inCount s \<Longrightarrow> inCount s < inSize s \<Longrightarrow> slot s (inCount s) \<noteq> slot s i"
  by (auto simp: slot_def)

text \<open>The slot after the last message is allocated, or is the first one past the buffer.\<close>

lemma next_slot:
  assumes "inflights_inv s" and "inCount s < inSize s"
  shows "slot s (inCount s) \<le> length (inBuffer s)" and "slot s (inCount s) < inSize s"
proof -
  have st: "inStart s < inSize s" using assms by (simp add: inflights_inv_def)
  then show lt: "slot s (inCount s) < inSize s"
    using assms(2) by (auto simp: slot_def)
  show "slot s (inCount s) \<le> length (inBuffer s)"
  proof (cases "inCount s")
    case 0
    with assms show ?thesis by (simp add: inflights_inv_def slot_def)
  next
    case (Suc n)
    with assms(1) have "slot s n < length (inBuffer s)" by (simp add: inflights_inv_def)
    with Suc st lt show ?thesis
      by (auto simp: slot_def split: if_splits)
  qed
qed

lemma grow_buffer:
  assumes "inflights_inv s" and "inCount s < inSize s" and "length (inBuffer s) \<le> slot s (inCount s)"
  shows "slot s (inCount s) < length (inBuffer (Inflights_grow s))"
    and "length (inBuffer (Inflights_grow s)) \<le> inSize s"
    and "i < length (inBuffer s) \<Longrightarrow> inBuffer (Inflights_grow s) ! i = inBuffer s ! i"
proof -
  note ns = next_slot [OF assms(1,2)]
  have len: "length (inBuffer s) < inSize s" using ns assms(3) by simp
  then show "slot s (inCount s) < length (inBuffer (Inflights_grow s))"
    and "length (inBuffer (Inflights_grow s)) \<le> inSize s"
    using ns by (auto simp: Inflights_grow_def Let_def simp flip: length_greater_0_conv)
  show "inBuffer (Inflights_grow s) ! i = inBuffer s ! i" if "i < length (inBuffer s)"
    using that len by (auto simp: Inflights_grow_def Let_def nth_append)
qed

lemma inflights_add:
  assumes "inflights_inv s" and "\<not> Inflights_Full s"
  shows "\<exists>s'. Inflights_Add idx b s = Some s' \<and> inflights_inv s' \<and>
    window s' = window s @ [\<lparr>ifIndex = idx, ifBytes = b\<rparr>] \<and> inSize s' = inSize s \<and> inMaxBytes s' = inMaxBytes s"
proof -
  have cnt: "inCount s < inSize s"
    using assms by (auto simp: inflights_inv_def Inflights_Full_def)
  then have st: "inStart s < inSize s" using assms(1) by (simp add: inflights_inv_def)
  let ?n = "slot s (inCount s)" and ?x = "\<lparr>ifIndex = idx, ifBytes = b\<rparr>"
  define g where "g = (if length (inBuffer s) \<le> ?n then Inflights_grow s else s)"
  have g: "inStart g = inStart s" "inCount g = inCount s" "inSize g = inSize s"
      "inBytes g = inBytes s" "inMaxBytes g = inMaxBytes s"
    by (simp_all add: g_def Inflights_grow_def Let_def)
  have n: "?n < length (inBuffer g)" "length (inBuffer g) \<le> inSize s"
    using grow_buffer(1,2) [OF assms(1) cnt] cnt assms(1) by (auto simp: inflights_inv_def g_def)
  have old: "slot s i < length (inBuffer g) \<and> inBuffer g ! slot s i = inBuffer s ! slot s i"
    if "i < inCount s" for i
  proof -
    have "slot s i < length (inBuffer s)" using assms(1) that by (simp add: inflights_inv_def)
    then show ?thesis
      using grow_buffer [OF assms(1) cnt] next_slot(1) [OF assms(1) cnt] by (auto simp: g_def)
  qed
  define s' where "s' = g\<lparr>inBuffer := (inBuffer g)[?n := ?x], inCount := inCount s + 1, inBytes := inBytes s + b\<rparr>"
  have add: "Inflights_Add idx b s = Some s'"
    using assms(2) n
    by (simp add: Inflights_Add_def slot_def [symmetric] s'_def g Let_def flip: g_def)
  have slot: "slot s' i = slot s i" for i
    by (simp add: s'_def slot_def g)
  have nth: "inBuffer s' ! slot s i = (if i = inCount s then ?x else inBuffer s ! slot s i)"
    if "i \<le> inCount s" for i
    using old [of i] n that slot_inj [OF st _ cnt, of i] by (auto simp: s'_def nth_list_update)
  have win: "window s' = window s @ [?x]"
    using nth by (simp add: window_def slot) (simp add: s'_def nth)
  have "inflights_inv s'"
    unfolding inflights_inv_def
  proof (intro conjI allI impI)
    fix i assume "i < inCount s'"
    then show "slot s' i < length (inBuffer s')"
      using old [of i] n by (cases "i = inCount s") (auto simp: slot, auto simp: s'_def g)
  next
    show "inBytes s' = sum_list (map ifBytes (window s'))"
      using assms(1) by (simp add: win) (simp add: s'_def inflights_inv_def)
  qed (use cnt st n in \<open>auto simp: s'_def g\<close>)
  with add win show ?thesis by (auto simp: s'_def g)
qed

lemma slot_Suc:
  assumes "inStart s < inSize s" and "i < inSize s"
  shows "(if inSize s \<le> slot s i + 1 then slot s i + 1 - inSize s else slot s i + 1) = slot s (Suc i)"
  using assms by (auto simp: slot_def)

lemma freeLoop_eq:
  assumes "inflights_inv s" and "i + n = inCount s"
  shows "freeLoop s lim n (slot s i) b =
    (let r = dropWhile (\<lambda>x. ifIndex x \<le> lim) (drop i (window s))
     in Some (length r, slot s (inCount s - length r),
         b + sum_list (map ifBytes (takeWhile (\<lambda>x. ifIndex x \<le> lim) (drop i (window s))))))"
  using assms(2)
proof (induction n arbitrary: i b)
  case 0
  then show ?case by simp
next
  case (Suc n)
  then have i: "i < inCount s" by simp
  with assms(1) have st: "inStart s < inSize s" "i < inSize s" "slot s i < length (inBuffer s)"
    by (auto simp: inflights_inv_def)
  have drop: "drop i (window s) = inBuffer s ! slot s i # drop (Suc i) (window s)"
    using i by (simp add: Cons_nth_drop_Suc [symmetric] window_def)
  show ?case
  proof (cases "lim < ifIndex (inBuffer s ! slot s i)")
    case True
    then have "\<not> ifIndex (inBuffer s ! slot s i) \<le> lim" by simp
    moreover have "inCount s - Suc i = n" using Suc.prems by simp
    ultimately show ?thesis
      using st drop Suc.prems True by (auto simp: go_index_def Let_def)
  next
    case False
    have "freeLoop s lim (Suc n) (slot s i) b =
        freeLoop s lim n (slot s (Suc i)) (b + ifBytes (inBuffer s ! slot s i))"
      using False st by (simp add: go_index_def flip: slot_Suc [OF st(1,2)])
    also have "\<dots> = (let r = dropWhile (\<lambda>x. ifIndex x \<le> lim) (drop (Suc i) (window s))
       in Some (length r, slot s (inCount s - length r), b + ifBytes (inBuffer s ! slot s i) +
         sum_list (map ifBytes (takeWhile (\<lambda>x. ifIndex x \<le> lim) (drop (Suc i) (window s))))))"
      using Suc.IH [of "Suc i"] Suc.prems by simp
    finally show ?thesis
      using False drop by (simp add: Let_def not_less add.assoc)
  qed
qed

text \<open>The window after its \<open>k\<close> oldest messages are gone.\<close>

definition shifted :: "Inflights \<Rightarrow> nat \<Rightarrow> Inflights" where
  "shifted s k = s\<lparr>inCount := inCount s - k, inBytes := sum_list (map ifBytes (drop k (window s))),
     inStart := if k = inCount s then 0 else slot s k\<rparr>"

lemma slot_shifted:
  assumes "inflights_inv s" and "i < inCount s - k"
  shows "slot (shifted s k) i = slot s (k + i)"
  using assms by (auto simp: shifted_def slot_def inflights_inv_def)

lemma inflights_shifted:
  assumes "inflights_inv s" and "k \<le> inCount s"
  shows "inflights_inv (shifted s k)" and "window (shifted s k) = drop k (window s)"
proof -
  show win: "window (shifted s k) = drop k (window s)"
  proof (rule nth_equalityI)
    show "length (window (shifted s k)) = length (drop k (window s))"
      using assms by (simp add: shifted_def)
    fix i assume "i < length (window (shifted s k))"
    then have i: "i < inCount s - k" by (simp add: shifted_def)
    then show "window (shifted s k) ! i = drop k (window s) ! i"
      using slot_shifted [OF assms(1) i] by (simp add: window_def) (simp add: shifted_def)
  qed
  have st: "slot s k < max 1 (inSize s)" if "k < inCount s"
    using assms(1) that by (auto simp: slot_def inflights_inv_def)
  show "inflights_inv (shifted s k)"
    unfolding inflights_inv_def win
  proof (intro conjI allI impI)
    fix i assume "i < inCount (shifted s k)"
    then have i: "i < inCount s - k" by (simp add: shifted_def)
    then show "slot (shifted s k) i < length (inBuffer (shifted s k))"
      using slot_shifted [OF assms(1) i] assms(1) by (simp add: inflights_inv_def) (simp add: shifted_def)
  qed (use assms st in \<open>auto simp: shifted_def inflights_inv_def\<close>)
qed

lemma FreeLE_shifted:
  assumes "inflights_inv s"
  shows "Inflights_FreeLE lim s =
    Some (shifted s (length (takeWhile (\<lambda>x. ifIndex x \<le> lim) (window s))))"
proof (cases "inCount s = 0")
  case True
  with assms show ?thesis
    by (simp add: Inflights_FreeLE_def window_def shifted_def inflights_inv_def)
next
  case False
  define t r where "t = takeWhile (\<lambda>x. ifIndex x \<le> lim) (window s)"
    and "r = dropWhile (\<lambda>x. ifIndex x \<le> lim) (window s)"
  have w: "window s = t @ r" by (simp add: t_def r_def)
  then have len: "inCount s = length t + length r" by (metis length_append length_window)
  have slot0: "slot s 0 = inStart s" and st: "inStart s < length (inBuffer s)"
    using assms False by (force simp: inflights_inv_def slot_def)+
  have hd: "window s = inBuffer s ! inStart s # tl (window s)"
    using False slot0 by (simp add: window_def upt_conv_Cons)
  have bytes: "inBytes s = sum_list (map ifBytes t) + sum_list (map ifBytes r)"
    using assms by (simp add: inflights_inv_def w)
  show ?thesis
  proof (cases "lim < ifIndex (inBuffer s ! inStart s)")
    case True
    then have "t = []" unfolding t_def by (subst hd) simp
    with False bytes w have "shifted s (length t) = s"
      by (simp add: shifted_def slot0)
    with True False st show ?thesis
      unfolding t_def [symmetric] by (simp add: Inflights_FreeLE_def go_index_def)
  next
    case ge: False
    have "freeLoop s lim (inCount s) (slot s 0) 0 =
        Some (length r, slot s (inCount s - length r), sum_list (map ifBytes t))"
      using freeLoop_eq [OF assms, of 0 "inCount s" lim 0] by (simp add: Let_def flip: t_def r_def)
    with False ge st len bytes w show ?thesis
      unfolding t_def [symmetric]
      by (auto simp: Inflights_FreeLE_def go_index_def slot0 shifted_def Let_def)
  qed
qed

lemma inflights_free:
  assumes "inflights_inv s"
  shows "\<exists>s'. Inflights_FreeLE lim s = Some s' \<and> inflights_inv s' \<and>
    window s' = dropWhile (\<lambda>x. ifIndex x \<le> lim) (window s) \<and>
    inSize s' = inSize s \<and> inMaxBytes s' = inMaxBytes s"
proof -
  let ?k = "length (takeWhile (\<lambda>x. ifIndex x \<le> lim) (window s))"
  have "?k \<le> inCount s" by (metis length_takeWhile_le length_window)
  from inflights_shifted [OF assms this] show ?thesis
    by (simp add: FreeLE_shifted [OF assms] dropWhile_eq_drop) (simp add: shifted_def)
qed

section \<open>The contract\<close>

text \<open>
  A bounded flow window over some implementation: what its client sees is the list of the
  messages in flight, oldest first.
\<close>

locale flow_window =
  fixes inv :: "'s \<Rightarrow> bool" and contents :: "'s \<Rightarrow> inflight list"
    and limit :: "'s \<Rightarrow> nat" and byte_limit :: "'s \<Rightarrow> uint64"
    and full :: "'s \<Rightarrow> bool" and add :: "uint64 \<Rightarrow> uint64 \<Rightarrow> 's \<Rightarrow> 's option"
    and free :: "uint64 \<Rightarrow> 's \<Rightarrow> 's option" and clear :: "'s \<Rightarrow> 's"
  assumes full_iff: "inv s \<Longrightarrow> full s \<longleftrightarrow> length (contents s) = limit s \<or>
      (byte_limit s \<noteq> 0 \<and> byte_limit s \<le> sum_list (map ifBytes (contents s)))"
    and within: "inv s \<Longrightarrow> length (contents s) \<le> limit s"
    and add_full: "inv s \<Longrightarrow> full s \<Longrightarrow> add idx b s = None"
    and add_ok: "inv s \<Longrightarrow> \<not> full s \<Longrightarrow> \<exists>s'. add idx b s = Some s' \<and> inv s' \<and>
      contents s' = contents s @ [\<lparr>ifIndex = idx, ifBytes = b\<rparr>] \<and>
      limit s' = limit s \<and> byte_limit s' = byte_limit s"
    and free_ok: "inv s \<Longrightarrow> \<exists>s'. free lim s = Some s' \<and> inv s' \<and>
      contents s' = dropWhile (\<lambda>x. ifIndex x \<le> lim) (contents s) \<and>
      limit s' = limit s \<and> byte_limit s' = byte_limit s"
    and clear_ok: "inv s \<Longrightarrow> inv (clear s) \<and> contents (clear s) = []"
begin

lemma add_inv: "inv s \<Longrightarrow> add idx b s = Some s' \<Longrightarrow> inv s'"
  using add_full [of s idx b] add_ok [of s idx b] by (cases "full s") auto

lemma free_inv: "inv s \<Longrightarrow> free lim s = Some s' \<Longrightarrow> inv s'"
  using free_ok [of s lim] by auto

text \<open>
  With increasing indexes, freeing up to an acknowledged index leaves exactly the messages
  above it.
\<close>

lemma free_sorted:
  assumes "inv s" and "sorted (map ifIndex (contents s))" and "free lim s = Some s'"
  shows "contents s' = filter (\<lambda>x. lim < ifIndex x) (contents s)"
proof -
  have "dropWhile (\<lambda>x. ifIndex x \<le> lim) xs = filter (\<lambda>x. lim < ifIndex x) xs"
    if "sorted (map ifIndex xs)" for xs
    using that
  proof (induction xs)
    case (Cons x xs)
    show ?case
    proof (cases "ifIndex x \<le> lim")
      case False
      with Cons.prems have "filter (\<lambda>x. lim < ifIndex x) xs = xs"
        by (auto simp: filter_id_conv dest: less_le_trans)
      with False show ?thesis by simp
    qed (use Cons in auto)
  qed simp
  with assms free_ok [OF assms(1), of lim] show ?thesis by auto
qed

end

interpretation ring: flow_window inflights_inv window inSize inMaxBytes Inflights_Full Inflights_Add
  Inflights_FreeLE Inflights_reset
proof
  fix s idx b lim
  assume inv: "inflights_inv s"
  then show "Inflights_Full s \<longleftrightarrow> length (window s) = inSize s \<or>
      (inMaxBytes s \<noteq> 0 \<and> inMaxBytes s \<le> sum_list (map ifBytes (window s)))"
    by (simp add: Inflights_Full_def inflights_inv_def)
  show "length (window s) \<le> inSize s"
    using inv by (simp add: inflights_inv_def)
  show "Inflights_Full s \<Longrightarrow> Inflights_Add idx b s = None"
    by (simp add: Inflights_Add_def)
qed (use inflights_add inflights_free inflights_reset in blast)+

section \<open>Properties\<close>

text \<open>
  C21. The ring buffer is a bounded FIFO window. Adding a message panics exactly when the
  window is full (as many messages as its size, or the byte budget used up) and otherwise
  appends it; freeing up to an index never panics and drops the longest prefix of messages
  at or below it; both keep the invariant, the growing and wrapping of the buffer included.
\<close>

theorem inflights_refines_fifo:
  assumes "inflights_inv s"
  shows "(Inflights_Add idx b s = None \<longleftrightarrow> length (window s) = inSize s \<or>
      (inMaxBytes s \<noteq> 0 \<and> inMaxBytes s \<le> sum_list (map ifBytes (window s)))) \<and>
    (\<forall>s'. Inflights_Add idx b s = Some s' \<longrightarrow>
      inflights_inv s' \<and> window s' = window s @ [\<lparr>ifIndex = idx, ifBytes = b\<rparr>]) \<and>
    (\<exists>s'. Inflights_FreeLE lim s = Some s' \<and> inflights_inv s' \<and>
      window s' = dropWhile (\<lambda>x. ifIndex x \<le> lim) (window s))"
proof (cases "Inflights_Full s")
  case True
  then show ?thesis
    using ring.full_iff [OF assms] ring.add_full [OF assms, of idx b] ring.free_ok [OF assms, of lim]
    by auto
next
  case False
  then show ?thesis
    using ring.full_iff [OF assms] ring.add_ok [OF assms, of idx b] ring.free_ok [OF assms, of lim]
    by auto
qed

definition demoInflights :: Inflights where
  "demoInflights = \<lparr>inStart = 1, inCount = 2, inBytes = 30, inSize = 2, inMaxBytes = 0,
     inBuffer = [\<lparr>ifIndex = 7, ifBytes = 20\<rparr>, \<lparr>ifIndex = 5, ifBytes = 10\<rparr>]\<rparr>"

theorem inflights_refines_fifo_witness:
  "Inflights_Add 9 1 demoInflights = None \<and>
   (\<exists>s'. Inflights_FreeLE 5 demoInflights = Some s' \<and> window s' = [\<lparr>ifIndex = 7, ifBytes = 20\<rparr>])"
proof -
  have w: "window demoInflights = [\<lparr>ifIndex = 5, ifBytes = 10\<rparr>, \<lparr>ifIndex = 7, ifBytes = 20\<rparr>]"
    by (simp add: demoInflights_def window_def slot_def upt_conv_Cons)
  moreover have "inflights_inv demoInflights"
    unfolding inflights_inv_def w by (auto simp: demoInflights_def slot_def)
  moreover have "inSize demoInflights = 2" by (simp add: demoInflights_def)
  ultimately show ?thesis
    using inflights_refines_fifo [of demoInflights 9 1 5] by auto
qed

end
