(* ===== verification/Raftpb.thy ===== *)
theory Raftpb
  imports Prelude
begin

text \<open>
  The wire types of the package \<^verbatim>\<open>raftpb\<close> (src/raftsubject/raftpb): enums, messages with
  their optional fields and getters, the conversions between the two kinds of
  configuration change (confchange.go), the comparison of two \<^verbatim>\<open>ConfState\<close>s (confstate.go)
  and the \<^verbatim>\<open>Ensure\<close> functions (util.go).

  An optional scalar field \<^verbatim>\<open>*T\<close> is an option; a byte slice whose nil differs from empty on
  the wire is an option of a list; a repeated field is a list. An enum is a datatype of the
  source's constants with one more constructor for the \<^verbatim>\<open>int32\<close> values that have no name.
  Pointers to messages are values: the code shares them, and the model copies. The
  elements of a repeated message field are non-nil.
\<close>

section \<open>Enums\<close>

datatype EntryType = EntryNormal | EntryConfChange | EntryConfChangeV2 | EntryOther "32 word"

datatype MessageType =
    MsgHup | MsgBeat | MsgProp | MsgApp | MsgAppResp | MsgVote | MsgVoteResp | MsgSnap
  | MsgHeartbeat | MsgHeartbeatResp | MsgUnreachable | MsgSnapStatus | MsgCheckQuorum
  | MsgTransferLeader | MsgTimeoutNow | MsgReadIndex | MsgReadIndexResp | MsgPreVote
  | MsgPreVoteResp | MsgStorageAppend | MsgStorageAppendResp | MsgStorageApply
  | MsgStorageApplyResp | MsgForgetLeader | MsgOther "32 word"

datatype ConfChangeTransition =
    ConfChangeTransitionAuto | ConfChangeTransitionJointImplicit
  | ConfChangeTransitionJointExplicit | ConfChangeTransitionOther "32 word"

datatype ConfChangeType =
    ConfChangeAddNode | ConfChangeRemoveNode | ConfChangeUpdateNode
  | ConfChangeAddLearnerNode | ConfChangeOther "32 word"

section \<open>Messages\<close>

record Entry =
  eTerm :: "uint64 option"
  eIndex :: "uint64 option"
  eType :: "EntryType option"
  eData :: "byte list option"
  eUnknown :: "byte list"

record ConfState =
  csVoters :: "uint64 list"
  csLearners :: "uint64 list"
  csVotersOutgoing :: "uint64 list"
  csLearnersNext :: "uint64 list"
  csAutoLeave :: "bool option"
  csUnknown :: "byte list"

record SnapshotMetadata =
  smConfState :: "ConfState option"
  smIndex :: "uint64 option"
  smTerm :: "uint64 option"
  smUnknown :: "byte list"

record Snapshot =
  snData :: "byte list option"
  snMetadata :: "SnapshotMetadata option"
  snUnknown :: "byte list"

record HardState =
  hsTerm :: "uint64 option"
  hsVote :: "uint64 option"
  hsCommit :: "uint64 option"
  hsUnknown :: "byte list"

text \<open>
  \<^verbatim>\<open>Message\<close>: its fields but the last form a record, and the datatype adds the list
  \<^verbatim>\<open>Responses\<close>, which holds messages again.
\<close>

record MsgFields =
  mType :: "MessageType option"
  mTo :: "uint64 option"
  mFrom :: "uint64 option"
  mTerm :: "uint64 option"
  mLogTerm :: "uint64 option"
  mIndex :: "uint64 option"
  mEntries :: "Entry list"
  mCommit :: "uint64 option"
  mVote :: "uint64 option"
  mSnapshot :: "Snapshot option"
  mReject :: "bool option"
  mRejectHint :: "uint64 option"
  mContext :: "byte list option"
  mUnknown :: "byte list"

datatype Message = Msg (msg: MsgFields) (mResponses: "Message list")

record ConfChange =
  ccType :: "ConfChangeType option"
  ccNodeId :: "uint64 option"
  ccContext :: "byte list option"
  ccId :: "uint64 option"
  ccUnknown :: "byte list"

record ConfChangeSingle =
  ccsType :: "ConfChangeType option"
  ccsNodeId :: "uint64 option"
  ccsUnknown :: "byte list"

record ConfChangeV2 =
  ccv2Transition :: "ConfChangeTransition option"
  ccv2Changes :: "ConfChangeSingle list"
  ccv2Context :: "byte list option"
  ccv2Unknown :: "byte list"

text \<open>The zero values \<^verbatim>\<open>T{}\<close>.\<close>

definition Entry0 :: Entry where
  "Entry0 = \<lparr>eTerm = None, eIndex = None, eType = None, eData = None, eUnknown = []\<rparr>"

definition ConfState0 :: ConfState where
  "ConfState0 = \<lparr>csVoters = [], csLearners = [], csVotersOutgoing = [], csLearnersNext = [],
     csAutoLeave = None, csUnknown = []\<rparr>"

definition SnapshotMetadata0 :: SnapshotMetadata where
  "SnapshotMetadata0 = \<lparr>smConfState = None, smIndex = None, smTerm = None, smUnknown = []\<rparr>"

definition Snapshot0 :: Snapshot where
  "Snapshot0 = \<lparr>snData = None, snMetadata = None, snUnknown = []\<rparr>"

definition HardState0 :: HardState where
  "HardState0 = \<lparr>hsTerm = None, hsVote = None, hsCommit = None, hsUnknown = []\<rparr>"

definition Message0 :: MsgFields where
  "Message0 = \<lparr>mType = None, mTo = None, mFrom = None, mTerm = None, mLogTerm = None,
     mIndex = None, mEntries = [], mCommit = None, mVote = None, mSnapshot = None,
     mReject = None, mRejectHint = None, mContext = None, mUnknown = []\<rparr>"

definition ConfChange0 :: ConfChange where
  "ConfChange0 = \<lparr>ccType = None, ccNodeId = None, ccContext = None, ccId = None, ccUnknown = []\<rparr>"

definition ConfChangeSingle0 :: ConfChangeSingle where
  "ConfChangeSingle0 = \<lparr>ccsType = None, ccsNodeId = None, ccsUnknown = []\<rparr>"

definition ConfChangeV20 :: ConfChangeV2 where
  "ConfChangeV20 = \<lparr>ccv2Transition = None, ccv2Changes = [], ccv2Context = None, ccv2Unknown = []\<rparr>"

lemmas zero_defs = Entry0_def ConfState0_def SnapshotMetadata0_def Snapshot0_def HardState0_def
  Message0_def ConfChange0_def ConfChangeSingle0_def ConfChangeV20_def

section \<open>Getters\<close>

definition Entry_GetTerm :: "Entry \<Rightarrow> uint64" where
  "Entry_GetTerm e = get0 (eTerm e)"

definition Entry_GetIndex :: "Entry \<Rightarrow> uint64" where
  "Entry_GetIndex e = get0 (eIndex e)"

definition Entry_GetType :: "Entry \<Rightarrow> EntryType" where
  "Entry_GetType e = (case eType e of None \<Rightarrow> EntryNormal | Some t \<Rightarrow> t)"

definition Entry_GetData :: "Entry \<Rightarrow> byte list" where
  "Entry_GetData e = get_list (eData e)"

definition Message_GetType :: "Message \<Rightarrow> MessageType" where
  "Message_GetType m = (case mType (msg m) of None \<Rightarrow> MsgHup | Some t \<Rightarrow> t)"

definition Message_GetTo :: "Message \<Rightarrow> uint64" where
  "Message_GetTo m = get0 (mTo (msg m))"

definition Message_GetFrom :: "Message \<Rightarrow> uint64" where
  "Message_GetFrom m = get0 (mFrom (msg m))"

definition Message_GetTerm :: "Message \<Rightarrow> uint64" where
  "Message_GetTerm m = get0 (mTerm (msg m))"

definition Message_GetLogTerm :: "Message \<Rightarrow> uint64" where
  "Message_GetLogTerm m = get0 (mLogTerm (msg m))"

definition Message_GetIndex :: "Message \<Rightarrow> uint64" where
  "Message_GetIndex m = get0 (mIndex (msg m))"

definition Message_GetEntries :: "Message \<Rightarrow> Entry list" where
  "Message_GetEntries m = mEntries (msg m)"

definition Message_GetCommit :: "Message \<Rightarrow> uint64" where
  "Message_GetCommit m = get0 (mCommit (msg m))"

definition Message_GetVote :: "Message \<Rightarrow> uint64" where
  "Message_GetVote m = get0 (mVote (msg m))"

definition Message_GetSnapshot :: "Message \<Rightarrow> Snapshot option" where
  "Message_GetSnapshot m = mSnapshot (msg m)"

definition Message_GetReject :: "Message \<Rightarrow> bool" where
  "Message_GetReject m = get_bool (mReject (msg m))"

definition Message_GetRejectHint :: "Message \<Rightarrow> uint64" where
  "Message_GetRejectHint m = get0 (mRejectHint (msg m))"

definition Message_GetContext :: "Message \<Rightarrow> byte list" where
  "Message_GetContext m = get_list (mContext (msg m))"

definition upd_msg :: "(MsgFields \<Rightarrow> MsgFields) \<Rightarrow> Message \<Rightarrow> Message" where
  "upd_msg f m = Msg (f (msg m)) (mResponses m)"

text \<open>The getters of a nil-able message are called through the pointer; nil reads as zero.\<close>

definition SnapshotMetadata_GetIndex :: "SnapshotMetadata option \<Rightarrow> uint64" where
  "SnapshotMetadata_GetIndex x = (case x of None \<Rightarrow> 0 | Some m \<Rightarrow> get0 (smIndex m))"

definition SnapshotMetadata_GetTerm :: "SnapshotMetadata option \<Rightarrow> uint64" where
  "SnapshotMetadata_GetTerm x = (case x of None \<Rightarrow> 0 | Some m \<Rightarrow> get0 (smTerm m))"

definition SnapshotMetadata_GetConfState :: "SnapshotMetadata option \<Rightarrow> ConfState option" where
  "SnapshotMetadata_GetConfState x = (case x of None \<Rightarrow> None | Some m \<Rightarrow> smConfState m)"

definition Snapshot_GetMetadata :: "Snapshot option \<Rightarrow> SnapshotMetadata option" where
  "Snapshot_GetMetadata x = (case x of None \<Rightarrow> None | Some s \<Rightarrow> snMetadata s)"

abbreviation snapIndex :: "Snapshot option \<Rightarrow> uint64" where
  "snapIndex s \<equiv> SnapshotMetadata_GetIndex (Snapshot_GetMetadata s)"

abbreviation snapTerm :: "Snapshot option \<Rightarrow> uint64" where
  "snapTerm s \<equiv> SnapshotMetadata_GetTerm (Snapshot_GetMetadata s)"

definition HardState_GetTerm :: "HardState option \<Rightarrow> uint64" where
  "HardState_GetTerm x = (case x of None \<Rightarrow> 0 | Some h \<Rightarrow> get0 (hsTerm h))"

definition HardState_GetVote :: "HardState option \<Rightarrow> uint64" where
  "HardState_GetVote x = (case x of None \<Rightarrow> 0 | Some h \<Rightarrow> get0 (hsVote h))"

definition HardState_GetCommit :: "HardState option \<Rightarrow> uint64" where
  "HardState_GetCommit x = (case x of None \<Rightarrow> 0 | Some h \<Rightarrow> get0 (hsCommit h))"

definition ConfState_GetVoters :: "ConfState option \<Rightarrow> uint64 list" where
  "ConfState_GetVoters x = (case x of None \<Rightarrow> [] | Some c \<Rightarrow> csVoters c)"

definition ConfState_GetLearners :: "ConfState option \<Rightarrow> uint64 list" where
  "ConfState_GetLearners x = (case x of None \<Rightarrow> [] | Some c \<Rightarrow> csLearners c)"

definition ConfState_GetVotersOutgoing :: "ConfState option \<Rightarrow> uint64 list" where
  "ConfState_GetVotersOutgoing x = (case x of None \<Rightarrow> [] | Some c \<Rightarrow> csVotersOutgoing c)"

definition ConfState_GetLearnersNext :: "ConfState option \<Rightarrow> uint64 list" where
  "ConfState_GetLearnersNext x = (case x of None \<Rightarrow> [] | Some c \<Rightarrow> csLearnersNext c)"

definition ConfState_GetAutoLeave :: "ConfState option \<Rightarrow> bool" where
  "ConfState_GetAutoLeave x = (case x of None \<Rightarrow> False | Some c \<Rightarrow> get_bool (csAutoLeave c))"

definition ConfChange_GetType :: "ConfChange \<Rightarrow> ConfChangeType" where
  "ConfChange_GetType c = (case ccType c of None \<Rightarrow> ConfChangeAddNode | Some t \<Rightarrow> t)"

definition ConfChange_GetNodeId :: "ConfChange \<Rightarrow> uint64" where
  "ConfChange_GetNodeId c = get0 (ccNodeId c)"

definition ConfChangeSingle_GetType :: "ConfChangeSingle \<Rightarrow> ConfChangeType" where
  "ConfChangeSingle_GetType c = (case ccsType c of None \<Rightarrow> ConfChangeAddNode | Some t \<Rightarrow> t)"

definition ConfChangeSingle_GetNodeId :: "ConfChangeSingle \<Rightarrow> uint64" where
  "ConfChangeSingle_GetNodeId c = get0 (ccsNodeId c)"

definition ConfChangeV2_GetTransition :: "ConfChangeV2 \<Rightarrow> ConfChangeTransition" where
  "ConfChangeV2_GetTransition c =
     (case ccv2Transition c of None \<Rightarrow> ConfChangeTransitionAuto | Some t \<Rightarrow> t)"

lemmas getters =
  Entry_GetTerm_def Entry_GetIndex_def Entry_GetType_def Entry_GetData_def
  Message_GetType_def Message_GetTo_def Message_GetFrom_def Message_GetTerm_def
  Message_GetLogTerm_def Message_GetIndex_def Message_GetEntries_def Message_GetCommit_def
  Message_GetVote_def Message_GetSnapshot_def Message_GetReject_def Message_GetRejectHint_def
  Message_GetContext_def SnapshotMetadata_GetIndex_def SnapshotMetadata_GetTerm_def
  SnapshotMetadata_GetConfState_def Snapshot_GetMetadata_def HardState_GetTerm_def
  HardState_GetVote_def HardState_GetCommit_def ConfState_GetVoters_def
  ConfState_GetLearners_def ConfState_GetVotersOutgoing_def ConfState_GetLearnersNext_def
  ConfState_GetAutoLeave_def ConfChange_GetType_def ConfChange_GetNodeId_def
  ConfChangeSingle_GetType_def ConfChangeSingle_GetNodeId_def ConfChangeV2_GetTransition_def

section \<open>The Ensure functions (util.go)\<close>

definition EnsureConfState :: "ConfState option \<Rightarrow> ConfState" where
  "EnsureConfState cs =
     (let cs = (case cs of None \<Rightarrow> ConfState0 | Some c \<Rightarrow> c)
      in if csAutoLeave cs = None then cs\<lparr>csAutoLeave := Some False\<rparr> else cs)"

text \<open>
  \<^verbatim>\<open>EnsureConfState\<close> mutates the \<^verbatim>\<open>ConfState\<close> it is given, so the metadata holds the ensured
  one whether or not the pointer was nil.
\<close>

definition EnsureSnapshotMetadata :: "SnapshotMetadata option \<Rightarrow> SnapshotMetadata" where
  "EnsureSnapshotMetadata m =
     (let m = (case m of None \<Rightarrow> SnapshotMetadata0 | Some x \<Rightarrow> x);
          m = m\<lparr>smConfState := Some (EnsureConfState (smConfState m))\<rparr>;
          m = (if smIndex m = None then m\<lparr>smIndex := Some 0\<rparr> else m)
      in if smTerm m = None then m\<lparr>smTerm := Some 0\<rparr> else m)"

definition EnsureSnapshot :: "Snapshot option \<Rightarrow> Snapshot" where
  "EnsureSnapshot s =
     (let s = (case s of None \<Rightarrow> Snapshot0 | Some x \<Rightarrow> x)
      in s\<lparr>snMetadata := Some (EnsureSnapshotMetadata (snMetadata s))\<rparr>)"

section \<open>Configuration changes (confchange.go)\<close>

datatype ConfChangeI = CCv1 ConfChange | CCv2 ConfChangeV2

fun ConfChangeI_AsV1 :: "ConfChangeI \<Rightarrow> ConfChange option" where
  "ConfChangeI_AsV1 (CCv1 c) = Some c"
| "ConfChangeI_AsV1 (CCv2 c) = None"

definition ConfChange_AsV2 :: "ConfChange \<Rightarrow> ConfChangeV2" where
  "ConfChange_AsV2 c = ConfChangeV20
     \<lparr>ccv2Changes := [ConfChangeSingle0
        \<lparr>ccsType := Some (ConfChange_GetType c), ccsNodeId := Some (ConfChange_GetNodeId c)\<rparr>],
      ccv2Context := ccContext c\<rparr>"

fun ConfChangeI_AsV2 :: "ConfChangeI \<Rightarrow> ConfChangeV2" where
  "ConfChangeI_AsV2 (CCv1 c) = ConfChange_AsV2 c"
| "ConfChangeI_AsV2 (CCv2 c) = c"

text \<open>The result \<^verbatim>\<open>(autoLeave, ok)\<close>; an unnamed transition panics.\<close>

definition ConfChangeV2_EnterJoint :: "ConfChangeV2 \<Rightarrow> (bool \<times> bool) option" where
  "ConfChangeV2_EnterJoint c =
     (if ConfChangeV2_GetTransition c \<noteq> ConfChangeTransitionAuto \<or> 1 < length (ccv2Changes c)
      then (case ConfChangeV2_GetTransition c of
              ConfChangeTransitionAuto \<Rightarrow> Some (True, True)
            | ConfChangeTransitionJointImplicit \<Rightarrow> Some (True, True)
            | ConfChangeTransitionJointExplicit \<Rightarrow> Some (False, True)
            | ConfChangeTransitionOther x \<Rightarrow> None)
      else Some (False, False))"

definition ConfChangeV2_LeaveJoint :: "ConfChangeV2 \<Rightarrow> bool" where
  "ConfChangeV2_LeaveJoint c \<longleftrightarrow>
     ConfChangeV2_GetTransition c = ConfChangeTransitionAuto \<and> length (ccv2Changes c) = 0"

end
