(* ===== verification/Tracker.thy ===== *)
theory Tracker
  imports Quorum Inflights Raftpb
begin

text \<open>
  The package \<^verbatim>\<open>tracker\<close> (src/raftsubject/tracker): the progress of one follower as the
  leader sees it (progress.go, state.go), the active configuration and the progress of all
  of its members (tracker.go). The pointers a \<^verbatim>\<open>ProgressMap\<close> holds are values here; an
  operation on a progress returns the new one. The progress invariant of the source's
  comments, \<open>Match < Next\<close>, is shown to be kept by every operation; the tracker's queries
  are characterised by the quorums of the configuration.
\<close>

section \<open>Progress\<close>

datatype StateType = StateProbe | StateReplicate | StateSnapshot

record Progress =
  prMatch :: uint64
  prNext :: uint64
  prSentCommit :: uint64
  prState :: StateType
  prPendingSnapshot :: uint64
  prRecentActive :: bool
  prMsgAppFlowPaused :: bool
  prInflights :: Inflights
  prIsLearner :: bool

definition Progress_ResetState :: "StateType \<Rightarrow> Progress \<Rightarrow> Progress" where
  "Progress_ResetState st pr = pr\<lparr>prMsgAppFlowPaused := False, prPendingSnapshot := 0,
     prState := st, prInflights := Inflights_reset (prInflights pr)\<rparr>"

definition Progress_BecomeProbe :: "Progress \<Rightarrow> Progress" where
  "Progress_BecomeProbe pr =
     (let pr = (if prState pr = StateSnapshot then
            let pendingSnapshot = prPendingSnapshot pr; pr = Progress_ResetState StateProbe pr
            in pr\<lparr>prNext := max (prMatch pr + 1) (pendingSnapshot + 1)\<rparr>
          else let pr = Progress_ResetState StateProbe pr in pr\<lparr>prNext := prMatch pr + 1\<rparr>)
      in pr\<lparr>prSentCommit := min (prSentCommit pr) (prNext pr - 1)\<rparr>)"

definition Progress_BecomeReplicate :: "Progress \<Rightarrow> Progress" where
  "Progress_BecomeReplicate pr =
     (let pr = Progress_ResetState StateReplicate pr in pr\<lparr>prNext := prMatch pr + 1\<rparr>)"

definition Progress_BecomeSnapshot :: "uint64 \<Rightarrow> Progress \<Rightarrow> Progress" where
  "Progress_BecomeSnapshot snapshoti pr =
     (Progress_ResetState StateSnapshot pr)\<lparr>prPendingSnapshot := snapshoti,
        prNext := snapshoti + 1, prSentCommit := snapshoti\<rparr>"

definition Progress_SentEntries :: "nat \<Rightarrow> uint64 \<Rightarrow> Progress \<Rightarrow> Progress option" where
  "Progress_SentEntries entries b pr =
     (case prState pr of
        StateReplicate \<Rightarrow> do {
          pr \<leftarrow> (if 0 < entries then do {
              let pr = pr\<lparr>prNext := prNext pr + of_nat entries\<rparr>;
              ins \<leftarrow> Inflights_Add (prNext pr - 1) b (prInflights pr);
              Some (pr\<lparr>prInflights := ins\<rparr>)
            } else Some pr);
          Some (pr\<lparr>prMsgAppFlowPaused := Inflights_Full (prInflights pr)\<rparr>)
        }
      | StateProbe \<Rightarrow> Some (if 0 < entries then pr\<lparr>prMsgAppFlowPaused := True\<rparr> else pr)
      | StateSnapshot \<Rightarrow> None)"

definition Progress_CanBumpCommit :: "uint64 \<Rightarrow> Progress \<Rightarrow> bool" where
  "Progress_CanBumpCommit idx pr \<longleftrightarrow> prSentCommit pr < idx \<and> prSentCommit pr < prNext pr - 1"

definition Progress_SentCommit :: "uint64 \<Rightarrow> Progress \<Rightarrow> Progress" where
  "Progress_SentCommit commit pr = pr\<lparr>prSentCommit := commit\<rparr>"

definition Progress_MaybeUpdate :: "uint64 \<Rightarrow> Progress \<Rightarrow> Progress \<times> bool" where
  "Progress_MaybeUpdate n pr =
     (if n \<le> prMatch pr then (pr, False)
      else (pr\<lparr>prMatch := n, prNext := max (prNext pr) (n + 1), prMsgAppFlowPaused := False\<rparr>, True))"

definition Progress_MaybeDecrTo :: "uint64 \<Rightarrow> uint64 \<Rightarrow> Progress \<Rightarrow> Progress \<times> bool" where
  "Progress_MaybeDecrTo rejected matchHint pr =
     (if prState pr = StateReplicate then
        (if rejected \<le> prMatch pr then (pr, False)
         else let pr = pr\<lparr>prNext := prMatch pr + 1\<rparr>
           in (pr\<lparr>prSentCommit := min (prSentCommit pr) (prNext pr - 1)\<rparr>, True))
      else if prNext pr - 1 \<noteq> rejected then (pr, False)
      else let pr = pr\<lparr>prNext := max (min rejected (matchHint + 1)) (prMatch pr + 1)\<rparr>;
               pr = pr\<lparr>prSentCommit := min (prSentCommit pr) (prNext pr - 1)\<rparr>
        in (pr\<lparr>prMsgAppFlowPaused := False\<rparr>, True))"

definition Progress_IsPaused :: "Progress \<Rightarrow> bool" where
  "Progress_IsPaused pr =
     (case prState pr of
        StateProbe \<Rightarrow> prMsgAppFlowPaused pr
      | StateReplicate \<Rightarrow> prMsgAppFlowPaused pr
      | StateSnapshot \<Rightarrow> True)"

section \<open>The configuration and the tracker\<close>

record Config =
  cfgVoters :: JointConfig
  cfgAutoLeave :: bool
  cfgLearners :: "uint64 set option"
  cfgLearnersNext :: "uint64 set option"

text \<open>\<^verbatim>\<open>Clone\<close> copies the four sets and leaves \<^verbatim>\<open>AutoLeave\<close> at its zero value.\<close>

definition Config_Clone :: "Config \<Rightarrow> Config" where
  "Config_Clone c = \<lparr>cfgVoters = cfgVoters c, cfgAutoLeave = False,
     cfgLearners = cfgLearners c, cfgLearnersNext = cfgLearnersNext c\<rparr>"

type_synonym ProgressMap = "uint64 \<rightharpoonup> Progress"

record ProgressTracker =
  trkConfig :: Config
  trkProgress :: ProgressMap
  trkVotes :: "uint64 \<rightharpoonup> bool"
  trkMaxInflight :: nat
  trkMaxInflightBytes :: uint64

definition MakeProgressTracker :: "nat \<Rightarrow> uint64 \<Rightarrow> ProgressTracker" where
  "MakeProgressTracker maxInflight maxb =
     \<lparr>trkConfig = \<lparr>cfgVoters = (Some {}, None), cfgAutoLeave = False, cfgLearners = None,
        cfgLearnersNext = None\<rparr>,
      trkProgress = Map.empty, trkVotes = Map.empty, trkMaxInflight = maxInflight,
      trkMaxInflightBytes = maxb\<rparr>"

definition ProgressTracker_ConfState :: "ProgressTracker \<Rightarrow> ConfState" where
  "ProgressTracker_ConfState p = ConfState0
     \<lparr>csVoters := MajorityConfig_Slice (fst (cfgVoters (trkConfig p))),
      csVotersOutgoing := MajorityConfig_Slice (snd (cfgVoters (trkConfig p))),
      csLearners := MajorityConfig_Slice (cfgLearners (trkConfig p)),
      csLearnersNext := MajorityConfig_Slice (cfgLearnersNext (trkConfig p)),
      csAutoLeave := Some (cfgAutoLeave (trkConfig p))\<rparr>"

definition ProgressTracker_IsSingleton :: "ProgressTracker \<Rightarrow> bool" where
  "ProgressTracker_IsSingleton p \<longleftrightarrow>
     card (elems (fst (cfgVoters (trkConfig p)))) = 1 \<and>
     card (elems (snd (cfgVoters (trkConfig p)))) = 0"

definition matchAckIndexer :: "ProgressMap \<Rightarrow> AckedIndexer" where
  "matchAckIndexer l n = (case l n of None \<Rightarrow> None | Some pr \<Rightarrow> Some (prMatch pr))"

definition ProgressTracker_Committed :: "ProgressTracker \<Rightarrow> uint64" where
  "ProgressTracker_Committed p =
     JointConfig_CommittedIndex (cfgVoters (trkConfig p)) (matchAckIndexer (trkProgress p))"

text \<open>\<^verbatim>\<open>Visit\<close> calls its closure on the tracked progresses in the order of their ids.\<close>

definition ProgressTracker_Visit :: "(uint64 \<Rightarrow> Progress \<Rightarrow> 's \<Rightarrow> 's) \<Rightarrow> ProgressTracker \<Rightarrow> 's \<Rightarrow> 's" where
  "ProgressTracker_Visit f p s =
     fold (\<lambda>n s. case trkProgress p n of None \<Rightarrow> s | Some pr \<Rightarrow> f n pr s)
       (sorted_list_of_set (dom (trkProgress p))) s"

definition ProgressTracker_QuorumActive :: "ProgressTracker \<Rightarrow> bool" where
  "ProgressTracker_QuorumActive p =
     (let votes = ProgressTracker_Visit
        (\<lambda>n pr votes. if prIsLearner pr then votes else votes(n \<mapsto> prRecentActive pr)) p Map.empty
      in JointConfig_VoteResult (cfgVoters (trkConfig p)) votes = VoteWon)"

definition ProgressTracker_VoterNodes :: "ProgressTracker \<Rightarrow> uint64 list" where
  "ProgressTracker_VoterNodes p = sorted_list_of_set (JointConfig_IDs (cfgVoters (trkConfig p)))"

definition ProgressTracker_LearnerNodes :: "ProgressTracker \<Rightarrow> uint64 list" where
  "ProgressTracker_LearnerNodes p = sorted_list_of_set (elems (cfgLearners (trkConfig p)))"

definition ProgressTracker_ResetVotes :: "ProgressTracker \<Rightarrow> ProgressTracker" where
  "ProgressTracker_ResetVotes p = p\<lparr>trkVotes := Map.empty\<rparr>"

definition ProgressTracker_RecordVote :: "uint64 \<Rightarrow> bool \<Rightarrow> ProgressTracker \<Rightarrow> ProgressTracker" where
  "ProgressTracker_RecordVote n v p =
     (if trkVotes p n = None then p\<lparr>trkVotes := (trkVotes p)(n \<mapsto> v)\<rparr> else p)"

definition ProgressTracker_TallyVotes :: "ProgressTracker \<Rightarrow> nat \<times> nat \<times> VoteResult" where
  "ProgressTracker_TallyVotes p =
     (let (granted, rejected) = ProgressTracker_Visit
        (\<lambda>n pr (g, r). if prIsLearner pr then (g, r)
           else case trkVotes p n of None \<Rightarrow> (g, r)
             | Some v \<Rightarrow> if v then (g + 1, r) else (g, r + 1)) p (0, 0)
      in (granted, rejected, JointConfig_VoteResult (cfgVoters (trkConfig p)) (trkVotes p)))"

section \<open>The progress invariant\<close>

definition progress_inv :: "Progress \<Rightarrow> bool" where
  "progress_inv pr \<longleftrightarrow> prMatch pr < prNext pr \<and> inflights_inv (prInflights pr)"

lemma progress_inv_reset:
  "progress_inv pr \<Longrightarrow> progress_inv (Progress_ResetState st pr)"
  using ring.clear_ok by (simp add: progress_inv_def Progress_ResetState_def)

lemma progress_inv_probe: "progress_inv pr \<Longrightarrow> progress_inv (Progress_BecomeProbe pr)"
  using ring.clear_ok [of "prInflights pr"] below_succ64 [of "prMatch pr" "prNext pr"]
  by (auto simp: progress_inv_def Progress_BecomeProbe_def Progress_ResetState_def Let_def
      less_max_iff_disj)

lemma progress_inv_replicate: "progress_inv pr \<Longrightarrow> progress_inv (Progress_BecomeReplicate pr)"
  using ring.clear_ok [of "prInflights pr"] below_succ64 [of "prMatch pr" "prNext pr"]
  by (auto simp: progress_inv_def Progress_BecomeReplicate_def Progress_ResetState_def Let_def)

lemma progress_inv_snapshot:
  "progress_inv pr \<Longrightarrow> prMatch pr \<le> i \<Longrightarrow> i \<noteq> MaxUint64 \<Longrightarrow>
   progress_inv (Progress_BecomeSnapshot i pr)"
  using ring.clear_ok [of "prInflights pr"]
  by (auto simp: progress_inv_def Progress_BecomeSnapshot_def Progress_ResetState_def
      word_less_nat_alt word_le_nat_alt unat_Suc64)

lemma progress_inv_sentEntries:
  assumes "progress_inv pr" and "unat (prNext pr) + n < 2 ^ 64"
    and "Progress_SentEntries n b pr = Some pr'"
  shows "progress_inv pr'"
  using assms ring.add_inv [of "prInflights pr"] unat_add_of_nat [OF assms(2)]
  by (auto simp: progress_inv_def Progress_SentEntries_def bind_Some_conv word_less_nat_alt
      split: StateType.splits if_splits)

lemma progress_inv_sentCommit: "progress_inv pr \<Longrightarrow> progress_inv (Progress_SentCommit c pr)"
  by (simp add: progress_inv_def Progress_SentCommit_def)

lemma progress_inv_maybeUpdate:
  assumes "progress_inv pr" and "n \<noteq> MaxUint64"
  shows "progress_inv (fst (Progress_MaybeUpdate n pr))"
proof -
  have "n < n + 1" using assms(2) by (simp add: word_less_nat_alt unat_Suc64)
  with assms(1) show ?thesis
    by (auto simp: progress_inv_def Progress_MaybeUpdate_def less_max_iff_disj)
qed

lemma progress_inv_maybeDecrTo:
  "progress_inv pr \<Longrightarrow> progress_inv (fst (Progress_MaybeDecrTo rejected hint pr))"
  using below_succ64 [of "prMatch pr" "prNext pr"]
  by (auto simp: progress_inv_def Progress_MaybeDecrTo_def Let_def less_max_iff_disj)

lemmas progress_inv_intros = progress_inv_reset progress_inv_probe progress_inv_replicate
  progress_inv_snapshot progress_inv_sentEntries progress_inv_sentCommit
  progress_inv_maybeUpdate progress_inv_maybeDecrTo

text \<open>In the replicating state an append is refused exactly when the window is full.\<close>

lemma sentEntries_replicate_None:
  "progress_inv pr \<Longrightarrow> prState pr = StateReplicate \<Longrightarrow>
   Progress_SentEntries n b pr = None \<longleftrightarrow> 0 < n \<and> Inflights_Full (prInflights pr)"
  using ring.add_full [of "prInflights pr" "prNext pr + of_nat n - 1" b]
    ring.add_ok [of "prInflights pr" "prNext pr + of_nat n - 1" b]
  by (cases "Inflights_Full (prInflights pr)")
    (auto simp: Progress_SentEntries_def progress_inv_def Option.bind_eq_None_conv)

section \<open>The tracker's queries\<close>

lemma Visit_votes:
  "ProgressTracker_Visit
     (\<lambda>n pr votes. if prIsLearner pr then votes else votes(n \<mapsto> prRecentActive pr)) p Map.empty =
   (\<lambda>n. case trkProgress p n of None \<Rightarrow> None
      | Some pr \<Rightarrow> if prIsLearner pr then None else Some (prRecentActive pr))"
proof -
  have "fold (\<lambda>n votes. case trkProgress p n of None \<Rightarrow> votes
        | Some pr \<Rightarrow> if prIsLearner pr then votes else votes(n \<mapsto> prRecentActive pr)) ns v n =
      (if n \<in> set ns then (case trkProgress p n of None \<Rightarrow> v n
        | Some pr \<Rightarrow> if prIsLearner pr then v n else Some (prRecentActive pr)) else v n)" for ns v n
    by (induction ns arbitrary: v) (auto split: option.splits)
  then show ?thesis
    by (auto simp: ProgressTracker_Visit_def fun_eq_iff dom_def split: option.splits)
qed

lemma QuorumActive_iff:
  "ProgressTracker_QuorumActive p \<longleftrightarrow> joint_majority (cfgVoters (trkConfig p))
     {n. \<exists>pr. trkProgress p n = Some pr \<and> \<not> prIsLearner pr \<and> prRecentActive pr}"
  by (simp add: ProgressTracker_QuorumActive_def Visit_votes jnt.won_iff voted_def)
    (rule arg_cong [where f = "joint_majority _"], auto split: option.splits if_splits)

lemma Committed_iff:
  "i \<le> ProgressTracker_Committed p \<longleftrightarrow> joint_majority (cfgVoters (trkConfig p))
     {n. i = 0 \<or> (\<exists>pr. trkProgress p n = Some pr \<and> i \<le> prMatch pr)}"
  by (simp add: ProgressTracker_Committed_def CommittedIndex_joint acked_ge_def matchAckIndexer_def)
    (rule arg_cong [where f = "joint_majority _"], auto split: option.splits)

text \<open>Progress that only moves forward never lowers the committed index.\<close>

lemma Committed_mono:
  assumes "cfgVoters (trkConfig p) = cfgVoters (trkConfig p')"
    and "\<And>n pr. trkProgress p n = Some pr \<Longrightarrow>
      \<exists>pr'. trkProgress p' n = Some pr' \<and> prMatch pr \<le> prMatch pr'"
  shows "ProgressTracker_Committed p \<le> ProgressTracker_Committed p'"
  unfolding ProgressTracker_Committed_def assms(1)
  by (rule jnt.committed_acks_mono)
    (use assms(2) in \<open>fastforce simp: matchAckIndexer_def split: option.splits\<close>)

lemma TallyVotes_result:
  "snd (snd (ProgressTracker_TallyVotes p)) = JointConfig_VoteResult (cfgVoters (trkConfig p)) (trkVotes p)"
  by (simp add: ProgressTracker_TallyVotes_def split: prod.splits)

lemma RecordVote_keeps: "trkVotes p \<subseteq>\<^sub>m trkVotes (ProgressTracker_RecordVote n v p)"
  by (auto simp: ProgressTracker_RecordVote_def map_le_def)

section \<open>Properties\<close>

text \<open>
  C37. The documented invariant of a progress, \<open>Match < Next\<close> with a well-formed window, is
  kept by every operation of progress.go; the operations that move to an index given from
  outside need that index not to be the largest 64-bit value, and a snapshot not to lie
  below what is known to match.
\<close>

theorem progress_invariant_kept:
  assumes "progress_inv pr"
  shows "progress_inv (Progress_ResetState st pr) \<and> progress_inv (Progress_BecomeProbe pr) \<and>
    progress_inv (Progress_BecomeReplicate pr) \<and>
    (prMatch pr \<le> i \<and> i \<noteq> MaxUint64 \<longrightarrow> progress_inv (Progress_BecomeSnapshot i pr)) \<and>
    (unat (prNext pr) + k < 2 ^ 64 \<and> Progress_SentEntries k b pr = Some pr' \<longrightarrow> progress_inv pr') \<and>
    progress_inv (Progress_SentCommit c pr) \<and>
    (n \<noteq> MaxUint64 \<longrightarrow> progress_inv (fst (Progress_MaybeUpdate n pr))) \<and>
    progress_inv (fst (Progress_MaybeDecrTo rejected hint pr))"
  using assms by (auto intro: progress_inv_intros)

definition demoProgress :: Progress where
  "demoProgress = \<lparr>prMatch = 5, prNext = 6, prSentCommit = 3, prState = StateReplicate,
     prPendingSnapshot = 0, prRecentActive = True, prMsgAppFlowPaused = False,
     prInflights = NewInflights 4 0, prIsLearner = False\<rparr>"

theorem progress_invariant_kept_witness:
  "progress_inv (Progress_BecomeSnapshot 9 demoProgress) \<and>
   progress_inv (fst (Progress_MaybeUpdate 12 demoProgress)) \<and>
   progress_inv (fst (Progress_MaybeDecrTo 7 2 demoProgress))"
proof -
  have "progress_inv demoProgress"
    using inflights_new [of 4 0] by (simp add: progress_inv_def demoProgress_def)
  from progress_invariant_kept [OF this, where i = 9 and n = 12 and rejected = 7 and hint = 2]
  show ?thesis
    by (simp add: demoProgress_def)
qed

text \<open>
  The leader's view of its quorum: the quorum is active exactly when the non-learners it
  heard from are a majority of both halves of the configuration, and the committed index is
  the largest index that the members matching it are a majority of both halves for.
\<close>

lemma tracker_quorum_queries:
  "(ProgressTracker_QuorumActive p \<longleftrightarrow> joint_majority (cfgVoters (trkConfig p))
     {n. \<exists>pr. trkProgress p n = Some pr \<and> \<not> prIsLearner pr \<and> prRecentActive pr}) \<and>
   (i \<le> ProgressTracker_Committed p \<longleftrightarrow> joint_majority (cfgVoters (trkConfig p))
     {n. i = 0 \<or> (\<exists>pr. trkProgress p n = Some pr \<and> i \<le> prMatch pr)})"
  using QuorumActive_iff [of p] Committed_iff [of i p] by simp

lemma pred_le64: "x < n \<Longrightarrow> n \<le> s \<Longrightarrow> n - 1 \<le> s" for x n s :: uint64
proof -
  assume "x < n" and "n \<le> s"
  then have "unat n \<noteq> 0" "n \<noteq> 0" by (auto simp: word_less_nat_alt)
  with \<open>n \<le> s\<close> show "n - 1 \<le> s" by (simp add: word_le_nat_alt unat_pred64)
qed

text \<open>
  C40. A comment of progress.go says that in \<open>StateSnapshot\<close> \<open>Next\<close> is the pending snapshot's
  index plus one. \<open>BecomeSnapshot\<close> establishes it, for every progress whose match lies below
  the snapshot. A rejection of any other index than the snapshot's changes nothing. A rejection
  of exactly that index is taken for genuine whatever its hint: \<open>Next\<close> becomes the larger of
  the match plus one and the smaller of the index and the hint plus one, so it is at most the
  index and the comment is broken, the sent commit is lowered with it, the throttling is
  lifted, and the state, the pending snapshot, the match and the window stay as they are.
\<close>

theorem snapshot_next_comment_violated:
  assumes "progress_inv pr" and "prMatch pr < s" and "s \<noteq> MaxUint64"
  shows "prState (Progress_BecomeSnapshot s pr) = StateSnapshot \<and>
    prNext (Progress_BecomeSnapshot s pr) = prPendingSnapshot (Progress_BecomeSnapshot s pr) + 1 \<and>
    (\<forall>i hint. i \<noteq> s \<longrightarrow> Progress_MaybeDecrTo i hint (Progress_BecomeSnapshot s pr) =
      (Progress_BecomeSnapshot s pr, False)) \<and>
    (\<forall>hint. \<exists>pr'. Progress_MaybeDecrTo s hint (Progress_BecomeSnapshot s pr) = (pr', True) \<and>
      prState pr' = StateSnapshot \<and> prPendingSnapshot pr' = s \<and> prMatch pr' = prMatch pr \<and>
      prNext pr' = max (min s (hint + 1)) (prMatch pr + 1) \<and>
      prNext pr' < prPendingSnapshot pr' + 1 \<and> prSentCommit pr' = prNext pr' - 1 \<and>
      \<not> prMsgAppFlowPaused pr' \<and> window (prInflights pr') = [] \<and> progress_inv pr')"
proof -
  let ?sp = "Progress_BecomeSnapshot s pr"
  have view: "prState ?sp = StateSnapshot" "prNext ?sp = s + 1" "prPendingSnapshot ?sp = s"
    "prMatch ?sp = prMatch pr" "prSentCommit ?sp = s" "window (prInflights ?sp) = []"
    using ring.clear_ok [of "prInflights pr"] assms(1)
    by (simp_all add: Progress_BecomeSnapshot_def Progress_ResetState_def progress_inv_def)
  have inv: "progress_inv ?sp"
    using assms progress_inv_snapshot [of pr s] by (simp add: order_less_imp_le)
  have top: "prMatch pr + 1 \<le> s" "s < s + 1"
    using succ_le64 [OF assms(2)] assms(3) by (simp_all add: word_less_nat_alt unat_Suc64)
  have genuine: "\<exists>pr'. Progress_MaybeDecrTo s hint ?sp = (pr', True) \<and>
      prState pr' = StateSnapshot \<and> prPendingSnapshot pr' = s \<and> prMatch pr' = prMatch pr \<and>
      prNext pr' = max (min s (hint + 1)) (prMatch pr + 1) \<and>
      prNext pr' < prPendingSnapshot pr' + 1 \<and> prSentCommit pr' = prNext pr' - 1 \<and>
      \<not> prMsgAppFlowPaused pr' \<and> window (prInflights pr') = [] \<and> progress_inv pr'" for hint
  proof -
    let ?n = "max (min s (hint + 1)) (prMatch pr + 1)"
    have n: "?n \<le> s" using top by simp
    then have n2: "?n < s + 1" using top(2) by (rule le_less_trans)
    have "prMatch pr < ?n" using below_succ64 [OF assms(2)] by (simp add: less_max_iff_disj)
    hence "?n - 1 \<le> s" using n by (rule pred_le64)
    moreover have "min s (hint + 1) < s + 1" using top(2) by (rule le_less_trans [OF min.cobounded1])
    ultimately show ?thesis
      using n n2 progress_inv_maybeDecrTo [OF inv, of s hint] view
      by (simp add: Progress_MaybeDecrTo_def Let_def min_absorb2)
  qed
  show ?thesis
    by (intro conjI allI impI) (rule genuine | simp add: view Progress_MaybeDecrTo_def)+
qed

theorem snapshot_next_comment_violated_witness:
  "prNext (fst (Progress_MaybeDecrTo 10 3 (Progress_BecomeSnapshot 10
     (demoProgress\<lparr>prMatch := 2\<rparr>)))) = 4 \<and>
   Progress_MaybeDecrTo 9 3 (Progress_BecomeSnapshot 10 (demoProgress\<lparr>prMatch := 2\<rparr>)) =
     (Progress_BecomeSnapshot 10 (demoProgress\<lparr>prMatch := 2\<rparr>), False)"
proof -
  have "progress_inv (demoProgress\<lparr>prMatch := 2\<rparr>)"
    using inflights_new [of 4 0] by (simp add: progress_inv_def demoProgress_def)
  from snapshot_next_comment_violated [of _ 10, OF this]
  have rej: "\<exists>pr'. Progress_MaybeDecrTo 10 3 (Progress_BecomeSnapshot 10
      (demoProgress\<lparr>prMatch := 2\<rparr>)) = (pr', True) \<and> prNext pr' = 4"
    and stale: "Progress_MaybeDecrTo 9 3 (Progress_BecomeSnapshot 10
      (demoProgress\<lparr>prMatch := 2\<rparr>)) =
      (Progress_BecomeSnapshot 10 (demoProgress\<lparr>prMatch := 2\<rparr>), False)"
    by (fastforce simp: max_def min_def)+
  thus ?thesis by auto
qed

text \<open>
  \<open>Clone\<close> of a configuration, documented as a copy of it, drops the flag to leave the
  joint state automatically and keeps everything else.
\<close>

lemma config_clone_drops_auto_leave:
  "Config_Clone c = c\<lparr>cfgAutoLeave := False\<rparr> \<and> (cfgAutoLeave c \<longleftrightarrow> Config_Clone c \<noteq> c)"
  by (cases c) (auto simp: Config_Clone_def)

end
