(* ===== verification/Wire.thy ===== *)
theory Wire
  imports Prelude
begin

text \<open>
  The wire primitives of src/raftsubject/raftpb/plain_wire.go: base-128 varints, tags,
  length-prefixed bytes, the skipping of unknown fields (nested groups included) and the
  comparison of retained unknown bytes. A consumer returns the value and the number of
  bytes it took, negative for an error, as the code does. The lemmas show that a varint
  read back is the varint written, that \<open>sizeVarint\<close> is the length of what \<open>appendVarint\<close>
  writes, and that no consumer claims more bytes than it was given, so that the slices the
  callers take are in range.
\<close>

unbundle bit_operations_syntax

section \<open>Constants\<close>

abbreviation (input) varintType :: int where "varintType \<equiv> 0"
abbreviation (input) fixed64Type :: int where "fixed64Type \<equiv> 1"
abbreviation (input) bytesType :: int where "bytesType \<equiv> 2"
abbreviation (input) startGroupType :: int where "startGroupType \<equiv> 3"
abbreviation (input) endGroupType :: int where "endGroupType \<equiv> 4"
abbreviation (input) fixed32Type :: int where "fixed32Type \<equiv> 5"

abbreviation (input) minValidNumber :: int where "minValidNumber \<equiv> 1"
abbreviation (input) maxValidNumber :: int where "maxValidNumber \<equiv> 536870911"
abbreviation (input) defaultRecursionLimit :: int where "defaultRecursionLimit \<equiv> 10000"

abbreviation (input) errCodeTruncated :: int where "errCodeTruncated \<equiv> - 1"
abbreviation (input) errCodeFieldNumber :: int where "errCodeFieldNumber \<equiv> - 2"
abbreviation (input) errCodeOverflow :: int where "errCodeOverflow \<equiv> - 3"
abbreviation (input) errCodeReserved :: int where "errCodeReserved \<equiv> - 4"
abbreviation (input) errCodeEndGroup :: int where "errCodeEndGroup \<equiv> - 5"
abbreviation (input) errCodeRecursionDepth :: int where "errCodeRecursionDepth \<equiv> - 6"

text \<open>The error values of a decoder; \<open>errUnknown\<close> never leaves it.\<close>

datatype decode_error = errDecode | errRecursionDepth | errUnknown

section \<open>Varints\<close>

abbreviation to64 :: "byte \<Rightarrow> uint64" where "to64 \<equiv> ucast"
abbreviation to8 :: "uint64 \<Rightarrow> byte" where "to8 \<equiv> ucast"


function consumeVarintLoop :: "byte list \<Rightarrow> nat \<Rightarrow> uint64 \<Rightarrow> uint64 \<times> int" where
  "consumeVarintLoop b i v =
     (if 10 \<le> i then (0, errCodeOverflow)
      else if length b \<le> i then (0, errCodeTruncated)
      else let y = to64 (b ! i) in
        if i = 9 then (if y < 2 then (v + push_bit 63 y, 10) else (0, errCodeOverflow))
        else let v = v + push_bit (7 * i) y in
          if y < 128 then (v, int i + 1)
          else consumeVarintLoop b (i + 1) (v - push_bit (7 * i) 128))"
  by pat_completeness auto
termination
  by (relation "measure (\<lambda>(b, i, v). 10 - i)") auto

declare consumeVarintLoop.simps [simp del]

definition consumeVarint :: "byte list \<Rightarrow> uint64 \<times> int" where
  "consumeVarint b = consumeVarintLoop b 0 0"

function sizeVarintLoop :: "nat \<Rightarrow> uint64 \<Rightarrow> int \<Rightarrow> int" where
  "sizeVarintLoop i v n =
     (if 9 \<le> i \<or> v < 128 then n else sizeVarintLoop (i + 1) (drop_bit 7 v) (n + 1))"
  by pat_completeness auto
termination
  by (relation "measure (\<lambda>(i, v, n). 9 - i)") auto

declare sizeVarintLoop.simps [simp del]

definition sizeVarint :: "uint64 \<Rightarrow> int" where
  "sizeVarint v = sizeVarintLoop 0 v 1"

function appendVarintLoop :: "nat \<Rightarrow> byte list \<Rightarrow> uint64 \<Rightarrow> byte list" where
  "appendVarintLoop i b v =
     (if 9 \<le> i \<or> v < 128 then b @ [to8 v]
      else appendVarintLoop (i + 1) (b @ [to8 (v AND 127 OR 128)]) (drop_bit 7 v))"
  by pat_completeness auto
termination
  by (relation "measure (\<lambda>(i, b, v). 9 - i)") auto

declare appendVarintLoop.simps [simp del]

definition appendVarint :: "byte list \<Rightarrow> uint64 \<Rightarrow> byte list" where
  "appendVarint b v = appendVarintLoop 0 b v"

section \<open>Tags\<close>

definition encodeTag :: "int \<Rightarrow> int \<Rightarrow> uint64" where
  "encodeTag num typ = push_bit 3 (word_of_int num) OR (word_of_int typ AND 7)"

definition decodeTag :: "uint64 \<Rightarrow> int \<times> int" where
  "decodeTag x =
     (if 0x7fffffff < drop_bit 3 x then (- 1, 0) else (uint (drop_bit 3 x), uint (x AND 7)))"

definition appendTag :: "byte list \<Rightarrow> int \<Rightarrow> int \<Rightarrow> byte list" where
  "appendTag b num typ = appendVarint b (encodeTag num typ)"

definition consumeTag :: "byte list \<Rightarrow> int \<times> int \<times> int" where
  "consumeTag b =
     (let (v, n) = consumeVarint b in
      if n < 0 then (0, 0, n)
      else let (num, typ) = decodeTag v in
        if num < minValidNumber then (0, 0, errCodeFieldNumber) else (num, typ, n))"

definition encodeBool :: "bool \<Rightarrow> uint64" where
  "encodeBool x = (if x then 1 else 0)"

definition decodeBool :: "uint64 \<Rightarrow> bool" where
  "decodeBool x \<longleftrightarrow> x \<noteq> 0"

section \<open>Values\<close>

definition consumeFixed32 :: "byte list \<Rightarrow> int" where
  "consumeFixed32 b = (if length b < 4 then errCodeTruncated else 4)"

definition consumeFixed64 :: "byte list \<Rightarrow> int" where
  "consumeFixed64 b = (if length b < 8 then errCodeTruncated else 8)"

definition consumeBytes :: "byte list \<Rightarrow> byte list \<times> int" where
  "consumeBytes b =
     (let (m, n) = consumeVarint b in
      if n < 0 then ([], n)
      else if word_of_int (int (length b) - n) < m then ([], errCodeTruncated)
      else (take (unat m) (drop (nat n) b), n + int (unat m)))"

definition appendBytes :: "byte list \<Rightarrow> byte list \<Rightarrow> byte list" where
  "appendBytes b v = appendVarint b (len64 v) @ v"

definition sizeBytes :: "int \<Rightarrow> int" where
  "sizeBytes n = sizeVarint (word_of_int n) + n"

section \<open>Lemmas on varints\<close>

lemma consumeVarintLoop_range:
  "consumeVarintLoop b i v = (x, n) \<Longrightarrow> n < 0 \<or> (int i < n \<and> n \<le> int (length b))"
proof (induction b i v rule: consumeVarintLoop.induct)
  case (1 b i v)
  show ?case
  proof (cases "i < 9 \<and> i < length b \<and> \<not> to64 (b ! i) < 128")
    case True
    with 1(2) have "consumeVarintLoop b (i + 1)
        (v + push_bit (7 * i) (to64 (b ! i)) - push_bit (7 * i) 128) = (x, n)"
      by (simp add: consumeVarintLoop.simps [of b i] Let_def)
    with 1(1) True show ?thesis
      by (force simp: Let_def)
  next
    case False
    with 1(2) show ?thesis
      by (auto simp: consumeVarintLoop.simps [of b i] Let_def split: if_splits)
  qed
qed

lemma consumeVarint_range:
  "consumeVarint b = (x, n) \<Longrightarrow> n < 0 \<or> (0 < n \<and> n \<le> int (length b))"
  using consumeVarintLoop_range [of b 0 0 x n] by (simp add: consumeVarint_def)

lemma consumeTag_range:
  "consumeTag b = (num, typ, n) \<Longrightarrow> n < 0 \<or> (0 < n \<and> n \<le> int (length b))"
  using consumeVarint_range [of b] by (auto simp: consumeTag_def split: prod.splits if_splits)

lemma unat_lt_128: "(v :: uint64) < 128 \<longleftrightarrow> unat v < 128"
  by (simp add: word_less_nat_alt)

lemma and_127: "(v :: uint64) AND 127 = v mod 128"
  using take_bit_eq_mask [of 7 v] by (simp add: take_bit_eq_mod mask_numeral)

lemma or_128: "(v :: uint64) AND 127 OR 128 = v mod 128 + 128"
proof -
  have "(v AND 127) AND 128 = 0"
    by (simp add: and.assoc)
  then have "v AND 127 OR 128 = (v AND 127) + 128"
    by (simp add: disjunctive_add_eq_or [symmetric])
  then show ?thesis by (simp add: and_127)
qed

lemma ucast_byte: "unat w < 256 \<Longrightarrow> to64 (to8 w) = w"
  by (simp add: word_unat_eq_iff unsigned_ucast_eq unsigned_take_bit_eq take_bit_nat_eq_self)

lemma varint_split: "(v :: uint64) = v mod 128 + 128 * drop_bit 7 v"
  using mod_mult_div_eq [of v 128] by (simp add: drop_bit_eq_div)

lemma consumeVarintLoop_step:
  assumes "i < 9" and "i < length b" and "to64 (b ! i) = y" and "\<not> y < 128"
  shows "consumeVarintLoop b i v =
    consumeVarintLoop b (i + 1) (v + push_bit (7 * i) y - push_bit (7 * i) 128)"
  using assms by (simp add: consumeVarintLoop.simps [of b i] Let_def)

lemma sizeVarintLoop_acc: "sizeVarintLoop i v (n + k) = sizeVarintLoop i v n + k"
proof (induction i v n rule: sizeVarintLoop.induct)
  case (1 i v n)
  show ?case
  proof (cases "9 \<le> i \<or> v < 128")
    case False
    with 1 have "sizeVarintLoop (i + 1) (drop_bit 7 v) (n + k + 1) =
        sizeVarintLoop (i + 1) (drop_bit 7 v) (n + 1) + k"
      by (simp add: add.assoc add.commute [of k])
    with False show ?thesis by (simp add: sizeVarintLoop.simps [of i])
  qed (simp add: sizeVarintLoop.simps [of i])
qed

lemma appendVarintLoop_prefix:
  "\<exists>ys. appendVarintLoop i b v = b @ ys \<and> int (length ys) = sizeVarintLoop i v 1"
proof (induction i b v rule: appendVarintLoop.induct)
  case (1 i b v)
  show ?case
  proof (cases "9 \<le> i \<or> v < 128")
    case True
    then show ?thesis
      by (simp add: appendVarintLoop.simps [of i] sizeVarintLoop.simps [of i])
  next
    case False
    from 1 [OF this] obtain ys where
      "appendVarintLoop (i + 1) (b @ [to8 (v AND 127 OR 128)]) (drop_bit 7 v) =
         b @ to8 (v AND 127 OR 128) # ys" and
      "int (length ys) = sizeVarintLoop (i + 1) (drop_bit 7 v) 1"
      by auto
    with False sizeVarintLoop_acc [of "i + 1" "drop_bit 7 v" 1 1] show ?thesis
      by (simp add: appendVarintLoop.simps [of i] sizeVarintLoop.simps [of i])
  qed
qed

text \<open>
  The reading loop at position \<open>i\<close> undoes the writing loop at position \<open>i\<close>: what remains
  of the value there is below \<open>2 ^ (64 - 7 i)\<close>, so the tenth byte is 0 or 1.
\<close>

lemma consume_appendVarintLoop:
  assumes "length pre = i" and "i \<le> 9" and "unat v < 2 ^ (64 - 7 * i)"
  shows "consumeVarintLoop (appendVarintLoop i pre v @ rest) i acc =
    (acc + push_bit (7 * i) v, sizeVarintLoop i v (int i + 1))"
  using assms
proof (induction i pre v arbitrary: acc rule: appendVarintLoop.induct)
  case (1 i b v)
  show ?case
  proof (cases "9 \<le> i \<or> v < 128")
    case True
    have "unat v < 256"
    proof (cases "i = 9")
      case True
      with 1(4) show ?thesis by simp
    next
      case False
      with True 1(3) show ?thesis by (simp add: unat_lt_128)
    qed
    then have y: "to64 (to8 v) = v" by (rule ucast_byte)
    show ?thesis
    proof (cases "i = 9")
      case True
      with 1(2,4) y show ?thesis
        by (simp add: consumeVarintLoop.simps [of _ 9] appendVarintLoop.simps [of 9]
            sizeVarintLoop.simps [of 9] nth_append word_less_nat_alt Let_def)
    next
      case False
      with True 1(2,3) y show ?thesis
        by (simp add: consumeVarintLoop.simps [of _ i] appendVarintLoop.simps [of i]
            sizeVarintLoop.simps [of i] nth_append Let_def)
    qed
  next
    case False
    let ?c = "v AND 127 OR 128"
    have i: "i < 9" and v: "\<not> v < 128" using False by simp_all
    have c: "?c = v mod 128 + 128" by (rule or_128)
    have "unat (v mod 128) < 128"
      by (simp add: unat_mod)
    then have uc: "unat ?c = unat (v mod 128) + 128"
      unfolding c by (subst unat_plus_simple [THEN iffD1]) (simp_all add: word_le_nat_alt unat_word_ariths)
    have y: "to64 (to8 ?c) = ?c"
      by (rule ucast_byte) (use \<open>unat (v mod 128) < 128\<close> uc in simp)
    have ge: "\<not> ?c < 128" by (simp add: unat_lt_128 uc)
    have len: "length (b @ [to8 ?c]) = i + 1" using 1(2) by simp
    have "unat (drop_bit 7 v) < 2 ^ (64 - 7 * (i + 1))"
    proof -
      have "unat (drop_bit 7 v) = unat v div 2 ^ 7"
        by (simp add: drop_bit_eq_div unat_div)
      also have "\<dots> < 2 ^ (64 - 7 * (i + 1))"
      proof -
        have "64 - 7 * i = (64 - 7 * (i + 1)) + 7" using i by simp
        with 1(4) have "unat v < 2 ^ (64 - 7 * (i + 1)) * 2 ^ 7"
          by (metis power_add)
        then show ?thesis by (rule less_mult_imp_div_less)
      qed
      finally show ?thesis .
    qed
    note IH = 1(1) [OF False len _ this]
    have app: "appendVarintLoop i b v = appendVarintLoop (i + 1) (b @ [to8 ?c]) (drop_bit 7 v)"
      using False by (simp add: appendVarintLoop.simps [of i])
    obtain ys where ys: "appendVarintLoop (i + 1) (b @ [to8 ?c]) (drop_bit 7 v) = (b @ [to8 ?c]) @ ys"
      using appendVarintLoop_prefix by blast
    have nth: "(b @ [to8 ?c] @ ys @ rest) ! i = to8 ?c"
      using 1(2) by (simp add: nth_append)
    have "consumeVarintLoop (appendVarintLoop i b v @ rest) i acc =
        consumeVarintLoop (appendVarintLoop (i + 1) (b @ [to8 ?c]) (drop_bit 7 v) @ rest) (i + 1)
          (acc + push_bit (7 * i) ?c - push_bit (7 * i) 128)"
      unfolding app ys append_assoc
      by (rule consumeVarintLoop_step) (use i 1(2) nth y ge in simp_all)
    also have "\<dots> = (acc + push_bit (7 * i) ?c - push_bit (7 * i) 128 +
        push_bit (7 * (i + 1)) (drop_bit 7 v), sizeVarintLoop (i + 1) (drop_bit 7 v) (int (i + 1) + 1))"
      by (rule IH) (use i in simp)
    also have "acc + push_bit (7 * i) ?c - push_bit (7 * i) 128 + push_bit (7 * (i + 1)) (drop_bit 7 v)
        = acc + push_bit (7 * i) v"
      unfolding c by (subst (3) varint_split)
        (simp add: push_bit_eq_mult algebra_simps power_add)
    also have "sizeVarintLoop (i + 1) (drop_bit 7 v) (int (i + 1) + 1) = sizeVarintLoop i v (int i + 1)"
      using False by (simp add: sizeVarintLoop.simps [of i])
    finally show ?thesis .
  qed
qed

lemma consume_appendVarint:
  "consumeVarint (appendVarint [] v @ rest) = (v, sizeVarint v)"
  using consume_appendVarintLoop [of "[]" 0 v rest 0]
  by (simp add: consumeVarint_def appendVarint_def sizeVarint_def)

lemma appendVarint_append: "appendVarint b v = b @ appendVarint [] v"
proof -
  have "appendVarintLoop i (c @ b) v = c @ appendVarintLoop i b v" for i b c v
  proof (induction i b v rule: appendVarintLoop.induct)
    case (1 i b v)
    then show ?case
      by (cases "9 \<le> i \<or> v < 128") (simp_all add: appendVarintLoop.simps [of i])
  qed
  from this [of 0 b "[]"] show ?thesis by (simp add: appendVarint_def)
qed

lemma length_appendVarint: "int (length (appendVarint b v)) = int (length b) + sizeVarint v"
  using appendVarintLoop_prefix [of 0 b v] by (auto simp: appendVarint_def sizeVarint_def)

lemma sizeVarintLoop_bounds: "n \<le> sizeVarintLoop i v n \<and> sizeVarintLoop i v n \<le> n + int (9 - i)"
proof (induction i v n rule: sizeVarintLoop.induct)
  case (1 i v n)
  then show ?case
    by (cases "9 \<le> i \<or> v < 128") (auto simp: sizeVarintLoop.simps [of i])
qed

lemma sizeVarint_bounds: "1 \<le> sizeVarint v" "sizeVarint v \<le> 10"
  using sizeVarintLoop_bounds [of 1 0 v] by (simp_all add: sizeVarint_def)

lemma sizeVarint_small: "v < 128 \<Longrightarrow> sizeVarint v = 1"
  by (simp add: sizeVarint_def sizeVarintLoop.simps [of 0])

lemma appendVarint_small: "v < 128 \<Longrightarrow> appendVarint b v = b @ [to8 v]"
  by (simp add: appendVarint_def appendVarintLoop.simps [of 0])

lemma appendVarint_not_Nil [simp]: "appendVarint b v \<noteq> []"
  using length_appendVarint [of b v] sizeVarint_bounds(1) [of v] by auto

text \<open>The length prefix, read back: \<^verbatim>\<open>len\<close> of a slice fits an \<^verbatim>\<open>int\<close>.\<close>

lemma consume_appendBytes:
  assumes "length v + length rest < 2 ^ 63"
  shows "consumeBytes (appendBytes [] v @ rest) = (v, sizeBytes (int (length v)))"
proof -
  let ?n = "sizeVarint (len64 v)"
  have n: "0 < ?n" using sizeVarint_bounds(1) [of "len64 v"] by simp
  have u: "unat (len64 v) = length v"
    unfolding len64_def using assms by (intro unat_of_nat64) simp
  have l: "int (length (appendVarint [] (len64 v))) = ?n"
    using length_appendVarint [of "[]" "len64 v"] by simp
  then have ln: "nat ?n = length (appendVarint [] (len64 v))" by simp
  have "uint (word_of_int (int (length v) + int (length rest)) :: uint64) =
      int (length v) + int (length rest)"
    using assms by (intro uint_of_int64) simp_all
  then have "\<not> word_of_int (int (length v) + int (length rest)) < len64 v"
    unfolding word_less_def using u by (simp only: uint_nat)
  moreover have "int (length (appendBytes [] v @ rest)) - ?n = int (length v) + int (length rest)"
    using l by (simp add: appendBytes_def)
  ultimately show ?thesis
    using n consume_appendVarint [of "len64 v" "v @ rest"]
    by (simp add: consumeBytes_def appendBytes_def u ln sizeBytes_def flip: len64_def)
qed

lemma length_appendBytes: "int (length (appendBytes b v)) = int (length b) + sizeBytes (int (length v))"
  using length_appendVarint [of b "len64 v"] by (simp add: appendBytes_def sizeBytes_def len64_def)

lemma appendBytes_append: "appendBytes b v = b @ appendBytes [] v"
  using appendVarint_append [of b] by (simp add: appendBytes_def)

lemma consumeBytes_range:
  assumes "consumeBytes b = (v, n)" and "length b < 2 ^ 63"
  shows "n < 0 \<or> (0 < n \<and> n \<le> int (length b) \<and> length v < length b)"
proof -
  obtain m k where mk: "consumeVarint b = (m, k)" by fastforce
  with consumeVarint_range have k: "k < 0 \<or> (0 < k \<and> k \<le> int (length b))" by blast
  show ?thesis
  proof (cases "k < 0 \<or> word_of_int (int (length b) - k) < m")
    case True
    with assms(1) mk show ?thesis
      by (auto simp: consumeBytes_def split: if_splits)
  next
    case False
    with k have k': "0 < k" "k \<le> int (length b)" by auto
    have "uint (word_of_int (int (length b) - k) :: uint64) = int (length b) - k"
      using k' assms(2) by (intro uint_of_int64) simp_all
    with False have "int (unat m) \<le> int (length b) - k"
      unfolding word_less_def by (simp only: uint_nat) linarith
    moreover have "n = k + int (unat m)" and "length v \<le> length b - nat k"
      using assms(1) mk False by (auto simp: consumeBytes_def simp flip: uint_nat)
    ultimately show ?thesis using k' by linarith
  qed
qed

section \<open>Skipping a field\<close>

text \<open>
  \<open>consumeFieldValueD\<close> and its loop over the fields of a group, which the source writes
  in the function's body. The recursion ends because every tag takes at least one byte.
\<close>

lemma consumeTag_shrinks:
  "(num, typ, n) = consumeTag b \<Longrightarrow> \<not> n < 0 \<Longrightarrow> length (drop (nat n) b) < length b"
  using consumeTag_range [of b num "typ" n] by auto

function consumeFieldValueD :: "int \<Rightarrow> int \<Rightarrow> byte list \<Rightarrow> int \<Rightarrow> int"
  and consumeGroup :: "int \<Rightarrow> byte list \<Rightarrow> int \<Rightarrow> int \<Rightarrow> int" where
  "consumeFieldValueD num typ b depth =
     (if typ = varintType then snd (consumeVarint b)
      else if typ = fixed32Type then consumeFixed32 b
      else if typ = fixed64Type then consumeFixed64 b
      else if typ = bytesType then snd (consumeBytes b)
      else if typ = startGroupType then
        (if depth < 0 then errCodeRecursionDepth
         else consumeGroup num b (int (length b)) depth)
      else if typ = endGroupType then errCodeEndGroup
      else errCodeReserved)"
| "consumeGroup num b n0 depth =
     (if b = [] then errCodeTruncated
      else case consumeTag b of (num2, typ2, n) \<Rightarrow>
        if n < 0 then n
        else let b = drop (nat n) b in
          if typ2 = endGroupType then
            (if num \<noteq> num2 then errCodeEndGroup else n0 - int (length b))
          else let m = consumeFieldValueD num2 typ2 b (depth - 1) in
            if m < 0 then m else consumeGroup num (drop (nat m) b) n0 depth)"
  by pat_completeness auto
termination
  by (relation "measures [\<lambda>x. case x of Inl (num, typ, b, depth) \<Rightarrow> length b
        | Inr (num, b, n0, depth) \<Rightarrow> length b,
      \<lambda>x. case x of Inl y \<Rightarrow> 1 | Inr y \<Rightarrow> 0]")
    (auto dest: consumeTag_shrinks)

declare consumeFieldValueD.simps [simp del] consumeGroup.simps [simp del]

definition consumeFieldValue :: "int \<Rightarrow> int \<Rightarrow> byte list \<Rightarrow> int" where
  "consumeFieldValue num typ b = consumeFieldValueD num typ b defaultRecursionLimit"

definition consumeField :: "byte list \<Rightarrow> int \<times> int \<times> int" where
  "consumeField b =
     (let (num, typ, n) = consumeTag b in
      if n < 0 then (0, 0, n)
      else let m = consumeFieldValue num typ (drop (nat n) b) in
        if m < 0 then (0, 0, m) else (num, typ, n + m))"

lemma consumeFieldValueD_range:
  "length b < 2 ^ 63 \<Longrightarrow> consumeFieldValueD num typ b depth \<le> int (length b)"
  "length b < 2 ^ 63 \<Longrightarrow> int (length b) \<le> n0 \<Longrightarrow> consumeGroup num b n0 depth \<le> n0"
proof (induction num "typ" b depth and num b n0 depth rule: consumeFieldValueD_consumeGroup.induct)
  case (1 num ty b depth)
  obtain v n where vn: "consumeVarint b = (v, n)" by fastforce
  obtain w k where wk: "consumeBytes b = (w, k)" by fastforce
  show ?case
    using 1 consumeVarint_range [OF vn] consumeBytes_range [OF wk]
    by (auto simp: consumeFieldValueD.simps [of num ty b depth] vn wk consumeFixed32_def
        consumeFixed64_def)
next
  case (2 num b n0 depth)
  obtain num2 typ2 n where t: "consumeTag b = (num2, typ2, n)"
    by (metis prod_cases3)
  let ?b = "drop (nat n) b" and ?m = "consumeFieldValueD num2 typ2 (drop (nat n) b) (depth - 1)"
  show ?case
  proof (cases "b = [] \<or> n < 0 \<or> typ2 = 4 \<or> ?m < 0")
    case True
    with 2(4) t show ?thesis
      by (auto simp: consumeGroup.simps [of num b n0 depth] Let_def)
  next
    case False
    have "consumeGroup num (drop (nat ?m) ?b) n0 depth \<le> n0"
      by (rule 2(2) [OF _ t [symmetric] refl _ refl _ refl]) (use False 2(3,4) in auto)
    with False t show ?thesis
      by (simp add: consumeGroup.simps [of num b n0 depth] Let_def)
  qed
qed

lemma consumeField_range:
  assumes "consumeField b = (num, typ, n)" and "length b < 2 ^ 63"
  shows "n < 0 \<or> (0 < n \<and> n \<le> int (length b))"
proof -
  obtain num' typ' k where t: "consumeTag b = (num', typ', k)"
    by (metis prod_cases3)
  have "consumeFieldValueD num' typ' (drop (nat k) b) 10000 \<le> int (length (drop (nat k) b))"
    by (rule consumeFieldValueD_range) (use assms(2) in simp)
  with assms(1) consumeTag_range [OF t] show ?thesis
    by (auto simp: consumeField_def consumeFieldValue_def t Let_def split: if_splits)
qed

section \<open>Retained unknown bytes\<close>

definition bytesEqual :: "byte list \<Rightarrow> byte list \<Rightarrow> bool" where
  "bytesEqual a b \<longleftrightarrow> length a = length b \<and> list_all2 (=) a b"

text \<open>The loops panic where the source slices with a negative bound.\<close>

function unknownFieldRecords :: "byte list \<Rightarrow> int \<Rightarrow> byte list option" where
  "unknownFieldRecords x num =
     (if x = [] then Some []
      else case consumeField x of (fnum, ty, n) \<Rightarrow>
        if n \<le> 0 then None
        else do {
          out \<leftarrow> unknownFieldRecords (drop (nat n) x) num;
          Some (if fnum = num then take (nat n) x @ out else out)
        })"
  by pat_completeness auto
termination
  by (relation "measure (\<lambda>(x, num). length x)") auto

declare unknownFieldRecords.simps [simp del]

function equalUnknownLoop1 :: "byte list \<Rightarrow> byte list \<Rightarrow> byte list \<Rightarrow> bool option" where
  "equalUnknownLoop1 x y rest =
     (if rest = [] then Some True
      else case consumeField rest of (fnum, ty, n) \<Rightarrow> do {
        rx \<leftarrow> unknownFieldRecords x fnum;
        ry \<leftarrow> unknownFieldRecords y fnum;
        if \<not> bytesEqual rx ry then Some False
        else if n \<le> 0 then None
        else equalUnknownLoop1 x y (drop (nat n) rest)
      })"
  by pat_completeness auto
termination
  by (relation "measure (\<lambda>(x, y, rest). length rest)") auto

declare equalUnknownLoop1.simps [simp del]

function equalUnknownLoop2 :: "byte list \<Rightarrow> byte list \<Rightarrow> bool option" where
  "equalUnknownLoop2 x rest =
     (if rest = [] then Some True
      else case consumeField rest of (fnum, ty, n) \<Rightarrow> do {
        rx \<leftarrow> unknownFieldRecords x fnum;
        if length rx = 0 then Some False
        else if n \<le> 0 then None
        else equalUnknownLoop2 x (drop (nat n) rest)
      })"
  by pat_completeness auto
termination
  by (relation "measure (\<lambda>(x, rest). length rest)") auto

declare equalUnknownLoop2.simps [simp del]

definition equalUnknown :: "byte list \<Rightarrow> byte list \<Rightarrow> bool option" where
  "equalUnknown x y =
     (if length x \<noteq> length y then Some False
      else if bytesEqual x y then Some True
      else do {
        ok \<leftarrow> equalUnknownLoop1 x y x;
        if \<not> ok then Some False else equalUnknownLoop2 x y
      })"

lemma bytesEqual_eq [simp]: "bytesEqual a b \<longleftrightarrow> a = b"
  by (auto simp: bytesEqual_def list.rel_eq)

lemma equalUnknown_refl [simp]: "equalUnknown x x = Some True"
  by (simp add: equalUnknown_def)

section \<open>Field consumers\<close>

text \<open>The two fast paths of a varint that the field consumers and the decode loop take first.\<close>

definition consumeVarintFast :: "byte list \<Rightarrow> uint64 \<times> int" where
  "consumeVarintFast b =
     (if 1 \<le> length b \<and> b ! 0 < 128 then (to64 (b ! 0), 1)
      else if 2 \<le> length b \<and> b ! 1 < 128
      then (to64 (b ! 0 AND 127) + push_bit 7 (to64 (b ! 1)), 2)
      else consumeVarint b)"

definition consumeVarintValue :: "byte list \<Rightarrow> int \<Rightarrow> decode_error + (uint64 \<times> int)" where
  "consumeVarintValue b wtyp =
     (if wtyp \<noteq> varintType then Inl errUnknown
      else let (v, n) = consumeVarintFast b in
        if n < 0 then Inl errDecode else Inr (v, n))"

definition consumeBytesValue :: "byte list \<Rightarrow> int \<Rightarrow> decode_error + (byte list \<times> int)" where
  "consumeBytesValue b wtyp =
     (if wtyp \<noteq> bytesType then Inl errUnknown
      else let (v, n) = consumeBytes b in
        if n < 0 then Inl errDecode else Inr (v, n))"

lemma unat_to64 [simp]: "unat (to64 y) = unat y"
proof -
  have "unat y < 2 ^ 64"
    using unsigned_less [of y, where 'a = nat] by simp
  then show ?thesis
    by (simp add: unsigned_ucast_eq take_bit_nat_eq_self)
qed

lemma to64_lt_128: "to64 y < 128 \<longleftrightarrow> y < 128"
  by (simp add: word_less_nat_alt)

lemma byte_high:
  assumes "\<not> (y :: byte) < 128"
  shows "to64 y = to64 (y AND 127) + 128"
proof -
  have "y AND 127 = y mod 128"
    using take_bit_eq_mask [of 7 y] by (simp add: take_bit_eq_mod mask_numeral)
  then have "unat (y AND 127) = unat y mod 128"
    by (simp add: unat_mod)
  moreover have "128 \<le> unat y" and "unat y < 256"
    using assms unsigned_less [of y, where 'a = nat] by (simp_all add: word_less_nat_alt)
  ultimately have "unat y = unat (y AND 127) + 128"
    using le_mod_geq [of 128 "unat y"] by simp
  then have "unat (to64 y) = unat (to64 (y AND 127) + 128)"
    using \<open>unat y < 256\<close> by (simp add: unat_word_ariths)
  then show ?thesis by (rule unsigned_word_eqI)
qed

lemma consumeVarintFast_eq:
  assumes "b \<noteq> []"
  shows "consumeVarintFast b = consumeVarint b"
proof -
  have len: "0 < length b" using assms by simp
  show ?thesis
  proof (cases "b ! 0 < 128")
    case True
    with len show ?thesis
      by (simp add: consumeVarintFast_def consumeVarint_def consumeVarintLoop.simps [of b 0]
          to64_lt_128 Let_def Suc_le_eq)
  next
    case False
    then have ge: "\<not> to64 (b ! 0) < 128" by (simp add: to64_lt_128)
    have step: "consumeVarint b = consumeVarintLoop b 1 (to64 (b ! 0) - 128)"
      using consumeVarintLoop_step [OF _ len refl ge] by (simp add: consumeVarint_def)
    show ?thesis
    proof (cases "2 \<le> length b \<and> b ! 1 < 128")
      case True
      with step False byte_high [OF False] show ?thesis
        by (simp add: consumeVarintFast_def consumeVarintLoop.simps [of b "Suc 0"] to64_lt_128 Let_def)
    qed (use False in \<open>auto simp: consumeVarintFast_def\<close>)
  qed
qed

lemma consumeVarintFast_range:
  "b \<noteq> [] \<Longrightarrow> consumeVarintFast b = (x, n) \<Longrightarrow> n < 0 \<or> (0 < n \<and> n \<le> int (length b))"
  by (simp add: consumeVarintFast_eq consumeVarint_range)

lemma consumeVarintFast_append:
  "consumeVarintFast (appendVarint [] v @ rest) = (v, sizeVarint v)"
  by (simp add: consumeVarintFast_eq consume_appendVarint)

end
