(* ===== verification/Codec.thy ===== *)
theory Codec
  imports Raftpb Wire
begin

text \<open>
  The protobuf codec of src/raftsubject/raftpb/plain_codec.go: for each of the nine message
  types \<^verbatim>\<open>SizeMessage\<close>, \<^verbatim>\<open>MarshalAppend\<close> and \<^verbatim>\<open>UnmarshalMessage\<close>, and the entry points of
  src/raftsubject/proto/proto.go. The generated decoders share one loop and differ in the
  switch over field numbers; the loop is \<open>unmarshalLoop\<close> with the switch as an argument.
  A decoder's recursion depth is a natural number, 10000 at the entry.

  The locale \<open>codec\<close> states what an embedding message relies on: the size announced is the
  length written, appending is writing at the end, and what was written is read back. It is
  interpreted for every message type.
\<close>

unbundle bit_operations_syntax

section \<open>The decode loop\<close>

type_synonym 'm field_switch = "int \<Rightarrow> int \<Rightarrow> byte list \<Rightarrow> 'm \<Rightarrow> decode_error + ('m \<times> int)"

lemma fast_shrinks: "(x, n) = consumeVarintFast b \<Longrightarrow> b \<noteq> [] \<Longrightarrow> \<not> n < 0 \<Longrightarrow> 0 < n"
  using consumeVarintFast_range [of b x n] by auto

function unmarshalLoop ::
    "'m field_switch \<Rightarrow> (byte list \<Rightarrow> 'm \<Rightarrow> 'm) \<Rightarrow> byte list \<Rightarrow> 'm \<Rightarrow> decode_error + 'm" where
  "unmarshalLoop field retain b x =
     (if b = [] then Inr x
      else case consumeVarintFast b of (tag, k) \<Rightarrow>
        if k < 0 then Inl errDecode
        else let b = drop (nat k) b; fn = uint (drop_bit 3 tag) in
          if fn < minValidNumber \<or> maxValidNumber < fn then Inl errDecode
          else let wtyp = uint (tag AND 7) in
            if wtyp = endGroupType then Inl errDecode
            else case field fn wtyp b x of
                Inr (x, n) \<Rightarrow> unmarshalLoop field retain (drop (nat n) b) x
              | Inl e \<Rightarrow>
                  if e \<noteq> errUnknown then Inl e
                  else let n = consumeFieldValue fn wtyp b in
                    if n < 0 then Inl errDecode
                    else unmarshalLoop field retain (drop (nat n) b)
                      (retain (appendTag [] fn wtyp @ take (nat n) b) x))"
  by pat_completeness auto
termination
  by (relation "measure (\<lambda>(field, retain, b, x). length b)") (auto dest: fast_shrinks)

declare unmarshalLoop.simps [simp del]

text \<open>The field consumers: a varint, a byte slice, an embedded message.\<close>

definition varintField :: "(uint64 \<Rightarrow> 'm \<Rightarrow> 'm) \<Rightarrow> int \<Rightarrow> byte list \<Rightarrow> 'm \<Rightarrow> decode_error + ('m \<times> int)" where
  "varintField put wtyp b x =
     (case consumeVarintValue b wtyp of Inl e \<Rightarrow> Inl e | Inr (v, n) \<Rightarrow> Inr (put v x, n))"

definition bytesField ::
    "(byte list \<Rightarrow> 'm \<Rightarrow> decode_error + 'm) \<Rightarrow> int \<Rightarrow> byte list \<Rightarrow> 'm \<Rightarrow> decode_error + ('m \<times> int)" where
  "bytesField put wtyp b x =
     (case consumeBytesValue b wtyp of
        Inl e \<Rightarrow> Inl e
      | Inr (v, n) \<Rightarrow> (case put v x of Inl e2 \<Rightarrow> Inl e2 | Inr x \<Rightarrow> Inr (x, n)))"

text \<open>\<^verbatim>\<open>consumePackedUint64\<close>, and the two encodings of a repeated varint.\<close>

function packedLoop :: "byte list \<Rightarrow> uint64 list \<Rightarrow> decode_error + uint64 list" where
  "packedLoop p out =
     (if p = [] then Inr out
      else case consumeVarintFast p of (v, k) \<Rightarrow>
        if k < 0 then Inl errDecode else packedLoop (drop (nat k) p) (out @ [v]))"
  by pat_completeness auto
termination
  by (relation "measure (\<lambda>(p, out). length p)") (auto dest: fast_shrinks)

declare packedLoop.simps [simp del]

definition consumePackedUint64 :: "byte list \<Rightarrow> uint64 list \<Rightarrow> decode_error + (uint64 list \<times> int)" where
  "consumePackedUint64 b s =
     (let (p, n) = consumeBytes b in
      if n < 0 then Inl errDecode
      else case packedLoop p s of Inl e \<Rightarrow> Inl e | Inr out \<Rightarrow> Inr (out, n))"

definition repeatedField ::
    "('m \<Rightarrow> uint64 list) \<Rightarrow> (uint64 list \<Rightarrow> 'm \<Rightarrow> 'm) \<Rightarrow> int \<Rightarrow> byte list \<Rightarrow> 'm \<Rightarrow> decode_error + ('m \<times> int)" where
  "repeatedField sel upd wtyp b x =
     (if wtyp = bytesType
      then (case consumePackedUint64 b (sel x) of Inl e \<Rightarrow> Inl e | Inr (s, n) \<Rightarrow> Inr (upd s x, n))
      else varintField (\<lambda>v x. upd (sel x @ [v]) x) wtyp b x)"

section \<open>Enums on the wire\<close>

text \<open>\<^verbatim>\<open>uint64(*x.Type)\<close> sign-extends the \<^verbatim>\<open>int32\<close>; \<^verbatim>\<open>int32(v)\<close> truncates.\<close>

fun EntryType_num :: "EntryType \<Rightarrow> 32 word" where
  "EntryType_num EntryNormal = 0"
| "EntryType_num EntryConfChange = 1"
| "EntryType_num EntryConfChangeV2 = 2"
| "EntryType_num (EntryOther w) = w"

definition EntryType_of :: "32 word \<Rightarrow> EntryType" where
  "EntryType_of w = (if w = 0 then EntryNormal else if w = 1 then EntryConfChange
     else if w = 2 then EntryConfChangeV2 else EntryOther w)"

definition MessageType_names :: "MessageType list" where
  "MessageType_names = [MsgHup, MsgBeat, MsgProp, MsgApp, MsgAppResp, MsgVote, MsgVoteResp,
     MsgSnap, MsgHeartbeat, MsgHeartbeatResp, MsgUnreachable, MsgSnapStatus, MsgCheckQuorum,
     MsgTransferLeader, MsgTimeoutNow, MsgReadIndex, MsgReadIndexResp, MsgPreVote,
     MsgPreVoteResp, MsgStorageAppend, MsgStorageAppendResp, MsgStorageApply,
     MsgStorageApplyResp, MsgForgetLeader]"

fun MessageType_num :: "MessageType \<Rightarrow> 32 word" where
  "MessageType_num (MsgOther w) = w"
| "MessageType_num MsgHup = 0" | "MessageType_num MsgBeat = 1"
| "MessageType_num MsgProp = 2" | "MessageType_num MsgApp = 3"
| "MessageType_num MsgAppResp = 4" | "MessageType_num MsgVote = 5"
| "MessageType_num MsgVoteResp = 6" | "MessageType_num MsgSnap = 7"
| "MessageType_num MsgHeartbeat = 8" | "MessageType_num MsgHeartbeatResp = 9"
| "MessageType_num MsgUnreachable = 10" | "MessageType_num MsgSnapStatus = 11"
| "MessageType_num MsgCheckQuorum = 12" | "MessageType_num MsgTransferLeader = 13"
| "MessageType_num MsgTimeoutNow = 14" | "MessageType_num MsgReadIndex = 15"
| "MessageType_num MsgReadIndexResp = 16" | "MessageType_num MsgPreVote = 17"
| "MessageType_num MsgPreVoteResp = 18" | "MessageType_num MsgStorageAppend = 19"
| "MessageType_num MsgStorageAppendResp = 20" | "MessageType_num MsgStorageApply = 21"
| "MessageType_num MsgStorageApplyResp = 22" | "MessageType_num MsgForgetLeader = 23"

definition MessageType_of :: "32 word \<Rightarrow> MessageType" where
  "MessageType_of w = (if w < 24 then MessageType_names ! unat w else MsgOther w)"

fun ConfChangeTransition_num :: "ConfChangeTransition \<Rightarrow> 32 word" where
  "ConfChangeTransition_num ConfChangeTransitionAuto = 0"
| "ConfChangeTransition_num ConfChangeTransitionJointImplicit = 1"
| "ConfChangeTransition_num ConfChangeTransitionJointExplicit = 2"
| "ConfChangeTransition_num (ConfChangeTransitionOther w) = w"

definition ConfChangeTransition_of :: "32 word \<Rightarrow> ConfChangeTransition" where
  "ConfChangeTransition_of w = (if w = 0 then ConfChangeTransitionAuto
     else if w = 1 then ConfChangeTransitionJointImplicit
     else if w = 2 then ConfChangeTransitionJointExplicit else ConfChangeTransitionOther w)"

fun ConfChangeType_num :: "ConfChangeType \<Rightarrow> 32 word" where
  "ConfChangeType_num ConfChangeAddNode = 0"
| "ConfChangeType_num ConfChangeRemoveNode = 1"
| "ConfChangeType_num ConfChangeUpdateNode = 2"
| "ConfChangeType_num ConfChangeAddLearnerNode = 3"
| "ConfChangeType_num (ConfChangeOther w) = w"

definition ConfChangeType_of :: "32 word \<Rightarrow> ConfChangeType" where
  "ConfChangeType_of w = (if w = 0 then ConfChangeAddNode else if w = 1 then ConfChangeRemoveNode
     else if w = 2 then ConfChangeUpdateNode else if w = 3 then ConfChangeAddLearnerNode
     else ConfChangeOther w)"

definition enum64 :: "32 word \<Rightarrow> uint64" where
  "enum64 w = scast w"

definition enum32 :: "uint64 \<Rightarrow> 32 word" where
  "enum32 v = ucast v"

lemma enum32_enum64 [simp]: "enum32 (enum64 w) = w"
  unfolding enum32_def enum64_def
  by (rule bit_word_eqI) (auto simp: bit_simps)

text \<open>An enum value is canonical when it is not an unnamed value with the number of a name.\<close>

definition EntryType_ok :: "EntryType \<Rightarrow> bool" where
  "EntryType_ok t \<longleftrightarrow> EntryType_of (EntryType_num t) = t"

definition MessageType_ok :: "MessageType \<Rightarrow> bool" where
  "MessageType_ok t \<longleftrightarrow> MessageType_of (MessageType_num t) = t"

definition ConfChangeTransition_ok :: "ConfChangeTransition \<Rightarrow> bool" where
  "ConfChangeTransition_ok t \<longleftrightarrow> ConfChangeTransition_of (ConfChangeTransition_num t) = t"

definition ConfChangeType_ok :: "ConfChangeType \<Rightarrow> bool" where
  "ConfChangeType_ok t \<longleftrightarrow> ConfChangeType_of (ConfChangeType_num t) = t"

section \<open>Encoding\<close>

definition sizeOpt :: "('a \<Rightarrow> uint64) \<Rightarrow> 'a option \<Rightarrow> int" where
  "sizeOpt enc o' = (case o' of None \<Rightarrow> 0 | Some v \<Rightarrow> 1 + sizeVarint (enc v))"

definition sizeOptBytes :: "byte list option \<Rightarrow> int" where
  "sizeOptBytes o' = (case o' of None \<Rightarrow> 0 | Some v \<Rightarrow> 1 + sizeBytes (int (length v)))"

definition sizeOptMsg :: "('m \<Rightarrow> int) \<Rightarrow> 'm option \<Rightarrow> int" where
  "sizeOptMsg siz o' = (case o' of None \<Rightarrow> 0 | Some m \<Rightarrow> 1 + sizeBytes (siz m))"

definition putOpt :: "uint64 \<Rightarrow> ('a \<Rightarrow> uint64) \<Rightarrow> 'a option \<Rightarrow> byte list \<Rightarrow> byte list" where
  "putOpt tag enc o' b =
     (case o' of None \<Rightarrow> b | Some v \<Rightarrow> appendVarint (appendVarint b tag) (enc v))"

definition putOptBytes :: "uint64 \<Rightarrow> byte list option \<Rightarrow> byte list \<Rightarrow> byte list" where
  "putOptBytes tag o' b = (case o' of None \<Rightarrow> b | Some v \<Rightarrow> appendBytes (appendVarint b tag) v)"

definition putMsg ::
    "uint64 \<Rightarrow> ('m \<Rightarrow> int) \<Rightarrow> (byte list \<Rightarrow> 'm \<Rightarrow> byte list) \<Rightarrow> 'm \<Rightarrow> byte list \<Rightarrow> byte list" where
  "putMsg tag siz enc m b = enc (appendVarint (appendVarint b tag) (word_of_int (siz m))) m"

definition putOptMsg ::
    "uint64 \<Rightarrow> ('m \<Rightarrow> int) \<Rightarrow> (byte list \<Rightarrow> 'm \<Rightarrow> byte list) \<Rightarrow> 'm option \<Rightarrow> byte list \<Rightarrow> byte list" where
  "putOptMsg tag siz enc o' b = (case o' of None \<Rightarrow> b | Some m \<Rightarrow> putMsg tag siz enc m b)"

definition putRep :: "uint64 \<Rightarrow> uint64 list \<Rightarrow> byte list \<Rightarrow> byte list" where
  "putRep tag vs b = fold (\<lambda>v b. appendVarint (appendVarint b tag) v) vs b"

definition Entry_SizeMessage :: "Entry \<Rightarrow> int" where
  "Entry_SizeMessage x =
     sizeOpt (\<lambda>t. enum64 (EntryType_num t)) (eType x) + sizeOpt (\<lambda>v. v) (eTerm x)
     + sizeOpt (\<lambda>v. v) (eIndex x) + sizeOptBytes (eData x) + int (length (eUnknown x))"

definition Entry_MarshalAppend :: "byte list \<Rightarrow> Entry \<Rightarrow> byte list" where
  "Entry_MarshalAppend b x =
     (let b = putOpt 0x8 (\<lambda>t. enum64 (EntryType_num t)) (eType x) b;
          b = putOpt 0x10 (\<lambda>v. v) (eTerm x) b;
          b = putOpt 0x18 (\<lambda>v. v) (eIndex x) b;
          b = putOptBytes 0x22 (eData x) b
      in b @ eUnknown x)"

definition ConfState_SizeMessage :: "ConfState \<Rightarrow> int" where
  "ConfState_SizeMessage x =
     sum_list (map (\<lambda>v. 1 + sizeVarint v) (csVoters x))
     + sum_list (map (\<lambda>v. 1 + sizeVarint v) (csLearners x))
     + sum_list (map (\<lambda>v. 1 + sizeVarint v) (csVotersOutgoing x))
     + sum_list (map (\<lambda>v. 1 + sizeVarint v) (csLearnersNext x))
     + sizeOpt encodeBool (csAutoLeave x) + int (length (csUnknown x))"

definition ConfState_MarshalAppend :: "byte list \<Rightarrow> ConfState \<Rightarrow> byte list" where
  "ConfState_MarshalAppend b x =
     (let b = putRep 0x8 (csVoters x) b;
          b = putRep 0x10 (csLearners x) b;
          b = putRep 0x18 (csVotersOutgoing x) b;
          b = putRep 0x20 (csLearnersNext x) b;
          b = putOpt 0x28 encodeBool (csAutoLeave x) b
      in b @ csUnknown x)"

definition SnapshotMetadata_SizeMessage :: "SnapshotMetadata \<Rightarrow> int" where
  "SnapshotMetadata_SizeMessage x =
     sizeOptMsg ConfState_SizeMessage (smConfState x) + sizeOpt (\<lambda>v. v) (smIndex x)
     + sizeOpt (\<lambda>v. v) (smTerm x) + int (length (smUnknown x))"

definition SnapshotMetadata_MarshalAppend :: "byte list \<Rightarrow> SnapshotMetadata \<Rightarrow> byte list" where
  "SnapshotMetadata_MarshalAppend b x =
     (let b = putOptMsg 0xa ConfState_SizeMessage ConfState_MarshalAppend (smConfState x) b;
          b = putOpt 0x10 (\<lambda>v. v) (smIndex x) b;
          b = putOpt 0x18 (\<lambda>v. v) (smTerm x) b
      in b @ smUnknown x)"

definition Snapshot_SizeMessage :: "Snapshot \<Rightarrow> int" where
  "Snapshot_SizeMessage x =
     sizeOptBytes (snData x) + sizeOptMsg SnapshotMetadata_SizeMessage (snMetadata x)
     + int (length (snUnknown x))"

definition Snapshot_MarshalAppend :: "byte list \<Rightarrow> Snapshot \<Rightarrow> byte list" where
  "Snapshot_MarshalAppend b x =
     (let b = putOptBytes 0xa (snData x) b;
          b = putOptMsg 0x12 SnapshotMetadata_SizeMessage SnapshotMetadata_MarshalAppend
                (snMetadata x) b
      in b @ snUnknown x)"

definition HardState_SizeMessage :: "HardState \<Rightarrow> int" where
  "HardState_SizeMessage x =
     sizeOpt (\<lambda>v. v) (hsTerm x) + sizeOpt (\<lambda>v. v) (hsVote x) + sizeOpt (\<lambda>v. v) (hsCommit x)
     + int (length (hsUnknown x))"

definition HardState_MarshalAppend :: "byte list \<Rightarrow> HardState \<Rightarrow> byte list" where
  "HardState_MarshalAppend b x =
     (let b = putOpt 0x8 (\<lambda>v. v) (hsTerm x) b;
          b = putOpt 0x10 (\<lambda>v. v) (hsVote x) b;
          b = putOpt 0x18 (\<lambda>v. v) (hsCommit x) b
      in b @ hsUnknown x)"

definition ConfChange_SizeMessage :: "ConfChange \<Rightarrow> int" where
  "ConfChange_SizeMessage x =
     sizeOpt (\<lambda>v. v) (ccId x) + sizeOpt (\<lambda>t. enum64 (ConfChangeType_num t)) (ccType x)
     + sizeOpt (\<lambda>v. v) (ccNodeId x) + sizeOptBytes (ccContext x) + int (length (ccUnknown x))"

definition ConfChange_MarshalAppend :: "byte list \<Rightarrow> ConfChange \<Rightarrow> byte list" where
  "ConfChange_MarshalAppend b x =
     (let b = putOpt 0x8 (\<lambda>v. v) (ccId x) b;
          b = putOpt 0x10 (\<lambda>t. enum64 (ConfChangeType_num t)) (ccType x) b;
          b = putOpt 0x18 (\<lambda>v. v) (ccNodeId x) b;
          b = putOptBytes 0x22 (ccContext x) b
      in b @ ccUnknown x)"

definition ConfChangeSingle_SizeMessage :: "ConfChangeSingle \<Rightarrow> int" where
  "ConfChangeSingle_SizeMessage x =
     sizeOpt (\<lambda>t. enum64 (ConfChangeType_num t)) (ccsType x) + sizeOpt (\<lambda>v. v) (ccsNodeId x)
     + int (length (ccsUnknown x))"

definition ConfChangeSingle_MarshalAppend :: "byte list \<Rightarrow> ConfChangeSingle \<Rightarrow> byte list" where
  "ConfChangeSingle_MarshalAppend b x =
     (let b = putOpt 0x8 (\<lambda>t. enum64 (ConfChangeType_num t)) (ccsType x) b;
          b = putOpt 0x10 (\<lambda>v. v) (ccsNodeId x) b
      in b @ ccsUnknown x)"

definition ConfChangeV2_SizeMessage :: "ConfChangeV2 \<Rightarrow> int" where
  "ConfChangeV2_SizeMessage x =
     sizeOpt (\<lambda>t. enum64 (ConfChangeTransition_num t)) (ccv2Transition x)
     + sum_list (map (\<lambda>c. 1 + sizeBytes (ConfChangeSingle_SizeMessage c)) (ccv2Changes x))
     + sizeOptBytes (ccv2Context x) + int (length (ccv2Unknown x))"

definition ConfChangeV2_MarshalAppend :: "byte list \<Rightarrow> ConfChangeV2 \<Rightarrow> byte list" where
  "ConfChangeV2_MarshalAppend b x =
     (let b = putOpt 0x8 (\<lambda>t. enum64 (ConfChangeTransition_num t)) (ccv2Transition x) b;
          b = fold (putMsg 0x12 ConfChangeSingle_SizeMessage ConfChangeSingle_MarshalAppend)
                (ccv2Changes x) b;
          b = putOptBytes 0x1a (ccv2Context x) b
      in b @ ccv2Unknown x)"

fun Message_SizeMessage :: "Message \<Rightarrow> int" where
  "Message_SizeMessage (Msg x rs) =
     sizeOpt (\<lambda>t. enum64 (MessageType_num t)) (mType x) + sizeOpt (\<lambda>v. v) (mTo x)
     + sizeOpt (\<lambda>v. v) (mFrom x) + sizeOpt (\<lambda>v. v) (mTerm x) + sizeOpt (\<lambda>v. v) (mLogTerm x)
     + sizeOpt (\<lambda>v. v) (mIndex x)
     + sum_list (map (\<lambda>e. 1 + sizeBytes (Entry_SizeMessage e)) (mEntries x))
     + sizeOpt (\<lambda>v. v) (mCommit x) + sizeOptMsg Snapshot_SizeMessage (mSnapshot x)
     + sizeOpt encodeBool (mReject x) + sizeOpt (\<lambda>v. v) (mRejectHint x)
     + sizeOptBytes (mContext x) + sizeOpt (\<lambda>v. v) (mVote x)
     + sum_list (map (\<lambda>r. 1 + sizeBytes (Message_SizeMessage r)) rs)
     + int (length (mUnknown x))"

fun Message_MarshalAppend :: "byte list \<Rightarrow> Message \<Rightarrow> byte list" where
  "Message_MarshalAppend b (Msg x rs) =
     (let b = putOpt 0x8 (\<lambda>t. enum64 (MessageType_num t)) (mType x) b;
          b = putOpt 0x10 (\<lambda>v. v) (mTo x) b;
          b = putOpt 0x18 (\<lambda>v. v) (mFrom x) b;
          b = putOpt 0x20 (\<lambda>v. v) (mTerm x) b;
          b = putOpt 0x28 (\<lambda>v. v) (mLogTerm x) b;
          b = putOpt 0x30 (\<lambda>v. v) (mIndex x) b;
          b = fold (putMsg 0x3a Entry_SizeMessage Entry_MarshalAppend) (mEntries x) b;
          b = putOpt 0x40 (\<lambda>v. v) (mCommit x) b;
          b = putOptMsg 0x4a Snapshot_SizeMessage Snapshot_MarshalAppend (mSnapshot x) b;
          b = putOpt 0x50 encodeBool (mReject x) b;
          b = putOpt 0x58 (\<lambda>v. v) (mRejectHint x) b;
          b = putOptBytes 0x62 (mContext x) b;
          b = putOpt 0x68 (\<lambda>v. v) (mVote x) b;
          b = fold (\<lambda>r b. Message_MarshalAppend
                (appendVarint (appendVarint b 0x72) (word_of_int (Message_SizeMessage r))) r) rs b
      in b @ mUnknown x)"

section \<open>Decoding\<close>

text \<open>
  A decoder at depth 0 fails; otherwise it decodes with the remaining depth. On an error
  the partly filled message is dropped: every caller in the tree discards it or panics.
\<close>

definition unmarshalAt ::
    "(nat \<Rightarrow> 'm field_switch) \<Rightarrow> (byte list \<Rightarrow> 'm \<Rightarrow> 'm) \<Rightarrow> nat \<Rightarrow> byte list \<Rightarrow> 'm \<Rightarrow> decode_error + 'm" where
  "unmarshalAt field retain depth b x =
     (case depth of 0 \<Rightarrow> Inl errRecursionDepth | Suc d \<Rightarrow> unmarshalLoop (field d) retain b x)"

definition Entry_field :: "nat \<Rightarrow> Entry field_switch" where
  "Entry_field d num wtyp b x =
     (if num = 1 then varintField (\<lambda>v x. x\<lparr>eType := Some (EntryType_of (enum32 v))\<rparr>) wtyp b x
      else if num = 2 then varintField (\<lambda>v x. x\<lparr>eTerm := Some v\<rparr>) wtyp b x
      else if num = 3 then varintField (\<lambda>v x. x\<lparr>eIndex := Some v\<rparr>) wtyp b x
      else if num = 4 then bytesField (\<lambda>v x. Inr (x\<lparr>eData := Some v\<rparr>)) wtyp b x
      else Inl errUnknown)"

definition Entry_UnmarshalMessage :: "nat \<Rightarrow> byte list \<Rightarrow> Entry \<Rightarrow> decode_error + Entry" where
  "Entry_UnmarshalMessage =
     unmarshalAt Entry_field (\<lambda>u x. x\<lparr>eUnknown := eUnknown x @ u\<rparr>)"

definition ConfState_field :: "nat \<Rightarrow> ConfState field_switch" where
  "ConfState_field d num wtyp b x =
     (if num = 1 then repeatedField csVoters (\<lambda>s x. x\<lparr>csVoters := s\<rparr>) wtyp b x
      else if num = 2 then repeatedField csLearners (\<lambda>s x. x\<lparr>csLearners := s\<rparr>) wtyp b x
      else if num = 3 then
        repeatedField csVotersOutgoing (\<lambda>s x. x\<lparr>csVotersOutgoing := s\<rparr>) wtyp b x
      else if num = 4 then repeatedField csLearnersNext (\<lambda>s x. x\<lparr>csLearnersNext := s\<rparr>) wtyp b x
      else if num = 5 then varintField (\<lambda>v x. x\<lparr>csAutoLeave := Some (decodeBool v)\<rparr>) wtyp b x
      else Inl errUnknown)"

definition ConfState_UnmarshalMessage ::
    "nat \<Rightarrow> byte list \<Rightarrow> ConfState \<Rightarrow> decode_error + ConfState" where
  "ConfState_UnmarshalMessage =
     unmarshalAt ConfState_field (\<lambda>u x. x\<lparr>csUnknown := csUnknown x @ u\<rparr>)"

text \<open>An embedded message merges into the one present, or into a new one.\<close>

definition intoMsg :: "('c \<Rightarrow> decode_error + 'c) \<Rightarrow> 'c \<Rightarrow> 'c option \<Rightarrow> ('c \<Rightarrow> 'm) \<Rightarrow> decode_error + 'm" where
  "intoMsg dec zero cur wrap =
     (case dec (case cur of None \<Rightarrow> zero | Some c \<Rightarrow> c) of Inl e \<Rightarrow> Inl e | Inr c \<Rightarrow> Inr (wrap c))"

definition SnapshotMetadata_field :: "nat \<Rightarrow> SnapshotMetadata field_switch" where
  "SnapshotMetadata_field d num wtyp b x =
     (if num = 1 then
        bytesField (\<lambda>v x. intoMsg (ConfState_UnmarshalMessage d v) ConfState0 (smConfState x)
          (\<lambda>c. x\<lparr>smConfState := Some c\<rparr>)) wtyp b x
      else if num = 2 then varintField (\<lambda>v x. x\<lparr>smIndex := Some v\<rparr>) wtyp b x
      else if num = 3 then varintField (\<lambda>v x. x\<lparr>smTerm := Some v\<rparr>) wtyp b x
      else Inl errUnknown)"

definition SnapshotMetadata_UnmarshalMessage ::
    "nat \<Rightarrow> byte list \<Rightarrow> SnapshotMetadata \<Rightarrow> decode_error + SnapshotMetadata" where
  "SnapshotMetadata_UnmarshalMessage =
     unmarshalAt SnapshotMetadata_field (\<lambda>u x. x\<lparr>smUnknown := smUnknown x @ u\<rparr>)"

definition Snapshot_field :: "nat \<Rightarrow> Snapshot field_switch" where
  "Snapshot_field d num wtyp b x =
     (if num = 1 then bytesField (\<lambda>v x. Inr (x\<lparr>snData := Some v\<rparr>)) wtyp b x
      else if num = 2 then
        bytesField (\<lambda>v x. intoMsg (SnapshotMetadata_UnmarshalMessage d v) SnapshotMetadata0
          (snMetadata x) (\<lambda>c. x\<lparr>snMetadata := Some c\<rparr>)) wtyp b x
      else Inl errUnknown)"

definition Snapshot_UnmarshalMessage ::
    "nat \<Rightarrow> byte list \<Rightarrow> Snapshot \<Rightarrow> decode_error + Snapshot" where
  "Snapshot_UnmarshalMessage =
     unmarshalAt Snapshot_field (\<lambda>u x. x\<lparr>snUnknown := snUnknown x @ u\<rparr>)"

definition HardState_field :: "nat \<Rightarrow> HardState field_switch" where
  "HardState_field d num wtyp b x =
     (if num = 1 then varintField (\<lambda>v x. x\<lparr>hsTerm := Some v\<rparr>) wtyp b x
      else if num = 2 then varintField (\<lambda>v x. x\<lparr>hsVote := Some v\<rparr>) wtyp b x
      else if num = 3 then varintField (\<lambda>v x. x\<lparr>hsCommit := Some v\<rparr>) wtyp b x
      else Inl errUnknown)"

definition HardState_UnmarshalMessage ::
    "nat \<Rightarrow> byte list \<Rightarrow> HardState \<Rightarrow> decode_error + HardState" where
  "HardState_UnmarshalMessage =
     unmarshalAt HardState_field (\<lambda>u x. x\<lparr>hsUnknown := hsUnknown x @ u\<rparr>)"

definition ConfChange_field :: "nat \<Rightarrow> ConfChange field_switch" where
  "ConfChange_field d num wtyp b x =
     (if num = 1 then varintField (\<lambda>v x. x\<lparr>ccId := Some v\<rparr>) wtyp b x
      else if num = 2 then
        varintField (\<lambda>v x. x\<lparr>ccType := Some (ConfChangeType_of (enum32 v))\<rparr>) wtyp b x
      else if num = 3 then varintField (\<lambda>v x. x\<lparr>ccNodeId := Some v\<rparr>) wtyp b x
      else if num = 4 then bytesField (\<lambda>v x. Inr (x\<lparr>ccContext := Some v\<rparr>)) wtyp b x
      else Inl errUnknown)"

definition ConfChange_UnmarshalMessage ::
    "nat \<Rightarrow> byte list \<Rightarrow> ConfChange \<Rightarrow> decode_error + ConfChange" where
  "ConfChange_UnmarshalMessage =
     unmarshalAt ConfChange_field (\<lambda>u x. x\<lparr>ccUnknown := ccUnknown x @ u\<rparr>)"

definition ConfChangeSingle_field :: "nat \<Rightarrow> ConfChangeSingle field_switch" where
  "ConfChangeSingle_field d num wtyp b x =
     (if num = 1 then
        varintField (\<lambda>v x. x\<lparr>ccsType := Some (ConfChangeType_of (enum32 v))\<rparr>) wtyp b x
      else if num = 2 then varintField (\<lambda>v x. x\<lparr>ccsNodeId := Some v\<rparr>) wtyp b x
      else Inl errUnknown)"

definition ConfChangeSingle_UnmarshalMessage ::
    "nat \<Rightarrow> byte list \<Rightarrow> ConfChangeSingle \<Rightarrow> decode_error + ConfChangeSingle" where
  "ConfChangeSingle_UnmarshalMessage =
     unmarshalAt ConfChangeSingle_field (\<lambda>u x. x\<lparr>ccsUnknown := ccsUnknown x @ u\<rparr>)"

definition ConfChangeV2_field :: "nat \<Rightarrow> ConfChangeV2 field_switch" where
  "ConfChangeV2_field d num wtyp b x =
     (if num = 1 then
        varintField (\<lambda>v x. x\<lparr>ccv2Transition := Some (ConfChangeTransition_of (enum32 v))\<rparr>) wtyp b x
      else if num = 2 then
        bytesField (\<lambda>v x. intoMsg (ConfChangeSingle_UnmarshalMessage d v) ConfChangeSingle0 None
          (\<lambda>c. x\<lparr>ccv2Changes := ccv2Changes x @ [c]\<rparr>)) wtyp b x
      else if num = 3 then bytesField (\<lambda>v x. Inr (x\<lparr>ccv2Context := Some v\<rparr>)) wtyp b x
      else Inl errUnknown)"

definition ConfChangeV2_UnmarshalMessage ::
    "nat \<Rightarrow> byte list \<Rightarrow> ConfChangeV2 \<Rightarrow> decode_error + ConfChangeV2" where
  "ConfChangeV2_UnmarshalMessage =
     unmarshalAt ConfChangeV2_field (\<lambda>u x. x\<lparr>ccv2Unknown := ccv2Unknown x @ u\<rparr>)"

definition Message_field ::
    "(byte list \<Rightarrow> Message \<Rightarrow> decode_error + Message) \<Rightarrow> nat \<Rightarrow> Message field_switch" where
  "Message_field dec d num wtyp b x =
     (if num = 1 then
        varintField (\<lambda>v. upd_msg (\<lambda>f. f\<lparr>mType := Some (MessageType_of (enum32 v))\<rparr>)) wtyp b x
      else if num = 2 then varintField (\<lambda>v. upd_msg (\<lambda>f. f\<lparr>mTo := Some v\<rparr>)) wtyp b x
      else if num = 3 then varintField (\<lambda>v. upd_msg (\<lambda>f. f\<lparr>mFrom := Some v\<rparr>)) wtyp b x
      else if num = 4 then varintField (\<lambda>v. upd_msg (\<lambda>f. f\<lparr>mTerm := Some v\<rparr>)) wtyp b x
      else if num = 5 then varintField (\<lambda>v. upd_msg (\<lambda>f. f\<lparr>mLogTerm := Some v\<rparr>)) wtyp b x
      else if num = 6 then varintField (\<lambda>v. upd_msg (\<lambda>f. f\<lparr>mIndex := Some v\<rparr>)) wtyp b x
      else if num = 7 then
        bytesField (\<lambda>v x. intoMsg (Entry_UnmarshalMessage d v) Entry0 None
          (\<lambda>c. upd_msg (\<lambda>f. f\<lparr>mEntries := mEntries f @ [c]\<rparr>) x)) wtyp b x
      else if num = 8 then varintField (\<lambda>v. upd_msg (\<lambda>f. f\<lparr>mCommit := Some v\<rparr>)) wtyp b x
      else if num = 9 then
        bytesField (\<lambda>v x. intoMsg (Snapshot_UnmarshalMessage d v) Snapshot0 (mSnapshot (msg x))
          (\<lambda>c. upd_msg (\<lambda>f. f\<lparr>mSnapshot := Some c\<rparr>) x)) wtyp b x
      else if num = 10 then
        varintField (\<lambda>v. upd_msg (\<lambda>f. f\<lparr>mReject := Some (decodeBool v)\<rparr>)) wtyp b x
      else if num = 11 then varintField (\<lambda>v. upd_msg (\<lambda>f. f\<lparr>mRejectHint := Some v\<rparr>)) wtyp b x
      else if num = 12 then
        bytesField (\<lambda>v x. Inr (upd_msg (\<lambda>f. f\<lparr>mContext := Some v\<rparr>) x)) wtyp b x
      else if num = 13 then varintField (\<lambda>v. upd_msg (\<lambda>f. f\<lparr>mVote := Some v\<rparr>)) wtyp b x
      else if num = 14 then
        bytesField (\<lambda>v x. intoMsg (dec v) (Msg Message0 []) None
          (\<lambda>c. Msg (msg x) (mResponses x @ [c]))) wtyp b x
      else Inl errUnknown)"

primrec Message_UnmarshalMessage ::
    "nat \<Rightarrow> byte list \<Rightarrow> Message \<Rightarrow> decode_error + Message" where
  "Message_UnmarshalMessage 0 = (\<lambda>b x. Inl errRecursionDepth)"
| "Message_UnmarshalMessage (Suc d) =
     unmarshalLoop (Message_field (Message_UnmarshalMessage d) d)
       (\<lambda>u. upd_msg (\<lambda>f. f\<lparr>mUnknown := mUnknown f @ u\<rparr>))"

section \<open>The entry points (proto.go)\<close>

text \<open>
  \<^verbatim>\<open>Marshal\<close> of a valid message is its encoding, an empty one a non-nil empty slice;
  \<^verbatim>\<open>Unmarshal\<close> resets the message and decodes at depth 10000.
\<close>

definition Marshal :: "(byte list \<Rightarrow> 'm \<Rightarrow> byte list) \<Rightarrow> 'm \<Rightarrow> byte list option" where
  "Marshal enc m = Some (enc [] m)"

definition Unmarshal :: "(nat \<Rightarrow> byte list \<Rightarrow> 'm \<Rightarrow> decode_error + 'm) \<Rightarrow> 'm \<Rightarrow> byte list \<Rightarrow> decode_error + 'm" where
  "Unmarshal dec zero b = dec 10000 b zero"

text \<open>The entry type and the data of a configuration change; nil data for a nil change.\<close>

definition MarshalConfChange :: "ConfChangeI option \<Rightarrow> EntryType \<times> byte list option" where
  "MarshalConfChange c =
     (case c of
        None \<Rightarrow> (EntryConfChangeV2, None)
      | Some c \<Rightarrow>
          (case ConfChangeI_AsV1 c of
             Some v1 \<Rightarrow> (EntryConfChange, Marshal ConfChange_MarshalAppend v1)
           | None \<Rightarrow> (EntryConfChangeV2, Marshal ConfChangeV2_MarshalAppend (ConfChangeI_AsV2 c))))"

section \<open>Reading back one field\<close>

lemma unmarshalLoop_Nil [simp]: "unmarshalLoop field retain [] x = Inr x"
  by (simp add: unmarshalLoop.simps)

lemma length_appendVarint_nat [simp]: "length (appendVarint [] v) = nat (sizeVarint v)"
  using length_appendVarint [of "[]" v] by simp

lemma length_appendBytes_nat [simp]: "length (appendBytes [] v) = nat (sizeBytes (int (length v)))"
  using length_appendBytes [of "[]" v] by simp

lemma pred_option_True [simp]: "pred_option (\<lambda>v. True) x"
  by (cases x) simp_all

lemma decodeBool_encodeBool [simp]: "decodeBool (encodeBool v) = v"
  by (simp add: decodeBool_def encodeBool_def)

lemma loop_field:
  assumes "1 \<le> uint (drop_bit 3 tag)" and "uint (drop_bit 3 tag) \<le> 536870911"
    and "uint (tag AND 7) \<noteq> 4"
    and "field (uint (drop_bit 3 tag)) (uint (tag AND 7)) b x = Inr (x', n)"
  shows "unmarshalLoop field retain (appendVarint [] tag @ b) x =
    unmarshalLoop field retain (drop (nat n) b) x'"
proof -
  have "0 < sizeVarint tag" using sizeVarint_bounds(1) [of tag] by simp
  with assms show ?thesis
    by (simp add: unmarshalLoop.simps [of field retain "appendVarint [] tag @ b"]
        consumeVarintFast_append)
qed

lemma loop_opt:
  assumes "1 \<le> uint (drop_bit 3 tag)" and "uint (drop_bit 3 tag) \<le> 536870911"
    and "tag AND 7 = 0"
    and "\<And>b x. field (uint (drop_bit 3 tag)) 0 b x = varintField (\<lambda>v. upd (Some (decf v))) 0 b x"
    and "pred_option (\<lambda>v. decf (enc v) = v) o'" and "upd None x = x"
  shows "unmarshalLoop field retain (putOpt tag enc o' [] @ rest) x =
    unmarshalLoop field retain rest (upd o' x)"
proof (cases o')
  case None
  with assms(6) show ?thesis by (simp add: putOpt_def)
next
  case (Some v)
  have "0 < sizeVarint (enc v)" using sizeVarint_bounds(1) [of "enc v"] by simp
  then have "field (uint (drop_bit 3 tag)) (uint (tag AND 7)) (appendVarint [] (enc v) @ rest) x =
      Inr (upd o' x, sizeVarint (enc v))"
    using assms(3-5) Some
    by (simp add: varintField_def consumeVarintValue_def consumeVarintFast_append)
  from loop_field [where field = field and retain = retain, OF assms(1,2) _ this] assms(3) Some show ?thesis
    by (simp add: putOpt_def appendVarint_append [of "appendVarint [] tag"])
qed

text \<open>A length-prefixed field whose payload the setter accepts.\<close>

lemma loop_prefixed:
  assumes "1 \<le> uint (drop_bit 3 tag)" and "uint (drop_bit 3 tag) \<le> 536870911"
    and "tag AND 7 = 2"
    and "\<And>b x. field (uint (drop_bit 3 tag)) 2 b x = bytesField put 2 b x"
    and "put v x = Inr x'" and "length v + length rest < 2 ^ 63"
  shows "unmarshalLoop field retain (appendVarint [] tag @ appendBytes [] v @ rest) x =
    unmarshalLoop field retain rest x'"
proof -
  have "0 < sizeBytes (int (length v))"
    using sizeVarint_bounds(1) [of "word_of_int (int (length v))"] by (simp add: sizeBytes_def)
  then have "field (uint (drop_bit 3 tag)) (uint (tag AND 7)) (appendBytes [] v @ rest) x =
      Inr (x', sizeBytes (int (length v)))"
    using assms(3-6) consume_appendBytes [OF assms(6)]
    by (simp add: bytesField_def consumeBytesValue_def)
  from loop_field [where field = field and retain = retain, OF assms(1,2) _ this] assms(3) show ?thesis
    by simp
qed

lemma loop_optBytes:
  assumes "1 \<le> uint (drop_bit 3 tag)" and "uint (drop_bit 3 tag) \<le> 536870911"
    and "tag AND 7 = 2"
    and "\<And>b x. field (uint (drop_bit 3 tag)) 2 b x = bytesField (\<lambda>v x. Inr (upd (Some v) x)) 2 b x"
    and "upd None x = x" and "length (putOptBytes tag o' []) + length rest < 2 ^ 63"
  shows "unmarshalLoop field retain (putOptBytes tag o' [] @ rest) x =
    unmarshalLoop field retain rest (upd o' x)"
proof (cases o')
  case None
  with assms(5) show ?thesis by (simp add: putOptBytes_def)
next
  case (Some v)
  have len: "length v + length rest < 2 ^ 63"
    using assms(6) Some by (simp add: putOptBytes_def appendBytes_def)
  show ?thesis
    using loop_prefixed [where field = field and retain = retain, OF assms(1-4) refl len] Some
    by (simp add: putOptBytes_def appendBytes_append [of "appendVarint [] tag"])
qed

lemma putOpt_append: "NO_MATCH [] b \<Longrightarrow> putOpt tag enc o' b = b @ putOpt tag enc o' []"
  using appendVarint_append [of "appendVarint b tag"] appendVarint_append [of b]
    appendVarint_append [of "appendVarint [] tag"]
  by (simp add: putOpt_def split: option.splits)

lemma putOptBytes_append: "NO_MATCH [] b \<Longrightarrow> putOptBytes tag o' b = b @ putOptBytes tag o' []"
  using appendBytes_append [of "appendVarint b tag"] appendVarint_append [of b]
    appendBytes_append [of "appendVarint [] tag"]
  by (simp add: putOptBytes_def split: option.splits)

lemma length_putOpt:
  "tag < 128 \<Longrightarrow> int (length (putOpt tag enc o' [])) = sizeOpt enc o'"
  by (simp add: putOpt_def sizeOpt_def length_appendVarint sizeVarint_small split: option.splits)

lemma length_putOptBytes:
  "tag < 128 \<Longrightarrow> int (length (putOptBytes tag o' [])) = sizeOptBytes o'"
  by (simp add: putOptBytes_def sizeOptBytes_def length_appendVarint length_appendBytes
      sizeVarint_small split: option.splits)

lemma putRep_append:
  "putRep tag vs b = b @ concat (map (\<lambda>v. putOpt tag (\<lambda>v. v) (Some v) []) vs)"
proof (induction vs arbitrary: b)
  case (Cons v vs)
  have "putRep tag (v # vs) b = putRep tag vs (putOpt tag (\<lambda>v. v) (Some v) b)"
    by (simp add: putRep_def putOpt_def)
  also have "\<dots> = putOpt tag (\<lambda>v. v) (Some v) b @ concat (map (\<lambda>v. putOpt tag (\<lambda>v. v) (Some v) []) vs)"
    by (rule Cons)
  finally show ?case
    using putOpt_append [of b tag "\<lambda>v. v" "Some v"] by simp
qed (simp add: putRep_def)

lemma length_putRep:
  "tag < 128 \<Longrightarrow> int (length (concat (map (\<lambda>v. putOpt tag (\<lambda>v. v) (Some v) []) vs))) =
     sum_list (map (\<lambda>v. 1 + sizeVarint v) vs)"
  by (induction vs) (simp_all add: length_putOpt sizeOpt_def)

lemma loop_rep:
  assumes "1 \<le> uint (drop_bit 3 tag)" and "uint (drop_bit 3 tag) \<le> 536870911"
    and "tag AND 7 = 0"
    and "\<And>b x. field (uint (drop_bit 3 tag)) 0 b x = repeatedField sel upd 0 b x"
    and "\<And>s s' x. upd s (upd s' x) = upd s x" and "\<And>s x. sel (upd s x) = s"
    and "\<And>x. upd (sel x) x = x"
  shows "unmarshalLoop field retain
      (concat (map (\<lambda>v. putOpt tag (\<lambda>v. v) (Some v) []) vs) @ rest) x =
    unmarshalLoop field retain rest (upd (sel x @ vs) x)"
proof (induction vs arbitrary: x)
  case Nil
  show ?case by (simp add: assms(7))
next
  case (Cons v vs)
  have "unmarshalLoop field retain (putOpt tag (\<lambda>v. v) (Some v) [] @
        concat (map (\<lambda>v. putOpt tag (\<lambda>v. v) (Some v) []) vs) @ rest) x =
      unmarshalLoop field retain (concat (map (\<lambda>v. putOpt tag (\<lambda>v. v) (Some v) []) vs) @ rest)
        (case Some v of None \<Rightarrow> x | Some v \<Rightarrow> upd (sel x @ [v]) x)"
    by (rule loop_opt [where decf = "\<lambda>v. v" and
          upd = "\<lambda>o' x. case o' of None \<Rightarrow> x | Some v \<Rightarrow> upd (sel x @ [v]) x", OF assms(1-3)])
      (simp_all add: assms(4) repeatedField_def)
  with Cons [of "upd (sel x @ [v]) x"] show ?case
    by (simp add: assms(5,6))
qed

section \<open>An embedded message\<close>

text \<open>What the codec of a message does right on one value of it.\<close>

definition codec_at ::
    "('m \<Rightarrow> int) \<Rightarrow> (byte list \<Rightarrow> 'm \<Rightarrow> byte list) \<Rightarrow> (nat \<Rightarrow> byte list \<Rightarrow> 'm \<Rightarrow> decode_error + 'm) \<Rightarrow>
      'm \<Rightarrow> ('m \<Rightarrow> bool) \<Rightarrow> ('m \<Rightarrow> nat) \<Rightarrow> 'm \<Rightarrow> bool" where
  "codec_at siz enc dec zero ok need m \<longleftrightarrow>
     (\<forall>b. enc b m = b @ enc [] m) \<and> siz m = int (length (enc [] m)) \<and>
     (\<forall>d. ok m \<longrightarrow> need m \<le> d \<longrightarrow> length (enc [] m) < 2 ^ 63 \<longrightarrow> dec d (enc [] m) zero = Inr m)"

lemma codec_atD:
  assumes "codec_at siz enc dec zero ok need m"
  shows "enc b m = b @ enc [] m" and "siz m = int (length (enc [] m))"
    and "ok m \<Longrightarrow> need m \<le> d \<Longrightarrow> length (enc [] m) < 2 ^ 63 \<Longrightarrow> dec d (enc [] m) zero = Inr m"
  using assms unfolding codec_at_def by blast+

lemma putMsg_eq:
  assumes "codec_at siz enc dec zero ok need m"
  shows "putMsg tag siz enc m b = b @ appendVarint [] tag @ appendBytes [] (enc [] m)"
proof -
  have "putMsg tag siz enc m b = appendVarint (appendVarint b tag) (word_of_int (siz m)) @ enc [] m"
    unfolding putMsg_def by (rule codec_atD(1) [OF assms])
  also have "word_of_int (siz m) = len64 (enc [] m)"
    using codec_atD(2) [OF assms] by (simp add: len64_def)
  finally show ?thesis
    using appendVarint_append [of "appendVarint b tag"] appendVarint_append [of b]
    by (simp add: appendBytes_def)
qed

lemma putMsgs_append:
  assumes "\<And>m. m \<in> set ms \<Longrightarrow> codec_at siz enc dec zero ok need m"
  shows "fold (putMsg tag siz enc) ms b = b @ concat (map (\<lambda>m. putMsg tag siz enc m []) ms)"
  using assms
proof (induction ms arbitrary: b)
  case (Cons m ms)
  then have "codec_at siz enc dec zero ok need m" by simp
  with Cons show ?case
    by (simp add: putMsg_eq [of siz enc dec zero ok need])
qed simp

lemma length_putMsg:
  assumes "codec_at siz enc dec zero ok need m" and "tag < 128"
  shows "int (length (putMsg tag siz enc m [])) = 1 + sizeBytes (siz m)"
proof -
  have "siz m = int (length (enc [] m))" by (rule codec_atD(2) [OF assms(1)])
  then show ?thesis
    using length_appendVarint [of "[]" tag] length_appendBytes [of "[]" "enc [] m"]
      putMsg_eq [OF assms(1), of tag "[]"] assms(2)
    by (simp add: sizeVarint_small del: length_appendVarint_nat length_appendBytes_nat)
qed

lemma length_putMsgs:
  assumes "\<And>m. m \<in> set ms \<Longrightarrow> codec_at siz enc dec zero ok need m" and "tag < 128"
  shows "int (length (concat (map (\<lambda>m. putMsg tag siz enc m []) ms))) =
    sum_list (map (\<lambda>m. 1 + sizeBytes (siz m)) ms)"
  using assms(1)
proof (induction ms)
  case (Cons m ms)
  then show ?case using length_putMsg [OF Cons.prems [of m] assms(2)] by simp
qed simp

lemma loop_msg:
  assumes "codec_at siz enc dec zero ok need m"
    and "1 \<le> uint (drop_bit 3 tag)" and "uint (drop_bit 3 tag) \<le> 536870911"
    and "tag AND 7 = 2"
    and "\<And>b x. field (uint (drop_bit 3 tag)) 2 b x =
      bytesField (\<lambda>v x. intoMsg (dec d v) zero (cur x) (\<lambda>c. wrap c x)) 2 b x"
    and "cur x = None" and "ok m" and "need m \<le> d"
    and "length (putMsg tag siz enc m []) + length rest < 2 ^ 63"
  shows "unmarshalLoop field retain (putMsg tag siz enc m [] @ rest) x =
    unmarshalLoop field retain rest (wrap m x)"
proof -
  note eq = putMsg_eq [OF assms(1)]
  have len: "length (enc [] m) + length rest < 2 ^ 63"
    using assms(9) unfolding eq by (simp add: appendBytes_def)
  then have "intoMsg (dec d (enc [] m)) zero (cur x) (\<lambda>c. wrap c x) = Inr (wrap m x)"
    using assms(6-8) codec_atD(3) [OF assms(1), of d] by (simp add: intoMsg_def)
  from loop_prefixed [where field = field and retain = retain, OF assms(2-5) this len]
  show ?thesis by (simp add: eq)
qed

lemma loop_msgs:
  assumes "\<And>m. m \<in> set ms \<Longrightarrow> codec_at siz enc dec zero ok need m"
    and "1 \<le> uint (drop_bit 3 tag)" and "uint (drop_bit 3 tag) \<le> 536870911"
    and "tag AND 7 = 2"
    and "\<And>b x. field (uint (drop_bit 3 tag)) 2 b x =
      bytesField (\<lambda>v x. intoMsg (dec d v) zero None (\<lambda>c. upd (sel x @ [c]) x)) 2 b x"
    and "\<And>s s' x. upd s (upd s' x) = upd s x" and "\<And>s x. sel (upd s x) = s"
    and "\<And>x. upd (sel x) x = x"
    and "list_all ok ms" and "list_all (\<lambda>m. need m \<le> d) ms"
    and "length (concat (map (\<lambda>m. putMsg tag siz enc m []) ms)) + length rest < 2 ^ 63"
  shows "unmarshalLoop field retain (concat (map (\<lambda>m. putMsg tag siz enc m []) ms) @ rest) x =
    unmarshalLoop field retain rest (upd (sel x @ ms) x)"
  using assms(1,9-11)
proof (induction ms arbitrary: x)
  case Nil
  then show ?case by (simp add: assms(8))
next
  case (Cons m ms)
  have "unmarshalLoop field retain (concat (map (\<lambda>m. putMsg tag siz enc m []) (m # ms)) @ rest) x =
      unmarshalLoop field retain (concat (map (\<lambda>m. putMsg tag siz enc m []) ms) @ rest)
        (upd (sel x @ [m]) x)"
    using loop_msg [OF Cons.prems(1) assms(2-4), of m field d "\<lambda>x. None"
        "\<lambda>c x. upd (sel x @ [c]) x" x "concat (map (\<lambda>m. putMsg tag siz enc m []) ms) @ rest" retain]
      assms(5) Cons.prems(2-) by simp
  also have "\<dots> = unmarshalLoop field retain rest (upd (sel x @ m # ms) x)"
    using Cons.IH [of "upd (sel x @ [m]) x"] Cons.prems by (simp add: assms(6,7))
  finally show ?case .
qed

section \<open>The interface of a message codec\<close>

locale codec =
  fixes siz :: "'m \<Rightarrow> int" and enc :: "byte list \<Rightarrow> 'm \<Rightarrow> byte list"
    and dec :: "nat \<Rightarrow> byte list \<Rightarrow> 'm \<Rightarrow> decode_error + 'm" and zero :: 'm
    and ok :: "'m \<Rightarrow> bool" and need :: "'m \<Rightarrow> nat"
  assumes codec_at: "codec_at siz enc dec zero ok need m"
begin

lemma siz_enc: "siz m = int (length (enc [] m))"
  by (rule codec_atD(2) [OF codec_at])

lemma siz_nonneg: "0 \<le> siz m"
  by (simp add: siz_enc)

lemma round_trip:
  "ok m \<Longrightarrow> need m \<le> 10000 \<Longrightarrow> siz m < 2 ^ 63 \<Longrightarrow> Unmarshal dec zero (enc [] m) = Inr m"
  using codec_atD(3) [OF codec_at [of m]] by (simp add: Unmarshal_def siz_enc)

lemma enc_inj:
  assumes "ok m" and "ok m'" and "need m \<le> 10000" and "need m' \<le> 10000" and "siz m < 2 ^ 63"
    and "enc [] m = enc [] m'"
  shows "m = m'"
  using round_trip [of m] round_trip [of m'] assms by (simp add: siz_enc)

lemmas msg_append = putMsgs_append [OF codec_at]

lemma optMsg_append: "NO_MATCH [] b \<Longrightarrow> putOptMsg tag siz enc o' b = b @ putOptMsg tag siz enc o' []"
  by (simp add: putOptMsg_def putMsg_eq [OF codec_at] split: option.splits)

lemmas length_msgs = length_putMsgs [OF codec_at]

lemma length_optMsg: "tag < 128 \<Longrightarrow> int (length (putOptMsg tag siz enc o' [])) = sizeOptMsg siz o'"
  by (simp add: putOptMsg_def sizeOptMsg_def length_putMsg [OF codec_at] split: option.splits)

lemma loop_optMsg:
  assumes "1 \<le> uint (drop_bit 3 tag)" and "uint (drop_bit 3 tag) \<le> 536870911"
    and "tag AND 7 = 2"
    and "\<And>b x. field (uint (drop_bit 3 tag)) 2 b x =
      bytesField (\<lambda>v x. intoMsg (dec d v) zero (cur x) (\<lambda>c. upd (Some c) x)) 2 b x"
    and "cur x = None" and "pred_option ok o'" and "pred_option (\<lambda>m. need m \<le> d) o'"
    and "upd None x = x" and "length (putOptMsg tag siz enc o' []) + length rest < 2 ^ 63"
  shows "unmarshalLoop field retain (putOptMsg tag siz enc o' [] @ rest) x =
    unmarshalLoop field retain rest (upd o' x)"
proof (cases o')
  case None
  with assms(8) show ?thesis by (simp add: putOptMsg_def)
next
  case (Some m)
  with loop_msg [OF codec_at, of tag field d cur "\<lambda>c. upd (Some c)" x m rest retain] assms
  show ?thesis by (simp add: putOptMsg_def)
qed

end

section \<open>The messages without recursion\<close>

definition Entry_ok :: "Entry \<Rightarrow> bool" where
  "Entry_ok x \<longleftrightarrow> pred_option EntryType_ok (eType x) \<and> eUnknown x = []"

lemma Entry_enc:
  "Entry_MarshalAppend b x = b @ putOpt 0x8 (\<lambda>t. enum64 (EntryType_num t)) (eType x) [] @
     putOpt 0x10 (\<lambda>v. v) (eTerm x) [] @
     putOpt 0x18 (\<lambda>v. v) (eIndex x) [] @
     putOptBytes 0x22 (eData x) [] @ eUnknown x"
  by (simp add: Entry_MarshalAppend_def Let_def putOptBytes_append putOpt_append)

lemma Entry_dec_enc:
  assumes "Entry_ok m" and "length (Entry_MarshalAppend [] m) < 2 ^ 63"
  shows "unmarshalLoop (Entry_field k) (\<lambda>u x. x\<lparr>eUnknown := eUnknown x @ u\<rparr>)
      (Entry_MarshalAppend [] m) Entry0 = Inr m"
  using assms unfolding Entry_enc append_Nil
  by (cases m)
    (simp add: list.pred_True Entry_field_def Entry0_def Entry_ok_def EntryType_ok_def [abs_def]
        loop_opt [where tag = "0x8" and field = "Entry_field k" and
          upd = "\<lambda>v. eType_update (\<lambda>_. v)" and decf = "\<lambda>v. EntryType_of (enum32 v)"]
        loop_opt [where tag = "0x10" and field = "Entry_field k" and
          upd = "\<lambda>v. eTerm_update (\<lambda>_. v)" and decf = "\<lambda>v. v"]
        loop_opt [where tag = "0x18" and field = "Entry_field k" and
          upd = "\<lambda>v. eIndex_update (\<lambda>_. v)" and decf = "\<lambda>v. v"]
        loop_optBytes [where tag = "0x22" and field = "Entry_field k" and
          upd = "\<lambda>v. eData_update (\<lambda>_. v)" and rest = "[]", simplified])

interpretation entry: codec Entry_SizeMessage Entry_MarshalAppend Entry_UnmarshalMessage Entry0
  Entry_ok "\<lambda>m. 1"
proof (unfold_locales, unfold codec_at_def, intro conjI allI impI)
  fix m b
  show "Entry_MarshalAppend b m = b @ Entry_MarshalAppend [] m"
    by (simp add: Entry_enc)
  show "Entry_SizeMessage m = int (length (Entry_MarshalAppend [] m))"
    by (simp add: Entry_enc Entry_SizeMessage_def length_putOpt length_putOptBytes)
  show "Entry_UnmarshalMessage d (Entry_MarshalAppend [] m) Entry0 = Inr m"
    if "Entry_ok m" and "1 \<le> d" and "length (Entry_MarshalAppend [] m) < 2 ^ 63" for d :: nat
    using that Entry_dec_enc [of m "d - 1"]
    by (cases d) (simp_all add: Entry_UnmarshalMessage_def unmarshalAt_def)
qed

definition ConfState_ok :: "ConfState \<Rightarrow> bool" where
  "ConfState_ok x \<longleftrightarrow> csUnknown x = []"

lemma ConfState_enc:
  "ConfState_MarshalAppend b x = b @ concat (map (\<lambda>v. putOpt 0x8 (\<lambda>v. v) (Some v) []) (csVoters x)) @
     concat (map (\<lambda>v. putOpt 0x10 (\<lambda>v. v) (Some v) []) (csLearners x)) @
     concat (map (\<lambda>v. putOpt 0x18 (\<lambda>v. v) (Some v) []) (csVotersOutgoing x)) @
     concat (map (\<lambda>v. putOpt 0x20 (\<lambda>v. v) (Some v) []) (csLearnersNext x)) @
     putOpt 0x28 encodeBool (csAutoLeave x) [] @ csUnknown x"
  by (simp add: ConfState_MarshalAppend_def Let_def putOpt_append putRep_append)

lemma ConfState_dec_enc:
  assumes "ConfState_ok m" and "length (ConfState_MarshalAppend [] m) < 2 ^ 63"
  shows "unmarshalLoop (ConfState_field k) (\<lambda>u x. x\<lparr>csUnknown := csUnknown x @ u\<rparr>)
      (ConfState_MarshalAppend [] m) ConfState0 = Inr m"
  using assms unfolding ConfState_enc append_Nil
  by (cases m)
    (simp add: list.pred_True ConfState_field_def ConfState0_def ConfState_ok_def 
        loop_rep [where tag = "0x8" and field = "ConfState_field k" and
          sel = csVoters and upd = "\<lambda>v. csVoters_update (\<lambda>_. v)"]
        loop_rep [where tag = "0x10" and field = "ConfState_field k" and
          sel = csLearners and upd = "\<lambda>v. csLearners_update (\<lambda>_. v)"]
        loop_rep [where tag = "0x18" and field = "ConfState_field k" and
          sel = csVotersOutgoing and upd = "\<lambda>v. csVotersOutgoing_update (\<lambda>_. v)"]
        loop_rep [where tag = "0x20" and field = "ConfState_field k" and
          sel = csLearnersNext and upd = "\<lambda>v. csLearnersNext_update (\<lambda>_. v)"]
        loop_opt [where tag = "0x28" and field = "ConfState_field k" and
          upd = "\<lambda>v. csAutoLeave_update (\<lambda>_. v)" and decf = "decodeBool" and rest = "[]", simplified])

interpretation confState: codec ConfState_SizeMessage ConfState_MarshalAppend ConfState_UnmarshalMessage ConfState0
  ConfState_ok "\<lambda>m. 1"
proof (unfold_locales, unfold codec_at_def, intro conjI allI impI)
  fix m b
  show "ConfState_MarshalAppend b m = b @ ConfState_MarshalAppend [] m"
    by (simp add: ConfState_enc)
  show "ConfState_SizeMessage m = int (length (ConfState_MarshalAppend [] m))"
    by (simp add: ConfState_enc ConfState_SizeMessage_def length_putOpt length_putRep)
  show "ConfState_UnmarshalMessage d (ConfState_MarshalAppend [] m) ConfState0 = Inr m"
    if "ConfState_ok m" and "1 \<le> d" and "length (ConfState_MarshalAppend [] m) < 2 ^ 63" for d :: nat
    using that ConfState_dec_enc [of m "d - 1"]
    by (cases d) (simp_all add: ConfState_UnmarshalMessage_def unmarshalAt_def)
qed

definition SnapshotMetadata_ok :: "SnapshotMetadata \<Rightarrow> bool" where
  "SnapshotMetadata_ok x \<longleftrightarrow> pred_option ConfState_ok (smConfState x) \<and> smUnknown x = []"

lemma SnapshotMetadata_enc:
  "SnapshotMetadata_MarshalAppend b x = b @ putOptMsg 0xa ConfState_SizeMessage ConfState_MarshalAppend (smConfState x) [] @
     putOpt 0x10 (\<lambda>v. v) (smIndex x) [] @
     putOpt 0x18 (\<lambda>v. v) (smTerm x) [] @ smUnknown x"
  by (simp add: SnapshotMetadata_MarshalAppend_def Let_def confState.optMsg_append putOpt_append)

lemma SnapshotMetadata_dec_enc:
  assumes "SnapshotMetadata_ok m" and "length (SnapshotMetadata_MarshalAppend [] m) < 2 ^ 63" and "1 \<le> k"
  shows "unmarshalLoop (SnapshotMetadata_field k) (\<lambda>u x. x\<lparr>smUnknown := smUnknown x @ u\<rparr>)
      (SnapshotMetadata_MarshalAppend [] m) SnapshotMetadata0 = Inr m"
  using assms unfolding SnapshotMetadata_enc append_Nil
  by (cases m)
    (simp add: list.pred_True SnapshotMetadata_field_def SnapshotMetadata0_def SnapshotMetadata_ok_def 
        confState.loop_optMsg [where tag = "0xa" and field = "SnapshotMetadata_field k" and d = k and
          cur = smConfState and upd = "\<lambda>v. smConfState_update (\<lambda>_. v)"]
        loop_opt [where tag = "0x10" and field = "SnapshotMetadata_field k" and
          upd = "\<lambda>v. smIndex_update (\<lambda>_. v)" and decf = "\<lambda>v. v"]
        loop_opt [where tag = "0x18" and field = "SnapshotMetadata_field k" and
          upd = "\<lambda>v. smTerm_update (\<lambda>_. v)" and decf = "\<lambda>v. v" and rest = "[]", simplified])

interpretation snapMeta: codec SnapshotMetadata_SizeMessage SnapshotMetadata_MarshalAppend SnapshotMetadata_UnmarshalMessage SnapshotMetadata0
  SnapshotMetadata_ok "\<lambda>m. 2"
proof (unfold_locales, unfold codec_at_def, intro conjI allI impI)
  fix m b
  show "SnapshotMetadata_MarshalAppend b m = b @ SnapshotMetadata_MarshalAppend [] m"
    by (simp add: SnapshotMetadata_enc)
  show "SnapshotMetadata_SizeMessage m = int (length (SnapshotMetadata_MarshalAppend [] m))"
    by (simp add: SnapshotMetadata_enc SnapshotMetadata_SizeMessage_def confState.length_optMsg length_putOpt)
  show "SnapshotMetadata_UnmarshalMessage d (SnapshotMetadata_MarshalAppend [] m) SnapshotMetadata0 = Inr m"
    if "SnapshotMetadata_ok m" and "2 \<le> d" and "length (SnapshotMetadata_MarshalAppend [] m) < 2 ^ 63" for d :: nat
    using that SnapshotMetadata_dec_enc [of m "d - 1"]
    by (cases d) (simp_all add: SnapshotMetadata_UnmarshalMessage_def unmarshalAt_def)
qed

definition Snapshot_ok :: "Snapshot \<Rightarrow> bool" where
  "Snapshot_ok x \<longleftrightarrow> pred_option SnapshotMetadata_ok (snMetadata x) \<and> snUnknown x = []"

lemma Snapshot_enc:
  "Snapshot_MarshalAppend b x = b @ putOptBytes 0xa (snData x) [] @
     putOptMsg 0x12 SnapshotMetadata_SizeMessage SnapshotMetadata_MarshalAppend (snMetadata x) [] @ snUnknown x"
  by (simp add: Snapshot_MarshalAppend_def Let_def putOptBytes_append snapMeta.optMsg_append)

lemma Snapshot_dec_enc:
  assumes "Snapshot_ok m" and "length (Snapshot_MarshalAppend [] m) < 2 ^ 63" and "2 \<le> k"
  shows "unmarshalLoop (Snapshot_field k) (\<lambda>u x. x\<lparr>snUnknown := snUnknown x @ u\<rparr>)
      (Snapshot_MarshalAppend [] m) Snapshot0 = Inr m"
  using assms unfolding Snapshot_enc append_Nil
  by (cases m)
    (simp add: list.pred_True Snapshot_field_def Snapshot0_def Snapshot_ok_def 
        loop_optBytes [where tag = "0xa" and field = "Snapshot_field k" and
          upd = "\<lambda>v. snData_update (\<lambda>_. v)"]
        snapMeta.loop_optMsg [where tag = "0x12" and field = "Snapshot_field k" and d = k and
          cur = snMetadata and upd = "\<lambda>v. snMetadata_update (\<lambda>_. v)" and rest = "[]", simplified])

interpretation snapshot: codec Snapshot_SizeMessage Snapshot_MarshalAppend Snapshot_UnmarshalMessage Snapshot0
  Snapshot_ok "\<lambda>m. 3"
proof (unfold_locales, unfold codec_at_def, intro conjI allI impI)
  fix m b
  show "Snapshot_MarshalAppend b m = b @ Snapshot_MarshalAppend [] m"
    by (simp add: Snapshot_enc)
  show "Snapshot_SizeMessage m = int (length (Snapshot_MarshalAppend [] m))"
    by (simp add: Snapshot_enc Snapshot_SizeMessage_def length_putOptBytes snapMeta.length_optMsg)
  show "Snapshot_UnmarshalMessage d (Snapshot_MarshalAppend [] m) Snapshot0 = Inr m"
    if "Snapshot_ok m" and "3 \<le> d" and "length (Snapshot_MarshalAppend [] m) < 2 ^ 63" for d :: nat
    using that Snapshot_dec_enc [of m "d - 1"]
    by (cases d) (simp_all add: Snapshot_UnmarshalMessage_def unmarshalAt_def)
qed

definition HardState_ok :: "HardState \<Rightarrow> bool" where
  "HardState_ok x \<longleftrightarrow> hsUnknown x = []"

lemma HardState_enc:
  "HardState_MarshalAppend b x = b @ putOpt 0x8 (\<lambda>v. v) (hsTerm x) [] @
     putOpt 0x10 (\<lambda>v. v) (hsVote x) [] @
     putOpt 0x18 (\<lambda>v. v) (hsCommit x) [] @ hsUnknown x"
  by (simp add: HardState_MarshalAppend_def Let_def putOpt_append)

lemma HardState_dec_enc:
  assumes "HardState_ok m" and "length (HardState_MarshalAppend [] m) < 2 ^ 63"
  shows "unmarshalLoop (HardState_field k) (\<lambda>u x. x\<lparr>hsUnknown := hsUnknown x @ u\<rparr>)
      (HardState_MarshalAppend [] m) HardState0 = Inr m"
  using assms unfolding HardState_enc append_Nil
  by (cases m)
    (simp add: list.pred_True HardState_field_def HardState0_def HardState_ok_def 
        loop_opt [where tag = "0x8" and field = "HardState_field k" and
          upd = "\<lambda>v. hsTerm_update (\<lambda>_. v)" and decf = "\<lambda>v. v"]
        loop_opt [where tag = "0x10" and field = "HardState_field k" and
          upd = "\<lambda>v. hsVote_update (\<lambda>_. v)" and decf = "\<lambda>v. v"]
        loop_opt [where tag = "0x18" and field = "HardState_field k" and
          upd = "\<lambda>v. hsCommit_update (\<lambda>_. v)" and decf = "\<lambda>v. v" and rest = "[]", simplified])

interpretation hardState: codec HardState_SizeMessage HardState_MarshalAppend HardState_UnmarshalMessage HardState0
  HardState_ok "\<lambda>m. 1"
proof (unfold_locales, unfold codec_at_def, intro conjI allI impI)
  fix m b
  show "HardState_MarshalAppend b m = b @ HardState_MarshalAppend [] m"
    by (simp add: HardState_enc)
  show "HardState_SizeMessage m = int (length (HardState_MarshalAppend [] m))"
    by (simp add: HardState_enc HardState_SizeMessage_def length_putOpt)
  show "HardState_UnmarshalMessage d (HardState_MarshalAppend [] m) HardState0 = Inr m"
    if "HardState_ok m" and "1 \<le> d" and "length (HardState_MarshalAppend [] m) < 2 ^ 63" for d :: nat
    using that HardState_dec_enc [of m "d - 1"]
    by (cases d) (simp_all add: HardState_UnmarshalMessage_def unmarshalAt_def)
qed

definition ConfChange_ok :: "ConfChange \<Rightarrow> bool" where
  "ConfChange_ok x \<longleftrightarrow> pred_option ConfChangeType_ok (ccType x) \<and> ccUnknown x = []"

lemma ConfChange_enc:
  "ConfChange_MarshalAppend b x = b @ putOpt 0x8 (\<lambda>v. v) (ccId x) [] @
     putOpt 0x10 (\<lambda>t. enum64 (ConfChangeType_num t)) (ccType x) [] @
     putOpt 0x18 (\<lambda>v. v) (ccNodeId x) [] @
     putOptBytes 0x22 (ccContext x) [] @ ccUnknown x"
  by (simp add: ConfChange_MarshalAppend_def Let_def putOptBytes_append putOpt_append)

lemma ConfChange_dec_enc:
  assumes "ConfChange_ok m" and "length (ConfChange_MarshalAppend [] m) < 2 ^ 63"
  shows "unmarshalLoop (ConfChange_field k) (\<lambda>u x. x\<lparr>ccUnknown := ccUnknown x @ u\<rparr>)
      (ConfChange_MarshalAppend [] m) ConfChange0 = Inr m"
  using assms unfolding ConfChange_enc append_Nil
  by (cases m)
    (simp add: list.pred_True ConfChange_field_def ConfChange0_def ConfChange_ok_def ConfChangeType_ok_def [abs_def]
        loop_opt [where tag = "0x8" and field = "ConfChange_field k" and
          upd = "\<lambda>v. ccId_update (\<lambda>_. v)" and decf = "\<lambda>v. v"]
        loop_opt [where tag = "0x10" and field = "ConfChange_field k" and
          upd = "\<lambda>v. ccType_update (\<lambda>_. v)" and decf = "\<lambda>v. ConfChangeType_of (enum32 v)"]
        loop_opt [where tag = "0x18" and field = "ConfChange_field k" and
          upd = "\<lambda>v. ccNodeId_update (\<lambda>_. v)" and decf = "\<lambda>v. v"]
        loop_optBytes [where tag = "0x22" and field = "ConfChange_field k" and
          upd = "\<lambda>v. ccContext_update (\<lambda>_. v)" and rest = "[]", simplified])

interpretation confChange: codec ConfChange_SizeMessage ConfChange_MarshalAppend ConfChange_UnmarshalMessage ConfChange0
  ConfChange_ok "\<lambda>m. 1"
proof (unfold_locales, unfold codec_at_def, intro conjI allI impI)
  fix m b
  show "ConfChange_MarshalAppend b m = b @ ConfChange_MarshalAppend [] m"
    by (simp add: ConfChange_enc)
  show "ConfChange_SizeMessage m = int (length (ConfChange_MarshalAppend [] m))"
    by (simp add: ConfChange_enc ConfChange_SizeMessage_def length_putOpt length_putOptBytes)
  show "ConfChange_UnmarshalMessage d (ConfChange_MarshalAppend [] m) ConfChange0 = Inr m"
    if "ConfChange_ok m" and "1 \<le> d" and "length (ConfChange_MarshalAppend [] m) < 2 ^ 63" for d :: nat
    using that ConfChange_dec_enc [of m "d - 1"]
    by (cases d) (simp_all add: ConfChange_UnmarshalMessage_def unmarshalAt_def)
qed

definition ConfChangeSingle_ok :: "ConfChangeSingle \<Rightarrow> bool" where
  "ConfChangeSingle_ok x \<longleftrightarrow> pred_option ConfChangeType_ok (ccsType x) \<and> ccsUnknown x = []"

lemma ConfChangeSingle_enc:
  "ConfChangeSingle_MarshalAppend b x = b @ putOpt 0x8 (\<lambda>t. enum64 (ConfChangeType_num t)) (ccsType x) [] @
     putOpt 0x10 (\<lambda>v. v) (ccsNodeId x) [] @ ccsUnknown x"
  by (simp add: ConfChangeSingle_MarshalAppend_def Let_def putOpt_append)

lemma ConfChangeSingle_dec_enc:
  assumes "ConfChangeSingle_ok m" and "length (ConfChangeSingle_MarshalAppend [] m) < 2 ^ 63"
  shows "unmarshalLoop (ConfChangeSingle_field k) (\<lambda>u x. x\<lparr>ccsUnknown := ccsUnknown x @ u\<rparr>)
      (ConfChangeSingle_MarshalAppend [] m) ConfChangeSingle0 = Inr m"
  using assms unfolding ConfChangeSingle_enc append_Nil
  by (cases m)
    (simp add: list.pred_True ConfChangeSingle_field_def ConfChangeSingle0_def ConfChangeSingle_ok_def ConfChangeType_ok_def [abs_def]
        loop_opt [where tag = "0x8" and field = "ConfChangeSingle_field k" and
          upd = "\<lambda>v. ccsType_update (\<lambda>_. v)" and decf = "\<lambda>v. ConfChangeType_of (enum32 v)"]
        loop_opt [where tag = "0x10" and field = "ConfChangeSingle_field k" and
          upd = "\<lambda>v. ccsNodeId_update (\<lambda>_. v)" and decf = "\<lambda>v. v" and rest = "[]", simplified])

interpretation confChangeSingle: codec ConfChangeSingle_SizeMessage ConfChangeSingle_MarshalAppend ConfChangeSingle_UnmarshalMessage ConfChangeSingle0
  ConfChangeSingle_ok "\<lambda>m. 1"
proof (unfold_locales, unfold codec_at_def, intro conjI allI impI)
  fix m b
  show "ConfChangeSingle_MarshalAppend b m = b @ ConfChangeSingle_MarshalAppend [] m"
    by (simp add: ConfChangeSingle_enc)
  show "ConfChangeSingle_SizeMessage m = int (length (ConfChangeSingle_MarshalAppend [] m))"
    by (simp add: ConfChangeSingle_enc ConfChangeSingle_SizeMessage_def length_putOpt)
  show "ConfChangeSingle_UnmarshalMessage d (ConfChangeSingle_MarshalAppend [] m) ConfChangeSingle0 = Inr m"
    if "ConfChangeSingle_ok m" and "1 \<le> d" and "length (ConfChangeSingle_MarshalAppend [] m) < 2 ^ 63" for d :: nat
    using that ConfChangeSingle_dec_enc [of m "d - 1"]
    by (cases d) (simp_all add: ConfChangeSingle_UnmarshalMessage_def unmarshalAt_def)
qed

definition ConfChangeV2_ok :: "ConfChangeV2 \<Rightarrow> bool" where
  "ConfChangeV2_ok x \<longleftrightarrow> pred_option ConfChangeTransition_ok (ccv2Transition x) \<and> list_all ConfChangeSingle_ok (ccv2Changes x) \<and> ccv2Unknown x = []"

lemma ConfChangeV2_enc:
  "ConfChangeV2_MarshalAppend b x = b @ putOpt 0x8 (\<lambda>t. enum64 (ConfChangeTransition_num t)) (ccv2Transition x) [] @
     concat (map (\<lambda>m. putMsg 0x12 ConfChangeSingle_SizeMessage ConfChangeSingle_MarshalAppend m []) (ccv2Changes x)) @
     putOptBytes 0x1a (ccv2Context x) [] @ ccv2Unknown x"
  by (simp add: ConfChangeV2_MarshalAppend_def Let_def confChangeSingle.msg_append putOptBytes_append putOpt_append)

lemma ConfChangeV2_dec_enc:
  assumes "ConfChangeV2_ok m" and "length (ConfChangeV2_MarshalAppend [] m) < 2 ^ 63" and "1 \<le> k"
  shows "unmarshalLoop (ConfChangeV2_field k) (\<lambda>u x. x\<lparr>ccv2Unknown := ccv2Unknown x @ u\<rparr>)
      (ConfChangeV2_MarshalAppend [] m) ConfChangeV20 = Inr m"
  using assms unfolding ConfChangeV2_enc append_Nil
  by (cases m)
    (simp add: list.pred_True ConfChangeV2_field_def ConfChangeV20_def ConfChangeV2_ok_def ConfChangeTransition_ok_def [abs_def]
        loop_opt [where tag = "0x8" and field = "ConfChangeV2_field k" and
          upd = "\<lambda>v. ccv2Transition_update (\<lambda>_. v)" and decf = "\<lambda>v. ConfChangeTransition_of (enum32 v)"]
        loop_msgs [OF confChangeSingle.codec_at, where tag = "0x12" and field = "ConfChangeV2_field k" and d = k and
          sel = ccv2Changes and upd = "\<lambda>v. ccv2Changes_update (\<lambda>_. v)"]
        loop_optBytes [where tag = "0x1a" and field = "ConfChangeV2_field k" and
          upd = "\<lambda>v. ccv2Context_update (\<lambda>_. v)" and rest = "[]", simplified])

interpretation confChangeV2: codec ConfChangeV2_SizeMessage ConfChangeV2_MarshalAppend ConfChangeV2_UnmarshalMessage ConfChangeV20
  ConfChangeV2_ok "\<lambda>m. 2"
proof (unfold_locales, unfold codec_at_def, intro conjI allI impI)
  fix m b
  show "ConfChangeV2_MarshalAppend b m = b @ ConfChangeV2_MarshalAppend [] m"
    by (simp add: ConfChangeV2_enc)
  show "ConfChangeV2_SizeMessage m = int (length (ConfChangeV2_MarshalAppend [] m))"
    by (simp add: ConfChangeV2_enc ConfChangeV2_SizeMessage_def confChangeSingle.length_msgs length_putOpt length_putOptBytes)
  show "ConfChangeV2_UnmarshalMessage d (ConfChangeV2_MarshalAppend [] m) ConfChangeV20 = Inr m"
    if "ConfChangeV2_ok m" and "2 \<le> d" and "length (ConfChangeV2_MarshalAppend [] m) < 2 ^ 63" for d :: nat
    using that ConfChangeV2_dec_enc [of m "d - 1"]
    by (cases d) (simp_all add: ConfChangeV2_UnmarshalMessage_def unmarshalAt_def)
qed

section \<open>The message\<close>

text \<open>\<open>Message_need\<close> is the depth of nesting: a message holds a snapshot at depth 3 and its
  responses.\<close>

fun Message_ok :: "Message \<Rightarrow> bool" where
  "Message_ok (Msg x rs) \<longleftrightarrow> pred_option MessageType_ok (mType x) \<and> list_all Entry_ok (mEntries x) \<and>
     pred_option Snapshot_ok (mSnapshot x) \<and> mUnknown x = [] \<and> list_all Message_ok rs"

fun Message_need :: "Message \<Rightarrow> nat" where
  "Message_need (Msg x rs) = Suc (fold max (map Message_need rs) 3)"

lemma fold_max_le: "fold max ns m \<le> k \<longleftrightarrow> m \<le> k \<and> list_all (\<lambda>n. n \<le> k) ns" for k :: nat
  by (induction ns arbitrary: m) auto

abbreviation putResponses :: "Message list \<Rightarrow> byte list" where
  "putResponses rs \<equiv> concat (map (\<lambda>r. putMsg 0x72 Message_SizeMessage Message_MarshalAppend r []) rs)"

definition Message_pieces :: "MsgFields \<Rightarrow> byte list" where
  "Message_pieces x = putOpt 0x8 (\<lambda>t. enum64 (MessageType_num t)) (mType x) [] @
     putOpt 0x10 (\<lambda>v. v) (mTo x) [] @ putOpt 0x18 (\<lambda>v. v) (mFrom x) [] @
     putOpt 0x20 (\<lambda>v. v) (mTerm x) [] @ putOpt 0x28 (\<lambda>v. v) (mLogTerm x) [] @
     putOpt 0x30 (\<lambda>v. v) (mIndex x) [] @
     concat (map (\<lambda>m. putMsg 0x3a Entry_SizeMessage Entry_MarshalAppend m []) (mEntries x)) @
     putOpt 0x40 (\<lambda>v. v) (mCommit x) [] @
     putOptMsg 0x4a Snapshot_SizeMessage Snapshot_MarshalAppend (mSnapshot x) [] @
     putOpt 0x50 encodeBool (mReject x) [] @ putOpt 0x58 (\<lambda>v. v) (mRejectHint x) [] @
     putOptBytes 0x62 (mContext x) [] @ putOpt 0x68 (\<lambda>v. v) (mVote x) []"

abbreviation Message_codec_at :: "Message \<Rightarrow> bool" where
  "Message_codec_at \<equiv> codec_at Message_SizeMessage Message_MarshalAppend
     Message_UnmarshalMessage (Msg Message0 []) Message_ok Message_need"

lemma Message_enc:
  assumes "\<And>r. r \<in> set rs \<Longrightarrow> Message_codec_at r"
  shows "Message_MarshalAppend b (Msg x rs) = b @ Message_pieces x @ putResponses rs @ mUnknown x"
proof -
  have "(\<lambda>r b. Message_MarshalAppend (appendVarint (appendVarint b 0x72)
      (word_of_int (Message_SizeMessage r))) r) = putMsg 0x72 Message_SizeMessage Message_MarshalAppend"
    by (simp add: putMsg_def fun_eq_iff)
  then show ?thesis
    using putMsgs_append [OF assms]
    by (simp add: Let_def putOpt_append putOptBytes_append entry.msg_append snapshot.optMsg_append
        Message_pieces_def)
qed

lemma Message_pieces_dec:
  assumes "Message_ok (Msg x rs)" and "length (Message_pieces x) + length rest < 2 ^ 63" and "3 \<le> k"
  shows "unmarshalLoop (Message_field (Message_UnmarshalMessage k) k) retain
      (Message_pieces x @ rest) (Msg Message0 []) =
    unmarshalLoop (Message_field (Message_UnmarshalMessage k) k) retain rest (Msg x [])"
  using assms unfolding Message_pieces_def append_assoc
  by (cases x)
    (simp add: list.pred_True Message_field_def Message0_def MessageType_ok_def [abs_def] upd_msg_def
        loop_opt [where tag = "0x8" and field = "Message_field (Message_UnmarshalMessage k) k" and
          upd = "\<lambda>v. upd_msg (mType_update (\<lambda>_. v))" and decf = "\<lambda>v. MessageType_of (enum32 v)"]
        loop_opt [where tag = "0x10" and field = "Message_field (Message_UnmarshalMessage k) k" and
          upd = "\<lambda>v. upd_msg (mTo_update (\<lambda>_. v))" and decf = "\<lambda>v. v"]
        loop_opt [where tag = "0x18" and field = "Message_field (Message_UnmarshalMessage k) k" and
          upd = "\<lambda>v. upd_msg (mFrom_update (\<lambda>_. v))" and decf = "\<lambda>v. v"]
        loop_opt [where tag = "0x20" and field = "Message_field (Message_UnmarshalMessage k) k" and
          upd = "\<lambda>v. upd_msg (mTerm_update (\<lambda>_. v))" and decf = "\<lambda>v. v"]
        loop_opt [where tag = "0x28" and field = "Message_field (Message_UnmarshalMessage k) k" and
          upd = "\<lambda>v. upd_msg (mLogTerm_update (\<lambda>_. v))" and decf = "\<lambda>v. v"]
        loop_opt [where tag = "0x30" and field = "Message_field (Message_UnmarshalMessage k) k" and
          upd = "\<lambda>v. upd_msg (mIndex_update (\<lambda>_. v))" and decf = "\<lambda>v. v"]
        loop_msgs [OF entry.codec_at, where tag = "0x3a" and d = k and
          field = "Message_field (Message_UnmarshalMessage k) k" and
          sel = "\<lambda>x. mEntries (msg x)" and upd = "\<lambda>v. upd_msg (mEntries_update (\<lambda>_. v))"]
        loop_opt [where tag = "0x40" and field = "Message_field (Message_UnmarshalMessage k) k" and
          upd = "\<lambda>v. upd_msg (mCommit_update (\<lambda>_. v))" and decf = "\<lambda>v. v"]
        snapshot.loop_optMsg [where tag = "0x4a" and d = k and
          field = "Message_field (Message_UnmarshalMessage k) k" and
          cur = "\<lambda>x. mSnapshot (msg x)" and upd = "\<lambda>v. upd_msg (mSnapshot_update (\<lambda>_. v))"]
        loop_opt [where tag = "0x50" and field = "Message_field (Message_UnmarshalMessage k) k" and
          upd = "\<lambda>v. upd_msg (mReject_update (\<lambda>_. v))" and decf = "decodeBool"]
        loop_opt [where tag = "0x58" and field = "Message_field (Message_UnmarshalMessage k) k" and
          upd = "\<lambda>v. upd_msg (mRejectHint_update (\<lambda>_. v))" and decf = "\<lambda>v. v"]
        loop_optBytes [where tag = "0x62" and
          field = "Message_field (Message_UnmarshalMessage k) k" and
          upd = "\<lambda>v. upd_msg (mContext_update (\<lambda>_. v))"]
        loop_opt [where tag = "0x68" and field = "Message_field (Message_UnmarshalMessage k) k" and
          upd = "\<lambda>v. upd_msg (mVote_update (\<lambda>_. v))" and decf = "\<lambda>v. v"])

lemma Message_responses_dec:
  assumes "\<And>r. r \<in> set rs \<Longrightarrow> Message_codec_at r" and "list_all Message_ok rs"
    and "list_all (\<lambda>m. Message_need m \<le> k) rs" and "length (putResponses rs) < 2 ^ 63"
  shows "unmarshalLoop (Message_field (Message_UnmarshalMessage k) k) retain
      (putResponses rs) (Msg x []) = Inr (Msg x rs)"
  using loop_msgs [OF assms(1), of rs "0x72" "Message_field (Message_UnmarshalMessage k) k" k
      "\<lambda>v x. Msg (msg x) v" mResponses "[]" retain "Msg x []"] assms(2-4)
  by (simp add: Message_field_def)

lemma Message_codec_at: "Message_codec_at m"
proof (induction m)
  case (Msg x rs)
  note IH = this
  have enc: "Message_MarshalAppend b (Msg x rs) = b @ Message_pieces x @ putResponses rs @ mUnknown x"
    for b by (rule Message_enc) (rule IH)
  have resp: "int (length (putResponses rs)) =
      sum_list (map (\<lambda>m. 1 + sizeBytes (Message_SizeMessage m)) rs)"
    by (rule length_putMsgs) (rule IH, simp_all)
  show ?case
    unfolding codec_at_def
  proof (intro conjI allI impI)
    fix b
    show "Message_MarshalAppend b (Msg x rs) = b @ Message_MarshalAppend [] (Msg x rs)"
      unfolding enc by simp
    show "Message_SizeMessage (Msg x rs) = int (length (Message_MarshalAppend [] (Msg x rs)))"
      unfolding enc
      by (simp add: Message_pieces_def length_putOpt length_putOptBytes entry.length_msgs
          snapshot.length_optMsg resp)
    fix d
    assume ok: "Message_ok (Msg x rs)" and need: "Message_need (Msg x rs) \<le> d"
      and len: "length (Message_MarshalAppend [] (Msg x rs)) < 2 ^ 63"
    from need obtain k where d: "d = Suc k" by (cases d) auto
    from need d have k: "3 \<le> k" "list_all (\<lambda>m. Message_need m \<le> k) rs"
      by (simp_all add: fold_max_le list.pred_map comp_def)
    from len have len': "length (Message_pieces x) + length (putResponses rs) < 2 ^ 63"
      unfolding enc by simp
    from ok have "mUnknown x = []" and oks: "list_all Message_ok rs" by simp_all
    then show "Message_UnmarshalMessage d (Message_MarshalAppend [] (Msg x rs)) (Msg Message0 []) =
        Inr (Msg x rs)"
      using Message_pieces_dec [OF ok len' k(1)] Message_responses_dec [OF IH oks k(2)] len'
      unfolding enc d by simp
  qed
qed

interpretation message: codec Message_SizeMessage Message_MarshalAppend Message_UnmarshalMessage
  "Msg Message0 []" Message_ok Message_need
  by unfold_locales (rule Message_codec_at)

section \<open>Comparing configurations (confstate.go)\<close>

definition ConfState_EqualMessage :: "ConfState \<Rightarrow> ConfState \<Rightarrow> bool option" where
  "ConfState_EqualMessage x y =
     (if csVoters x \<noteq> csVoters y then Some False
      else if csLearners x \<noteq> csLearners y then Some False
      else if csVotersOutgoing x \<noteq> csVotersOutgoing y then Some False
      else if csLearnersNext x \<noteq> csLearnersNext y then Some False
      else if csAutoLeave x \<noteq> csAutoLeave y then Some False
      else equalUnknown (csUnknown x) (csUnknown y))"

datatype equivalent_error = ErrNilInput | ErrNotEquivalent

definition normConfState :: "ConfState \<Rightarrow> ConfState" where
  "normConfState c = c\<lparr>csVoters := sort (csVoters c), csLearners := sort (csLearners c),
     csVotersOutgoing := sort (csVotersOutgoing c), csLearnersNext := sort (csLearnersNext c),
     csAutoLeave := Some (get_bool (csAutoLeave c))\<rparr>"

text \<open>The inner option is the \<^verbatim>\<open>error\<close>, \<open>None\<close> being nil.\<close>

definition ConfState_Equivalent ::
    "ConfState option \<Rightarrow> ConfState option \<Rightarrow> equivalent_error option option" where
  "ConfState_Equivalent cs cs2 =
     (case (cs, cs2) of
        (Some c1, Some c2) \<Rightarrow> do {
          eq \<leftarrow> ConfState_EqualMessage (normConfState c1) (normConfState c2);
          Some (if \<not> eq then Some ErrNotEquivalent else None)
        }
      | _ \<Rightarrow> Some (Some ErrNilInput))"

lemma sort_eq_iff: "sort xs = sort ys \<longleftrightarrow> mset xs = mset ys" for xs ys :: "'a::linorder list"
  by (metis mset_sort properties_for_sort sorted_sort)

lemma Equivalent_iff:
  assumes "csUnknown x = csUnknown y"
  shows "ConfState_Equivalent (Some x) (Some y) = Some (
    if mset (csVoters x) = mset (csVoters y) \<and> mset (csLearners x) = mset (csLearners y) \<and>
       mset (csVotersOutgoing x) = mset (csVotersOutgoing y) \<and>
       mset (csLearnersNext x) = mset (csLearnersNext y) \<and>
       get_bool (csAutoLeave x) = get_bool (csAutoLeave y)
    then None else Some ErrNotEquivalent)"
  using assms
  by (simp add: ConfState_Equivalent_def ConfState_EqualMessage_def normConfState_def sort_eq_iff)

section \<open>Properties\<close>

text \<open>
  A base-128 varint of any 64-bit value is read back as that value, whatever follows
  it, and as many bytes are consumed as \<open>sizeVarint\<close> announces, between 1 and 10.
\<close>

lemma varint_round_trip:
  "consumeVarint (appendVarint [] v @ rest) = (v, sizeVarint v) \<and>
   int (length (appendVarint [] v)) = sizeVarint v \<and> 1 \<le> sizeVarint v \<and> sizeVarint v \<le> 10"
  using consume_appendVarint [of v rest] length_appendVarint [of "[]" v] sizeVarint_bounds [of v]
  by simp

text \<open>
  The size a message announces is the number of bytes it is written in: every message
  embedded in another gets its right length prefix.
\<close>

lemma message_size_exact:
  "Message_SizeMessage m = int (length (Message_MarshalAppend [] m))"
  by (rule message.siz_enc)

text \<open>
  C22. A message of canonical enum values, without unknown fields, nested at most 10000 deep
  and smaller than \<open>2 ^ 63\<close> bytes is read back from its encoding, entries, snapshot and
  nested responses included.
\<close>

theorem message_round_trip:
  assumes "Message_ok m" and "Message_need m \<le> 10000" and "Message_SizeMessage m < 2 ^ 63"
  shows "Unmarshal Message_UnmarshalMessage (Msg Message0 []) (Message_MarshalAppend [] m) = Inr m"
  using assms by (rule message.round_trip)

theorem message_round_trip_witness:
  "let m = Msg (Message0\<lparr>mType := Some MsgApp, mTerm := Some 300,
         mEntries := [Entry0\<lparr>eIndex := Some 7, eData := Some [1, 2]\<rparr>]\<rparr>)
       [Msg (Message0\<lparr>mType := Some MsgVoteResp, mReject := Some True\<rparr>) []]
   in Unmarshal Message_UnmarshalMessage (Msg Message0 []) (Message_MarshalAppend [] m) = Inr m"
  unfolding Let_def
proof (rule message_round_trip)
  show "Message_ok (Msg (Message0\<lparr>mType := Some MsgApp, mTerm := Some 300,
         mEntries := [Entry0\<lparr>eIndex := Some 7, eData := Some [1, 2]\<rparr>]\<rparr>)
       [Msg (Message0\<lparr>mType := Some MsgVoteResp, mReject := Some True\<rparr>) []])"
    by (simp add: Message0_def Entry0_def Entry_ok_def MessageType_ok_def MessageType_of_def
        MessageType_names_def word_less_nat_alt)
next
  show "Message_need (Msg (Message0\<lparr>mType := Some MsgApp, mTerm := Some 300,
         mEntries := [Entry0\<lparr>eIndex := Some 7, eData := Some [1, 2]\<rparr>]\<rparr>)
       [Msg (Message0\<lparr>mType := Some MsgVoteResp, mReject := Some True\<rparr>) []]) \<le> 10000"
    by simp
next
  show "Message_SizeMessage (Msg (Message0\<lparr>mType := Some MsgApp, mTerm := Some 300,
         mEntries := [Entry0\<lparr>eIndex := Some 7, eData := Some [1, 2]\<rparr>]\<rparr>)
       [Msg (Message0\<lparr>mType := Some MsgVoteResp, mReject := Some True\<rparr>) []]) < 2 ^ 63"
    using sizeVarint_bounds(2) [of "word_of_int _"]
    by (simp add: Message0_def Entry0_def Entry_SizeMessage_def sizeOpt_def sizeOptBytes_def
        sizeOptMsg_def sizeBytes_def enum64_def sizeVarint_def sizeVarintLoop.simps)
qed

text \<open>
  A configuration change that is proposed is the one that is applied: both kinds are
  read back from the entry data \<open>MarshalConfChange\<close> makes of them, and a nil change, whose
  data is nil, is read back as the zero change of the second kind.
\<close>

lemma conf_change_round_trip:
  assumes "ConfChange_ok c1" and "ConfChange_SizeMessage c1 < 2 ^ 63"
    and "ConfChangeV2_ok c2" and "ConfChangeV2_SizeMessage c2 < 2 ^ 63"
  shows "fst (MarshalConfChange (Some (CCv1 c1))) = EntryConfChange \<and>
    Unmarshal ConfChange_UnmarshalMessage ConfChange0
      (get_list (snd (MarshalConfChange (Some (CCv1 c1))))) = Inr c1 \<and>
    fst (MarshalConfChange (Some (CCv2 c2))) = EntryConfChangeV2 \<and>
    Unmarshal ConfChangeV2_UnmarshalMessage ConfChangeV20
      (get_list (snd (MarshalConfChange (Some (CCv2 c2))))) = Inr c2 \<and>
    fst (MarshalConfChange None) = EntryConfChangeV2 \<and>
    Unmarshal ConfChangeV2_UnmarshalMessage ConfChangeV20 (get_list (snd (MarshalConfChange None))) =
      Inr ConfChangeV20"
  using confChange.round_trip [OF assms(1) _ assms(2)] confChangeV2.round_trip [OF assms(3) _ assms(4)]
  by (simp add: MarshalConfChange_def Marshal_def Unmarshal_def ConfChangeV2_UnmarshalMessage_def
      unmarshalAt_def eval_nat_numeral)

lemma conf_change_round_trip_demo:
  "Unmarshal ConfChange_UnmarshalMessage ConfChange0
      (get_list (snd (MarshalConfChange (Some (CCv1
        (ConfChange0\<lparr>ccType := Some ConfChangeAddLearnerNode, ccNodeId := Some 4\<rparr>)))))) =
    Inr (ConfChange0\<lparr>ccType := Some ConfChangeAddLearnerNode, ccNodeId := Some 4\<rparr>)"
proof -
  have "ConfChange_ok (ConfChange0\<lparr>ccType := Some ConfChangeAddLearnerNode, ccNodeId := Some 4\<rparr>)"
    by (simp add: ConfChange0_def ConfChange_ok_def ConfChangeType_ok_def ConfChangeType_of_def)
  moreover have "ConfChange_SizeMessage
      (ConfChange0\<lparr>ccType := Some ConfChangeAddLearnerNode, ccNodeId := Some 4\<rparr>) < 2 ^ 63"
    by (simp add: ConfChange0_def ConfChange_SizeMessage_def sizeOpt_def sizeOptBytes_def
        enum64_def sizeVarint_small)
  moreover have "ConfChangeV2_ok ConfChangeV20" and "ConfChangeV2_SizeMessage ConfChangeV20 < 2 ^ 63"
    by (simp_all add: ConfChangeV20_def ConfChangeV2_ok_def ConfChangeV2_SizeMessage_def sizeOpt_def
        sizeOptBytes_def)
  ultimately show ?thesis
    using conf_change_round_trip by blast
qed

text \<open>
  Two configurations with the same unknown bytes are equivalent exactly when their four
  lists hold the same nodes with the same multiplicity, in any order, and they agree on
  leaving automatically, an absent flag counting as false. The comparison never panics.
\<close>

lemma conf_state_equivalent_iff:
  assumes "csUnknown x = csUnknown y"
  shows "ConfState_Equivalent (Some x) (Some y) = Some (
    if mset (csVoters x) = mset (csVoters y) \<and> mset (csLearners x) = mset (csLearners y) \<and>
       mset (csVotersOutgoing x) = mset (csVotersOutgoing y) \<and>
       mset (csLearnersNext x) = mset (csLearnersNext y) \<and>
       get_bool (csAutoLeave x) = get_bool (csAutoLeave y)
    then None else Some ErrNotEquivalent)"
  using assms by (rule Equivalent_iff)

lemma conf_state_equivalent_iff_demo:
  "ConfState_Equivalent (Some (ConfState0\<lparr>csVoters := [1, 2, 3], csAutoLeave := Some False\<rparr>))
     (Some (ConfState0\<lparr>csVoters := [3, 1, 2]\<rparr>)) = Some None"
  by (subst conf_state_equivalent_iff) (simp_all add: ConfState0_def)

end
