(* ===== verification/Confchange.thy ===== *)
theory Confchange
  imports Tracker Codec
begin

text \<open>
  The package \<^verbatim>\<open>confchange\<close> (src/raftsubject/confchange): the simple and joint changes of a
  configuration (confchange.go) and its restoration from a \<^verbatim>\<open>ConfState\<close> (restore.go).

  A changer's operation ends in a panic (\<open>None\<close>; writing to the nil map of voters), an error
  (\<open>Inl\<close>) or a configuration with its progress map. The errors of \<^verbatim>\<open>checkInvariants\<close> carry no
  node id: which offending node Go reports depends on the order a map is ranged over.

  The locale \<open>changer\<close> is the contract the rest of the program relies on: from a
  well-formed configuration, an operation never panics and its results are well-formed; the
  quorums before and after overlap.
\<close>

section \<open>The changer\<close>

record Changer =
  chTracker :: ProgressTracker
  chLastIndex :: uint64

datatype confchange_error =
    ErrAlreadyJoint | ErrZeroVoter | ErrLeaveNonJoint | ErrSimpleInJoint | ErrManyVoters
  | ErrUnexpectedType | ErrRemovedAllVoters
  | ErrNoProgress | ErrBadLearnersNext | ErrBadLearners
  | ErrOutgoingNotNil | ErrLearnersNextNotNil | ErrAutoLeave

type_synonym cfgtrk = "Config \<times> ProgressMap"

abbreviation incoming :: "Config \<Rightarrow> MajorityConfig" where
  "incoming cfg \<equiv> fst (cfgVoters cfg)"

abbreviation outgoing :: "Config \<Rightarrow> MajorityConfig" where
  "outgoing cfg \<equiv> snd (cfgVoters cfg)"

definition joint :: "Config \<Rightarrow> bool" where
  "joint cfg \<longleftrightarrow> 0 < card (elems (outgoing cfg))"

definition nilAwareAdd :: "uint64 \<Rightarrow> uint64 set option \<Rightarrow> uint64 set option" where
  "nilAwareAdd n m = (case m of None \<Rightarrow> Some {n} | Some s \<Rightarrow> Some (insert n s))"

definition nilAwareDelete :: "uint64 \<Rightarrow> uint64 set option \<Rightarrow> uint64 set option" where
  "nilAwareDelete n m =
     (case m of None \<Rightarrow> None | Some s \<Rightarrow> if card (s - {n}) = 0 then None else Some (s - {n}))"

definition symdiff :: "MajorityConfig \<Rightarrow> MajorityConfig \<Rightarrow> nat" where
  "symdiff l r = card (elems l - elems r) + card (elems r - elems l)"

text \<open>\<^verbatim>\<open>incoming(cfg.Voters)[id] = struct{}{}\<close>, a panic on a nil map, and \<^verbatim>\<open>delete\<close>, none.\<close>

definition addIncoming :: "uint64 \<Rightarrow> Config \<Rightarrow> Config option" where
  "addIncoming n cfg =
     (case incoming cfg of
        None \<Rightarrow> None
      | Some s \<Rightarrow> Some (cfg\<lparr>cfgVoters := (Some (insert n s), outgoing cfg)\<rparr>))"

definition delIncoming :: "uint64 \<Rightarrow> Config \<Rightarrow> Config" where
  "delIncoming n cfg =
     cfg\<lparr>cfgVoters := (map_option (\<lambda>s. s - {n}) (incoming cfg), outgoing cfg)\<rparr>"

definition initProgress :: "Changer \<Rightarrow> uint64 \<Rightarrow> bool \<Rightarrow> cfgtrk \<Rightarrow> cfgtrk option" where
  "initProgress c n isLearner = (\<lambda>(cfg, trk). do {
     cfg \<leftarrow> (if \<not> isLearner then addIncoming n cfg
             else Some (cfg\<lparr>cfgLearners := nilAwareAdd n (cfgLearners cfg)\<rparr>));
     Some (cfg, trk(n \<mapsto> \<lparr>prMatch = 0, prNext = max (chLastIndex c) 1, prSentCommit = 0,
       prState = StateProbe, prPendingSnapshot = 0, prRecentActive = True,
       prMsgAppFlowPaused = False,
       prInflights = NewInflights (trkMaxInflight (chTracker c)) (trkMaxInflightBytes (chTracker c)),
       prIsLearner = isLearner\<rparr>))
   })"

definition makeVoter :: "Changer \<Rightarrow> uint64 \<Rightarrow> cfgtrk \<Rightarrow> cfgtrk option" where
  "makeVoter c n = (\<lambda>(cfg, trk).
     case trk n of
       None \<Rightarrow> initProgress c n False (cfg, trk)
     | Some pr \<Rightarrow> do {
         let trk = trk(n \<mapsto> pr\<lparr>prIsLearner := False\<rparr>);
         let cfg = cfg\<lparr>cfgLearners := nilAwareDelete n (cfgLearners cfg),
                       cfgLearnersNext := nilAwareDelete n (cfgLearnersNext cfg)\<rparr>;
         cfg \<leftarrow> addIncoming n cfg;
         Some (cfg, trk)
       })"

definition removeNode :: "uint64 \<Rightarrow> cfgtrk \<Rightarrow> cfgtrk" where
  "removeNode n = (\<lambda>(cfg, trk).
     if trk n = None then (cfg, trk)
     else let cfg = delIncoming n cfg;
              cfg = cfg\<lparr>cfgLearners := nilAwareDelete n (cfgLearners cfg),
                        cfgLearnersNext := nilAwareDelete n (cfgLearnersNext cfg)\<rparr>
          in (cfg, if n \<in> elems (outgoing cfg) then trk else trk(n := None)))"

definition makeLearner :: "Changer \<Rightarrow> uint64 \<Rightarrow> cfgtrk \<Rightarrow> cfgtrk option" where
  "makeLearner c n = (\<lambda>(cfg, trk).
     case trk n of
       None \<Rightarrow> initProgress c n True (cfg, trk)
     | Some pr \<Rightarrow>
         if prIsLearner pr then Some (cfg, trk)
         else let (cfg, trk) = removeNode n (cfg, trk);
                  trk = trk(n \<mapsto> pr)
              in if n \<in> elems (outgoing cfg)
                 then Some (cfg\<lparr>cfgLearnersNext := nilAwareAdd n (cfgLearnersNext cfg)\<rparr>, trk)
                 else Some (cfg\<lparr>cfgLearners := nilAwareAdd n (cfgLearners cfg)\<rparr>,
                            trk(n \<mapsto> pr\<lparr>prIsLearner := True\<rparr>)))"

text \<open>One round of the loop of \<^verbatim>\<open>apply\<close>, then the loop with the check after it.\<close>

definition applyOne :: "Changer \<Rightarrow> ConfChangeSingle \<Rightarrow> cfgtrk \<Rightarrow> (confchange_error + cfgtrk) option" where
  "applyOne c cc ct =
     (let n = ConfChangeSingle_GetNodeId cc in
      if n = 0 then Some (Inr ct)
      else case ConfChangeSingle_GetType cc of
          ConfChangeAddNode \<Rightarrow> map_option Inr (makeVoter c n ct)
        | ConfChangeAddLearnerNode \<Rightarrow> map_option Inr (makeLearner c n ct)
        | ConfChangeRemoveNode \<Rightarrow> Some (Inr (removeNode n ct))
        | ConfChangeUpdateNode \<Rightarrow> Some (Inr ct)
        | ConfChangeOther x \<Rightarrow> Some (Inl ErrUnexpectedType))"

fun applyLoop :: "Changer \<Rightarrow> ConfChangeSingle list \<Rightarrow> cfgtrk \<Rightarrow> (confchange_error + cfgtrk) option" where
  "applyLoop c [] ct = Some (Inr ct)"
| "applyLoop c (cc # ccs) ct = do {
     r \<leftarrow> applyOne c cc ct;
     (case r of Inl e \<Rightarrow> Some (Inl e) | Inr ct \<Rightarrow> applyLoop c ccs ct)
   }"

definition applyChanges :: "Changer \<Rightarrow> ConfChangeSingle list \<Rightarrow> cfgtrk \<Rightarrow> (confchange_error + cfgtrk) option" where
  "applyChanges c ccs ct = do {
     r \<leftarrow> applyLoop c ccs ct;
     (case r of
        Inl e \<Rightarrow> Some (Inl e)
      | Inr ct \<Rightarrow> Some (if card (elems (incoming (fst ct))) = 0 then Inl ErrRemovedAllVoters else Inr ct))
   }"

definition isLearnerIn :: "ProgressMap \<Rightarrow> uint64 \<Rightarrow> bool" where
  "isLearnerIn trk n = (case trk n of None \<Rightarrow> False | Some pr \<Rightarrow> prIsLearner pr)"

definition checkInvariants :: "Config \<Rightarrow> ProgressMap \<Rightarrow> confchange_error option" where
  "checkInvariants cfg trk =
     (if \<exists>n \<in> JointConfig_IDs (cfgVoters cfg) \<union> elems (cfgLearners cfg) \<union> elems (cfgLearnersNext cfg).
           trk n = None
      then Some ErrNoProgress
      else if \<exists>n \<in> elems (cfgLearnersNext cfg). n \<notin> elems (outgoing cfg) \<or> isLearnerIn trk n
      then Some ErrBadLearnersNext
      else if \<exists>n \<in> elems (cfgLearners cfg).
           n \<in> elems (outgoing cfg) \<or> n \<in> elems (incoming cfg) \<or> \<not> isLearnerIn trk n
      then Some ErrBadLearners
      else if \<not> joint cfg then
        (if outgoing cfg \<noteq> None then Some ErrOutgoingNotNil
         else if cfgLearnersNext cfg \<noteq> None then Some ErrLearnersNextNotNil
         else if cfgAutoLeave cfg then Some ErrAutoLeave else None)
      else None)"

definition checkAndReturn :: "cfgtrk \<Rightarrow> confchange_error + cfgtrk" where
  "checkAndReturn ct =
     (case checkInvariants (fst ct) (snd ct) of Some e \<Rightarrow> Inl e | None \<Rightarrow> Inr ct)"

definition checkAndCopy :: "Changer \<Rightarrow> confchange_error + cfgtrk" where
  "checkAndCopy c =
     checkAndReturn (Config_Clone (trkConfig (chTracker c)), trkProgress (chTracker c))"

definition Changer_EnterJoint ::
    "bool \<Rightarrow> ConfChangeSingle list \<Rightarrow> Changer \<Rightarrow> (confchange_error + cfgtrk) option" where
  "Changer_EnterJoint autoLeave ccs c =
     (case checkAndCopy c of
        Inl e \<Rightarrow> Some (Inl e)
      | Inr (cfg, trk) \<Rightarrow>
          if joint cfg then Some (Inl ErrAlreadyJoint)
          else if card (elems (incoming cfg)) = 0 then Some (Inl ErrZeroVoter)
          else do {
            let cfg = cfg\<lparr>cfgVoters := (incoming cfg, Some (elems (incoming cfg)))\<rparr>;
            r \<leftarrow> applyChanges c ccs (cfg, trk);
            (case r of
               Inl e \<Rightarrow> Some (Inl e)
             | Inr (cfg, trk) \<Rightarrow> Some (checkAndReturn (cfg\<lparr>cfgAutoLeave := autoLeave\<rparr>, trk)))
          })"

text \<open>
  \<^verbatim>\<open>LeaveJoint\<close>: the loop over \<open>LearnersNext\<close> adds every staged node and marks it (a nil
  dereference if it has no progress), the loop over the outgoing voters drops the progress
  of the nodes that are nothing any more.
\<close>

definition Changer_LeaveJoint :: "Changer \<Rightarrow> (confchange_error + cfgtrk) option" where
  "Changer_LeaveJoint c =
     (case checkAndCopy c of
        Inl e \<Rightarrow> Some (Inl e)
      | Inr (cfg, trk) \<Rightarrow>
          if \<not> joint cfg then Some (Inl ErrLeaveNonJoint)
          else do {
            let staged = elems (cfgLearnersNext cfg);
            panic_if (\<exists>n \<in> staged. trk n = None);
            let cfg = cfg\<lparr>cfgLearners := fold nilAwareAdd (sorted_list_of_set staged) (cfgLearners cfg),
                          cfgLearnersNext := None\<rparr>;
            let trk = (\<lambda>n. if n \<in> staged then map_option (\<lambda>pr. pr\<lparr>prIsLearner := True\<rparr>) (trk n)
                           else trk n);
            let gone = {n \<in> elems (outgoing cfg).
              n \<notin> elems (incoming cfg) \<and> n \<notin> elems (cfgLearners cfg)};
            let trk = (\<lambda>n. if n \<in> gone then None else trk n);
            let cfg = cfg\<lparr>cfgVoters := (incoming cfg, None), cfgAutoLeave := False\<rparr>;
            Some (checkAndReturn (cfg, trk))
          })"

definition Changer_Simple ::
    "ConfChangeSingle list \<Rightarrow> Changer \<Rightarrow> (confchange_error + cfgtrk) option" where
  "Changer_Simple ccs c =
     (case checkAndCopy c of
        Inl e \<Rightarrow> Some (Inl e)
      | Inr (cfg, trk) \<Rightarrow>
          if joint cfg then Some (Inl ErrSimpleInJoint)
          else do {
            r \<leftarrow> applyChanges c ccs (cfg, trk);
            (case r of
               Inl e \<Rightarrow> Some (Inl e)
             | Inr (cfg, trk) \<Rightarrow>
                 if 1 < symdiff (incoming (trkConfig (chTracker c))) (incoming cfg)
                 then Some (Inl ErrManyVoters)
                 else Some (checkAndReturn (cfg, trk)))
          })"

section \<open>Restoring (restore.go)\<close>

definition ccSingle :: "ConfChangeType \<Rightarrow> uint64 \<Rightarrow> ConfChangeSingle" where
  "ccSingle t n = ConfChangeSingle0\<lparr>ccsType := Some t, ccsNodeId := Some n\<rparr>"

definition toConfChangeSingle :: "ConfState \<Rightarrow> ConfChangeSingle list \<times> ConfChangeSingle list" where
  "toConfChangeSingle cs =
     (map (ccSingle ConfChangeAddNode) (csVotersOutgoing cs),
      map (ccSingle ConfChangeRemoveNode) (csVotersOutgoing cs) @
      map (ccSingle ConfChangeAddNode) (csVoters cs) @
      map (ccSingle ConfChangeAddLearnerNode) (csLearners cs) @
      map (ccSingle ConfChangeAddLearnerNode) (csLearnersNext cs))"

fun chain :: "Changer \<Rightarrow> (Changer \<Rightarrow> (confchange_error + cfgtrk) option) list \<Rightarrow>
    (confchange_error + cfgtrk) option" where
  "chain chg [] = Some (Inr (trkConfig (chTracker chg), trkProgress (chTracker chg)))"
| "chain chg (op # ops) = do {
     r \<leftarrow> op chg;
     (case r of
        Inl e \<Rightarrow> Some (Inl e)
      | Inr (cfg, trk) \<Rightarrow>
          chain (chg\<lparr>chTracker := (chTracker chg)\<lparr>trkConfig := cfg, trkProgress := trk\<rparr>\<rparr>) ops)
   }"

definition Restore :: "Changer \<Rightarrow> ConfState \<Rightarrow> (confchange_error + cfgtrk) option" where
  "Restore chg cs =
     (let (out, inc) = toConfChangeSingle cs in
      if length out = 0 then chain chg (map (\<lambda>cc. Changer_Simple [cc]) inc)
      else chain chg (map (\<lambda>cc. Changer_Simple [cc]) out @
             [Changer_EnterJoint (get_bool (csAutoLeave cs)) inc]))"

section \<open>Well-formed configurations\<close>

text \<open>
  What a configuration is up to the nil-ness of its maps: incoming and outgoing voters,
  learners and staged learners.
\<close>

type_synonym conf_view = "uint64 set \<times> uint64 set \<times> uint64 set \<times> uint64 set"

definition conf_view :: "Config \<Rightarrow> conf_view" where
  "conf_view cfg =
     (elems (incoming cfg), elems (outgoing cfg), elems (cfgLearners cfg), elems (cfgLearnersNext cfg))"

text \<open>
  The invariant of the active configuration. It is stronger than \<open>checkInvariants\<close>: the
  progress map tracks the members and no other node, a staged learner is no incoming voter,
  an empty map is nil and node 0 is no member.
\<close>

fun view_ok :: "conf_view \<Rightarrow> ProgressMap \<Rightarrow> bool" where
  "view_ok (I, O', L, N) trk \<longleftrightarrow>
     (\<forall>n. trk n = None \<longleftrightarrow> n \<notin> I \<and> n \<notin> O' \<and> n \<notin> L) \<and>
     (\<forall>n \<in> N. n \<in> O' \<and> n \<notin> I) \<and> (\<forall>n \<in> L. n \<notin> I \<and> n \<notin> O') \<and>
     (\<forall>n pr. trk n = Some pr \<longrightarrow> prIsLearner pr = (n \<in> L) \<and> progress_inv pr) \<and> trk 0 = None"

declare view_ok.simps [simp del]

definition nil_ok :: "Config \<Rightarrow> bool" where
  "nil_ok cfg \<longleftrightarrow> incoming cfg \<noteq> None \<and> outgoing cfg \<noteq> Some {} \<and> cfgLearners cfg \<noteq> Some {} \<and>
     cfgLearnersNext cfg \<noteq> Some {} \<and> (outgoing cfg = None \<longrightarrow> \<not> cfgAutoLeave cfg)"

definition conf_ok :: "Config \<Rightarrow> ProgressMap \<Rightarrow> bool" where
  "conf_ok cfg trk \<longleftrightarrow> view_ok (conf_view cfg) trk \<and> nil_ok cfg"

lemma joint_iff: "joint cfg \<longleftrightarrow> elems (outgoing cfg) \<noteq> {}"
  by (simp add: joint_def card_gt_0_iff)

lemma elems_nilAware [simp]:
  "elems (nilAwareAdd n m) = insert n (elems m)" "elems (nilAwareDelete n m) = elems m - {n}"
  by (auto simp: nilAwareAdd_def nilAwareDelete_def split: option.splits)

lemma elems_map_option [simp]: "elems (map_option (\<lambda>s. s - {n}) m) = elems m - {n}"
  by (cases m) simp_all

lemma nilAware_not_empty [simp]:
  "nilAwareAdd n m \<noteq> Some {}" "m \<noteq> Some {} \<Longrightarrow> nilAwareDelete n m \<noteq> Some {}"
  by (auto simp: nilAwareAdd_def nilAwareDelete_def split: option.splits)

lemma elems_empty_iff: "m \<noteq> Some {} \<Longrightarrow> elems m = {} \<longleftrightarrow> m = None"
  by (cases m) auto

text \<open>A well-formed configuration is its view and its flag.\<close>

lemma elems_eq: "elems m = elems m' \<Longrightarrow> m \<noteq> Some {} \<Longrightarrow> m' \<noteq> Some {} \<Longrightarrow> m = m'"
  by (cases m; cases m') auto

lemma nil_ok_unique:
  assumes "nil_ok cfg" and "nil_ok cfg'" and "conf_view cfg = conf_view cfg'"
    and "cfgAutoLeave cfg = cfgAutoLeave cfg'"
  shows "cfg = cfg'"
proof -
  have "incoming cfg = incoming cfg'"
    using assms(1-3) by (cases "incoming cfg"; cases "incoming cfg'") (auto simp: nil_ok_def conf_view_def)
  moreover have "outgoing cfg = outgoing cfg'"
    by (rule elems_eq) (use assms(1-3) in \<open>simp_all add: nil_ok_def conf_view_def\<close>)
  moreover have "cfgLearners cfg = cfgLearners cfg'"
    by (rule elems_eq) (use assms(1-3) in \<open>simp_all add: nil_ok_def conf_view_def\<close>)
  moreover have "cfgLearnersNext cfg = cfgLearnersNext cfg'"
    by (rule elems_eq) (use assms(1-3) in \<open>simp_all add: nil_ok_def conf_view_def\<close>)
  ultimately show "cfg = cfg'"
    using assms(4) by (cases cfg; cases cfg') (simp add: prod_eq_iff)
qed

lemma conf_ok_check:
  assumes "conf_ok cfg trk"
  shows "checkInvariants cfg trk = None"
proof -
  have ok: "view_ok (elems (incoming cfg), elems (outgoing cfg), elems (cfgLearners cfg),
      elems (cfgLearnersNext cfg)) trk" and nil: "nil_ok cfg"
    using assms by (simp_all add: conf_ok_def conf_view_def)
  have "\<not> (\<exists>n \<in> JointConfig_IDs (cfgVoters cfg) \<union> elems (cfgLearners cfg) \<union> elems (cfgLearnersNext cfg).
      trk n = None)"
    using ok by (auto simp: JointConfig_IDs_def view_ok.simps)
  moreover have "\<not> (\<exists>n \<in> elems (cfgLearnersNext cfg). n \<notin> elems (outgoing cfg) \<or> isLearnerIn trk n)"
    using ok by (auto simp: isLearnerIn_def view_ok.simps split: option.splits)
  moreover have "\<not> (\<exists>n \<in> elems (cfgLearners cfg).
      n \<in> elems (outgoing cfg) \<or> n \<in> elems (incoming cfg) \<or> \<not> isLearnerIn trk n)"
    using ok by (auto simp: isLearnerIn_def view_ok.simps split: option.splits)
  moreover have "outgoing cfg = None \<and> cfgLearnersNext cfg = None \<and> \<not> cfgAutoLeave cfg" if "\<not> joint cfg"
  proof -
    have "elems (outgoing cfg) = {}" using that by (simp add: joint_iff)
    moreover from this have "elems (cfgLearnersNext cfg) = {}" using ok by (auto simp: view_ok.simps)
    ultimately show ?thesis using nil by (simp add: nil_ok_def elems_empty_iff)
  qed
  ultimately show ?thesis
    by (simp add: checkInvariants_def)
qed

lemma checkAndReturn_ok [simp]: "conf_ok cfg trk \<Longrightarrow> checkAndReturn (cfg, trk) = Inr (cfg, trk)"
  by (simp add: checkAndReturn_def conf_ok_check)

lemma conf_ok_clone: "conf_ok cfg trk \<Longrightarrow> conf_ok (Config_Clone cfg) trk"
  by (simp add: conf_ok_def Config_Clone_def conf_view_def nil_ok_def)

section \<open>The changes, one node at a time\<close>

fun viewStep :: "ConfChangeType \<Rightarrow> uint64 \<Rightarrow> conf_view \<Rightarrow> conf_view" where
  "viewStep ConfChangeAddNode n (I, O', L, N) = (insert n I, O', L - {n}, N - {n})"
| "viewStep ConfChangeAddLearnerNode n (I, O', L, N) =
     (if n \<in> L then (I, O', L, N)
      else if n \<in> O' then (I - {n}, O', L, insert n N)
      else (I - {n}, O', insert n L, N))"
| "viewStep ConfChangeRemoveNode n (I, O', L, N) = (I - {n}, O', L - {n}, N - {n})"
| "viewStep t n v = v"

lemma progress_inv_init:
  "progress_inv \<lparr>prMatch = 0, prNext = max k 1, prSentCommit = 0, prState = StateProbe,
     prPendingSnapshot = 0, prRecentActive = a, prMsgAppFlowPaused = False,
     prInflights = NewInflights m b, prIsLearner = l\<rparr>"
  using inflights_new [of m b] by (simp add: progress_inv_def less_max_iff_disj)

lemma progress_inv_learner [simp]: "progress_inv (pr\<lparr>prIsLearner := l\<rparr>) = progress_inv pr"
  by (simp add: progress_inv_def)

lemma view_ok_add:
  assumes "view_ok v trk" and "n \<noteq> 0" and "progress_inv pr" and "\<not> prIsLearner pr"
  shows "view_ok (viewStep ConfChangeAddNode n v) (trk(n \<mapsto> pr))"
  using assms by (cases v) (auto simp: view_ok.simps)

lemma view_ok_learner:
  assumes "view_ok v trk" and "n \<noteq> 0" and "progress_inv pr" and "n \<notin> fst (snd (snd v))"
    and "prIsLearner pr = (n \<notin> fst (snd v))"
  shows "view_ok (viewStep ConfChangeAddLearnerNode n v) (trk(n \<mapsto> pr))"
  using assms by (cases v) (auto simp: view_ok.simps)

lemma view_ok_remove:
  assumes "view_ok v trk"
  shows "view_ok (viewStep ConfChangeRemoveNode n v)
    (if n \<in> fst (snd v) then trk else trk(n := None))"
  using assms by (cases v) (auto simp: view_ok.simps)

text \<open>A node the map does not track is in no part of the configuration.\<close>

lemma conf_ok_untracked:
  assumes "conf_ok cfg trk" and "trk n = None"
  shows "n \<notin> elems (incoming cfg)" "n \<notin> elems (outgoing cfg)" "n \<notin> elems (cfgLearners cfg)"
    "n \<notin> elems (cfgLearnersNext cfg)"
  using assms by (auto simp: conf_ok_def conf_view_def view_ok.simps)

lemma conf_ok_dom:
  assumes "conf_ok cfg trk"
  shows "dom trk = elems (incoming cfg) \<union> elems (outgoing cfg) \<union> elems (cfgLearners cfg)"
proof -
  have "trk n = None \<longleftrightarrow> n \<notin> elems (incoming cfg) \<and> n \<notin> elems (outgoing cfg) \<and> n \<notin> elems (cfgLearners cfg)" for n
    using assms by (simp add: conf_ok_def conf_view_def view_ok.simps)
  then show ?thesis by (simp add: set_eq_iff domIff)
qed

lemma makeVoter_ok:
  assumes "conf_ok cfg trk" and n: "n \<noteq> 0"
  shows "\<exists>cfg' trk'. makeVoter c n (cfg, trk) = Some (cfg', trk') \<and> conf_ok cfg' trk' \<and>
    conf_view cfg' = viewStep ConfChangeAddNode n (conf_view cfg) \<and>
    cfgAutoLeave cfg' = cfgAutoLeave cfg"
proof -
  have ok: "view_ok (conf_view cfg) trk" and nil: "nil_ok cfg" using assms by (simp_all add: conf_ok_def)
  obtain I where I: "incoming cfg = Some I" using nil by (auto simp: nil_ok_def)
  show ?thesis
  proof (cases "trk n")
    case None
    note conf_ok_untracked [OF assms(1) None]
    with None I nil view_ok_add [OF ok n progress_inv_init] show ?thesis
      by (simp add: makeVoter_def initProgress_def addIncoming_def conf_ok_def conf_view_def nil_ok_def)
  next
    case (Some pr)
    have "progress_inv (pr\<lparr>prIsLearner := False\<rparr>)"
      using ok Some by (cases "conf_view cfg") (auto simp: view_ok.simps)
    from view_ok_add [OF ok n this] Some I nil show ?thesis
      by (simp add: makeVoter_def addIncoming_def conf_ok_def conf_view_def nil_ok_def)
  qed
qed

lemma removeNode_ok:
  assumes "conf_ok cfg trk"
  shows "\<exists>cfg' trk'. removeNode n (cfg, trk) = (cfg', trk') \<and> conf_ok cfg' trk' \<and>
    conf_view cfg' = viewStep ConfChangeRemoveNode n (conf_view cfg) \<and>
    cfgAutoLeave cfg' = cfgAutoLeave cfg"
proof -
  have ok: "view_ok (conf_view cfg) trk" and nil: "nil_ok cfg" using assms by (simp_all add: conf_ok_def)
  show ?thesis
  proof (cases "trk n")
    case None
    have "viewStep ConfChangeRemoveNode n (conf_view cfg) = conf_view cfg"
      using conf_ok_untracked [OF assms(1) None] by (simp add: conf_view_def)
    with None assms show ?thesis by (simp add: removeNode_def)
  next
    case (Some pr)
    define cfg' where "cfg' = (delIncoming n cfg)\<lparr>cfgLearners := nilAwareDelete n (cfgLearners cfg),
        cfgLearnersNext := nilAwareDelete n (cfgLearnersNext cfg)\<rparr>"
    have v: "conf_view cfg' = viewStep ConfChangeRemoveNode n (conf_view cfg)"
      and nil': "nil_ok cfg'" and auto': "cfgAutoLeave cfg' = cfgAutoLeave cfg"
      using nil by (simp_all add: cfg'_def conf_view_def delIncoming_def nil_ok_def)
    have "removeNode n (cfg, trk) = (cfg', if n \<in> elems (outgoing cfg) then trk else trk(n := None))"
      using Some by (simp add: removeNode_def Let_def cfg'_def delIncoming_def)
    moreover have "view_ok (conf_view cfg') (if n \<in> elems (outgoing cfg) then trk else trk(n := None))"
      unfolding v using view_ok_remove [OF ok, of n] by (simp add: conf_view_def)
    ultimately show ?thesis
      using v nil' auto' by (simp add: conf_ok_def)
  qed
qed

lemma makeLearner_ok:
  assumes "conf_ok cfg trk" and n: "n \<noteq> 0"
  shows "\<exists>cfg' trk'. makeLearner c n (cfg, trk) = Some (cfg', trk') \<and> conf_ok cfg' trk' \<and>
    conf_view cfg' = viewStep ConfChangeAddLearnerNode n (conf_view cfg) \<and>
    cfgAutoLeave cfg' = cfgAutoLeave cfg"
proof -
  have ok: "view_ok (conf_view cfg) trk" and nil: "nil_ok cfg" using assms by (simp_all add: conf_ok_def)
  show ?thesis
  proof (cases "trk n")
    case None
    note conf_ok_untracked [OF assms(1) None]
    with None nil view_ok_learner [OF ok n progress_inv_init] show ?thesis
      by (simp add: makeLearner_def initProgress_def conf_ok_def conf_view_def nil_ok_def)
  next
    case (Some pr)
    show ?thesis
    proof (cases "prIsLearner pr")
      case True
      with ok Some have "n \<in> elems (cfgLearners cfg)" by (auto simp: conf_view_def view_ok.simps)
      with True Some assms show ?thesis by (simp add: makeLearner_def conf_view_def)
    next
      case False
      with ok Some have nl: "n \<notin> elems (cfgLearners cfg)" and pi: "progress_inv pr"
        by (auto simp: conf_view_def view_ok.simps)
      have nn: "elems (cfgLearnersNext cfg) - {n} = elems (cfgLearnersNext cfg)"
        if "n \<notin> elems (outgoing cfg)"
        using ok that by (auto simp: conf_view_def view_ok.simps)
      obtain cfg1 trk1 where r: "removeNode n (cfg, trk) = (cfg1, trk1)"
        and ok1: "conf_ok cfg1 trk1"
        and v1: "conf_view cfg1 = viewStep ConfChangeRemoveNode n (conf_view cfg)"
        and a1: "cfgAutoLeave cfg1 = cfgAutoLeave cfg"
        using removeNode_ok [OF assms(1)] by blast
      have "view_ok (viewStep ConfChangeAddLearnerNode n (conf_view cfg1))
          (trk1(n \<mapsto> pr\<lparr>prIsLearner := n \<notin> elems (outgoing cfg1)\<rparr>))"
        by (rule view_ok_learner) (use ok1 n pi nl v1 in \<open>auto simp: conf_ok_def conf_view_def\<close>)
      then have ok2: "view_ok (viewStep ConfChangeAddLearnerNode n (conf_view cfg))
          (trk1(n \<mapsto> pr\<lparr>prIsLearner := n \<notin> elems (outgoing cfg1)\<rparr>))"
        using nl v1 nn by (auto simp: conf_view_def)
      have same: "pr\<lparr>prIsLearner := False\<rparr> = pr" using False by (cases pr) simp
      from ok2 r ok1 v1 a1 Some False nl nn show ?thesis
        by (cases "n \<in> elems (outgoing cfg)")
          (simp_all add: same makeLearner_def conf_ok_def nil_ok_def conf_view_def)
    qed
  qed
qed

section \<open>A list of changes\<close>

definition knownChange :: "ConfChangeSingle \<Rightarrow> bool" where
  "knownChange cc \<longleftrightarrow> ConfChangeSingle_GetNodeId cc = 0 \<or> (\<forall>x. ConfChangeSingle_GetType cc \<noteq> ConfChangeOther x)"

definition viewOne :: "ConfChangeSingle \<Rightarrow> conf_view \<Rightarrow> conf_view" where
  "viewOne cc v = (if ConfChangeSingle_GetNodeId cc = 0 then v
     else viewStep (ConfChangeSingle_GetType cc) (ConfChangeSingle_GetNodeId cc) v)"

lemma applyOne_ok:
  assumes "conf_ok cfg trk" and "knownChange cc"
  shows "\<exists>cfg' trk'. applyOne c cc (cfg, trk) = Some (Inr (cfg', trk')) \<and> conf_ok cfg' trk' \<and>
    conf_view cfg' = viewOne cc (conf_view cfg) \<and> cfgAutoLeave cfg' = cfgAutoLeave cfg"
proof (cases "ConfChangeSingle_GetNodeId cc = 0")
  case True
  with assms show ?thesis by (simp add: applyOne_def viewOne_def)
next
  case False
  let ?n = "ConfChangeSingle_GetNodeId cc"
  note ops = makeVoter_ok [OF assms(1) False, of c] makeLearner_ok [OF assms(1) False, of c]
    removeNode_ok [OF assms(1), of ?n]
  show ?thesis
    using ops assms False
    by (cases "ConfChangeSingle_GetType cc")
      (force simp: applyOne_def viewOne_def knownChange_def conf_view_def)+
qed

lemma applyOne_unknown: "\<not> knownChange cc \<Longrightarrow> applyOne c cc ct = Some (Inl ErrUnexpectedType)"
  by (auto simp: knownChange_def applyOne_def)

lemma applyLoop_ok:
  assumes "conf_ok cfg trk"
  shows "if list_all knownChange ccs
    then \<exists>cfg' trk'. applyLoop c ccs (cfg, trk) = Some (Inr (cfg', trk')) \<and> conf_ok cfg' trk' \<and>
      conf_view cfg' = fold viewOne ccs (conf_view cfg) \<and> cfgAutoLeave cfg' = cfgAutoLeave cfg
    else applyLoop c ccs (cfg, trk) = Some (Inl ErrUnexpectedType)"
  using assms
proof (induction ccs arbitrary: cfg trk)
  case (Cons cc ccs)
  show ?case
  proof (cases "knownChange cc")
    case True
    from applyOne_ok [OF Cons.prems True, of c] obtain cfg' trk' where
      one: "applyOne c cc (cfg, trk) = Some (Inr (cfg', trk'))" and ok: "conf_ok cfg' trk'" and
      v: "conf_view cfg' = viewOne cc (conf_view cfg)" "cfgAutoLeave cfg' = cfgAutoLeave cfg"
      by blast
    from Cons.IH [OF ok] True one v show ?thesis
      by (cases "list_all knownChange ccs") simp_all
  qed (simp add: applyOne_unknown)
qed simp

text \<open>What the changes come to, and the two errors they can end in.\<close>

lemma applyChanges_ok:
  assumes "conf_ok cfg trk" and "applyChanges c ccs (cfg, trk) = r"
  shows "(\<exists>cfg' trk'. r = Some (Inr (cfg', trk')) \<and> conf_ok cfg' trk' \<and> elems (incoming cfg') \<noteq> {} \<and>
      list_all knownChange ccs \<and> conf_view cfg' = fold viewOne ccs (conf_view cfg) \<and> cfgAutoLeave cfg' = cfgAutoLeave cfg) \<or>
    (r = Some (Inl ErrUnexpectedType) \<and> \<not> list_all knownChange ccs) \<or>
    (r = Some (Inl ErrRemovedAllVoters) \<and> fst (fold viewOne ccs (conf_view cfg)) = {})"
proof (cases "list_all knownChange ccs")
  case True
  with applyLoop_ok [OF assms(1), of ccs c] obtain cfg' trk' where
    loop: "applyLoop c ccs (cfg, trk) = Some (Inr (cfg', trk'))" and ok: "conf_ok cfg' trk'" and
    v: "conf_view cfg' = fold viewOne ccs (conf_view cfg)" and "cfgAutoLeave cfg' = cfgAutoLeave cfg"
    by auto
  moreover have "fst (conf_view cfg') = elems (incoming cfg')" by (simp add: conf_view_def)
  moreover have "r = Some (if elems (incoming cfg') = {} then Inl ErrRemovedAllVoters else Inr (cfg', trk'))"
    using assms(2) loop by (simp add: applyChanges_def)
  ultimately show ?thesis using True by (cases "elems (incoming cfg') = {}") simp_all
next
  case False
  with applyLoop_ok [OF assms(1), of ccs c] assms(2) show ?thesis
    by (auto simp: applyChanges_def)
qed

lemma viewOne_outgoing [simp]: "fst (snd (viewOne cc v)) = fst (snd v)"
  by (cases v; cases "ConfChangeSingle_GetType cc") (auto simp: viewOne_def)

lemma fold_viewOne_outgoing [simp]: "fst (snd (fold viewOne ccs v)) = fst (snd v)"
  by (induction ccs arbitrary: v) auto

section \<open>The operations\<close>

lemma checkAndCopy_ok:
  "conf_ok (trkConfig (chTracker c)) (trkProgress (chTracker c)) \<Longrightarrow>
   checkAndCopy c = Inr (Config_Clone (trkConfig (chTracker c)), trkProgress (chTracker c))"
  by (simp add: checkAndCopy_def conf_ok_clone)

lemma conf_view_clone [simp]: "conf_view (Config_Clone cfg) = conf_view cfg"
  by (simp add: conf_view_def Config_Clone_def)

abbreviation chCfg :: "Changer \<Rightarrow> Config" where
  "chCfg c \<equiv> trkConfig (chTracker c)"

abbreviation changer_ok :: "Changer \<Rightarrow> bool" where
  "changer_ok c \<equiv> conf_ok (trkConfig (chTracker c)) (trkProgress (chTracker c))"

lemma enter_joint_start:
  assumes "conf_ok cfg trk" and "\<not> joint cfg" and "elems (incoming cfg) \<noteq> {}"
  shows "conf_ok (cfg\<lparr>cfgVoters := (incoming cfg, Some (elems (incoming cfg)))\<rparr>) trk"
proof -
  have "elems (outgoing cfg) = {}" using assms(2) by (simp add: joint_iff)
  with assms(1,3) show ?thesis
    by (auto simp: conf_ok_def conf_view_def view_ok.simps nil_ok_def)
qed

lemma EnterJoint_cases:
  assumes "changer_ok c"
  shows "(\<exists>cfg trk. Changer_EnterJoint autoLeave ccs c = Some (Inr (cfg, trk)) \<and> conf_ok cfg trk \<and>
      \<not> joint (chCfg c) \<and> joint cfg \<and> elems (incoming cfg) \<noteq> {} \<and> cfgAutoLeave cfg = autoLeave \<and>
      elems (incoming (chCfg c)) \<noteq> {} \<and> list_all knownChange ccs \<and>
      elems (outgoing cfg) = elems (incoming (chCfg c)) \<and>
      conf_view cfg = fold viewOne ccs (case conf_view (chCfg c) of (I, O', L, N) \<Rightarrow> (I, I, L, N))) \<or>
    (Changer_EnterJoint autoLeave ccs c = Some (Inl ErrAlreadyJoint) \<and> joint (chCfg c)) \<or>
    (Changer_EnterJoint autoLeave ccs c = Some (Inl ErrZeroVoter) \<and> elems (incoming (chCfg c)) = {}) \<or>
    (Changer_EnterJoint autoLeave ccs c = Some (Inl ErrUnexpectedType) \<and> \<not> list_all knownChange ccs) \<or>
    (Changer_EnterJoint autoLeave ccs c = Some (Inl ErrRemovedAllVoters) \<and>
      fst (fold viewOne ccs (case conf_view (chCfg c) of (I, O', L, N) \<Rightarrow> (I, I, L, N))) = {})"
proof -
  let ?cfg = "Config_Clone (chCfg c)" and ?trk = "trkProgress (chTracker c)"
  have j: "joint ?cfg = joint (chCfg c)" and v: "cfgVoters ?cfg = cfgVoters (chCfg c)"
    by (simp_all add: joint_def Config_Clone_def)
  show ?thesis
  proof (cases "joint (chCfg c) \<or> elems (incoming (chCfg c)) = {}")
    case True
    then show ?thesis
      by (auto simp: Changer_EnterJoint_def checkAndCopy_ok [OF assms] j v)
  next
    case False
    let ?cfg1 = "?cfg\<lparr>cfgVoters := (incoming ?cfg, Some (elems (incoming ?cfg)))\<rparr>"
    have ok1: "conf_ok ?cfg1 ?trk"
      by (rule enter_joint_start) (use False conf_ok_clone [OF assms] in \<open>simp_all add: j v\<close>)
    have v1: "conf_view ?cfg1 = (case conf_view (chCfg c) of (I, O', L, N) \<Rightarrow> (I, I, L, N))"
      by (simp add: conf_view_def v Config_Clone_def)
    obtain r where r: "applyChanges c ccs (?cfg1, ?trk) = r" by blast
    have step: "Changer_EnterJoint autoLeave ccs c = Option.bind r (\<lambda>r. case r of
        Inl e \<Rightarrow> Some (Inl e)
      | Inr (cfg, trk) \<Rightarrow> Some (checkAndReturn (cfg\<lparr>cfgAutoLeave := autoLeave\<rparr>, trk)))"
      using False r by (simp add: Changer_EnterJoint_def checkAndCopy_ok [OF assms] j v Let_def)
    from applyChanges_ok [OF ok1 r] consider
        (ok) cfg' trk' where "r = Some (Inr (cfg', trk'))" "conf_ok cfg' trk'" "elems (incoming cfg') \<noteq> {}"
          "conf_view cfg' = fold viewOne ccs (conf_view ?cfg1)" "list_all knownChange ccs"
      | (bad) "r = Some (Inl ErrUnexpectedType)" "\<not> list_all knownChange ccs"
      | (none) "r = Some (Inl ErrRemovedAllVoters)" "fst (fold viewOne ccs (conf_view ?cfg1)) = {}"
      by blast
    then show ?thesis
    proof cases
      case ok
      have out: "elems (outgoing cfg') = elems (incoming (chCfg c))"
      proof -
        have "elems (outgoing cfg') = fst (snd (conf_view cfg'))" by (simp add: conf_view_def)
        also have "\<dots> = elems (incoming (chCfg c))" by (simp add: ok(4) v1) (simp add: conf_view_def)
        finally show ?thesis .
      qed
      with False ok(2) have "conf_ok (cfg'\<lparr>cfgAutoLeave := autoLeave\<rparr>) trk'"
        by (auto simp: conf_ok_def conf_view_def nil_ok_def)
      with ok out False step v1 show ?thesis
        by (auto simp: joint_iff conf_view_def)
    qed (use step v1 in simp_all)
  qed
qed

lemma Simple_cases:
  assumes "changer_ok c"
  shows "(\<exists>cfg trk. Changer_Simple ccs c = Some (Inr (cfg, trk)) \<and> conf_ok cfg trk \<and>
      \<not> joint (chCfg c) \<and> \<not> joint cfg \<and> elems (incoming cfg) \<noteq> {} \<and>
      symdiff (incoming (chCfg c)) (incoming cfg) \<le> 1 \<and>
      conf_view cfg = fold viewOne ccs (conf_view (chCfg c))) \<or>
    (Changer_Simple ccs c = Some (Inl ErrSimpleInJoint) \<and> joint (chCfg c)) \<or>
    (Changer_Simple ccs c = Some (Inl ErrUnexpectedType) \<and> \<not> list_all knownChange ccs) \<or>
    (Changer_Simple ccs c = Some (Inl ErrRemovedAllVoters) \<and>
      fst (fold viewOne ccs (conf_view (chCfg c))) = {}) \<or>
    (Changer_Simple ccs c = Some (Inl ErrManyVoters) \<and>
      1 < symdiff (incoming (chCfg c)) (Some (fst (fold viewOne ccs (conf_view (chCfg c))))))"
proof (cases "joint (chCfg c)")
  case True
  then show ?thesis
    by (simp add: Changer_Simple_def checkAndCopy_ok [OF assms] joint_def Config_Clone_def)
next
  case False
  let ?cfg = "Config_Clone (chCfg c)" and ?trk = "trkProgress (chTracker c)"
  have j: "\<not> joint ?cfg" using False by (simp add: joint_def Config_Clone_def)
  obtain r where r: "applyChanges c ccs (?cfg, ?trk) = r" by blast
  have step: "Changer_Simple ccs c = Option.bind r (\<lambda>r. case r of
      Inl e \<Rightarrow> Some (Inl e)
    | Inr (cfg, trk) \<Rightarrow> if Suc 0 < symdiff (incoming (chCfg c)) (incoming cfg) then Some (Inl ErrManyVoters)
        else Some (checkAndReturn (cfg, trk)))"
    using j r by (simp add: Changer_Simple_def checkAndCopy_ok [OF assms])
  from applyChanges_ok [OF conf_ok_clone [OF assms] r] consider
      (ok) cfg' trk' where "r = Some (Inr (cfg', trk'))" "conf_ok cfg' trk'" "elems (incoming cfg') \<noteq> {}"
        "conf_view cfg' = fold viewOne ccs (conf_view (chCfg c))"
    | (bad) "r = Some (Inl ErrUnexpectedType)" "\<not> list_all knownChange ccs"
    | (none) "r = Some (Inl ErrRemovedAllVoters)" "fst (fold viewOne ccs (conf_view (chCfg c))) = {}"
    by auto
  then show ?thesis
  proof cases
    case ok
    have "elems (outgoing cfg') = fst (snd (conf_view cfg'))" by (simp add: conf_view_def)
    also have "\<dots> = elems (outgoing (chCfg c))" by (simp add: ok(4)) (simp add: conf_view_def)
    finally have nj: "\<not> joint cfg'" using False by (simp add: joint_iff)
    have "fst (fold viewOne ccs (conf_view (chCfg c))) = elems (incoming cfg')"
      by (simp add: ok(4) [symmetric]) (simp add: conf_view_def)
    with ok nj False step show ?thesis
      by (cases "1 < symdiff (incoming (chCfg c)) (incoming cfg')") (auto simp: symdiff_def)
  qed (use step in simp_all)
qed

lemma elems_fold_nilAwareAdd: "elems (fold nilAwareAdd ns m) = set ns \<union> elems m"
  by (induction ns arbitrary: m) auto

lemma fold_nilAwareAdd_not_empty: "m \<noteq> Some {} \<Longrightarrow> fold nilAwareAdd ns m \<noteq> Some {}"
  by (induction ns arbitrary: m) auto

lemma LeaveJoint_cases:
  assumes "changer_ok c"
  shows "(\<exists>cfg trk. Changer_LeaveJoint c = Some (Inr (cfg, trk)) \<and> conf_ok cfg trk \<and>
      joint (chCfg c) \<and> \<not> joint cfg \<and> elems (incoming cfg) = elems (incoming (chCfg c)) \<and>
      conf_view cfg = (case conf_view (chCfg c) of (I, O', L, N) \<Rightarrow> (I, {}, L \<union> N, {}))) \<or>
    (Changer_LeaveJoint c = Some (Inl ErrLeaveNonJoint) \<and> \<not> joint (chCfg c))"
proof (cases "joint (chCfg c)")
  case False
  then show ?thesis
    by (simp add: Changer_LeaveJoint_def checkAndCopy_ok [OF assms] joint_def Config_Clone_def)
next
  case True
  let ?c = "chCfg c" and ?trk = "trkProgress (chTracker c)"
  let ?N = "elems (cfgLearnersNext ?c)"
  let ?L = "fold nilAwareAdd (sorted_list_of_set ?N) (cfgLearners ?c)"
  let ?cfg = "\<lparr>cfgVoters = (incoming ?c, None), cfgAutoLeave = False, cfgLearners = ?L,
      cfgLearnersNext = None\<rparr>"
  let ?gone = "{n \<in> elems (outgoing ?c). n \<notin> elems (incoming ?c) \<and> n \<notin> elems ?L}"
  define trk where "trk = (\<lambda>n. if n \<in> ?gone then None
      else if n \<in> ?N then map_option (\<lambda>pr. pr\<lparr>prIsLearner := True\<rparr>) (?trk n) else ?trk n)"
  have ok: "view_ok (conf_view ?c) ?trk" and nil: "nil_ok ?c" using assms by (simp_all add: conf_ok_def)
  have L: "elems ?L = ?N \<union> elems (cfgLearners ?c)" by (simp add: elems_fold_nilAwareAdd)
  have "\<not> (\<exists>n \<in> ?N. ?trk n = None)"
    using ok by (auto simp: conf_view_def view_ok.simps)
  moreover have "joint (Config_Clone ?c)" using True by (simp add: joint_def Config_Clone_def)
  ultimately have "Changer_LeaveJoint c = Some (checkAndReturn (?cfg, trk))"
    unfolding Changer_LeaveJoint_def checkAndCopy_ok [OF assms] trk_def
    by (auto simp: Config_Clone_def Let_def)
  moreover have "view_ok (elems (incoming ?c), {}, ?N \<union> elems (cfgLearners ?c), {}) trk"
    using ok by (auto simp: conf_view_def view_ok.simps trk_def L)
  then have "conf_ok ?cfg trk"
    using nil fold_nilAwareAdd_not_empty [of "cfgLearners ?c"]
    by (simp add: conf_ok_def conf_view_def nil_ok_def L)
  ultimately show ?thesis
    using True by (simp add: joint_iff conf_view_def L Un_commute)
qed

section \<open>Quorums across a change\<close>

text \<open>Two configurations overlap when every two deciding sets share a node.\<close>

definition overlapping :: "JointConfig \<Rightarrow> JointConfig \<Rightarrow> bool" where
  "overlapping c d \<longleftrightarrow> (\<forall>A B. joint_majority c A \<longrightarrow> joint_majority d B \<longrightarrow> A \<inter> B \<noteq> {})"

lemma majority_elems: "elems c = elems d \<Longrightarrow> majority c = majority d"
  by (auto simp: majority_def fun_eq_iff)

lemma majority_symdiff:
  assumes "symdiff c d \<le> 1" and "elems c \<noteq> {}" and "elems d \<noteq> {}"
    and "majority c A" and "majority d B"
  shows "A \<inter> B \<noteq> {}"
proof -
  let ?I = "elems c" and ?J = "elems d"
  let ?U = "?I \<union> ?J"
  have U: "card ?U = card ?I + card (?J - ?I)" "card ?U = card ?J + card (?I - ?J)"
    by (simp_all add: card_Un_disjoint [symmetric])
       (simp_all add: Un_commute)
  have "card (A \<inter> ?I) \<le> card (A \<inter> ?U)" "card (B \<inter> ?J) \<le> card (B \<inter> ?U)"
    by (auto intro!: card_mono)
  moreover have "card ?I div 2 + 1 \<le> card (A \<inter> ?I)" "card ?J div 2 + 1 \<le> card (B \<inter> ?J)"
    using assms by (auto simp: majority_def)
  moreover have "card (?I - ?J) + card (?J - ?I) \<le> 1" using assms(1) by (simp add: symdiff_def)
  ultimately have "card ?U < card (A \<inter> ?U) + card (B \<inter> ?U)"
    using U by linarith
  then show ?thesis using overlap by blast
qed

locale changer =
  fixes op :: "Changer \<Rightarrow> (confchange_error + cfgtrk) option"
  assumes op_total: "changer_ok c \<Longrightarrow> op c \<noteq> None"
    and op_ok: "changer_ok c \<Longrightarrow> op c = Some (Inr (cfg, trk)) \<Longrightarrow> conf_ok cfg trk"
    and op_overlap: "changer_ok c \<Longrightarrow> elems (incoming (chCfg c)) \<noteq> {} \<Longrightarrow>
      op c = Some (Inr (cfg, trk)) \<Longrightarrow> overlapping (cfgVoters (chCfg c)) (cfgVoters cfg)"
begin

lemma elections_share_voter:
  assumes "changer_ok c" and "elems (incoming (chCfg c)) \<noteq> {}" and "op c = Some (Inr (cfg, trk))"
    and "JointConfig_VoteResult (cfgVoters (chCfg c)) v = VoteWon"
    and "JointConfig_VoteResult (cfgVoters cfg) w = VoteWon"
  shows "\<exists>n. v n = Some True \<and> w n = Some True"
proof -
  have "voted v True \<inter> voted w True \<noteq> {}"
    using op_overlap [OF assms(1-3)] assms(4,5) by (simp add: jnt.won_iff overlapping_def)
  then show ?thesis by (auto simp: voted_def)
qed

lemma committed_acked_by_winner:
  assumes "changer_ok c" and "elems (incoming (chCfg c)) \<noteq> {}" and "op c = Some (Inr (cfg, trk))"
    and "0 < i" and "i \<le> JointConfig_CommittedIndex (cfgVoters (chCfg c)) l"
    and "JointConfig_VoteResult (cfgVoters cfg) w = VoteWon"
  shows "\<exists>n x. w n = Some True \<and> l n = Some x \<and> i \<le> x"
proof -
  have "acked_ge l i \<inter> voted w True \<noteq> {}"
    using op_overlap [OF assms(1-3)] assms(5,6)
    by (simp add: jnt.won_iff jnt.committed_iff overlapping_def)
  with assms(4) show ?thesis by (auto simp: voted_def acked_ge_def)
qed

end

interpretation simple: changer "Changer_Simple ccs" for ccs
proof
  fix c cfg trk
  assume ok: "changer_ok c"
  show "Changer_Simple ccs c \<noteq> None"
    using Simple_cases [OF ok, of ccs] by auto
  show "conf_ok cfg trk" if "Changer_Simple ccs c = Some (Inr (cfg, trk))"
    using Simple_cases [OF ok, of ccs] that by auto
  assume ne: "elems (incoming (chCfg c)) \<noteq> {}" and res: "Changer_Simple ccs c = Some (Inr (cfg, trk))"
  then have "symdiff (incoming (chCfg c)) (incoming cfg) \<le> 1" "elems (incoming cfg) \<noteq> {}"
    using Simple_cases [OF ok, of ccs] by auto
  with ne show "overlapping (cfgVoters (chCfg c)) (cfgVoters cfg)"
    using majority_symdiff by (auto simp: overlapping_def joint_majority_def)
qed

interpretation enter: changer "Changer_EnterJoint autoLeave ccs" for autoLeave ccs
proof
  fix c cfg trk
  assume ok: "changer_ok c"
  show "Changer_EnterJoint autoLeave ccs c \<noteq> None"
    using EnterJoint_cases [OF ok, of autoLeave ccs] by auto
  show "conf_ok cfg trk" if "Changer_EnterJoint autoLeave ccs c = Some (Inr (cfg, trk))"
    using EnterJoint_cases [OF ok, of autoLeave ccs] that by auto
  assume ne: "elems (incoming (chCfg c)) \<noteq> {}"
    and res: "Changer_EnterJoint autoLeave ccs c = Some (Inr (cfg, trk))"
  then have "elems (outgoing cfg) = elems (incoming (chCfg c))"
    using EnterJoint_cases [OF ok, of autoLeave ccs] by auto
  then have "majority (outgoing cfg) = majority (incoming (chCfg c))" by (rule majority_elems)
  with majority_meet [OF ne] show "overlapping (cfgVoters (chCfg c)) (cfgVoters cfg)"
    by (fastforce simp: overlapping_def joint_majority_def)
qed

interpretation leave: changer Changer_LeaveJoint
proof
  fix c cfg trk
  assume ok: "changer_ok c"
  show "Changer_LeaveJoint c \<noteq> None"
    using LeaveJoint_cases [OF ok] by auto
  show "conf_ok cfg trk" if "Changer_LeaveJoint c = Some (Inr (cfg, trk))"
    using LeaveJoint_cases [OF ok] that by auto
  assume ne: "elems (incoming (chCfg c)) \<noteq> {}" and res: "Changer_LeaveJoint c = Some (Inr (cfg, trk))"
  then have "elems (incoming cfg) = elems (incoming (chCfg c))"
    using LeaveJoint_cases [OF ok] by auto
  then have "majority (incoming cfg) = majority (incoming (chCfg c))" by (rule majority_elems)
  with majority_meet [OF ne] show "overlapping (cfgVoters (chCfg c)) (cfgVoters cfg)"
    by (fastforce simp: overlapping_def joint_majority_def)
qed

section \<open>Restoring a configuration\<close>

lemma ccSingle_get [simp]:
  "ConfChangeSingle_GetType (ccSingle t n) = t" "ConfChangeSingle_GetNodeId (ccSingle t n) = n"
  by (simp_all add: ccSingle_def getters ConfChangeSingle0_def)

lemma knownChange_ccSingle:
  "list_all knownChange (map (ccSingle ConfChangeAddNode) ns)"
  "list_all knownChange (map (ccSingle ConfChangeRemoveNode) ns)"
  "list_all knownChange (map (ccSingle ConfChangeAddLearnerNode) ns)"
  by (simp_all add: list_all_iff knownChange_def)

lemma fold_add:
  "0 \<notin> set ns \<Longrightarrow> fold viewOne (map (ccSingle ConfChangeAddNode) ns) (I, O', L, N) =
     (I \<union> set ns, O', L - set ns, N - set ns)"
  by (induction ns arbitrary: I L N) (auto simp: viewOne_def)

lemma fold_remove:
  "0 \<notin> set ns \<Longrightarrow> fold viewOne (map (ccSingle ConfChangeRemoveNode) ns) (I, O', L, N) =
     (I - set ns, O', L - set ns, N - set ns)"
  by (induction ns arbitrary: I L N) (auto simp: viewOne_def)

lemma fold_learner:
  "0 \<notin> set ns \<Longrightarrow> set ns \<inter> O' = {} \<Longrightarrow> set ns \<inter> I = {} \<Longrightarrow>
   fold viewOne (map (ccSingle ConfChangeAddLearnerNode) ns) (I, O', L, N) = (I, O', L \<union> set ns, N)"
  by (induction ns arbitrary: L) (auto simp: viewOne_def insert_absorb)

lemma fold_staged:
  "0 \<notin> set ns \<Longrightarrow> set ns \<subseteq> O' \<Longrightarrow> set ns \<inter> I = {} \<Longrightarrow> set ns \<inter> L = {} \<Longrightarrow>
   fold viewOne (map (ccSingle ConfChangeAddLearnerNode) ns) (I, O', L, N) = (I, O', L, N \<union> set ns)"
  by (induction ns arbitrary: N) (auto simp: viewOne_def)

lemma card_insert_diff:
  fixes A :: "uint64 set"
  shows "card (A - insert n A) + card (insert n A - A) \<le> Suc 0"
    and "card (A - (A - {n})) + card (A - {n} - A) \<le> Suc 0"
proof -
  have "card (insert n A - A) \<le> card {n}" and "card (A - (A - {n})) \<le> card {n}"
    by (rule card_mono, simp, blast)+
  moreover have "A - insert n A = {}" and "A - {n} - A = {}" by auto
  ultimately show "card (A - insert n A) + card (insert n A - A) \<le> Suc 0"
    and "card (A - (A - {n})) + card (A - {n} - A) \<le> Suc 0"
    by (metis One_nat_def add_0 card.empty card_1_singleton_iff,
        metis One_nat_def add_0_right card.empty card_1_singleton_iff)
qed

lemma symdiff_viewOne: "symdiff c (Some (fst (viewOne cc (elems c, v)))) \<le> 1"
proof -
  let ?I = "fst (viewOne cc (elems c, v))"
  obtain O' L N where v: "v = (O', L, N)" by (metis prod_cases3)
  have "?I = elems c \<or> (\<exists>n. ?I = insert n (elems c)) \<or> (\<exists>n. ?I = elems c - {n})"
    unfolding v by (cases "ConfChangeSingle_GetType cc") (auto simp: viewOne_def)
  then show ?thesis
    using card_insert_diff by (elim disjE exE) (simp_all add: symdiff_def)
qed

lemma Simple_one:
  assumes "changer_ok c" and "\<not> joint (chCfg c)" and "knownChange cc"
    and "fst (viewOne cc (conf_view (chCfg c))) \<noteq> {}"
  shows "\<exists>cfg trk. Changer_Simple [cc] c = Some (Inr (cfg, trk)) \<and> conf_ok cfg trk \<and> \<not> joint cfg \<and>
    conf_view cfg = viewOne cc (conf_view (chCfg c))"
proof -
  have "symdiff (incoming (chCfg c)) (Some (fst (viewOne cc (conf_view (chCfg c))))) \<le> 1"
    unfolding conf_view_def by (rule symdiff_viewOne)
  with Simple_cases [OF assms(1), of "[cc]"] assms(2-4) show ?thesis by auto
qed

lemma chain_simple:
  assumes "changer_ok chg" and "\<not> joint (chCfg chg)" and "list_all knownChange ccs"
    and "\<And>k. 0 < k \<Longrightarrow> k \<le> length ccs \<Longrightarrow> fst (fold viewOne (take k ccs) (conf_view (chCfg chg))) \<noteq> {}"
  shows "\<exists>chg'. chain chg (map (\<lambda>cc. Changer_Simple [cc]) ccs @ ops) = chain chg' ops \<and>
    changer_ok chg' \<and> \<not> joint (chCfg chg') \<and>
    conf_view (chCfg chg') = fold viewOne ccs (conf_view (chCfg chg))"
  using assms
proof (induction ccs arbitrary: chg)
  case (Cons cc ccs)
  have "fst (viewOne cc (conf_view (chCfg chg))) \<noteq> {}" using Cons.prems(4) [of 1] by simp
  then obtain cfg trk where s: "Changer_Simple [cc] chg = Some (Inr (cfg, trk))"
    and ok: "conf_ok cfg trk" "\<not> joint cfg" and v: "conf_view cfg = viewOne cc (conf_view (chCfg chg))"
    using Simple_one [OF Cons.prems(1,2), of cc] Cons.prems(3) by auto
  let ?chg = "chg\<lparr>chTracker := (chTracker chg)\<lparr>trkConfig := cfg, trkProgress := trk\<rparr>\<rparr>"
  have "fst (fold viewOne (take k ccs) (conf_view (chCfg ?chg))) \<noteq> {}"
    if "0 < k" and "k \<le> length ccs" for k
    using Cons.prems(4) [of "Suc k"] that v by simp
  with Cons.IH [of ?chg] Cons.prems(3) ok s v show ?case by simp
qed auto

lemma take_map_ccSingle: "take k (map (ccSingle t) ns) = map (ccSingle t) (take k ns)"
  by (simp add: take_map)

lemma chain_voters:
  assumes "changer_ok chg" and "conf_view (chCfg chg) = (I, {}, {}, {})" and "0 \<notin> set ns"
  shows "\<exists>chg'. chain chg (map (\<lambda>cc. Changer_Simple [cc]) (map (ccSingle ConfChangeAddNode) ns) @ ops) =
      chain chg' ops \<and> changer_ok chg' \<and> conf_view (chCfg chg') = (I \<union> set ns, {}, {}, {})"
proof -
  have nj: "\<not> joint (chCfg chg)" using assms(2) by (simp add: joint_iff conf_view_def)
  have ne: "fst (fold viewOne (take k (map (ccSingle ConfChangeAddNode) ns)) (conf_view (chCfg chg))) \<noteq> {}"
    if "0 < k" and "k \<le> length (map (ccSingle ConfChangeAddNode) ns)" for k
  proof -
    have "0 \<notin> set (take k ns)" using assms(3) by (meson in_set_takeD)
    then have "fst (fold viewOne (map (ccSingle ConfChangeAddNode) (take k ns)) (I, {}, {}, {})) = I \<union> set (take k ns)"
      by (simp add: fold_add)
    moreover have "set (take k ns) \<noteq> {}" using that by (cases ns) auto
    ultimately show ?thesis by (simp add: assms(2) take_map)
  qed
  from chain_simple [OF assms(1) nj knownChange_ccSingle(1) ne, of ops] assms(2,3)
  show ?thesis by (auto simp: fold_add)
qed

lemma chain_learners:
  assumes "changer_ok chg" and "conf_view (chCfg chg) = (I, {}, L, {})" and "0 \<notin> set ns"
    and "I \<noteq> {}" and "set ns \<inter> I = {}"
  shows "\<exists>chg'. chain chg (map (\<lambda>cc. Changer_Simple [cc]) (map (ccSingle ConfChangeAddLearnerNode) ns) @ ops) =
      chain chg' ops \<and> changer_ok chg' \<and> conf_view (chCfg chg') = (I, {}, L \<union> set ns, {})"
proof -
  have nj: "\<not> joint (chCfg chg)" using assms(2) by (simp add: joint_iff conf_view_def)
  have ne: "fst (fold viewOne (take k (map (ccSingle ConfChangeAddLearnerNode) ns)) (conf_view (chCfg chg))) \<noteq> {}"
    for k
  proof -
    have "0 \<notin> set (take k ns)" "set (take k ns) \<inter> I = {}"
      using assms(3,5) by (auto dest: in_set_takeD)
    then show ?thesis using assms(4) by (simp add: assms(2) take_map fold_learner)
  qed
  from chain_simple [OF assms(1) nj knownChange_ccSingle(3) ne, of ops] assms(2,3,5)
  show ?thesis by (auto simp: fold_learner)
qed

text \<open>The changer that \<^verbatim>\<open>Restore\<close> starts from tracks nothing.\<close>

definition emptyChanger :: "nat \<Rightarrow> uint64 \<Rightarrow> uint64 \<Rightarrow> Changer" where
  "emptyChanger maxInflight maxb lastIndex =
     \<lparr>chTracker = MakeProgressTracker maxInflight maxb, chLastIndex = lastIndex\<rparr>"

lemma emptyChanger_ok:
  "changer_ok (emptyChanger m b i)" "conf_view (chCfg (emptyChanger m b i)) = ({}, {}, {}, {})"
  by (simp_all add: emptyChanger_def MakeProgressTracker_def conf_ok_def conf_view_def view_ok.simps
      nil_ok_def)

lemma Restore_simple:
  assumes "changer_ok chg" and "conf_view (chCfg chg) = ({}, {}, {}, {})"
    and "0 \<notin> set (csVoters cs) \<union> set (csLearners cs)" and "csVoters cs \<noteq> []"
    and "csVotersOutgoing cs = []" and "csLearnersNext cs = []"
    and "set (csLearners cs) \<inter> set (csVoters cs) = {}"
  shows "\<exists>cfg trk. Restore chg cs = Some (Inr (cfg, trk)) \<and> conf_ok cfg trk \<and>
    conf_view cfg = (set (csVoters cs), {}, set (csLearners cs), {})"
proof -
  have r: "Restore chg cs = chain chg
      (map (\<lambda>cc. Changer_Simple [cc]) (map (ccSingle ConfChangeAddNode) (csVoters cs)) @
       map (\<lambda>cc. Changer_Simple [cc]) (map (ccSingle ConfChangeAddLearnerNode) (csLearners cs)) @ [])"
    by (simp add: Restore_def toConfChangeSingle_def assms(5,6))
  obtain c1 where c1: "Restore chg cs = chain c1
      (map (\<lambda>cc. Changer_Simple [cc]) (map (ccSingle ConfChangeAddLearnerNode) (csLearners cs)) @ [])"
    and ok1: "changer_ok c1" and v1: "conf_view (chCfg c1) = (set (csVoters cs), {}, {}, {})"
    using chain_voters [OF assms(1,2), of "csVoters cs"
        "map (\<lambda>cc. Changer_Simple [cc]) (map (ccSingle ConfChangeAddLearnerNode) (csLearners cs)) @ []"]
      assms(3) unfolding r by auto
  obtain c2 where "Restore chg cs = chain c2 []" "changer_ok c2"
      "conf_view (chCfg c2) = (set (csVoters cs), {}, {} \<union> set (csLearners cs), {})"
    using chain_learners [OF ok1 v1, of "csLearners cs" "[]"] assms(3,4,7) unfolding c1 by auto
  then show ?thesis by auto
qed

lemma Restore_joint:
  assumes "changer_ok chg" and "conf_view (chCfg chg) = ({}, {}, {}, {})"
    and "0 \<notin> set (csVoters cs) \<union> set (csLearners cs) \<union> set (csVotersOutgoing cs) \<union> set (csLearnersNext cs)"
    and "csVoters cs \<noteq> []" and "csVotersOutgoing cs \<noteq> []"
    and "set (csLearners cs) \<inter> (set (csVoters cs) \<union> set (csVotersOutgoing cs)) = {}"
    and "set (csLearnersNext cs) \<subseteq> set (csVotersOutgoing cs) - set (csVoters cs)"
  shows "\<exists>cfg trk. Restore chg cs = Some (Inr (cfg, trk)) \<and> conf_ok cfg trk \<and>
    cfgAutoLeave cfg = get_bool (csAutoLeave cs) \<and>
    conf_view cfg = (set (csVoters cs), set (csVotersOutgoing cs), set (csLearners cs), set (csLearnersNext cs))"
proof -
  let ?in = "snd (toConfChangeSingle cs)" and ?O = "set (csVotersOutgoing cs)"
  have r: "Restore chg cs = chain chg
      (map (\<lambda>cc. Changer_Simple [cc]) (map (ccSingle ConfChangeAddNode) (csVotersOutgoing cs)) @
       [Changer_EnterJoint (get_bool (csAutoLeave cs)) ?in])"
    using assms(5) by (simp add: Restore_def toConfChangeSingle_def)
  obtain c1 where c1: "Restore chg cs = chain c1 [Changer_EnterJoint (get_bool (csAutoLeave cs)) ?in]"
    and ok1: "changer_ok c1" and v1: "conf_view (chCfg c1) = (?O, {}, {}, {})"
    using chain_voters [OF assms(1,2), of "csVotersOutgoing cs"
        "[Changer_EnterJoint (get_bool (csAutoLeave cs)) ?in]"] assms(3) unfolding r by auto
  have known: "list_all knownChange ?in"
    using knownChange_ccSingle by (simp add: toConfChangeSingle_def)
  have O': "elems (incoming (chCfg c1)) = ?O" and nj: "\<not> joint (chCfg c1)"
    using v1 by (simp_all add: conf_view_def joint_iff)
  have f: "fold viewOne ?in (?O, ?O, {}, {}) =
      (set (csVoters cs), ?O, set (csLearners cs), set (csLearnersNext cs))"
  proof -
    have "fold viewOne (map (ccSingle ConfChangeRemoveNode) (csVotersOutgoing cs)) (?O, ?O, {}, {}) =
        ({}, ?O, {}, {})" using assms(3) by (simp add: fold_remove)
    moreover have "fold viewOne (map (ccSingle ConfChangeAddNode) (csVoters cs)) ({}, ?O, {}, {}) =
        (set (csVoters cs), ?O, {}, {})" using assms(3) by (simp add: fold_add)
    moreover have "fold viewOne (map (ccSingle ConfChangeAddLearnerNode) (csLearners cs))
        (set (csVoters cs), ?O, {}, {}) = (set (csVoters cs), ?O, {} \<union> set (csLearners cs), {})"
      by (rule fold_learner) (use assms(3,6) in auto)
    moreover have "fold viewOne (map (ccSingle ConfChangeAddLearnerNode) (csLearnersNext cs))
        (set (csVoters cs), ?O, set (csLearners cs), {}) =
        (set (csVoters cs), ?O, set (csLearners cs), {} \<union> set (csLearnersNext cs))"
      by (rule fold_staged) (use assms(3,6,7) in auto)
    ultimately show ?thesis by (simp add: toConfChangeSingle_def)
  qed
  have "\<exists>cfg trk. Changer_EnterJoint (get_bool (csAutoLeave cs)) ?in c1 = Some (Inr (cfg, trk)) \<and>
      conf_ok cfg trk \<and> cfgAutoLeave cfg = get_bool (csAutoLeave cs) \<and>
      conf_view cfg = (set (csVoters cs), ?O, set (csLearners cs), set (csLearnersNext cs))"
    using EnterJoint_cases [OF ok1, of "get_bool (csAutoLeave cs)" ?in] known nj O' assms(4,5)
    by (auto simp: v1 f)
  then show ?thesis unfolding c1 by auto
qed

text \<open>\<^verbatim>\<open>Restore\<close> of a well-formed configuration's \<^verbatim>\<open>ConfState\<close> gives the configuration back.\<close>

lemma Restore_ConfState:
  assumes "conf_ok (trkConfig p) (trkProgress p)" and "elems (incoming (trkConfig p)) \<noteq> {}"
  shows "\<exists>trk. Restore (emptyChanger m b i) (ProgressTracker_ConfState p) = Some (Inr (trkConfig p, trk)) \<and>
    conf_ok (trkConfig p) trk"
proof -
  let ?cs = "ProgressTracker_ConfState p" and ?cfg = "trkConfig p"
  have ok: "view_ok (conf_view ?cfg) (trkProgress p)" and nil: "nil_ok ?cfg"
    using assms(1) by (simp_all add: conf_ok_def)
  have cs: "set (csVoters ?cs) = elems (incoming ?cfg)" "set (csVotersOutgoing ?cs) = elems (outgoing ?cfg)"
    "set (csLearners ?cs) = elems (cfgLearners ?cfg)"
    "set (csLearnersNext ?cs) = elems (cfgLearnersNext ?cfg)"
    "get_bool (csAutoLeave ?cs) = cfgAutoLeave ?cfg"
    by (simp_all add: ProgressTracker_ConfState_def ConfState0_def)
  have zero: "0 \<notin> elems (incoming ?cfg) \<union> elems (cfgLearners ?cfg) \<union> elems (outgoing ?cfg) \<union>
      elems (cfgLearnersNext ?cfg)"
    and disj: "elems (cfgLearners ?cfg) \<inter> (elems (incoming ?cfg) \<union> elems (outgoing ?cfg)) = {}"
    and staged: "elems (cfgLearnersNext ?cfg) \<subseteq> elems (outgoing ?cfg) - elems (incoming ?cfg)"
    using ok by (auto simp: conf_view_def view_ok.simps)
  have ne: "csVoters ?cs \<noteq> []" using assms(2) cs(1) by auto
  have "\<exists>cfg trk. Restore (emptyChanger m b i) ?cs = Some (Inr (cfg, trk)) \<and> conf_ok cfg trk \<and>
      conf_view cfg = conf_view ?cfg \<and> cfgAutoLeave cfg = cfgAutoLeave ?cfg"
  proof (cases "elems (outgoing ?cfg) = {}")
    case True
    then have out: "csVotersOutgoing ?cs = []" "csLearnersNext ?cs = []" "elems (cfgLearnersNext ?cfg) = {}"
      using cs staged by auto
    from Restore_simple [OF emptyChanger_ok _ ne out(1,2), of m b i] zero disj
    obtain cfg trk where "Restore (emptyChanger m b i) ?cs = Some (Inr (cfg, trk))" "conf_ok cfg trk"
        "conf_view cfg = (elems (incoming ?cfg), {}, elems (cfgLearners ?cfg), {})"
      unfolding cs by auto
    moreover from this have "\<not> cfgAutoLeave cfg"
      by (auto simp: conf_ok_def nil_ok_def conf_view_def elems_empty_iff)
    moreover have "\<not> cfgAutoLeave ?cfg" using nil True by (auto simp: nil_ok_def elems_empty_iff)
    ultimately show ?thesis using True out by (auto simp: conf_view_def)
  next
    case False
    then have "csVotersOutgoing ?cs \<noteq> []" using cs(2) by auto
    from Restore_joint [OF emptyChanger_ok _ ne this, of m b i] zero disj staged
    show ?thesis unfolding cs by (auto simp: conf_view_def)
  qed
  then show ?thesis
    using nil_ok_unique [OF _ nil] by (metis conf_ok_def)
qed

section \<open>Properties\<close>

definition demoChanger :: Changer where
  "demoChanger = \<lparr>chTracker = (MakeProgressTracker 4 0)
     \<lparr>trkConfig := \<lparr>cfgVoters = (Some {1, 2, 3}, None), cfgAutoLeave = False, cfgLearners = Some {4},
        cfgLearnersNext = None\<rparr>,
      trkProgress := (\<lambda>n. if n \<in> {1, 2, 3, 4} then Some (demoProgress\<lparr>prIsLearner := n = 4\<rparr>) else None)\<rparr>,
     chLastIndex = 9\<rparr>"

lemma demoChanger_ok: "changer_ok demoChanger"
proof -
  have "progress_inv demoProgress"
    using inflights_new [of 4 0] by (simp add: progress_inv_def demoProgress_def)
  then show ?thesis
    by (auto simp: demoChanger_def conf_ok_def conf_view_def view_ok.simps nil_ok_def)
qed

text \<open>
  C16. A configuration change never panics on a well-formed configuration, and what it
  returns is well-formed again. It is refused only for the documented reasons: the check of
  the invariants that every operation makes on its own result never fails.
\<close>

theorem conf_changes_keep_invariant:
  assumes "changer_ok c"
    and "op \<in> {Changer_Simple ccs, Changer_EnterJoint autoLeave ccs, Changer_LeaveJoint}"
  shows "\<exists>r. op c = Some r \<and>
    (\<forall>cfg trk. r = Inr (cfg, trk) \<longrightarrow> conf_ok cfg trk \<and> checkInvariants cfg trk = None) \<and>
    (\<forall>e. r = Inl e \<longrightarrow> e \<in> {ErrAlreadyJoint, ErrZeroVoter, ErrLeaveNonJoint, ErrSimpleInJoint,
       ErrManyVoters, ErrUnexpectedType, ErrRemovedAllVoters})"
proof -
  from assms(2) consider "op = Changer_Simple ccs" | "op = Changer_EnterJoint autoLeave ccs"
    | "op = Changer_LeaveJoint" by auto
  then show ?thesis
  proof cases
    case 1
    from Simple_cases [OF assms(1), of ccs] show ?thesis
      unfolding 1 by (elim disjE exE conjE) (simp_all add: conf_ok_check)
  next
    case 2
    from EnterJoint_cases [OF assms(1), of autoLeave ccs] show ?thesis
      unfolding 2 by (elim disjE exE conjE) (simp_all add: conf_ok_check)
  next
    case 3
    from LeaveJoint_cases [OF assms(1)] show ?thesis
      unfolding 3 by (elim disjE exE conjE) (simp_all add: conf_ok_check)
  qed
qed

theorem conf_changes_keep_invariant_witness:
  "\<exists>r. Changer_EnterJoint True [ccSingle ConfChangeAddLearnerNode 3] demoChanger = Some r \<and>
     (\<forall>cfg trk. r = Inr (cfg, trk) \<longrightarrow> conf_ok cfg trk \<and> checkInvariants cfg trk = None) \<and>
     (\<forall>e. r = Inl e \<longrightarrow> e \<in> {ErrAlreadyJoint, ErrZeroVoter, ErrLeaveNonJoint, ErrSimpleInJoint,
        ErrManyVoters, ErrUnexpectedType, ErrRemovedAllVoters})"
  by (rule conf_changes_keep_invariant [OF demoChanger_ok,
      where autoLeave = True and ccs = "[ccSingle ConfChangeAddLearnerNode 3]"]) simp

text \<open>
  C15. Across any configuration change, an election won in the old configuration and one won
  in the new configuration have a voter in common, so two leaders of one term are excluded;
  and whoever wins in the new configuration has the vote of a node that acknowledged any
  index committed in the old one. The old configuration has a voter.
\<close>

theorem conf_change_quorums_overlap:
  assumes "changer_ok c" and "elems (incoming (trkConfig (chTracker c))) \<noteq> {}"
    and "op \<in> {Changer_Simple ccs, Changer_EnterJoint autoLeave ccs, Changer_LeaveJoint}"
    and "op c = Some (Inr (cfg, trk))"
    and "JointConfig_VoteResult (cfgVoters cfg) w = VoteWon"
  shows "(JointConfig_VoteResult (cfgVoters (trkConfig (chTracker c))) v = VoteWon \<longrightarrow>
      (\<exists>n. v n = Some True \<and> w n = Some True)) \<and>
    (0 < i \<and> i \<le> JointConfig_CommittedIndex (cfgVoters (trkConfig (chTracker c))) l \<longrightarrow>
      (\<exists>n x. w n = Some True \<and> l n = Some x \<and> i \<le> x))"
proof -
  have op: "changer op"
    using assms(3) simple.changer_axioms enter.changer_axioms leave.changer_axioms by auto
  show ?thesis
    using changer.elections_share_voter [OF op assms(1,2,4), of v w]
      changer.committed_acked_by_winner [OF op assms(1,2,4), of i l w] assms(5) by simp
qed

lemma demo_simple:
  "\<exists>cfg trk. Changer_Simple [ccSingle ConfChangeAddNode 5] demoChanger = Some (Inr (cfg, trk)) \<and>
     JointConfig_VoteResult (cfgVoters cfg) [1 \<mapsto> True, 2 \<mapsto> True, 5 \<mapsto> True] = VoteWon"
proof -
  have v: "conf_view (chCfg demoChanger) = ({1, 2, 3}, {}, {4}, {})"
    by (simp add: demoChanger_def conf_view_def)
  have nj: "\<not> joint (chCfg demoChanger)" by (simp add: demoChanger_def joint_iff)
  obtain cfg trk where s: "Changer_Simple [ccSingle ConfChangeAddNode 5] demoChanger = Some (Inr (cfg, trk))"
    and c: "conf_view cfg = ({1, 2, 3, 5}, {}, {4}, {})"
    using Simple_one [OF demoChanger_ok nj, of "ccSingle ConfChangeAddNode 5"]
    by (auto simp: v viewOne_def knownChange_def insert_commute)
  then have "elems (incoming cfg) = {1, 2, 3, 5}" "elems (outgoing cfg) = {}" by (simp_all add: conf_view_def)
  moreover have "voted [1 :: uint64 \<mapsto> True, 2 \<mapsto> True, 5 \<mapsto> True] True = {1, 2, 5}"
    by (auto simp: voted_def)
  ultimately have "joint_majority (cfgVoters cfg) (voted [1 \<mapsto> True, 2 \<mapsto> True, 5 \<mapsto> True] True)"
    by (simp add: joint_majority_def majority_def)
  with s show ?thesis by (simp add: jnt.won_iff)
qed

theorem conf_change_quorums_overlap_witness:
  "\<exists>n. [1 \<mapsto> True, 3 \<mapsto> True] n = Some True \<and> [1 :: uint64 \<mapsto> True, 2 \<mapsto> True, 5 \<mapsto> True] n = Some True"
proof -
  obtain cfg trk where s: "Changer_Simple [ccSingle ConfChangeAddNode 5] demoChanger = Some (Inr (cfg, trk))"
    and w: "JointConfig_VoteResult (cfgVoters cfg) [1 \<mapsto> True, 2 \<mapsto> True, 5 \<mapsto> True] = VoteWon"
    using demo_simple by blast
  have "elems (incoming (chCfg demoChanger)) \<noteq> {}" by (simp add: demoChanger_def)
  moreover have "JointConfig_VoteResult (cfgVoters (chCfg demoChanger)) [1 \<mapsto> True, 3 \<mapsto> True] = VoteWon"
    by (simp add: demoChanger_def JointConfig_VoteResult_def MajorityConfig_VoteResult_def VoteResultOver_def
        MajorityConfig_Slice_def)
  ultimately show ?thesis
    using conf_change_quorums_overlap [where op = "Changer_Simple [ccSingle ConfChangeAddNode 5]" and
        v = "[1 \<mapsto> True, 3 \<mapsto> True]", OF demoChanger_ok _ _ s w] by simp
qed

text \<open>
  What the changes ask for, told without the configuration's sets: a node has one role, a
  voter, a learner or none, and a change gives its node the role it names. The last change of
  a node decides. A change of node 0 asks for nothing.
\<close>

datatype conf_role = NoRole | LearnerRole | VoterRole

definition askedRole :: "uint64 \<Rightarrow> ConfChangeSingle \<Rightarrow> conf_role \<Rightarrow> conf_role" where
  "askedRole n cc role =
     (if n = 0 \<or> ConfChangeSingle_GetNodeId cc \<noteq> n then role
      else case ConfChangeSingle_GetType cc of
          ConfChangeAddNode \<Rightarrow> VoterRole
        | ConfChangeAddLearnerNode \<Rightarrow> LearnerRole
        | ConfChangeRemoveNode \<Rightarrow> NoRole
        | _ \<Rightarrow> role)"

definition roleIn :: "Config \<Rightarrow> uint64 \<Rightarrow> conf_role" where
  "roleIn cfg n =
     (if n \<in> elems (incoming cfg) then VoterRole
      else if n \<in> elems (cfgLearners cfg) \<union> elems (cfgLearnersNext cfg) then LearnerRole
      else NoRole)"

fun view_role :: "uint64 \<Rightarrow> conf_view \<Rightarrow> conf_role" where
  "view_role n (I, O', L, N) =
     (if n \<in> I then VoterRole else if n \<in> L \<union> N then LearnerRole else NoRole)"

fun view_disjoint :: "conf_view \<Rightarrow> bool" where
  "view_disjoint (I, O', L, N) \<longleftrightarrow> I \<inter> L = {} \<and> I \<inter> N = {}"

lemma view_role_conf [simp]: "view_role n (conf_view cfg) = roleIn cfg n"
  by (simp add: conf_view_def roleIn_def)

lemma viewOne_role:
  assumes "view_disjoint v"
  shows "view_disjoint (viewOne cc v) \<and> view_role n (viewOne cc v) = askedRole n cc (view_role n v)"
  using assms
  by (cases v; cases "ConfChangeSingle_GetType cc") (auto simp: viewOne_def askedRole_def)

lemma fold_viewOne_role:
  "view_disjoint v \<Longrightarrow> view_role n (fold viewOne ccs v) = fold (askedRole n) ccs (view_role n v)"
  by (induction ccs arbitrary: v) (simp_all add: viewOne_role)

lemma view_role_voter: "view_role n v = VoterRole \<longleftrightarrow> n \<in> fst v"
  by (cases v) simp

lemma joint_start_role:
  assumes "conf_ok cfg trk"
  shows "view_disjoint (case conf_view cfg of (I, O', L, N) \<Rightarrow> (I, I, L, N))"
    and "view_role n (case conf_view cfg of (I, O', L, N) \<Rightarrow> (I, I, L, N)) = roleIn cfg n"
  using assms by (auto simp: conf_ok_def conf_view_def view_ok.simps roleIn_def)

text \<open>
  C36. Entering a joint configuration succeeds exactly when the configuration is not joint yet
  and has a voter, every change is of a known type, and the changes leave some node a voter.
  Then the old voters decide together with the new ones, and leaving the joint configuration
  succeeds and carries out the changes: every node ends with the role that the last change of
  it names, and a node no change names keeps the role it had. Nothing is staged any more, the
  new voters decide alone, and the members and no other node are tracked.
\<close>

theorem joint_round:
  assumes "changer_ok c"
  shows "((\<exists>cfg trk. Changer_EnterJoint autoLeave ccs c = Some (Inr (cfg, trk))) \<longleftrightarrow>
      \<not> joint (trkConfig (chTracker c)) \<and> elems (incoming (trkConfig (chTracker c))) \<noteq> {} \<and>
      list_all knownChange ccs \<and>
      (\<exists>n. fold (askedRole n) ccs (roleIn (trkConfig (chTracker c)) n) = VoterRole)) \<and>
    (\<forall>cfg trk. Changer_EnterJoint autoLeave ccs c = Some (Inr (cfg, trk)) \<longrightarrow>
      elems (outgoing cfg) = elems (incoming (trkConfig (chTracker c))) \<and>
      cfgAutoLeave cfg = autoLeave \<and>
      (\<forall>n. roleIn cfg n = fold (askedRole n) ccs (roleIn (trkConfig (chTracker c)) n)) \<and>
      (\<exists>cfg' trk'. Changer_LeaveJoint
          (c\<lparr>chTracker := (chTracker c)\<lparr>trkConfig := cfg, trkProgress := trk\<rparr>\<rparr>) =
          Some (Inr (cfg', trk')) \<and>
        (\<forall>n. roleIn cfg' n = fold (askedRole n) ccs (roleIn (trkConfig (chTracker c)) n)) \<and>
        outgoing cfg' = None \<and> cfgLearnersNext cfg' = None \<and> \<not> cfgAutoLeave cfg' \<and>
        dom trk' = {n. roleIn cfg' n \<noteq> NoRole}))"
proof (intro conjI allI impI)
  define w where "w = fold viewOne ccs (case conf_view (chCfg c) of (I, O', L, N) \<Rightarrow> (I, I, L, N))"
  note cases = EnterJoint_cases [OF assms, of autoLeave ccs, folded w_def]
  have role: "view_role n w = fold (askedRole n) ccs (roleIn (chCfg c) n)" for n
    by (simp only: w_def fold_viewOne_role [OF joint_start_role(1) [OF assms]]
        joint_start_role(2) [OF assms])
  hence voters: "fst w =
      {n. fold (askedRole n) ccs (roleIn (chCfg c) n) = VoterRole}"
    by (auto simp: view_role_voter [symmetric])
  show "(\<exists>cfg trk. Changer_EnterJoint autoLeave ccs c = Some (Inr (cfg, trk))) \<longleftrightarrow>
      \<not> joint (chCfg c) \<and> elems (incoming (chCfg c)) \<noteq> {} \<and> list_all knownChange ccs \<and>
      (\<exists>n. fold (askedRole n) ccs (roleIn (chCfg c) n) = VoterRole)"
  proof
    assume "\<exists>cfg trk. Changer_EnterJoint autoLeave ccs c = Some (Inr (cfg, trk))"
    then obtain cfg where "\<not> joint (chCfg c)" "elems (incoming (chCfg c)) \<noteq> {}"
      "list_all knownChange ccs" "elems (incoming cfg) \<noteq> {}"
      and v: "conf_view cfg = w"
      using cases by auto
    moreover from v have "elems (incoming cfg) = fst w"
      by (metis conf_view_def fst_conv)
    ultimately show "\<not> joint (chCfg c) \<and> elems (incoming (chCfg c)) \<noteq> {} \<and>
        list_all knownChange ccs \<and> (\<exists>n. fold (askedRole n) ccs (roleIn (chCfg c) n) = VoterRole)"
      using voters by auto
  qed (use cases voters in blast)
  fix cfg trk
  assume enter: "Changer_EnterJoint autoLeave ccs c = Some (Inr (cfg, trk))"
  have "conf_ok cfg trk \<and> joint cfg \<and> cfgAutoLeave cfg = autoLeave \<and>
      elems (outgoing cfg) = elems (incoming (chCfg c)) \<and> conf_view cfg = w"
    using cases enter by auto
  then have ok: "conf_ok cfg trk" and j: "joint cfg" and auto: "cfgAutoLeave cfg = autoLeave"
    and out: "elems (outgoing cfg) = elems (incoming (chCfg c))" and v: "conf_view cfg = w"
    by blast+
  from v role have roles: "roleIn cfg n = fold (askedRole n) ccs (roleIn (chCfg c) n)" for n
    by (metis view_role_conf)
  show "elems (outgoing cfg) = elems (incoming (chCfg c))" by (rule out)
  show "cfgAutoLeave cfg = autoLeave" by (rule auto)
  show "roleIn cfg n = fold (askedRole n) ccs (roleIn (chCfg c) n)" for n by (rule roles)
  let ?c' = "c\<lparr>chTracker := (chTracker c)\<lparr>trkConfig := cfg, trkProgress := trk\<rparr>\<rparr>"
  have "changer_ok ?c'" and cfg: "chCfg ?c' = cfg" using ok by simp_all
  from LeaveJoint_cases [OF this(1)] j obtain cfg' trk' where
    leave: "Changer_LeaveJoint ?c' = Some (Inr (cfg', trk'))" and ok': "conf_ok cfg' trk'" and
    v': "conf_view cfg' = (case conf_view cfg of (I, O', L, N) \<Rightarrow> (I, {}, L \<union> N, {}))"
    unfolding cfg by auto
  from v' have e: "elems (outgoing cfg') = {}" "elems (cfgLearnersNext cfg') = {}"
    and same: "roleIn cfg' n = roleIn cfg n" for n
    by (simp_all add: conf_view_def roleIn_def)
  from e ok' have "outgoing cfg' = None" "cfgLearnersNext cfg' = None" "\<not> cfgAutoLeave cfg'"
    by (auto simp: conf_ok_def nil_ok_def elems_empty_iff)
  moreover have "dom trk' = {n. roleIn cfg' n \<noteq> NoRole}"
    using conf_ok_dom [OF ok'] e by (auto simp: roleIn_def)
  ultimately show "\<exists>cfg' trk'. Changer_LeaveJoint ?c' = Some (Inr (cfg', trk')) \<and>
      (\<forall>n. roleIn cfg' n = fold (askedRole n) ccs (roleIn (chCfg c) n)) \<and>
      outgoing cfg' = None \<and> cfgLearnersNext cfg' = None \<and> \<not> cfgAutoLeave cfg' \<and>
      dom trk' = {n. roleIn cfg' n \<noteq> NoRole}"
    using leave same roles by auto
qed

text \<open>Three voters and a learner: node 3 is made a learner, node 4 a voter, node 2 is removed.\<close>

theorem joint_round_witness:
  "\<exists>cfg trk cfg' trk'. Changer_EnterJoint True [ccSingle ConfChangeAddLearnerNode 3,
       ccSingle ConfChangeAddNode 4, ccSingle ConfChangeRemoveNode 2] demoChanger =
       Some (Inr (cfg, trk)) \<and> elems (outgoing cfg) = {1, 2, 3} \<and>
     Changer_LeaveJoint (demoChanger\<lparr>chTracker := (chTracker demoChanger)\<lparr>trkConfig := cfg, trkProgress := trk\<rparr>\<rparr>) =
       Some (Inr (cfg', trk')) \<and> roleIn cfg' 1 = VoterRole \<and> roleIn cfg' 2 = NoRole \<and>
     roleIn cfg' 3 = LearnerRole \<and> roleIn cfg' 4 = VoterRole \<and> roleIn cfg' 5 = NoRole"
proof -
  let ?ccs = "[ccSingle ConfChangeAddLearnerNode 3, ccSingle ConfChangeAddNode 4,
    ccSingle ConfChangeRemoveNode 2]"
  have cfg: "elems (incoming (chCfg demoChanger)) = {1, 2, 3}" "\<not> joint (chCfg demoChanger)"
    "elems (cfgLearners (chCfg demoChanger)) = {4}" "elems (cfgLearnersNext (chCfg demoChanger)) = {}"
    by (simp_all add: demoChanger_def joint_iff)
  have known: "list_all knownChange ?ccs" by (simp add: knownChange_def)
  have asked: "fold (askedRole n) ?ccs r = (if n = 3 then LearnerRole else if n = 4 then VoterRole
      else if n = 2 then NoRole else r)" for n r
    by (simp add: askedRole_def)
  note round = joint_round [OF demoChanger_ok, of True ?ccs, unfolded asked]
  have "\<exists>n. (if n = 3 then LearnerRole else if n = 4 then VoterRole
      else if n = 2 then NoRole else roleIn (chCfg demoChanger) n) = VoterRole"
    by (rule exI [of _ 4]) simp
  with round known cfg obtain cfg trk where
    e: "Changer_EnterJoint True ?ccs demoChanger = Some (Inr (cfg, trk))" by blast
  with round have "elems (outgoing cfg) = {1, 2, 3}" using cfg by simp
  moreover from round e obtain cfg' trk' where
    "Changer_LeaveJoint (demoChanger\<lparr>chTracker := (chTracker demoChanger)\<lparr>trkConfig := cfg, trkProgress := trk\<rparr>\<rparr>) =
       Some (Inr (cfg', trk'))"
    and r: "\<forall>n. roleIn cfg' n = (if n = 3 then LearnerRole else if n = 4 then VoterRole
      else if n = 2 then NoRole else roleIn (chCfg demoChanger) n)" by blast
  moreover from r have "roleIn cfg' 1 = VoterRole" "roleIn cfg' 2 = NoRole"
    "roleIn cfg' 3 = LearnerRole" "roleIn cfg' 4 = VoterRole" "roleIn cfg' 5 = NoRole"
    using cfg by (simp_all add: roleIn_def)
  ultimately show ?thesis using e by blast
qed

text \<open>
  C17. A configuration is restored from the \<^verbatim>\<open>ConfState\<close> that describes it, joint or not: an
  empty changer given the state of a well-formed configuration with a voter ends in that very
  configuration, with the same nodes tracked.
\<close>

theorem restore_conf_state:
  assumes "conf_ok (trkConfig p) (trkProgress p)" and "elems (incoming (trkConfig p)) \<noteq> {}"
  shows "\<exists>trk. Restore (emptyChanger maxInflight maxBytes lastIndex) (ProgressTracker_ConfState p) =
      Some (Inr (trkConfig p, trk)) \<and> dom trk = dom (trkProgress p)"
proof -
  obtain trk where r: "Restore (emptyChanger maxInflight maxBytes lastIndex) (ProgressTracker_ConfState p) =
      Some (Inr (trkConfig p, trk))" and ok: "conf_ok (trkConfig p) trk"
    using Restore_ConfState [OF assms] by blast
  have "dom trk = dom (trkProgress p)"
    using conf_ok_dom ok assms(1) by metis
  with r show ?thesis by blast
qed

theorem restore_conf_state_witness:
  "\<exists>trk. Restore (emptyChanger 4 0 9) (ProgressTracker_ConfState (chTracker demoChanger)) =
      Some (Inr (trkConfig (chTracker demoChanger), trk)) \<and> dom trk = dom (trkProgress (chTracker demoChanger))"
  by (rule restore_conf_state [OF demoChanger_ok]) (simp add: demoChanger_def)

end
