(* ===== verification/RaftUtil.thy ===== *)
theory RaftUtil
  imports Codec
begin

text \<open>
  The helpers of package \<^verbatim>\<open>raft\<close> that the log and the node share: the classification of
  message types and the size accounting of entries (src/raftsubject/raft/util.go), and the
  entry identifiers and log slices of src/raftsubject/raft/types.go. The second half gives
  \<open>contig\<close>, the shape of every run of entries in a log, and what cutting such a run does.
\<close>

section \<open>Identifiers of nodes and local threads (raft.go)\<close>

definition None_id :: uint64 where "None_id = 0"
definition LocalAppendThread :: uint64 where "LocalAppendThread = MaxUint64"
definition LocalApplyThread :: uint64 where "LocalApplyThread = MaxUint64 - 1"
definition noLimit :: uint64 where "noLimit = MaxUint64"

section \<open>Message types (util.go)\<close>

text \<open>The arrays end with their highest index given: \<^verbatim>\<open>MsgStorageApplyResp\<close>, 22.\<close>

definition isLocalMsg :: "bool list" where
  "isLocalMsg = map (\<lambda>t. t \<in> {MsgHup, MsgBeat, MsgUnreachable, MsgSnapStatus, MsgCheckQuorum,
     MsgStorageAppend, MsgStorageAppendResp, MsgStorageApply, MsgStorageApplyResp})
     (take 23 MessageType_names)"

definition isResponseMsg :: "bool list" where
  "isResponseMsg = map (\<lambda>t. t \<in> {MsgAppResp, MsgVoteResp, MsgHeartbeatResp, MsgUnreachable,
     MsgReadIndexResp, MsgPreVoteResp, MsgStorageAppendResp, MsgStorageApplyResp})
     (take 23 MessageType_names)"

text \<open>\<^verbatim>\<open>int(msgt)\<close> is signed: a negative type passes the comparison and the index panics.\<close>

definition isMsgInArray :: "MessageType \<Rightarrow> bool list \<Rightarrow> bool option" where
  "isMsgInArray msgt arr =
     (let i = sint (MessageType_num msgt)
      in if i < int (length arr) then (if i < 0 then None else Some (arr ! nat i)) else Some False)"

definition IsLocalMsg :: "MessageType \<Rightarrow> bool option" where
  "IsLocalMsg msgt = isMsgInArray msgt isLocalMsg"

definition IsResponseMsg :: "MessageType \<Rightarrow> bool option" where
  "IsResponseMsg msgt = isMsgInArray msgt isResponseMsg"

definition IsLocalMsgTarget :: "uint64 \<Rightarrow> bool" where
  "IsLocalMsgTarget x \<longleftrightarrow> x = LocalAppendThread \<or> x = LocalApplyThread"

fun voteRespMsgType :: "MessageType \<Rightarrow> MessageType option" where
  "voteRespMsgType MsgVote = Some MsgVoteResp"
| "voteRespMsgType MsgPreVote = Some MsgPreVoteResp"
| "voteRespMsgType _ = None"

section \<open>Sizes of entries (util.go)\<close>

text \<open>\<^verbatim>\<open>entryEncodingSize(proto.Size(ent))\<close>.\<close>

definition encSize :: "Entry \<Rightarrow> uint64" where
  "encSize e = of_int (Entry_SizeMessage e)"

fun entsSizeFrom :: "uint64 \<Rightarrow> Entry list \<Rightarrow> uint64" where
  "entsSizeFrom siz [] = siz"
| "entsSizeFrom siz (e # es) = entsSizeFrom (siz + encSize e) es"

definition entsSize :: "Entry list \<Rightarrow> uint64" where
  "entsSize ents = entsSizeFrom 0 ents"

text \<open>The loop of \<^verbatim>\<open>limitSize\<close> over the entries after the first.\<close>

fun limitFrom :: "uint64 \<Rightarrow> uint64 \<Rightarrow> Entry list \<Rightarrow> Entry list" where
  "limitFrom maxSize siz [] = []"
| "limitFrom maxSize siz (e # es) =
     (let siz = siz + encSize e in if maxSize < siz then [] else e # limitFrom maxSize siz es)"

definition limitSize :: "Entry list \<Rightarrow> uint64 \<Rightarrow> Entry list" where
  "limitSize ents maxSize =
     (case ents of [] \<Rightarrow> [] | e # es \<Rightarrow> e # limitFrom maxSize (encSize e) es)"

definition payloadSize :: "Entry \<Rightarrow> uint64" where
  "payloadSize e = len64 (Entry_GetData e)"

fun payloadsSizeFrom :: "uint64 \<Rightarrow> Entry list \<Rightarrow> uint64" where
  "payloadsSizeFrom s [] = s"
| "payloadsSizeFrom s (e # es) = payloadsSizeFrom (s + payloadSize e) es"

definition payloadsSize :: "Entry list \<Rightarrow> uint64" where
  "payloadsSize ents = payloadsSizeFrom 0 ents"

definition assertConfStatesEquivalent :: "ConfState option \<Rightarrow> ConfState option \<Rightarrow> unit option" where
  "assertConfStatesEquivalent cs1 cs2 =
     (case ConfState_Equivalent cs1 cs2 of
        None \<Rightarrow> None | Some None \<Rightarrow> Some () | Some (Some e) \<Rightarrow> None)"

text \<open>\<^verbatim>\<open>extend\<close> differs from \<^verbatim>\<open>append\<close> in the memory it allocates only.\<close>

definition extendEnts :: "Entry list \<Rightarrow> Entry list \<Rightarrow> Entry list" where
  "extendEnts dst vals = dst @ vals"

section \<open>Entry identifiers and log slices (types.go)\<close>

record entryID =
  idTerm :: uint64
  idIndex :: uint64

definition pbEntryID :: "Entry \<Rightarrow> entryID" where
  "pbEntryID e = \<lparr>idTerm = Entry_GetTerm e, idIndex = Entry_GetIndex e\<rparr>"

record logSlice =
  lsTerm :: uint64
  lsPrev :: entryID
  lsEntries :: "Entry list"

definition logSlice_lastIndex :: "logSlice \<Rightarrow> uint64" where
  "logSlice_lastIndex s = idIndex (lsPrev s) + len64 (lsEntries s)"

definition logSlice_lastEntryID :: "logSlice \<Rightarrow> entryID" where
  "logSlice_lastEntryID s =
     (if lsEntries s = [] then lsPrev s else pbEntryID (last (lsEntries s)))"

fun validFrom :: "uint64 \<Rightarrow> entryID \<Rightarrow> Entry list \<Rightarrow> bool" where
  "validFrom t prev [] = (\<not> t < idTerm prev)"
| "validFrom t prev (e # es) =
     (if idTerm (pbEntryID e) < idTerm prev \<or> idIndex (pbEntryID e) \<noteq> idIndex prev + 1 then False
      else validFrom t (pbEntryID e) es)"

definition logSlice_valid :: "logSlice \<Rightarrow> bool" where
  "logSlice_valid s = validFrom (lsTerm s) (lsPrev s) (lsEntries s)"

section \<open>Facts on sizes\<close>

lemma isLocalMsg_list: "isLocalMsg = [True, True, False, False, False, False, False, False, False,
    False, True, True, True, False, False, False, False, False, False, True, True, True, True]"
  by (simp add: isLocalMsg_def MessageType_names_def)

lemma isResponseMsg_list: "isResponseMsg = [False, False, False, False, True, False, True, False, False,
    True, True, False, False, False, False, False, True, False, True, False, True, False, True]"
  by (simp add: isResponseMsg_def MessageType_names_def)

lemma IsLocalMsg_named:
  "msgt \<notin> range MsgOther \<Longrightarrow> IsLocalMsg msgt = Some (msgt \<in> {MsgHup, MsgBeat, MsgUnreachable,
     MsgSnapStatus, MsgCheckQuorum, MsgStorageAppend, MsgStorageAppendResp, MsgStorageApply,
     MsgStorageApplyResp})"
  by (cases msgt) (simp_all add: IsLocalMsg_def isMsgInArray_def isLocalMsg_list)

lemma IsResponseMsg_named:
  "msgt \<notin> range MsgOther \<Longrightarrow> IsResponseMsg msgt = Some (msgt \<in> {MsgAppResp, MsgVoteResp,
     MsgHeartbeatResp, MsgUnreachable, MsgReadIndexResp, MsgPreVoteResp, MsgStorageAppendResp,
     MsgStorageApplyResp})"
  by (cases msgt) (simp_all add: IsResponseMsg_def isMsgInArray_def isResponseMsg_list)

lemma entsSizeFrom_eq: "entsSizeFrom s es = s + sum_list (map encSize es)"
  by (induction es arbitrary: s) (simp_all add: add.assoc)

lemma entsSize_eq: "entsSize es = sum_list (map encSize es)"
  by (simp add: entsSize_def entsSizeFrom_eq)

lemma entsSize_append: "entsSize (xs @ ys) = entsSize xs + entsSize ys"
  by (simp add: entsSize_eq)

lemma payloadsSizeFrom_eq: "payloadsSizeFrom s es = s + sum_list (map payloadSize es)"
  by (induction es arbitrary: s) (simp_all add: add.assoc)

text \<open>The exact size of an entry and of a list, which the machine sums equal while they fit 64 bits.\<close>

definition esize :: "Entry \<Rightarrow> nat" where
  "esize e = nat (Entry_SizeMessage e)"

definition total :: "Entry list \<Rightarrow> nat" where
  "total es = sum_list (map esize es)"

lemma size_nonneg: "0 \<le> sizeOpt enc v" "0 \<le> sizeOptBytes b"
  using sizeVarint_bounds(1) order_trans [OF zero_le_one sizeVarint_bounds(1)]
  by (auto simp: sizeOpt_def sizeOptBytes_def sizeBytes_def add_nonneg_nonneg split: option.splits)

lemma encSize_of_nat: "encSize e = of_nat (esize e)"
  by (simp add: encSize_def esize_def Entry_SizeMessage_def size_nonneg add_nonneg_nonneg)

lemma unat_encSize: "esize e < 2 ^ 64 \<Longrightarrow> unat (encSize e) = esize e"
  by (simp add: encSize_of_nat unat_of_nat64)

text \<open>An entry with an index takes some space.\<close>

lemma esize_pos:
  assumes "Entry_GetIndex e \<noteq> 0"
  shows "0 < esize e"
proof -
  obtain i where "eIndex e = Some i" using assms by (cases "eIndex e") (auto simp: Entry_GetIndex_def)
  then have "0 < sizeOpt (\<lambda>v. v) (eIndex e)"
    using sizeVarint_bounds(1) [of i] by (simp add: sizeOpt_def)
  then show ?thesis
    using size_nonneg(1) [of "\<lambda>t. enum64 (EntryType_num t)" "eType e"] size_nonneg(1) [of "\<lambda>v. v" "eTerm e"]
      size_nonneg(2) [of "eData e"] by (simp add: esize_def Entry_SizeMessage_def)
qed

lemma total_simps [simp]: "total [] = 0" "total (e # es) = esize e + total es"
  "total (xs @ ys) = total xs + total ys"
  by (simp_all add: total_def)

lemma total_take_le: "total (take k es) \<le> total es"
  by (metis append_take_drop_id le_add1 total_simps(3))

lemma total_drop_le: "total (drop k es) \<le> total es"
  by (metis append_take_drop_id le_add2 total_simps(3))

lemma entsSize_of_nat: "entsSize es = of_nat (total es)"
  by (induction es) (simp_all add: entsSize_eq encSize_of_nat)

lemma unat_entsSize: "total es < 2 ^ 64 \<Longrightarrow> unat (entsSize es) = total es"
  by (simp add: entsSize_of_nat unat_of_nat64)

text \<open>How many entries fit: the longest prefix within the budget.\<close>

fun fitting :: "nat \<Rightarrow> Entry list \<Rightarrow> nat" where
  "fitting m [] = 0"
| "fitting m (e # es) = (if esize e \<le> m then Suc (fitting (m - esize e) es) else 0)"

lemma fitting_le: "fitting m es \<le> length es"
  by (induction es arbitrary: m) auto

lemma le_fitting_iff: "k \<le> length es \<Longrightarrow> k \<le> fitting m es \<longleftrightarrow> k = 0 \<or> total (take k es) \<le> m"
proof (induction es arbitrary: m k)
  case (Cons e es)
  then show ?case by (cases k) (auto simp: le_diff_conv2)
qed simp

lemma fitting_append:
  "fitting m (xs @ ys) = (if total xs \<le> m then length xs + fitting (m - total xs) ys else fitting m xs)"
  by (induction xs arbitrary: m) (auto simp: le_diff_conv2 diff_diff_add)

lemma fitting_all: "total xs \<le> m \<Longrightarrow> fitting m xs = length xs"
  by (induction xs arbitrary: m) (auto simp: le_diff_conv2)

lemma limitFrom_eq:
  "unat siz + total es < 2 ^ 64 \<Longrightarrow> unat siz \<le> unat maxSize \<Longrightarrow>
     limitFrom maxSize siz es = take (fitting (unat maxSize - unat siz) es) es"
proof (induction es arbitrary: siz)
  case (Cons e es)
  have sum: "unat (siz + encSize e) = unat siz + esize e"
    using Cons.prems(1) by (simp add: encSize_of_nat unat_add_of_nat)
  show ?case
    using Cons.IH [of "siz + encSize e"] Cons.prems
    by (auto simp: Let_def sum word_less_nat_alt not_less diff_diff_add le_diff_conv2)
qed simp

lemma limitFrom_over:
  "unat siz + total es < 2 ^ 64 \<Longrightarrow> unat maxSize < unat siz \<Longrightarrow> limitFrom maxSize siz es = []"
proof (cases es)
  case (Cons e es')
  assume "unat siz + total es < 2 ^ 64" and lt: "unat maxSize < unat siz"
  with Cons have "unat (siz + encSize e) = unat siz + esize e"
    by (simp add: encSize_of_nat unat_add_of_nat)
  with lt Cons show ?thesis by (simp add: word_less_nat_alt)
qed simp

lemma limitSize_take:
  "total es < 2 ^ 64 \<Longrightarrow> limitSize es m = take (max 1 (fitting (unat m) es)) es"
proof (cases es)
  case (Cons e es')
  assume t: "total es < 2 ^ 64"
  then have e: "unat (encSize e) = esize e" using Cons by (intro unat_encSize) simp
  show ?thesis
  proof (cases "esize e \<le> unat m")
    case True
    with limitFrom_eq [of "encSize e" es' m] t Cons e show ?thesis
      by (simp add: limitSize_def)
  next
    case False
    with limitFrom_over [of "encSize e" es' m] t Cons e show ?thesis
      by (simp add: limitSize_def)
  qed
qed (simp add: limitSize_def)

lemma limitFrom_prefix: "\<exists>k \<le> length es. limitFrom m s es = take k es"
proof (induction es arbitrary: s)
  case (Cons e es)
  obtain k where "k \<le> length es" "limitFrom m (s + encSize e) es = take k es" using Cons.IH by blast
  then show ?case
    by (cases "m < s + encSize e") (auto simp: Let_def intro: exI [of _ "Suc k"])
qed simp

text \<open>Whatever the sizes, the result is a prefix, and not empty unless the input is.\<close>

lemma limitSize_prefix:
  obtains k where "k \<le> length es" and "es \<noteq> [] \<Longrightarrow> 1 \<le> k" and "limitSize es m = take k es"
proof (cases es)
  case (Cons e es')
  obtain k where "k \<le> length es'" "limitFrom m (encSize e) es' = take k es'"
    using limitFrom_prefix by blast
  with Cons that [of "Suc k"] show ?thesis by (simp add: limitSize_def)
qed (use that [of 0] in \<open>simp add: limitSize_def\<close>)

lemma limitSize_empty [simp]: "limitSize es m = [] \<longleftrightarrow> es = []"
  by (cases es) (simp_all add: limitSize_def)

section \<open>Indexes as numbers\<close>

lemma le_of_nat64: "n < 2 ^ 64 \<Longrightarrow> (x :: uint64) \<le> of_nat n \<longleftrightarrow> unat x \<le> n"
  by (simp add: word_le_nat_alt unat_of_nat64)

lemma less_of_nat64: "n < 2 ^ 64 \<Longrightarrow> of_nat n < (x :: uint64) \<longleftrightarrow> n < unat x"
  by (simp add: word_less_nat_alt unat_of_nat64)

lemma sub_of_nat64:
  fixes x :: uint64
  assumes "n \<le> unat x"
  shows "unat (x - of_nat n) = unat x - n"
proof -
  have n: "unat (of_nat n :: uint64) = n"
    using le_less_trans [OF assms unat_lt64] by (intro unat_of_nat64) simp
  with assms show ?thesis by (simp add: unat_sub64 word_le_nat_alt)
qed

lemma sint_small64:
  fixes x :: uint64
  assumes "unat x < 2 ^ 63"
  shows "sint x = int (unat x)"
proof -
  have "int (unat x) < int (2 ^ 63)" using assms by (simp only: of_nat_less_iff)
  moreover have "- (2 ^ 63) \<le> uint x" by (rule order_trans [of _ 0]) simp_all
  ultimately show ?thesis by (simp add: sint_uint signed_take_bit_int_eq_self)
qed

lemma sint_ge64: "unat x < 2 ^ 63 \<Longrightarrow> int n \<le> sint x \<longleftrightarrow> n \<le> unat x" for x :: uint64
  by (simp only: sint_small64 of_nat_le_iff)

section \<open>Runs of consecutive entries\<close>

text \<open>
  \<open>contig i es\<close>: the entries have the indexes \<open>i\<close>, \<open>i + 1\<close>, \<dots>, and the index after the last
  one still fits 64 bits.
\<close>

definition contig :: "nat \<Rightarrow> Entry list \<Rightarrow> bool" where
  "contig i es \<longleftrightarrow> i + length es < 2 ^ 64 \<and>
     (\<forall>k < length es. unat (Entry_GetIndex (es ! k)) = i + k)"

lemma contig_Nil [simp]: "contig i [] \<longleftrightarrow> i < 2 ^ 64"
  by (simp add: contig_def)

lemma contig_Cons [simp]:
  "contig i (e # es) \<longleftrightarrow> unat (Entry_GetIndex e) = i \<and> contig (Suc i) es"
  by (auto simp: contig_def nth_Cons split: nat.splits)

lemma contig_append [simp]:
  "contig i (xs @ ys) \<longleftrightarrow> contig i xs \<and> contig (i + length xs) ys"
proof (induction xs arbitrary: i)
  case Nil
  then show ?case by (auto simp: contig_def)
qed simp

lemma contig_take: "contig i es \<Longrightarrow> contig i (take k es)"
  by (metis append_take_drop_id contig_append)

lemma contig_drop: "contig i es \<Longrightarrow> contig (i + k) (drop k es)" if "k \<le> length es"
  using that by (metis (no_types, lifting) append_take_drop_id contig_append length_take min.absorb2)

lemma contig_length: "contig i es \<Longrightarrow> i + length es < 2 ^ 64"
  by (simp add: contig_def)

lemma contig_nth: "contig i es \<Longrightarrow> k < length es \<Longrightarrow> unat (Entry_GetIndex (es ! k)) = i + k"
  by (simp add: contig_def)

lemma contig_hd: "contig i es \<Longrightarrow> es \<noteq> [] \<Longrightarrow> unat (Entry_GetIndex (hd es)) = i"
  by (cases es) auto

lemma contig_last: "contig i es \<Longrightarrow> es \<noteq> [] \<Longrightarrow> unat (Entry_GetIndex (last es)) = i + (length es - 1)"
  by (simp add: last_conv_nth contig_nth)

lemma validFrom_contig:
  assumes "validFrom t prev es" and "unat (idIndex prev) + length es + 1 < 2 ^ 64"
  shows "contig (Suc (unat (idIndex prev))) es"
  using assms
proof (induction es arbitrary: prev)
  case (Cons e es)
  then have idx: "Entry_GetIndex e = idIndex prev + 1" and v: "validFrom t (pbEntryID e) es"
    by (auto simp: pbEntryID_def split: if_splits)
  have "unat (idIndex prev + 1) = Suc (unat (idIndex prev))"
    using Cons.prems(2) unat_add_of_nat [of "idIndex prev" 1] by simp
  with Cons.IH [OF v] Cons.prems(2) show ?case
    by (simp add: idx pbEntryID_def)
qed simp

section \<open>Properties\<close>

text \<open>
  C39. \<^verbatim>\<open>limitSize\<close> returns the longest prefix whose total encoded size is within the limit,
  and at least one entry of a non-empty slice: a prefix of \<open>k\<close> entries is inside the result
  exactly when it is the first entry alone or fits the limit.
\<close>

theorem limit_size_longest_prefix:
  assumes "total ents < 2 ^ 64"
  shows "(\<exists>k. limitSize ents maxSize = take k ents) \<and>
    (\<forall>k. 1 \<le> k \<and> k \<le> length ents \<longrightarrow>
      (k \<le> length (limitSize ents maxSize) \<longleftrightarrow> k = 1 \<or> total (take k ents) \<le> unat maxSize))"
proof -
  have "length (limitSize ents maxSize) = min (length ents) (max 1 (fitting (unat maxSize) ents))"
    using limitSize_take [OF assms] by simp
  then show ?thesis
    using limitSize_take [OF assms] by (auto simp: le_fitting_iff le_max_iff_disj)
qed

definition demoEntry :: "uint64 \<Rightarrow> uint64 \<Rightarrow> Entry" where
  "demoEntry t i = Entry0\<lparr>eTerm := Some t, eIndex := Some i, eData := Some [1, 2]\<rparr>"

theorem limit_size_longest_prefix_witness:
  "total [demoEntry 1 1, demoEntry 1 2, demoEntry 1 3] < 2 ^ 64 \<and>
   length (limitSize [demoEntry 1 1, demoEntry 1 2, demoEntry 1 3] 20) = 2"
proof -
  let ?es = "[demoEntry 1 1, demoEntry 1 2, demoEntry 1 3]"
  have siz: "esize (demoEntry 1 i) = 8" if "i \<in> {1, 2, 3}" for i
    using that by (auto simp: esize_def demoEntry_def Entry_SizeMessage_def zero_defs sizeOpt_def
      sizeOptBytes_def sizeBytes_def sizeVarint_def sizeVarintLoop.simps)
  have t: "total ?es < 2 ^ 64" by (simp add: siz)
  have "2 \<le> length (limitSize ?es 20)" and "\<not> 3 \<le> length (limitSize ?es 20)"
    using limit_size_longest_prefix [OF t, of 20, THEN conjunct2, rule_format, of 2]
      limit_size_longest_prefix [OF t, of 20, THEN conjunct2, rule_format, of 3]
    by (simp_all add: siz)
  with t show ?thesis by simp
qed

end
