(* ===== verification/ReadOnly.thy ===== *)
theory ReadOnly
  imports Quorum RaftUtil
begin

text \<open>
  Linearizable reads without log entries (src/raftsubject/raft/read_only.go): a leader
  numbers the read requests it receives, puts the number of the newest one in the context
  of its heartbeats, and confirms a prefix of the queue once a quorum of the configuration
  has echoed a number that covers it. The queue is correct when requests are confirmed in
  the order they came, and only those whose position a joint majority has acknowledged.
\<close>

section \<open>Eight-byte contexts\<close>

text \<open>
  \<^verbatim>\<open>binary.LittleEndian\<close> of the standard library: \<^verbatim>\<open>PutUint64\<close> writes the eight bytes of a
  number, \<^verbatim>\<open>Uint64\<close> reads the first eight bytes of a slice and panics on a shorter one.
\<close>

fun le_value :: "byte list \<Rightarrow> nat" where
  "le_value [] = 0"
| "le_value (b # bs) = unat b + 256 * le_value bs"

definition le_Uint64 :: "byte list \<Rightarrow> uint64 option" where
  "le_Uint64 bs = (if length bs < 8 then None else Some (of_nat (le_value (take 8 bs))))"

definition le_PutUint64 :: "uint64 \<Rightarrow> byte list" where
  "le_PutUint64 v = map (\<lambda>i. of_nat (unat v div 256 ^ i)) [0..<8]"

section \<open>The queue of reads\<close>

datatype ReadOnlyOption = ReadOnlySafe | ReadOnlyLeaseBased

record ReadState =
  rsIndex :: uint64
  rsRequestCtx :: "byte list option"

record readIndexRequest =
  rirReq :: Message
  rirIndex :: uint64

record readOnly =
  roOption :: ReadOnlyOption
  roAcks :: "uint64 \<rightharpoonup> uint64"
  roUnconfirmedReads :: "readIndexRequest list"
  roConfirmedReads :: uint64

definition newReadOnly :: "ReadOnlyOption \<Rightarrow> readOnly" where
  "newReadOnly opt = \<lparr>roOption = opt, roAcks = Map.empty, roUnconfirmedReads = [],
     roConfirmedReads = 0\<rparr>"

definition addRequest :: "uint64 \<Rightarrow> Message \<Rightarrow> readOnly \<Rightarrow> readOnly" where
  "addRequest commitIndex req ro = ro\<lparr>roUnconfirmedReads :=
     roUnconfirmedReads ro @ [\<lparr>rirReq = req, rirIndex = commitIndex\<rparr>]\<rparr>"

definition recvAck :: "uint64 \<Rightarrow> byte list \<Rightarrow> readOnly \<Rightarrow> readOnly option" where
  "recvAck src ctx ro =
     (if ctx \<noteq> [] then do {
        v \<leftarrow> le_Uint64 ctx;
        Some (ro\<lparr>roAcks := (roAcks ro)(src \<mapsto> max (get0 (roAcks ro src)) v)\<rparr>)
      } else Some ro)"

definition ro_AckedIndex :: "readOnly \<Rightarrow> AckedIndexer" where
  "ro_AckedIndex ro voterID = roAcks ro voterID"

definition maybeAdvance :: "JointConfig \<Rightarrow> readOnly \<Rightarrow> (readIndexRequest list \<times> readOnly) option" where
  "maybeAdvance c ro =
     (let newConfirmedReads = JointConfig_CommittedIndex c (ro_AckedIndex ro)
      in if newConfirmedReads \<le> roConfirmedReads ro then Some ([], ro)
         else do {
           readStates \<leftarrow> go_slice (roUnconfirmedReads ro) 0
             (unat (newConfirmedReads - roConfirmedReads ro));
           rest \<leftarrow> go_from (roUnconfirmedReads ro) (unat (newConfirmedReads - roConfirmedReads ro));
           Some (readStates, ro\<lparr>roUnconfirmedReads := rest, roConfirmedReads := newConfirmedReads\<rparr>)
         })"

definition heartbeatCtx :: "readOnly \<Rightarrow> byte list option" where
  "heartbeatCtx ro =
     (if roUnconfirmedReads ro = [] then None
      else Some (le_PutUint64 (roConfirmedReads ro + len64 (roUnconfirmedReads ro))))"

section \<open>Reading back a context\<close>

lemma le_value_digits:
  "le_value (map (\<lambda>i. of_nat (n div 256 ^ i)) [0..<k]) = n mod 256 ^ k"
proof (induction k arbitrary: n)
  case (Suc k)
  have "map (\<lambda>i. of_nat (n div 256 ^ i) :: byte) [0..<Suc k] =
      of_nat n # map (\<lambda>i. of_nat ((n div 256) div 256 ^ i)) [0..<k]"
    by (simp add: upt_rec [of 0 "Suc k"] map_Suc_upt [symmetric] div_mult2_eq
        del: upt_Suc)
  then show ?case
    using Suc.IH [of "n div 256"] by (simp add: unat_of_nat mod_mult2_eq)
qed simp

lemma length_PutUint64 [simp]: "length (le_PutUint64 v) = 8"
  by (simp add: le_PutUint64_def)

lemma PutUint64_not_Nil [simp]: "le_PutUint64 v \<noteq> []"
  using length_PutUint64 [of v] by (metis list.size(3) zero_neq_numeral)

lemma Uint64_PutUint64 [simp]: "le_Uint64 (le_PutUint64 v) = Some v"
proof -
  have "le_value (le_PutUint64 v) = unat v"
    using le_value_digits [of "unat v" 8] by (simp add: le_PutUint64_def)
  then show ?thesis by (simp add: le_Uint64_def)
qed

section \<open>The queue as a counter of positions\<close>

text \<open>
  The \<open>p\<close>-th request ever added is at offset \<open>p - roConfirmedReads - 1\<close> of the queue, so
  \<open>roTotal\<close> counts the requests. The queue is consistent when no member has acknowledged
  a position that was not yet given out.
\<close>

definition roTotal :: "readOnly \<Rightarrow> nat" where
  "roTotal ro = unat (roConfirmedReads ro) + length (roUnconfirmedReads ro)"

definition ro_ok :: "readOnly \<Rightarrow> bool" where
  "ro_ok ro \<longleftrightarrow> roTotal ro < 2 ^ 64 \<and> (\<forall>n x. roAcks ro n = Some x \<longrightarrow> unat x \<le> roTotal ro)"

definition acked_pos :: "readOnly \<Rightarrow> nat \<Rightarrow> uint64 set" where
  "acked_pos ro p = {n. p = 0 \<or> (\<exists>x. roAcks ro n = Some x \<and> p \<le> unat x)}"

lemma newReadOnly_ok [simp]: "ro_ok (newReadOnly opt)"
  by (simp add: ro_ok_def newReadOnly_def roTotal_def)

lemma addRequest_ok:
  "ro_ok ro \<Longrightarrow> Suc (roTotal ro) < 2 ^ 64 \<Longrightarrow> ro_ok (addRequest c m ro)"
  by (auto simp: ro_ok_def addRequest_def roTotal_def le_Suc_eq)

lemma heartbeatCtx_value:
  assumes "ro_ok ro" and "heartbeatCtx ro = Some ctx"
  shows "le_Uint64 ctx = Some (of_nat (roTotal ro))"
  using assms by (auto simp: heartbeatCtx_def roTotal_def len64_def split: if_splits)

lemma recvAck_Some:
  assumes "le_Uint64 ctx = Some v"
  shows "recvAck src ctx ro = Some (ro\<lparr>roAcks := (roAcks ro)(src \<mapsto> max (get0 (roAcks ro src)) v)\<rparr>)"
  using assms by (auto simp: recvAck_def le_Uint64_def)

lemma recvAck_ok:
  assumes "ro_ok ro" and "le_Uint64 ctx = Some v" and "unat v \<le> roTotal ro"
    and "recvAck src ctx ro = Some ro'"
  shows "ro_ok ro'"
proof -
  have "unat (max (get0 (roAcks ro src)) v) \<le> roTotal ro"
    using assms(1,3) by (cases "roAcks ro src") (auto simp: ro_ok_def max_def)
  with assms show ?thesis
    by (auto simp: recvAck_Some ro_ok_def roTotal_def split: if_splits)
qed

lemma acked_ge_pos:
  "acked_ge (ro_AckedIndex ro) i = acked_pos ro (unat i)"
  by (auto simp: acked_ge_def acked_pos_def ro_AckedIndex_def word_le_nat_alt unat_eq_zero)

text \<open>A non-empty configuration confirms at most what was given out.\<close>

lemma committed_le_total:
  assumes "ro_ok ro" and "JointConfig_IDs c \<noteq> {}"
  shows "unat (JointConfig_CommittedIndex c (ro_AckedIndex ro)) \<le> roTotal ro"
proof (rule ccontr)
  let ?i = "JointConfig_CommittedIndex c (ro_AckedIndex ro)"
  assume gt: "\<not> ?thesis"
  have "joint_majority c (acked_ge (ro_AckedIndex ro) ?i)"
    using CommittedIndex_joint [of ?i c "ro_AckedIndex ro"] by simp
  then obtain n where "n \<in> acked_ge (ro_AckedIndex ro) ?i"
    using jnt.quorum_meet [OF assms(2)] by blast
  with gt assms(1) show False
    by (fastforce simp: acked_ge_pos acked_pos_def ro_ok_def)
qed

lemma maybeAdvance_spec:
  assumes "ro_ok ro" and "JointConfig_IDs c \<noteq> {}"
  obtains rss ro' where "maybeAdvance c ro = Some (rss, ro')"
    and "ro_ok ro'" and "roUnconfirmedReads ro = rss @ roUnconfirmedReads ro'"
    and "unat (roConfirmedReads ro') = unat (roConfirmedReads ro) + length rss"
    and "ro' = ro\<lparr>roUnconfirmedReads := roUnconfirmedReads ro', roConfirmedReads := roConfirmedReads ro'\<rparr>"
    and "\<forall>p. unat (roConfirmedReads ro) < p \<and> p \<le> roTotal ro \<longrightarrow>
      (p \<le> unat (roConfirmedReads ro') \<longleftrightarrow> joint_majority c (acked_pos ro p))"
proof -
  let ?new = "JointConfig_CommittedIndex c (ro_AckedIndex ro)"
  have pos: "p \<le> unat ?new \<longleftrightarrow> joint_majority c (acked_pos ro p)" if "p \<le> roTotal ro" for p
  proof -
    have "unat (of_nat p :: uint64) = p"
      using that assms(1) by (intro unat_of_nat64) (simp add: ro_ok_def)
    then show ?thesis
      using CommittedIndex_joint [of "of_nat p" c "ro_AckedIndex ro"]
      by (simp add: acked_ge_pos word_le_nat_alt)
  qed
  show thesis
  proof (cases "?new \<le> roConfirmedReads ro")
    case True
    then have "maybeAdvance c ro = Some ([], ro)" by (simp add: maybeAdvance_def)
    moreover have "p \<le> unat (roConfirmedReads ro) \<longleftrightarrow> joint_majority c (acked_pos ro p)"
      if "unat (roConfirmedReads ro) < p" "p \<le> roTotal ro" for p
      using True that pos [OF that(2)] by (simp add: word_le_nat_alt)
    ultimately show thesis using that [of "[]" ro] assms(1) by simp
  next
    case False
    let ?k = "unat ?new - unat (roConfirmedReads ro)"
    let ?q = "roUnconfirmedReads ro"
    have k: "unat (?new - roConfirmedReads ro) = ?k"
      using False by (simp add: unat_sub64)
    have le: "?k \<le> length ?q"
      using committed_le_total [OF assms] by (simp add: roTotal_def)
    let ?ro = "ro\<lparr>roUnconfirmedReads := drop ?k ?q, roConfirmedReads := ?new\<rparr>"
    have "maybeAdvance c ro = Some (take ?k ?q, ?ro)"
      using False le by (simp add: maybeAdvance_def Let_def k go_slice_def go_from_def)
    moreover have "roTotal ?ro = roTotal ro"
      using le False by (simp add: roTotal_def word_le_nat_alt)
    then have "ro_ok ?ro" using assms(1) by (simp add: ro_ok_def)
    ultimately show thesis
      using that [of "take ?k ?q" ?ro] le False pos by (simp add: word_le_nat_alt)
  qed
qed


section \<open>Runs of the queue\<close>

text \<open>
  What a leader does with the queue, as steps over it and four ghosts: the requests added
  so far, the contexts sent with the number of requests there were at that time, which
  member has echoed a context of which number, and the requests confirmed so far. Every
  acknowledgement echoes a context that was sent; any non-empty configuration may be in
  force when the queue is advanced.
\<close>

inductive reads_run ::
  "readOnly \<Rightarrow> readIndexRequest list \<Rightarrow> (byte list \<times> nat) set \<Rightarrow> (uint64 \<times> nat) set \<Rightarrow>
   readIndexRequest list \<Rightarrow> bool" where
  start: "reads_run (newReadOnly opt) [] {} {} []"
| add: "reads_run (addRequest i m ro) (added @ [\<lparr>rirReq = m, rirIndex = i\<rparr>]) sent echoed confirmed"
    if "reads_run ro added sent echoed confirmed" and "Suc (length added) < 2 ^ 64"
| send: "reads_run ro added (insert (ctx, length added) sent) echoed confirmed"
    if "reads_run ro added sent echoed confirmed" and "heartbeatCtx ro = Some ctx"
| ack: "reads_run ro' added sent (insert (src, k) echoed) confirmed"
    if "reads_run ro added sent echoed confirmed" and "(ctx, k) \<in> sent"
      and "recvAck src ctx ro = Some ro'"
| advance: "reads_run ro' added sent echoed (confirmed @ rss)"
    if "reads_run ro added sent echoed confirmed" and "JointConfig_IDs c \<noteq> {}"
      and "maybeAdvance c ro = Some (rss, ro')"

definition reads_inv ::
  "readOnly \<Rightarrow> readIndexRequest list \<Rightarrow> (byte list \<times> nat) set \<Rightarrow> (uint64 \<times> nat) set \<Rightarrow>
   readIndexRequest list \<Rightarrow> bool" where
  "reads_inv ro added sent echoed confirmed \<longleftrightarrow>
     ro_ok ro \<and> added = confirmed @ roUnconfirmedReads ro \<and>
     unat (roConfirmedReads ro) = length confirmed \<and>
     (\<forall>(ctx, k) \<in> sent. le_Uint64 ctx = Some (of_nat k) \<and> k \<le> length added) \<and>
     (\<forall>p > 0. acked_pos ro p = {n. \<exists>k \<ge> p. (n, k) \<in> echoed})"

lemma reads_inv_total: "reads_inv ro added sent echoed confirmed \<Longrightarrow> roTotal ro = length added"
  by (auto simp: reads_inv_def roTotal_def)

lemma reads_inv_add:
  assumes "reads_inv ro added sent echoed confirmed" and "Suc (length added) < 2 ^ 64"
  shows "reads_inv (addRequest i m ro) (added @ [\<lparr>rirReq = m, rirIndex = i\<rparr>]) sent echoed confirmed"
proof -
  have "ro_ok (addRequest i m ro)"
    using assms reads_inv_total [OF assms(1)] by (auto simp: reads_inv_def intro: addRequest_ok)
  moreover have "acked_pos (addRequest i m ro) p = acked_pos ro p" for p
    by (simp add: acked_pos_def addRequest_def)
  ultimately show ?thesis
    using assms(1) by (fastforce simp: reads_inv_def addRequest_def)
qed

lemma reads_inv_send:
  assumes "reads_inv ro added sent echoed confirmed" and "heartbeatCtx ro = Some ctx"
  shows "reads_inv ro added (insert (ctx, length added) sent) echoed confirmed"
  using assms heartbeatCtx_value [OF _ assms(2)] reads_inv_total [OF assms(1)]
  by (auto simp: reads_inv_def)

lemma reads_inv_ack:
  assumes inv: "reads_inv ro added sent echoed confirmed" and "(ctx, k) \<in> sent"
    and rcv: "recvAck src ctx ro = Some ro'"
  shows "reads_inv ro' added sent (insert (src, k) echoed) confirmed"
proof -
  have ctx: "le_Uint64 ctx = Some (of_nat k)" and k: "k \<le> length added"
    using inv assms(2) by (auto simp: reads_inv_def)
  have small: "k < 2 ^ 64"
  proof (rule le_less_trans [OF k])
    have "roTotal ro < 2 ^ 64" using inv unfolding reads_inv_def ro_ok_def by blast
    then show "length added < 2 ^ 64" unfolding reads_inv_total [OF inv] .
  qed
  have ro': "ro' = ro\<lparr>roAcks := (roAcks ro)(src \<mapsto> max (get0 (roAcks ro src)) (of_nat k))\<rparr>"
    using rcv recvAck_Some [OF ctx] by simp
  have "ro_ok ro'"
  proof (rule recvAck_ok [OF _ ctx _ rcv])
    show "ro_ok ro" using inv unfolding reads_inv_def by blast
    show "unat (of_nat k :: uint64) \<le> roTotal ro"
      using k unfolding unat_of_nat64 [OF small] reads_inv_total [OF inv] .
  qed
  moreover have "acked_pos ro' p = {n. \<exists>k' \<ge> p. (n, k') \<in> insert (src, k) echoed}" if "0 < p" for p
  proof -
    have "acked_pos ro' p = acked_pos ro p \<union> (if p \<le> k then {src} else {})"
      using that unat_of_nat64 [OF small] word_le_nat_alt
      by (cases "roAcks ro src") (auto simp: acked_pos_def ro' max_def split: if_splits)
    then show ?thesis
      using inv that by (auto simp: reads_inv_def)
  qed
  ultimately show ?thesis
    using inv by (auto simp: reads_inv_def ro')
qed

lemma reads_inv_advance:
  assumes inv: "reads_inv ro added sent echoed confirmed" and c: "JointConfig_IDs c \<noteq> {}"
    and adv: "maybeAdvance c ro = Some (rss, ro')"
  shows "reads_inv ro' added sent echoed (confirmed @ rss)"
proof -
  have "ro_ok ro" using inv by (simp add: reads_inv_def)
  then obtain rss2 ro2 where "maybeAdvance c ro = Some (rss2, ro2)" and ok: "ro_ok ro2"
    and q: "roUnconfirmedReads ro = rss2 @ roUnconfirmedReads ro2"
    and n: "unat (roConfirmedReads ro2) = unat (roConfirmedReads ro) + length rss2"
    and upd: "ro2 = ro\<lparr>roUnconfirmedReads := roUnconfirmedReads ro2,
      roConfirmedReads := roConfirmedReads ro2\<rparr>"
    by (rule maybeAdvance_spec [OF _ c])
  with adv have eq: "rss2 = rss" "ro2 = ro'" by simp_all
  have "roAcks ro' = roAcks ro" using upd unfolding eq by (metis readOnly.select_convs(2) readOnly.surjective readOnly.update_convs(3,4))
  then have "acked_pos ro' p = acked_pos ro p" for p by (simp add: acked_pos_def)
  with inv ok q n show ?thesis
    unfolding eq by (auto simp: reads_inv_def)
qed

lemma reads_run_inv:
  "reads_run ro added sent echoed confirmed \<Longrightarrow> reads_inv ro added sent echoed confirmed"
proof (induction rule: reads_run.induct)
  case (start opt)
  show ?case
    by (simp add: reads_inv_def) (simp add: newReadOnly_def acked_pos_def)
qed (auto intro: reads_inv_add reads_inv_send reads_inv_ack reads_inv_advance)

text \<open>
  C12. Read requests are confirmed safely and in order. In every run the requests confirmed
  so far followed by the queue are exactly the requests in the order they were added.
  Advancing the queue in any non-empty configuration does not panic, and it confirms the
  \<open>p\<close>-th request exactly when a joint majority has echoed heartbeats each of which was sent
  when at least \<open>p\<close> requests had been added, that is, after the \<open>p\<close>-th one.
\<close>

theorem reads_confirmed_by_quorum:
  assumes "reads_run ro added sent echoed confirmed"
  shows "added = confirmed @ roUnconfirmedReads ro \<and>
    (JointConfig_IDs c \<noteq> {} \<longrightarrow>
      (\<exists>rss ro'. maybeAdvance c ro = Some (rss, ro') \<and>
        roUnconfirmedReads ro = rss @ roUnconfirmedReads ro' \<and>
        (\<forall>p. length confirmed < p \<and> p \<le> length added \<longrightarrow>
          (p \<le> length confirmed + length rss \<longleftrightarrow>
           joint_majority c {n. \<exists>k \<ge> p. (n, k) \<in> echoed}))))"
proof -
  have inv: "reads_inv ro added sent echoed confirmed" by (rule reads_run_inv [OF assms])
  show ?thesis
  proof (intro conjI impI)
    show "added = confirmed @ roUnconfirmedReads ro" using inv by (simp add: reads_inv_def)
    assume c: "JointConfig_IDs c \<noteq> {}"
    have "ro_ok ro" using inv by (simp add: reads_inv_def)
    then obtain rss ro' where "maybeAdvance c ro = Some (rss, ro')"
      "roUnconfirmedReads ro = rss @ roUnconfirmedReads ro'"
      "unat (roConfirmedReads ro') = unat (roConfirmedReads ro) + length rss"
      "\<forall>p. unat (roConfirmedReads ro) < p \<and> p \<le> roTotal ro \<longrightarrow>
        (p \<le> unat (roConfirmedReads ro') \<longleftrightarrow> joint_majority c (acked_pos ro p))"
      by (rule maybeAdvance_spec [OF _ c])
    with inv reads_inv_total [OF inv]
    show "\<exists>rss ro'. maybeAdvance c ro = Some (rss, ro') \<and>
        roUnconfirmedReads ro = rss @ roUnconfirmedReads ro' \<and>
        (\<forall>p. length confirmed < p \<and> p \<le> length added \<longrightarrow>
          (p \<le> length confirmed + length rss \<longleftrightarrow>
           joint_majority c {n. \<exists>k \<ge> p. (n, k) \<in> echoed}))"
      by (intro exI [of _ rss] exI [of _ ro']) (auto simp: reads_inv_def)
  qed
qed

text \<open>Two reads, a heartbeat after the first one echoed by members 1 and 2 of 3.\<close>

definition demoReads :: readOnly where
  "demoReads = (newReadOnly ReadOnlySafe)\<lparr>
     roUnconfirmedReads := [\<lparr>rirReq = Msg Message0 [], rirIndex = 5\<rparr>, \<lparr>rirReq = Msg Message0 [], rirIndex = 6\<rparr>],
     roAcks := [1 \<mapsto> 1, 2 \<mapsto> 1]\<rparr>"

lemma demoReads_run:
  "reads_run demoReads [\<lparr>rirReq = Msg Message0 [], rirIndex = 5\<rparr>, \<lparr>rirReq = Msg Message0 [], rirIndex = 6\<rparr>]
     {(le_PutUint64 1, 1)} {(1, 1), (2, 1)} []"
proof -
  let ?m = "Msg Message0 []"
  let ?e = "\<lparr>rirReq = ?m, rirIndex = 5\<rparr>"
  let ?r1 = "addRequest 5 ?m (newReadOnly ReadOnlySafe)"
  let ?r2 = "?r1\<lparr>roAcks := [1 \<mapsto> 1]\<rparr>"
  let ?r3 = "?r1\<lparr>roAcks := [1 \<mapsto> 1, 2 \<mapsto> 1]\<rparr>"
  have r1: "reads_run ?r1 [?e] {} {} []"
    using reads_run.add [OF reads_run.start, of 5 ?m ReadOnlySafe] by simp
  have "reads_run ?r1 [?e] {(le_PutUint64 1, 1)} {} []"
    using reads_run.send [OF r1, of "le_PutUint64 1"]
    by (simp add: heartbeatCtx_def addRequest_def newReadOnly_def len64_def)
  then have "reads_run ?r2 [?e] {(le_PutUint64 1, 1)} {(1, 1)} []"
    by (rule reads_run.ack [where ctx = "le_PutUint64 1"])
      (simp_all add: recvAck_def addRequest_def newReadOnly_def)
  then have "reads_run ?r3 [?e] {(le_PutUint64 1, 1)} (insert (2, 1) {(1, 1)}) []"
    by (rule reads_run.ack [where ctx = "le_PutUint64 1"])
      (simp_all add: recvAck_def addRequest_def newReadOnly_def)
  from reads_run.add [OF this, of 6 ?m] show ?thesis
    by (simp add: demoReads_def addRequest_def newReadOnly_def insert_commute)
qed

theorem reads_confirmed_by_quorum_witness:
  "\<exists>rss ro'. maybeAdvance (Some {1, 2, 3}, None) demoReads = Some (rss, ro') \<and> length rss = 1"
proof -
  let ?c = "(Some {1, 2, 3}, None) :: JointConfig"
  have maj: "joint_majority ?c {n. \<exists>k \<ge> p. (n, k) \<in> {(1, 1), (2, 1)}} \<longleftrightarrow> p \<le> 1" for p :: nat
  proof -
    have "{n. \<exists>k \<ge> p. (n, k) \<in> {(1, 1), (2, 1)}} \<inter> {1, 2, 3} = (if p \<le> 1 then {1, 2} else {} :: uint64 set)"
      by auto
    then show ?thesis by (simp add: joint_majority_def majority_def)
  qed
  obtain rss ro' where "maybeAdvance ?c demoReads = Some (rss, ro')"
    "roUnconfirmedReads demoReads = rss @ roUnconfirmedReads ro'"
    "\<And>p. 0 < p \<Longrightarrow> p \<le> 2 \<Longrightarrow> p \<le> length rss \<longleftrightarrow> p \<le> 1"
    using reads_confirmed_by_quorum [OF demoReads_run, of ?c] unfolding maj
    by (auto simp: JointConfig_IDs_def)
  then show ?thesis
    by (metis le_antisym less_numeral_extra(1) not_less_eq_eq numeral_2_eq_2 one_le_numeral
        order_refl zero_less_numeral One_nat_def)
qed

end
