(* ===== verification/Storage.thy ===== *)
theory Storage
  imports RaftUtil
begin

text \<open>
  The stable storage (src/raftsubject/raft/storage.go): \<^verbatim>\<open>MemoryStorage\<close>, the implementation
  of the \<^verbatim>\<open>Storage\<close> interface that comes with the package. The mutex and the call counters,
  which nothing reads, are left out. The locale \<open>log_storage\<close> is the documented contract of
  the interface as the raft log uses it; the interpretation shows that \<^verbatim>\<open>MemoryStorage\<close>
  keeps it.
\<close>

section \<open>Memory storage\<close>

datatype storage_error =
  ErrCompacted | ErrSnapOutOfDate | ErrUnavailable | ErrSnapshotTemporarilyUnavailable

record MemoryStorage =
  msHardState :: "HardState option"
  msSnapshot :: "Snapshot option"
  msEnts :: "Entry list"

definition NewMemoryStorage :: MemoryStorage where
  "NewMemoryStorage =
     \<lparr>msHardState = None, msSnapshot = Some (EnsureSnapshot None), msEnts = [Entry0]\<rparr>"

text \<open>
  \<^verbatim>\<open>InitialState\<close> ensures the \<^verbatim>\<open>ConfState\<close> it returns, which is the one inside the stored
  snapshot if there is one.
\<close>

definition MS_InitialState :: "MemoryStorage \<Rightarrow> HardState option \<times> ConfState \<times> MemoryStorage" where
  "MS_InitialState ms =
     (let cs = SnapshotMetadata_GetConfState (Snapshot_GetMetadata (msSnapshot ms));
          ms' = (if cs = None then ms
                 else ms\<lparr>msSnapshot := map_option (snMetadata_update (map_option
                   (smConfState_update (\<lambda>_. Some (EnsureConfState cs))))) (msSnapshot ms)\<rparr>)
      in (msHardState ms, EnsureConfState cs, ms'))"

definition MS_SetHardState :: "HardState option \<Rightarrow> MemoryStorage \<Rightarrow> MemoryStorage" where
  "MS_SetHardState st ms = ms\<lparr>msHardState := st\<rparr>"

definition MS_lastIndex :: "MemoryStorage \<Rightarrow> uint64 option" where
  "MS_lastIndex ms = do {
     e \<leftarrow> go_index (msEnts ms) 0;
     Some (Entry_GetIndex e + len64 (msEnts ms) - 1)
   }"

definition MS_LastIndex :: "MemoryStorage \<Rightarrow> (storage_error + uint64) option" where
  "MS_LastIndex ms = map_option Inr (MS_lastIndex ms)"

definition MS_firstIndex :: "MemoryStorage \<Rightarrow> uint64 option" where
  "MS_firstIndex ms = do {
     e \<leftarrow> go_index (msEnts ms) 0;
     Some (Entry_GetIndex e + 1)
   }"

definition MS_FirstIndex :: "MemoryStorage \<Rightarrow> (storage_error + uint64) option" where
  "MS_FirstIndex ms = map_option Inr (MS_firstIndex ms)"

definition MS_Entries ::
  "uint64 \<Rightarrow> uint64 \<Rightarrow> uint64 \<Rightarrow> MemoryStorage \<Rightarrow> (storage_error + Entry list) option" where
  "MS_Entries lo hi maxSize ms = do {
     e \<leftarrow> go_index (msEnts ms) 0;
     let offset = Entry_GetIndex e;
     if lo \<le> offset then Some (Inl ErrCompacted)
     else do {
       li \<leftarrow> MS_lastIndex ms;
       panic_if (hi > li + 1);
       if length (msEnts ms) = 1 then Some (Inl ErrUnavailable)
       else do {
         ents \<leftarrow> go_slice (msEnts ms) (unat (lo - offset)) (unat (hi - offset));
         Some (Inr (limitSize ents maxSize))
       }
     }
   }"

definition MS_Term :: "uint64 \<Rightarrow> MemoryStorage \<Rightarrow> (storage_error + uint64) option" where
  "MS_Term i ms = do {
     e \<leftarrow> go_index (msEnts ms) 0;
     let offset = Entry_GetIndex e;
     if i < offset then Some (Inl ErrCompacted)
     else if sint (i - offset) \<ge> int (length (msEnts ms)) then Some (Inl ErrUnavailable)
     else do {
       e \<leftarrow> go_index (msEnts ms) (unat (i - offset));
       Some (Inr (Entry_GetTerm e))
     }
   }"

text \<open>\<^verbatim>\<open>Snapshot\<close> stores the ensured snapshot and returns a copy.\<close>

definition MS_Snapshot :: "MemoryStorage \<Rightarrow> (storage_error + Snapshot) \<times> MemoryStorage" where
  "MS_Snapshot ms =
     (let s = EnsureSnapshot (msSnapshot ms) in (Inr s, ms\<lparr>msSnapshot := Some s\<rparr>))"

definition MS_ApplySnapshot :: "Snapshot option \<Rightarrow> MemoryStorage \<Rightarrow> storage_error + MemoryStorage" where
  "MS_ApplySnapshot snap ms =
     (let snap = EnsureSnapshot snap; msIndex = snapIndex (msSnapshot ms); si = snapIndex (Some snap)
      in if msIndex \<noteq> 0 \<and> msIndex \<ge> si then Inl ErrSnapOutOfDate
         else Inr (ms\<lparr>msSnapshot := Some snap,
           msEnts := [Entry0\<lparr>eTerm := Some (snapTerm (Some snap)), eIndex := Some si\<rparr>]\<rparr>))"

definition MS_CreateSnapshot ::
  "uint64 \<Rightarrow> ConfState option \<Rightarrow> byte list option \<Rightarrow> MemoryStorage \<Rightarrow>
     (storage_error + Snapshot \<times> MemoryStorage) option" where
  "MS_CreateSnapshot i cs data ms =
     (if i \<le> snapIndex (msSnapshot ms) then Some (Inl ErrSnapOutOfDate)
      else do {
        e \<leftarrow> go_index (msEnts ms) 0;
        let offset = Entry_GetIndex e;
        li \<leftarrow> MS_lastIndex ms;
        panic_if (i > li);
        let snap = EnsureSnapshot (msSnapshot ms);
        e \<leftarrow> go_index (msEnts ms) (unat (i - offset));
        let snap = snap\<lparr>snMetadata := map_option (\<lambda>m.
            (if cs = None then m else m\<lparr>smConfState := cs\<rparr>)
              \<lparr>smIndex := Some i, smTerm := Some (Entry_GetTerm e)\<rparr>) (snMetadata snap),
          snData := data\<rparr>;
        Some (Inr (snap, ms\<lparr>msSnapshot := Some snap\<rparr>))
      })"

definition MS_Compact :: "uint64 \<Rightarrow> MemoryStorage \<Rightarrow> (storage_error + MemoryStorage) option" where
  "MS_Compact compactIndex ms = do {
     e \<leftarrow> go_index (msEnts ms) 0;
     let offset = Entry_GetIndex e;
     if compactIndex \<le> offset then Some (Inl ErrCompacted)
     else do {
       li \<leftarrow> MS_lastIndex ms;
       panic_if (compactIndex > li);
       let i = compactIndex - offset;
       e \<leftarrow> go_index (msEnts ms) (unat i);
       rest \<leftarrow> go_from (msEnts ms) (unat (i + 1));
       Some (Inr (ms\<lparr>msEnts := Entry0\<lparr>eIndex := Some (Entry_GetIndex e),
         eTerm := Some (Entry_GetTerm e)\<rparr> # rest\<rparr>))
     }
   }"

definition MS_Append :: "Entry list \<Rightarrow> MemoryStorage \<Rightarrow> MemoryStorage option" where
  "MS_Append entries ms =
     (if length entries = 0 then Some ms
      else do {
        first \<leftarrow> MS_firstIndex ms;
        let idx = Entry_GetIndex (entries ! 0);
        let last = idx + len64 entries - 1;
        if last < first then Some ms
        else do {
          entries \<leftarrow> (if first > idx then go_from entries (unat (first - idx)) else Some entries);
          e \<leftarrow> go_index entries 0;
          d \<leftarrow> go_index (msEnts ms) 0;
          let offset = Entry_GetIndex e - Entry_GetIndex d;
          if len64 (msEnts ms) > offset then
            Some (ms\<lparr>msEnts := take (unat offset) (msEnts ms) @ entries\<rparr>)
          else if len64 (msEnts ms) = offset then Some (ms\<lparr>msEnts := msEnts ms @ entries\<rparr>)
          else None
        }
      })"

section \<open>The log it holds\<close>

definition ms_ok :: "MemoryStorage \<Rightarrow> bool" where
  "ms_ok ms \<longleftrightarrow> msEnts ms \<noteq> [] \<and> contig (unat (Entry_GetIndex (hd (msEnts ms)))) (msEnts ms) \<and>
     length (msEnts ms) < 2 ^ 63"

text \<open>
  The dummy entry gives the index and the term before the log; the other entries are the log.
\<close>

definition msBase :: "MemoryStorage \<Rightarrow> nat" where
  "msBase ms = unat (Entry_GetIndex (hd (msEnts ms)))"

definition msBaseTerm :: "MemoryStorage \<Rightarrow> uint64" where
  "msBaseTerm ms = Entry_GetTerm (hd (msEnts ms))"

definition msLog :: "MemoryStorage \<Rightarrow> Entry list" where
  "msLog ms = tl (msEnts ms)"

lemmas ms_view = msBase_def msBaseTerm_def msLog_def

lemma ms_okE:
  assumes "ms_ok ms"
  obtains d where "msEnts ms = d # msLog ms" and "unat (Entry_GetIndex d) = msBase ms"
    and "Entry_GetIndex d = of_nat (msBase ms)" and "Entry_GetTerm d = msBaseTerm ms"
    and "contig (Suc (msBase ms)) (msLog ms)" and "Suc (length (msLog ms)) < 2 ^ 63"
proof -
  obtain d es where e: "msEnts ms = d # es" using assms by (cases "msEnts ms") (auto simp: ms_ok_def)
  have c: "contig (Suc (unat (Entry_GetIndex d))) es" "Suc (length es) < 2 ^ 63"
    using assms e by (simp_all add: ms_ok_def)
  show thesis
    by (rule that [of d]) (use c in \<open>simp_all add: ms_view e\<close>)
qed

lemma ms_okI:
  assumes "msEnts ms = d # es" and "contig (Suc (unat (Entry_GetIndex d))) es"
    and "Suc (length es) < 2 ^ 63"
  shows "ms_ok ms" and "msBase ms = unat (Entry_GetIndex d)" and "msBaseTerm ms = Entry_GetTerm d"
    and "msLog ms = es"
  using assms by (auto simp: ms_ok_def ms_view)

lemma ms_bound: "ms_ok ms \<Longrightarrow> Suc (msBase ms + length (msLog ms)) < 2 ^ 64"
  by (auto elim!: ms_okE dest!: contig_length)

lemma MS_firstIndex_eq: "ms_ok ms \<Longrightarrow> MS_firstIndex ms = Some (of_nat (Suc (msBase ms)))"
  by (erule ms_okE) (simp add: MS_firstIndex_def go_index_def add.commute)

lemma MS_lastIndex_eq: "ms_ok ms \<Longrightarrow> MS_lastIndex ms = Some (of_nat (msBase ms + length (msLog ms)))"
  by (erule ms_okE) (simp add: MS_lastIndex_def go_index_def len64_def)

lemma MS_Entries_eq:
  assumes "ms_ok ms" and "msBase ms < unat lo" and "lo \<le> hi"
    and "unat hi \<le> Suc (msBase ms + length (msLog ms))" and "msLog ms \<noteq> []"
  shows "MS_Entries lo hi maxSize ms = Some (Inr (limitSize
    (take (unat hi - unat lo) (drop (unat lo - Suc (msBase ms)) (msLog ms))) maxSize))"
proof -
  obtain d where d: "msEnts ms = d # msLog ms" "Entry_GetIndex d = of_nat (msBase ms)"
    using assms(1) by (rule ms_okE)
  note b = ms_bound [OF assms(1)]
  have lo: "\<not> lo \<le> of_nat (msBase ms)" "unat (lo - of_nat (msBase ms)) = unat lo - msBase ms"
    and hi: "unat (hi - of_nat (msBase ms)) = unat hi - msBase ms"
    using assms(2,3) b by (simp_all add: le_of_nat64 sub_of_nat64) (simp add: sub_of_nat64 word_le_nat_alt)
  have "\<not> hi > of_nat (msBase ms + length (msLog ms)) + 1"
    using less_of_nat64 [of "Suc (msBase ms + length (msLog ms))" hi] assms(4) b
    by (simp add: add.commute add.left_commute)
  moreover have "drop (unat lo - msBase ms) (d # msLog ms) = drop (unat lo - Suc (msBase ms)) (msLog ms)"
    using assms(2) by (cases "unat lo - msBase ms") (auto simp: diff_Suc)
  ultimately show ?thesis
    using assms lo hi d
    by (simp add: MS_Entries_def MS_lastIndex_eq go_run word_le_nat_alt) linarith
qed

lemma MS_Entries_compacted:
  "ms_ok ms \<Longrightarrow> unat lo \<le> msBase ms \<Longrightarrow> MS_Entries lo hi maxSize ms = Some (Inl ErrCompacted)"
  by (erule ms_okE) (simp add: MS_Entries_def go_run word_le_nat_alt)

lemma MS_Term_compacted: "ms_ok ms \<Longrightarrow> unat i < msBase ms \<Longrightarrow> MS_Term i ms = Some (Inl ErrCompacted)"
  by (erule ms_okE) (simp add: MS_Term_def go_run word_less_nat_alt)

lemma MS_Term_eq:
  assumes "ms_ok ms" and "msBase ms \<le> unat i" and "unat i \<le> msBase ms + length (msLog ms)"
  shows "MS_Term i ms = Some (Inr (if unat i = msBase ms then msBaseTerm ms
    else Entry_GetTerm (msLog ms ! (unat i - Suc (msBase ms)))))"
proof -
  obtain d where d: "msEnts ms = d # msLog ms" "unat (Entry_GetIndex d) = msBase ms"
      "Entry_GetIndex d = of_nat (msBase ms)" "Entry_GetTerm d = msBaseTerm ms"
      "Suc (length (msLog ms)) < 2 ^ 63"
    using assms(1) by (rule ms_okE)
  have off: "unat (i - of_nat (msBase ms)) = unat i - msBase ms"
    using assms(2) by (rule sub_of_nat64)
  with assms(3) d(5) have "\<not> sint (i - of_nat (msBase ms)) \<ge> int (length (msEnts ms))"
    using sint_ge64 [of "i - of_nat (msBase ms)"] by (simp add: d(1) del: of_nat_Suc)
  with off assms d show ?thesis
    by (auto simp: MS_Term_def go_run word_less_nat_alt nth_Cons')
qed

lemma MS_Term_unavailable:
  assumes "ms_ok ms" and "msBase ms + length (msLog ms) < unat i" and "unat i < msBase ms + 2 ^ 63"
  shows "MS_Term i ms = Some (Inl ErrUnavailable)"
proof -
  obtain d where d: "msEnts ms = d # msLog ms" "unat (Entry_GetIndex d) = msBase ms"
      "Entry_GetIndex d = of_nat (msBase ms)"
    using assms(1) by (rule ms_okE)
  have off: "unat (i - of_nat (msBase ms)) = unat i - msBase ms"
    using assms(2) by (intro sub_of_nat64) simp
  with assms(2,3) have "sint (i - of_nat (msBase ms)) \<ge> int (length (msEnts ms))"
    using sint_ge64 [of "i - of_nat (msBase ms)"] by (simp add: d(1) del: of_nat_Suc)
  with assms(2) d show ?thesis
    by (simp add: MS_Term_def go_run word_less_nat_alt)
qed

section \<open>What the writes do\<close>

text \<open>
  The log after an append at index \<open>i\<close>: what was there from \<open>i\<close> on is replaced, and the part
  of the new entries that is compacted away is skipped.
\<close>

definition appended :: "nat \<Rightarrow> Entry list \<Rightarrow> nat \<Rightarrow> Entry list \<Rightarrow> Entry list" where
  "appended base log i es =
     (if i + length es \<le> Suc base then log else take (i - Suc base) log @ drop (Suc base - i) es)"

lemma MS_Append_at:
  assumes ok: "ms_ok ms" and c: "contig i es" and ne: "es \<noteq> []" and new: "Suc (msBase ms) < i + length es"
  defines "es' \<equiv> drop (Suc (msBase ms) - i) es" and "j \<equiv> max i (Suc (msBase ms))"
  shows "MS_Append es ms =
    (if j \<le> Suc (msBase ms + length (msLog ms))
     then Some (ms\<lparr>msEnts := take (j - msBase ms) (msEnts ms) @ es'\<rparr>) else None)"
proof -
  obtain d where d: "msEnts ms = d # msLog ms" "unat (Entry_GetIndex d) = msBase ms"
      "Entry_GetIndex d = of_nat (msBase ms)" "Suc (length (msLog ms)) < 2 ^ 63"
    using ok by (rule ms_okE)
  note b = ms_bound [OF ok] and cl = contig_length [OF c]
  define idx where "idx = Entry_GetIndex (es ! 0)"
  have i: "unat idx = i" using contig_hd [OF c ne] ne by (simp add: idx_def hd_conv_nth)
  then have idx: "idx = of_nat i" by auto
  have f: "unat (of_nat (Suc (msBase ms)) :: uint64) = Suc (msBase ms)"
    using b by (intro unat_of_nat64) simp
  have last: "idx + len64 es - 1 = of_nat (i + length es - 1)"
    using ne by (cases es) (simp_all add: idx len64_def)
  have ge: "\<not> idx + len64 es - 1 < of_nat (Suc (msBase ms))"
    unfolding last word_less_nat_alt f using new cl by (subst unat_of_nat64) auto
  have drop: "(if of_nat (Suc (msBase ms)) > idx then go_from es (unat (of_nat (Suc (msBase ms)) - idx))
      else Some es) = Some es'"
    using new f i by (auto simp: es'_def word_less_nat_alt go_from_def unat_sub64 word_le_nat_alt
        simp del: of_nat_Suc)
  have len: "0 < length es'" using new ne by (cases es) (auto simp: es'_def)
  then have ix: "unat (Entry_GetIndex (es' ! 0)) = j"
    using contig_nth [OF c, of "Suc (msBase ms) - i"] new by (auto simp: es'_def j_def)
  have off: "unat (Entry_GetIndex (es' ! 0) - Entry_GetIndex d) = j - msBase ms"
    using ix d(2) by (subst unat_sub64) (auto simp: word_le_nat_alt j_def)
  have l64: "unat (len64 (msEnts ms)) = Suc (length (msLog ms))"
    using d(4) unfolding len64_def d(1) by (subst unat_of_nat64) auto
  have jb: "msBase ms < j" by (simp add: j_def)
  then have cmp: "Entry_GetIndex (es' ! 0) - Entry_GetIndex d < len64 (msEnts ms) \<longleftrightarrow>
        j \<le> msBase ms + length (msLog ms)"
      "len64 (msEnts ms) = Entry_GetIndex (es' ! 0) - Entry_GetIndex d \<longleftrightarrow>
        j = Suc (msBase ms + length (msLog ms))"
    unfolding word_less_nat_alt word_unat_eq_iff off l64 by auto
  have "MS_Append es ms =
    (let offset = Entry_GetIndex (es' ! 0) - Entry_GetIndex d
     in if len64 (msEnts ms) > offset then
          Some (ms\<lparr>msEnts := take (unat offset) (msEnts ms) @ es'\<rparr>)
        else if len64 (msEnts ms) = offset then Some (ms\<lparr>msEnts := msEnts ms @ es'\<rparr>) else None)"
    using ne ge drop len d(1)
    by (simp add: MS_Append_def MS_firstIndex_eq [OF ok] go_index_def idx_def [symmetric] del: of_nat_Suc)
  also have "\<dots> = (if j \<le> Suc (msBase ms + length (msLog ms))
     then Some (ms\<lparr>msEnts := take (j - msBase ms) (msEnts ms) @ es'\<rparr>) else None)"
    using cmp d(1) by (auto simp: Let_def off)
  finally show ?thesis .
qed

lemma MS_Append_view:
  assumes ok: "ms_ok ms" and c: "contig i es" and ne: "es \<noteq> []"
    and room: "Suc (length (msLog ms) + length es) < 2 ^ 63"
    and gap: "i \<le> Suc (msBase ms + length (msLog ms))"
  obtains ms' where "MS_Append es ms = Some ms'" and "ms_ok ms'" and "msBase ms' = msBase ms"
    and "msBaseTerm ms' = msBaseTerm ms" and "msLog ms' = appended (msBase ms) (msLog ms) i es"
    and "msSnapshot ms' = msSnapshot ms" and "msHardState ms' = msHardState ms"
proof (cases "i + length es \<le> Suc (msBase ms)")
  case True
  have f: "unat (of_nat (Suc (msBase ms)) :: uint64) = Suc (msBase ms)"
    using ms_bound [OF ok] by (intro unat_of_nat64) simp
  have "Entry_GetIndex (es ! 0) = of_nat i"
    using contig_hd [OF c ne] ne by (auto simp: hd_conv_nth)
  then have "Entry_GetIndex (es ! 0) + len64 es - 1 = of_nat (i + length es - 1)"
    using ne by (cases es) (simp_all add: len64_def)
  then have "Entry_GetIndex (es ! 0) + len64 es - 1 < of_nat (Suc (msBase ms))"
    unfolding word_less_nat_alt f using True contig_length [OF c] ne
    by (simp only:) (subst unat_of_nat64; cases es; simp)
  then have "MS_Append es ms = Some ms"
    using ne by (simp add: MS_Append_def MS_firstIndex_eq [OF ok] del: of_nat_Suc)
  with True ok show ?thesis by (intro that [of ms]) (simp_all add: appended_def)
next
  case False
  obtain d where d: "msEnts ms = d # msLog ms" "unat (Entry_GetIndex d) = msBase ms"
      "Entry_GetTerm d = msBaseTerm ms" "contig (Suc (msBase ms)) (msLog ms)"
    using ok by (rule ms_okE)
  let ?log = "appended (msBase ms) (msLog ms) i es"
  define ms' where "ms' = ms\<lparr>msEnts := d # ?log\<rparr>"
  have tk: "take (max i (Suc (msBase ms)) - msBase ms) (d # msLog ms) = d # take (i - Suc (msBase ms)) (msLog ms)"
    by (cases "i \<le> Suc (msBase ms)") (auto simp: max_def take_Cons' Suc_diff_Suc)
  have app: "MS_Append es ms = Some ms'"
    using MS_Append_at [OF ok c ne] False gap by (simp add: tk d(1) ms'_def appended_def)
  have cl: "contig (Suc (msBase ms)) ?log"
    using False gap contig_take [OF d(4)] contig_drop [OF _ c, of "Suc (msBase ms) - i"] d(4)
    by (cases "i \<le> Suc (msBase ms)") (auto simp: appended_def c)
  have ll: "length ?log \<le> length (msLog ms) + length es"
    by (auto simp: appended_def)
  have "ms_ok ms'" "msBase ms' = msBase ms" "msBaseTerm ms' = msBaseTerm ms" "msLog ms' = ?log"
    using ms_okI [of ms' d ?log] cl ll room d(2,3) by (simp_all add: ms'_def)
  with app that [of ms'] show ?thesis by (simp add: ms'_def)
qed

lemma MS_Append_gap:
  assumes "ms_ok ms" and "contig i es" and "es \<noteq> []" and "Suc (msBase ms + length (msLog ms)) < i"
  shows "MS_Append es ms = None"
  using MS_Append_at [OF assms(1-3)] assms(3,4) by (cases es) auto

lemma MS_Compact_view:
  assumes ok: "ms_ok ms" and lo: "msBase ms < unat i" and hi: "unat i \<le> msBase ms + length (msLog ms)"
  obtains ms' where "MS_Compact i ms = Some (Inr ms')" and "ms_ok ms'" and "msBase ms' = unat i"
    and "msBaseTerm ms' = Entry_GetTerm (msLog ms ! (unat i - Suc (msBase ms)))"
    and "msLog ms' = drop (unat i - msBase ms) (msLog ms)"
    and "msSnapshot ms' = msSnapshot ms" and "msHardState ms' = msHardState ms"
proof -
  obtain d where d: "msEnts ms = d # msLog ms" "Entry_GetIndex d = of_nat (msBase ms)"
      "contig (Suc (msBase ms)) (msLog ms)" "Suc (length (msLog ms)) < 2 ^ 63"
    using ok by (rule ms_okE)
  note b = ms_bound [OF ok]
  let ?k = "unat i - Suc (msBase ms)"
  have k: "unat (i - of_nat (msBase ms)) = Suc ?k" using sub_of_nat64 [of "msBase ms" i] lo by simp
  then have k1: "unat (i - of_nat (msBase ms) + 1) = Suc (Suc ?k)"
    using b hi unat_add_of_nat [of "i - of_nat (msBase ms)" 1] by simp
  have le: "\<not> i \<le> of_nat (msBase ms)" "\<not> of_nat (msBase ms + length (msLog ms)) < i"
    using lo hi b le_of_nat64 [of "msBase ms" i] less_of_nat64 [of "msBase ms + length (msLog ms)" i]
    by (simp_all del: of_nat_add)
  have kl: "?k < length (msLog ms)" using lo hi by simp
  let ?e = "msLog ms ! ?k"
  define ms' where "ms' = ms\<lparr>msEnts := Entry0\<lparr>eIndex := Some (Entry_GetIndex ?e),
      eTerm := Some (Entry_GetTerm ?e)\<rparr> # drop (Suc ?k) (msLog ms)\<rparr>"
  have run: "MS_Compact i ms = Some (Inr ms')"
    using le k k1 kl d(1,2)
    by (simp add: MS_Compact_def MS_lastIndex_eq [OF ok] go_run ms'_def del: of_nat_add)
  have ix: "unat (Entry_GetIndex ?e) = unat i"
    using contig_nth [OF d(3) kl] lo by simp
  have c: "contig (Suc (unat i)) (drop (Suc ?k) (msLog ms))"
    using contig_drop [OF _ d(3), of "Suc ?k"] kl lo by simp
  have "ms_ok ms'" "msBase ms' = unat i" "msBaseTerm ms' = Entry_GetTerm ?e"
      "msLog ms' = drop (Suc ?k) (msLog ms)"
    using ms_okI [of ms' _ "drop (Suc ?k) (msLog ms)"] c ix d(4)
    by (simp_all add: ms'_def getters)
  with run that [of ms'] lo show ?thesis by (simp add: ms'_def Suc_diff_Suc)
qed

lemma MS_Compact_old: "ms_ok ms \<Longrightarrow> unat i \<le> msBase ms \<Longrightarrow> MS_Compact i ms = Some (Inl ErrCompacted)"
  by (erule ms_okE) (simp add: MS_Compact_def go_run word_le_nat_alt)

lemma MS_Compact_beyond:
  assumes "ms_ok ms" and "msBase ms + length (msLog ms) < unat i"
  shows "MS_Compact i ms = None"
proof -
  obtain d where d: "msEnts ms = d # msLog ms" "unat (Entry_GetIndex d) = msBase ms"
    using assms(1) by (rule ms_okE)
  have "of_nat (msBase ms + length (msLog ms)) < i"
    using assms(2) ms_bound [OF assms(1)] by (subst less_of_nat64) auto
  with d assms(2) show ?thesis
    by (simp add: MS_Compact_def MS_lastIndex_eq [OF assms(1)] go_run word_le_nat_alt del: of_nat_add)
qed

lemma MS_ApplySnapshot_view:
  assumes "snapIndex (msSnapshot ms) = 0 \<or> snapIndex (msSnapshot ms) < snapIndex snap"
    and "snapIndex snap \<noteq> MaxUint64"
  obtains ms' where "MS_ApplySnapshot snap ms = Inr ms'" and "ms_ok ms'"
    and "msBase ms' = unat (snapIndex snap)" and "msBaseTerm ms' = snapTerm snap" and "msLog ms' = []"
    and "msSnapshot ms' = Some (EnsureSnapshot snap)" and "msHardState ms' = msHardState ms"
proof -
  have ens: "snapIndex (Some (EnsureSnapshot snap)) = snapIndex snap"
      "snapTerm (Some (EnsureSnapshot snap)) = snapTerm snap"
    by (auto simp: getters EnsureSnapshot_def EnsureSnapshotMetadata_def zero_defs Let_def
        split: option.splits)
  define ms' where "ms' = ms\<lparr>msSnapshot := Some (EnsureSnapshot snap),
      msEnts := [Entry0\<lparr>eTerm := Some (snapTerm snap), eIndex := Some (snapIndex snap)\<rparr>]\<rparr>"
  have "MS_ApplySnapshot snap ms = Inr ms'"
    using assms(1) by (auto simp: MS_ApplySnapshot_def Let_def ens ms'_def)
  moreover have "Suc (unat (snapIndex snap)) < 2 ^ 64"
    using unat_Suc64 [OF assms(2)] unat_lt64 [of "snapIndex snap + 1"] by simp
  then have "ms_ok ms'" "msBase ms' = unat (snapIndex snap)" "msBaseTerm ms' = snapTerm snap" "msLog ms' = []"
    using ms_okI [of ms' _ "[]"] by (simp_all add: ms'_def Entry_GetIndex_def Entry_GetTerm_def)
  ultimately show ?thesis using that [of ms'] by (simp add: ms'_def)
qed

lemma MS_CreateSnapshot_view:
  assumes ok: "ms_ok ms" and lo: "msBase ms < unat i" and hi: "unat i \<le> msBase ms + length (msLog ms)"
    and new: "snapIndex (msSnapshot ms) < i"
  obtains snap ms' where "MS_CreateSnapshot i cs data ms = Some (Inr (snap, ms'))"
    and "snapIndex (Some snap) = i"
    and "snapTerm (Some snap) = Entry_GetTerm (msLog ms ! (unat i - Suc (msBase ms)))"
    and "snData snap = data" and "cs \<noteq> None \<Longrightarrow> SnapshotMetadata_GetConfState (snMetadata snap) = cs"
    and "ms' = ms\<lparr>msSnapshot := Some snap\<rparr>"
proof -
  obtain d where d: "msEnts ms = d # msLog ms" "Entry_GetIndex d = of_nat (msBase ms)"
    using ok by (rule ms_okE)
  let ?k = "unat i - Suc (msBase ms)"
  have k: "unat (i - of_nat (msBase ms)) = Suc ?k" using sub_of_nat64 [of "msBase ms" i] lo by simp
  have le: "\<not> of_nat (msBase ms + length (msLog ms)) < i"
    using hi ms_bound [OF ok] by (subst less_of_nat64) auto
  have kl: "?k < length (msLog ms)" using lo hi by simp
  obtain m where m: "snMetadata (EnsureSnapshot (msSnapshot ms)) = Some m"
    by (simp add: EnsureSnapshot_def Let_def)
  let ?t = "Entry_GetTerm (msLog ms ! ?k)"
  define m' where "m' = (if cs = None then m else m\<lparr>smConfState := cs\<rparr>)\<lparr>smIndex := Some i, smTerm := Some ?t\<rparr>"
  define snap where "snap = EnsureSnapshot (msSnapshot ms)\<lparr>snMetadata := Some m', snData := data\<rparr>"
  have "MS_CreateSnapshot i cs data ms = Some (Inr (snap, ms\<lparr>msSnapshot := Some snap\<rparr>))"
    using new k le kl d m
    by (simp add: MS_CreateSnapshot_def MS_lastIndex_eq [OF ok] go_run snap_def m'_def Let_def
        del: of_nat_add)
  then show ?thesis
    by (rule that) (auto simp: snap_def m'_def getters)
qed

section \<open>The interface\<close>

text \<open>
  What the raft log relies on: a storage holds a run of entries after a base position whose
  term it remembers, and its reads answer from them.
\<close>

locale log_storage =
  fixes ok :: "'s \<Rightarrow> bool" and base :: "'s \<Rightarrow> nat" and baseTerm :: "'s \<Rightarrow> uint64"
    and ents :: "'s \<Rightarrow> Entry list"
    and FirstIndex :: "'s \<Rightarrow> (storage_error + uint64) option"
    and LastIndex :: "'s \<Rightarrow> (storage_error + uint64) option"
    and Term :: "uint64 \<Rightarrow> 's \<Rightarrow> (storage_error + uint64) option"
    and Entries :: "uint64 \<Rightarrow> uint64 \<Rightarrow> uint64 \<Rightarrow> 's \<Rightarrow> (storage_error + Entry list) option"
  assumes run: "ok s \<Longrightarrow> contig (Suc (base s)) (ents s)"
    and first: "ok s \<Longrightarrow> FirstIndex s = Some (Inr (of_nat (Suc (base s))))"
    and last: "ok s \<Longrightarrow> LastIndex s = Some (Inr (of_nat (base s + length (ents s))))"
    and term_compacted: "ok s \<Longrightarrow> unat i < base s \<Longrightarrow> Term i s = Some (Inl ErrCompacted)"
    and term_known: "ok s \<Longrightarrow> base s \<le> unat i \<Longrightarrow> unat i \<le> base s + length (ents s) \<Longrightarrow>
      Term i s = Some (Inr (if unat i = base s then baseTerm s
        else Entry_GetTerm (ents s ! (unat i - Suc (base s)))))"
    and entries_compacted: "ok s \<Longrightarrow> unat lo \<le> base s \<Longrightarrow> Entries lo hi m s = Some (Inl ErrCompacted)"
    and entries_known: "ok s \<Longrightarrow> base s < unat lo \<Longrightarrow> lo \<le> hi \<Longrightarrow>
      unat hi \<le> Suc (base s + length (ents s)) \<Longrightarrow> ents s \<noteq> [] \<Longrightarrow>
      Entries lo hi m s = Some (Inr (limitSize
        (take (unat hi - unat lo) (drop (unat lo - Suc (base s)) (ents s))) m))"
begin

text \<open>The entries a read returns carry the requested indexes and the terms that \<^verbatim>\<open>Term\<close> reports.\<close>

lemma entries_agree:
  assumes ok: "ok s" and lo: "base s < unat lo" "lo \<le> hi" and hi: "unat hi \<le> Suc (base s + length (ents s))"
    and ne: "ents s \<noteq> []" and r: "Entries lo hi m s = Some (Inr es)" and k: "k < length es"
  shows "unat (Entry_GetIndex (es ! k)) = unat lo + k \<and>
    Term (Entry_GetIndex (es ! k)) s = Some (Inr (Entry_GetTerm (es ! k)))"
proof -
  let ?part = "take (unat hi - unat lo) (drop (unat lo - Suc (base s)) (ents s))"
  let ?i = "unat lo - Suc (base s) + k"
  have es: "es = limitSize ?part m" using entries_known [OF ok lo hi ne] r by simp
  obtain n where n: "n \<le> length ?part" "limitSize ?part m = take n ?part"
    by (rule limitSize_prefix [of ?part m])
  have i: "?i < length (ents s)" and nth: "es ! k = ents s ! ?i"
    using k n es lo by (auto simp: add.commute)
  have ix: "unat (Entry_GetIndex (es ! k)) = unat lo + k"
    using contig_nth [OF run [OF ok] i] nth lo by simp
  define e where "e = es ! k"
  have e: "unat (Entry_GetIndex e) = unat lo + k" "e = ents s ! ?i" using ix nth by (simp_all add: e_def)
  have "Term (Entry_GetIndex e) s = Some (Inr (Entry_GetTerm (ents s ! (unat lo + k - Suc (base s)))))"
    using term_known [OF ok, of "Entry_GetIndex e", unfolded e(1)] i lo(1) by simp
  moreover have "unat lo + k - Suc (base s) = ?i" using lo by simp
  ultimately have "Term (Entry_GetIndex (es ! k)) s = Some (Inr (Entry_GetTerm (es ! k)))"
    using e(2) by (simp add: e_def)
  with ix show ?thesis by simp
qed

lemma entries_nonempty:
  assumes "ok s" and "base s < unat lo" and "lo < hi" and "unat hi \<le> Suc (base s + length (ents s))"
  obtains es where "Entries lo hi m s = Some (Inr es)" and "es \<noteq> []"
proof -
  let ?part = "take (unat hi - unat lo) (drop (unat lo - Suc (base s)) (ents s))"
  have ne: "ents s \<noteq> []" and part: "?part \<noteq> []"
    using assms(2-4) by (auto simp: word_less_nat_alt)
  from part have "limitSize ?part m \<noteq> []" by simp
  with entries_known [OF assms(1,2) _ assms(4) ne, of m] assms(3) that show ?thesis by simp
qed

end

interpretation ms: log_storage ms_ok msBase msBaseTerm msLog MS_FirstIndex MS_LastIndex MS_Term MS_Entries
proof
  fix s lo hi m i
  show "ms_ok s \<Longrightarrow> contig (Suc (msBase s)) (msLog s)" by (rule ms_okE)
  show "ms_ok s \<Longrightarrow> MS_FirstIndex s = Some (Inr (of_nat (Suc (msBase s))))"
    by (simp add: MS_FirstIndex_def MS_firstIndex_eq)
  show "ms_ok s \<Longrightarrow> MS_LastIndex s = Some (Inr (of_nat (msBase s + length (msLog s))))"
    by (simp add: MS_LastIndex_def MS_lastIndex_eq)
qed (rule MS_Term_compacted MS_Term_eq MS_Entries_compacted MS_Entries_eq; assumption)+

section \<open>Properties\<close>

text \<open>
  A read of \<^verbatim>\<open>MemoryStorage\<close> within the log returns, without error, the longest prefix of
  the requested range that fits the size limit (at least one entry), and every entry returned
  has the requested index and the term that \<^verbatim>\<open>Term\<close> reports for it; a range that starts at or
  before the base gets \<^verbatim>\<open>ErrCompacted\<close>.
\<close>

lemma storage_entries_correct:
  assumes "ms_ok ms" and "lo < hi" and "unat hi \<le> Suc (msBase ms + length (msLog ms))"
  shows "if unat lo \<le> msBase ms then MS_Entries lo hi maxSize ms = Some (Inl ErrCompacted)
    else \<exists>es. MS_Entries lo hi maxSize ms = Some (Inr es) \<and> es \<noteq> [] \<and>
      es = limitSize (take (unat hi - unat lo) (drop (unat lo - Suc (msBase ms)) (msLog ms))) maxSize \<and>
      (\<forall>k < length es. unat (Entry_GetIndex (es ! k)) = unat lo + k \<and>
        MS_Term (Entry_GetIndex (es ! k)) ms = Some (Inr (Entry_GetTerm (es ! k))))"
proof (cases "unat lo \<le> msBase ms")
  case True
  then show ?thesis using ms.entries_compacted [OF assms(1)] by simp
next
  case False
  then have lo: "msBase ms < unat lo" "lo \<le> hi" and ne: "msLog ms \<noteq> []"
    using assms(3) less_imp_le [OF assms(2)] assms(2) [unfolded word_less_nat_alt] by auto
  obtain es where es: "MS_Entries lo hi maxSize ms = Some (Inr es)" "es \<noteq> []"
    using ms.entries_nonempty [OF assms(1) lo(1) assms(2,3)] by blast
  then show ?thesis
    using False ms.entries_known [OF assms(1) lo assms(3) ne, of maxSize]
      ms.entries_agree [OF assms(1) lo assms(3) ne es(1)] by simp
qed

definition demoStorage :: MemoryStorage where
  "demoStorage = NewMemoryStorage
     \<lparr>msEnts := [demoEntry 1 4, demoEntry 1 5, demoEntry 2 6, demoEntry 2 7]\<rparr>"

lemma demoStorage_view:
  "ms_ok demoStorage" "msBase demoStorage = 4" "msLog demoStorage = [demoEntry 1 5, demoEntry 2 6, demoEntry 2 7]"
  by (simp_all add: demoStorage_def ms_ok_def ms_view demoEntry_def Entry_GetIndex_def)

lemma storage_entries_correct_demo:
  "(\<exists>es. MS_Entries 5 8 0 demoStorage = Some (Inr es) \<and> es \<noteq> []) \<and>
   MS_Entries 4 8 0 demoStorage = Some (Inl ErrCompacted)"
  using storage_entries_correct [OF demoStorage_view(1), of 5 8 0]
    storage_entries_correct [OF demoStorage_view(1), of 4 8 0]
  by (simp add: demoStorage_view(2,3))

text \<open>
  \<^verbatim>\<open>Append\<close> of consecutive entries panics exactly when they would leave a gap after the
  log. Otherwise it keeps the storage well-formed and its base in place, replaces the log from
  the first new index on, and skips what is already compacted.
\<close>

lemma storage_append_correct:
  assumes "ms_ok ms" and "contig i es" and "es \<noteq> []"
    and "Suc (length (msLog ms) + length es) < 2 ^ 63"
  shows "(MS_Append es ms = None \<longleftrightarrow> Suc (msBase ms + length (msLog ms)) < i) \<and>
    (\<forall>ms'. MS_Append es ms = Some ms' \<longrightarrow> ms_ok ms' \<and> msBase ms' = msBase ms \<and>
      msBaseTerm ms' = msBaseTerm ms \<and> msLog ms' = appended (msBase ms) (msLog ms) i es)"
proof (cases "Suc (msBase ms + length (msLog ms)) < i")
  case True
  then show ?thesis using MS_Append_gap [OF assms(1-3)] by simp
next
  case False
  then have "i \<le> Suc (msBase ms + length (msLog ms))" by simp
  from MS_Append_view [OF assms(1-4) this] obtain ms' where
    "MS_Append es ms = Some ms'" "ms_ok ms'" "msBase ms' = msBase ms"
    "msBaseTerm ms' = msBaseTerm ms" "msLog ms' = appended (msBase ms) (msLog ms) i es" .
  with False show ?thesis by simp
qed

lemma storage_append_correct_demo:
  "\<exists>ms'. MS_Append [demoEntry 3 6] demoStorage = Some ms' \<and> msLog ms' = [demoEntry 1 5, demoEntry 3 6]"
proof -
  have "contig 6 [demoEntry 3 6]" by (simp add: demoEntry_def Entry_GetIndex_def)
  from storage_append_correct [OF demoStorage_view(1) this] show ?thesis
    by (cases "MS_Append [demoEntry 3 6] demoStorage") (auto simp: demoStorage_view(2,3) appended_def)
qed

text \<open>
  \<^verbatim>\<open>Compact\<close> to a position after the base and within the log keeps the rest of the log, the
  index and the term of that position as the new base; a position at or before the base is
  \<^verbatim>\<open>ErrCompacted\<close>, and one after the log panics.
\<close>

lemma storage_compact_correct:
  assumes "ms_ok ms"
  shows "if unat i \<le> msBase ms then MS_Compact i ms = Some (Inl ErrCompacted)
    else if msBase ms + length (msLog ms) < unat i then MS_Compact i ms = None
    else \<exists>ms'. MS_Compact i ms = Some (Inr ms') \<and> ms_ok ms' \<and> msBase ms' = unat i \<and>
      MS_Term i ms = Some (Inr (msBaseTerm ms')) \<and> msLog ms' = drop (unat i - msBase ms) (msLog ms)"
proof (cases "unat i \<le> msBase ms")
  case True
  then show ?thesis using MS_Compact_old [OF assms] by simp
next
  case lo: False
  show ?thesis
  proof (cases "msBase ms + length (msLog ms) < unat i")
    case True
    with lo show ?thesis using MS_Compact_beyond [OF assms] by simp
  next
    case False
    have "msBase ms < unat i" "unat i \<le> msBase ms + length (msLog ms)" using lo False by simp_all
    from MS_Compact_view [OF assms this] obtain ms' where
      "MS_Compact i ms = Some (Inr ms')" "ms_ok ms'" "msBase ms' = unat i"
      "msBaseTerm ms' = Entry_GetTerm (msLog ms ! (unat i - Suc (msBase ms)))"
      "msLog ms' = drop (unat i - msBase ms) (msLog ms)" .
    with lo False ms.term_known [OF assms, of i] show ?thesis by simp
  qed
qed

lemma storage_compact_correct_demo:
  "\<exists>ms'. MS_Compact 6 demoStorage = Some (Inr ms') \<and> msBase ms' = 6 \<and> msLog ms' = [demoEntry 2 7]"
  using storage_compact_correct [OF demoStorage_view(1), of 6]
  by (simp add: demoStorage_view(2,3)) blast

end
