(* ===== verification/Unstable.thy ===== *)
theory Unstable
  imports RaftUtil
begin

text \<open>
  The unstable tail of the log (src/raftsubject/raft/log_unstable.go): entries and a snapshot
  that are not yet known to be in stable storage, and the mark of what is being written. The
  comma-ok results of the code are options; an outer option is the panic.
\<close>

section \<open>State and operations\<close>

record unstable =
  uSnapshot :: "Snapshot option"
  uEntries :: "Entry list"
  uOffset :: uint64
  uSnapshotInProgress :: bool
  uOffsetInProgress :: uint64

definition maybeFirstIndex :: "unstable \<Rightarrow> uint64 option" where
  "maybeFirstIndex u = (if uSnapshot u \<noteq> None then Some (snapIndex (uSnapshot u) + 1) else None)"

definition maybeLastIndex :: "unstable \<Rightarrow> uint64 option" where
  "maybeLastIndex u =
     (if length (uEntries u) \<noteq> 0 then Some (uOffset u + len64 (uEntries u) - 1)
      else if uSnapshot u \<noteq> None then Some (snapIndex (uSnapshot u))
      else None)"

definition maybeTerm :: "uint64 \<Rightarrow> unstable \<Rightarrow> uint64 option option" where
  "maybeTerm i u =
     (if i < uOffset u then
        Some (if uSnapshot u \<noteq> None \<and> snapIndex (uSnapshot u) = i then Some (snapTerm (uSnapshot u)) else None)
      else case maybeLastIndex u of
        None \<Rightarrow> Some None
      | Some li \<Rightarrow>
          if i > li then Some None
          else map_option (\<lambda>e. Some (Entry_GetTerm e)) (go_index (uEntries u) (unat (i - uOffset u))))"

definition nextEntries :: "unstable \<Rightarrow> Entry list option" where
  "nextEntries u =
     (let inProgress = sint (uOffsetInProgress u - uOffset u)
      in if int (length (uEntries u)) = inProgress then Some []
         else if inProgress < 0 then None else go_from (uEntries u) (nat inProgress))"

definition nextSnapshot :: "unstable \<Rightarrow> Snapshot option" where
  "nextSnapshot u = (if uSnapshot u = None \<or> uSnapshotInProgress u then None else uSnapshot u)"

definition acceptInProgress :: "unstable \<Rightarrow> unstable" where
  "acceptInProgress u =
     (let u = (if length (uEntries u) > 0
               then u\<lparr>uOffsetInProgress := Entry_GetIndex (last (uEntries u)) + 1\<rparr> else u)
      in if uSnapshot u \<noteq> None then u\<lparr>uSnapshotInProgress := True\<rparr> else u)"

text \<open>Drops the backing array of an empty slice, which a list does not have.\<close>

definition shrinkEntriesArray :: "unstable \<Rightarrow> unstable" where
  "shrinkEntriesArray u = (if length (uEntries u) = 0 then u\<lparr>uEntries := []\<rparr> else u)"

definition unstable_stableTo :: "entryID \<Rightarrow> unstable \<Rightarrow> unstable option" where
  "unstable_stableTo x u = do {
     gt \<leftarrow> maybeTerm (idIndex x) u;
     case gt of
       None \<Rightarrow> Some u
     | Some gt \<Rightarrow>
         if idIndex x < uOffset u then Some u
         else if gt \<noteq> idTerm x then Some u
         else do {
           let num = sint (idIndex x + 1 - uOffset u);
           panic_if (num < 0);
           ents \<leftarrow> go_from (uEntries u) (nat num);
           let u = u\<lparr>uEntries := ents, uOffset := idIndex x + 1\<rparr>;
           let u = u\<lparr>uOffsetInProgress := max (uOffsetInProgress u) (uOffset u)\<rparr>;
           Some (shrinkEntriesArray u)
         }
   }"

definition unstable_stableSnapTo :: "uint64 \<Rightarrow> unstable \<Rightarrow> unstable" where
  "unstable_stableSnapTo i u =
     (if uSnapshot u \<noteq> None \<and> snapIndex (uSnapshot u) = i
      then u\<lparr>uSnapshot := None, uSnapshotInProgress := False\<rparr> else u)"

definition unstable_restore :: "Snapshot \<Rightarrow> unstable \<Rightarrow> unstable" where
  "unstable_restore s u =
     u\<lparr>uOffset := snapIndex (Some s) + 1, uOffsetInProgress := snapIndex (Some s) + 1,
       uEntries := [], uSnapshot := Some s, uSnapshotInProgress := False\<rparr>"

definition unstable_mustCheckOutOfBounds :: "uint64 \<Rightarrow> uint64 \<Rightarrow> unstable \<Rightarrow> unit option" where
  "unstable_mustCheckOutOfBounds lo hi u = do {
     panic_if (lo > hi);
     let upper = uOffset u + len64 (uEntries u);
     panic_if (lo < uOffset u \<or> hi > upper)
   }"

definition unstable_slice :: "uint64 \<Rightarrow> uint64 \<Rightarrow> unstable \<Rightarrow> Entry list option" where
  "unstable_slice lo hi u = do {
     unstable_mustCheckOutOfBounds lo hi u;
     go_slice (uEntries u) (unat (lo - uOffset u)) (unat (hi - uOffset u))
   }"

definition truncateAndAppend :: "Entry list \<Rightarrow> unstable \<Rightarrow> unstable option" where
  "truncateAndAppend ents u = do {
     e \<leftarrow> go_index ents 0;
     let fromIndex = Entry_GetIndex e;
     if fromIndex = uOffset u + len64 (uEntries u) then Some (u\<lparr>uEntries := uEntries u @ ents\<rparr>)
     else if fromIndex \<le> uOffset u then
       Some (u\<lparr>uEntries := ents, uOffset := fromIndex, uOffsetInProgress := fromIndex\<rparr>)
     else do {
       keep \<leftarrow> unstable_slice (uOffset u) fromIndex u;
       Some (u\<lparr>uEntries := keep @ ents, uOffsetInProgress := min (uOffsetInProgress u) fromIndex\<rparr>)
     }
   }"

section \<open>The invariant\<close>

text \<open>
  The entries run from the offset, the in-progress mark lies within them, and a pending
  snapshot ends before them.
\<close>

definition unstable_ok :: "unstable \<Rightarrow> bool" where
  "unstable_ok u \<longleftrightarrow> contig (unat (uOffset u)) (uEntries u) \<and> length (uEntries u) < 2 ^ 63 \<and>
     uOffset u \<le> uOffsetInProgress u \<and>
     unat (uOffsetInProgress u) \<le> unat (uOffset u) + length (uEntries u) \<and>
     (\<forall>s. uSnapshot u = Some s \<longrightarrow> snapIndex (Some s) < uOffset u)"

abbreviation uEnd :: "unstable \<Rightarrow> nat" where
  "uEnd u \<equiv> unat (uOffset u) + length (uEntries u)"

lemma uEnd_lt: "unstable_ok u \<Longrightarrow> uEnd u < 2 ^ 64"
  by (auto simp: unstable_ok_def dest: contig_length)

lemma upper_unat: "unstable_ok u \<Longrightarrow> unat (uOffset u + len64 (uEntries u)) = uEnd u"
  unfolding len64_def by (intro unat_add_of_nat) (rule uEnd_lt)

lemma last_unat:
  assumes "unstable_ok u" and "uEntries u \<noteq> []"
  shows "unat (uOffset u + len64 (uEntries u) - 1) = uEnd u - 1"
proof -
  have "uOffset u + len64 (uEntries u) \<noteq> 0"
    using upper_unat [OF assms(1)] assms(2) by (auto simp: word_unat_eq_iff)
  then show ?thesis using upper_unat [OF assms(1)] by (simp add: unat_pred64)
qed

lemma maybeTerm_eq:
  assumes "unstable_ok u"
  shows "maybeTerm i u = Some (
    if i < uOffset u then
      (case uSnapshot u of None \<Rightarrow> None
       | Some s \<Rightarrow> if snapIndex (Some s) = i then Some (snapTerm (Some s)) else None)
    else if unat i < uEnd u then Some (Entry_GetTerm (uEntries u ! (unat i - unat (uOffset u)))) else None)"
proof (cases "i < uOffset u")
  case True
  then show ?thesis by (auto simp: maybeTerm_def split: option.splits)
next
  case ge: False
  show ?thesis
  proof (cases "uEntries u = []")
    case True
    then show ?thesis
      using ge assms
      by (cases "uSnapshot u") (auto simp: maybeTerm_def maybeLastIndex_def unstable_ok_def word_less_nat_alt)
  next
    case False
    then have "i > uOffset u + len64 (uEntries u) - 1 \<longleftrightarrow> \<not> unat i < uEnd u"
      unfolding word_less_nat_alt last_unat [OF assms False] by (cases "uEntries u") auto
    moreover have "unat (i - uOffset u) = unat i - unat (uOffset u)"
      using ge by (simp add: unat_sub64)
    ultimately show ?thesis
      using ge False by (auto simp: maybeTerm_def maybeLastIndex_def go_index_def word_less_nat_alt)
  qed
qed

lemma nextEntries_eq:
  assumes "unstable_ok u"
  shows "nextEntries u = Some (drop (unat (uOffsetInProgress u) - unat (uOffset u)) (uEntries u))"
proof -
  let ?d = "uOffsetInProgress u - uOffset u"
  have d: "unat ?d = unat (uOffsetInProgress u) - unat (uOffset u)" "unat ?d \<le> length (uEntries u)"
      "unat ?d < 2 ^ 63"
    using assms by (auto simp: unstable_ok_def unat_sub64)
  have s: "sint ?d = int (unat ?d)" using sint_small64 [OF d(3)] .
  show ?thesis
    unfolding nextEntries_def s Let_def using d by (auto simp: go_from_def)
qed

lemma unstable_slice_eq:
  assumes "unstable_ok u" and "uOffset u \<le> lo" and "lo \<le> hi" and "unat hi \<le> uEnd u"
  shows "unstable_slice lo hi u =
    Some (take (unat hi - unat lo) (drop (unat lo - unat (uOffset u)) (uEntries u)))"
proof -
  have "unat (lo - uOffset u) = unat lo - unat (uOffset u)" "unat (hi - uOffset u) = unat hi - unat (uOffset u)"
    using assms(2,3) by (simp_all add: unat_sub64)
  moreover have "\<not> hi > uOffset u + len64 (uEntries u)"
    unfolding word_less_nat_alt upper_unat [OF assms(1)] using assms(4) by simp
  ultimately show ?thesis
    using assms(2-4)
    by (auto simp: unstable_slice_def unstable_mustCheckOutOfBounds_def go_slice_def Let_def
        word_le_nat_alt word_less_nat_alt)
qed

section \<open>What the operations do\<close>

text \<open>
  The three cases of \<^verbatim>\<open>truncateAndAppend\<close> are one: the tail is cut at the first new index, the
  new entries follow, and offset and mark move back to that index if they are past it.
\<close>

lemma truncateAndAppend_eq:
  assumes ok: "unstable_ok u" and c: "contig i es" and ne: "es \<noteq> []" and gap: "i \<le> uEnd u"
  shows "truncateAndAppend es u = Some (u
    \<lparr>uEntries := take (i - unat (uOffset u)) (uEntries u) @ es,
     uOffset := min (uOffset u) (of_nat i), uOffsetInProgress := min (uOffsetInProgress u) (of_nat i)\<rparr>)"
proof -
  define idx where "idx = Entry_GetIndex (es ! 0)"
  have i: "unat idx = i" using contig_hd [OF c ne] ne by (simp add: idx_def hd_conv_nth)
  then have of_i: "of_nat i = idx" by auto
  have run: "truncateAndAppend es u =
      (if idx = uOffset u + len64 (uEntries u) then Some (u\<lparr>uEntries := uEntries u @ es\<rparr>)
       else if idx \<le> uOffset u then
         Some (u\<lparr>uEntries := es, uOffset := idx, uOffsetInProgress := idx\<rparr>)
       else do {
         keep \<leftarrow> unstable_slice (uOffset u) idx u;
         Some (u\<lparr>uEntries := keep @ es, uOffsetInProgress := min (uOffsetInProgress u) idx\<rparr>)
       })"
    using ne by (simp add: truncateAndAppend_def go_index_def idx_def Let_def)
  consider (append) "i = uEnd u" | (replace) "i \<noteq> uEnd u" "idx \<le> uOffset u"
    | (cut) "i \<noteq> uEnd u" "uOffset u < idx" by fastforce
  then show ?thesis
  proof cases
    case append
    then have "idx = uOffset u + len64 (uEntries u)"
      using i upper_unat [OF ok] by (simp add: word_unat_eq_iff)
    moreover have "uOffset u \<le> idx" "uOffsetInProgress u \<le> idx"
      using append i ok by (simp_all add: word_le_nat_alt unstable_ok_def)
    moreover have "take (i - unat (uOffset u)) (uEntries u) = uEntries u" using append by simp
    ultimately show ?thesis
      unfolding run of_i by (simp add: min_absorb1)
  next
    case replace
    then have "idx \<noteq> uOffset u + len64 (uEntries u)"
      using i upper_unat [OF ok] by auto
    moreover have "idx \<le> uOffsetInProgress u" using replace(2) ok by (auto simp: unstable_ok_def)
    ultimately show ?thesis
      using replace i by (simp add: run of_i min_absorb2 word_le_nat_alt)
  next
    case cut
    then have "idx \<noteq> uOffset u + len64 (uEntries u)"
      using i upper_unat [OF ok] by auto
    moreover have "unstable_slice (uOffset u) idx u = Some (take (i - unat (uOffset u)) (uEntries u))"
      using unstable_slice_eq [OF ok, of "uOffset u" idx] cut(2) gap i by simp
    ultimately show ?thesis
      using cut by (simp add: run of_i min_absorb1)
  qed
qed

lemma truncateAndAppend_gap:
  assumes ok: "unstable_ok u" and c: "contig i es" and ne: "es \<noteq> []" and gap: "uEnd u < i"
  shows "truncateAndAppend es u = None"
proof -
  define idx where "idx = Entry_GetIndex (es ! 0)"
  have i: "unat idx = i" using contig_hd [OF c ne] ne by (simp add: idx_def hd_conv_nth)
  have "idx \<noteq> uOffset u + len64 (uEntries u)" "\<not> idx \<le> uOffset u" "idx > uOffset u + len64 (uEntries u)"
    using i gap upper_unat [OF ok] by (auto simp: word_le_nat_alt word_less_nat_alt)
  with ne show ?thesis
    by (simp add: truncateAndAppend_def go_index_def unstable_slice_def unstable_mustCheckOutOfBounds_def
        flip: idx_def)
qed

lemma truncateAndAppend_ok:
  assumes ok: "unstable_ok u" and c: "contig i es" and ne: "es \<noteq> []" and gap: "i \<le> uEnd u"
    and room: "length (uEntries u) + length es < 2 ^ 63"
    and snap: "\<And>s. uSnapshot u = Some s \<Longrightarrow> unat (snapIndex (Some s)) < i"
    and u': "truncateAndAppend es u = Some u'"
  shows "unstable_ok u'"
proof -
  have i: "unat (of_nat i :: uint64) = i" using contig_length [OF c] by (intro unat_of_nat64) simp
  note un = u' [unfolded truncateAndAppend_eq [OF ok c ne gap]]
  have "uOffset u \<le> uOffsetInProgress u" and cu: "contig (unat (uOffset u)) (uEntries u)"
    using ok by (simp_all add: unstable_ok_def)
  moreover have "unat (min x (of_nat i)) = min (unat x) i" for x :: uint64
    using i by (auto simp: min_def word_le_nat_alt)
  moreover have "contig (min (unat (uOffset u)) i) (take (i - unat (uOffset u)) (uEntries u) @ es)"
  proof (cases "i \<le> unat (uOffset u)")
    case False
    then have "unat (uOffset u) + length (take (i - unat (uOffset u)) (uEntries u)) = i" using gap by simp
    with False contig_take [OF cu] c show ?thesis by (simp add: min_def del: length_take)
  qed (use c in \<open>simp add: min_def\<close>)
  ultimately show ?thesis
    using un ne gap room snap ok i
    by (auto simp: unstable_ok_def word_le_nat_alt word_less_nat_alt)
qed

text \<open>
  \<^verbatim>\<open>stableTo\<close> drops the entries up to the given one if the tail holds that very entry, index
  and term; otherwise the tail was overwritten meanwhile and nothing happens.
\<close>

definition holds_entry :: "unstable \<Rightarrow> entryID \<Rightarrow> bool" where
  "holds_entry u x \<longleftrightarrow> uOffset u \<le> idIndex x \<and> unat (idIndex x) < uEnd u \<and>
     Entry_GetTerm (uEntries u ! (unat (idIndex x) - unat (uOffset u))) = idTerm x"

lemma unstable_stableTo_eq:
  assumes ok: "unstable_ok u"
  shows "unstable_stableTo x u = Some (if holds_entry u x then
     u\<lparr>uEntries := drop (Suc (unat (idIndex x) - unat (uOffset u))) (uEntries u), uOffset := idIndex x + 1,
       uOffsetInProgress := max (uOffsetInProgress u) (idIndex x + 1)\<rparr> else u)"
proof (cases "holds_entry u x")
  case True
  then have h: "uOffset u \<le> idIndex x" "unat (idIndex x) < uEnd u"
    "Entry_GetTerm (uEntries u ! (unat (idIndex x) - unat (uOffset u))) = idTerm x"
    by (simp_all add: holds_entry_def)
  define d where "d = idIndex x + 1 - uOffset u"
  have "unat (idIndex x + 1) = Suc (unat (idIndex x))"
    using unat_add_of_nat [of "idIndex x" 1] h(2) uEnd_lt [OF ok] by simp
  then have d: "unat d = Suc (unat (idIndex x) - unat (uOffset u))"
    using h(1) by (simp add: d_def unat_sub64 word_le_nat_alt Suc_diff_le)
  then have "unat d < 2 ^ 63" "unat d \<le> length (uEntries u)"
    using h ok by (auto simp: unstable_ok_def word_le_nat_alt)
  then have s: "\<not> sint d < 0" "nat (sint d) = unat d" "unat d \<le> length (uEntries u)"
    using sint_small64 [of d] by simp_all
  have "maybeTerm (idIndex x) u = Some (Some (idTerm x))" "\<not> idIndex x < uOffset u"
    using maybeTerm_eq [OF ok, of "idIndex x"] h by (simp_all add: leD)
  with s d True show ?thesis
    by (simp add: unstable_stableTo_def go_from_def shrinkEntriesArray_def Let_def flip: d_def)
next
  case False
  then show ?thesis
    using maybeTerm_eq [OF ok, of "idIndex x"]
    by (auto simp: unstable_stableTo_def holds_entry_def not_less split: option.splits)
qed

lemma unstable_stableTo_ok:
  assumes ok: "unstable_ok u" and u': "unstable_stableTo x u = Some u'"
  shows "unstable_ok u'"
proof (cases "holds_entry u x")
  case True
  then have h: "uOffset u \<le> idIndex x" "unat (idIndex x) < uEnd u" by (simp_all add: holds_entry_def)
  let ?n = "Suc (unat (idIndex x) - unat (uOffset u))"
  have nx: "unat (idIndex x + 1) = Suc (unat (idIndex x))"
    using unat_add_of_nat [of "idIndex x" 1] h(2) uEnd_lt [OF ok] by simp
  have c: "contig (unat (uOffset u)) (uEntries u)" using ok by (simp add: unstable_ok_def)
  have "contig (unat (uOffset u) + ?n) (drop ?n (uEntries u))"
    using contig_drop [OF _ c, of ?n] h by (simp add: word_le_nat_alt)
  moreover have "unat (uOffset u) + ?n = Suc (unat (idIndex x))" using h by (simp add: word_le_nat_alt)
  moreover have "unat (max y (idIndex x + 1)) = max (unat y) (Suc (unat (idIndex x)))" for y
    by (simp add: max_def word_le_nat_alt nx)
  ultimately show ?thesis
    using u' True ok h nx unfolding unstable_stableTo_eq [OF ok]
    by (auto simp: unstable_ok_def word_less_nat_alt word_le_nat_alt)
qed (use ok u' in \<open>simp add: unstable_stableTo_eq [OF ok]\<close>)

lemma acceptInProgress_eq:
  assumes "unstable_ok u"
  shows "acceptInProgress u = u\<lparr>uOffsetInProgress := of_nat (uEnd u),
    uSnapshotInProgress := (uSnapshotInProgress u \<or> uSnapshot u \<noteq> None)\<rparr>"
proof (cases "uEntries u = []")
  case True
  with assms have "uOffsetInProgress u = uOffset u"
    by (auto simp: unstable_ok_def word_le_nat_alt word_unat_eq_iff)
  with True show ?thesis
    by (cases u; cases "uSnapshot u") (auto simp: acceptInProgress_def Let_def)
next
  case False
  have "contig (unat (uOffset u)) (uEntries u)" using assms by (simp add: unstable_ok_def)
  from contig_last [OF this False]
  have "of_nat (unat (Entry_GetIndex (last (uEntries u))) + 1) = (of_nat (uEnd u) :: uint64)"
    using False by (cases "uEntries u") simp_all
  then have "Entry_GetIndex (last (uEntries u)) + 1 = of_nat (uEnd u)"
    by (simp only: of_nat_add of_nat_unat ucast_id of_nat_1)
  with False show ?thesis
    by (cases u; cases "uSnapshot u") (auto simp: acceptInProgress_def Let_def)
qed

lemma acceptInProgress_ok: "unstable_ok u \<Longrightarrow> unstable_ok (acceptInProgress u)"
  using uEnd_lt [of u] unat_of_nat64 [of "uEnd u"]
  by (simp add: acceptInProgress_eq) (auto simp: unstable_ok_def word_le_nat_alt)

lemma unstable_stableSnapTo_ok: "unstable_ok u \<Longrightarrow> unstable_ok (unstable_stableSnapTo i u)"
  by (auto simp: unstable_stableSnapTo_def unstable_ok_def)

lemma unstable_restore_ok: "snapIndex (Some s) \<noteq> MaxUint64 \<Longrightarrow> unstable_ok (unstable_restore s u)"
  using unat_Suc64 [of "snapIndex (Some s)"] unsigned_less [of "snapIndex (Some s) + 1", where 'a = nat]
  by (auto simp: unstable_restore_def unstable_ok_def word_less_nat_alt)

section \<open>Properties\<close>

text \<open>
  C38. Appending to the unstable tail never panics unless it would leave a gap, and then: the
  tail is the old one up to the first new index followed by the new entries; entries marked
  as being written stay marked only below that index; and the invariant holds.
\<close>

theorem unstable_append_correct:
  assumes "unstable_ok u" and "contig i es" and "es \<noteq> []" and "length (uEntries u) + length es < 2 ^ 63"
    and "\<forall>s. uSnapshot u = Some s \<longrightarrow> unat (snapIndex (Some s)) < i"
  shows "(truncateAndAppend es u = None \<longleftrightarrow> uEnd u < i) \<and>
    (\<forall>u'. truncateAndAppend es u = Some u' \<longrightarrow> unstable_ok u' \<and>
      uEntries u' = take (i - unat (uOffset u)) (uEntries u) @ es \<and>
      unat (uOffset u') = min (unat (uOffset u)) i \<and>
      unat (uOffsetInProgress u') = min (unat (uOffsetInProgress u)) i)"
proof (cases "uEnd u < i")
  case True
  then show ?thesis using truncateAndAppend_gap [OF assms(1-3)] by simp
next
  case False
  then have gap: "i \<le> uEnd u" by simp
  have i: "unat (of_nat i :: uint64) = i" using contig_length [OF assms(2)] by (intro unat_of_nat64) simp
  then have "unat (min x (of_nat i)) = min (unat x) i" for x :: uint64
    by (auto simp: min_def word_le_nat_alt)
  then show ?thesis
    using False truncateAndAppend_eq [OF assms(1-3) gap]
      truncateAndAppend_ok [OF assms(1-3) gap assms(4)] assms(5) by auto
qed

definition demoUnstable :: unstable where
  "demoUnstable = \<lparr>uSnapshot = None, uEntries = [demoEntry 2 5, demoEntry 2 6], uOffset = 5,
     uSnapshotInProgress = False, uOffsetInProgress = 7\<rparr>"

lemma demoUnstable_ok: "unstable_ok demoUnstable"
  by (simp add: demoUnstable_def unstable_ok_def demoEntry_def Entry_GetIndex_def)

theorem unstable_append_correct_witness:
  "\<exists>u'. truncateAndAppend [demoEntry 3 6] demoUnstable = Some u' \<and>
     uEntries u' = [demoEntry 2 5, demoEntry 3 6] \<and> unat (uOffsetInProgress u') = 6"
proof -
  have "contig 6 [demoEntry 3 6]" by (simp add: demoEntry_def Entry_GetIndex_def)
  from unstable_append_correct [OF demoUnstable_ok this] show ?thesis
    by (cases "truncateAndAppend [demoEntry 3 6] demoUnstable") (auto simp: demoUnstable_def)
qed

text \<open>
  \<^verbatim>\<open>stableTo\<close> never panics on a well-formed tail; it drops the entries up to the reported one
  exactly when the tail still holds an entry with that index and term, so an acknowledgement of
  a write that has been overwritten since is ignored. What remains is still well-formed, and
  the entries still to be written are those it was before, less the dropped ones.
\<close>

lemma unstable_stable_to_correct:
  assumes "unstable_ok u"
  shows "\<exists>u'. unstable_stableTo x u = Some u' \<and> unstable_ok u' \<and>
    (holds_entry u x \<longrightarrow> uOffset u' = idIndex x + 1 \<and>
      uEntries u' = drop (Suc (unat (idIndex x) - unat (uOffset u))) (uEntries u)) \<and>
    (\<not> holds_entry u x \<longrightarrow> u' = u) \<and>
    nextEntries u' = Some (drop (max (unat (uOffsetInProgress u)) (unat (uOffset u')) - unat (uOffset u)) (uEntries u))"
proof -
  obtain u' where u': "unstable_stableTo x u = Some u'"
    using unstable_stableTo_eq [OF assms] by blast
  have ok': "unstable_ok u'" using unstable_stableTo_ok [OF assms u'] .
  have off: "unat (uOffset u) \<le> unat (uOffsetInProgress u)"
    using assms by (simp add: unstable_ok_def word_le_nat_alt)
  show ?thesis
  proof (cases "holds_entry u x")
    case False
    with u' have "u' = u" by (simp add: unstable_stableTo_eq [OF assms])
    with False u' ok' off nextEntries_eq [OF ok'] show ?thesis by (simp add: max_absorb1)
  next
    case True
    then have h: "uOffset u \<le> idIndex x" "unat (idIndex x) < uEnd u" by (simp_all add: holds_entry_def)
    then have nx: "unat (idIndex x + 1) = Suc (unat (idIndex x))"
      using unat_add_of_nat [of "idIndex x" 1] uEnd_lt [OF assms] by simp
    then have "unat (max y (idIndex x + 1)) = max (unat y) (Suc (unat (idIndex x)))" for y
      by (simp add: max_def word_le_nat_alt)
    with True u' ok' nx h nextEntries_eq [OF ok'] show ?thesis
      by (auto simp: unstable_stableTo_eq [OF assms] word_le_nat_alt max_def Suc_diff_Suc Suc_diff_le not_le)
  qed
qed

lemma unstable_stable_to_correct_demo:
  "(\<exists>u'. unstable_stableTo \<lparr>idTerm = 2, idIndex = 5\<rparr> demoUnstable = Some u' \<and> uEntries u' = [demoEntry 2 6]) \<and>
   unstable_stableTo \<lparr>idTerm = 1, idIndex = 5\<rparr> demoUnstable = Some demoUnstable"
proof -
  have "holds_entry demoUnstable \<lparr>idTerm = 2, idIndex = 5\<rparr>" "\<not> holds_entry demoUnstable \<lparr>idTerm = 1, idIndex = 5\<rparr>"
    by (simp_all add: holds_entry_def demoUnstable_def demoEntry_def Entry_GetTerm_def)
  then show ?thesis
    using unstable_stable_to_correct [OF demoUnstable_ok, of "\<lparr>idTerm = 2, idIndex = 5\<rparr>"]
      unstable_stable_to_correct [OF demoUnstable_ok, of "\<lparr>idTerm = 1, idIndex = 5\<rparr>"]
    by (auto simp: demoUnstable_def)
qed

end
