(* ===== verification/RaftLog.thy ===== *)
theory RaftLog
  imports Storage Unstable
begin

text \<open>
  The raft log (src/raftsubject/raft/log.go): the stable storage and the unstable tail seen as
  one log, with the commit, applying and applied positions. The operations follow the code;
  the second half relates them to the abstract log \<open>logBase\<close>/\<open>logEnts\<close> of a state that is
  \<open>log_ok\<close>, and shows what each one does to it.

  The storage is a \<^verbatim>\<open>MemoryStorage\<close> held in the record: the application and the log share it,
  so a write of the application is an update of this field. Logging has no effect but
  \<^verbatim>\<open>Panicf\<close>.
\<close>

section \<open>State\<close>

record raftLog =
  lStorage :: MemoryStorage
  lUnstable :: unstable
  lCommitted :: uint64
  lApplying :: uint64
  lApplied :: uint64
  lMaxApplyingEntsSize :: uint64
  lApplyingEntsSize :: uint64
  lApplyingEntsPaused :: bool

text \<open>\<^verbatim>\<open>x, err := \<dots>; if err != nil { panic(err) }\<close>\<close>

definition or_panic :: "('e + 'a) option \<Rightarrow> 'a option" where
  "or_panic r = (case r of Some (Inr x) \<Rightarrow> Some x | _ \<Rightarrow> None)"

definition newLogWithSize :: "MemoryStorage \<Rightarrow> uint64 \<Rightarrow> raftLog option" where
  "newLogWithSize storage maxApplyingEntsSize = do {
     firstIndex \<leftarrow> or_panic (MS_FirstIndex storage);
     lastIndex \<leftarrow> or_panic (MS_LastIndex storage);
     Some \<lparr>lStorage = storage,
       lUnstable = \<lparr>uSnapshot = None, uEntries = [], uOffset = lastIndex + 1,
         uSnapshotInProgress = False, uOffsetInProgress = lastIndex + 1\<rparr>,
       lCommitted = firstIndex - 1, lApplying = firstIndex - 1, lApplied = firstIndex - 1,
       lMaxApplyingEntsSize = maxApplyingEntsSize, lApplyingEntsSize = 0, lApplyingEntsPaused = False\<rparr>
   }"

definition newLog :: "MemoryStorage \<Rightarrow> raftLog option" where
  "newLog storage = newLogWithSize storage noLimit"

section \<open>Reading\<close>

definition log_firstIndex :: "raftLog \<Rightarrow> uint64 option" where
  "log_firstIndex l =
     (case maybeFirstIndex (lUnstable l) of
        Some i \<Rightarrow> Some i
      | None \<Rightarrow> or_panic (MS_FirstIndex (lStorage l)))"

definition log_lastIndex :: "raftLog \<Rightarrow> uint64 option" where
  "log_lastIndex l =
     (case maybeLastIndex (lUnstable l) of
        Some i \<Rightarrow> Some i
      | None \<Rightarrow> or_panic (MS_LastIndex (lStorage l)))"

definition log_term :: "uint64 \<Rightarrow> raftLog \<Rightarrow> (storage_error + uint64) option" where
  "log_term i l = do {
     t \<leftarrow> maybeTerm i (lUnstable l);
     case t of
       Some t \<Rightarrow> Some (Inr t)
     | None \<Rightarrow> do {
         fi \<leftarrow> log_firstIndex l;
         if i + 1 < fi then Some (Inl ErrCompacted)
         else do {
           li \<leftarrow> log_lastIndex l;
           if i > li then Some (Inl ErrUnavailable)
           else do {
             r \<leftarrow> MS_Term i (lStorage l);
             case r of
               Inr t \<Rightarrow> Some (Inr t)
             | Inl e \<Rightarrow> if e = ErrCompacted \<or> e = ErrUnavailable then Some (Inl e) else None
           }
         }
       }
   }"

fun zeroTermOnOutOfBounds :: "storage_error + uint64 \<Rightarrow> uint64 option" where
  "zeroTermOnOutOfBounds (Inr t) = Some t"
| "zeroTermOnOutOfBounds (Inl e) = (if e = ErrCompacted \<or> e = ErrUnavailable then Some 0 else None)"

definition matchTerm :: "entryID \<Rightarrow> raftLog \<Rightarrow> bool option" where
  "matchTerm x l = do {
     r \<leftarrow> log_term (idIndex x) l;
     Some (case r of Inl e \<Rightarrow> False | Inr t \<Rightarrow> t = idTerm x)
   }"

definition log_lastEntryID :: "raftLog \<Rightarrow> entryID option" where
  "log_lastEntryID l = do {
     index \<leftarrow> log_lastIndex l;
     t \<leftarrow> or_panic (log_term index l);
     Some \<lparr>idTerm = t, idIndex = index\<rparr>
   }"

definition isUpToDate :: "entryID \<Rightarrow> raftLog \<Rightarrow> bool option" where
  "isUpToDate their l = do {
     our \<leftarrow> log_lastEntryID l;
     Some (idTerm their > idTerm our \<or> idTerm their = idTerm our \<and> idIndex their \<ge> idIndex our)
   }"

definition log_mustCheckOutOfBounds :: "uint64 \<Rightarrow> uint64 \<Rightarrow> raftLog \<Rightarrow> storage_error option option" where
  "log_mustCheckOutOfBounds lo hi l = do {
     panic_if (lo > hi);
     fi \<leftarrow> log_firstIndex l;
     if lo < fi then Some (Some ErrCompacted)
     else do {
       li \<leftarrow> log_lastIndex l;
       let len = li + 1 - fi;
       panic_if (hi > fi + len);
       Some None
     }
   }"

text \<open>
  The part of \<^verbatim>\<open>slice\<close> after the stable entries are read: the fast and the slow path that add
  unstable entries within what is left of the size budget.
\<close>

definition slice_unstable :: "uint64 \<Rightarrow> uint64 \<Rightarrow> uint64 \<Rightarrow> uint64 \<Rightarrow> Entry list \<Rightarrow> unstable \<Rightarrow> Entry list option" where
  "slice_unstable lo hi mid maxSize ents u =
     (if hi \<le> uOffset u then Some ents
      else if len64 ents < mid - lo then Some ents
      else let siz = entsSize ents
           in if siz \<ge> maxSize then Some ents
              else do {
                us \<leftarrow> unstable_slice (uOffset u) hi u;
                let us = limitSize us (maxSize - siz);
                if length us = 1 \<and> siz + entsSize us > maxSize then Some ents
                else Some (extendEnts ents us)
              })"

definition log_slice :: "uint64 \<Rightarrow> uint64 \<Rightarrow> uint64 \<Rightarrow> raftLog \<Rightarrow> (storage_error + Entry list) option" where
  "log_slice lo hi maxSize l = do {
     err \<leftarrow> log_mustCheckOutOfBounds lo hi l;
     case err of
       Some e \<Rightarrow> Some (Inl e)
     | None \<Rightarrow>
         if lo = hi then Some (Inr [])
         else if lo \<ge> uOffset (lUnstable l) then do {
           ents \<leftarrow> unstable_slice lo hi (lUnstable l);
           Some (Inr (limitSize ents maxSize))
         } else do {
           let mid = min hi (uOffset (lUnstable l));
           r \<leftarrow> MS_Entries lo mid maxSize (lStorage l);
           case r of
             Inl e \<Rightarrow> if e = ErrCompacted then Some (Inl e) else None
           | Inr ents \<Rightarrow> map_option Inr (slice_unstable lo hi mid maxSize ents (lUnstable l))
         }
   }"

definition log_entries :: "uint64 \<Rightarrow> uint64 \<Rightarrow> raftLog \<Rightarrow> (storage_error + Entry list) option" where
  "log_entries i maxSize l = do {
     li \<leftarrow> log_lastIndex l;
     if i > li then Some (Inr []) else log_slice i (li + 1) maxSize l
   }"

text \<open>
  A compaction error makes \<^verbatim>\<open>allEntries\<close> try again: the result is \<open>None\<close> for a panic and for a
  state in which it would try forever.
\<close>

partial_function (option) allEntries :: "raftLog \<Rightarrow> Entry list option" where
  "allEntries l = do {
     fi \<leftarrow> log_firstIndex l;
     r \<leftarrow> log_entries fi noLimit l;
     case r of
       Inr ents \<Rightarrow> Some ents
     | Inl e \<Rightarrow> if e = ErrCompacted then allEntries l else None
   }"

text \<open>
  \<^verbatim>\<open>scan\<close> calls back with pages of entries; the callback threads a state and may stop the scan
  with an error of its own.
\<close>

datatype 'e scan_error = ScanStorage storage_error | ScanEmpty | ScanCallback 'e

partial_function (option) scan ::
  "(Entry list \<Rightarrow> 's \<Rightarrow> 'e option \<times> 's) \<Rightarrow> uint64 \<Rightarrow> uint64 \<Rightarrow> uint64 \<Rightarrow> raftLog \<Rightarrow> 's \<Rightarrow>
     ('e scan_error option \<times> 's) option" where
  "scan v lo hi pageSize l s =
     (if lo < hi then do {
        r \<leftarrow> log_slice lo hi pageSize l;
        case r of
          Inl e \<Rightarrow> Some (Some (ScanStorage e), s)
        | Inr ents \<Rightarrow>
            if length ents = 0 then Some (Some ScanEmpty, s)
            else (case v ents s of
                (Some e, s) \<Rightarrow> Some (Some (ScanCallback e), s)
              | (None, s) \<Rightarrow> scan v (lo + len64 ents) hi pageSize l s)
      } else Some (None, s))"

function findConflictByTerm :: "uint64 \<Rightarrow> uint64 \<Rightarrow> raftLog \<Rightarrow> (uint64 \<times> uint64) option" where
  "findConflictByTerm index t l =
     (if index > 0 then do {
        r \<leftarrow> log_term index l;
        case r of
          Inl e \<Rightarrow> Some (index, 0)
        | Inr ourTerm \<Rightarrow>
            if ourTerm \<le> t then Some (index, ourTerm) else findConflictByTerm (index - 1) t l
      } else Some (0, 0))"
  by pat_completeness auto
termination
  by (relation "measure (\<lambda>(index, t, l). unat index)") (auto simp: unat_pred64 word_neq_0_conv unat_gt_0)

declare findConflictByTerm.simps [simp del]

section \<open>Writing\<close>

definition commitTo :: "uint64 \<Rightarrow> raftLog \<Rightarrow> raftLog option" where
  "commitTo tocommit l =
     (if lCommitted l < tocommit then do {
        li \<leftarrow> log_lastIndex l;
        panic_if (li < tocommit);
        Some (l\<lparr>lCommitted := tocommit\<rparr>)
      } else Some l)"

definition log_append :: "Entry list \<Rightarrow> raftLog \<Rightarrow> (uint64 \<times> raftLog) option" where
  "log_append ents l =
     (if length ents = 0 then do { li \<leftarrow> log_lastIndex l; Some (li, l) }
      else do {
        let after = Entry_GetIndex (ents ! 0) - 1;
        panic_if (after < lCommitted l);
        u \<leftarrow> truncateAndAppend ents (lUnstable l);
        let l = l\<lparr>lUnstable := u\<rparr>;
        li \<leftarrow> log_lastIndex l;
        Some (li, l)
      })"

fun findConflict :: "Entry list \<Rightarrow> raftLog \<Rightarrow> uint64 option" where
  "findConflict [] l = Some 0"
| "findConflict (e # es) l = do {
     m \<leftarrow> matchTerm (pbEntryID e) l;
     if \<not> m then do {
       li \<leftarrow> log_lastIndex l;
       (if Entry_GetIndex e \<le> li then do {
          t \<leftarrow> log_term (Entry_GetIndex e) l;
          zeroTermOnOutOfBounds t
        } else Some 0);
       Some (Entry_GetIndex e)
     } else findConflict es l
   }"

definition maybeAppend :: "logSlice \<Rightarrow> uint64 \<Rightarrow> raftLog \<Rightarrow> (uint64 option \<times> raftLog) option" where
  "maybeAppend a committed l = do {
     m \<leftarrow> matchTerm (lsPrev a) l;
     if \<not> m then Some (None, l)
     else do {
       let lastnewi = idIndex (lsPrev a) + len64 (lsEntries a);
       ci \<leftarrow> findConflict (lsEntries a) l;
       l \<leftarrow> (if ci = 0 then Some l
            else if ci \<le> lCommitted l then None
            else do {
              let offset = idIndex (lsPrev a) + 1;
              panic_if (ci - offset > len64 (lsEntries a));
              rest \<leftarrow> go_from (lsEntries a) (unat (ci - offset));
              (_, l) \<leftarrow> log_append rest l;
              Some l
            });
       l \<leftarrow> commitTo (min committed lastnewi) l;
       Some (Some lastnewi, l)
     }
   }"

definition maybeCommit :: "entryID \<Rightarrow> raftLog \<Rightarrow> (bool \<times> raftLog) option" where
  "maybeCommit at l =
     (if idTerm at \<noteq> 0 \<and> idIndex at > lCommitted l then do {
        m \<leftarrow> matchTerm at l;
        if m then do { l \<leftarrow> commitTo (idIndex at) l; Some (True, l) } else Some (False, l)
      } else Some (False, l))"

definition log_restore :: "Snapshot \<Rightarrow> raftLog \<Rightarrow> raftLog" where
  "log_restore s l =
     l\<lparr>lCommitted := snapIndex (Some s), lUnstable := unstable_restore s (lUnstable l)\<rparr>"

section \<open>Handing entries to storage and to the state machine\<close>

definition nextUnstableEnts :: "raftLog \<Rightarrow> Entry list option" where
  "nextUnstableEnts l = nextEntries (lUnstable l)"

definition hasNextUnstableEnts :: "raftLog \<Rightarrow> bool option" where
  "hasNextUnstableEnts l = do { es \<leftarrow> nextUnstableEnts l; Some (length es > 0) }"

definition hasNextOrInProgressUnstableEnts :: "raftLog \<Rightarrow> bool" where
  "hasNextOrInProgressUnstableEnts l \<longleftrightarrow> length (uEntries (lUnstable l)) > 0"

definition nextUnstableSnapshot :: "raftLog \<Rightarrow> Snapshot option" where
  "nextUnstableSnapshot l = nextSnapshot (lUnstable l)"

definition hasNextUnstableSnapshot :: "raftLog \<Rightarrow> bool" where
  "hasNextUnstableSnapshot l \<longleftrightarrow> nextSnapshot (lUnstable l) \<noteq> None"

definition hasNextOrInProgressSnapshot :: "raftLog \<Rightarrow> bool" where
  "hasNextOrInProgressSnapshot l \<longleftrightarrow> uSnapshot (lUnstable l) \<noteq> None"

definition log_snapshot :: "raftLog \<Rightarrow> (storage_error + Snapshot) \<times> raftLog" where
  "log_snapshot l =
     (case uSnapshot (lUnstable l) of
        Some s \<Rightarrow> (Inr s, l)
      | None \<Rightarrow> (case MS_Snapshot (lStorage l) of (r, ms) \<Rightarrow> (r, l\<lparr>lStorage := ms\<rparr>)))"

definition maxAppliableIndex :: "bool \<Rightarrow> raftLog \<Rightarrow> uint64" where
  "maxAppliableIndex allowUnstable l =
     (let hi = lCommitted l in if \<not> allowUnstable then min hi (uOffset (lUnstable l) - 1) else hi)"

definition nextCommittedEnts :: "bool \<Rightarrow> raftLog \<Rightarrow> Entry list option" where
  "nextCommittedEnts allowUnstable l =
     (if lApplyingEntsPaused l then Some []
      else if hasNextOrInProgressSnapshot l then Some []
      else let lo = lApplying l + 1; hi = maxAppliableIndex allowUnstable l + 1
           in if lo \<ge> hi then Some []
              else do {
                let maxSize = lMaxApplyingEntsSize l - lApplyingEntsSize l;
                panic_if (maxSize \<le> 0);
                or_panic (log_slice lo hi maxSize l)
              })"

definition hasNextCommittedEnts :: "bool \<Rightarrow> raftLog \<Rightarrow> bool" where
  "hasNextCommittedEnts allowUnstable l \<longleftrightarrow>
     (if lApplyingEntsPaused l then False
      else if hasNextOrInProgressSnapshot l then False
      else lApplying l + 1 < maxAppliableIndex allowUnstable l + 1)"

definition log_appliedTo :: "uint64 \<Rightarrow> uint64 \<Rightarrow> raftLog \<Rightarrow> raftLog option" where
  "log_appliedTo i siz l = do {
     panic_if (lCommitted l < i \<or> i < lApplied l);
     let l = l\<lparr>lApplied := i, lApplying := max (lApplying l) i\<rparr>;
     let l = (if lApplyingEntsSize l > siz then l\<lparr>lApplyingEntsSize := lApplyingEntsSize l - siz\<rparr>
              else l\<lparr>lApplyingEntsSize := 0\<rparr>);
     Some (l\<lparr>lApplyingEntsPaused := (lApplyingEntsSize l \<ge> lMaxApplyingEntsSize l)\<rparr>)
   }"

definition acceptApplying :: "uint64 \<Rightarrow> uint64 \<Rightarrow> bool \<Rightarrow> raftLog \<Rightarrow> raftLog option" where
  "acceptApplying i siz allowUnstable l = do {
     panic_if (lCommitted l < i);
     let l = l\<lparr>lApplying := i, lApplyingEntsSize := lApplyingEntsSize l + siz\<rparr>;
     Some (l\<lparr>lApplyingEntsPaused := (lApplyingEntsSize l \<ge> lMaxApplyingEntsSize l \<or>
       i < maxAppliableIndex allowUnstable l)\<rparr>)
   }"

definition log_stableTo :: "entryID \<Rightarrow> raftLog \<Rightarrow> raftLog option" where
  "log_stableTo x l = do { u \<leftarrow> unstable_stableTo x (lUnstable l); Some (l\<lparr>lUnstable := u\<rparr>) }"

definition log_stableSnapTo :: "uint64 \<Rightarrow> raftLog \<Rightarrow> raftLog" where
  "log_stableSnapTo i l = l\<lparr>lUnstable := unstable_stableSnapTo i (lUnstable l)\<rparr>"

definition acceptUnstable :: "raftLog \<Rightarrow> raftLog" where
  "acceptUnstable l = l\<lparr>lUnstable := acceptInProgress (lUnstable l)\<rparr>"

section \<open>The abstract log\<close>

text \<open>
  The log of a state: the position before its first entry, the term there, and the entries.
  A pending snapshot replaces what storage holds; otherwise the entries of storage below the
  offset are followed by the unstable ones.
\<close>

definition logBase :: "raftLog \<Rightarrow> nat" where
  "logBase l = (case uSnapshot (lUnstable l) of
     Some s \<Rightarrow> unat (snapIndex (Some s)) | None \<Rightarrow> msBase (lStorage l))"

definition logBaseTerm :: "raftLog \<Rightarrow> uint64" where
  "logBaseTerm l = (case uSnapshot (lUnstable l) of
     Some s \<Rightarrow> snapTerm (Some s) | None \<Rightarrow> msBaseTerm (lStorage l))"

definition stableEnts :: "raftLog \<Rightarrow> Entry list" where
  "stableEnts l = (case uSnapshot (lUnstable l) of
     Some s \<Rightarrow> []
   | None \<Rightarrow> take (unat (uOffset (lUnstable l)) - Suc (msBase (lStorage l))) (msLog (lStorage l)))"

definition logEnts :: "raftLog \<Rightarrow> Entry list" where
  "logEnts l = stableEnts l @ uEntries (lUnstable l)"

abbreviation logLast :: "raftLog \<Rightarrow> nat" where
  "logLast l \<equiv> logBase l + length (logEnts l)"

definition termAt :: "raftLog \<Rightarrow> nat \<Rightarrow> uint64 option" where
  "termAt l n = (if n = logBase l then Some (logBaseTerm l)
     else if logBase l < n \<and> n \<le> logLast l then Some (Entry_GetTerm (logEnts l ! (n - Suc (logBase l))))
     else None)"

text \<open>
  The shape of the log: both parts are well-formed; the unstable entries follow the snapshot,
  or the storage without a gap; and storage holds nothing past the log unless unstable entries
  are about to overwrite it.
\<close>

definition log_shape :: "raftLog \<Rightarrow> bool" where
  "log_shape l \<longleftrightarrow> ms_ok (lStorage l) \<and> unstable_ok (lUnstable l) \<and>
     (case uSnapshot (lUnstable l) of
        Some s \<Rightarrow> unat (uOffset (lUnstable l)) = Suc (unat (snapIndex (Some s)))
      | None \<Rightarrow> msBase (lStorage l) < unat (uOffset (lUnstable l)) \<and>
          unat (uOffset (lUnstable l)) \<le> Suc (msBase (lStorage l) + length (msLog (lStorage l))) \<and>
          (uEntries (lUnstable l) = [] \<longrightarrow>
            unat (uOffset (lUnstable l)) = Suc (msBase (lStorage l) + length (msLog (lStorage l)))))"

text \<open>The invariant adds the order of the positions, as documented at their fields.\<close>

definition log_ok :: "raftLog \<Rightarrow> bool" where
  "log_ok l \<longleftrightarrow> log_shape l \<and> lApplied l \<le> lApplying l \<and> lApplying l \<le> lCommitted l \<and>
     logBase l \<le> unat (lCommitted l) \<and> unat (lCommitted l) \<le> logLast l"

lemma log_okD: "log_ok l \<Longrightarrow> log_shape l"
  by (simp add: log_ok_def)

lemma shape_parts:
  assumes "log_shape l"
  shows "unat (uOffset (lUnstable l)) = Suc (logBase l + length (stableEnts l))"
    and "contig (Suc (logBase l)) (logEnts l)"
proof -
  have ms: "ms_ok (lStorage l)" and u: "unstable_ok (lUnstable l)"
    using assms by (simp_all add: log_shape_def)
  have cu: "contig (unat (uOffset (lUnstable l))) (uEntries (lUnstable l))"
    using u by (simp add: unstable_ok_def)
  have "unat (uOffset (lUnstable l)) = Suc (logBase l + length (stableEnts l)) \<and>
      contig (Suc (logBase l)) (logEnts l)"
  proof (cases "uSnapshot (lUnstable l)")
    case None
    then have off: "msBase (lStorage l) < unat (uOffset (lUnstable l))"
        "unat (uOffset (lUnstable l)) \<le> Suc (msBase (lStorage l) + length (msLog (lStorage l)))"
      using assms by (simp_all add: log_shape_def)
    then show ?thesis
      using contig_take [OF ms.run [OF ms]] cu None
      by (simp add: logBase_def stableEnts_def logEnts_def)
  next
    case (Some s)
    then show ?thesis
      using assms cu by (simp add: log_shape_def logBase_def stableEnts_def logEnts_def)
  qed
  then show "unat (uOffset (lUnstable l)) = Suc (logBase l + length (stableEnts l))"
    and "contig (Suc (logBase l)) (logEnts l)" by simp_all
qed

lemma logLast_uEnd: "log_shape l \<Longrightarrow> uEnd (lUnstable l) = Suc (logLast l)"
  using shape_parts(1) [of l] by (simp add: logEnts_def)

lemma logLast_lt: "log_shape l \<Longrightarrow> Suc (logLast l) < 2 ^ 64"
  using contig_length [OF shape_parts(2)] by simp

lemma log_firstIndex_eq:
  assumes "log_shape l"
  shows "log_firstIndex l = Some (of_nat (Suc (logBase l)))"
  using assms ms.first [of "lStorage l"]
  by (cases "uSnapshot (lUnstable l)")
    (auto simp: log_firstIndex_def maybeFirstIndex_def logBase_def log_shape_def or_panic_def add.commute)

lemma log_lastIndex_eq:
  assumes "log_shape l"
  shows "log_lastIndex l = Some (of_nat (logLast l))"
proof (cases "uEntries (lUnstable l) = []")
  case True
  show ?thesis
  proof (cases "uSnapshot (lUnstable l)")
    case None
    then show ?thesis
      using True assms ms.last [of "lStorage l"]
      by (auto simp: log_lastIndex_def maybeLastIndex_def logBase_def log_shape_def or_panic_def
          logEnts_def stableEnts_def)
  next
    case (Some s)
    with True show ?thesis
      by (simp add: log_lastIndex_def maybeLastIndex_def logBase_def logEnts_def stableEnts_def)
  qed
next
  case False
  have u: "unstable_ok (lUnstable l)" using assms by (simp add: log_shape_def)
  have "unat (uOffset (lUnstable l) + len64 (uEntries (lUnstable l)) - 1) = logLast l"
    using last_unat [OF u False] logLast_uEnd [OF assms] by simp
  then have "uOffset (lUnstable l) + len64 (uEntries (lUnstable l)) - 1 = of_nat (logLast l)"
    by (metis of_nat_unat ucast_id)
  with False show ?thesis by (simp add: log_lastIndex_def maybeLastIndex_def)
qed


lemma log_term_eq:
  assumes "log_shape l"
  shows "log_term i l = Some (case termAt l (unat i) of Some t \<Rightarrow> Inr t
    | None \<Rightarrow> Inl (if i + 1 < of_nat (Suc (logBase l)) then ErrCompacted else ErrUnavailable))"
proof -
  have ms: "ms_ok (lStorage l)" and u: "unstable_ok (lUnstable l)"
    using assms by (simp_all add: log_shape_def)
  note off = shape_parts(1) [OF assms] and lt = logLast_lt [OF assms]
  have ends: "uEnd (lUnstable l) = Suc (logLast l)" using logLast_uEnd [OF assms] .
  have b1: "unat (of_nat (Suc (logBase l)) :: uint64) = Suc (logBase l)"
    and ll: "unat (of_nat (logLast l) :: uint64) = logLast l"
    using lt by (intro unat_of_nat64; simp)+
  consider (tail) "uOffset (lUnstable l) \<le> i" "unat i \<le> logLast l"
    | (beyond) "logLast l < unat i"
    | (snap) s where "i < uOffset (lUnstable l)" "uSnapshot (lUnstable l) = Some s" "snapIndex (Some s) = i"
    | (old) s where "i < uOffset (lUnstable l)" "uSnapshot (lUnstable l) = Some s" "unat i < logBase l"
    | (stable) "i < uOffset (lUnstable l)" "uSnapshot (lUnstable l) = None" "unat i \<le> logLast l"
  proof (cases "uSnapshot (lUnstable l)")
    case None
    with that(1,2,5) show thesis by (meson not_le)
  next
    case (Some s)
    then have "unat (uOffset (lUnstable l)) = Suc (unat (snapIndex (Some s)))" "logBase l = unat (snapIndex (Some s))"
      using assms by (simp_all add: log_shape_def logBase_def)
    with Some that(1-4) show thesis
      by (metis less_Suc_eq not_le word_less_nat_alt word_unat_eq_iff)
  qed
  then show ?thesis
  proof cases
    case tail
    have "unat i - Suc (logBase l) = length (stableEnts l) + (unat i - unat (uOffset (lUnstable l)))"
      using tail off by (simp add: word_le_nat_alt)
    then have nth: "logEnts l ! (unat i - Suc (logBase l)) =
        uEntries (lUnstable l) ! (unat i - unat (uOffset (lUnstable l)))"
      by (simp add: logEnts_def)
    with tail maybeTerm_eq [OF u, of i] off ends show ?thesis
      by (simp add: log_term_def termAt_def word_le_nat_alt word_less_nat_alt)
  next
    case beyond
    then have "maybeTerm i (lUnstable l) = Some None" "i > of_nat (logLast l)" "termAt l (unat i) = None"
      using maybeTerm_eq [OF u, of i] off ends ll
      by (auto simp: word_less_nat_alt logEnts_def termAt_def)
    then show ?thesis
      by (simp add: log_term_def log_firstIndex_eq [OF assms] log_lastIndex_eq [OF assms] del: of_nat_Suc of_nat_add)
  next
    case snap
    with maybeTerm_eq [OF u, of i] show ?thesis
      by (auto simp: log_term_def termAt_def logBase_def logBaseTerm_def)
  next
    case old
    then have "unat (i + 1) = Suc (unat i)"
      using lt unat_add_of_nat [of i 1] by simp
    then have "i + 1 < of_nat (Suc (logBase l))" using old(3) b1 by (simp add: word_less_nat_alt del: of_nat_Suc)
    moreover have "maybeTerm i (lUnstable l) = Some None"
      using old maybeTerm_eq [OF u, of i] by (auto simp: logBase_def)
    ultimately show ?thesis
      using old(3) by (simp add: log_term_def log_firstIndex_eq [OF assms] termAt_def del: of_nat_Suc)
  next
    case stable
    have mt: "maybeTerm i (lUnstable l) = Some None"
      using stable maybeTerm_eq [OF u, of i] by simp
    have base: "logBase l = msBase (lStorage l)" "logBaseTerm l = msBaseTerm (lStorage l)"
      using stable(2) by (simp_all add: logBase_def logBaseTerm_def)
    have i1: "unat (i + 1) = Suc (unat i)" using lt stable(3) unat_add_of_nat [of i 1] by simp
    have li: "\<not> i > of_nat (logLast l)" using stable(3) ll by (simp add: word_less_nat_alt del: of_nat_add)
    show ?thesis
    proof (cases "unat i < msBase (lStorage l)")
      case True
      then have "i + 1 < of_nat (Suc (logBase l))"
        using b1 base i1 by (simp add: word_less_nat_alt del: of_nat_Suc)
      with True mt base show ?thesis
        by (simp add: log_term_def log_firstIndex_eq [OF assms] termAt_def del: of_nat_Suc)
    next
      case False
      then have "\<not> i + 1 < of_nat (Suc (logBase l))"
        using b1 base i1 by (simp add: word_less_nat_alt del: of_nat_Suc)
      moreover have lm: "unat i \<le> msBase (lStorage l) + length (msLog (lStorage l))"
        using stable assms by (simp add: log_shape_def word_less_nat_alt)
      moreover have "msBase (lStorage l) < unat i \<Longrightarrow>
          logEnts l ! (unat i - Suc (msBase (lStorage l))) = msLog (lStorage l) ! (unat i - Suc (msBase (lStorage l)))"
        using stable lm diff_less_mono [of "unat i" "unat (uOffset (lUnstable l))" "Suc (msBase (lStorage l))"]
        by (simp add: logEnts_def stableEnts_def nth_append word_less_nat_alt)
      ultimately show ?thesis
        using False mt base li stable(3) ms.term_known [OF ms, of i]
        by (auto simp: log_term_def log_firstIndex_eq [OF assms] log_lastIndex_eq [OF assms] termAt_def
            simp del: of_nat_Suc of_nat_add)
    qed
  qed
qed

lemma matchTerm_eq: "log_shape l \<Longrightarrow> matchTerm x l = Some (termAt l (unat (idIndex x)) = Some (idTerm x))"
  by (simp add: matchTerm_def log_term_eq split: option.splits)

lemma log_lastEntryID_eq:
  assumes "log_shape l"
  obtains x where "log_lastEntryID l = Some x" and "unat (idIndex x) = logLast l"
    and "termAt l (logLast l) = Some (idTerm x)"
proof -
  have n: "unat (of_nat (logLast l) :: uint64) = logLast l"
    using logLast_lt [OF assms] by (intro unat_of_nat64) simp
  obtain t where t: "termAt l (logLast l) = Some t" by (cases "logEnts l") (simp_all add: termAt_def)
  show ?thesis
  proof (rule that)
    show "log_lastEntryID l = Some \<lparr>idTerm = t, idIndex = of_nat (logLast l)\<rparr>"
      using t n by (simp add: log_lastEntryID_def log_lastIndex_eq [OF assms] log_term_eq [OF assms]
          or_panic_def del: of_nat_add)
  qed (use t n in \<open>simp_all del: of_nat_add\<close>)
qed

section \<open>Reading a range\<close>

text \<open>
  Limiting a concatenation in two steps, the way \<^verbatim>\<open>slice\<close> does: first the stable part, then
  as much of the unstable part as the rest of the budget allows.
\<close>

lemma limitSize_two_parts:
  assumes t: "total (A @ B) < 2 ^ 64" and pos: "\<forall>e \<in> set B. 0 < esize e" and A: "A \<noteq> []"
    and r: "unat m' = unat m - total A"
  shows "limitSize (A @ B) m =
    (if length (limitSize A m) < length A then limitSize A m
     else if unat m \<le> total A then A
     else if length (limitSize B m') = 1 \<and> unat m < total A + total (limitSize B m') then A
     else A @ limitSize B m')"
proof -
  have tA: "total A < 2 ^ 64" and tB: "total B < 2 ^ 64" using t by simp_all
  note lim = limitSize_take [OF t] limitSize_take [OF tA] limitSize_take [OF tB]
  have lA: "1 \<le> length A" using A by (cases A) simp_all
  show ?thesis
  proof (cases "total A \<le> unat m")
    case fits: True
    then have a: "fitting (unat m) (A @ B) = length A + fitting (unat m') B" "fitting (unat m) A = length A"
      by (simp_all add: fitting_append fitting_all r)
    show ?thesis
    proof (cases "fitting (unat m') B")
      case 0
      show ?thesis
      proof (cases B)
        case (Cons b B')
        with 0 have "unat m' < esize b" by (simp split: if_splits)
        moreover have "limitSize B m' = [b]" using 0 lim(3) by (simp add: Cons)
        moreover have "limitSize (A @ B) m = A" "limitSize A m = A"
          using 0 a lA by (simp_all add: lim max_absorb2)
        ultimately show ?thesis using r fits by simp
      qed (use a lA 0 in \<open>simp add: lim max_absorb2\<close>)
    next
      case (Suc n)
      have le: "Suc n \<le> length B" using fitting_le [of "unat m'" B] Suc by simp
      then have "total (take (Suc n) B) \<le> unat m'"
        using le_fitting_iff [OF le, of "unat m'"] Suc by simp
      moreover have "0 < total (take (Suc n) B)"
        using pos le by (cases B) auto
      ultimately show ?thesis
        using a lA Suc r fits by (auto simp: lim max_absorb2)
    qed
  next
    case False
    then have f: "fitting (unat m) (A @ B) = fitting (unat m) A" "fitting (unat m) A < length A"
      using le_fitting_iff [of "length A" A "unat m"] lA by (auto simp: fitting_append not_le)
    then have "limitSize (A @ B) m = limitSize A m"
      using lA by (simp add: lim max_def)
    with f False lA show ?thesis by (auto simp: lim max_def split: if_splits)
  qed
qed

lemma slice_unstable_eq:
  assumes u: "unstable_ok u" and t: "total (A @ B) < 2 ^ 64" and A: "A \<noteq> []"
    and pos: "\<forall>e \<in> set B. 0 < esize e"
    and lo: "lo < uOffset u" and mid: "mid = min hi (uOffset u)" and hi: "unat hi \<le> uEnd u"
    and lA: "length A = unat mid - unat lo" and B: "B = take (unat hi - unat (uOffset u)) (uEntries u)"
    and lohi: "lo < hi"
  shows "slice_unstable lo hi mid m (limitSize A m) u = Some (limitSize (A @ B) m)"
proof (cases "hi \<le> uOffset u")
  case True
  then show ?thesis using B by (simp add: slice_unstable_def word_le_nat_alt)
next
  case False
  then have mo: "mid = uOffset u" using mid by simp
  have d: "unat (mid - lo) = length A" using lA lo mo by (simp add: unat_sub64 less_imp_le)
  obtain k where k: "k \<le> length A" "limitSize A m = take k A" by (rule limitSize_prefix)
  have len: "unat (len64 (limitSize A m)) = length (limitSize A m)"
    unfolding len64_def using k d unat_lt64 [of "mid - lo"] by (intro unat_of_nat64) simp
  have fast: "len64 (limitSize A m) < mid - lo \<longleftrightarrow> length (limitSize A m) < length A"
    unfolding word_less_nat_alt len d ..
  show ?thesis
  proof (cases "length (limitSize A m) < length A")
    case True
    then have "limitSize (A @ B) m = limitSize A m"
      using limitSize_two_parts [OF t pos A, of "of_nat (unat m - total A)" m] unat_lt64 [of m]
      by (simp add: unat_of_nat64 less_imp_diff_less)
    with False True fast show ?thesis by (simp add: slice_unstable_def)
  next
    case full: False
    then have lim: "limitSize A m = A" using k by simp
    have tA: "unat (entsSize A) = total A" using t by (intro unat_entsSize) simp
    define r where "r = m - entsSize A"
    show ?thesis
    proof (cases "unat m \<le> total A")
      case True
      then have "m \<le> entsSize A" using tA by (simp add: word_le_nat_alt)
      moreover have "limitSize (A @ B) m = A"
        using True limitSize_two_parts [OF t pos A, of 0 m] lim by simp
      ultimately show ?thesis using False full fast lim by (simp add: slice_unstable_def)
    next
      case more: False
      then have "\<not> m \<le> entsSize A" using tA by (simp add: word_le_nat_alt)
      moreover have r: "unat r = unat m - total A"
        unfolding r_def tA [symmetric] using more tA by (intro unat_sub64) (simp add: word_le_nat_alt)
      moreover have us: "unstable_slice (uOffset u) hi u = Some B"
        using unstable_slice_eq [OF u, of "uOffset u" hi] False hi B by simp
      moreover have "unat (entsSize A + entsSize (limitSize B r)) = total A + total (limitSize B r)"
      proof -
        obtain j where "limitSize B r = take j B" by (rule limitSize_prefix)
        then have "total A + total (limitSize B r) < 2 ^ 64" using t total_take_le [of j B] by simp
        then show ?thesis
          unfolding entsSize_append [symmetric] by (subst unat_entsSize) simp_all
      qed
      ultimately show ?thesis
        using False full fast more lim limitSize_two_parts [OF t pos A r]
        by (simp add: slice_unstable_def Let_def extendEnts_def word_less_nat_alt flip: r_def)
    qed
  qed
qed

lemma contig_pos: "contig (Suc i) es \<Longrightarrow> e \<in> set es \<Longrightarrow> 0 < esize e"
  by (auto simp: in_set_conv_nth dest!: contig_nth intro!: esize_pos)

definition logRange :: "raftLog \<Rightarrow> nat \<Rightarrow> nat \<Rightarrow> Entry list" where
  "logRange l lo hi = take (hi - lo) (drop (lo - Suc (logBase l)) (logEnts l))"

lemma log_slice_eq:
  assumes sh: "log_shape l" and t: "total (logEnts l) < 2 ^ 64" and lo: "logBase l < unat lo"
    and lohi: "lo \<le> hi" and hi: "unat hi \<le> Suc (logLast l)"
  shows "log_slice lo hi m l = Some (Inr (limitSize (logRange l (unat lo) (unat hi)) m))"
proof -
  have ms: "ms_ok (lStorage l)" and u: "unstable_ok (lUnstable l)"
    using sh by (simp_all add: log_shape_def)
  note off = shape_parts(1) [OF sh] and lt = logLast_lt [OF sh] and ends = logLast_uEnd [OF sh]
  have fi: "unat (of_nat (Suc (logBase l)) :: uint64) = Suc (logBase l)"
    using lt by (intro unat_of_nat64) simp
  have "of_nat (Suc (logBase l)) + (of_nat (logLast l) + 1 - of_nat (Suc (logBase l))) = (of_nat (Suc (logLast l)) :: uint64)"
    by simp
  moreover have "\<not> hi > of_nat (Suc (logLast l))"
    using less_of_nat64 [OF lt, of hi] hi by (simp del: of_nat_Suc)
  ultimately have chk: "log_mustCheckOutOfBounds lo hi l = Some None"
    using lohi lo fi
    by (simp add: log_mustCheckOutOfBounds_def log_firstIndex_eq [OF sh] log_lastIndex_eq [OF sh]
        Let_def word_less_nat_alt word_le_nat_alt del: of_nat_Suc of_nat_add)
  consider (empty) "lo = hi" | (tail) "lo \<noteq> hi" "uOffset (lUnstable l) \<le> lo"
    | (both) "lo \<noteq> hi" "lo < uOffset (lUnstable l)" by fastforce
  then show ?thesis
  proof cases
    case empty
    with chk show ?thesis by (simp add: log_slice_def logRange_def limitSize_def)
  next
    case tail
    have "drop (unat lo - Suc (logBase l)) (logEnts l) =
        drop (unat lo - unat (uOffset (lUnstable l))) (uEntries (lUnstable l))"
      using tail(2) off by (simp add: logEnts_def word_le_nat_alt)
    with tail chk unstable_slice_eq [OF u tail(2) lohi] hi ends show ?thesis
      by (simp add: log_slice_def logRange_def)
  next
    case both
    let ?b = "logBase l" and ?off = "uOffset (lUnstable l)"
    define mid where "mid = min hi ?off"
    have none: "uSnapshot (lUnstable l) = None"
      using both(2) lo sh by (auto simp: log_shape_def logBase_def word_less_nat_alt split: option.splits)
    then have base: "?b = msBase (lStorage l)"
      and offs: "unat ?off \<le> Suc (?b + length (msLog (lStorage l)))"
      and st: "stableEnts l = take (unat ?off - Suc ?b) (msLog (lStorage l))"
      using sh by (simp_all add: log_shape_def logBase_def stableEnts_def)
    have lm: "lo < mid" and mu: "unat mid = min (unat hi) (unat ?off)"
      using both lohi by (auto simp: mid_def min_def word_le_nat_alt [symmetric])
    define A where "A = take (unat mid - unat lo) (drop (unat lo - Suc ?b) (stableEnts l))"
    define B where "B = take (unat hi - unat ?off) (uEntries (lUnstable l))"
    have lA: "length A = unat mid - unat lo"
      using off lm mu lo by (auto simp: A_def word_less_nat_alt)
    have "A = take (unat mid - unat lo) (drop (unat lo - Suc ?b) (msLog (lStorage l)))"
      unfolding A_def st using mu lo by (simp add: drop_take min_def)
    moreover have "unat mid \<le> Suc (msBase (lStorage l) + length (msLog (lStorage l)))"
      using mu offs base by simp
    moreover from this have "msLog (lStorage l) \<noteq> []"
      using lo lm base by (auto simp: word_less_nat_alt)
    ultimately have ent: "MS_Entries lo mid m (lStorage l) = Some (Inr (limitSize A m))"
      using ms.entries_known [OF ms _ less_imp_le [OF lm], of m] lo base by simp
    have rng: "logRange l (unat lo) (unat hi) = A @ B"
    proof -
      have "unat lo - Suc ?b \<le> length (stableEnts l)" using off lm mu lo by (simp add: word_less_nat_alt) arith
      then show ?thesis
        using off mu lo lohi lm
        by (auto simp: logRange_def A_def B_def logEnts_def word_less_nat_alt min_def add.commute)
    qed
    have tot: "total (A @ B) < 2 ^ 64"
      using t total_take_le total_drop_le unfolding rng [symmetric] logRange_def by (meson le_less_trans)
    have pos: "\<forall>e \<in> set B. 0 < esize e"
      using contig_pos [OF shape_parts(2) [OF sh]] by (auto simp: B_def logEnts_def dest: in_set_takeD)
    have "slice_unstable lo hi mid m (limitSize A m) (lUnstable l) = Some (limitSize (A @ B) m)"
    proof (rule slice_unstable_eq [OF u tot _ pos both(2) mid_def _ lA B_def])
      show "A \<noteq> []" using lA lm by (auto simp: word_less_nat_alt)
    qed (use hi ends both lohi in auto)
    moreover have "\<not> uOffset (lUnstable l) \<le> lo" using both(2) by (simp add: not_le)
    ultimately show ?thesis
      using both(1) chk ent by (simp add: log_slice_def rng flip: mid_def)
  qed
qed

lemma log_slice_compacted:
  assumes "log_shape l" and "unat lo \<le> logBase l" and "lo \<le> hi"
  shows "log_slice lo hi m l = Some (Inl ErrCompacted)"
proof -
  have "lo < of_nat (Suc (logBase l))"
    using assms(2) logLast_lt [OF assms(1)] unfolding word_less_nat_alt by (subst unat_of_nat64) auto
  with assms show ?thesis
    by (simp add: log_slice_def log_mustCheckOutOfBounds_def log_firstIndex_eq del: of_nat_Suc)
qed

end
