(* ===== verification/Raft.thy ===== *)
theory Raft
  imports ReadOnly Confchange RaftLog
begin

text \<open>
  The state of a raft node and the operations its message handlers are made of
  (src/raftsubject/raft/raft.go up to \<^verbatim>\<open>Step\<close>, and the declarations of node_decls.go): the
  configuration and its validation, the outgoing messages, replication to one peer and to
  all, the transitions between the roles, elections and their tally, the size quota of the
  uncommitted tail, and the switch to a new membership.

  A method takes the node's state last and returns the updated one; \<open>None\<close> is a panic. The
  progress of a peer is a pointer in the code: it is read from the tracker again after every
  call that may have changed it. Calls of the logger and of the trace hooks (which are empty
  functions) are left out, except that \<^verbatim>\<open>Panicf\<close> panics and an argument that may panic is
  still evaluated.
\<close>

section \<open>Declarations (raft.go, node_decls.go)\<close>

datatype NodeState = StateFollower | StateCandidate | StateLeader | StatePreCandidate

datatype CampaignType = campaignPreElection | campaignElection | campaignTransfer

definition campaignTransfer_bytes :: "byte list" where
  "campaignTransfer_bytes = map of_char ''CampaignTransfer''"

datatype raft_error =
  ErrNilMessage | ErrProposalDropped | ErrStepLocalMsg | ErrStepPeerNotFound

datatype config_error =
  ErrNoneID | ErrLocalID | ErrHeartbeatTick | ErrElectionTick | ErrNilStorage
  | ErrMaxInflightMsgs | ErrMaxInflightBytes | ErrLeaseNeedsCheckQuorum

record RaftConfig =
  cID :: uint64
  cElectionTick :: int
  cHeartbeatTick :: int
  cStorage :: "MemoryStorage option"
  cApplied :: uint64
  cAsyncStorageWrites :: bool
  cMaxSizePerMsg :: uint64
  cMaxCommittedSizePerReady :: uint64
  cMaxUncommittedEntriesSize :: uint64
  cMaxInflightMsgs :: int
  cMaxInflightBytes :: uint64
  cCheckQuorum :: bool
  cPreVote :: bool
  cReadOnlyOption :: ReadOnlyOption
  cDisableProposalForwarding :: bool
  cDisableConfChangeValidation :: bool
  cStepDownOnRemoval :: bool

text \<open>The node's \<^verbatim>\<open>tick\<close> and \<^verbatim>\<open>step\<close> fields hold one of these functions.\<close>

datatype tick_func = TickElection | TickHeartbeat
datatype step_func = StepFollower | StepCandidate | StepLeader

text \<open>
  \<open>rDraws\<close> stands for the random source: the values \<^verbatim>\<open>rand.Intn\<close> will draw, in order; each is
  taken modulo the bound of the call, and an exhausted list draws zero.
\<close>

record raft =
  rId :: uint64
  rTerm :: uint64
  rVote :: uint64
  rReadStates :: "ReadState list"
  rLog :: raftLog
  rMaxMsgSize :: uint64
  rMaxUncommittedSize :: uint64
  rTrk :: ProgressTracker
  rState :: NodeState
  rIsLearner :: bool
  rMsgs :: "Message list"
  rMsgsAfterAppend :: "Message list"
  rLead :: uint64
  rLeadTransferee :: uint64
  rPendingConfIndex :: uint64
  rDisableConfChangeValidation :: bool
  rUncommittedSize :: uint64
  rReadOnly :: readOnly
  rElectionElapsed :: int
  rHeartbeatElapsed :: int
  rCheckQuorum :: bool
  rPreVote :: bool
  rHeartbeatTimeout :: int
  rElectionTimeout :: int
  rRandomizedElectionTimeout :: int
  rDisableProposalForwarding :: bool
  rStepDownOnRemoval :: bool
  rTick :: tick_func
  rStep :: step_func
  rPendingReadIndexMessages :: "Message list"
  rDraws :: "nat list"

record SoftState =
  ssLead :: uint64
  ssRaftState :: NodeState

definition SoftState_equal :: "SoftState \<Rightarrow> SoftState \<Rightarrow> bool" where
  "SoftState_equal a b \<longleftrightarrow> ssLead a = ssLead b \<and> ssRaftState a = ssRaftState b"

definition isHardStateEqual :: "HardState option \<Rightarrow> HardState option \<Rightarrow> bool" where
  "isHardStateEqual a b \<longleftrightarrow> HardState_GetTerm a = HardState_GetTerm b \<and>
     HardState_GetVote a = HardState_GetVote b \<and> HardState_GetCommit a = HardState_GetCommit b"

definition emptyState :: HardState where
  "emptyState = HardState0"

definition IsEmptyHardState :: "HardState option \<Rightarrow> bool" where
  "IsEmptyHardState st \<longleftrightarrow> st = None \<or> isHardStateEqual st (Some emptyState)"

definition IsEmptySnap :: "Snapshot option \<Rightarrow> bool" where
  "IsEmptySnap sp \<longleftrightarrow> snapIndex sp = 0"

definition confChangeToMsg :: "ConfChangeI option \<Rightarrow> Message" where
  "confChangeToMsg c =
     (case MarshalConfChange c of (typ, dat) \<Rightarrow>
        Msg (Message0\<lparr>mType := Some MsgProp,
          mEntries := [Entry0\<lparr>eType := Some typ, eData := dat\<rparr>]\<rparr>) [])"

definition hasLeader :: "raft \<Rightarrow> bool" where
  "hasLeader r \<longleftrightarrow> rLead r \<noteq> None_id"

definition softState :: "raft \<Rightarrow> SoftState" where
  "softState r = \<lparr>ssLead = rLead r, ssRaftState = rState r\<rparr>"

definition hardState :: "raft \<Rightarrow> HardState" where
  "hardState r = HardState0\<lparr>hsTerm := Some (rTerm r), hsVote := Some (rVote r),
     hsCommit := Some (lCommitted (rLog r))\<rparr>"

section \<open>Configuration\<close>

definition validate :: "RaftConfig \<Rightarrow> config_error + RaftConfig" where
  "validate c =
     (if cID c = None_id then Inl ErrNoneID
      else if IsLocalMsgTarget (cID c) then Inl ErrLocalID
      else if cHeartbeatTick c \<le> 0 then Inl ErrHeartbeatTick
      else if cElectionTick c \<le> cHeartbeatTick c then Inl ErrElectionTick
      else if cStorage c = None then Inl ErrNilStorage
      else
        let c = (if cMaxUncommittedEntriesSize c = 0 then c\<lparr>cMaxUncommittedEntriesSize := noLimit\<rparr> else c);
            c = (if cMaxCommittedSizePerReady c = 0
                 then c\<lparr>cMaxCommittedSizePerReady := cMaxSizePerMsg c\<rparr> else c)
        in if cMaxInflightMsgs c \<le> 0 then Inl ErrMaxInflightMsgs
           else if cMaxInflightBytes c \<noteq> 0 \<and> cMaxInflightBytes c < cMaxSizePerMsg c
           then Inl ErrMaxInflightBytes
           else
             let c = (if cMaxInflightBytes c = 0 then c\<lparr>cMaxInflightBytes := noLimit\<rparr> else c)
             in if cReadOnlyOption c = ReadOnlyLeaseBased \<and> \<not> cCheckQuorum c
                then Inl ErrLeaseNeedsCheckQuorum
                else Inr c)"

section \<open>Access to the tracker\<close>

definition progressOf :: "uint64 \<Rightarrow> raft \<Rightarrow> Progress option" where
  "progressOf n r = trkProgress (rTrk r) n"

definition setProgress :: "uint64 \<Rightarrow> Progress \<Rightarrow> raft \<Rightarrow> raft" where
  "setProgress n pr r = r\<lparr>rTrk := (rTrk r)\<lparr>trkProgress := (trkProgress (rTrk r))(n \<mapsto> pr)\<rparr>\<rparr>"

text \<open>
  \<^verbatim>\<open>r.trk.Visit\<close> with a closure over the node: the ids are collected and sorted first, and
  each progress is read when its turn comes.
\<close>

fun visitIds :: "(uint64 \<Rightarrow> Progress \<Rightarrow> raft \<Rightarrow> raft option) \<Rightarrow> uint64 list \<Rightarrow> raft \<Rightarrow> raft option" where
  "visitIds f [] r = Some r"
| "visitIds f (n # ns) r = do { pr \<leftarrow> progressOf n r; r \<leftarrow> f n pr r; visitIds f ns r }"

definition raft_Visit :: "(uint64 \<Rightarrow> Progress \<Rightarrow> raft \<Rightarrow> raft option) \<Rightarrow> raft \<Rightarrow> raft option" where
  "raft_Visit f r = visitIds f (sorted_list_of_set (dom (trkProgress (rTrk r)))) r"

section \<open>Sending\<close>

definition voteTypes :: "MessageType set" where
  "voteTypes = {MsgVote, MsgVoteResp, MsgPreVote, MsgPreVoteResp}"

definition send :: "Message \<Rightarrow> raft \<Rightarrow> raft option" where
  "send m r = do {
     let m = (if Message_GetFrom m = None_id then upd_msg (mFrom_update (\<lambda>_. Some (rId r))) m else m);
     m \<leftarrow> (if Message_GetType m \<in> voteTypes then do {
            panic_if (Message_GetTerm m = 0);
            Some m
          } else do {
            panic_if (Message_GetTerm m \<noteq> 0);
            Some (if Message_GetType m \<noteq> MsgProp \<and> Message_GetType m \<noteq> MsgReadIndex
                  then upd_msg (mTerm_update (\<lambda>_. Some (rTerm r))) m else m)
          });
     if Message_GetType m \<in> {MsgAppResp, MsgVoteResp, MsgPreVoteResp}
     then Some (r\<lparr>rMsgsAfterAppend := rMsgsAfterAppend r @ [m]\<rparr>)
     else do {
       panic_if (Message_GetTo m = rId r);
       Some (r\<lparr>rMsgs := rMsgs r @ [m]\<rparr>)
     }
   }"

text \<open>\<^verbatim>\<open>&pb.Message{To: to, Type: typ, \<dots>}\<close>\<close>

abbreviation mkMsg :: "uint64 option \<Rightarrow> MessageType \<Rightarrow> MsgFields" where
  "mkMsg to typ \<equiv> Message0\<lparr>mTo := to, mType := Some typ\<rparr>"

definition maybeSendSnapshot :: "uint64 \<Rightarrow> raft \<Rightarrow> (bool \<times> raft) option" where
  "maybeSendSnapshot to r = do {
     pr \<leftarrow> progressOf to r;
     if \<not> prRecentActive pr then Some (False, r)
     else (case log_snapshot (rLog r) of (res, l) \<Rightarrow>
       (case res of
          Inl e \<Rightarrow> if e = ErrSnapshotTemporarilyUnavailable then Some (False, r\<lparr>rLog := l\<rparr>) else None
        | Inr snapshot \<Rightarrow> do {
            panic_if (IsEmptySnap (Some snapshot));
            let r = r\<lparr>rLog := l\<rparr>;
            log_firstIndex (rLog r);
            let sindex = snapIndex (Some snapshot);
            let r = setProgress to (Progress_BecomeSnapshot sindex pr) r;
            r \<leftarrow> send (Msg ((mkMsg (Some to) MsgSnap)\<lparr>mSnapshot := Some snapshot\<rparr>) []) r;
            Some (True, r)
          }))
   }"

definition maybeSendAppend :: "uint64 \<Rightarrow> bool \<Rightarrow> raft \<Rightarrow> (bool \<times> raft) option" where
  "maybeSendAppend to sendIfEmpty r = do {
     pr \<leftarrow> progressOf to r;
     if Progress_IsPaused pr then Some (False, r)
     else do {
       let prevIndex = prNext pr - 1;
       t \<leftarrow> log_term prevIndex (rLog r);
       case t of
         Inl e \<Rightarrow> maybeSendSnapshot to r
       | Inr prevTerm \<Rightarrow> do {
           es \<leftarrow> (if prState pr \<noteq> StateReplicate \<or> \<not> Inflights_Full (prInflights pr)
                 then log_entries (prNext pr) (rMaxMsgSize r) (rLog r) else Some (Inr []));
           if (case es of Inl e \<Rightarrow> True | Inr ents \<Rightarrow> length ents = 0) \<and> \<not> sendIfEmpty
           then Some (False, r)
           else (case es of
               Inl e \<Rightarrow> maybeSendSnapshot to r
             | Inr ents \<Rightarrow> do {
                 r \<leftarrow> send (Msg ((mkMsg (Some to) MsgApp)\<lparr>mIndex := Some prevIndex,
                   mLogTerm := Some prevTerm, mEntries := ents,
                   mCommit := Some (lCommitted (rLog r))\<rparr>) []) r;
                 pr \<leftarrow> Progress_SentEntries (length ents) (payloadsSize ents) pr;
                 Some (True, setProgress to (Progress_SentCommit (lCommitted (rLog r)) pr) r)
               })
         }
     }
   }"

definition sendAppend :: "uint64 \<Rightarrow> raft \<Rightarrow> raft option" where
  "sendAppend to r = do { (_, r) \<leftarrow> maybeSendAppend to True r; Some r }"

definition sendHeartbeat :: "uint64 \<Rightarrow> byte list option \<Rightarrow> raft \<Rightarrow> raft option" where
  "sendHeartbeat to ctx r = do {
     pr \<leftarrow> progressOf to r;
     let commit = min (prMatch pr) (lCommitted (rLog r));
     r \<leftarrow> send (Msg ((mkMsg (Some to) MsgHeartbeat)\<lparr>mCommit := Some commit, mContext := ctx\<rparr>) []) r;
     Some (setProgress to (Progress_SentCommit commit pr) r)
   }"

definition bcastAppend :: "raft \<Rightarrow> raft option" where
  "bcastAppend = raft_Visit (\<lambda>n _ r. if n = rId r then Some r else sendAppend n r)"

definition bcastHeartbeatWithCtx :: "byte list option \<Rightarrow> raft \<Rightarrow> raft option" where
  "bcastHeartbeatWithCtx ctx =
     raft_Visit (\<lambda>n _ r. if n = rId r then Some r else sendHeartbeat n ctx r)"

definition bcastHeartbeat :: "raft \<Rightarrow> raft option" where
  "bcastHeartbeat r = bcastHeartbeatWithCtx (heartbeatCtx (rReadOnly r)) r"

definition sendTimeoutNow :: "uint64 \<Rightarrow> raft \<Rightarrow> raft option" where
  "sendTimeoutNow to r = send (Msg (mkMsg (Some to) MsgTimeoutNow) []) r"

definition raft_maybeCommit :: "raft \<Rightarrow> (bool \<times> raft) option" where
  "raft_maybeCommit r = do {
     (b, l) \<leftarrow> maybeCommit \<lparr>idTerm = rTerm r, idIndex = ProgressTracker_Committed (rTrk r)\<rparr> (rLog r);
     Some (b, r\<lparr>rLog := l\<rparr>)
   }"

section \<open>Timeouts and the quota of the uncommitted tail\<close>

definition Intn :: "int \<Rightarrow> nat list \<Rightarrow> (int \<times> nat list) option" where
  "Intn n draws =
     (if n \<le> 0 then None
      else (case draws of [] \<Rightarrow> Some (0, []) | d # ds \<Rightarrow> Some (int d mod n, ds)))"

definition resetRandomizedElectionTimeout :: "raft \<Rightarrow> raft option" where
  "resetRandomizedElectionTimeout r = do {
     (v, ds) \<leftarrow> Intn (rElectionTimeout r) (rDraws r);
     Some (r\<lparr>rRandomizedElectionTimeout := rElectionTimeout r + v, rDraws := ds\<rparr>)
   }"

definition pastElectionTimeout :: "raft \<Rightarrow> bool" where
  "pastElectionTimeout r \<longleftrightarrow> rElectionElapsed r \<ge> rRandomizedElectionTimeout r"

definition abortLeaderTransfer :: "raft \<Rightarrow> raft" where
  "abortLeaderTransfer r = r\<lparr>rLeadTransferee := None_id\<rparr>"

definition increaseUncommittedSize :: "Entry list \<Rightarrow> raft \<Rightarrow> bool \<times> raft" where
  "increaseUncommittedSize ents r =
     (let s = payloadsSize ents
      in if rUncommittedSize r > 0 \<and> s > 0 \<and> rUncommittedSize r + s > rMaxUncommittedSize r
         then (False, r)
         else (True, r\<lparr>rUncommittedSize := rUncommittedSize r + s\<rparr>))"

definition reduceUncommittedSize :: "uint64 \<Rightarrow> raft \<Rightarrow> raft" where
  "reduceUncommittedSize s r =
     (if s > rUncommittedSize r then r\<lparr>rUncommittedSize := 0\<rparr>
      else r\<lparr>rUncommittedSize := rUncommittedSize r - s\<rparr>)"

section \<open>Roles\<close>

definition reset :: "uint64 \<Rightarrow> raft \<Rightarrow> raft option" where
  "reset term r = do {
     let r = (if rTerm r \<noteq> term then r\<lparr>rTerm := term, rVote := None_id\<rparr> else r);
     let r = r\<lparr>rLead := None_id, rElectionElapsed := 0, rHeartbeatElapsed := 0\<rparr>;
     r \<leftarrow> resetRandomizedElectionTimeout r;
     let r = abortLeaderTransfer r;
     let r = r\<lparr>rTrk := ProgressTracker_ResetVotes (rTrk r)\<rparr>;
     r \<leftarrow> raft_Visit (\<lambda>n pr r. do {
         li \<leftarrow> log_lastIndex (rLog r);
         let pr = \<lparr>prMatch = 0, prNext = li + 1, prSentCommit = 0, prState = StateProbe,
           prPendingSnapshot = 0, prRecentActive = False, prMsgAppFlowPaused = False,
           prInflights = NewInflights (trkMaxInflight (rTrk r)) (trkMaxInflightBytes (rTrk r)),
           prIsLearner = prIsLearner pr\<rparr>;
         Some (setProgress n (if n = rId r then pr\<lparr>prMatch := li\<rparr> else pr) r)
       }) r;
     Some (r\<lparr>rPendingConfIndex := 0, rUncommittedSize := 0,
       rReadOnly := newReadOnly (roOption (rReadOnly r))\<rparr>)
   }"

definition appendEntry :: "Entry list \<Rightarrow> raft \<Rightarrow> (bool \<times> raft) option" where
  "appendEntry es r = do {
     li \<leftarrow> log_lastIndex (rLog r);
     let cloned = map (\<lambda>(i, e). e\<lparr>eTerm := Some (rTerm r), eIndex := Some (li + 1 + of_nat i)\<rparr>)
       (List.enumerate 0 es);
     case increaseUncommittedSize cloned r of (ok, r) \<Rightarrow>
       if \<not> ok then Some (False, r)
       else do {
         (li, l) \<leftarrow> log_append cloned (rLog r);
         r \<leftarrow> send (Msg ((mkMsg (Some (rId r)) MsgAppResp)\<lparr>mIndex := Some li\<rparr>) []) (r\<lparr>rLog := l\<rparr>);
         Some (True, r)
       }
   }"

definition becomeFollower :: "uint64 \<Rightarrow> uint64 \<Rightarrow> raft \<Rightarrow> raft option" where
  "becomeFollower term lead r = do {
     let r = r\<lparr>rStep := StepFollower\<rparr>;
     r \<leftarrow> reset term r;
     Some (r\<lparr>rTick := TickElection, rLead := lead, rState := StateFollower\<rparr>)
   }"

definition becomeCandidate :: "raft \<Rightarrow> raft option" where
  "becomeCandidate r = do {
     panic_if (rState r = StateLeader);
     let r = r\<lparr>rStep := StepCandidate\<rparr>;
     r \<leftarrow> reset (rTerm r + 1) r;
     Some (r\<lparr>rTick := TickElection, rVote := rId r, rState := StateCandidate\<rparr>)
   }"

definition becomePreCandidate :: "raft \<Rightarrow> raft option" where
  "becomePreCandidate r = do {
     panic_if (rState r = StateLeader);
     let r = r\<lparr>rStep := StepCandidate, rTrk := ProgressTracker_ResetVotes (rTrk r)\<rparr>;
     Some (r\<lparr>rTick := TickElection, rLead := None_id, rState := StatePreCandidate\<rparr>)
   }"

definition becomeLeader :: "raft \<Rightarrow> raft option" where
  "becomeLeader r = do {
     panic_if (rState r = StateFollower);
     let r = r\<lparr>rStep := StepLeader\<rparr>;
     r \<leftarrow> reset (rTerm r) r;
     let r = r\<lparr>rTick := TickHeartbeat, rLead := rId r, rState := StateLeader\<rparr>;
     pr \<leftarrow> progressOf (rId r) r;
     let r = setProgress (rId r) ((Progress_BecomeReplicate pr)\<lparr>prRecentActive := True\<rparr>) r;
     li \<leftarrow> log_lastIndex (rLog r);
     let r = r\<lparr>rPendingConfIndex := li\<rparr>;
     (accepted, r) \<leftarrow> appendEntry [Entry0] r;
     panic_if (\<not> accepted);
     Some r
   }"

section \<open>Elections\<close>

definition promotable :: "raft \<Rightarrow> bool" where
  "promotable r \<longleftrightarrow>
     (case progressOf (rId r) r of None \<Rightarrow> False | Some pr \<Rightarrow> \<not> prIsLearner pr) \<and>
     \<not> hasNextOrInProgressSnapshot (rLog r)"

text \<open>The callback of the scan stops at the first configuration change.\<close>

definition isConfEntry :: "Entry \<Rightarrow> bool" where
  "isConfEntry e \<longleftrightarrow> Entry_GetType e = EntryConfChange \<or> Entry_GetType e = EntryConfChangeV2"

definition hasUnappliedConfChanges :: "raft \<Rightarrow> bool option" where
  "hasUnappliedConfChanges r =
     (if lApplied (rLog r) \<ge> lCommitted (rLog r) then Some False
      else do {
        (err, found) \<leftarrow> scan (\<lambda>ents found. if list_ex isConfEntry ents then (Some (), True) else (None, found))
          (lApplied (rLog r) + 1) (lCommitted (rLog r) + 1) (lMaxApplyingEntsSize (rLog r)) (rLog r) False;
        case err of
          None \<Rightarrow> Some found
        | Some (ScanCallback _) \<Rightarrow> Some found
        | Some (ScanStorage _) \<Rightarrow> None
        | Some ScanEmpty \<Rightarrow> None
      })"

fun campaignIds :: "CampaignType \<Rightarrow> MessageType \<Rightarrow> uint64 \<Rightarrow> uint64 list \<Rightarrow> raft \<Rightarrow> raft option" where
  "campaignIds t voteMsg term [] r = Some r"
| "campaignIds t voteMsg term (n # ns) r = do {
     r \<leftarrow> (if n = rId r then do {
            respType \<leftarrow> voteRespMsgType voteMsg;
            send (Msg ((mkMsg (Some n) respType)\<lparr>mTerm := Some term\<rparr>) []) r
          } else do {
            lastID \<leftarrow> log_lastEntryID (rLog r);
            let ctx = (if t = campaignTransfer then Some campaignTransfer_bytes else None);
            send (Msg ((mkMsg (Some n) voteMsg)\<lparr>mTerm := Some term, mIndex := Some (idIndex lastID),
              mLogTerm := Some (idTerm lastID), mContext := ctx\<rparr>) []) r
          });
     campaignIds t voteMsg term ns r
   }"

definition campaign :: "CampaignType \<Rightarrow> raft \<Rightarrow> raft option" where
  "campaign t r = do {
     (r, voteMsg, term) \<leftarrow> (if t = campaignPreElection then do {
         r \<leftarrow> becomePreCandidate r;
         Some (r, MsgPreVote, rTerm r + 1)
       } else do {
         r \<leftarrow> becomeCandidate r;
         Some (r, MsgVote, rTerm r)
       });
     campaignIds t voteMsg term
       (sorted_list_of_set (JointConfig_IDs (cfgVoters (trkConfig (rTrk r))))) r
   }"

definition hup :: "CampaignType \<Rightarrow> raft \<Rightarrow> raft option" where
  "hup t r =
     (if rState r = StateLeader then Some r
      else if \<not> promotable r then Some r
      else do {
        pending \<leftarrow> hasUnappliedConfChanges r;
        if pending then Some r else campaign t r
      })"

definition poll :: "uint64 \<Rightarrow> bool \<Rightarrow> raft \<Rightarrow> (nat \<times> nat \<times> VoteResult) \<times> raft" where
  "poll n v r =
     (let r = r\<lparr>rTrk := ProgressTracker_RecordVote n v (rTrk r)\<rparr>
      in (ProgressTracker_TallyVotes (rTrk r), r))"

section \<open>Membership\<close>

definition switchToConfig :: "Config \<Rightarrow> ProgressMap \<Rightarrow> raft \<Rightarrow> (ConfState \<times> raft) option" where
  "switchToConfig cfg trk r = do {
     let r = r\<lparr>rTrk := (rTrk r)\<lparr>trkConfig := cfg, trkProgress := trk\<rparr>\<rparr>;
     let cs = ProgressTracker_ConfState (rTrk r);
     let r = r\<lparr>rIsLearner := (case progressOf (rId r) r of None \<Rightarrow> False | Some pr \<Rightarrow> prIsLearner pr)\<rparr>;
     if (progressOf (rId r) r = None \<or> rIsLearner r) \<and> rState r = StateLeader then do {
       r \<leftarrow> (if rStepDownOnRemoval r then becomeFollower (rTerm r) None_id r else Some r);
       Some (cs, r)
     }
     else if rState r \<noteq> StateLeader \<or> length (csVoters cs) = 0 then Some (cs, r)
     else do {
       (committed, r) \<leftarrow> raft_maybeCommit r;
       r \<leftarrow> (if committed then bcastAppend r
            else raft_Visit (\<lambda>n _ r. if n = rId r then Some r
                   else do { (_, r) \<leftarrow> maybeSendAppend n False r; Some r }) r);
       Some (cs, if rLeadTransferee r \<notin> JointConfig_IDs (cfgVoters (trkConfig (rTrk r))) \<and>
                   rLeadTransferee r \<noteq> 0
                 then abortLeaderTransfer r else r)
     }
   }"

definition applyConfChange :: "ConfChangeV2 \<Rightarrow> raft \<Rightarrow> (ConfState \<times> raft) option" where
  "applyConfChange cc r = do {
     li \<leftarrow> log_lastIndex (rLog r);
     let changer = \<lparr>chTracker = rTrk r, chLastIndex = li\<rparr>;
     (cfg, trk) \<leftarrow> or_panic (
       if ConfChangeV2_LeaveJoint cc then Changer_LeaveJoint changer
       else do {
         (autoLeave, ok) \<leftarrow> ConfChangeV2_EnterJoint cc;
         if ok then Changer_EnterJoint autoLeave (ccv2Changes cc) changer
         else Changer_Simple (ccv2Changes cc) changer
       });
     switchToConfig cfg trk r
   }"

definition raft_restore :: "Snapshot \<Rightarrow> raft \<Rightarrow> (bool \<times> raft) option" where
  "raft_restore s r =
     (if snapIndex (Some s) \<le> lCommitted (rLog r) then Some (False, r)
      else if rState r \<noteq> StateFollower then do {
        r \<leftarrow> becomeFollower (rTerm r + 1) None_id r;
        Some (False, r)
      }
      else
        let cs = EnsureConfState (SnapshotMetadata_GetConfState (snMetadata s));
            s = s\<lparr>snMetadata := map_option (smConfState_update (map_option (\<lambda>_. cs))) (snMetadata s)\<rparr>
        in if rId r \<notin> set (csVoters cs) \<and> rId r \<notin> set (csLearners cs) \<and>
              rId r \<notin> set (csVotersOutgoing cs)
           then Some (False, r)
           else do {
             m \<leftarrow> matchTerm \<lparr>idTerm = snapTerm (Some s), idIndex = snapIndex (Some s)\<rparr> (rLog r);
             if m then do {
               log_lastEntryID (rLog r);
               l \<leftarrow> commitTo (snapIndex (Some s)) (rLog r);
               Some (False, r\<lparr>rLog := l\<rparr>)
             }
             else do {
               let r = r\<lparr>rLog := log_restore s (rLog r)\<rparr>;
               let r = r\<lparr>rTrk := MakeProgressTracker (trkMaxInflight (rTrk r))
                 (trkMaxInflightBytes (rTrk r))\<rparr>;
               li \<leftarrow> log_lastIndex (rLog r);
               (cfg, trk) \<leftarrow> or_panic (Restore \<lparr>chTracker = rTrk r, chLastIndex = li\<rparr> cs);
               (cs', r) \<leftarrow> switchToConfig cfg trk r;
               assertConfStatesEquivalent (Some cs) (Some cs');
               log_lastEntryID (rLog r);
               Some (True, r)
             }
           })"

section \<open>Start\<close>

definition loadState :: "HardState option \<Rightarrow> raft \<Rightarrow> raft option" where
  "loadState state r = do {
     li \<leftarrow> log_lastIndex (rLog r);
     panic_if (HardState_GetCommit state < lCommitted (rLog r) \<or> HardState_GetCommit state > li);
     Some (r\<lparr>rLog := (rLog r)\<lparr>lCommitted := HardState_GetCommit state\<rparr>,
       rTerm := HardState_GetTerm state, rVote := HardState_GetVote state\<rparr>)
   }"

definition newRaft :: "RaftConfig \<Rightarrow> nat list \<Rightarrow> raft option" where
  "newRaft c draws = do {
     c \<leftarrow> or_panic (Some (validate c));
     storage \<leftarrow> cStorage c;
     raftlog \<leftarrow> newLogWithSize storage (cMaxCommittedSizePerReady c);
     case MS_InitialState (lStorage raftlog) of (hs, cs, storage) \<Rightarrow> do {
       let raftlog = raftlog\<lparr>lStorage := storage\<rparr>;
       let r = \<lparr>rId = cID c, rTerm = 0, rVote = 0, rReadStates = [], rLog = raftlog,
         rMaxMsgSize = cMaxSizePerMsg c, rMaxUncommittedSize = cMaxUncommittedEntriesSize c,
         rTrk = MakeProgressTracker (nat (cMaxInflightMsgs c)) (cMaxInflightBytes c),
         rState = StateFollower, rIsLearner = False, rMsgs = [], rMsgsAfterAppend = [],
         rLead = None_id, rLeadTransferee = 0, rPendingConfIndex = 0,
         rDisableConfChangeValidation = cDisableConfChangeValidation c, rUncommittedSize = 0,
         rReadOnly = newReadOnly (cReadOnlyOption c), rElectionElapsed = 0, rHeartbeatElapsed = 0,
         rCheckQuorum = cCheckQuorum c, rPreVote = cPreVote c,
         rHeartbeatTimeout = cHeartbeatTick c, rElectionTimeout = cElectionTick c,
         rRandomizedElectionTimeout = 0,
         rDisableProposalForwarding = cDisableProposalForwarding c,
         rStepDownOnRemoval = cStepDownOnRemoval c, rTick = TickElection, rStep = StepFollower,
         rPendingReadIndexMessages = [], rDraws = draws\<rparr>;
       lastID \<leftarrow> log_lastEntryID (rLog r);
       (cfg, trk) \<leftarrow> or_panic (Restore \<lparr>chTracker = rTrk r, chLastIndex = idIndex lastID\<rparr> cs);
       (cs', r) \<leftarrow> switchToConfig cfg trk r;
       assertConfStatesEquivalent (Some cs) (Some cs');
       r \<leftarrow> (if \<not> IsEmptyHardState hs then loadState hs r else Some r);
       r \<leftarrow> (if cApplied c > 0 then do {
              l \<leftarrow> log_appliedTo (cApplied c) 0 (rLog r);
              Some (r\<lparr>rLog := l\<rparr>)
            } else Some r);
       becomeFollower (rTerm r) None_id r
     }
   }"

end
