(* ===== verification/RaftStep.thy ===== *)
theory RaftStep
  imports Raft
begin

text \<open>
  The message handlers of a raft node (src/raftsubject/raft/raft.go from \<^verbatim>\<open>Step\<close> on): what the
  leader, the candidates and the followers do with each message type, the treatment of a
  message's term, votes, the acknowledgements of the storage and apply threads, and the
  clock ticks.

  \<^verbatim>\<open>Step\<close> returns the error or nil (\<open>None\<close>) with the new state; a panic is the outer \<open>None\<close>.
  A handler that changes the message it was given (\<^verbatim>\<open>m.To = \<dots>\<close>, a replaced entry) changes the
  message it goes on with; the caller gives the message away.
\<close>

section \<open>Followers\<close>

definition logSliceFromMsgApp :: "Message \<Rightarrow> logSlice" where
  "logSliceFromMsgApp m = \<lparr>lsTerm = Message_GetTerm m,
     lsPrev = \<lparr>idTerm = Message_GetLogTerm m, idIndex = Message_GetIndex m\<rparr>,
     lsEntries = Message_GetEntries m\<rparr>"

definition handleAppendEntries :: "Message \<Rightarrow> raft \<Rightarrow> raft option" where
  "handleAppendEntries m r = do {
     let a = logSliceFromMsgApp m;
     if idIndex (lsPrev a) < lCommitted (rLog r)
     then send (Msg ((mkMsg (mFrom (msg m)) MsgAppResp)\<lparr>mIndex := Some (lCommitted (rLog r))\<rparr>) []) r
     else do {
       (res, l) \<leftarrow> maybeAppend a (Message_GetCommit m) (rLog r);
       let r = r\<lparr>rLog := l\<rparr>;
       case res of
         Some mlastIndex \<Rightarrow>
           send (Msg ((mkMsg (mFrom (msg m)) MsgAppResp)\<lparr>mIndex := Some mlastIndex\<rparr>) []) r
       | None \<Rightarrow> do {
           t \<leftarrow> log_term (Message_GetIndex m) (rLog r);
           zeroTermOnOutOfBounds t;
           li \<leftarrow> log_lastIndex (rLog r);
           (hintIndex, hintTerm) \<leftarrow>
             findConflictByTerm (min (Message_GetIndex m) li) (Message_GetLogTerm m) (rLog r);
           send (Msg ((mkMsg (mFrom (msg m)) MsgAppResp)\<lparr>mIndex := Some (Message_GetIndex m),
             mReject := Some True, mRejectHint := Some hintIndex, mLogTerm := Some hintTerm\<rparr>) []) r
         }
     }
   }"

definition handleHeartbeat :: "Message \<Rightarrow> raft \<Rightarrow> raft option" where
  "handleHeartbeat m r = do {
     l \<leftarrow> commitTo (Message_GetCommit m) (rLog r);
     send (Msg ((mkMsg (mFrom (msg m)) MsgHeartbeatResp)\<lparr>mContext := mContext (msg m)\<rparr>) []) (r\<lparr>rLog := l\<rparr>)
   }"

definition handleSnapshot :: "Message \<Rightarrow> raft \<Rightarrow> raft option" where
  "handleSnapshot m r = do {
     let s = EnsureSnapshot (Message_GetSnapshot m);
     (restored, r) \<leftarrow> raft_restore s r;
     if restored then do {
       li \<leftarrow> log_lastIndex (rLog r);
       send (Msg ((mkMsg (mFrom (msg m)) MsgAppResp)\<lparr>mIndex := Some li\<rparr>) []) r
     }
     else send (Msg ((mkMsg (mFrom (msg m)) MsgAppResp)\<lparr>mIndex := Some (lCommitted (rLog r))\<rparr>) []) r
   }"

text \<open>The result of a handler: the error, \<open>None\<close> being nil, and the state.\<close>

type_synonym step_result = "(raft_error option \<times> raft) option"

definition nil_err :: "raft option \<Rightarrow> step_result" where
  "nil_err r = do { r \<leftarrow> r; Some (None, r) }"

definition forwardToLead :: "Message \<Rightarrow> raft \<Rightarrow> raft option" where
  "forwardToLead m r = send (upd_msg (mTo_update (\<lambda>_. Some (rLead r))) m) r"

definition stepFollower :: "Message \<Rightarrow> raft \<Rightarrow> step_result" where
  "stepFollower m r =
     (if Message_GetType m = MsgProp then
        (if rLead r = None_id then Some (Some ErrProposalDropped, r)
         else if rDisableProposalForwarding r then Some (Some ErrProposalDropped, r)
         else nil_err (forwardToLead m r))
      else if Message_GetType m = MsgApp then
        nil_err (handleAppendEntries m (r\<lparr>rElectionElapsed := 0, rLead := Message_GetFrom m\<rparr>))
      else if Message_GetType m = MsgHeartbeat then
        nil_err (handleHeartbeat m (r\<lparr>rElectionElapsed := 0, rLead := Message_GetFrom m\<rparr>))
      else if Message_GetType m = MsgSnap then
        nil_err (handleSnapshot m (r\<lparr>rElectionElapsed := 0, rLead := Message_GetFrom m\<rparr>))
      else if Message_GetType m = MsgTransferLeader then
        (if rLead r = None_id then Some (None, r) else nil_err (forwardToLead m r))
      else if Message_GetType m = MsgForgetLeader then
        (if roOption (rReadOnly r) = ReadOnlyLeaseBased then Some (None, r)
         else Some (None, if rLead r \<noteq> None_id then r\<lparr>rLead := None_id\<rparr> else r))
      else if Message_GetType m = MsgTimeoutNow then nil_err (hup campaignTransfer r)
      else if Message_GetType m = MsgReadIndex then
        (if rLead r = None_id then Some (None, r) else nil_err (forwardToLead m r))
      else if Message_GetType m = MsgReadIndexResp then
        (if length (Message_GetEntries m) \<noteq> 1 then Some (None, r)
         else Some (None, r\<lparr>rReadStates := rReadStates r @
           [\<lparr>rsIndex = Message_GetIndex m, rsRequestCtx = eData (Message_GetEntries m ! 0)\<rparr>]\<rparr>))
      else Some (None, r))"

section \<open>Candidates\<close>

definition stepCandidate :: "Message \<Rightarrow> raft \<Rightarrow> step_result" where
  "stepCandidate m r =
     (let myVoteRespType = (if rState r = StatePreCandidate then MsgPreVoteResp else MsgVoteResp)
      in if Message_GetType m = MsgProp then Some (Some ErrProposalDropped, r)
      else if Message_GetType m = MsgApp then
        nil_err (do { r \<leftarrow> becomeFollower (Message_GetTerm m) (Message_GetFrom m) r; handleAppendEntries m r })
      else if Message_GetType m = MsgHeartbeat then
        nil_err (do { r \<leftarrow> becomeFollower (Message_GetTerm m) (Message_GetFrom m) r; handleHeartbeat m r })
      else if Message_GetType m = MsgSnap then
        nil_err (do { r \<leftarrow> becomeFollower (Message_GetTerm m) (Message_GetFrom m) r; handleSnapshot m r })
      else if Message_GetType m = myVoteRespType then
        (case poll (Message_GetFrom m) (\<not> Message_GetReject m) r of ((gr, rj, res), r) \<Rightarrow>
           nil_err (case res of
               VoteWon \<Rightarrow>
                 (if rState r = StatePreCandidate then campaign campaignElection r
                  else do { r \<leftarrow> becomeLeader r; bcastAppend r })
             | VoteLost \<Rightarrow> becomeFollower (rTerm r) None_id r
             | VotePending \<Rightarrow> Some r))
      else Some (None, r))"

section \<open>Leaders: reads\<close>

definition committedEntryInCurrentTerm :: "raft \<Rightarrow> bool option" where
  "committedEntryInCurrentTerm r = do {
     t \<leftarrow> log_term (lCommitted (rLog r)) (rLog r);
     t \<leftarrow> zeroTermOnOutOfBounds t;
     Some (t = rTerm r)
   }"

definition responseToReadIndexReq :: "Message \<Rightarrow> uint64 \<Rightarrow> raft \<Rightarrow> (Message \<times> raft) option" where
  "responseToReadIndexReq req readIndex r =
     (if Message_GetFrom req = None_id \<or> Message_GetFrom req = rId r then do {
        e \<leftarrow> go_index (Message_GetEntries req) 0;
        Some (Msg Message0 [], r\<lparr>rReadStates := rReadStates r @
          [\<lparr>rsIndex = readIndex, rsRequestCtx = eData e\<rparr>]\<rparr>)
      }
      else Some (Msg ((mkMsg (mFrom (msg req)) MsgReadIndexResp)\<lparr>mIndex := Some readIndex,
        mEntries := Message_GetEntries req\<rparr>) [], r))"

text \<open>\<^verbatim>\<open>if resp := r.responseToReadIndexReq(req, i); resp.GetTo() != None { r.send(resp) }\<close>\<close>

definition answerReadIndex :: "Message \<Rightarrow> uint64 \<Rightarrow> raft \<Rightarrow> raft option" where
  "answerReadIndex req readIndex r = do {
     (resp, r) \<leftarrow> responseToReadIndexReq req readIndex r;
     if Message_GetTo resp \<noteq> None_id then send resp r else Some r
   }"

definition sendMsgReadIndexResponse :: "Message \<Rightarrow> raft \<Rightarrow> raft option" where
  "sendMsgReadIndexResponse m r =
     (case roOption (rReadOnly r) of
        ReadOnlySafe \<Rightarrow> do {
          let ro = addRequest (lCommitted (rLog r)) m (rReadOnly r);
          ro \<leftarrow> recvAck (rId r) (get_list (heartbeatCtx ro)) ro;
          bcastHeartbeat (r\<lparr>rReadOnly := ro\<rparr>)
        }
      | ReadOnlyLeaseBased \<Rightarrow> answerReadIndex m (lCommitted (rLog r)) r)"

fun sendReadIndexResponses :: "Message list \<Rightarrow> raft \<Rightarrow> raft option" where
  "sendReadIndexResponses [] r = Some r"
| "sendReadIndexResponses (m # ms) r = do { r \<leftarrow> sendMsgReadIndexResponse m r; sendReadIndexResponses ms r }"

definition releasePendingReadIndexMessages :: "raft \<Rightarrow> raft option" where
  "releasePendingReadIndexMessages r =
     (if length (rPendingReadIndexMessages r) = 0 then Some r
      else do {
        c \<leftarrow> committedEntryInCurrentTerm r;
        if \<not> c then Some r
        else sendReadIndexResponses (rPendingReadIndexMessages r) (r\<lparr>rPendingReadIndexMessages := []\<rparr>)
      })"

fun answerReads :: "readIndexRequest list \<Rightarrow> raft \<Rightarrow> raft option" where
  "answerReads [] r = Some r"
| "answerReads (rs # rss) r = do { r \<leftarrow> answerReadIndex (rirReq rs) (rirIndex rs) r; answerReads rss r }"

section \<open>Leaders: proposals\<close>

text \<open>The change an entry carries, if any; an entry of a change type that does not decode panics.\<close>

definition entryConfChange :: "Entry \<Rightarrow> ConfChangeI option option" where
  "entryConfChange e =
     (if Entry_GetType e = EntryConfChange then
        (case Unmarshal ConfChange_UnmarshalMessage ConfChange0 (Entry_GetData e) of
           Inl err \<Rightarrow> None | Inr c \<Rightarrow> Some (Some (CCv1 c)))
      else if Entry_GetType e = EntryConfChangeV2 then
        (case Unmarshal ConfChangeV2_UnmarshalMessage ConfChangeV20 (Entry_GetData e) of
           Inl err \<Rightarrow> None | Inr c \<Rightarrow> Some (Some (CCv2 c)))
      else Some None)"

definition confChangeRefused :: "ConfChangeI \<Rightarrow> raft \<Rightarrow> bool" where
  "confChangeRefused cc r =
     (let alreadyPending = rPendingConfIndex r > lApplied (rLog r);
          alreadyJoint = elems (snd (cfgVoters (trkConfig (rTrk r)))) \<noteq> {};
          wantsLeaveJoint = length (ccv2Changes (ConfChangeI_AsV2 cc)) = 0
      in (alreadyPending \<or> alreadyJoint \<and> \<not> wantsLeaveJoint \<or> \<not> alreadyJoint \<and> wantsLeaveJoint) \<and>
         \<not> rDisableConfChangeValidation r)"

fun screenProposals :: "nat \<Rightarrow> Entry list \<Rightarrow> raft \<Rightarrow> (Entry list \<times> raft) option" where
  "screenProposals i [] r = Some ([], r)"
| "screenProposals i (e # es) r = do {
     cc \<leftarrow> entryConfChange e;
     (e, r) \<leftarrow> (case cc of
         None \<Rightarrow> Some (e, r)
       | Some cc \<Rightarrow>
           if confChangeRefused cc r then Some (Entry0\<lparr>eType := Some EntryNormal\<rparr>, r)
           else do {
             li \<leftarrow> log_lastIndex (rLog r);
             Some (e, r\<lparr>rPendingConfIndex := li + of_nat i + 1\<rparr>)
           });
     (es, r) \<leftarrow> screenProposals (Suc i) es r;
     Some (e # es, r)
   }"

definition stepLeaderProp :: "Message \<Rightarrow> raft \<Rightarrow> step_result" where
  "stepLeaderProp m r = do {
     panic_if (length (Message_GetEntries m) = 0);
     if progressOf (rId r) r = None then Some (Some ErrProposalDropped, r)
     else if rLeadTransferee r \<noteq> None_id then Some (Some ErrProposalDropped, r)
     else do {
       (es, r) \<leftarrow> screenProposals 0 (Message_GetEntries m) r;
       (ok, r) \<leftarrow> appendEntry es r;
       if \<not> ok then Some (Some ErrProposalDropped, r) else nil_err (bcastAppend r)
     }
   }"

definition stepLeaderReadIndex :: "Message \<Rightarrow> raft \<Rightarrow> raft option" where
  "stepLeaderReadIndex m r =
     (if ProgressTracker_IsSingleton (rTrk r) then answerReadIndex m (lCommitted (rLog r)) r
      else do {
        c \<leftarrow> committedEntryInCurrentTerm r;
        if \<not> c then Some (r\<lparr>rPendingReadIndexMessages := rPendingReadIndexMessages r @ [m]\<rparr>)
        else sendMsgReadIndexResponse m r
      })"

definition stepLeaderCheckQuorum :: "raft \<Rightarrow> raft option" where
  "stepLeaderCheckQuorum r = do {
     r \<leftarrow> (if \<not> ProgressTracker_QuorumActive (rTrk r) then becomeFollower (rTerm r) None_id r else Some r);
     raft_Visit (\<lambda>n pr r. Some (if n \<noteq> rId r then setProgress n (pr\<lparr>prRecentActive := False\<rparr>) r else r)) r
   }"

section \<open>Leaders: responses of a peer\<close>

text \<open>\<^verbatim>\<open>for r.maybeSendAppend(to, false) {}\<close>: \<open>None\<close> also when the loop would not end.\<close>

partial_function (option) sendAppends :: "uint64 \<Rightarrow> raft \<Rightarrow> raft option" where
  "sendAppends to r = do {
     (sent, r) \<leftarrow> maybeSendAppend to False r;
     if sent then sendAppends to r else Some r
   }"

text \<open>These handlers take the progress of the sender, which \<^verbatim>\<open>stepLeader\<close> has looked up.\<close>

definition leaderAppReject :: "Message \<Rightarrow> Progress \<Rightarrow> raft \<Rightarrow> raft option" where
  "leaderAppReject m pr r = do {
     nextProbeIdx \<leftarrow> (if Message_GetLogTerm m > 0 then do {
         (i, _) \<leftarrow> findConflictByTerm (Message_GetRejectHint m) (Message_GetLogTerm m) (rLog r);
         Some i
       } else Some (Message_GetRejectHint m));
     case Progress_MaybeDecrTo (Message_GetIndex m) nextProbeIdx pr of (pr, decreased) \<Rightarrow>
       if decreased then
         let pr = (if prState pr = StateReplicate then Progress_BecomeProbe pr else pr)
         in sendAppend (Message_GetFrom m) (setProgress (Message_GetFrom m) pr r)
       else Some (setProgress (Message_GetFrom m) pr r)
   }"

definition leaderAckProgress :: "Message \<Rightarrow> Progress \<Rightarrow> raft \<Rightarrow> Progress option" where
  "leaderAckProgress m pr r =
     (case prState pr of
        StateProbe \<Rightarrow> Some (Progress_BecomeReplicate pr)
      | StateSnapshot \<Rightarrow> do {
          fi \<leftarrow> log_firstIndex (rLog r);
          Some (if prMatch pr + 1 \<ge> fi then Progress_BecomeReplicate (Progress_BecomeProbe pr) else pr)
        }
      | StateReplicate \<Rightarrow> do {
          ins \<leftarrow> Inflights_FreeLE (Message_GetIndex m) (prInflights pr);
          Some (pr\<lparr>prInflights := ins\<rparr>)
        })"

definition leaderAppAccept :: "Message \<Rightarrow> Progress \<Rightarrow> raft \<Rightarrow> raft option" where
  "leaderAppAccept m pr r =
     (let peer = Message_GetFrom m
      in case Progress_MaybeUpdate (Message_GetIndex m) pr of (pr, updated) \<Rightarrow>
        if updated \<or> prMatch pr = Message_GetIndex m \<and> prState pr = StateProbe then do {
          pr \<leftarrow> leaderAckProgress m pr r;
          let r = setProgress peer pr r;
          (committed, r) \<leftarrow> raft_maybeCommit r;
          r \<leftarrow> (if committed then do { r \<leftarrow> releasePendingReadIndexMessages r; bcastAppend r }
               else if rId r \<noteq> peer \<and> Progress_CanBumpCommit (lCommitted (rLog r)) pr
               then sendAppend peer r else Some r);
          r \<leftarrow> (if rId r \<noteq> peer then sendAppends peer r else Some r);
          if peer = rLeadTransferee r then do {
            pr \<leftarrow> progressOf peer r;
            li \<leftarrow> log_lastIndex (rLog r);
            if prMatch pr = li then sendTimeoutNow peer r else Some r
          } else Some r
        } else Some (setProgress peer pr r))"

definition leaderAppResp :: "Message \<Rightarrow> Progress \<Rightarrow> raft \<Rightarrow> raft option" where
  "leaderAppResp m pr r =
     (let pr = pr\<lparr>prRecentActive := True\<rparr>
      in if Message_GetReject m then leaderAppReject m pr r else leaderAppAccept m pr r)"

definition leaderHeartbeatResp :: "Message \<Rightarrow> Progress \<Rightarrow> raft \<Rightarrow> raft option" where
  "leaderHeartbeatResp m pr r = do {
     let pr = pr\<lparr>prRecentActive := True, prMsgAppFlowPaused := False\<rparr>;
     let r = setProgress (Message_GetFrom m) pr r;
     li \<leftarrow> log_lastIndex (rLog r);
     r \<leftarrow> (if prMatch pr < li \<or> prState pr = StateProbe then sendAppend (Message_GetFrom m) r else Some r);
     if roOption (rReadOnly r) \<noteq> ReadOnlySafe \<or> length (Message_GetContext m) = 0 then Some r
     else do {
       ro \<leftarrow> recvAck (Message_GetFrom m) (Message_GetContext m) (rReadOnly r);
       (rss, ro) \<leftarrow> maybeAdvance (cfgVoters (trkConfig (rTrk r))) ro;
       answerReads rss (r\<lparr>rReadOnly := ro\<rparr>)
     }
   }"

definition leaderSnapStatus :: "Message \<Rightarrow> Progress \<Rightarrow> raft \<Rightarrow> raft" where
  "leaderSnapStatus m pr r =
     (if prState pr \<noteq> StateSnapshot then r
      else
        let pr = (if \<not> Message_GetReject m then Progress_BecomeProbe pr
                  else Progress_BecomeProbe (pr\<lparr>prPendingSnapshot := 0\<rparr>))
        in setProgress (Message_GetFrom m) (pr\<lparr>prMsgAppFlowPaused := True\<rparr>) r)"

definition leaderUnreachable :: "Message \<Rightarrow> Progress \<Rightarrow> raft \<Rightarrow> raft" where
  "leaderUnreachable m pr r =
     (if prState pr = StateReplicate then setProgress (Message_GetFrom m) (Progress_BecomeProbe pr) r else r)"

definition leaderTransfer :: "Message \<Rightarrow> Progress \<Rightarrow> raft \<Rightarrow> raft option" where
  "leaderTransfer m pr r =
     (if prIsLearner pr then Some r
      else if rLeadTransferee r \<noteq> None_id \<and> rLeadTransferee r = Message_GetFrom m then Some r
      else
        let r = (if rLeadTransferee r \<noteq> None_id then abortLeaderTransfer r else r)
        in if Message_GetFrom m = rId r then Some r
           else do {
             let r = r\<lparr>rElectionElapsed := 0, rLeadTransferee := Message_GetFrom m\<rparr>;
             li \<leftarrow> log_lastIndex (rLog r);
             if prMatch pr = li then sendTimeoutNow (Message_GetFrom m) r
             else sendAppend (Message_GetFrom m) r
           })"

definition stepLeader :: "Message \<Rightarrow> raft \<Rightarrow> step_result" where
  "stepLeader m r =
     (if Message_GetType m = MsgBeat then nil_err (bcastHeartbeat r)
      else if Message_GetType m = MsgCheckQuorum then nil_err (stepLeaderCheckQuorum r)
      else if Message_GetType m = MsgProp then stepLeaderProp m r
      else if Message_GetType m = MsgReadIndex then nil_err (stepLeaderReadIndex m r)
      else if Message_GetType m = MsgForgetLeader then Some (None, r)
      else (case progressOf (Message_GetFrom m) r of
          None \<Rightarrow> Some (None, r)
        | Some pr \<Rightarrow>
            nil_err (if Message_GetType m = MsgAppResp then leaderAppResp m pr r
              else if Message_GetType m = MsgHeartbeatResp then leaderHeartbeatResp m pr r
              else if Message_GetType m = MsgSnapStatus then Some (leaderSnapStatus m pr r)
              else if Message_GetType m = MsgUnreachable then Some (leaderUnreachable m pr r)
              else if Message_GetType m = MsgTransferLeader then leaderTransfer m pr r
              else Some r)))"

section \<open>Step\<close>

definition callStep :: "Message \<Rightarrow> raft \<Rightarrow> step_result" where
  "callStep m r =
     (case rStep r of
        StepFollower \<Rightarrow> stepFollower m r
      | StepCandidate \<Rightarrow> stepCandidate m r
      | StepLeader \<Rightarrow> stepLeader m r)"

text \<open>A message of a later term: the flag tells whether \<^verbatim>\<open>Step\<close> goes on to the message itself.\<close>

definition stepHigherTerm :: "Message \<Rightarrow> raft \<Rightarrow> (bool \<times> raft) option" where
  "stepHigherTerm m r =
     (let force = (Message_GetContext m = campaignTransfer_bytes);
          inLease = (rCheckQuorum r \<and> rLead r \<noteq> None_id \<and> rElectionElapsed r < rElectionTimeout r)
      in if (Message_GetType m = MsgVote \<or> Message_GetType m = MsgPreVote) \<and> \<not> force \<and> inLease
         then do { log_lastEntryID (rLog r); Some (False, r) }
         else if Message_GetType m = MsgPreVote then Some (True, r)
         else if Message_GetType m = MsgPreVoteResp \<and> \<not> Message_GetReject m then Some (True, r)
         else do {
           r \<leftarrow> becomeFollower (Message_GetTerm m)
             (if Message_GetType m \<in> {MsgApp, MsgHeartbeat, MsgSnap} then Message_GetFrom m else None_id) r;
           Some (True, r)
         })"

definition stepVote :: "Message \<Rightarrow> raft \<Rightarrow> raft option" where
  "stepVote m r = do {
     let canVote = (rVote r = Message_GetFrom m \<or> rVote r = None_id \<and> rLead r = None_id \<or>
       Message_GetType m = MsgPreVote \<and> Message_GetTerm m > rTerm r);
     log_lastEntryID (rLog r);
     respType \<leftarrow> voteRespMsgType (Message_GetType m);
     grant \<leftarrow> (if canVote
       then isUpToDate \<lparr>idTerm = Message_GetLogTerm m, idIndex = Message_GetIndex m\<rparr> (rLog r)
       else Some False);
     if grant then do {
       r \<leftarrow> send (Msg ((mkMsg (mFrom (msg m)) respType)\<lparr>mTerm := mTerm (msg m)\<rparr>) []) r;
       Some (if Message_GetType m = MsgVote
             then r\<lparr>rElectionElapsed := 0, rVote := Message_GetFrom m\<rparr> else r)
     }
     else send (Msg ((mkMsg (mFrom (msg m)) respType)\<lparr>mTerm := Some (rTerm r), mReject := Some True\<rparr>) []) r
   }"

text \<open>The proposal is not an acknowledgement, so the recursion of \<open>Step\<close> stops there.\<close>

definition step_depth :: "Message option \<Rightarrow> nat" where
  "step_depth om = (case om of None \<Rightarrow> 0
     | Some m \<Rightarrow> if Message_GetType m \<in> {MsgStorageAppendResp, MsgStorageApplyResp} then 3 else 0)"

lemma confChangeToMsg_nil_type [simp]: "Message_GetType (confChangeToMsg None) = MsgProp"
  by (simp add: confChangeToMsg_def MarshalConfChange_def Message_GetType_def)

text \<open>
  \<^verbatim>\<open>Step\<close>, \<^verbatim>\<open>appliedSnap\<close> and \<^verbatim>\<open>appliedTo\<close> call each other: an acknowledgement of applied
  entries may make the leader propose to leave the joint configuration.
\<close>

function (sequential) Step :: "Message option \<Rightarrow> raft \<Rightarrow> step_result"
  and appliedSnap :: "Snapshot option \<Rightarrow> raft \<Rightarrow> raft option"
  and appliedTo :: "uint64 \<Rightarrow> uint64 \<Rightarrow> raft \<Rightarrow> raft option" where
  "Step None r = Some (Some ErrNilMessage, r)"
| "Step (Some m) r =
     (if Message_GetTerm m \<noteq> 0 \<and> Message_GetTerm m < rTerm r then
        (if (rCheckQuorum r \<or> rPreVote r) \<and> (Message_GetType m = MsgHeartbeat \<or> Message_GetType m = MsgApp)
         then nil_err (send (Msg (mkMsg (mFrom (msg m)) MsgAppResp) []) r)
         else if Message_GetType m = MsgPreVote then do {
           log_lastEntryID (rLog r);
           nil_err (send (Msg ((mkMsg (mFrom (msg m)) MsgPreVoteResp)\<lparr>mTerm := Some (rTerm r),
             mReject := Some True\<rparr>) []) r)
         }
         else if Message_GetType m = MsgStorageAppendResp then
           (if Message_GetSnapshot m \<noteq> None then nil_err (appliedSnap (Message_GetSnapshot m) r)
            else Some (None, r))
         else Some (None, r))
      else do {
        (go, r) \<leftarrow> (if Message_GetTerm m \<noteq> 0 \<and> Message_GetTerm m > rTerm r
          then stepHigherTerm m r else Some (True, r));
        if \<not> go then Some (None, r)
        else if Message_GetType m = MsgHup then
          nil_err (hup (if rPreVote r then campaignPreElection else campaignElection) r)
        else if Message_GetType m = MsgStorageAppendResp then do {
          r \<leftarrow> (if Message_GetIndex m \<noteq> 0 then do {
                 l \<leftarrow> log_stableTo \<lparr>idTerm = Message_GetLogTerm m, idIndex = Message_GetIndex m\<rparr> (rLog r);
                 Some (r\<lparr>rLog := l\<rparr>)
               } else Some r);
          if Message_GetSnapshot m \<noteq> None then nil_err (appliedSnap (Message_GetSnapshot m) r)
          else Some (None, r)
        }
        else if Message_GetType m = MsgStorageApplyResp then
          (if length (Message_GetEntries m) > 0 then do {
             let index = Entry_GetIndex (Message_GetEntries m ! (length (Message_GetEntries m) - 1));
             r \<leftarrow> appliedTo index (entsSize (Message_GetEntries m)) r;
             Some (None, reduceUncommittedSize (payloadsSize (Message_GetEntries m)) r)
           } else Some (None, r))
        else if Message_GetType m = MsgVote \<or> Message_GetType m = MsgPreVote then nil_err (stepVote m r)
        else callStep m r
      })"
| "appliedSnap snap r = do {
     let index = snapIndex snap;
     appliedTo index 0 (r\<lparr>rLog := log_stableSnapTo index (rLog r)\<rparr>)
   }"
| "appliedTo index siz r = do {
     let newApplied = max index (lApplied (rLog r));
     l \<leftarrow> log_appliedTo newApplied siz (rLog r);
     let r = r\<lparr>rLog := l\<rparr>;
     if cfgAutoLeave (trkConfig (rTrk r)) \<and> newApplied \<ge> rPendingConfIndex r \<and> rState r = StateLeader
     then do { (_, r) \<leftarrow> Step (Some (confChangeToMsg None)) r; Some r }
     else Some r
   }"
  by pat_completeness auto

termination
  by (relation "measure (\<lambda>x. case x of Inl (om, r) \<Rightarrow> step_depth om | Inr (Inl _) \<Rightarrow> 2 | Inr (Inr _) \<Rightarrow> 1)")
    (simp_all add: step_depth_def)

declare Step.simps [simp del] appliedSnap.simps [simp del] appliedTo.simps [simp del]

section \<open>Ticks\<close>

text \<open>An error of \<^verbatim>\<open>Step\<close> is logged only.\<close>

definition stepLocal :: "MessageType \<Rightarrow> raft \<Rightarrow> raft option" where
  "stepLocal typ r = do {
     (_, r) \<leftarrow> Step (Some (Msg (Message0\<lparr>mFrom := Some (rId r), mType := Some typ\<rparr>) [])) r;
     Some r
   }"

definition tickElection :: "raft \<Rightarrow> raft option" where
  "tickElection r =
     (let r = r\<lparr>rElectionElapsed := rElectionElapsed r + 1\<rparr>
      in if promotable r \<and> pastElectionTimeout r then stepLocal MsgHup (r\<lparr>rElectionElapsed := 0\<rparr>)
         else Some r)"

definition tickHeartbeat :: "raft \<Rightarrow> raft option" where
  "tickHeartbeat r = do {
     let r = r\<lparr>rHeartbeatElapsed := rHeartbeatElapsed r + 1, rElectionElapsed := rElectionElapsed r + 1\<rparr>;
     r \<leftarrow> (if rElectionElapsed r \<ge> rElectionTimeout r then do {
            let r = r\<lparr>rElectionElapsed := 0\<rparr>;
            r \<leftarrow> (if rCheckQuorum r then stepLocal MsgCheckQuorum r else Some r);
            Some (if rState r = StateLeader \<and> rLeadTransferee r \<noteq> None_id then abortLeaderTransfer r else r)
          } else Some r);
     if rState r \<noteq> StateLeader then Some r
     else if rHeartbeatElapsed r \<ge> rHeartbeatTimeout r
     then stepLocal MsgBeat (r\<lparr>rHeartbeatElapsed := 0\<rparr>)
     else Some r
   }"

definition tick :: "raft \<Rightarrow> raft option" where
  "tick r = (case rTick r of TickElection \<Rightarrow> tickElection r | TickHeartbeat \<Rightarrow> tickHeartbeat r)"

end
