(* ===== verification/RawNode.thy ===== *)
theory RawNode
  imports RaftStep
begin

text \<open>
  The interface of a node to its application (src/raftsubject/raft/rawnode.go, bootstrap.go,
  status.go): the application feeds ticks, proposals and messages in, takes a \<^verbatim>\<open>Ready\<close> batch
  out, makes it durable, and acknowledges it, either by \<^verbatim>\<open>Advance\<close> or, with asynchronous
  storage writes, by stepping the responses that the batch carries.
\<close>

section \<open>State\<close>

record RawNode =
  nRaft :: raft
  nAsyncStorageWrites :: bool
  nPrevSoftSt :: SoftState
  nPrevHardSt :: HardState
  nStepsOnAdvance :: "Message list"

record Ready =
  rdSoftState :: "SoftState option"
  rdHardState :: "HardState option"
  rdReadStates :: "ReadState list"
  rdEntries :: "Entry list"
  rdSnapshot :: "Snapshot option"
  rdCommittedEntries :: "Entry list"
  rdMessages :: "Message list"
  rdMustSync :: bool

definition NewRawNode :: "RaftConfig \<Rightarrow> nat list \<Rightarrow> RawNode option" where
  "NewRawNode config draws = do {
     r \<leftarrow> newRaft config draws;
     Some \<lparr>nRaft = r, nAsyncStorageWrites = cAsyncStorageWrites config, nPrevSoftSt = softState r,
       nPrevHardSt = hardState r, nStepsOnAdvance = []\<rparr>
   }"

section \<open>Input\<close>

definition Tick :: "RawNode \<Rightarrow> RawNode option" where
  "Tick rn = do { r \<leftarrow> tick (nRaft rn); Some (rn\<lparr>nRaft := r\<rparr>) }"

definition TickQuiesced :: "RawNode \<Rightarrow> RawNode" where
  "TickQuiesced rn = rn\<lparr>nRaft := (nRaft rn)\<lparr>rElectionElapsed := rElectionElapsed (nRaft rn) + 1\<rparr>\<rparr>"

definition stepNode :: "Message option \<Rightarrow> RawNode \<Rightarrow> (raft_error option \<times> RawNode) option" where
  "stepNode m rn = do { (e, r) \<leftarrow> Step m (nRaft rn); Some (e, rn\<lparr>nRaft := r\<rparr>) }"

definition Campaign :: "RawNode \<Rightarrow> (raft_error option \<times> RawNode) option" where
  "Campaign rn = stepNode (Some (Msg (Message0\<lparr>mType := Some MsgHup\<rparr>) [])) rn"

definition Propose :: "byte list option \<Rightarrow> RawNode \<Rightarrow> (raft_error option \<times> RawNode) option" where
  "Propose dat rn = stepNode (Some (Msg (Message0\<lparr>mType := Some MsgProp,
     mFrom := Some (rId (nRaft rn)), mEntries := [Entry0\<lparr>eData := dat\<rparr>]\<rparr>) [])) rn"

definition ProposeConfChange :: "ConfChangeI option \<Rightarrow> RawNode \<Rightarrow> (raft_error option \<times> RawNode) option" where
  "ProposeConfChange cc rn = stepNode (Some (confChangeToMsg cc)) rn"

definition ApplyConfChange :: "ConfChangeI \<Rightarrow> RawNode \<Rightarrow> (ConfState \<times> RawNode) option" where
  "ApplyConfChange cc rn = do {
     (cs, r) \<leftarrow> applyConfChange (ConfChangeI_AsV2 cc) (nRaft rn);
     Some (cs, rn\<lparr>nRaft := r\<rparr>)
   }"

text \<open>The getters of a nil message read as zero: type \<^verbatim>\<open>MsgHup\<close>, sender 0.\<close>

definition RawNode_Step :: "Message option \<Rightarrow> RawNode \<Rightarrow> (raft_error option \<times> RawNode) option" where
  "RawNode_Step m rn = do {
     let typ = (case m of None \<Rightarrow> MsgHup | Some x \<Rightarrow> Message_GetType x);
     let src = (case m of None \<Rightarrow> 0 | Some x \<Rightarrow> Message_GetFrom x);
     local \<leftarrow> IsLocalMsg typ;
     if local \<and> \<not> IsLocalMsgTarget src then Some (Some ErrStepLocalMsg, rn)
     else do {
       resp \<leftarrow> IsResponseMsg typ;
       if resp \<and> \<not> IsLocalMsgTarget src \<and> progressOf src (nRaft rn) = None
       then Some (Some ErrStepPeerNotFound, rn)
       else stepNode m rn
     }
   }"

text \<open>The reports drop the error of \<^verbatim>\<open>Step\<close>.\<close>

definition stepReport :: "MsgFields \<Rightarrow> RawNode \<Rightarrow> RawNode option" where
  "stepReport m rn = do { (_, rn) \<leftarrow> stepNode (Some (Msg m [])) rn; Some rn }"

datatype SnapshotStatus = SnapshotFinish | SnapshotFailure

definition ReportUnreachable :: "uint64 \<Rightarrow> RawNode \<Rightarrow> RawNode option" where
  "ReportUnreachable n = stepReport (Message0\<lparr>mType := Some MsgUnreachable, mFrom := Some n\<rparr>)"

definition ReportSnapshot :: "uint64 \<Rightarrow> SnapshotStatus \<Rightarrow> RawNode \<Rightarrow> RawNode option" where
  "ReportSnapshot n status = stepReport (Message0\<lparr>mType := Some MsgSnapStatus, mFrom := Some n,
     mReject := Some (status = SnapshotFailure)\<rparr>)"

definition TransferLeader :: "uint64 \<Rightarrow> RawNode \<Rightarrow> RawNode option" where
  "TransferLeader transferee = stepReport (Message0\<lparr>mType := Some MsgTransferLeader, mFrom := Some transferee\<rparr>)"

definition ForgetLeader :: "RawNode \<Rightarrow> (raft_error option \<times> RawNode) option" where
  "ForgetLeader rn = stepNode (Some (Msg (Message0\<lparr>mType := Some MsgForgetLeader\<rparr>) [])) rn"

definition ReadIndex :: "byte list option \<Rightarrow> RawNode \<Rightarrow> RawNode option" where
  "ReadIndex rctx = stepReport (Message0\<lparr>mType := Some MsgReadIndex, mEntries := [Entry0\<lparr>eData := rctx\<rparr>]\<rparr>)"

section \<open>Output\<close>

definition applyUnstableEntries :: "RawNode \<Rightarrow> bool" where
  "applyUnstableEntries rn \<longleftrightarrow> \<not> nAsyncStorageWrites rn"

definition MustSync :: "HardState option \<Rightarrow> HardState option \<Rightarrow> nat \<Rightarrow> bool" where
  "MustSync st prevst entsnum \<longleftrightarrow> entsnum \<noteq> 0 \<or> HardState_GetVote st \<noteq> HardState_GetVote prevst \<or>
     HardState_GetTerm st \<noteq> HardState_GetTerm prevst"

definition needStorageAppendMsg :: "raft \<Rightarrow> Ready \<Rightarrow> bool" where
  "needStorageAppendMsg r rd \<longleftrightarrow> length (rdEntries rd) > 0 \<or> \<not> IsEmptyHardState (rdHardState rd) \<or>
     \<not> IsEmptySnap (rdSnapshot rd) \<or> length (rMsgsAfterAppend r) > 0"

definition needStorageAppendRespMsg :: "raft \<Rightarrow> Ready \<Rightarrow> bool" where
  "needStorageAppendRespMsg r rd \<longleftrightarrow>
     hasNextOrInProgressUnstableEnts (rLog r) \<or> \<not> IsEmptySnap (rdSnapshot rd)"

definition newStorageAppendRespMsg :: "raft \<Rightarrow> Ready \<Rightarrow> Message option" where
  "newStorageAppendRespMsg r rd = do {
     let m = Message0\<lparr>mType := Some MsgStorageAppendResp, mTo := Some (rId r),
       mFrom := Some LocalAppendThread, mTerm := Some (rTerm r)\<rparr>;
     m \<leftarrow> (if hasNextOrInProgressUnstableEnts (rLog r) then do {
            lastID \<leftarrow> log_lastEntryID (rLog r);
            Some (m\<lparr>mIndex := Some (idIndex lastID), mLogTerm := Some (idTerm lastID)\<rparr>)
          } else Some m);
     let m = (if \<not> IsEmptySnap (rdSnapshot rd) then m\<lparr>mSnapshot := rdSnapshot rd\<rparr> else m);
     Some (Msg m [])
   }"

definition newStorageAppendMsg :: "raft \<Rightarrow> Ready \<Rightarrow> Message option" where
  "newStorageAppendMsg r rd = do {
     let m = Message0\<lparr>mType := Some MsgStorageAppend, mTo := Some LocalAppendThread,
       mFrom := Some (rId r), mEntries := rdEntries rd\<rparr>;
     let m = (if \<not> IsEmptyHardState (rdHardState rd)
              then m\<lparr>mTerm := Some (HardState_GetTerm (rdHardState rd)),
                mVote := Some (HardState_GetVote (rdHardState rd)),
                mCommit := Some (HardState_GetCommit (rdHardState rd))\<rparr> else m);
     let m = (if \<not> IsEmptySnap (rdSnapshot rd) then m\<lparr>mSnapshot := rdSnapshot rd\<rparr> else m);
     resp \<leftarrow> (if needStorageAppendRespMsg r rd then do {
              resp \<leftarrow> newStorageAppendRespMsg r rd;
              Some [resp]
            } else Some []);
     Some (Msg m (rMsgsAfterAppend r @ resp))
   }"

definition needStorageApplyMsg :: "Ready \<Rightarrow> bool" where
  "needStorageApplyMsg rd \<longleftrightarrow> length (rdCommittedEntries rd) > 0"

definition needStorageApplyRespMsg :: "Ready \<Rightarrow> bool" where
  "needStorageApplyRespMsg rd \<longleftrightarrow> needStorageApplyMsg rd"

definition newStorageApplyRespMsg :: "raft \<Rightarrow> Entry list \<Rightarrow> Message" where
  "newStorageApplyRespMsg r ents = Msg (Message0\<lparr>mType := Some MsgStorageApplyResp,
     mTo := Some (rId r), mFrom := Some LocalApplyThread, mTerm := Some 0, mEntries := ents\<rparr>) []"

definition newStorageApplyMsg :: "raft \<Rightarrow> Ready \<Rightarrow> Message" where
  "newStorageApplyMsg r rd = Msg (Message0\<lparr>mType := Some MsgStorageApply, mTo := Some LocalApplyThread,
     mFrom := Some (rId r), mTerm := Some 0, mEntries := rdCommittedEntries rd\<rparr>)
     [newStorageApplyRespMsg r (rdCommittedEntries rd)]"

definition readyWithoutAccept :: "RawNode \<Rightarrow> Ready option" where
  "readyWithoutAccept rn = do {
     let r = nRaft rn;
     ents \<leftarrow> nextUnstableEnts (rLog r);
     committed \<leftarrow> nextCommittedEnts (applyUnstableEntries rn) (rLog r);
     let rd = \<lparr>
       rdSoftState = (if \<not> SoftState_equal (softState r) (nPrevSoftSt rn) then Some (softState r) else None),
       rdHardState = (if \<not> isHardStateEqual (Some (hardState r)) (Some (nPrevHardSt rn))
         then Some (hardState r) else None),
       rdReadStates = rReadStates r,
       rdEntries = ents,
       rdSnapshot = (if hasNextUnstableSnapshot (rLog r) then nextUnstableSnapshot (rLog r) else None),
       rdCommittedEntries = committed,
       rdMessages = rMsgs r,
       rdMustSync = MustSync (Some (hardState r)) (Some (nPrevHardSt rn)) (length ents)\<rparr>;
     if nAsyncStorageWrites rn then do {
       rd \<leftarrow> (if needStorageAppendMsg r rd then do {
               m \<leftarrow> newStorageAppendMsg r rd;
               Some (rd\<lparr>rdMessages := rdMessages rd @ [m]\<rparr>)
             } else Some rd);
       Some (if needStorageApplyMsg rd
             then rd\<lparr>rdMessages := rdMessages rd @ [newStorageApplyMsg r rd]\<rparr> else rd)
     }
     else Some (rd\<lparr>rdMessages := rdMessages rd @ filter (\<lambda>m. Message_GetTo m \<noteq> rId r) (rMsgsAfterAppend r)\<rparr>)
   }"

definition acceptReady :: "Ready \<Rightarrow> RawNode \<Rightarrow> RawNode option" where
  "acceptReady rd rn = do {
     let rn = (case rdSoftState rd of None \<Rightarrow> rn | Some ss \<Rightarrow> rn\<lparr>nPrevSoftSt := ss\<rparr>);
     let rn = (case rdHardState rd of None \<Rightarrow> rn
       | Some hs \<Rightarrow> if \<not> IsEmptyHardState (Some hs) then rn\<lparr>nPrevHardSt := hs\<rparr> else rn);
     let rn = (if length (rdReadStates rd) \<noteq> 0 then rn\<lparr>nRaft := (nRaft rn)\<lparr>rReadStates := []\<rparr>\<rparr> else rn);
     let r = nRaft rn;
     rn \<leftarrow> (if \<not> nAsyncStorageWrites rn then do {
             panic_if (length (nStepsOnAdvance rn) \<noteq> 0);
             let steps = filter (\<lambda>m. Message_GetTo m = rId r) (rMsgsAfterAppend r);
             steps \<leftarrow> (if needStorageAppendRespMsg r rd then do {
                      m \<leftarrow> newStorageAppendRespMsg r rd;
                      Some (steps @ [m])
                    } else Some steps);
             let steps = (if needStorageApplyRespMsg rd
               then steps @ [newStorageApplyRespMsg r (rdCommittedEntries rd)] else steps);
             Some (rn\<lparr>nStepsOnAdvance := steps\<rparr>)
           } else Some rn);
     let r = r\<lparr>rMsgs := [], rMsgsAfterAppend := [], rLog := acceptUnstable (rLog r)\<rparr>;
     r \<leftarrow> (if length (rdCommittedEntries rd) > 0 then do {
            let ents = rdCommittedEntries rd;
            l \<leftarrow> acceptApplying (Entry_GetIndex (ents ! (length ents - 1))) (entsSize ents)
              (applyUnstableEntries rn) (rLog r);
            Some (r\<lparr>rLog := l\<rparr>)
          } else Some r);
     Some (rn\<lparr>nRaft := r\<rparr>)
   }"

definition takeReady :: "RawNode \<Rightarrow> (Ready \<times> RawNode) option" where
  "takeReady rn = do {
     rd \<leftarrow> readyWithoutAccept rn;
     rn \<leftarrow> acceptReady rd rn;
     Some (rd, rn)
   }"

definition HasReady :: "RawNode \<Rightarrow> bool option" where
  "HasReady rn =
     (let r = nRaft rn
      in if \<not> SoftState_equal (softState r) (nPrevSoftSt rn) then Some True
      else if \<not> IsEmptyHardState (Some (hardState r)) \<and>
        \<not> isHardStateEqual (Some (hardState r)) (Some (nPrevHardSt rn)) then Some True
      else if hasNextUnstableSnapshot (rLog r) then Some True
      else if length (rMsgs r) > 0 \<or> length (rMsgsAfterAppend r) > 0 then Some True
      else do {
        ents \<leftarrow> hasNextUnstableEnts (rLog r);
        if ents \<or> hasNextCommittedEnts (applyUnstableEntries rn) (rLog r) then Some True
        else Some (length (rReadStates r) \<noteq> 0)
      })"

fun stepAll :: "Message list \<Rightarrow> raft \<Rightarrow> raft option" where
  "stepAll [] r = Some r"
| "stepAll (m # ms) r = do { (_, r) \<leftarrow> Step (Some m) r; stepAll ms r }"

definition Advance :: "RawNode \<Rightarrow> RawNode option" where
  "Advance rn = do {
     panic_if (nAsyncStorageWrites rn);
     r \<leftarrow> stepAll (nStepsOnAdvance rn) (nRaft rn);
     Some (rn\<lparr>nRaft := r, nStepsOnAdvance := []\<rparr>)
   }"

section \<open>Bootstrap and status\<close>

record Peer =
  peerID :: uint64
  peerContext :: "byte list option"

datatype bootstrap_error = ErrNoPeers | ErrNonemptyStorage | ErrBootstrapStorage storage_error

definition bootstrapEntries :: "Peer list \<Rightarrow> Entry list" where
  "bootstrapEntries peers = map (\<lambda>(i, peer). Entry0\<lparr>eType := Some EntryConfChange, eTerm := Some 1,
     eIndex := Some (of_nat (i + 1)),
     eData := Marshal ConfChange_MarshalAppend (ConfChange0\<lparr>ccType := Some ConfChangeAddNode,
       ccNodeId := Some (peerID peer), ccContext := peerContext peer\<rparr>)\<rparr>) (List.enumerate 0 peers)"

fun applyPeers :: "Peer list \<Rightarrow> raft \<Rightarrow> raft option" where
  "applyPeers [] r = Some r"
| "applyPeers (peer # peers) r = do {
     (_, r) \<leftarrow> applyConfChange (ConfChange_AsV2 (ConfChange0\<lparr>ccNodeId := Some (peerID peer),
       ccType := Some ConfChangeAddNode\<rparr>)) r;
     applyPeers peers r
   }"

definition Bootstrap :: "Peer list \<Rightarrow> RawNode \<Rightarrow> (bootstrap_error option \<times> RawNode) option" where
  "Bootstrap peers rn =
     (if length peers = 0 then Some (Some ErrNoPeers, rn)
      else do {
        res \<leftarrow> MS_LastIndex (lStorage (rLog (nRaft rn)));
        case res of
          Inl e \<Rightarrow> Some (Some (ErrBootstrapStorage e), rn)
        | Inr lastIndex \<Rightarrow>
            if lastIndex \<noteq> 0 then Some (Some ErrNonemptyStorage, rn)
            else do {
              let rn = rn\<lparr>nPrevHardSt := emptyState\<rparr>;
              r \<leftarrow> becomeFollower 1 None_id (nRaft rn);
              let ents = bootstrapEntries peers;
              (_, l) \<leftarrow> log_append ents (rLog r);
              let r = r\<lparr>rLog := l\<lparr>lCommitted := len64 ents\<rparr>\<rparr>;
              r \<leftarrow> applyPeers peers r;
              Some (None, rn\<lparr>nRaft := r\<rparr>)
            }
      })"

record BasicStatus =
  bsID :: uint64
  bsHardState :: HardState
  bsSoftState :: SoftState
  bsApplied :: uint64
  bsLeadTransferee :: uint64

record Status =
  sBasicStatus :: BasicStatus
  sConfig :: Config
  sProgress :: "uint64 \<rightharpoonup> Progress"

definition getProgressCopy :: "raft \<Rightarrow> (uint64 \<rightharpoonup> Progress)" where
  "getProgressCopy r = ProgressTracker_Visit
     (\<lambda>n pr m. m(n \<mapsto> pr\<lparr>prInflights := Inflights_Clone (prInflights pr)\<rparr>)) (rTrk r) Map.empty"

definition getBasicStatus :: "raft \<Rightarrow> BasicStatus" where
  "getBasicStatus r = \<lparr>bsID = rId r, bsHardState = hardState r, bsSoftState = softState r,
     bsApplied = lApplied (rLog r), bsLeadTransferee = rLeadTransferee r\<rparr>"

definition getStatus :: "raft \<Rightarrow> Status" where
  "getStatus r =
     (let bs = getBasicStatus r
      in \<lparr>sBasicStatus = bs, sConfig = Config_Clone (trkConfig (rTrk r)),
          sProgress = (if ssRaftState (bsSoftState bs) = StateLeader then getProgressCopy r else Map.empty)\<rparr>)"

end
