(* ===== verification/LogProps.thy ===== *)
theory LogProps
  imports RaftLog
begin

text \<open>
  What the writes of the raft log do to the abstract log, and the safety of the log as the
  raft node and the application use it: a step relation of the operations of
  src/raftsubject/raft/log.go interleaved with the application's writes to storage, its
  invariant, and that no step loses or changes a committed entry.
\<close>

section \<open>Appending and committing\<close>

definition entryAt :: "raftLog \<Rightarrow> nat \<Rightarrow> Entry option" where
  "entryAt l n = (if logBase l < n \<and> n \<le> logLast l then Some (logEnts l ! (n - Suc (logBase l))) else None)"

lemma termAt_entryAt: "n \<noteq> logBase l \<Longrightarrow> termAt l n = map_option Entry_GetTerm (entryAt l n)"
  by (simp add: termAt_def entryAt_def)

lemma termAt_bounds: "termAt l n = Some t \<Longrightarrow> logBase l \<le> n \<and> n \<le> logLast l"
  by (auto simp: termAt_def split: if_splits)

text \<open>The log after its part from index \<open>i\<close> on is replaced by \<open>es\<close>.\<close>

lemma unstable_append_view:
  assumes sh: "log_shape l" and c: "contig i es" and ne: "es \<noteq> []" and lo: "logBase l < i"
    and hi: "i \<le> Suc (logLast l)" and room: "length (logEnts l) + length es < 2 ^ 63"
  obtains u' where "truncateAndAppend es (lUnstable l) = Some u'"
    and "log_shape (l\<lparr>lUnstable := u'\<rparr>)" and "logBase (l\<lparr>lUnstable := u'\<rparr>) = logBase l"
    and "logBaseTerm (l\<lparr>lUnstable := u'\<rparr>) = logBaseTerm l"
    and "logEnts (l\<lparr>lUnstable := u'\<rparr>) = take (i - Suc (logBase l)) (logEnts l) @ es"
proof -
  have u: "unstable_ok (lUnstable l)" and ms: "ms_ok (lStorage l)" using sh by (simp_all add: log_shape_def)
  note off = shape_parts(1) [OF sh] and ends = logLast_uEnd [OF sh]
  let ?u = "lUnstable l"
  have gap: "i \<le> uEnd ?u" using hi ends by simp
  define u' where "u' = ?u\<lparr>uEntries := take (i - unat (uOffset ?u)) (uEntries ?u) @ es,
     uOffset := min (uOffset ?u) (of_nat i), uOffsetInProgress := min (uOffsetInProgress ?u) (of_nat i)\<rparr>"
  have run: "truncateAndAppend es ?u = Some u'"
    unfolding u'_def by (rule truncateAndAppend_eq [OF u c ne gap])
  have ok: "unstable_ok u'"
  proof (rule truncateAndAppend_ok [OF u c ne gap _ _ run])
    show "length (uEntries ?u) + length es < 2 ^ 63" using room by (simp add: logEnts_def)
  qed (use lo in \<open>auto simp: logBase_def\<close>)
  have n: "unat (of_nat i :: uint64) = i" using contig_length [OF c] by (intro unat_of_nat64) simp
  then have off': "unat (uOffset u') = min (unat (uOffset ?u)) i"
    by (auto simp: u'_def min_def word_le_nat_alt)
  have ents: "stableEnts (l\<lparr>lUnstable := u'\<rparr>) @ uEntries u' = take (i - Suc (logBase l)) (logEnts l) @ es"
    and shape: "log_shape (l\<lparr>lUnstable := u'\<rparr>)"
  proof -
    have eq: "logBase l + length (stableEnts l) = unat (uOffset ?u) - 1" using off by simp
    show "stableEnts (l\<lparr>lUnstable := u'\<rparr>) @ uEntries u' = take (i - Suc (logBase l)) (logEnts l) @ es"
    proof (cases "uSnapshot ?u")
      case None
      then have base: "logBase l = msBase (lStorage l)" by (simp add: logBase_def)
      from None have st: "stableEnts l = take (unat (uOffset ?u) - Suc (logBase l)) (msLog (lStorage l))"
          "stableEnts (l\<lparr>lUnstable := u'\<rparr>) = take (unat (uOffset u') - Suc (logBase l)) (msLog (lStorage l))"
        by (simp_all add: stableEnts_def base) (simp add: u'_def)
      have len: "length (stableEnts l) = unat (uOffset ?u) - Suc (logBase l)" using off by simp
      show ?thesis
      proof (cases "i \<le> unat (uOffset ?u)")
        case True
        then have "take (i - Suc (logBase l)) (logEnts l) = take (i - Suc (logBase l)) (msLog (lStorage l))"
          using len by (simp add: logEnts_def st(1) min_def)
        with True st(2) off' show ?thesis by (simp add: u'_def)
      next
        case False
        then have "take (i - Suc (logBase l)) (logEnts l) = stableEnts l @ take (i - unat (uOffset ?u)) (uEntries ?u)"
          using off by (simp add: logEnts_def)
        with False st off' show ?thesis by (simp add: u'_def)
      qed
    next
      case (Some s)
      then have "unat (uOffset ?u) = Suc (logBase l)" using sh by (simp add: log_shape_def logBase_def)
      with Some show ?thesis by (simp add: stableEnts_def logEnts_def u'_def)
    qed
    show "log_shape (l\<lparr>lUnstable := u'\<rparr>)"
      using ms ok off' sh lo ne
      by (auto simp: log_shape_def logBase_def split: option.splits) (auto simp: u'_def)
  qed
  have "logBase (l\<lparr>lUnstable := u'\<rparr>) = logBase l" "logBaseTerm (l\<lparr>lUnstable := u'\<rparr>) = logBaseTerm l"
    by (cases "uSnapshot ?u"; simp add: logBase_def logBaseTerm_def u'_def)+
  with that [OF run shape] ents show ?thesis by (simp add: logEnts_def [of "l\<lparr>lUnstable := u'\<rparr>"])
qed


lemma log_append_view:
  assumes ok: "log_ok l" and c: "contig i es" and ne: "es \<noteq> []" and lo: "unat (lCommitted l) < i"
    and hi: "i \<le> Suc (logLast l)" and room: "length (logEnts l) + length es < 2 ^ 63"
  obtains l' where "log_append es l = Some (of_nat (i + length es - 1), l')" and "log_ok l'"
    and "logBase l' = logBase l" and "logBaseTerm l' = logBaseTerm l"
    and "logEnts l' = take (i - Suc (logBase l)) (logEnts l) @ es"
    and "lCommitted l' = lCommitted l" and "lApplied l' = lApplied l" and "lApplying l' = lApplying l"
    and "lStorage l' = lStorage l" and "l' = l\<lparr>lUnstable := lUnstable l'\<rparr>"
proof -
  have sh: "log_shape l" and b: "logBase l \<le> unat (lCommitted l)" using ok by (simp_all add: log_ok_def)
  from unstable_append_view [OF sh c ne _ hi room] b lo obtain u' where u':
    "truncateAndAppend es (lUnstable l) = Some u'" "log_shape (l\<lparr>lUnstable := u'\<rparr>)"
    "logBase (l\<lparr>lUnstable := u'\<rparr>) = logBase l" "logBaseTerm (l\<lparr>lUnstable := u'\<rparr>) = logBaseTerm l"
    "logEnts (l\<lparr>lUnstable := u'\<rparr>) = take (i - Suc (logBase l)) (logEnts l) @ es" by (metis le_less_trans)
  let ?l = "l\<lparr>lUnstable := u'\<rparr>"
  have last: "logLast ?l = i + length es - 1"
    using u'(3,5) b lo hi by simp
  have i: "unat (Entry_GetIndex (es ! 0)) = i" using contig_hd [OF c ne] ne by (simp add: hd_conv_nth)
  have "Entry_GetIndex (es ! 0) \<noteq> 0" using i lo by auto
  then have "\<not> Entry_GetIndex (es ! 0) - 1 < lCommitted l"
    using i lo by (simp add: word_less_nat_alt unat_pred64)
  then have run: "log_append es l = Some (of_nat (i + length es - 1), ?l)"
    using ne u'(1) log_lastIndex_eq [OF u'(2)] last by (simp add: log_append_def Let_def del: of_nat_add)
  have "log_ok ?l"
    using ok u'(2,3) last lo by (simp add: log_ok_def)
  with that [OF run] u'(3-5) show ?thesis by simp
qed

lemma log_append_conflict:
  assumes "contig i es" and "es \<noteq> []" and "0 < i" and "i \<le> unat (lCommitted l)"
  shows "log_append es l = None"
proof -
  have i: "unat (Entry_GetIndex (es ! 0)) = i" using contig_hd [OF assms(1,2)] assms(2) by (simp add: hd_conv_nth)
  moreover from this have "Entry_GetIndex (es ! 0) \<noteq> 0" using assms(3) by auto
  ultimately have "Entry_GetIndex (es ! 0) - 1 < lCommitted l"
    using assms(3,4) by (simp add: word_less_nat_alt unat_pred64)
  with assms(2) show ?thesis by (simp add: log_append_def Let_def)
qed

lemma commitTo_eq:
  assumes "log_shape l"
  shows "commitTo c l = (if lCommitted l < c \<and> logLast l < unat c then None
    else Some (l\<lparr>lCommitted := max (lCommitted l) c\<rparr>))"
proof -
  have "of_nat (logLast l) < c \<longleftrightarrow> logLast l < unat c"
    using logLast_lt [OF assms] by (intro less_of_nat64) simp
  then show ?thesis
    by (simp add: commitTo_def log_lastIndex_eq [OF assms] max_def not_le del: of_nat_add)
qed

lemma view_committed [simp]:
  "logBase (l\<lparr>lCommitted := c\<rparr>) = logBase l" "logBaseTerm (l\<lparr>lCommitted := c\<rparr>) = logBaseTerm l"
  "logEnts (l\<lparr>lCommitted := c\<rparr>) = logEnts l" "log_shape (l\<lparr>lCommitted := c\<rparr>) = log_shape l"
  "termAt (l\<lparr>lCommitted := c\<rparr>) n = termAt l n" "entryAt (l\<lparr>lCommitted := c\<rparr>) n = entryAt l n"
  by (simp_all add: logBase_def logBaseTerm_def logEnts_def stableEnts_def log_shape_def termAt_def
      entryAt_def cong: option.case_cong)

text \<open>How many of the entries are in the log already, by index and term.\<close>

definition matched :: "raftLog \<Rightarrow> Entry list \<Rightarrow> nat" where
  "matched l es =
     length (takeWhile (\<lambda>e. termAt l (unat (Entry_GetIndex e)) = Some (Entry_GetTerm e)) es)"

lemma matched_le: "matched l es \<le> length es"
  by (simp add: matched_def length_takeWhile_le)

lemma matched_nth:
  "k < matched l es \<Longrightarrow> termAt l (unat (Entry_GetIndex (es ! k))) = Some (Entry_GetTerm (es ! k))"
  unfolding matched_def by (metis (mono_tags, lifting) nth_mem set_takeWhileD takeWhile_nth)

lemma not_matched:
  "matched l es < length es \<Longrightarrow>
     termAt l (unat (Entry_GetIndex (es ! matched l es))) \<noteq> Some (Entry_GetTerm (es ! matched l es))"
  unfolding matched_def by (rule nth_length_takeWhile)

lemma findConflict_eq:
  assumes "log_shape l" and "contig i es"
  shows "findConflict es l = Some (if matched l es < length es then of_nat (i + matched l es) else 0)"
  using assms(2)
proof (induction es arbitrary: i)
  case Nil
  then show ?case by (simp add: matched_def)
next
  case (Cons e es)
  have i: "Entry_GetIndex e = of_nat i" using Cons.prems by auto
  obtain r where r: "log_term (Entry_GetIndex e) l = Some r" "zeroTermOnOutOfBounds r \<noteq> None"
    using log_term_eq [OF assms(1), of "Entry_GetIndex e"] by (auto split: option.splits)
  show ?case
  proof (cases "termAt l (unat (Entry_GetIndex e)) = Some (Entry_GetTerm e)")
    case True
    then show ?thesis
      using Cons.IH [of "Suc i"] Cons.prems
      by (simp add: matchTerm_eq [OF assms(1)] pbEntryID_def matched_def)
  next
    case False
    then show ?thesis
      using r i by (auto simp: matchTerm_eq [OF assms(1)] pbEntryID_def matched_def log_lastIndex_eq [OF assms(1)])
  qed
qed


text \<open>
  \<^verbatim>\<open>maybeAppend\<close> in terms of the abstract log: the entries after the matching ones replace the
  rest of the log, unless that would touch a committed position.
\<close>

definition appendable :: "logSlice \<Rightarrow> raftLog \<Rightarrow> bool" where
  "appendable a l \<longleftrightarrow> contig (Suc (unat (idIndex (lsPrev a)))) (lsEntries a) \<and>
     length (logEnts l) + length (lsEntries a) < 2 ^ 63"

lemma maybeAppend_mismatch:
  "log_shape l \<Longrightarrow> termAt l (unat (idIndex (lsPrev a))) \<noteq> Some (idTerm (lsPrev a)) \<Longrightarrow>
     maybeAppend a c l = Some (None, l)"
  by (simp add: maybeAppend_def matchTerm_eq)

lemma maybeAppend_prefix:
  assumes ok: "log_ok l" and ap: "appendable a l"
    and prev: "termAt l (unat (idIndex (lsPrev a))) = Some (idTerm (lsPrev a))"
  shows "maybeAppend a c l = do {
     l' \<leftarrow> (if matched l (lsEntries a) = length (lsEntries a) then Some l
       else if Suc (unat (idIndex (lsPrev a)) + matched l (lsEntries a)) \<le> unat (lCommitted l) then None
       else map_option snd (log_append (drop (matched l (lsEntries a)) (lsEntries a)) l));
     l' \<leftarrow> commitTo (min c (idIndex (lsPrev a) + len64 (lsEntries a))) l';
     Some (Some (idIndex (lsPrev a) + len64 (lsEntries a)), l') }"
proof -
  let ?p = "idIndex (lsPrev a)" and ?es = "lsEntries a"
  let ?k = "matched l ?es"
  have sh: "log_shape l" using ok by (simp add: log_ok_def)
  have ct: "contig (Suc (unat ?p)) ?es" using ap by (simp add: appendable_def)
  note cl = contig_length [OF ct]
  have fc: "findConflict ?es l = Some (if ?k < length ?es then of_nat (Suc (unat ?p) + ?k) else 0)"
    by (rule findConflict_eq [OF sh ct])
  show ?thesis
  proof (cases "?k < length ?es")
    case False
    then have "?k = length ?es" using matched_le [of l ?es] by simp
    with False fc prev show ?thesis
      by (simp add: maybeAppend_def matchTerm_eq [OF sh] Let_def)
  next
    case True
    define ci :: uint64 where "ci = of_nat (Suc (unat ?p) + ?k)"
    have u: "unat ci = Suc (unat ?p) + ?k" using True cl unfolding ci_def by (intro unat_of_nat64) simp
    have ci: "findConflict ?es l = Some ci" using True fc by (simp add: ci_def)
    have "ci - (?p + 1) = of_nat ?k" by (simp add: ci_def)
    then have d: "unat (ci - (?p + 1)) = ?k" using True cl by (simp add: unat_of_nat64)
    have "ci \<noteq> 0" using u by auto
    moreover have "ci \<le> lCommitted l \<longleftrightarrow> Suc (unat ?p + ?k) \<le> unat (lCommitted l)"
      by (simp add: word_le_nat_alt u)
    moreover have "\<not> ci - (?p + 1) > len64 ?es"
      unfolding word_less_nat_alt d len64_def using True cl by (subst unat_of_nat64) auto
    ultimately show ?thesis
      using True ci prev d
      by (cases "log_append (drop ?k ?es) l") (auto simp: maybeAppend_def matchTerm_eq [OF sh] Let_def go_from_def)
  qed
qed

lemma maybeAppend_view:
  assumes ok: "log_ok l" and ap: "appendable a l"
    and prev: "termAt l (unat (idIndex (lsPrev a))) = Some (idTerm (lsPrev a))"
    and safe: "matched l (lsEntries a) < length (lsEntries a) \<Longrightarrow>
      unat (lCommitted l) \<le> unat (idIndex (lsPrev a)) + matched l (lsEntries a)"
  obtains l' where "maybeAppend a c l = Some (Some (logSlice_lastIndex a), l')" and "log_ok l'"
    and "logBase l' = logBase l" and "logBaseTerm l' = logBaseTerm l"
    and "logEnts l' = (if matched l (lsEntries a) = length (lsEntries a) then logEnts l
      else take (unat (idIndex (lsPrev a)) + matched l (lsEntries a) - logBase l) (logEnts l) @
        drop (matched l (lsEntries a)) (lsEntries a))"
    and "lCommitted l' = max (lCommitted l) (min c (logSlice_lastIndex a))"
    and "lApplied l' = lApplied l" and "lApplying l' = lApplying l" and "lStorage l' = lStorage l"
proof -
  let ?p = "unat (idIndex (lsPrev a))" and ?es = "lsEntries a"
  let ?k = "matched l ?es" and ?li = "logSlice_lastIndex a"
  have sh: "log_shape l" using ok by (simp add: log_ok_def)
  have ct: "contig (Suc ?p) ?es" and room: "length (logEnts l) + length ?es < 2 ^ 63"
    using ap by (simp_all add: appendable_def)
  have pb: "logBase l \<le> ?p" "?p \<le> logLast l" using termAt_bounds [OF prev] by simp_all
  have li: "unat ?li = ?p + length ?es"
    unfolding logSlice_lastIndex_def len64_def using contig_length [OF ct] by (intro unat_add_of_nat) simp
  have kl: "?p + ?k \<le> logLast l"
  proof (cases ?k)
    case (Suc j)
    then have "j < ?k" by simp
    from matched_nth [OF this] contig_nth [OF ct, of j] Suc matched_le [of l ?es]
    show ?thesis by (auto dest: termAt_bounds)
  qed (use pb in simp)
  obtain l1 where l1: "(if ?k = length ?es then Some l
       else if Suc (?p + ?k) \<le> unat (lCommitted l) then None
       else map_option snd (log_append (drop ?k ?es) l)) = Some l1"
    and ok1: "log_ok l1" and base1: "logBase l1 = logBase l" "logBaseTerm l1 = logBaseTerm l"
    and ents1: "logEnts l1 = (if ?k = length ?es then logEnts l
      else take (?p + ?k - logBase l) (logEnts l) @ drop ?k ?es)"
    and pos1: "lCommitted l1 = lCommitted l" "lApplied l1 = lApplied l" "lApplying l1 = lApplying l"
      "lStorage l1 = lStorage l"
  proof (cases "?k = length ?es")
    case True
    with ok that [of l] show ?thesis by simp
  next
    case False
    then have k: "?k < length ?es" using matched_le [of l ?es] by simp
    with safe have s: "unat (lCommitted l) \<le> ?p + ?k" by simp
    have c: "contig (Suc ?p + ?k) (drop ?k ?es)" using contig_drop [OF _ ct] k by simp
    have "length (logEnts l) + length (drop ?k ?es) < 2 ^ 63" using room by simp
    moreover have "drop ?k ?es \<noteq> []" "unat (lCommitted l) < Suc ?p + ?k" "Suc ?p + ?k \<le> Suc (logLast l)"
      using k s kl by simp_all
    ultimately obtain l' where
      "log_append (drop ?k ?es) l = Some (of_nat (Suc ?p + ?k + length (drop ?k ?es) - 1), l')" "log_ok l'"
      "logBase l' = logBase l" "logBaseTerm l' = logBaseTerm l"
      "logEnts l' = take (Suc ?p + ?k - Suc (logBase l)) (logEnts l) @ drop ?k ?es"
      "lCommitted l' = lCommitted l" "lApplied l' = lApplied l" "lApplying l' = lApplying l"
      "lStorage l' = lStorage l" using log_append_view [OF ok c] by metis
    with False s that [of l'] show ?thesis by simp
  qed
  have sh1: "log_shape l1" using ok1 by (simp add: log_ok_def)
  have last1: "?p + length ?es \<le> logLast l1"
    using ents1 base1 kl pb by (auto simp: min_def)
  define l' where "l' = l1\<lparr>lCommitted := max (lCommitted l1) (min c ?li)\<rparr>"
  have "\<not> logLast l1 < unat (min c ?li)"
    using last1 li by (auto simp: min_def word_le_nat_alt)
  then have run: "maybeAppend a c l = Some (Some ?li, l')"
    unfolding maybeAppend_prefix [OF ok ap prev] l1 using commitTo_eq [OF sh1]
    by (simp add: l'_def logSlice_lastIndex_def)
  have "unat (max (lCommitted l1) (min c ?li)) \<le> logLast l1"
    using ok1 last1 li by (auto simp: log_ok_def max_def min_def word_le_nat_alt)
  then have "log_ok l'"
    using ok1 by (auto simp: log_ok_def l'_def max_def word_le_nat_alt)
  with that [OF run] base1 ents1 pos1 show ?thesis by (simp add: l'_def)
qed

lemma maybeAppend_conflict:
  assumes "log_ok l" and "appendable a l"
    and "termAt l (unat (idIndex (lsPrev a))) = Some (idTerm (lsPrev a))"
    and "matched l (lsEntries a) < length (lsEntries a)"
    and "unat (idIndex (lsPrev a)) + matched l (lsEntries a) < unat (lCommitted l)"
  shows "maybeAppend a c l = None"
  using maybeAppend_prefix [OF assms(1-3)] assms(4,5) by simp


section \<open>What every operation keeps\<close>

text \<open>
  The order in which a log may evolve: base, commit and applied positions only grow, and what
  was committed and is still in the log has the same entry and term.
\<close>

definition log_kept :: "raftLog \<Rightarrow> raftLog \<Rightarrow> bool" where
  "log_kept l l' \<longleftrightarrow> logBase l \<le> logBase l' \<and> lCommitted l \<le> lCommitted l' \<and> lApplied l \<le> lApplied l' \<and>
     (\<forall>n. logBase l' \<le> n \<and> n \<le> unat (lCommitted l) \<longrightarrow> termAt l' n = termAt l n) \<and>
     (\<forall>n. logBase l' < n \<and> n \<le> unat (lCommitted l) \<longrightarrow> entryAt l' n = entryAt l n)"

lemma log_kept_refl: "log_kept l l"
  by (simp add: log_kept_def)

lemma log_kept_trans:
  assumes "log_kept l1 l2" and "log_kept l2 l3"
  shows "log_kept l1 l3"
proof -
  have c: "unat (lCommitted l1) \<le> unat (lCommitted l2)"
    using assms(1) by (simp add: log_kept_def word_le_nat_alt)
  have b: "logBase l1 \<le> logBase l2" "logBase l2 \<le> logBase l3" using assms by (simp_all add: log_kept_def)
  have t: "termAt l3 n = termAt l1 n" if "logBase l3 \<le> n" "n \<le> unat (lCommitted l1)" for n
    using assms that c b by (simp add: log_kept_def)
  have e: "entryAt l3 n = entryAt l1 n" if "logBase l3 < n" "n \<le> unat (lCommitted l1)" for n
    using assms that c b by (simp add: log_kept_def)
  from assms t e show ?thesis
    unfolding log_kept_def [of l1 l3] by (auto simp: log_kept_def)
qed

lemma log_keptI:
  assumes "logBase l' = logBase l" and "logBaseTerm l' = logBaseTerm l"
    and tk: "take (unat (lCommitted l) - logBase l) (logEnts l') = take (unat (lCommitted l) - logBase l) (logEnts l)"
    and "unat (lCommitted l) \<le> logLast l" and "lCommitted l \<le> lCommitted l'" and "lApplied l \<le> lApplied l'"
  shows "log_kept l l'"
proof -
  let ?c = "unat (lCommitted l)" and ?b = "logBase l"
  have len: "?c - ?b \<le> length (logEnts l')" if "?b \<le> ?c"
    using arg_cong [OF tk, of length] assms(4) that by simp
  have nth: "logEnts l' ! (n - Suc ?b) = logEnts l ! (n - Suc ?b)" if "?b < n" "n \<le> ?c" for n
    using arg_cong [OF tk, of "\<lambda>xs. xs ! (n - Suc ?b)"] that by simp
  have "entryAt l' n = entryAt l n" if "?b < n" "n \<le> ?c" for n
    using that nth [OF that] len assms(1,4) by (simp add: entryAt_def)
  moreover have "termAt l' n = termAt l n" if "?b \<le> n" "n \<le> ?c" for n
    using that nth len assms(1,2,4) by (cases "n = ?b") (simp_all add: termAt_def)
  ultimately show ?thesis using assms(1,5,6) by (simp add: log_kept_def)
qed

lemma log_kept_view:
  "log_ok l \<Longrightarrow> logBase l' = logBase l \<Longrightarrow> logBaseTerm l' = logBaseTerm l \<Longrightarrow> logEnts l' = logEnts l \<Longrightarrow>
     lCommitted l \<le> lCommitted l' \<Longrightarrow> lApplied l \<le> lApplied l' \<Longrightarrow> log_kept l l'"
  by (rule log_keptI) (simp_all add: log_ok_def)

lemma take_replaced: "k \<le> m \<Longrightarrow> k \<le> length xs \<Longrightarrow> take k (take m xs @ ys) = take k xs"
  by (simp add: min_def)

lemma append_kept:
  assumes "log_ok l" and "logBase l' = logBase l" and "logBaseTerm l' = logBaseTerm l"
    and "logEnts l' = take (i - Suc (logBase l)) (logEnts l) @ es"
    and "unat (lCommitted l) < i" and "i \<le> Suc (logLast l)"
    and "lCommitted l \<le> lCommitted l'" and "lApplied l \<le> lApplied l'"
  shows "log_kept l l'"
proof (rule log_keptI [OF assms(2,3) _ _ assms(7,8)])
  have "logBase l \<le> unat (lCommitted l)" using assms(1) by (simp add: log_ok_def)
  with assms(5,6)
  show "take (unat (lCommitted l) - logBase l) (logEnts l') = take (unat (lCommitted l) - logBase l) (logEnts l)"
    unfolding assms(4) by (intro take_replaced) simp_all
qed (use assms(1) in \<open>simp add: log_ok_def\<close>)

lemma log_append_step:
  assumes ok: "log_ok l" and c: "contig (Suc p) es" and ne: "es \<noteq> []"
    and room: "length (logEnts l) + length es < 2 ^ 63" and run: "log_append es l = Some (li, l')"
  shows "log_ok l' \<and> log_kept l l'"
proof -
  have sh: "log_shape l" using ok by (simp add: log_ok_def)
  have lo: "unat (lCommitted l) < Suc p"
  proof (rule ccontr)
    assume "\<not> unat (lCommitted l) < Suc p"
    then have "log_append es l = None" using log_append_conflict [OF c ne, of l] by simp
    with run show False by simp
  qed
  have hi: "Suc p \<le> Suc (logLast l)"
  proof (rule ccontr)
    assume "\<not> Suc p \<le> Suc (logLast l)"
    then have "truncateAndAppend es (lUnstable l) = None"
      using truncateAndAppend_gap [OF _ c ne, of "lUnstable l"] sh logLast_uEnd [OF sh]
      by (simp add: log_shape_def)
    with run ne show False by (auto simp: log_append_def Let_def split: if_splits)
  qed
  from log_append_view [OF ok c ne lo hi room] run obtain l'' where l'': "l'' = l'" "log_ok l''"
    "logBase l'' = logBase l" "logBaseTerm l'' = logBaseTerm l"
    "logEnts l'' = take (Suc p - Suc (logBase l)) (logEnts l) @ es"
    "lCommitted l'' = lCommitted l" "lApplied l'' = lApplied l" by (metis option.inject prod.inject)
  have "log_kept l l''"
    by (rule append_kept [OF ok l''(3,4,5) lo hi]) (simp_all add: l''(6,7))
  with l'' show ?thesis by simp
qed

lemma maybeAppend_step:
  assumes ok: "log_ok l" and ap: "appendable a l" and run: "maybeAppend a c l = Some (r, l')"
  shows "log_ok l' \<and> log_kept l l'"
proof (cases "termAt l (unat (idIndex (lsPrev a))) = Some (idTerm (lsPrev a))")
  case False
  then show ?thesis
    using maybeAppend_mismatch [OF log_okD [OF ok]] run ok log_kept_refl by auto
next
  case True
  let ?p = "unat (idIndex (lsPrev a))" and ?k = "matched l (lsEntries a)"
  have safe: "unat (lCommitted l) \<le> ?p + ?k" if "?k < length (lsEntries a)"
    using maybeAppend_conflict [OF ok ap True that] run by (metis not_le option.distinct(1))
  from maybeAppend_view [OF ok ap True safe, of c] run obtain l'' where l'': "l'' = l'" "log_ok l''"
    "logBase l'' = logBase l" "logBaseTerm l'' = logBaseTerm l"
    "logEnts l'' = (if ?k = length (lsEntries a) then logEnts l
      else take (?p + ?k - logBase l) (logEnts l) @ drop ?k (lsEntries a))"
    "lCommitted l'' = max (lCommitted l) (min c (logSlice_lastIndex a))" "lApplied l'' = lApplied l"
    by (metis option.inject prod.inject)
  have "log_kept l l''"
  proof (rule log_keptI [OF l''(3,4)])
    have "logBase l \<le> ?p" using termAt_bounds [OF True] by simp
    show "take (unat (lCommitted l) - logBase l) (logEnts l'') = take (unat (lCommitted l) - logBase l) (logEnts l)"
    proof (cases "?k = length (lsEntries a)")
      case False
      then have "unat (lCommitted l) \<le> ?p + ?k" using safe matched_le [of l "lsEntries a"] by simp
      moreover have "unat (lCommitted l) \<le> logLast l" using ok by (simp add: log_ok_def)
      ultimately show ?thesis
        unfolding l''(5) using False by (simp only: if_False) (intro take_replaced; simp)
    qed (use l''(5) in simp)
  qed (use ok l''(6,7) in \<open>auto simp: log_ok_def\<close>)
  with l'' show ?thesis by simp
qed

lemma commitTo_step:
  assumes "log_ok l" and "commitTo c l = Some l'"
  shows "log_ok l' \<and> log_kept l l'"
proof -
  have l': "l' = l\<lparr>lCommitted := max (lCommitted l) c\<rparr>" and c: "\<not> (lCommitted l < c \<and> logLast l < unat c)"
    using assms commitTo_eq [OF log_okD [OF assms(1)], of c] by (simp_all split: if_splits)
  then have "log_ok l'"
    using assms(1) by (auto simp: log_ok_def max_def word_le_nat_alt word_less_nat_alt)
  moreover have "log_kept l l'"
    by (rule log_kept_view [OF assms(1)]) (simp_all add: l')
  ultimately show ?thesis ..
qed

lemma maybeCommit_step:
  assumes "log_ok l" and "maybeCommit at l = Some (b, l')"
  shows "log_ok l' \<and> log_kept l l'"
  using assms commitTo_step [OF assms(1)] log_kept_refl
  by (auto simp: maybeCommit_def bind_Some_conv split: if_splits)


lemma view_positions [simp]:
  "logBase (l\<lparr>lApplying := x\<rparr>) = logBase l" "logBase (l\<lparr>lApplied := x\<rparr>) = logBase l"
  "logBase (l\<lparr>lApplyingEntsSize := x\<rparr>) = logBase l" "logBase (l\<lparr>lApplyingEntsPaused := b\<rparr>) = logBase l"
  "logBaseTerm (l\<lparr>lApplying := x\<rparr>) = logBaseTerm l" "logBaseTerm (l\<lparr>lApplied := x\<rparr>) = logBaseTerm l"
  "logBaseTerm (l\<lparr>lApplyingEntsSize := x\<rparr>) = logBaseTerm l"
  "logBaseTerm (l\<lparr>lApplyingEntsPaused := b\<rparr>) = logBaseTerm l"
  "logEnts (l\<lparr>lApplying := x\<rparr>) = logEnts l" "logEnts (l\<lparr>lApplied := x\<rparr>) = logEnts l"
  "logEnts (l\<lparr>lApplyingEntsSize := x\<rparr>) = logEnts l" "logEnts (l\<lparr>lApplyingEntsPaused := b\<rparr>) = logEnts l"
  "log_shape (l\<lparr>lApplying := x\<rparr>) = log_shape l" "log_shape (l\<lparr>lApplied := x\<rparr>) = log_shape l"
  "log_shape (l\<lparr>lApplyingEntsSize := x\<rparr>) = log_shape l" "log_shape (l\<lparr>lApplyingEntsPaused := b\<rparr>) = log_shape l"
  by (simp_all add: logBase_def logBaseTerm_def logEnts_def stableEnts_def log_shape_def cong: option.case_cong)

lemma log_appliedTo_step:
  assumes "log_ok l" and "log_appliedTo i siz l = Some l'"
  shows "log_ok l' \<and> log_kept l l'"
proof -
  have i: "\<not> lCommitted l < i" "\<not> i < lApplied l"
    using assms(2) by (auto simp: log_appliedTo_def split: if_splits)
  have l': "logBase l' = logBase l" "logBaseTerm l' = logBaseTerm l" "logEnts l' = logEnts l"
    "log_shape l' = log_shape l" "lCommitted l' = lCommitted l" "lApplied l' = i"
    "lApplying l' = max (lApplying l) i"
    using assms(2) i by (auto simp: log_appliedTo_def Let_def split: if_splits)
  have "log_ok l'"
    using assms(1) i by (auto simp: log_ok_def l')
  moreover have "log_kept l l'"
    by (rule log_kept_view [OF assms(1)]) (use i in \<open>simp_all add: l'\<close>)
  ultimately show ?thesis ..
qed

lemma acceptApplying_step:
  assumes "log_ok l" and "lApplied l \<le> i" and "acceptApplying i siz b l = Some l'"
  shows "log_ok l' \<and> log_kept l l'"
proof -
  have i: "\<not> lCommitted l < i" using assms(3) by (auto simp: acceptApplying_def split: if_splits)
  have l': "logBase l' = logBase l" "logBaseTerm l' = logBaseTerm l" "logEnts l' = logEnts l"
    "log_shape l' = log_shape l" "lCommitted l' = lCommitted l" "lApplied l' = lApplied l" "lApplying l' = i"
    using assms(3) i by (auto simp: acceptApplying_def Let_def)
  have "log_ok l'"
    using assms(1,2) i by (auto simp: log_ok_def l')
  moreover have "log_kept l l'"
    by (rule log_kept_view [OF assms(1)]) (simp_all add: l')
  ultimately show ?thesis ..
qed

lemma acceptUnstable_step:
  assumes "log_ok l"
  shows "log_ok (acceptUnstable l) \<and> log_kept l (acceptUnstable l)"
proof -
  have u: "unstable_ok (lUnstable l)" using assms by (simp add: log_ok_def log_shape_def)
  define u' where "u' = acceptInProgress (lUnstable l)"
  have eq: "uSnapshot u' = uSnapshot (lUnstable l)" "uEntries u' = uEntries (lUnstable l)"
    "uOffset u' = uOffset (lUnstable l)" and ok': "unstable_ok u'"
    using acceptInProgress_eq [OF u] acceptInProgress_ok [OF u] by (simp_all add: u'_def)
  have l': "logBase (l\<lparr>lUnstable := u'\<rparr>) = logBase l" "logBaseTerm (l\<lparr>lUnstable := u'\<rparr>) = logBaseTerm l"
    "logEnts (l\<lparr>lUnstable := u'\<rparr>) = logEnts l" "log_shape (l\<lparr>lUnstable := u'\<rparr>) = log_shape l"
    using u ok' by (simp_all add: logBase_def logBaseTerm_def logEnts_def stableEnts_def log_shape_def eq
        cong: option.case_cong)
  have "log_ok (l\<lparr>lUnstable := u'\<rparr>)" using assms by (simp add: log_ok_def l')
  moreover have "log_kept l (l\<lparr>lUnstable := u'\<rparr>)"
    by (rule log_kept_view [OF assms]) (simp_all add: l')
  ultimately show ?thesis by (simp add: acceptUnstable_def u'_def)
qed

lemma log_restore_step:
  assumes "log_ok l" and "lCommitted l < snapIndex (Some s)" and "snapIndex (Some s) \<noteq> MaxUint64"
  shows "log_ok (log_restore s l) \<and> log_kept l (log_restore s l)"
proof -
  let ?l = "log_restore s l"
  have v: "logBase ?l = unat (snapIndex (Some s))" "logEnts ?l = []" "lCommitted ?l = snapIndex (Some s)"
    "lApplied ?l = lApplied l" "lApplying ?l = lApplying l"
    by (simp_all add: log_restore_def unstable_restore_def logBase_def logEnts_def stableEnts_def)
  have ms: "ms_ok (lStorage l)" using assms(1) by (simp add: log_ok_def log_shape_def)
  have "log_shape ?l"
    using ms unstable_restore_ok [OF assms(3)] unat_Suc64 [OF assms(3)]
    by (simp add: log_shape_def log_restore_def) (simp add: unstable_restore_def)
  then have "log_ok ?l" using assms(1,2) by (auto simp: log_ok_def v)
  moreover have "logBase l \<le> logBase ?l" "unat (lCommitted l) < logBase ?l"
    using assms(1,2) by (auto simp: v log_ok_def word_less_nat_alt)
  then have "log_kept l ?l" using assms(2) by (auto simp: log_kept_def v(3,4))
  ultimately show ?thesis ..
qed

section \<open>Stable writes\<close>

text \<open>
  Storage holds the log up to position \<open>n\<close>, and nothing beyond when that is the whole log: what
  the application attests when it reports entries as written.
\<close>

definition persisted :: "raftLog \<Rightarrow> nat \<Rightarrow> bool" where
  "persisted l n \<longleftrightarrow> msBase (lStorage l) = logBase l \<and> msBaseTerm (lStorage l) = logBaseTerm l \<and>
     n \<le> msBase (lStorage l) + length (msLog (lStorage l)) \<and>
     take (n - logBase l) (msLog (lStorage l)) = take (n - logBase l) (logEnts l) \<and>
     (n = logLast l \<longrightarrow> msBase (lStorage l) + length (msLog (lStorage l)) = n)"

text \<open>The tail after its entries up to \<open>n\<close> and the snapshot are known to be stable.\<close>

lemma stable_view:
  assumes ok: "log_ok l" and p: "persisted l n" and n: "logBase l \<le> n" "n \<le> logLast l"
    and u': "unstable_ok u'" "uSnapshot u' = None" "unat (uOffset u') = Suc n"
    and e: "uEntries u' = drop (n - logBase l) (logEnts l)"
  shows "log_ok (l\<lparr>lUnstable := u'\<rparr>) \<and> log_kept l (l\<lparr>lUnstable := u'\<rparr>)"
proof -
  let ?l = "l\<lparr>lUnstable := u'\<rparr>"
  have v: "logBase ?l = logBase l" "logBaseTerm ?l = logBaseTerm l"
    using p u'(2) by (simp_all add: logBase_def [of ?l] logBaseTerm_def [of ?l] persisted_def)
  have "stableEnts ?l = take (n - logBase l) (logEnts l)"
    using p u' by (simp add: stableEnts_def persisted_def)
  then have ents: "logEnts ?l = logEnts l" using e by (simp add: logEnts_def [of ?l])
  have "uEntries u' = [] \<longleftrightarrow> n = logLast l" using e n by auto
  then have "log_shape ?l"
    using ok p u' n by (auto simp: log_shape_def log_ok_def persisted_def)
  then have "log_ok ?l" using ok v ents by (simp add: log_ok_def)
  moreover have "log_kept l ?l" by (rule log_kept_view [OF ok v ents]) simp_all
  ultimately show ?thesis ..
qed

lemma stableTo_drop:
  assumes ok: "log_ok l" and h: "holds_entry (lUnstable l) x"
    and run: "unstable_stableTo x (lUnstable l) = Some u'"
  shows "unat (uOffset u') = Suc (unat (idIndex x))" "logBase l \<le> unat (idIndex x)" "unat (idIndex x) \<le> logLast l"
    "uEntries u' = drop (unat (idIndex x) - logBase l) (logEnts l)" "uSnapshot u' = uSnapshot (lUnstable l)"
    "unstable_ok u'"
proof -
  have sh: "log_shape l" and u: "unstable_ok (lUnstable l)" using ok by (simp_all add: log_ok_def log_shape_def)
  note off = shape_parts(1) [OF sh] and ends = logLast_uEnd [OF sh]
  have b: "unat (uOffset (lUnstable l)) \<le> unat (idIndex x)" "unat (idIndex x) \<le> logLast l"
    using h ends by (simp_all add: holds_entry_def word_le_nat_alt)
  have u'_eq: "u' = lUnstable l\<lparr>uEntries := drop (Suc (unat (idIndex x) - unat (uOffset (lUnstable l)))) (uEntries (lUnstable l)),
     uOffset := idIndex x + 1, uOffsetInProgress := max (uOffsetInProgress (lUnstable l)) (idIndex x + 1)\<rparr>"
    using run h unstable_stableTo_eq [OF u, of x] by simp
  show "unat (uOffset u') = Suc (unat (idIndex x))"
    using u'_eq b(2) logLast_lt [OF sh] unat_add_of_nat [of "idIndex x" 1] by simp
  show "logBase l \<le> unat (idIndex x)" "unat (idIndex x) \<le> logLast l" using b off by simp_all
  show "uEntries u' = drop (unat (idIndex x) - logBase l) (logEnts l)"
    using u'_eq b off by (simp add: logEnts_def Suc_diff_Suc Suc_le_eq)
  show "uSnapshot u' = uSnapshot (lUnstable l)" using u'_eq by simp
  show "unstable_ok u'" by (rule unstable_stableTo_ok [OF u run])
qed

lemma log_stableTo_step:
  assumes ok: "log_ok l" and none: "uSnapshot (lUnstable l) = None"
    and p: "holds_entry (lUnstable l) x \<Longrightarrow> persisted l (unat (idIndex x))" and run: "log_stableTo x l = Some l'"
  shows "log_ok l' \<and> log_kept l l'"
proof -
  have u: "unstable_ok (lUnstable l)" using ok by (simp add: log_ok_def log_shape_def)
  obtain u' where u': "unstable_stableTo x (lUnstable l) = Some u'" "l' = l\<lparr>lUnstable := u'\<rparr>"
    using run by (auto simp: log_stableTo_def bind_Some_conv)
  show ?thesis
  proof (cases "holds_entry (lUnstable l) x")
    case True
    note d = stableTo_drop [OF ok True u'(1)]
    show ?thesis
      unfolding u'(2) by (rule stable_view [OF ok p [OF True] d(2,3,6) _ d(1,4)]) (use d(5) none in simp)
  next
    case False
    then have "l' = l" using u' unstable_stableTo_eq [OF u, of x] by simp
    then show ?thesis using ok log_kept_refl by simp
  qed
qed

text \<open>The snapshot has been written, alone or together with entries after it.\<close>

lemma log_stableSnapTo_step:
  assumes ok: "log_ok l" and s: "uSnapshot (lUnstable l) = Some s" and p: "persisted l (logBase l)"
  shows "log_ok (log_stableSnapTo (snapIndex (Some s)) l) \<and> log_kept l (log_stableSnapTo (snapIndex (Some s)) l)"
proof -
  have u: "unstable_ok (lUnstable l)" using ok by (simp add: log_ok_def log_shape_def)
  let ?u = "unstable_stableSnapTo (snapIndex (Some s)) (lUnstable l)"
  have e: "uSnapshot ?u = None" "uEntries ?u = drop (logBase l - logBase l) (logEnts l)"
    "unat (uOffset ?u) = Suc (logBase l)"
    using s ok by (simp_all add: unstable_stableSnapTo_def logEnts_def stableEnts_def log_ok_def log_shape_def logBase_def)
  show ?thesis
    unfolding log_stableSnapTo_def
    by (rule stable_view [OF ok p _ _ unstable_stableSnapTo_ok [OF u] e(1,3,2)]) simp_all
qed

lemma log_stable_both_step:
  assumes ok: "log_ok l" and s: "uSnapshot (lUnstable l) = Some s" and h: "holds_entry (lUnstable l) x"
    and p: "persisted l (unat (idIndex x))" and run: "log_stableTo x l = Some l1"
  shows "log_ok (log_stableSnapTo (snapIndex (Some s)) l1) \<and> log_kept l (log_stableSnapTo (snapIndex (Some s)) l1)"
proof -
  obtain u' where u': "unstable_stableTo x (lUnstable l) = Some u'" "l1 = l\<lparr>lUnstable := u'\<rparr>"
    using run by (auto simp: log_stableTo_def bind_Some_conv)
  note d = stableTo_drop [OF ok h u'(1)]
  let ?u = "unstable_stableSnapTo (snapIndex (Some s)) u'"
  have e: "uSnapshot ?u = None" "uEntries ?u = uEntries u'" "uOffset ?u = uOffset u'"
    using s d(5) by (simp_all add: unstable_stableSnapTo_def)
  have "log_stableSnapTo (snapIndex (Some s)) l1 = l\<lparr>lUnstable := ?u\<rparr>"
    by (simp add: log_stableSnapTo_def u'(2))
  then show ?thesis
    using stable_view [OF ok p d(2,3) unstable_stableSnapTo_ok [OF d(6)] e(1)] d(1,4) e(2,3) by simp
qed

end
