(* ===== verification/LogSafety.thy ===== *)
theory LogSafety
  imports LogProps
begin

text \<open>
  The raft log and the application that shares its storage as one state machine: the
  operations of src/raftsubject/raft/log.go interleaved with the writes of the application
  (src/raftsubject/raft/storage.go). The invariant \<open>log_ok\<close> holds in every reachable state, and
  no step loses or changes a committed entry.
\<close>

section \<open>The application's writes\<close>

lemma storage_write_step:
  assumes ok: "log_ok l" and ms': "ms_ok ms'"
    and base: "uSnapshot (lUnstable l) = None \<Longrightarrow> msBase ms' = msBase (lStorage l)"
      "uSnapshot (lUnstable l) = None \<Longrightarrow> msBaseTerm ms' = msBaseTerm (lStorage l)"
    and ents: "uSnapshot (lUnstable l) = None \<Longrightarrow> uEntries (lUnstable l) \<noteq> []"
      "uSnapshot (lUnstable l) = None \<Longrightarrow>
        take (unat (uOffset (lUnstable l)) - Suc (msBase (lStorage l))) (msLog ms') = stableEnts l"
  shows "log_ok (l\<lparr>lStorage := ms'\<rparr>) \<and> log_kept l (l\<lparr>lStorage := ms'\<rparr>)"
proof -
  let ?l = "l\<lparr>lStorage := ms'\<rparr>"
  have sh: "log_shape l" using ok by (simp add: log_ok_def)
  note off = shape_parts(1) [OF sh]
  have v: "logBase ?l = logBase l \<and> logBaseTerm ?l = logBaseTerm l \<and> logEnts ?l = logEnts l \<and> log_shape ?l"
  proof (cases "uSnapshot (lUnstable l)")
    case None
    have b: "logBase l = msBase (lStorage l)" using None by (simp add: logBase_def)
    have "unat (uOffset (lUnstable l)) - Suc (msBase ms') \<le> length (msLog ms')"
      using arg_cong [OF ents(2) [OF None], of length] off base(1) [OF None] b by simp
    with None show ?thesis
      using sh ms' base ents
      by (simp add: logBase_def logBaseTerm_def logEnts_def log_shape_def) (simp add: stableEnts_def)
  next
    case (Some s)
    with sh ms' show ?thesis
      by (simp add: logBase_def logBaseTerm_def logEnts_def log_shape_def stableEnts_def)
  qed
  have "log_ok ?l" using ok v by (simp add: log_ok_def)
  moreover have "log_kept l ?l" by (rule log_kept_view [OF ok]) (use v in simp_all)
  ultimately show ?thesis ..
qed

text \<open>The application appends entries at or after the offset of the unstable tail.\<close>

lemma storage_append_step:
  assumes ok: "log_ok l" and c: "contig (Suc p) es" and ne: "es \<noteq> []"
    and room: "Suc (length (msLog (lStorage l)) + length es) < 2 ^ 63"
    and at: "uSnapshot (lUnstable l) = None \<Longrightarrow> unat (uOffset (lUnstable l)) \<le> Suc p \<and> uEntries (lUnstable l) \<noteq> []"
    and run: "MS_Append es (lStorage l) = Some ms'"
  shows "log_ok (l\<lparr>lStorage := ms'\<rparr>) \<and> log_kept l (l\<lparr>lStorage := ms'\<rparr>)"
proof -
  let ?ms = "lStorage l" and ?off = "unat (uOffset (lUnstable l))"
  have ms: "ms_ok ?ms" and sh: "log_shape l" using ok by (simp_all add: log_ok_def log_shape_def)
  have gap: "Suc p \<le> Suc (msBase ?ms + length (msLog ?ms))"
    using MS_Append_gap [OF ms c ne] run by (metis not_le option.distinct(1))
  obtain ms'' where "MS_Append es ?ms = Some ms''" "ms_ok ms''" "msBase ms'' = msBase ?ms"
    "msBaseTerm ms'' = msBaseTerm ?ms" "msLog ms'' = appended (msBase ?ms) (msLog ?ms) (Suc p) es"
    by (rule MS_Append_view [OF ms c ne room gap])
  with run have v: "ms_ok ms'" "msBase ms' = msBase ?ms" "msBaseTerm ms' = msBaseTerm ?ms"
    "msLog ms' = appended (msBase ?ms) (msLog ?ms) (Suc p) es" by simp_all
  show ?thesis
  proof (rule storage_write_step [OF ok v(1) v(2) v(3)])
    assume none: "uSnapshot (lUnstable l) = None"
    show "uEntries (lUnstable l) \<noteq> []" using at [OF none] by simp
    have o: "msBase ?ms < ?off" "?off \<le> Suc p" using sh none at by (simp_all add: log_shape_def)
    then have "msLog ms' = take (p - msBase ?ms) (msLog ?ms) @ es"
      using v(4) ne by (cases es) (auto simp: appended_def)
    moreover have "take (?off - Suc (msBase ?ms)) (take (p - msBase ?ms) (msLog ?ms) @ es) =
        take (?off - Suc (msBase ?ms)) (msLog ?ms)"
      by (rule take_replaced) (use o gap in simp_all)
    ultimately show "take (?off - Suc (msBase ?ms)) (msLog ms') = stableEnts l"
      using none by (simp add: stableEnts_def)
  qed
qed

text \<open>The application compacts up to a position it has applied.\<close>

lemma storage_compact_step:
  assumes ok: "log_ok l"
    and at: "uSnapshot (lUnstable l) = None \<Longrightarrow> i \<le> lApplied l \<and> i < uOffset (lUnstable l)"
    and run: "MS_Compact i (lStorage l) = Some (Inr ms')"
  shows "log_ok (l\<lparr>lStorage := ms'\<rparr>) \<and> log_kept l (l\<lparr>lStorage := ms'\<rparr>)"
proof -
  let ?ms = "lStorage l" and ?l = "l\<lparr>lStorage := ms'\<rparr>" and ?off = "unat (uOffset (lUnstable l))"
  have ms: "ms_ok ?ms" and sh: "log_shape l" using ok by (simp_all add: log_ok_def log_shape_def)
  have i: "msBase ?ms < unat i" "unat i \<le> msBase ?ms + length (msLog ?ms)"
    using run MS_Compact_old [OF ms, of i] MS_Compact_beyond [OF ms, of i] by (simp_all add: not_le [symmetric], auto)
  obtain ms'' where "MS_Compact i ?ms = Some (Inr ms'')" "ms_ok ms''" "msBase ms'' = unat i"
    "msBaseTerm ms'' = Entry_GetTerm (msLog ?ms ! (unat i - Suc (msBase ?ms)))"
    "msLog ms'' = drop (unat i - msBase ?ms) (msLog ?ms)"
    by (rule MS_Compact_view [OF ms i])
  with run have v: "ms_ok ms'" "msBase ms' = unat i"
    "msBaseTerm ms' = Entry_GetTerm (msLog ?ms ! (unat i - Suc (msBase ?ms)))"
    "msLog ms' = drop (unat i - msBase ?ms) (msLog ?ms)" by simp_all
  show ?thesis
  proof (cases "uSnapshot (lUnstable l)")
    case (Some s)
    show ?thesis by (rule storage_write_step [OF ok v(1)]) (use Some in simp_all)
  next
    case None
    have a: "unat i \<le> unat (lCommitted l)" "unat i < ?off"
      using at [OF None] ok by (auto simp: log_ok_def word_le_nat_alt word_less_nat_alt)
    have o: "msBase ?ms < ?off" "?off \<le> Suc (msBase ?ms + length (msLog ?ms))"
      "uEntries (lUnstable l) = [] \<Longrightarrow> ?off = Suc (msBase ?ms + length (msLog ?ms))"
      using sh None by (simp_all add: log_shape_def)
    have b: "logBase l = msBase ?ms" "logBase ?l = unat i" "logBaseTerm ?l = msBaseTerm ms'"
      using None v(2) by (simp_all add: logBase_def logBaseTerm_def)
    have st: "stableEnts ?l = drop (unat i - msBase ?ms) (stableEnts l)"
      using None v(2,4) i by (simp add: stableEnts_def drop_take)
    have len: "unat i - msBase ?ms \<le> length (stableEnts l)" using None o a by (simp add: stableEnts_def)
    then have ents: "logEnts ?l = drop (unat i - logBase l) (logEnts l)"
      using st b(1) by (simp add: logEnts_def)
    have shape: "log_shape ?l"
      using sh None v o a i by (auto simp: log_shape_def)
    have last: "logLast ?l = logLast l" using ents b i len by (simp add: logEnts_def)
    have e: "entryAt ?l n = entryAt l n" if "unat i < n" for n
      using that last b i unfolding entryAt_def ents by simp
    have "msLog ?ms ! (unat i - Suc (msBase ?ms)) = logEnts l ! (unat i - Suc (logBase l))"
      using None i a b(1) o by (simp add: logEnts_def stableEnts_def nth_append diff_less_mono)
    then have "termAt ?l (unat i) = termAt l (unat i)"
      using b v(3) i ok a by (simp add: termAt_def log_ok_def)
    then have t: "termAt ?l n = termAt l n" if "unat i \<le> n" for n
      using that e [of n] b i by (cases "n = unat i") (simp_all add: termAt_entryAt)
    have "log_ok ?l" using ok shape last a b at [OF None] by (auto simp: log_ok_def word_le_nat_alt)
    moreover have "log_kept l ?l"
      using b i t e by (simp add: log_kept_def)
    ultimately show ?thesis ..
  qed
qed


section \<open>The state machine\<close>

text \<open>
  The steps: the raft node's calls into its log, with the conditions it meets (a snapshot is
  restored only beyond the commit position; entries are handed to the application in order),
  and the application's use of the shared storage, with the conditions of its contract (it
  reports as written what storage holds, writes what it was handed, compacts what it applied).
\<close>

inductive log_step :: "raftLog \<Rightarrow> raftLog \<Rightarrow> bool" where
  append: "contig (Suc p) es \<Longrightarrow> es \<noteq> [] \<Longrightarrow> length (logEnts l) + length es < 2 ^ 63 \<Longrightarrow>
    log_append es l = Some (li, l') \<Longrightarrow> log_step l l'"
| maybe_append: "appendable a l \<Longrightarrow> maybeAppend a c l = Some (r, l') \<Longrightarrow> log_step l l'"
| commit_to: "commitTo c l = Some l' \<Longrightarrow> log_step l l'"
| maybe_commit: "maybeCommit at l = Some (b, l') \<Longrightarrow> log_step l l'"
| restore: "lCommitted l < snapIndex (Some s) \<Longrightarrow> snapIndex (Some s) \<noteq> MaxUint64 \<Longrightarrow>
    log_step l (log_restore s l)"
| applied_to: "log_appliedTo i siz l = Some l' \<Longrightarrow> log_step l l'"
| accept_applying: "lApplied l \<le> i \<Longrightarrow> acceptApplying i siz b l = Some l' \<Longrightarrow> log_step l l'"
| accept_unstable: "log_step l (acceptUnstable l)"
| stable_to: "uSnapshot (lUnstable l) = None \<Longrightarrow> holds_entry (lUnstable l) x \<longrightarrow> persisted l (unat (idIndex x)) \<Longrightarrow>
    log_stableTo x l = Some l' \<Longrightarrow> log_step l l'"
| stable_snap: "uSnapshot (lUnstable l) = Some s \<Longrightarrow> persisted l (logBase l) \<Longrightarrow>
    log_step l (log_stableSnapTo (snapIndex (Some s)) l)"
| stable_both: "uSnapshot (lUnstable l) = Some s \<Longrightarrow> holds_entry (lUnstable l) x \<Longrightarrow>
    persisted l (unat (idIndex x)) \<Longrightarrow> log_stableTo x l = Some l1 \<Longrightarrow>
    log_step l (log_stableSnapTo (snapIndex (Some s)) l1)"
| read_snapshot: "log_step l (snd (log_snapshot l))"
| app_append: "contig (Suc p) es \<Longrightarrow> es \<noteq> [] \<Longrightarrow> Suc (length (msLog (lStorage l)) + length es) < 2 ^ 63 \<Longrightarrow>
    uSnapshot (lUnstable l) = None \<longrightarrow> unat (uOffset (lUnstable l)) \<le> Suc p \<and> uEntries (lUnstable l) \<noteq> [] \<Longrightarrow>
    MS_Append es (lStorage l) = Some ms' \<Longrightarrow> log_step l (l\<lparr>lStorage := ms'\<rparr>)"
| app_apply_snapshot: "uSnapshot (lUnstable l) = Some s \<Longrightarrow> MS_ApplySnapshot (Some s) (lStorage l) = Inr ms' \<Longrightarrow>
    log_step l (l\<lparr>lStorage := ms'\<rparr>)"
| app_compact: "uSnapshot (lUnstable l) = None \<longrightarrow> i \<le> lApplied l \<and> i < uOffset (lUnstable l) \<Longrightarrow>
    MS_Compact i (lStorage l) = Some (Inr ms') \<Longrightarrow> log_step l (l\<lparr>lStorage := ms'\<rparr>)"
| app_create_snapshot: "MS_CreateSnapshot i cs data (lStorage l) = Some (Inr (snap, ms')) \<Longrightarrow>
    log_step l (l\<lparr>lStorage := ms'\<rparr>)"
| app_hard_state: "log_step l (l\<lparr>lStorage := MS_SetHardState st (lStorage l)\<rparr>)"

lemma storage_meta_step:
  assumes ok: "log_ok l" and e: "msEnts ms' = msEnts (lStorage l)"
  shows "log_ok (l\<lparr>lStorage := ms'\<rparr>) \<and> log_kept l (l\<lparr>lStorage := ms'\<rparr>)"
proof -
  let ?l = "l\<lparr>lStorage := ms'\<rparr>"
  have v: "msBase ms' = msBase (lStorage l)" "msBaseTerm ms' = msBaseTerm (lStorage l)"
    "msLog ms' = msLog (lStorage l)" "ms_ok ms' = ms_ok (lStorage l)"
    using e by (simp_all add: ms_view ms_ok_def)
  have w: "logBase ?l = logBase l" "logBaseTerm ?l = logBaseTerm l" "logEnts ?l = logEnts l" "log_shape ?l = log_shape l"
    by (simp_all add: logBase_def logBaseTerm_def logEnts_def stableEnts_def log_shape_def v cong: option.case_cong)
  have "log_ok ?l" using ok by (simp add: log_ok_def w)
  moreover have "log_kept l ?l" by (rule log_kept_view [OF ok w(1-3)]) simp_all
  ultimately show ?thesis ..
qed

lemma storage_apply_snapshot_step:
  assumes ok: "log_ok l" and s: "uSnapshot (lUnstable l) = Some s"
    and run: "MS_ApplySnapshot (Some s) (lStorage l) = Inr ms'"
  shows "log_ok (l\<lparr>lStorage := ms'\<rparr>) \<and> log_kept l (l\<lparr>lStorage := ms'\<rparr>)"
proof -
  have n: "snapIndex (Some s) \<noteq> MaxUint64"
    using ok s by (auto simp: log_ok_def log_shape_def unstable_ok_def dest: not_max64)
  have "ms_ok ms'"
  proof (cases "snapIndex (msSnapshot (lStorage l)) = 0 \<or> snapIndex (msSnapshot (lStorage l)) < snapIndex (Some s)")
    case True
    from MS_ApplySnapshot_view [OF this n] run show ?thesis by (metis sum.inject(2))
  next
    case False
    moreover have "snapIndex (Some (EnsureSnapshot (Some s))) = snapIndex (Some s)"
      by (auto simp: getters EnsureSnapshot_def EnsureSnapshotMetadata_def zero_defs Let_def split: option.splits)
    ultimately have "MS_ApplySnapshot (Some s) (lStorage l) = Inl ErrSnapOutOfDate"
      by (simp add: MS_ApplySnapshot_def Let_def not_less)
    with run show ?thesis by simp
  qed
  then show ?thesis by (rule storage_write_step [OF ok]) (use s in simp_all)
qed

lemma log_step_safe:
  assumes "log_step l l'" and "log_ok l"
  shows "log_ok l' \<and> log_kept l l'"
  using assms
proof cases
  case (append p es li)
  with assms(2) log_append_step show ?thesis by blast
next
  case (maybe_append a c r)
  with assms(2) maybeAppend_step show ?thesis by blast
next
  case (commit_to c)
  with assms(2) commitTo_step show ?thesis by blast
next
  case (maybe_commit at b)
  with assms(2) maybeCommit_step show ?thesis by blast
next
  case (restore s)
  with assms(2) log_restore_step show ?thesis by blast
next
  case (applied_to i siz)
  with assms(2) log_appliedTo_step show ?thesis by blast
next
  case (accept_applying i siz b)
  with assms(2) acceptApplying_step show ?thesis by blast
next
  case accept_unstable
  with assms(2) acceptUnstable_step show ?thesis by blast
next
  case (stable_to x)
  with assms(2) log_stableTo_step show ?thesis by blast
next
  case (stable_snap s)
  with assms(2) log_stableSnapTo_step show ?thesis by blast
next
  case (stable_both s x l1)
  with assms(2) log_stable_both_step show ?thesis by blast
next
  case read_snapshot
  have "snd (log_snapshot l) = l \<or> (\<exists>ms'. snd (log_snapshot l) = l\<lparr>lStorage := ms'\<rparr> \<and> msEnts ms' = msEnts (lStorage l))"
    by (auto simp: log_snapshot_def MS_Snapshot_def Let_def split: option.split)
  with assms(2) storage_meta_step log_kept_refl read_snapshot show ?thesis by metis
next
  case (app_append p es ms')
  show ?thesis
    unfolding app_append(1)
    by (rule storage_append_step [OF assms(2) app_append(2-4) _ app_append(6)]) (use app_append(5) in simp)
next
  case (app_apply_snapshot s ms')
  with assms(2) storage_apply_snapshot_step show ?thesis by blast
next
  case (app_compact i ms')
  show ?thesis
    unfolding app_compact(1)
    by (rule storage_compact_step [OF assms(2) _ app_compact(3)]) (use app_compact(2) in simp)
next
  case (app_create_snapshot i cs data snap ms')
  then have "msEnts ms' = msEnts (lStorage l)"
    by (auto simp: MS_CreateSnapshot_def Let_def bind_Some_conv split: if_splits)
  with app_create_snapshot(1) assms(2) storage_meta_step show ?thesis by blast
next
  case (app_hard_state st)
  with storage_meta_step [OF assms(2), of "MS_SetHardState st (lStorage l)"] show ?thesis
    by (simp add: MS_SetHardState_def)
qed

lemma log_steps_safe: "log_step\<^sup>*\<^sup>* l l' \<Longrightarrow> log_ok l \<Longrightarrow> log_ok l' \<and> log_kept l l'"
proof (induction rule: rtranclp_induct)
  case base
  then show ?case using log_kept_refl by simp
next
  case (step l1 l2)
  then show ?case using log_step_safe log_kept_trans by blast
qed

lemma newLogWithSize_ok:
  assumes "ms_ok ms"
  obtains l where "newLogWithSize ms m = Some l" and "log_ok l" and "logBase l = msBase ms"
    and "logEnts l = msLog ms" and "unat (lCommitted l) = msBase ms" and "lStorage l = ms"
proof -
  have b: "Suc (msBase ms + length (msLog ms)) < 2 ^ 64" by (rule ms_bound [OF assms])
  define off :: uint64 where "off = of_nat (msBase ms + length (msLog ms)) + 1"
  have off: "unat off = Suc (msBase ms + length (msLog ms))"
    using b unat_of_nat64 [of "Suc (msBase ms + length (msLog ms))"] by (simp add: off_def ac_simps)
  have f: "unat (of_nat (Suc (msBase ms)) - 1 :: uint64) = msBase ms"
    using b unat_of_nat64 [of "msBase ms"] by simp
  define l where "l = \<lparr>lStorage = ms, lUnstable = \<lparr>uSnapshot = None, uEntries = [], uOffset = off,
      uSnapshotInProgress = False, uOffsetInProgress = off\<rparr>, lCommitted = of_nat (Suc (msBase ms)) - 1,
      lApplying = of_nat (Suc (msBase ms)) - 1, lApplied = of_nat (Suc (msBase ms)) - 1,
      lMaxApplyingEntsSize = m, lApplyingEntsSize = 0, lApplyingEntsPaused = False\<rparr>"
  have run: "newLogWithSize ms m = Some l"
    by (simp add: newLogWithSize_def ms.first [OF assms] ms.last [OF assms] or_panic_def l_def off_def
        del: of_nat_Suc of_nat_add)
  have v: "logBase l = msBase ms" "logEnts l = msLog ms"
    using off by (simp_all add: l_def logBase_def logEnts_def stableEnts_def)
  have "unstable_ok (lUnstable l)" using off b by (simp add: l_def unstable_ok_def)
  then have "log_shape l" using assms off by (simp add: log_shape_def) (simp add: l_def)
  moreover have c: "lApplied l = lCommitted l" "lApplying l = lCommitted l" "unat (lCommitted l) = msBase ms"
    using f by (simp_all add: l_def)
  ultimately have "log_ok l" using v by (simp add: log_ok_def)
  with that [OF run _ v c(3)] show ?thesis by (simp add: l_def)
qed


section \<open>Searching and scanning\<close>

lemma findConflictByTerm_spec:
  assumes "log_shape l"
  shows "\<exists>i t. findConflictByTerm index tm l = Some (i, t) \<and> i \<le> index \<and>
    (\<forall>j. i < j \<and> j \<le> index \<longrightarrow> (\<exists>u. termAt l (unat j) = Some u \<and> tm < u)) \<and>
    (if i = 0 then t = 0
     else case termAt l (unat i) of None \<Rightarrow> t = 0 | Some u \<Rightarrow> t = u \<and> u \<le> tm)"
proof (induction "unat index" arbitrary: index)
  case 0
  then have "index = 0" by (simp add: unat_eq_0)
  then show ?case by (subst findConflictByTerm.simps) auto
next
  case (Suc n)
  then have pos: "0 < index" by (simp add: word_less_nat_alt)
  show ?case
  proof (cases "termAt l (unat index)")
    case None
    then show ?thesis
      using pos by (subst findConflictByTerm.simps) (auto simp: log_term_eq [OF assms])
  next
    case (Some u)
    show ?thesis
    proof (cases "u \<le> tm")
      case True
      with Some pos show ?thesis
        by (subst findConflictByTerm.simps) (auto simp: log_term_eq [OF assms])
    next
      case False
      have prev: "n = unat (index - 1)" using Suc.hyps(2) pos by (simp add: unat_pred64)
      obtain i t where r: "findConflictByTerm (index - 1) tm l = Some (i, t)" "i \<le> index - 1"
        "\<forall>j. i < j \<and> j \<le> index - 1 \<longrightarrow> (\<exists>u. termAt l (unat j) = Some u \<and> tm < u)"
        "if i = 0 then t = 0 else case termAt l (unat i) of None \<Rightarrow> t = 0 | Some u \<Rightarrow> t = u \<and> u \<le> tm"
        using Suc.hyps(1) [OF prev] by blast
      have "findConflictByTerm index tm l = Some (i, t)"
        using r(1) pos Some False by (subst findConflictByTerm.simps) (simp add: log_term_eq [OF assms])
      moreover have cases_j: "j = index \<or> j \<le> index - 1" if "j \<le> index" for j
        using that prev Suc.hyps(2) by (auto simp: word_le_nat_alt word_unat_eq_iff)
      have "\<exists>u. termAt l (unat j) = Some u \<and> tm < u" if "i < j" "j \<le> index" for j
        using cases_j [OF that(2)] that(1) r(3) Some False by (auto simp: not_le)
      moreover have "i \<le> index" using r(2) prev Suc.hyps(2) by (simp add: word_le_nat_alt)
      ultimately show ?thesis using r(4) by blast
    qed
  qed
qed

lemma logRange_split:
  "logBase l < lo \<Longrightarrow> lo \<le> mid \<Longrightarrow> mid \<le> hi \<Longrightarrow> logRange l lo hi = logRange l lo mid @ logRange l mid hi"
proof -
  assume a: "logBase l < lo" "lo \<le> mid" "mid \<le> hi"
  then have "hi - lo = (mid - lo) + (hi - mid)" and d: "mid - lo + (lo - Suc (logBase l)) = mid - Suc (logBase l)" by simp_all
  then show ?thesis unfolding logRange_def by (simp only: take_add drop_drop d)
qed

lemma length_logRange: "logBase l < lo \<Longrightarrow> hi \<le> Suc (logLast l) \<Longrightarrow> length (logRange l lo hi) = hi - lo"
  by (simp add: logRange_def)

lemma logRange_take:
  "logBase l < lo \<Longrightarrow> hi \<le> Suc (logLast l) \<Longrightarrow> k \<le> hi - lo \<Longrightarrow> take k (logRange l lo hi) = logRange l lo (lo + k)"
  by (simp add: logRange_def min_def)

lemma scan_pages:
  assumes sh: "log_shape l" and t: "total (logEnts l) < 2 ^ 64" and lo: "logBase l < unat lo"
    and lohi: "lo \<le> hi" and hi: "unat hi \<le> Suc (logLast l)"
    and v: "\<And>es s. v es s = (None, f es s)"
  shows "\<exists>pages. scan v lo hi pageSize l s = Some (None, fold f pages s) \<and>
    concat pages = logRange l (unat lo) (unat hi) \<and> [] \<notin> set pages"
  using lo lohi
proof (induction "unat hi - unat lo" arbitrary: lo s rule: less_induct)
  case less
  show ?case
  proof (cases "lo < hi")
    case False
    then have "lo = hi" using less.prems(2) by simp
    then show ?thesis by (subst scan.simps) (auto simp: logRange_def intro!: exI [of _ "[]"])
  next
    case True
    let ?R = "logRange l (unat lo) (unat hi)"
    have len: "length ?R = unat hi - unat lo" using length_logRange less.prems hi by simp
    obtain k where k: "k \<le> length ?R" "limitSize ?R pageSize = take k ?R"
      by (rule limitSize_prefix [of ?R pageSize])
    have "?R \<noteq> []" using len True by (auto simp: word_less_nat_alt)
    then have k1: "1 \<le> k" using k(2) limitSize_empty [of ?R pageSize] by (cases k) auto
    define es where "es = take k ?R"
    have es: "length es = k" "es \<noteq> []" using k k1 \<open>?R \<noteq> []\<close> by (auto simp: es_def)
    have sl: "log_slice lo hi pageSize l = Some (Inr es)"
      using log_slice_eq [OF sh t less.prems hi, of pageSize] k(2) by (simp add: es_def)
    have lk: "unat lo + k \<le> unat hi" using k(1) len True by (simp add: word_less_nat_alt)
    from le_less_trans [OF lk unat_lt64] have nxt: "unat (lo + len64 es) = unat lo + k"
      unfolding len64_def es(1) by (intro unat_add_of_nat) simp
    have le: "lo + len64 es \<le> hi" using nxt k(1) len True by (simp add: word_le_nat_alt word_less_nat_alt)
    have "unat hi - (unat lo + k) < unat hi - unat lo"
      using k1 True by (simp add: word_less_nat_alt)
    then obtain pages where p: "scan v (lo + len64 es) hi pageSize l (f es s) = Some (None, fold f pages (f es s))"
      "concat pages = logRange l (unat lo + k) (unat hi)" "[] \<notin> set pages"
      using less.hyps [of "lo + len64 es" "f es s"] nxt le less.prems(1) by auto
    have "scan v lo hi pageSize l s = Some (None, fold f (es # pages) s)"
      using True sl es p(1) v by (subst scan.simps) simp
    moreover have "concat (es # pages) = ?R"
      using p(2) logRange_split [OF less.prems(1) _ lk] k(1) len
        logRange_take [OF less.prems(1) hi, of k] by (simp add: es_def)
    ultimately show ?thesis using p(3) es(2) by (intro exI [of _ "es # pages"]) simp
  qed
qed

lemma unat_noLimit: "unat noLimit = 2 ^ 64 - 1"
  unfolding noLimit_def by (subst unsigned_minus_1_eq_mask) (simp_all add: mask_eq_exp_minus_1)

lemma allEntries_eq:
  assumes sh: "log_shape l" and t: "total (logEnts l) < 2 ^ 64"
  shows "allEntries l = Some (logEnts l)"
proof -
  let ?fi = "of_nat (Suc (logBase l)) :: uint64" and ?li = "of_nat (logLast l) :: uint64"
  have fi: "unat ?fi = Suc (logBase l)" and li: "unat ?li = logLast l" and l1: "unat (?li + 1) = Suc (logLast l)"
    using logLast_lt [OF sh] unat_of_nat64 [of "Suc (logLast l)"] unat_of_nat64 [of "logLast l"]
      unat_of_nat64 [of "Suc (logBase l)"] by (simp_all add: ac_simps)
  have "log_entries ?fi noLimit l = Some (Inr (logEnts l))"
  proof (cases "logEnts l")
    case Nil
    then have "?li < ?fi" using fi li by (simp add: word_less_nat_alt del: of_nat_Suc of_nat_add)
    with Nil show ?thesis by (simp add: log_entries_def log_lastIndex_eq [OF sh] del: of_nat_Suc of_nat_add)
  next
    case (Cons e es)
    then have le: "\<not> ?li < ?fi" "?fi \<le> ?li + 1"
      using fi li l1 by (simp_all add: word_less_nat_alt word_le_nat_alt del: of_nat_Suc of_nat_add)
    have lim: "limitSize (logEnts l) noLimit = logEnts l"
      using limitSize_take [OF t, of noLimit] t fitting_all [of "logEnts l" "unat noLimit"]
      by (simp add: unat_noLimit)
    have "logRange l (Suc (logBase l)) (Suc (logLast l)) = logEnts l" by (simp add: logRange_def)
    with log_slice_eq [OF sh t, of ?fi "?li + 1" noLimit] le fi l1 lim show ?thesis
      by (simp add: log_entries_def log_lastIndex_eq [OF sh] del: of_nat_Suc of_nat_add)
  qed
  then show ?thesis
    by (subst allEntries.simps) (simp add: log_firstIndex_eq [OF sh] del: of_nat_Suc)
qed


section \<open>Committed entries for the application\<close>

lemma committed_slice:
  assumes "log_ok l" and "total (logEnts l) < 2 ^ 64"
    and "lApplying l + 1 < maxAppliableIndex u l + 1"
  shows "log_slice (lApplying l + 1) (maxAppliableIndex u l + 1) m l =
    Some (if logBase l \<le> unat (lApplying l)
      then Inr (limitSize (logRange l (Suc (unat (lApplying l))) (Suc (unat (maxAppliableIndex u l)))) m)
      else Inl ErrCompacted)"
    and "unat (lApplying l) < unat (maxAppliableIndex u l)"
    and "unat (maxAppliableIndex u l) \<le> unat (lCommitted l)" and "unat (lCommitted l) \<le> logLast l"
proof -
  have sh: "log_shape l" using assms(1) by (rule log_okD)
  let ?a = "lApplying l" and ?hi = "maxAppliableIndex u l"
  have ac: "unat ?a \<le> unat (lCommitted l)" "unat (lCommitted l) \<le> logLast l"
    using assms(1) by (simp_all add: log_ok_def word_le_nat_alt)
  have hc: "unat ?hi \<le> unat (lCommitted l)"
    by (simp add: maxAppliableIndex_def Let_def min_def word_le_nat_alt)
  have a1: "unat (?a + 1) = Suc (unat ?a)" "unat (?hi + 1) = Suc (unat ?hi)"
    using ac hc logLast_lt [OF sh] unat_add_of_nat [of ?a 1] unat_add_of_nat [of ?hi 1] by simp_all
  then have lohi: "unat ?a < unat ?hi" using assms(3) by (simp add: word_less_nat_alt)
  show "log_slice (?a + 1) (?hi + 1) m l = Some (if logBase l \<le> unat ?a
      then Inr (limitSize (logRange l (Suc (unat ?a)) (Suc (unat ?hi))) m) else Inl ErrCompacted)"
    using log_slice_eq [OF sh assms(2), of "?a + 1" "?hi + 1" m] log_slice_compacted [OF sh, of "?a + 1" "?hi + 1" m]
      a1 lohi hc ac by (simp add: word_le_nat_alt)
  show "unat ?a < unat ?hi" "unat ?hi \<le> unat (lCommitted l)" "unat (lCommitted l) \<le> logLast l"
    using lohi hc ac by simp_all
qed

lemma nextCommittedEnts_Some:
  assumes "log_ok l" and "total (logEnts l) < 2 ^ 64" and run: "nextCommittedEnts u l = Some es"
  shows "es \<noteq> [] \<longleftrightarrow> hasNextCommittedEnts u l"
    and "unat (lApplying l) + length es \<le> unat (lCommitted l)"
    and "\<forall>k < length es. entryAt l (Suc (unat (lApplying l) + k)) = Some (es ! k)"
proof -
  let ?a = "lApplying l" and ?hi = "maxAppliableIndex u l"
  have "(es \<noteq> [] \<longleftrightarrow> hasNextCommittedEnts u l) \<and> unat ?a + length es \<le> unat (lCommitted l) \<and>
    (\<forall>k < length es. entryAt l (Suc (unat ?a + k)) = Some (es ! k))"
  proof (cases "hasNextCommittedEnts u l")
    case False
    then have "es = []"
      using run by (auto simp: nextCommittedEnts_def hasNextCommittedEnts_def Let_def split: if_splits)
    with False assms(1) show ?thesis by (simp add: log_ok_def word_le_nat_alt)
  next
    case True
    then have more: "\<not> lApplyingEntsPaused l" "\<not> hasNextOrInProgressSnapshot l" "?a + 1 < ?hi + 1"
      unfolding hasNextCommittedEnts_def by (metis (full_types))+
    note c = committed_slice [OF assms(1,2) more(3)]
    let ?R = "logRange l (Suc (unat ?a)) (Suc (unat ?hi))" and ?m = "lMaxApplyingEntsSize l - lApplyingEntsSize l"
    have b: "logBase l < Suc (unat ?a)" and es: "es = limitSize ?R ?m"
      using run more c(1) [of ?m]
      by (auto simp: nextCommittedEnts_def or_panic_def Let_def not_le elim!: bindE split: if_split_asm)
    have len: "length ?R = unat ?hi - unat ?a" using length_logRange [OF b, of "Suc (unat ?hi)"] c(3,4) by simp
    obtain k where k: "k \<le> length ?R" "limitSize ?R ?m = take k ?R" by (rule limitSize_prefix [of ?R ?m])
    have "?R \<noteq> []" using len c(2) by auto
    moreover from this have "0 < k" using k(2) limitSize_empty [of ?R ?m] by (cases k) auto
    moreover have "entryAt l (Suc (unat ?a + j)) = Some (?R ! j)" if "j < length ?R" for j
      using that len b c(3,4) by (auto simp: entryAt_def logRange_def)
    ultimately show ?thesis using es True k len c(2,3) by auto
  qed
  then show "es \<noteq> [] \<longleftrightarrow> hasNextCommittedEnts u l" "unat ?a + length es \<le> unat (lCommitted l)"
    "\<forall>k < length es. entryAt l (Suc (unat ?a + k)) = Some (es ! k)" by blast+
qed

text \<open>The last of them has the index that follows from its position.\<close>

lemma nextCommittedEnts_returns:
  assumes "log_ok l" and "total (logEnts l) < 2 ^ 64"
    and "uSnapshot (lUnstable l) = None \<longrightarrow> logBase l \<le> unat (lApplying l)"
    and "\<not> lApplyingEntsPaused l \<longrightarrow> lApplyingEntsSize l < lMaxApplyingEntsSize l"
  shows "\<exists>es. nextCommittedEnts u l = Some es"
proof (cases "hasNextCommittedEnts u l")
  case True
  then have more: "\<not> lApplyingEntsPaused l" "uSnapshot (lUnstable l) = None"
    "lApplying l + 1 < maxAppliableIndex u l + 1"
    unfolding hasNextCommittedEnts_def hasNextOrInProgressSnapshot_def by (metis (full_types))+
  then have "logBase l \<le> unat (lApplying l)" "\<not> lMaxApplyingEntsSize l - lApplyingEntsSize l \<le> 0"
    using assms(3,4) by auto
  then show ?thesis
    using committed_slice [OF assms(1,2) more(3)] more
    by (simp add: nextCommittedEnts_def hasNextOrInProgressSnapshot_def or_panic_def Let_def not_le)
qed (simp add: nextCommittedEnts_def hasNextCommittedEnts_def Let_def not_less split: if_split_asm)

lemma nextCommittedEnts_last:
  assumes "log_ok l" and "total (logEnts l) < 2 ^ 64" and "nextCommittedEnts u l = Some es" and "es \<noteq> []"
  shows "unat (Entry_GetIndex (last es)) = unat (lApplying l) + length es"
proof -
  let ?n = "unat (lApplying l) + length es"
  have "entryAt l ?n = Some (last es)"
    using nextCommittedEnts_Some(3) [OF assms(1-3)] assms(4)
    by (cases "length es") (auto simp: last_conv_nth)
  then have "logBase l < ?n" "?n \<le> logLast l" "logEnts l ! (?n - Suc (logBase l)) = last es"
    by (auto simp: entryAt_def split: if_split_asm)
  then show ?thesis
    using contig_nth [OF shape_parts(2) [OF log_okD [OF assms(1)]], of "?n - Suc (logBase l)"] by simp
qed

section \<open>Properties\<close>

text \<open>
  C18. The safety of the log, over every interleaving of the raft node's operations on it with
  the application's writes to the shared storage, starting from a fresh log on any well-formed
  storage: the documented order \<^verbatim>\<open>applied <= applying <= committed <= lastIndex\<close> always holds;
  the commit and applied positions never decrease; and a position that was committed holds its
  entry, and keeps the same entry for as long as it is not compacted away.
\<close>

theorem committed_entries_never_change:
  assumes "ms_ok ms" and "newLogWithSize ms m = Some l0" and "log_step\<^sup>*\<^sup>* l0 l" and "log_step\<^sup>*\<^sup>* l l'"
  shows "lApplied l \<le> lApplying l \<and> lApplying l \<le> lCommitted l \<and> unat (lCommitted l) \<le> logLast l \<and>
    lCommitted l \<le> lCommitted l' \<and> lApplied l \<le> lApplied l' \<and>
    (\<forall>n. logBase l' < n \<and> n \<le> unat (lCommitted l) \<longrightarrow>
      entryAt l n \<noteq> None \<and> entryAt l' n = entryAt l n)"
proof -
  have "log_ok l0" using newLogWithSize_ok [OF assms(1), of m] assms(2) by (metis option.inject)
  with assms(3) have ok: "log_ok l" using log_steps_safe by blast
  with assms(4) have k: "log_kept l l'" using log_steps_safe by blast
  have "entryAt l n \<noteq> None" if "logBase l' < n" "n \<le> unat (lCommitted l)" for n
    using that ok k by (auto simp: entryAt_def log_ok_def log_kept_def)
  with ok k show ?thesis by (simp add: log_ok_def log_kept_def)
qed

text \<open>A log with two entries in storage and one, conflicting, in the unstable tail.\<close>

definition demoLog :: raftLog where
  "demoLog = \<lparr>lStorage = demoStorage,
     lUnstable = \<lparr>uSnapshot = None, uEntries = [demoEntry 3 6], uOffset = 6, uSnapshotInProgress = False,
       uOffsetInProgress = 6\<rparr>,
     lCommitted = 5, lApplying = 4, lApplied = 4, lMaxApplyingEntsSize = 100, lApplyingEntsSize = 0,
     lApplyingEntsPaused = False\<rparr>"

lemma demoLog_view:
  "logBase demoLog = 4" "logEnts demoLog = [demoEntry 1 5, demoEntry 3 6]" "logBaseTerm demoLog = 1"
  "log_ok demoLog"
proof -
  show v: "logBase demoLog = 4" "logEnts demoLog = [demoEntry 1 5, demoEntry 3 6]" "logBaseTerm demoLog = 1"
    by (simp_all add: demoLog_def logBase_def logBaseTerm_def logEnts_def stableEnts_def demoStorage_view
        msBaseTerm_def) (simp add: demoStorage_def demoEntry_def Entry_GetTerm_def)
  have "unstable_ok (lUnstable demoLog)"
    by (simp add: demoLog_def unstable_ok_def demoEntry_def Entry_GetIndex_def)
  then have "log_shape demoLog"
    using demoStorage_view by (simp add: log_shape_def) (simp add: demoLog_def demoStorage_view)
  then show "log_ok demoLog" unfolding log_ok_def v by (simp add: demoLog_def)
qed

theorem committed_entries_never_change_witness:
  "\<exists>l0 l'. newLogWithSize demoStorage 100 = Some l0 \<and> commitTo 6 l0 = Some l' \<and> lCommitted l0 \<le> lCommitted l'"
proof -
  obtain l0 where l0: "newLogWithSize demoStorage 100 = Some l0" "log_ok l0" "logBase l0 = 4"
    "logEnts l0 = [demoEntry 1 5, demoEntry 2 6, demoEntry 2 7]" "unat (lCommitted l0) = 4"
    by (rule newLogWithSize_ok [OF demoStorage_view(1), of 100]) (simp add: demoStorage_view)
  obtain l' where l': "commitTo 6 l0 = Some l'"
    using commitTo_eq [OF log_okD [OF l0(2)], of 6] l0(3,4) by simp
  then have "log_step\<^sup>*\<^sup>* l0 l'" using log_step.commit_to by blast
  from committed_entries_never_change [OF demoStorage_view(1) l0(1) rtranclp.rtrancl_refl this] l0(1) l'
  show ?thesis by blast
qed

text \<open>
  C19. \<^verbatim>\<open>maybeAppend\<close> of a consecutive run of entries: it refuses exactly when the log does not hold
  the entry before them, it panics exactly when a new entry conflicts with a committed one, and
  when it succeeds every entry of the run is in the log (by index and term), the entries up to
  the first conflict are untouched, the log is cut only at a conflict, and the commit position
  is the larger of the old one and the leader's, capped by the last new index.
\<close>

theorem maybe_append_correct:
  assumes "log_ok l" and "appendable a l"
  defines "prev \<equiv> unat (idIndex (lsPrev a))" and "k \<equiv> matched l (lsEntries a)" and "es \<equiv> lsEntries a"
  shows "(termAt l prev \<noteq> Some (idTerm (lsPrev a)) \<longrightarrow> maybeAppend a c l = Some (None, l)) \<and>
    (maybeAppend a c l = None \<longleftrightarrow>
      termAt l prev = Some (idTerm (lsPrev a)) \<and> k < length es \<and> prev + k < unat (lCommitted l)) \<and>
    (\<forall>r l'. maybeAppend a c l = Some (r, l') \<and> termAt l prev = Some (idTerm (lsPrev a)) \<longrightarrow>
      (\<exists>li. r = Some li \<and> unat li = prev + length es \<and> lCommitted l' = max (lCommitted l) (min c li)) \<and>
      log_ok l' \<and> logBase l' = logBase l \<and>
      logEnts l' = (if k = length es then logEnts l else take (prev + k - logBase l) (logEnts l) @ drop k es) \<and>
      (\<forall>j < length es. termAt l' (Suc (prev + j)) = Some (Entry_GetTerm (es ! j))))"
proof (cases "termAt l prev = Some (idTerm (lsPrev a))")
  case False
  with maybeAppend_mismatch [OF log_okD [OF assms(1)], of a c] show ?thesis by (simp add: prev_def)
next
  case m: True
  have ct: "contig (Suc prev) es" using assms(2) by (simp add: appendable_def prev_def es_def)
  show ?thesis
  proof (cases "k < length es \<and> prev + k < unat (lCommitted l)")
    case True
    with maybeAppend_conflict [OF assms(1,2), of c] m show ?thesis by (simp add: prev_def k_def es_def)
  next
    case False
    obtain l' where l': "maybeAppend a c l = Some (Some (logSlice_lastIndex a), l')" "log_ok l'"
      "logBase l' = logBase l" "logBaseTerm l' = logBaseTerm l"
      "logEnts l' = (if k = length es then logEnts l else take (prev + k - logBase l) (logEnts l) @ drop k es)"
      "lCommitted l' = max (lCommitted l) (min c (logSlice_lastIndex a))"
      by (rule maybeAppend_view [OF assms(1,2), of c])
        (use m False in \<open>auto simp: prev_def k_def es_def\<close>)
    have li: "unat (logSlice_lastIndex a) = prev + length es"
      using contig_length [OF ct] unat_add_of_nat [of "idIndex (lsPrev a)" "length es"]
      by (simp add: logSlice_lastIndex_def len64_def prev_def es_def)
    have pb: "logBase l \<le> prev" using termAt_bounds [OF m] by simp
    have old: "termAt l (Suc (prev + j)) = Some (Entry_GetTerm (es ! j))" if "j < k" for j
      using matched_nth [of j l es] contig_nth [OF ct, of j] that matched_le [of l es]
      by (simp add: k_def es_def)
    have kl: "prev + k \<le> logLast l"
    proof (cases k)
      case (Suc j)
      with old [of j] show ?thesis by (auto dest: termAt_bounds)
    qed (use termAt_bounds [OF m] in simp)
    have "termAt l' (Suc (prev + j)) = Some (Entry_GetTerm (es ! j))" if j: "j < length es" for j
    proof (cases "j < k")
      case True
      then have "Suc (prev + j) \<le> logLast l" using kl by simp
      moreover have "logEnts l' ! (prev + j - logBase l) = logEnts l ! (prev + j - logBase l)"
        using True pb kl by (simp add: l'(5) nth_append)
      moreover have "Suc (prev + j) \<le> logLast l'"
        using True pb kl calculation(1) j by (auto simp: l'(3,5))
      ultimately show ?thesis using old [OF True] pb by (simp add: termAt_def l'(3))
    next
      case False
      then have "k \<noteq> length es" using j by simp
      then have "logEnts l' ! (prev + j - logBase l) = es ! j" "Suc (prev + j) \<le> logLast l'"
        using False pb kl j by (auto simp: l'(3,5) nth_append)
      then show ?thesis using pb by (simp add: termAt_def l'(3))
    qed
    with l' li m False show ?thesis by (simp add: prev_def k_def es_def)
  qed
qed

theorem maybe_append_correct_witness:
  "\<exists>l'. maybeAppend \<lparr>lsTerm = 4, lsPrev = \<lparr>idTerm = 1, idIndex = 5\<rparr>, lsEntries = [demoEntry 4 6, demoEntry 4 7]\<rparr> 6
     demoLog = Some (Some 7, l') \<and> logEnts l' = [demoEntry 1 5, demoEntry 4 6, demoEntry 4 7] \<and> lCommitted l' = 6"
proof -
  let ?a = "\<lparr>lsTerm = 4, lsPrev = \<lparr>idTerm = 1, idIndex = 5\<rparr>, lsEntries = [demoEntry 4 6, demoEntry 4 7]\<rparr>"
  have ap: "appendable ?a demoLog"
    by (simp add: appendable_def demoLog_view demoEntry_def Entry_GetIndex_def)
  have t: "termAt demoLog 5 = Some 1" "termAt demoLog 6 = Some 3" "matched demoLog (lsEntries ?a) = 0"
    by (simp_all add: termAt_def matched_def demoLog_view) (simp_all add: demoEntry_def getters)
  have c: "lCommitted demoLog = 5" by (simp add: demoLog_def)
  note all = maybe_append_correct [OF demoLog_view(4) ap, where c = 6]
  obtain r l' where r: "maybeAppend ?a 6 demoLog = Some (r, l')"
    using all t c by (cases "maybeAppend ?a 6 demoLog") auto
  with all t obtain li where li: "r = Some li" "unat li = unat (7 :: uint64)" "lCommitted l' = max 5 (min 6 li)"
    "logEnts l' = [demoEntry 1 5, demoEntry 4 6, demoEntry 4 7]"
    by (auto simp: c demoLog_view)
  then have "li = 7" by (simp only: word_unat_eq_iff)
  with r li show ?thesis by (auto simp: max_def min_def)
qed


text \<open>
  C20. Reading a range of the log, whatever part of it is in storage and whatever part is
  unstable, is the same as cutting the range out of the one log and limiting its size once: the
  fast and the slow path of \<^verbatim>\<open>slice\<close> and the two size limits on the way do not show. A range that
  starts at or before the base is \<^verbatim>\<open>ErrCompacted\<close>.
\<close>

theorem log_slice_correct:
  assumes "log_ok l" and "total (logEnts l) < 2 ^ 64" and "lo \<le> hi" and "unat hi \<le> Suc (logLast l)"
  shows "log_slice lo hi maxSize l = Some (if unat lo \<le> logBase l then Inl ErrCompacted
    else Inr (limitSize (take (unat hi - unat lo) (drop (unat lo - Suc (logBase l)) (logEnts l))) maxSize))"
  using log_slice_eq [OF log_okD [OF assms(1)] assms(2) _ assms(3,4), of maxSize]
    log_slice_compacted [OF log_okD [OF assms(1)] _ assms(3), of maxSize]
  by (simp add: logRange_def not_le)

lemma demoLog_size: "total (logEnts demoLog) = 16"
  by (simp add: demoLog_view esize_def demoEntry_def Entry_SizeMessage_def zero_defs sizeOpt_def
      sizeOptBytes_def sizeBytes_def sizeVarint_def sizeVarintLoop.simps)

theorem log_slice_correct_witness:
  "log_slice 5 7 noLimit demoLog = Some (Inr (limitSize [demoEntry 1 5, demoEntry 3 6] noLimit)) \<and>
   log_slice 4 7 noLimit demoLog = Some (Inl ErrCompacted)"
proof -
  have t: "total (logEnts demoLog) < 2 ^ 64" by (simp add: demoLog_size)
  show ?thesis
    using log_slice_correct [OF demoLog_view(4) t, of 5 7 noLimit]
      log_slice_correct [OF demoLog_view(4) t, of 4 7 noLimit] by (simp add: demoLog_view)
qed

text \<open>
  \<^verbatim>\<open>findConflictByTerm\<close> returns, and returns the largest index at or below the given one whose
  term is unknown or at most the given term: every index it skips holds a larger term.
\<close>

lemma find_conflict_by_term_correct:
  assumes "log_ok l"
  shows "\<exists>i t. findConflictByTerm index tm l = Some (i, t) \<and> i \<le> index \<and>
    (\<forall>j. i < j \<and> j \<le> index \<longrightarrow> (\<exists>u. termAt l (unat j) = Some u \<and> tm < u)) \<and>
    (if i = 0 then t = 0
     else case termAt l (unat i) of None \<Rightarrow> t = 0 | Some u \<Rightarrow> t = u \<and> u \<le> tm)"
  by (rule findConflictByTerm_spec [OF log_okD [OF assms]])

lemma find_conflict_by_term_correct_demo:
  "\<exists>i t. findConflictByTerm 6 2 demoLog = Some (i, t) \<and> i \<le> 5"
proof -
  have t: "termAt demoLog 6 = Some 3"
    by (simp add: termAt_def demoLog_view) (simp add: demoEntry_def getters)
  have "\<not> (3 :: uint64) \<le> 2" by simp
  from find_conflict_by_term_correct [OF demoLog_view(4), of 6 2] obtain i v where
    r: "findConflictByTerm 6 2 demoLog = Some (i, v)" "i \<le> 6"
      "if i = 0 then v = 0 else case termAt demoLog (unat i) of None \<Rightarrow> v = 0 | Some u \<Rightarrow> v = u \<and> u \<le> 2"
    by blast
  then have "i \<noteq> 6" using t by auto
  with r(2) have "i \<le> 5" by (auto simp: word_le_nat_alt word_unat_eq_iff)
  with r(1) show ?thesis by blast
qed

text \<open>
  \<^verbatim>\<open>scan\<close> over a range of the log with a callback that does not fail returns without error,
  having passed every entry of the range to the callback exactly once and in order, in non-empty
  pages; in particular the loop ends.
\<close>

lemma scan_visits_every_entry:
  assumes "log_ok l" and "total (logEnts l) < 2 ^ 64" and "logBase l < unat lo" and "lo \<le> hi"
    and "unat hi \<le> Suc (logLast l)"
  shows "\<exists>pages. scan (\<lambda>es s. (None, f es s)) lo hi pageSize l s = Some (None, fold f pages s) \<and>
    concat pages = take (unat hi - unat lo) (drop (unat lo - Suc (logBase l)) (logEnts l)) \<and> [] \<notin> set pages"
  using scan_pages [OF log_okD [OF assms(1)] assms(2-5), where f = f and v = "\<lambda>es s. (None, f es s)"]
  by (simp add: logRange_def)

lemma scan_visits_every_entry_demo:
  "\<exists>pages. scan (\<lambda>es s. (None, s + length es)) 5 7 0 demoLog 0 = Some (None, fold (\<lambda>es s. s + length es) pages 0) \<and>
    concat pages = [demoEntry 1 5, demoEntry 3 6]"
proof -
  have t: "total (logEnts demoLog) < 2 ^ 64" by (simp add: demoLog_size)
  show ?thesis
    using scan_visits_every_entry [OF demoLog_view(4) t, of 5 7 "\<lambda>es s. s + length es" 0 0]
    by (auto simp: demoLog_view)
qed

text \<open>
  Handing committed entries to the application: \<^verbatim>\<open>nextCommittedEnts\<close> does not panic, it returns
  the entries right after the applying position, in order and none beyond the commit position,
  and \<^verbatim>\<open>hasNextCommittedEnts\<close> says exactly whether it returns any.
\<close>

lemma next_committed_correct:
  assumes "log_ok l" and "total (logEnts l) < 2 ^ 64"
    and "uSnapshot (lUnstable l) = None \<longrightarrow> logBase l \<le> unat (lApplying l)"
    and "\<not> lApplyingEntsPaused l \<longrightarrow> lApplyingEntsSize l < lMaxApplyingEntsSize l"
  shows "\<exists>es. nextCommittedEnts allowUnstable l = Some es \<and>
    (es \<noteq> [] \<longleftrightarrow> hasNextCommittedEnts allowUnstable l) \<and>
    unat (lApplying l) + length es \<le> unat (lCommitted l) \<and>
    (\<forall>k < length es. entryAt l (Suc (unat (lApplying l) + k)) = Some (es ! k))"
  using nextCommittedEnts_returns [OF assms] nextCommittedEnts_Some [OF assms(1,2)] by metis

lemma next_committed_correct_demo:
  "\<exists>es. nextCommittedEnts True demoLog = Some es \<and> (es \<noteq> [] \<longleftrightarrow> hasNextCommittedEnts True demoLog)"
proof -
  have t: "total (logEnts demoLog) < 2 ^ 64" by (simp add: demoLog_size)
  show ?thesis
    using next_committed_correct [OF demoLog_view(4) t, of True] by (auto simp: demoLog_view(1)) (auto simp: demoLog_def)
qed

end
