(* ===== verification/RaftFrame.thy ===== *)
theory RaftFrame
  imports RawNode LogSafety
begin

text \<open>
  What the message handlers leave alone. Relations between the state of a node before and
  after a call that are reflexive and transitive follow the structure of the code; the
  locale \<open>node_preorder\<close> has the rules for its loops. The relation \<open>quiet\<close> is the frame of
  replication and reads: such a call keeps the term, the vote, the role, the membership, the
  timeouts and, but for a follower, the leader it knows, only adds messages that are not votes,
  and leaves the log as it is.
\<close>

section \<open>Preorders on node states\<close>

locale node_preorder =
  fixes R :: "raft \<Rightarrow> raft \<Rightarrow> bool"
  assumes R_refl: "R r r" and R_trans: "R r r1 \<Longrightarrow> R r1 r2 \<Longrightarrow> R r r2"
begin

lemma visitIds_rule:
  assumes "\<And>n pr r r'. f n pr r = Some r' \<Longrightarrow> R r r'" and "visitIds f ns r = Some r'"
  shows "R r r'"
  using assms(2)
proof (induction ns arbitrary: r)
  case Nil
  then show ?case using R_refl by simp
next
  case (Cons n ns)
  then obtain pr r1 where "f n pr r = Some r1" "visitIds f ns r1 = Some r'"
    by (auto simp: bind_Some_conv)
  with Cons.IH assms(1) show ?case using R_trans by blast
qed

lemma Visit_rule:
  assumes "\<And>n pr r r'. f n pr r = Some r' \<Longrightarrow> R r r'" and "raft_Visit f r = Some r'"
  shows "R r r'"
  using visitIds_rule [of f] assms by (simp add: raft_Visit_def)

end

section \<open>The frame\<close>

text \<open>Reading a snapshot ensures the metadata of the stored one, once.\<close>

definition snapRead :: "raftLog \<Rightarrow> raftLog" where
  "snapRead l = snd (log_snapshot l)"

definition same_log :: "raftLog \<Rightarrow> raftLog \<Rightarrow> bool" where
  "same_log l l' \<longleftrightarrow> l' = l \<or> l' = snapRead l"

definition votingResp :: "Message \<Rightarrow> bool" where
  "votingResp m \<longleftrightarrow> Message_GetType m \<in> {MsgVoteResp, MsgPreVoteResp}"

text \<open>The messages \<open>send\<close> may queue for a node, outside of elections.\<close>

definition sentPlain :: "raft \<Rightarrow> Message \<Rightarrow> bool" where
  "sentPlain r m \<longleftrightarrow> Message_GetType m \<notin> voteTypes \<and> Message_GetType m \<noteq> MsgAppResp \<and>
     Message_GetTo m \<noteq> rId r \<and>
     Message_GetTerm m = (if Message_GetType m \<in> {MsgProp, MsgReadIndex} then 0 else rTerm r)"

definition sentAppResp :: "raft \<Rightarrow> Message \<Rightarrow> bool" where
  "sentAppResp r m \<longleftrightarrow> Message_GetType m = MsgAppResp \<and> Message_GetTerm m = rTerm r"

text \<open>The frame without the log, and with it.\<close>

definition framed :: "raft \<Rightarrow> raft \<Rightarrow> bool" where
  "framed r r' \<longleftrightarrow> rId r' = rId r \<and> rTerm r' = rTerm r \<and> rVote r' = rVote r \<and> rState r' = rState r \<and>
     rStep r' = rStep r \<and> rTick r' = rTick r \<and> rElectionTimeout r' = rElectionTimeout r \<and>
     rRandomizedElectionTimeout r' = rRandomizedElectionTimeout r \<and>
     trkConfig (rTrk r') = trkConfig (rTrk r) \<and> trkVotes (rTrk r') = trkVotes (rTrk r) \<and>
     (rState r \<noteq> StateFollower \<longrightarrow> rLead r' = rLead r) \<and>
     (\<exists>out. rMsgs r' = rMsgs r @ out \<and> list_all (sentPlain r) out) \<and>
     (\<exists>out. rMsgsAfterAppend r' = rMsgsAfterAppend r @ out \<and> list_all (sentAppResp r) out)"

definition quiet :: "raft \<Rightarrow> raft \<Rightarrow> bool" where
  "quiet r r' \<longleftrightarrow> framed r r' \<and> same_log (rLog r) (rLog r')"

lemma Ensure_idem [simp]: "EnsureConfState (Some (EnsureConfState c)) = EnsureConfState c"
  by (simp add: EnsureConfState_def Let_def)

lemma EnsureSnapshot_idem [simp]: "EnsureSnapshot (Some (EnsureSnapshot s)) = EnsureSnapshot s"
  by (simp add: EnsureSnapshot_def EnsureSnapshotMetadata_def Let_def)

lemma snapRead_idem [simp]: "snapRead (snapRead l) = snapRead l"
  by (auto simp: snapRead_def log_snapshot_def MS_Snapshot_def Let_def split: option.splits)

lemma same_log_refl [simp]: "same_log l l"
  by (simp add: same_log_def)

lemma same_log_trans: "same_log l l1 \<Longrightarrow> same_log l1 l2 \<Longrightarrow> same_log l l2"
  by (auto simp: same_log_def)

lemma sentPlain_cong: "rId r' = rId r \<Longrightarrow> rTerm r' = rTerm r \<Longrightarrow> sentPlain r' = sentPlain r"
  by (simp add: sentPlain_def fun_eq_iff)

lemma sentAppResp_cong: "rTerm r' = rTerm r \<Longrightarrow> sentAppResp r' = sentAppResp r"
  by (simp add: sentAppResp_def fun_eq_iff)

lemma framed_refl: "framed r r"
  by (simp add: framed_def)

lemma framed_trans:
  assumes "framed r r1" and "framed r1 r2"
  shows "framed r r2"
proof -
  have "sentPlain r1 = sentPlain r" "sentAppResp r1 = sentAppResp r"
    using assms(1) by (auto simp: framed_def intro: sentPlain_cong sentAppResp_cong)
  with assms show ?thesis
    unfolding framed_def by auto
qed

lemma framed_log [simp]: "framed r (r\<lparr>rLog := l\<rparr>)"
  by (simp add: framed_def)

lemma quiet_framed: "quiet r r' \<Longrightarrow> framed r r'"
  by (simp add: quiet_def)

lemma quiet_log: "quiet r r' \<Longrightarrow> same_log (rLog r) (rLog r')"
  by (simp add: quiet_def)

lemma quiet_refl: "quiet r r"
  by (simp add: quiet_def framed_refl)

lemma quiet_trans: "quiet r r1 \<Longrightarrow> quiet r1 r2 \<Longrightarrow> quiet r r2"
  using framed_trans same_log_trans by (auto simp: quiet_def)

interpretation fr: node_preorder framed
  by unfold_locales (auto intro: framed_refl framed_trans)

interpretation qt: node_preorder quiet
  by unfold_locales (auto intro: quiet_refl quiet_trans)

text \<open>Field updates outside the frame.\<close>

named_theorems quiet_intros "calls that stay within the frame"

lemma quiet_upd [simp]:
  "quiet r (r\<lparr>rElectionElapsed := x1\<rparr>)" "quiet r (r\<lparr>rHeartbeatElapsed := x1\<rparr>)"
  "rState r = StateFollower \<Longrightarrow> quiet r (r\<lparr>rLead := x2\<rparr>)" "quiet r (r\<lparr>rLeadTransferee := x2\<rparr>)"
  "quiet r (r\<lparr>rPendingConfIndex := x2\<rparr>)" "quiet r (r\<lparr>rUncommittedSize := x2\<rparr>)"
  "quiet r (r\<lparr>rReadOnly := x3\<rparr>)" "quiet r (r\<lparr>rReadStates := x4\<rparr>)"
  "quiet r (r\<lparr>rPendingReadIndexMessages := x5\<rparr>)" "quiet r (abortLeaderTransfer r)"
  "quiet r (setProgress n pr r)" "quiet r (reduceUncommittedSize x2 r)"
  by (simp_all add: quiet_def framed_def setProgress_def abortLeaderTransfer_def reduceUncommittedSize_def)

lemma quiet_upd_left:
  "quiet (setProgress n pr r) r' \<Longrightarrow> quiet r r'" "quiet (r\<lparr>rReadOnly := x3\<rparr>) r' \<Longrightarrow> quiet r r'"
  "quiet (r\<lparr>rPendingReadIndexMessages := x5\<rparr>) r' \<Longrightarrow> quiet r r'"
  "rState r = StateFollower \<Longrightarrow> quiet (r\<lparr>rLead := x2\<rparr>) r' \<Longrightarrow> quiet r r'" "quiet (r\<lparr>rElectionElapsed := x1\<rparr>) r' \<Longrightarrow> quiet r r'"
  "quiet (r\<lparr>rLeadTransferee := x2\<rparr>) r' \<Longrightarrow> quiet r r'" "quiet (abortLeaderTransfer r) r' \<Longrightarrow> quiet r r'"
  by (erule quiet_trans [rotated], simp)+

lemma quiet_setProgress: "quiet r r1 \<Longrightarrow> quiet r (setProgress n pr r1)"
  by (rule quiet_trans [OF _ quiet_upd(11)])

section \<open>Sending stays in the frame\<close>

lemma upd_msg_gets [simp]:
  "Message_GetType (upd_msg (mFrom_update f) m) = Message_GetType m"
  "Message_GetTo (upd_msg (mFrom_update f) m) = Message_GetTo m"
  "Message_GetTerm (upd_msg (mFrom_update f) m) = Message_GetTerm m"
  "Message_GetReject (upd_msg (mFrom_update f) m) = Message_GetReject m"
  "Message_GetType (upd_msg (mTerm_update f) m) = Message_GetType m"
  "Message_GetTo (upd_msg (mTerm_update f) m) = Message_GetTo m"
  "Message_GetFrom (upd_msg (mTerm_update f) m) = Message_GetFrom m"
  "Message_GetTerm (upd_msg (mTerm_update (\<lambda>_. Some t)) m) = t"
  "Message_GetFrom (upd_msg (mFrom_update (\<lambda>_. Some t)) m) = t"
  "Message_GetType (upd_msg (mTo_update f) m) = Message_GetType m"
  "Message_GetTerm (upd_msg (mTo_update f) m) = Message_GetTerm m"
  by (simp_all add: upd_msg_def getters)

text \<open>What \<open>send\<close> does: the message is completed and goes to one of the two queues.\<close>

lemma send_Some:
  assumes "send m r = Some r'"
  obtains m' where "Message_GetType m' = Message_GetType m" "Message_GetTo m' = Message_GetTo m"
    "Message_GetReject m' = Message_GetReject m"
    "Message_GetFrom m' = (if Message_GetFrom m = 0 then rId r else Message_GetFrom m)"
    "Message_GetTerm m' = (if Message_GetType m \<in> voteTypes then Message_GetTerm m
       else if Message_GetType m \<in> {MsgProp, MsgReadIndex} then 0 else rTerm r)"
    "Message_GetType m \<in> voteTypes \<longleftrightarrow> Message_GetTerm m \<noteq> 0"
    "if Message_GetType m \<in> {MsgAppResp, MsgVoteResp, MsgPreVoteResp}
     then r' = r\<lparr>rMsgsAfterAppend := rMsgsAfterAppend r @ [m']\<rparr>
     else Message_GetTo m \<noteq> rId r \<and> r' = r\<lparr>rMsgs := rMsgs r @ [m']\<rparr>"
proof -
  define m1 where "m1 = (if Message_GetFrom m = None_id then upd_msg (mFrom_update (\<lambda>_. Some (rId r))) m else m)"
  have g: "Message_GetType m1 = Message_GetType m" "Message_GetTo m1 = Message_GetTo m"
    "Message_GetTerm m1 = Message_GetTerm m" "Message_GetReject m1 = Message_GetReject m"
    "Message_GetFrom m1 = (if Message_GetFrom m = 0 then rId r else Message_GetFrom m)"
    by (simp_all add: m1_def None_id_def)
  define m2 where "m2 = (if Message_GetType m \<in> voteTypes then m1
    else if Message_GetType m \<noteq> MsgProp \<and> Message_GetType m \<noteq> MsgReadIndex
      then upd_msg (mTerm_update (\<lambda>_. Some (rTerm r))) m1 else m1)"
  have h: "Message_GetType m2 = Message_GetType m" "Message_GetTo m2 = Message_GetTo m"
    "Message_GetReject m2 = Message_GetReject m" "Message_GetFrom m2 = Message_GetFrom m1"
    using g by (simp_all add: m2_def upd_msg_def getters)
  have t: "Message_GetType m \<in> voteTypes \<longleftrightarrow> Message_GetTerm m \<noteq> 0"
    using assms by (auto simp: send_def Let_def g m1_def [symmetric] split: if_splits)
  have run: "if Message_GetType m \<in> {MsgAppResp, MsgVoteResp, MsgPreVoteResp}
     then r' = r\<lparr>rMsgsAfterAppend := rMsgsAfterAppend r @ [m2]\<rparr>
     else Message_GetTo m \<noteq> rId r \<and> r' = r\<lparr>rMsgs := rMsgs r @ [m2]\<rparr>"
    using assms t by (auto simp: send_def Let_def g m1_def [symmetric] m2_def split: if_splits)
  show thesis
    by (rule that [of m2]) (use g h t run in \<open>auto simp: m2_def\<close>)
qed

lemma send_quiet [quiet_intros]:
  assumes "send m r = Some r'" and "Message_GetType m \<notin> voteTypes"
  shows "quiet r r'"
proof -
  obtain m' where m': "Message_GetType m' = Message_GetType m" "Message_GetTo m' = Message_GetTo m"
    "Message_GetTerm m' = (if Message_GetType m \<in> voteTypes then Message_GetTerm m
       else if Message_GetType m \<in> {MsgProp, MsgReadIndex} then 0 else rTerm r)"
    and r': "if Message_GetType m \<in> {MsgAppResp, MsgVoteResp, MsgPreVoteResp}
     then r' = r\<lparr>rMsgsAfterAppend := rMsgsAfterAppend r @ [m']\<rparr>
     else Message_GetTo m \<noteq> rId r \<and> r' = r\<lparr>rMsgs := rMsgs r @ [m']\<rparr>"
    by (rule send_Some [OF assms(1)])
  show ?thesis
  proof (cases "Message_GetType m = MsgAppResp")
    case True
    then have "r' = r\<lparr>rMsgsAfterAppend := rMsgsAfterAppend r @ [m']\<rparr>" using r' by simp
    then show ?thesis using True m' by (simp add: quiet_def framed_def sentAppResp_def voteTypes_def)
  next
    case False
    with r' assms(2) have "Message_GetTo m \<noteq> rId r" "r' = r\<lparr>rMsgs := rMsgs r @ [m']\<rparr>"
      by (auto simp: voteTypes_def split: if_splits)
    then show ?thesis using False m' assms(2) by (simp add: quiet_def framed_def sentPlain_def)
  qed
qed

lemma Msg_gets [simp]:
  "Message_GetType (Msg f rs) = (case mType f of None \<Rightarrow> MsgHup | Some t \<Rightarrow> t)"
  "Message_GetTerm (Msg f rs) = get0 (mTerm f)" "Message_GetTo (Msg f rs) = get0 (mTo f)"
  "Message_GetFrom (Msg f rs) = get0 (mFrom f)" "Message_GetReject (Msg f rs) = get_bool (mReject f)"
  by (simp_all add: getters)

lemma Message0_gets [simp]:
  "mType Message0 = None" "mTerm Message0 = None" "mTo Message0 = None" "mFrom Message0 = None"
  "mReject Message0 = None"
  by (simp_all add: Message0_def)

lemma voteTypes_iff [simp]:
  "t \<in> voteTypes \<longleftrightarrow> t = MsgVote \<or> t = MsgVoteResp \<or> t = MsgPreVote \<or> t = MsgPreVoteResp"
  by (simp add: voteTypes_def)

section \<open>Replication stays in the frame\<close>

lemma snapshot_quiet: "log_snapshot (rLog r) = (res, l) \<Longrightarrow> quiet r (r\<lparr>rLog := l\<rparr>)"
  by (simp add: quiet_def same_log_def snapRead_def)

lemma maybeSendSnapshot_quiet [quiet_intros]:
  assumes "maybeSendSnapshot to r = Some (b, r')"
  shows "quiet r r'"
proof -
  obtain pr res l where pr: "progressOf to r = Some pr" and l: "log_snapshot (rLog r) = (res, l)"
    using assms by (cases "log_snapshot (rLog r)") (auto simp: maybeSendSnapshot_def bind_Some_conv)
  have q: "quiet r r'" if "send (Msg m []) (setProgress to x (r\<lparr>rLog := l\<rparr>)) = Some r'" "mType m = Some MsgSnap" for x m
    by (rule quiet_trans [OF quiet_setProgress [OF snapshot_quiet [OF l]] send_quiet [OF that(1)]])
      (simp add: that(2))
  show ?thesis
    using assms pr l quiet_refl snapshot_quiet [OF l]
    by (auto simp: maybeSendSnapshot_def bind_Some_conv Let_def split: if_splits sum.splits intro: q)
qed

lemma maybeSendAppend_quiet [quiet_intros]:
  assumes "maybeSendAppend to e r = Some (b, r')"
  shows "quiet r r'"
proof -
  obtain pr where pr: "progressOf to r = Some pr"
    using assms by (auto simp: maybeSendAppend_def bind_Some_conv)
  show ?thesis
  proof (cases "Progress_IsPaused pr")
    case True
    with assms pr quiet_refl show ?thesis by (simp add: maybeSendAppend_def)
  next
    case False
    with assms pr obtain t where t: "log_term (prNext pr - 1) (rLog r) = Some t"
      by (auto simp: maybeSendAppend_def bind_Some_conv Let_def)
    have "quiet r r'" if "send (Msg m []) r = Some r1" "mType m = Some MsgApp" "r' = setProgress to x r1"
      for m r1 x
      using send_quiet [OF that(1)] that(2,3) by (simp add: quiet_setProgress)
    then show ?thesis
      using assms pr False t quiet_refl
      by (auto simp: maybeSendAppend_def bind_Some_conv Let_def split: if_splits sum.splits
          intro: maybeSendSnapshot_quiet)
  qed
qed

lemma sendAppend_quiet [quiet_intros]: "sendAppend to r = Some r' \<Longrightarrow> quiet r r'"
  by (auto simp: sendAppend_def bind_Some_conv intro: maybeSendAppend_quiet)

lemma sendHeartbeat_quiet [quiet_intros]:
  assumes "sendHeartbeat to ctx r = Some r'"
  shows "quiet r r'"
proof -
  obtain m r1 x where "send (Msg m []) r = Some r1" "mType m = Some MsgHeartbeat" "r' = setProgress to x r1"
    using assms by (fastforce simp: sendHeartbeat_def bind_Some_conv Let_def)
  then show ?thesis using send_quiet [of "Msg m []" r r1] by (simp add: quiet_setProgress)
qed

lemma bcastAppend_quiet [quiet_intros]: "bcastAppend r = Some r' \<Longrightarrow> quiet r r'"
  unfolding bcastAppend_def
  by (erule qt.Visit_rule [rotated]) (auto split: if_splits intro: quiet_refl sendAppend_quiet)

lemma bcastHeartbeat_quiet [quiet_intros]: "bcastHeartbeat r = Some r' \<Longrightarrow> quiet r r'"
  unfolding bcastHeartbeat_def bcastHeartbeatWithCtx_def
  by (erule qt.Visit_rule [rotated]) (auto split: if_splits intro: quiet_refl sendHeartbeat_quiet)

lemma sendTimeoutNow_quiet [quiet_intros]: "sendTimeoutNow to r = Some r' \<Longrightarrow> quiet r r'"
  by (auto simp: sendTimeoutNow_def intro: send_quiet)

lemma forwardToLead_quiet [quiet_intros]:
  "forwardToLead m r = Some r' \<Longrightarrow> Message_GetType m \<notin> voteTypes \<Longrightarrow> quiet r r'"
  by (auto simp: forwardToLead_def intro: send_quiet)

lemma sendAppends_quiet [quiet_intros]:
  assumes "sendAppends to r = Some r'"
  shows "quiet r r'"
  using assms
proof (induction rule: sendAppends.raw_induct [rotated, consumes 1])
  case (1 send_more to r r')
  then obtain b r1 where "maybeSendAppend to False r = Some (b, r1)"
    "if b then send_more to r1 = Some r' else r' = r1"
    by (auto simp: bind_Some_conv split: if_splits)
  with 1 show ?case using maybeSendAppend_quiet quiet_trans by (metis (full_types))
qed

section \<open>Reads and proposals stay in the frame\<close>

lemma answerReadIndex_quiet [quiet_intros]:
  assumes "answerReadIndex m i r = Some r'"
  shows "quiet r r'"
proof -
  obtain resp r1 where 1: "responseToReadIndexReq m i r = Some (resp, r1)"
    and 2: "if Message_GetTo resp \<noteq> None_id then send resp r1 = Some r' else r' = r1"
    using assms by (auto simp: answerReadIndex_def bind_Some_conv split: if_splits)
  have "quiet r r1" "Message_GetTo resp \<noteq> None_id \<Longrightarrow> Message_GetType resp = MsgReadIndexResp"
    using 1 quiet_refl by (auto simp: responseToReadIndexReq_def bind_Some_conv None_id_def split: if_splits)
  with 2 show ?thesis using send_quiet [of resp r1 r'] quiet_trans by (auto split: if_splits)
qed

lemma sendMsgReadIndexResponse_quiet [quiet_intros]:
  "sendMsgReadIndexResponse m r = Some r' \<Longrightarrow> quiet r r'"
  by (auto simp: sendMsgReadIndexResponse_def bind_Some_conv Let_def split: ReadOnlyOption.splits
      dest!: bcastHeartbeat_quiet quiet_upd_left(2) intro: answerReadIndex_quiet)

lemma sendReadIndexResponses_quiet [quiet_intros]:
  "sendReadIndexResponses ms r = Some r' \<Longrightarrow> quiet r r'"
  by (induction ms arbitrary: r)
    (auto simp: bind_Some_conv quiet_refl dest: sendMsgReadIndexResponse_quiet intro: quiet_trans)

lemma releasePending_quiet [quiet_intros]:
  "releasePendingReadIndexMessages r = Some r' \<Longrightarrow> quiet r r'"
  by (auto simp: releasePendingReadIndexMessages_def bind_Some_conv quiet_refl split: if_splits
      dest!: sendReadIndexResponses_quiet quiet_upd_left(3))

lemma answerReads_quiet [quiet_intros]: "answerReads rss r = Some r' \<Longrightarrow> quiet r r'"
  by (induction rss arbitrary: r)
    (auto simp: bind_Some_conv quiet_refl dest: answerReadIndex_quiet intro: quiet_trans)

lemma screenProposals_quiet [quiet_intros]:
  "screenProposals i es r = Some (es', r') \<Longrightarrow> quiet r r'"
proof (induction es arbitrary: i r es')
  case Nil
  then show ?case by (simp add: quiet_refl)
next
  case (Cons e es)
  then obtain cc where cc: "entryConfChange e = Some cc" by (auto simp: bind_Some_conv)
  obtain r1 es1 where "quiet r r1" "screenProposals (Suc i) es r1 = Some (es1, r')"
  proof (cases cc)
    case None
    with Cons.prems cc that [of r] quiet_refl show ?thesis by (auto simp: bind_Some_conv)
  next
    case (Some c)
    with Cons.prems cc that [of r] that [of "r\<lparr>rPendingConfIndex := _\<rparr>"] quiet_refl show ?thesis
      by (cases "confChangeRefused c r") (auto simp: bind_Some_conv)
  qed
  with Cons.IH show ?case using quiet_trans by blast
qed

lemma stepLeaderReadIndex_quiet [quiet_intros]: "stepLeaderReadIndex m r = Some r' \<Longrightarrow> quiet r r'"
  by (auto simp: stepLeaderReadIndex_def bind_Some_conv split: if_splits
      intro: answerReadIndex_quiet sendMsgReadIndexResponse_quiet)

section \<open>Accepting a batch\<close>

text \<open>The parts of the node and of its interface state that \<open>acceptReady\<close> changes.\<close>

lemma acceptReady_Some:
  assumes "acceptReady rd rn = Some rn'"
  obtains l where "nRaft rn' = (nRaft rn)\<lparr>rReadStates := (if rdReadStates rd = [] then rReadStates (nRaft rn) else []),
      rMsgs := [], rMsgsAfterAppend := [], rLog := l\<rparr>"
    and "if rdCommittedEntries rd = [] then l = acceptUnstable (rLog (nRaft rn))
      else acceptApplying (Entry_GetIndex (last (rdCommittedEntries rd))) (entsSize (rdCommittedEntries rd))
        (applyUnstableEntries rn) (acceptUnstable (rLog (nRaft rn))) = Some l"
    and "nAsyncStorageWrites rn' = nAsyncStorageWrites rn"
    and "nPrevSoftSt rn' = (case rdSoftState rd of None \<Rightarrow> nPrevSoftSt rn | Some ss \<Rightarrow> ss)"
    and "nPrevHardSt rn' = (case rdHardState rd of None \<Rightarrow> nPrevHardSt rn
      | Some hs \<Rightarrow> if IsEmptyHardState (Some hs) then nPrevHardSt rn else hs)"
    and "nAsyncStorageWrites rn \<Longrightarrow> nStepsOnAdvance rn' = nStepsOnAdvance rn"
    and "\<not> nAsyncStorageWrites rn \<Longrightarrow> nStepsOnAdvance rn = [] \<and>
      (\<exists>ack. (if needStorageAppendRespMsg (nRaft rn) rd
          then \<exists>m. newStorageAppendRespMsg (nRaft rn) rd = Some m \<and> ack = [m] else ack = []) \<and>
        nStepsOnAdvance rn' = filter (\<lambda>m. Message_GetTo m = rId (nRaft rn)) (rMsgsAfterAppend (nRaft rn)) @ ack @
          (if needStorageApplyRespMsg rd then [newStorageApplyRespMsg (nRaft rn) (rdCommittedEntries rd)] else []))"
proof -
  define rn1 where "rn1 = (case rdSoftState rd of None \<Rightarrow> rn | Some ss \<Rightarrow> rn\<lparr>nPrevSoftSt := ss\<rparr>)"
  define rn2 where "rn2 = (case rdHardState rd of None \<Rightarrow> rn1
       | Some hs \<Rightarrow> if \<not> IsEmptyHardState (Some hs) then rn1\<lparr>nPrevHardSt := hs\<rparr> else rn1)"
  define rn3 where "rn3 = (if length (rdReadStates rd) \<noteq> 0
    then rn2\<lparr>nRaft := (nRaft rn2)\<lparr>rReadStates := []\<rparr>\<rparr> else rn2)"
  have n: "nRaft rn3 = (nRaft rn)\<lparr>rReadStates := (if rdReadStates rd = [] then rReadStates (nRaft rn) else [])\<rparr>"
    "nAsyncStorageWrites rn3 = nAsyncStorageWrites rn" "nStepsOnAdvance rn3 = nStepsOnAdvance rn"
    "nPrevSoftSt rn3 = (case rdSoftState rd of None \<Rightarrow> nPrevSoftSt rn | Some ss \<Rightarrow> ss)"
    "nPrevHardSt rn3 = (case rdHardState rd of None \<Rightarrow> nPrevHardSt rn
      | Some hs \<Rightarrow> if IsEmptyHardState (Some hs) then nPrevHardSt rn else hs)"
    by (simp_all add: rn3_def rn2_def rn1_def split: option.split)
  have m: "needStorageAppendRespMsg (nRaft rn3) rd = needStorageAppendRespMsg (nRaft rn) rd"
    "newStorageAppendRespMsg (nRaft rn3) rd = newStorageAppendRespMsg (nRaft rn) rd"
    "newStorageApplyRespMsg (nRaft rn3) es = newStorageApplyRespMsg (nRaft rn) es" for es
    by (simp_all add: needStorageAppendRespMsg_def newStorageAppendRespMsg_def newStorageApplyRespMsg_def n(1) Let_def
        cong: if_cong)
  let ?r = "(nRaft rn3)\<lparr>rMsgs := [], rMsgsAfterAppend := [], rLog := acceptUnstable (rLog (nRaft rn3))\<rparr>"
  obtain rn4 r5 where rn4: "(if \<not> nAsyncStorageWrites rn3 then do {
        panic_if (length (nStepsOnAdvance rn3) \<noteq> 0);
        steps \<leftarrow> (if needStorageAppendRespMsg (nRaft rn3) rd then do {
            m \<leftarrow> newStorageAppendRespMsg (nRaft rn3) rd;
            Some (filter (\<lambda>m. Message_GetTo m = rId (nRaft rn3)) (rMsgsAfterAppend (nRaft rn3)) @ [m])
          } else Some (filter (\<lambda>m. Message_GetTo m = rId (nRaft rn3)) (rMsgsAfterAppend (nRaft rn3))));
        Some (rn3\<lparr>nStepsOnAdvance := (if needStorageApplyRespMsg rd
          then steps @ [newStorageApplyRespMsg (nRaft rn3) (rdCommittedEntries rd)] else steps)\<rparr>)
      } else Some rn3) = Some rn4"
    and r5: "(if length (rdCommittedEntries rd) > 0 then do {
        l \<leftarrow> acceptApplying (Entry_GetIndex (rdCommittedEntries rd ! (length (rdCommittedEntries rd) - 1)))
          (entsSize (rdCommittedEntries rd)) (applyUnstableEntries rn4) (rLog ?r);
        Some (?r\<lparr>rLog := l\<rparr>)
      } else Some ?r) = Some r5"
    and rn': "rn' = rn4\<lparr>nRaft := r5\<rparr>"
    using assms unfolding acceptReady_def Let_def rn1_def [symmetric] rn2_def [symmetric] rn3_def [symmetric]
    by (elim bindE) simp
  have k: "nAsyncStorageWrites rn4 = nAsyncStorageWrites rn" "nPrevSoftSt rn4 = nPrevSoftSt rn3"
    "nPrevHardSt rn4 = nPrevHardSt rn3"
    "nAsyncStorageWrites rn \<Longrightarrow> nStepsOnAdvance rn4 = nStepsOnAdvance rn"
    using rn4 n(2,3) by (auto elim!: bindE split: if_split_asm)
  have a: "applyUnstableEntries rn4 = applyUnstableEntries rn" using k(1) by (simp add: applyUnstableEntries_def)
  have steps: "nStepsOnAdvance rn = [] \<and> (\<exists>ack. (if needStorageAppendRespMsg (nRaft rn) rd
        then \<exists>m. newStorageAppendRespMsg (nRaft rn) rd = Some m \<and> ack = [m] else ack = []) \<and>
      nStepsOnAdvance rn4 = filter (\<lambda>m. Message_GetTo m = rId (nRaft rn)) (rMsgsAfterAppend (nRaft rn)) @ ack @
        (if needStorageApplyRespMsg rd then [newStorageApplyRespMsg (nRaft rn) (rdCommittedEntries rd)] else []))"
    if "\<not> nAsyncStorageWrites rn"
    using rn4 that n(2,3) unfolding m by (auto elim!: bindE simp: n(1) split: if_split_asm)
  obtain l where l: "r5 = ?r\<lparr>rLog := l\<rparr>" "if rdCommittedEntries rd = [] then l = acceptUnstable (rLog (nRaft rn))
      else acceptApplying (Entry_GetIndex (last (rdCommittedEntries rd))) (entsSize (rdCommittedEntries rd))
        (applyUnstableEntries rn) (acceptUnstable (rLog (nRaft rn))) = Some l"
    using r5 unfolding a
    by (cases "rdCommittedEntries rd = []") (auto elim!: bindE simp: n(1) last_conv_nth)
  show thesis
    by (rule that [of l]) (use l n k steps rn' in simp_all)
qed

section \<open>The leader's handlers\<close>

lemma leaderAppReject_quiet [quiet_intros]: "leaderAppReject m pr r = Some r' \<Longrightarrow> quiet r r'"
  by (auto simp: leaderAppReject_def Let_def elim!: bindE split: prod.split_asm if_split_asm
      dest!: sendAppend_quiet quiet_upd_left(1))

lemma leaderHeartbeatResp_quiet [quiet_intros]:
  assumes "leaderHeartbeatResp m pr r = Some r'"
  shows "quiet r r'"
proof -
  let ?r0 = "setProgress (Message_GetFrom m) (pr\<lparr>prRecentActive := True, prMsgAppFlowPaused := False\<rparr>) r"
  obtain li r1 where 1: "(if prMatch pr < li \<or> prState pr = StateProbe then sendAppend (Message_GetFrom m) ?r0
      else Some ?r0) = Some r1"
    and r': "(if roOption (rReadOnly r1) \<noteq> ReadOnlySafe \<or> length (Message_GetContext m) = 0 then Some r1
      else do {
        ro \<leftarrow> recvAck (Message_GetFrom m) (Message_GetContext m) (rReadOnly r1);
        (rss, ro) \<leftarrow> maybeAdvance (cfgVoters (trkConfig (rTrk r1))) ro;
        answerReads rss (r1\<lparr>rReadOnly := ro\<rparr>)
      }) = Some r'"
    using assms unfolding leaderHeartbeatResp_def Let_def by (elim bindE) simp
  have 2: "r' = r1 \<or> (\<exists>rss ro. answerReads rss (r1\<lparr>rReadOnly := ro\<rparr>) = Some r')"
    using r' by (auto elim!: bindE split: if_split_asm prod.split_asm)
  have "r1 = ?r0 \<or> sendAppend (Message_GetFrom m) ?r0 = Some r1" using 1 by (simp split: if_split_asm)
  then have "quiet r r1" using quiet_upd_left(1) [OF sendAppend_quiet] quiet_upd(11) by auto
  moreover have "quiet r1 r'" using 2 quiet_upd_left(2) [OF answerReads_quiet] quiet_refl by auto
  ultimately show ?thesis by (rule quiet_trans)
qed

lemma leaderSnapStatus_quiet [quiet_intros]: "quiet r (leaderSnapStatus m pr r)"
  by (simp add: leaderSnapStatus_def quiet_refl Let_def)

lemma leaderUnreachable_quiet [quiet_intros]: "quiet r (leaderUnreachable m pr r)"
  by (simp add: leaderUnreachable_def quiet_refl)

lemma leaderTransfer_quiet [quiet_intros]:
  assumes "leaderTransfer m pr r = Some r'"
  shows "quiet r r'"
proof -
  define r1 where "r1 = (if rLeadTransferee r \<noteq> None_id then abortLeaderTransfer r else r)"
  define r2 where "r2 = r1\<lparr>rElectionElapsed := 0, rLeadTransferee := Message_GetFrom m\<rparr>"
  have r1: "quiet r r1" by (simp add: r1_def quiet_refl)
  have r2: "quiet r r2"
    by (rule quiet_trans [OF r1], unfold r2_def, rule quiet_trans [OF quiet_upd(1) quiet_upd(4)])
  have "r' = r \<or> r' = r1 \<or> sendTimeoutNow (Message_GetFrom m) r2 = Some r' \<or>
      sendAppend (Message_GetFrom m) r2 = Some r'"
    using assms unfolding leaderTransfer_def Let_def r1_def [symmetric] r2_def [symmetric]
    by (auto elim!: bindE split: if_split_asm)
  then show ?thesis
    using r1 r2 quiet_refl quiet_trans [OF r2 sendTimeoutNow_quiet] quiet_trans [OF r2 sendAppend_quiet]
    by auto
qed

text \<open>An acknowledgement may advance the commit position, between quiet parts.\<close>

lemma leaderAppAccept_parts:
  assumes "leaderAppAccept m pr r = Some r'"
  obtains (same) "quiet r r'" "\<not> snd (Progress_MaybeUpdate (Message_GetIndex m) pr)"
  | (commit) r1 b l pr2 where "quiet r r1"
      "maybeCommit \<lparr>idTerm = rTerm r, idIndex = ProgressTracker_Committed (rTrk r1)\<rparr> (rLog r1) = Some (b, l)"
      "quiet (r1\<lparr>rLog := l\<rparr>) r'" "r1 = setProgress (Message_GetFrom m) pr2 r"
      "leaderAckProgress m (fst (Progress_MaybeUpdate (Message_GetIndex m) pr)) r = Some pr2"
proof -
  obtain pr1 upd where u: "Progress_MaybeUpdate (Message_GetIndex m) pr = (pr1, upd)" by fastforce
  show thesis
  proof (cases "upd \<or> prMatch pr1 = Message_GetIndex m \<and> prState pr1 = StateProbe")
    case False
    with assms u same show ?thesis by (auto simp: leaderAppAccept_def Let_def)
  next
    case True
    let ?peer = "Message_GetFrom m"
    from True assms u obtain pr2 b r2 r3 r4 where
      pr2: "leaderAckProgress m pr1 r = Some pr2"
      and r2: "raft_maybeCommit (setProgress ?peer pr2 r) = Some (b, r2)"
      and r3: "(if b then do { r \<leftarrow> releasePendingReadIndexMessages r2; bcastAppend r }
         else if rId r2 \<noteq> ?peer \<and> Progress_CanBumpCommit (lCommitted (rLog r2)) pr2
           then sendAppend ?peer r2 else Some r2) = Some r3"
      and r4: "(if rId r3 \<noteq> ?peer then sendAppends ?peer r3 else Some r3) = Some r4"
      and r5: "(if ?peer = rLeadTransferee r4 then do {
            pr \<leftarrow> progressOf ?peer r4;
            li \<leftarrow> log_lastIndex (rLog r4);
            if prMatch pr = li then sendTimeoutNow ?peer r4 else Some r4
          } else Some r4) = Some r'"
      unfolding leaderAppAccept_def Let_def u prod.case if_P [OF True]
      by (elim bindE, simp only: split_paired_all prod.case, elim bindE) blast
    have r': "r' = r4 \<or> sendTimeoutNow ?peer r4 = Some r'"
      using r5 by (auto elim!: bindE split: if_split_asm)
    let ?r1 = "setProgress (Message_GetFrom m) pr2 r"
    obtain l where l: "maybeCommit \<lparr>idTerm = rTerm ?r1, idIndex = ProgressTracker_Committed (rTrk ?r1)\<rparr> (rLog ?r1) = Some (b, l)"
      and "r2 = ?r1\<lparr>rLog := l\<rparr>"
      using r2 by (auto simp: raft_maybeCommit_def bind_Some_conv)
    have "quiet r2 r3"
      using r3 by (auto elim!: bindE split: if_split_asm dest: sendAppend_quiet
          intro: quiet_refl quiet_trans [OF releasePending_quiet bcastAppend_quiet])
    moreover have "quiet r3 r4"
      using r4 by (auto split: if_split_asm dest: sendAppends_quiet intro: quiet_refl)
    moreover have "quiet r4 r'"
      using r' by (auto dest: sendTimeoutNow_quiet intro: quiet_refl)
    ultimately have "quiet r2 r'" using quiet_trans by blast
    moreover have "rTerm ?r1 = rTerm r" by (simp add: setProgress_def)
    ultimately show ?thesis using l \<open>r2 = _\<close> pr2 u by (intro commit [of ?r1 b l pr2]) simp_all
  qed
qed

lemma appendEntry_parts:
  assumes "appendEntry es r = Some (ok, r')"
  obtains (refused) "\<not> ok" "r' = r"
  | (appended) li l i r1 where ok "log_lastIndex (rLog r) = Some li" "quiet r r1" "rLog r1 = rLog r"
      "log_append (map (\<lambda>(i, e). e\<lparr>eTerm := Some (rTerm r), eIndex := Some (li + 1 + of_nat i)\<rparr>)
         (List.enumerate 0 es)) (rLog r) = Some (i, l)"
      "quiet (r1\<lparr>rLog := l\<rparr>) r'"
proof -
  obtain li where li: "log_lastIndex (rLog r) = Some li" using assms by (auto simp: appendEntry_def bind_Some_conv)
  let ?es = "map (\<lambda>(i, e). e\<lparr>eTerm := Some (rTerm r), eIndex := Some (li + 1 + of_nat i)\<rparr>) (List.enumerate 0 es)"
  show thesis
  proof (cases "increaseUncommittedSize ?es r")
    case (Pair b r1)
    then have r1: "quiet r r1" "rLog r1 = rLog r" "\<not> b \<Longrightarrow> r1 = r"
      by (auto simp: increaseUncommittedSize_def Let_def quiet_refl split: if_splits)
    show ?thesis
    proof (cases b)
      case False
      with assms li Pair r1 refused show ?thesis by (simp add: appendEntry_def)
    next
      case True
      with assms li Pair obtain i l where "log_append ?es (rLog r1) = Some (i, l)" ok
        "send (Msg ((mkMsg (Some (rId r1)) MsgAppResp)\<lparr>mIndex := Some i\<rparr>) []) (r1\<lparr>rLog := l\<rparr>) = Some r'"
        by (auto simp: appendEntry_def bind_Some_conv)
      then show ?thesis
        using appended [of li r1 i l] li r1 send_quiet by simp
    qed
  qed
qed

end
