(* ===== verification/RaftElect.thy ===== *)
theory RaftElect
  imports RaftFrame
begin

text \<open>
  Elections at one node. The role changes of src/raftsubject/raft/raft.go are characterised
  by their effect on the term, the vote, the role and the tally; \<open>elect_step\<close> is the state
  machine they form, with calls of the frame in between, and every \<open>Step\<close>, tick and
  configuration change of a node is a sequence of its steps. What holds along such
  sequences: a node's role fits its handlers and timeouts, its term never falls, it votes for
  one candidate in a term, and it becomes leader only with the votes of a quorum.
\<close>

section \<open>The effect of the role changes\<close>

text \<open>A visit that only rewrites progresses.\<close>

definition only_progress :: "raft \<Rightarrow> raft \<Rightarrow> bool" where
  "only_progress r r' \<longleftrightarrow> (\<exists>f. r' = r\<lparr>rTrk := (rTrk r)\<lparr>trkProgress := f\<rparr>\<rparr>)"

lemma only_progress_refl: "only_progress r r"
  unfolding only_progress_def by (rule exI [of _ "trkProgress (rTrk r)"]) simp

lemma only_progress_trans: "only_progress r r1 \<Longrightarrow> only_progress r1 r2 \<Longrightarrow> only_progress r r2"
  by (auto simp: only_progress_def)

interpretation op: node_preorder only_progress
  by unfold_locales (auto intro: only_progress_refl only_progress_trans)

lemma only_progress_set: "only_progress r (setProgress n pr r)"
  by (auto simp: only_progress_def setProgress_def)

lemma Intn_range: "Intn n ds = Some (v, ds') \<Longrightarrow> 0 < n \<and> 0 \<le> v \<and> v < n"
  by (auto simp: Intn_def split: if_splits list.splits)

text \<open>What \<open>reset\<close> keeps and what it sets.\<close>

definition reset_view :: "uint64 \<Rightarrow> raft \<Rightarrow> raft \<Rightarrow> bool" where
  "reset_view t r r' \<longleftrightarrow> rId r' = rId r \<and> rTerm r' = t \<and> rVote r' = (if rTerm r = t then rVote r else 0) \<and>
     rLog r' = rLog r \<and> rState r' = rState r \<and> rStep r' = rStep r \<and> rTick r' = rTick r \<and>
     rMsgs r' = rMsgs r \<and> rMsgsAfterAppend r' = rMsgsAfterAppend r \<and>
     trkConfig (rTrk r') = trkConfig (rTrk r) \<and> trkVotes (rTrk r') = Map.empty \<and>
     rElectionTimeout r' = rElectionTimeout r \<and> 0 < rElectionTimeout r \<and>
     rElectionTimeout r \<le> rRandomizedElectionTimeout r' \<and>
     rRandomizedElectionTimeout r' < 2 * rElectionTimeout r \<and> rLead r' = 0"

lemma reset_Some:
  assumes "reset t r = Some r'"
  shows "reset_view t r r'"
proof -
  define r0 where "r0 = (if rTerm r \<noteq> t then r\<lparr>rTerm := t, rVote := None_id\<rparr> else r)"
  define r1 where "r1 = r0\<lparr>rLead := None_id, rElectionElapsed := 0, rHeartbeatElapsed := 0\<rparr>"
  obtain v ds where v: "Intn (rElectionTimeout r0) (rDraws r0) = Some (v, ds)"
    using assms by (auto simp: reset_def Let_def r0_def [symmetric] r1_def [symmetric]
        resetRandomizedElectionTimeout_def elim!: bindE)
  define r2 where "r2 = r1\<lparr>rRandomizedElectionTimeout := rElectionTimeout r0 + v, rDraws := ds\<rparr>"
  define r3 where "r3 = (abortLeaderTransfer r2)\<lparr>rTrk := ProgressTracker_ResetVotes (rTrk r2)\<rparr>"
  have rr: "resetRandomizedElectionTimeout r1 = Some r2"
    using v by (simp add: resetRandomizedElectionTimeout_def r2_def r1_def)
  have trk: "rTrk (abortLeaderTransfer r2) = rTrk r2" by (simp add: abortLeaderTransfer_def)
  obtain f r4 where "raft_Visit f r3 = Some r4"
    and f: "\<And>n pr r r'. f n pr r = Some r' \<Longrightarrow> only_progress r r'"
    and r': "r' = r4\<lparr>rPendingConfIndex := 0, rUncommittedSize := 0,
      rReadOnly := newReadOnly (roOption (rReadOnly r4))\<rparr>"
    using assms unfolding reset_def Let_def r0_def [symmetric] r1_def [symmetric] rr Option.bind.bind_lunit
      trk r3_def [symmetric]
    by (auto elim!: bindE intro: only_progress_set)
  have "only_progress r3 r4" using op.Visit_rule [of f] f \<open>raft_Visit f r3 = Some r4\<close> by blast
  then obtain g where "r4 = r3\<lparr>rTrk := (rTrk r3)\<lparr>trkProgress := g\<rparr>\<rparr>" by (auto simp: only_progress_def)
  then show ?thesis
    using Intn_range [OF v] r'
    by (cases "rTerm r = t") (simp_all add: reset_view_def r3_def r2_def r1_def r0_def abortLeaderTransfer_def
        ProgressTracker_ResetVotes_def None_id_def)
qed

text \<open>The view of a role change: a reset, then the new role, vote and handlers.\<close>

definition role_view ::
  "uint64 \<Rightarrow> uint64 option \<Rightarrow> NodeState \<Rightarrow> step_func \<Rightarrow> tick_func \<Rightarrow> raft \<Rightarrow> raft \<Rightarrow> bool" where
  "role_view t v st sf tf r r' \<longleftrightarrow> rId r' = rId r \<and> rTerm r' = t \<and>
     rVote r' = (case v of Some x \<Rightarrow> x | None \<Rightarrow> if rTerm r = t then rVote r else 0) \<and>
     rState r' = st \<and> rStep r' = sf \<and> rTick r' = tf \<and>
     trkConfig (rTrk r') = trkConfig (rTrk r) \<and> trkVotes (rTrk r') = Map.empty \<and>
     rElectionTimeout r' = rElectionTimeout r \<and> 0 < rElectionTimeout r \<and>
     rElectionTimeout r \<le> rRandomizedElectionTimeout r' \<and>
     rRandomizedElectionTimeout r' < 2 * rElectionTimeout r \<and>
     (case st of StateFollower \<Rightarrow> True | StateLeader \<Rightarrow> rLead r' = rId r | _ \<Rightarrow> rLead r' = 0)"

lemma becomeFollower_Some:
  assumes "becomeFollower t lead r = Some r'"
  shows "role_view t None StateFollower StepFollower TickElection r r'"
    and "rLog r' = rLog r" "rMsgs r' = rMsgs r" "rMsgsAfterAppend r' = rMsgsAfterAppend r"
  using assms reset_Some [of t "r\<lparr>rStep := StepFollower\<rparr>"]
  by (auto simp: becomeFollower_def Let_def role_view_def reset_view_def elim!: bindE)

lemma becomeCandidate_Some:
  assumes "becomeCandidate r = Some r'"
  shows "role_view (rTerm r + 1) (Some (rId r)) StateCandidate StepCandidate TickElection r r'"
    and "rLog r' = rLog r" "rMsgs r' = rMsgs r" "rMsgsAfterAppend r' = rMsgsAfterAppend r" "rState r \<noteq> StateLeader"
  using assms reset_Some [of "rTerm r + 1" "r\<lparr>rStep := StepCandidate\<rparr>"]
  by (auto simp: becomeCandidate_def Let_def role_view_def reset_view_def elim!: bindE split: if_splits)

lemma becomePreCandidate_Some:
  assumes "becomePreCandidate r = Some r'"
  shows "r' = r\<lparr>rStep := StepCandidate, rTrk := ProgressTracker_ResetVotes (rTrk r), rTick := TickElection,
      rLead := None_id, rState := StatePreCandidate\<rparr>" "rState r \<noteq> StateLeader"
  using assms by (auto simp: becomePreCandidate_def Let_def split: if_splits)

text \<open>The new leader appends one empty entry of its term, after a reset.\<close>

lemma becomeLeader_Some:
  assumes "becomeLeader r = Some r'"
  obtains r1 r2 where "role_view (rTerm r) None StateLeader StepLeader TickHeartbeat r r1"
    and "rLog r1 = rLog r" "rMsgs r1 = rMsgs r" "rMsgsAfterAppend r1 = rMsgsAfterAppend r"
    and "quiet r1 r2" "rLog r2 = rLog r" "appendEntry [Entry0] r2 = Some (True, r')" "rState r \<noteq> StateFollower"
proof -
  obtain r0 where r0: "reset (rTerm r) (r\<lparr>rStep := StepLeader\<rparr>) = Some r0"
    using assms by (auto simp: becomeLeader_def Let_def elim!: bindE split: if_splits)
  let ?r1 = "r0\<lparr>rTick := TickHeartbeat, rLead := rId r0, rState := StateLeader\<rparr>"
  obtain pr li where r2: "appendEntry [Entry0] ((setProgress (rId ?r1)
      ((Progress_BecomeReplicate pr)\<lparr>prRecentActive := True\<rparr>) ?r1)\<lparr>rPendingConfIndex := li\<rparr>) = Some (True, r')"
    and st: "rState r \<noteq> StateFollower"
    using assms r0 by (auto simp: becomeLeader_def Let_def elim!: bindE split: if_splits prod.split_asm)
  show thesis
  proof (rule that [OF _ _ _ _ _ _ r2 st])
    show "role_view (rTerm r) None StateLeader StepLeader TickHeartbeat r ?r1" "rLog ?r1 = rLog r"
      "rMsgs ?r1 = rMsgs r" "rMsgsAfterAppend ?r1 = rMsgsAfterAppend r"
      using reset_Some [OF r0] by (simp_all add: role_view_def reset_view_def)
    then show "rLog ((setProgress (rId ?r1) ((Progress_BecomeReplicate pr)\<lparr>prRecentActive := True\<rparr>) ?r1)
        \<lparr>rPendingConfIndex := li\<rparr>) = rLog r" by (simp add: setProgress_def)
    show "quiet ?r1 ((setProgress (rId ?r1) ((Progress_BecomeReplicate pr)\<lparr>prRecentActive := True\<rparr>) ?r1)
        \<lparr>rPendingConfIndex := li\<rparr>)" by (rule quiet_trans [OF quiet_upd(11) quiet_upd(5)])
  qed
qed

lemma appendEntry_framed: "appendEntry es r = Some (ok, r') \<Longrightarrow> framed r r'"
  by (erule appendEntry_parts)
    (auto dest!: quiet_framed intro: framed_refl framed_trans [OF framed_trans [OF _ framed_log]])

lemma becomeLeader_view:
  assumes "becomeLeader r = Some r'"
  obtains r1 where "role_view (rTerm r) None StateLeader StepLeader TickHeartbeat r r1" "rMsgs r1 = rMsgs r"
    "rMsgsAfterAppend r1 = rMsgsAfterAppend r" "framed r1 r'" "rState r \<noteq> StateFollower"
  using assms by (rule becomeLeader_Some)
    (metis appendEntry_framed framed_trans quiet_framed that)

section \<open>The election state machine\<close>

text \<open>
  The steps of a node's election state while it handles a message: calls of the frame; role
  changes with the conditions under which the code makes them; vote messages; the tally of
  one response; and the switch to another membership by a follower that restores a snapshot.
\<close>

definition grant :: "Message \<Rightarrow> bool" where
  "grant m \<longleftrightarrow> Message_GetType m = MsgVoteResp \<and> \<not> Message_GetReject m"

inductive elect_step :: "Message \<Rightarrow> raft \<Rightarrow> raft \<Rightarrow> bool" for m where
  frame: "framed r r' \<Longrightarrow> elect_step m r r'"
| follower: "rTerm r \<le> t \<Longrightarrow> becomeFollower t lead r = Some r' \<Longrightarrow> elect_step m r r'"
| pre_candidate: "becomePreCandidate r = Some r' \<Longrightarrow> elect_step m r r'"
| candidate: "rTerm r < rTerm r + 1 \<Longrightarrow> becomeCandidate r = Some r' \<Longrightarrow> elect_step m r r'"
| leader: "becomeLeader r = Some r' \<Longrightarrow> rState r = StateCandidate \<Longrightarrow>
    JointConfig_VoteResult (cfgVoters (trkConfig (rTrk r))) (trkVotes (rTrk r)) = VoteWon \<Longrightarrow> elect_step m r r'"
| no_grant: "send x r = Some r' \<Longrightarrow> Message_GetType x \<in> voteTypes \<Longrightarrow> \<not> grant x \<Longrightarrow> elect_step m r r'"
| self_vote: "send x r = Some r' \<Longrightarrow> grant x \<Longrightarrow> Message_GetFrom x = 0 \<Longrightarrow> Message_GetTo x = rId r \<Longrightarrow>
    rVote r = rId r \<Longrightarrow> Message_GetTerm x = rTerm r \<Longrightarrow> elect_step m r r'"
| cast_vote: "send x r = Some r1 \<Longrightarrow> grant x \<Longrightarrow> Message_GetFrom x = 0 \<Longrightarrow> Message_GetTerm x = rTerm r \<Longrightarrow>
    rVote r = Message_GetTo x \<or> rVote r = 0 \<Longrightarrow>
    r' = r1\<lparr>rElectionElapsed := 0, rVote := Message_GetTo x\<rparr> \<Longrightarrow> elect_step m r r'"
| tally: "rState r = StatePreCandidate \<or>
      rState r = StateCandidate \<and> Message_GetType m = MsgVoteResp \<and> Message_GetTerm m \<in> {0, rTerm r} \<Longrightarrow>
    r' = r\<lparr>rTrk := ProgressTracker_RecordVote (Message_GetFrom m) (\<not> Message_GetReject m) (rTrk r)\<rparr> \<Longrightarrow>
    elect_step m r r'"
| membership: "Message_GetType m = MsgSnap \<Longrightarrow> rState r = StateFollower \<Longrightarrow>
    r' = r\<lparr>rLog := l, rTrk := trk, rIsLearner := b\<rparr> \<Longrightarrow> elect_step m r r'"

section \<open>Handlers are runs of the machine\<close>

abbreviation elect_run :: "Message \<Rightarrow> raft \<Rightarrow> raft \<Rightarrow> bool" where
  "elect_run m \<equiv> (elect_step m)\<^sup>*\<^sup>*"

interpretation er: node_preorder "elect_run m" for m
  by unfold_locales auto

lemma run_frame: "framed r r' \<Longrightarrow> elect_run m r r'"
  by (rule r_into_rtranclp) (rule elect_step.frame)

lemma run_quiet: "quiet r r' \<Longrightarrow> elect_run m r r'"
  by (rule run_frame [OF quiet_framed])

lemma run_trans: "elect_run m r r1 \<Longrightarrow> elect_run m r1 r2 \<Longrightarrow> elect_run m r r2"
  by (rule rtranclp_trans)

lemma run_follower: "becomeFollower t lead r = Some r' \<Longrightarrow> rTerm r \<le> t \<Longrightarrow> elect_run m r r'"
  by (rule r_into_rtranclp) (rule elect_step.follower)

text \<open>
  A node with voters cannot let its term wrap around: a campaign for term zero panics in
  \<open>send\<close>.
\<close>

definition has_voters :: "raft \<Rightarrow> bool" where
  "has_voters r \<longleftrightarrow> JointConfig_IDs (cfgVoters (trkConfig (rTrk r))) \<noteq> {}"

lemma campaignIds_term:
  assumes "campaignIds ct vm t ns r = Some r'" and "ns \<noteq> []" and "vm = MsgVote \<or> vm = MsgPreVote"
  shows "t \<noteq> 0"
proof -
  from assms obtain n ns' x r1 where "send x r = Some r1" "Message_GetTerm x = t"
    "Message_GetType x = vm \<or> voteRespMsgType vm = Some (Message_GetType x)"
    by (cases ns) (auto elim!: bindE simp: Let_def split: if_split_asm)
  with assms(3) show ?thesis by (auto elim!: send_Some)
qed

lemma succ_not_zero64: "x + 1 \<noteq> 0 \<Longrightarrow> x < x + 1" for x :: uint64
proof -
  assume "x + 1 \<noteq> 0"
  then have "x \<noteq> MaxUint64" by auto
  then show ?thesis by (simp add: word_less_nat_alt unat_Suc64)
qed

lemma campaignIds_run:
  assumes "campaignIds ct vm t ns r = Some r'"
    and "vm = MsgPreVote \<or> vm = MsgVote \<and> rVote r = rId r \<and> t = rTerm r"
  shows "elect_run m r r'"
  using assms
proof (induction ns arbitrary: r)
  case Nil
  then show ?case by simp
next
  case (Cons n ns)
  then obtain x r1 where x: "send x r = Some r1" and r1: "campaignIds ct vm t ns r1 = Some r'"
    and ty: "Message_GetFrom x = 0" "Message_GetTerm x = t" "\<not> Message_GetReject x" "Message_GetTo x = n"
      "Message_GetType x = vm \<or> n = rId r \<and> voteRespMsgType vm = Some (Message_GetType x)"
    by (auto elim!: bindE simp: Let_def split: if_split_asm)
  have keep: "rVote r1 = rVote r" "rId r1 = rId r" "rTerm r1 = rTerm r"
    using x by (auto elim!: send_Some split: if_split_asm)
  have "elect_step m r r1"
  proof (cases "grant x")
    case True
    with Cons.prems(2) ty have "n = rId r" "rVote r = rId r" "t = rTerm r" by (auto simp: grant_def)
    with True x ty show ?thesis by (intro elect_step.self_vote) auto
  next
    case False
    have "Message_GetType x \<in> voteTypes" using Cons.prems(2) ty(5) by auto
    with False x show ?thesis by (intro elect_step.no_grant)
  qed
  moreover have "elect_run m r1 r'" using Cons.IH [OF r1] Cons.prems(2) keep by simp
  ultimately show ?case by (rule converse_rtranclp_into_rtranclp)
qed

lemma campaign_run:
  assumes "campaign ct r = Some r'" and "has_voters r"
  shows "elect_run m r r'"
proof (cases "ct = campaignPreElection")
  case True
  with assms obtain r1 where r1: "becomePreCandidate r = Some r1"
    and c: "campaignIds ct MsgPreVote (rTerm r1 + 1)
      (sorted_list_of_set (JointConfig_IDs (cfgVoters (trkConfig (rTrk r1))))) r1 = Some r'"
    by (auto simp: campaign_def elim!: bindE)
  from campaignIds_run [OF c] elect_step.pre_candidate [OF r1] show ?thesis
    by (blast intro: converse_rtranclp_into_rtranclp)
next
  case False
  with assms obtain r1 where r1: "becomeCandidate r = Some r1"
    and c: "campaignIds ct MsgVote (rTerm r1)
      (sorted_list_of_set (JointConfig_IDs (cfgVoters (trkConfig (rTrk r1))))) r1 = Some r'"
    by (auto simp: campaign_def elim!: bindE)
  have v: "rVote r1 = rId r1" "rTerm r1 = rTerm r + 1" "trkConfig (rTrk r1) = trkConfig (rTrk r)"
    using becomeCandidate_Some(1) [OF r1] by (simp_all add: role_view_def)
  have "rTerm r + 1 \<noteq> 0"
    using campaignIds_term [OF c] assms(2) v by (simp add: has_voters_def)
  with v(1) campaignIds_run [OF c] elect_step.candidate [OF succ_not_zero64 r1] show ?thesis
    by (auto intro: converse_rtranclp_into_rtranclp)
qed

lemma hup_run: "hup ct r = Some r' \<Longrightarrow> has_voters r \<Longrightarrow> elect_run m r r'"
  by (auto simp: hup_def elim!: bindE split: if_split_asm intro: campaign_run)

lemma send_framed: "send x r = Some r' \<Longrightarrow> Message_GetType x \<notin> voteTypes \<Longrightarrow> framed r r'"
  by (rule quiet_framed) (rule send_quiet)

lemma framed_log_left: "framed (r\<lparr>rLog := l\<rparr>) r' \<Longrightarrow> framed r r'"
  by (rule framed_trans [OF framed_log])

lemma handleAppendEntries_framed: "handleAppendEntries m r = Some r' \<Longrightarrow> framed r r'"
  by (auto simp: handleAppendEntries_def Let_def elim!: bindE split: if_split_asm option.split_asm
      dest!: send_framed dest: framed_log_left)

lemma handleHeartbeat_framed: "handleHeartbeat m r = Some r' \<Longrightarrow> framed r r'"
  by (auto simp: handleHeartbeat_def elim!: bindE dest!: send_framed dest: framed_log_left)

text \<open>A follower that switches to a membership only takes it over.\<close>

lemma switchToConfig_follower:
  assumes "switchToConfig cfg trk r = Some (cs, r')" and "rState r = StateFollower"
  obtains b where "r' = r\<lparr>rTrk := (rTrk r)\<lparr>trkConfig := cfg, trkProgress := trk\<rparr>, rIsLearner := b\<rparr>"
    and "cs = ProgressTracker_ConfState ((rTrk r)\<lparr>trkConfig := cfg, trkProgress := trk\<rparr>)"
  using assms by (auto simp: switchToConfig_def Let_def)

lemma raft_restore_cases:
  assumes "raft_restore s r = Some (b, r')"
  obtains (ignored) "r' = r" "\<not> b"
  | (stepped_down) "becomeFollower (rTerm r + 1) None_id r = Some r'" "\<not> b" "rState r \<noteq> StateFollower"
  | (forwarded) l where "commitTo (snapIndex (Some s)) (rLog r) = Some l" "r' = r\<lparr>rLog := l\<rparr>" "\<not> b"
  | (restored) s' trk lrn where b "lCommitted (rLog r) < snapIndex (Some s)" "rState r = StateFollower"
      "snapIndex (Some s') = snapIndex (Some s)"
      "r' = r\<lparr>rLog := log_restore s' (rLog r), rTrk := trk, rIsLearner := lrn\<rparr>"
proof -
  define cs where "cs = EnsureConfState (SnapshotMetadata_GetConfState (snMetadata s))"
  define s' where "s' = s\<lparr>snMetadata := map_option (smConfState_update (map_option (\<lambda>_. cs))) (snMetadata s)\<rparr>"
  have i: "snapIndex (Some s') = snapIndex (Some s)"
    by (auto simp: s'_def getters split: option.splits)
  show thesis
  proof (cases "snapIndex (Some s) \<le> lCommitted (rLog r) \<or> rState r \<noteq> StateFollower")
    case True
    with assms show ?thesis
      by (auto simp: raft_restore_def elim!: bindE split: if_split_asm intro: ignored stepped_down)
  next
    case False
    then have run: "(if rId r \<notin> set (csVoters cs) \<and> rId r \<notin> set (csLearners cs) \<and>
        rId r \<notin> set (csVotersOutgoing cs) then Some (False, r)
      else do {
        m \<leftarrow> matchTerm \<lparr>idTerm = snapTerm (Some s'), idIndex = snapIndex (Some s')\<rparr> (rLog r);
        if m then do {
          log_lastEntryID (rLog r);
          l \<leftarrow> commitTo (snapIndex (Some s')) (rLog r);
          Some (False, r\<lparr>rLog := l\<rparr>)
        } else do {
          let r = r\<lparr>rLog := log_restore s' (rLog r)\<rparr>;
          let r = r\<lparr>rTrk := MakeProgressTracker (trkMaxInflight (rTrk r)) (trkMaxInflightBytes (rTrk r))\<rparr>;
          li \<leftarrow> log_lastIndex (rLog r);
          (cfg, trk) \<leftarrow> or_panic (Restore \<lparr>chTracker = rTrk r, chLastIndex = li\<rparr> cs);
          (cs', r) \<leftarrow> switchToConfig cfg trk r;
          assertConfStatesEquivalent (Some cs) (Some cs');
          log_lastEntryID (rLog r);
          Some (True, r)
        }
      }) = Some (b, r')"
      using assms unfolding raft_restore_def Let_def cs_def [symmetric] s'_def [symmetric]
      by (simp add: Let_def)
    show ?thesis
    proof (cases b)
      case False
      with run i show ?thesis
        by (auto simp: Let_def elim!: bindE split: if_split_asm prod.split_asm intro: ignored forwarded)
    next
      case True
      with run obtain cfg trk cs' where
        "switchToConfig cfg trk (r\<lparr>rLog := log_restore s' (rLog r),
          rTrk := MakeProgressTracker (trkMaxInflight (rTrk r)) (trkMaxInflightBytes (rTrk r))\<rparr>) = Some (cs', r')"
        by (auto simp: Let_def elim!: bindE split: if_split_asm prod.split_asm)
      with \<open>\<not> (_ \<or> _)\<close> obtain lrn trk' where
        "r' = r\<lparr>rLog := log_restore s' (rLog r), rTrk := trk', rIsLearner := lrn\<rparr>"
        by (auto elim!: switchToConfig_follower)
      then show ?thesis using restored [of s'] True \<open>\<not> (_ \<or> _)\<close> i by auto
    qed
  qed
qed

lemma handleSnapshot_run:
  assumes "handleSnapshot m r = Some r'" and "rState r = StateFollower" and "Message_GetType x = MsgSnap"
  shows "elect_run x r r'"
proof -
  obtain b r1 y where r1: "raft_restore (EnsureSnapshot (Message_GetSnapshot m)) r = Some (b, r1)"
    and y: "send y r1 = Some r'" "Message_GetType y = MsgAppResp"
    using assms(1) by (auto simp: handleSnapshot_def Let_def elim!: bindE split: if_split_asm)
  have "elect_run x r r1"
    using r1
  proof (cases rule: raft_restore_cases)
    case stepped_down
    then show ?thesis using assms(2) by simp
  next
    case (restored s' trk lrn)
    with assms(3) show ?thesis by (intro r_into_rtranclp elect_step.membership) auto
  qed (auto intro: run_frame)
  moreover have "elect_run x r1 r'" using send_framed [OF y(1)] y(2) by (intro run_frame) simp
  ultimately show ?thesis by (rule run_trans)
qed

lemma nil_err_Some [simp]: "nil_err x = Some (e, r) \<longleftrightarrow> e = None \<and> x = Some r"
  by (auto simp: nil_err_def bind_Some_conv)

lemma framed_upd2:
  "rState r = StateFollower \<Longrightarrow> framed (r\<lparr>rElectionElapsed := 0, rLead := n\<rparr>) r' \<Longrightarrow> framed r r'"
  by (rule framed_trans [OF quiet_framed [OF quiet_trans [OF quiet_upd(1) quiet_upd(3)]]]) simp_all

lemma run_upd2:
  assumes "rState r = StateFollower" and "elect_run m (r\<lparr>rElectionElapsed := 0, rLead := n\<rparr>) r'"
  shows "elect_run m r r'"
  by (rule run_trans [OF run_frame assms(2)]) (rule framed_upd2 [OF assms(1)], rule framed_refl)

lemma stepFollower_run:
  assumes "stepFollower m r = Some (e, r')" and "has_voters r" and "rState r = StateFollower"
  shows "elect_run m r r'"
proof -
  let ?r = "r\<lparr>rElectionElapsed := 0, rLead := Message_GetFrom m\<rparr>"
  have snap: "elect_run m r r'" if "handleSnapshot m ?r = Some r'" "Message_GetType m = MsgSnap"
    by (rule run_upd2 [OF assms(3) handleSnapshot_run [OF that(1) _ that(2)]]) (use assms(3) in simp)
  have app: "elect_run m r r'" if "handleAppendEntries m ?r = Some r' \<or> handleHeartbeat m ?r = Some r'"
    using that by (auto dest!: handleAppendEntries_framed handleHeartbeat_framed framed_upd2 [OF assms(3)]
        intro: run_frame)
  have fwd: "elect_run m r r'" if "forwardToLead m r = Some r'"
    "Message_GetType m \<in> {MsgProp, MsgTransferLeader, MsgReadIndex}"
    by (rule run_quiet, rule forwardToLead_quiet [OF that(1)]) (use that(2) in auto)
  show ?thesis
    using assms(1,3) unfolding stepFollower_def
    by (auto split: if_split_asm intro: snap app fwd run_quiet hup_run [OF _ assms(2)])
qed

section \<open>Candidates, leaders and votes\<close>

lemma poll_result:
  "poll n v r = ((gr, rj, res), r1) \<longleftrightarrow>
     r1 = r\<lparr>rTrk := ProgressTracker_RecordVote n v (rTrk r)\<rparr> \<and>
     ProgressTracker_TallyVotes (rTrk r1) = (gr, rj, res)"
  by (auto simp: poll_def Let_def)

lemma RecordVote_config [simp]: "trkConfig (ProgressTracker_RecordVote n v p) = trkConfig p"
  by (simp add: ProgressTracker_RecordVote_def)

lemma follow_then:
  assumes "becomeFollower t lead r = Some r1" and "rTerm r \<le> t" and "elect_run m r1 r'"
  shows "elect_run m r r'"
  by (rule run_trans [OF run_follower [OF assms(1,2)] assms(3)])

text \<open>The messages of a leader carry its term, which \<open>send\<close> sets.\<close>

definition msg_sane :: "Message \<Rightarrow> bool" where
  "msg_sane m \<longleftrightarrow> (Message_GetType m \<in> {MsgApp, MsgHeartbeat, MsgSnap} \<longrightarrow> Message_GetTerm m \<noteq> 0)"

text \<open>Where \<open>Step\<close> is when it calls a handler: the message has no term, the node's, or asks for pre-votes.\<close>

definition term_fits :: "Message \<Rightarrow> raft \<Rightarrow> bool" where
  "term_fits m r \<longleftrightarrow> Message_GetTerm m = 0 \<or> Message_GetTerm m = rTerm r \<or>
     Message_GetType m \<in> {MsgPreVote, MsgPreVoteResp}"

lemma stepCandidate_run:
  assumes run: "stepCandidate m r = Some (e, r')" and room: "has_voters r" and sane: "msg_sane m"
    and fits: "term_fits m r" and st: "rState r \<in> {StateCandidate, StatePreCandidate}"
  shows "elect_run m r r'"
proof -
  let ?mt = "Message_GetType m"
  have le: "rTerm r \<le> Message_GetTerm m" if "?mt \<in> {MsgApp, MsgHeartbeat, MsgSnap}"
    using sane fits that by (auto simp: msg_sane_def term_fits_def)
  have foll: "elect_run m r r'" if "becomeFollower (Message_GetTerm m) lead r = Some r1"
    "handleAppendEntries m r1 = Some r' \<or> handleHeartbeat m r1 = Some r' \<or>
      handleSnapshot m r1 = Some r' \<and> ?mt = MsgSnap"
    "?mt \<in> {MsgApp, MsgHeartbeat, MsgSnap}" for r1 lead
  proof (rule follow_then [OF that(1) le [OF that(3)]])
    have "rState r1 = StateFollower" using becomeFollower_Some(1) [OF that(1)] by (simp add: role_view_def)
    with that(2) show "elect_run m r1 r'"
      using handleAppendEntries_framed handleHeartbeat_framed handleSnapshot_run run_frame by blast
  qed
  define my where "my = (if rState r = StatePreCandidate then MsgPreVoteResp else MsgVoteResp)"
  consider "?mt \<in> {MsgApp, MsgHeartbeat, MsgSnap}" | "?mt = my" | "?mt \<notin> {MsgApp, MsgHeartbeat, MsgSnap, my}"
    by blast
  then show ?thesis
  proof cases
    case 1
    then show ?thesis
      using run by (auto simp: stepCandidate_def Let_def elim!: bindE intro: foll split: if_split_asm)
  next
    case 3
    then have "r' = r" using run by (auto simp: stepCandidate_def Let_def my_def split: if_split_asm)
    then show ?thesis by simp
  next
    case 2
    let ?r1 = "r\<lparr>rTrk := ProgressTracker_RecordVote (Message_GetFrom m) (\<not> Message_GetReject m) (rTrk r)\<rparr>"
    obtain gr rj res where res: "ProgressTracker_TallyVotes (rTrk ?r1) = (gr, rj, res)" by (metis prod.exhaust)
    have poll: "poll (Message_GetFrom m) (\<not> Message_GetReject m) r = ((gr, rj, res), ?r1)"
      using res by (simp add: poll_result)
    have r': "(case res of
          VoteWon \<Rightarrow> (if rState ?r1 = StatePreCandidate then campaign campaignElection ?r1
            else do { r \<leftarrow> becomeLeader ?r1; bcastAppend r })
        | VoteLost \<Rightarrow> becomeFollower (rTerm ?r1) None_id ?r1
        | VotePending \<Rightarrow> Some ?r1) = Some r'"
      using run 2 poll unfolding stepCandidate_def Let_def my_def
      by (auto split: if_split_asm)
    have tally: "elect_step m r ?r1"
      using st 2 fits by (intro elect_step.tally) (auto simp: my_def term_fits_def split: if_split_asm)
    have "elect_run m ?r1 r'"
    proof (cases res)
      case VotePending
      with r' show ?thesis by simp
    next
      case VoteLost
      with r' show ?thesis by (intro run_follower) auto
    next
      case VoteWon
      show ?thesis
      proof (cases "rState r = StatePreCandidate")
        case True
        with VoteWon r' room show ?thesis by (intro campaign_run) (auto simp: has_voters_def)
      next
        case False
        with VoteWon r' obtain r2 where r2: "becomeLeader ?r1 = Some r2" "bcastAppend r2 = Some r'"
          by (auto elim!: bindE)
        have "JointConfig_VoteResult (cfgVoters (trkConfig (rTrk ?r1))) (trkVotes (rTrk ?r1)) = VoteWon"
          using TallyVotes_result [of "rTrk ?r1"] res VoteWon by simp
        then have "elect_step m ?r1 r2"
          using False st by (intro elect_step.leader [OF r2(1)]) auto
        then show ?thesis
          using run_quiet [OF bcastAppend_quiet [OF r2(2)]] by (rule converse_rtranclp_into_rtranclp)
      qed
    qed
    with tally show ?thesis by (rule converse_rtranclp_into_rtranclp)
  qed
qed

lemma stepLeaderProp_framed:
  assumes "stepLeaderProp m r = Some (e, r')"
  shows "framed r r'"
proof (cases "r' = r")
  case False
  with assms obtain es r1 ok r2 where "screenProposals 0 (Message_GetEntries m) r = Some (es, r1)"
    "appendEntry es r1 = Some (ok, r2)" "r' = r2 \<or> bcastAppend r2 = Some r'"
    by (auto simp: stepLeaderProp_def elim!: bindE split: if_split_asm prod.split_asm)
  then have "framed r r1" "framed r1 r2" "framed r2 r'"
    using framed_refl by (auto intro: quiet_framed screenProposals_quiet appendEntry_framed bcastAppend_quiet)
  then show ?thesis using framed_trans by blast
qed (simp add: framed_refl)

lemma leaderAppAccept_framed:
  assumes "leaderAppAccept m pr r = Some r'"
  shows "framed r r'"
  using assms
proof (cases rule: leaderAppAccept_parts)
  case same
  then show ?thesis by (simp add: quiet_framed)
next
  case commit
  then show ?thesis using framed_trans [OF quiet_framed framed_log_left [OF quiet_framed]] by blast
qed

lemma leaderAppResp_framed: "leaderAppResp m pr r = Some r' \<Longrightarrow> framed r r'"
  by (auto simp: leaderAppResp_def Let_def split: if_split_asm
      intro: leaderAppAccept_framed quiet_framed leaderAppReject_quiet)

lemma stepLeaderCheckQuorum_parts:
  assumes "stepLeaderCheckQuorum r = Some r'"
  obtains r1 where "r1 = r \<or> becomeFollower (rTerm r) None_id r = Some r1" and "quiet r1 r'"
proof -
  obtain r1 where r1: "r1 = r \<or> becomeFollower (rTerm r) None_id r = Some r1"
    and v: "raft_Visit (\<lambda>n pr r. Some (if n \<noteq> rId r then setProgress n (pr\<lparr>prRecentActive := False\<rparr>) r else r)) r1 = Some r'"
    using assms by (auto simp: stepLeaderCheckQuorum_def elim!: bindE split: if_split_asm)
  have "quiet r1 r'" by (rule qt.Visit_rule [OF _ v]) (auto intro: quiet_refl split: if_split_asm)
  with r1 show thesis by (rule that)
qed

lemma stepLeaderCheckQuorum_run: "stepLeaderCheckQuorum r = Some r' \<Longrightarrow> elect_run m r r'"
  by (erule stepLeaderCheckQuorum_parts) (metis run_quiet run_follower run_trans order_refl)

lemma stepLeader_run:
  assumes "stepLeader m r = Some (e, r')"
  shows "elect_run x r r'"
  using assms unfolding stepLeader_def
  by (auto split: if_split_asm option.split_asm
      intro: run_quiet quiet_intros run_frame leaderAppResp_framed stepLeaderProp_framed stepLeaderCheckQuorum_run)

lemma stepVote_run:
  assumes run: "stepVote m r = Some r'" and fits: "term_fits m r"
    and ty: "Message_GetType m = MsgVote \<or> Message_GetType m = MsgPreVote"
  shows "elect_run m r r'"
proof -
  obtain respType where resp: "voteRespMsgType (Message_GetType m) = Some respType"
    "respType = (if Message_GetType m = MsgVote then MsgVoteResp else MsgPreVoteResp)"
    using ty by auto
  let ?yes = "Msg ((mkMsg (mFrom (msg m)) respType)\<lparr>mTerm := mTerm (msg m)\<rparr>) []"
  let ?no = "Msg ((mkMsg (mFrom (msg m)) respType)\<lparr>mTerm := Some (rTerm r), mReject := Some True\<rparr>) []"
  have to: "Message_GetTo ?yes = Message_GetFrom m" "Message_GetTerm ?yes = Message_GetTerm m"
    by (simp_all add: getters)
  consider (no) "send ?no r = Some r'"
    | (pre) "send ?yes r = Some r'" "Message_GetType m = MsgPreVote"
    | (cast) r1 where "send ?yes r = Some r1" "Message_GetType m = MsgVote"
        "r' = r1\<lparr>rElectionElapsed := 0, rVote := Message_GetFrom m\<rparr>" "rVote r = Message_GetFrom m \<or> rVote r = 0"
    using run resp(1) ty
    by (auto simp: stepVote_def Let_def None_id_def elim!: bindE split: if_split_asm)
  then show ?thesis
  proof cases
    case no
    then show ?thesis
      using resp(2) by (intro r_into_rtranclp elect_step.no_grant [OF no]) (auto simp: grant_def)
  next
    case pre
    then show ?thesis
      using resp(2) by (intro r_into_rtranclp elect_step.no_grant [OF pre(1)]) (auto simp: grant_def)
  next
    case cast
    have "Message_GetTerm m \<noteq> 0" using cast(1) cast(2) resp(2) to(2) by (auto elim!: send_Some simp: getters)
    with fits cast(2) have "Message_GetTerm ?yes = rTerm r" unfolding to by (auto simp: term_fits_def)
    with cast to resp(2) show ?thesis
      by (intro r_into_rtranclp elect_step.cast_vote [OF cast(1)]) (auto simp: grant_def)
  qed
qed

section \<open>The role invariant\<close>

text \<open>
  The handlers and the timer of a node are those of its role, and its election timeout is in
  the documented interval.
\<close>

definition role_ok :: "raft \<Rightarrow> bool" where
  "role_ok r \<longleftrightarrow>
     (case rState r of
        StateFollower \<Rightarrow> rStep r = StepFollower \<and> rTick r = TickElection
      | StateCandidate \<Rightarrow> rStep r = StepCandidate \<and> rTick r = TickElection
      | StatePreCandidate \<Rightarrow> rStep r = StepCandidate \<and> rTick r = TickElection
      | StateLeader \<Rightarrow> rStep r = StepLeader \<and> rTick r = TickHeartbeat) \<and>
     0 < rElectionTimeout r \<and> rElectionTimeout r \<le> rRandomizedElectionTimeout r \<and>
     rRandomizedElectionTimeout r < 2 * rElectionTimeout r"

lemma role_ok_cong:
  assumes "rState r' = rState r" "rStep r' = rStep r" "rTick r' = rTick r"
    "rElectionTimeout r' = rElectionTimeout r" "rRandomizedElectionTimeout r' = rRandomizedElectionTimeout r"
  shows "role_ok r' = role_ok r"
  unfolding role_ok_def assms by (rule refl)

lemma role_ok_upd [simp]:
  "role_ok (r\<lparr>rLog := l\<rparr>) = role_ok r" "role_ok (r\<lparr>rTrk := p\<rparr>) = role_ok r"
  "role_ok (r\<lparr>rIsLearner := b\<rparr>) = role_ok r" "role_ok (r\<lparr>rVote := n\<rparr>) = role_ok r"
  "role_ok (r\<lparr>rElectionElapsed := i\<rparr>) = role_ok r" "role_ok (r\<lparr>rHeartbeatElapsed := i\<rparr>) = role_ok r"
  "role_ok (r\<lparr>rMsgs := ms\<rparr>) = role_ok r" "role_ok (r\<lparr>rMsgsAfterAppend := ms\<rparr>) = role_ok r"
  "role_ok (r\<lparr>rReadStates := rs\<rparr>) = role_ok r"
  by (rule role_ok_cong, simp_all)+

lemma role_ok_framed: "framed r r' \<Longrightarrow> role_ok r' = role_ok r"
  by (rule role_ok_cong) (auto simp: framed_def)

lemma role_view_ok:
  "role_view t v st sf tf r r' \<Longrightarrow>
     (st, sf, tf) \<in> {(StateFollower, StepFollower, TickElection), (StateCandidate, StepCandidate, TickElection),
       (StateLeader, StepLeader, TickHeartbeat)} \<Longrightarrow> role_ok r'"
  by (auto simp: role_view_def role_ok_def)

lemma send_parts:
  assumes "send x r = Some r'"
  shows "rId r' = rId r" "rTerm r' = rTerm r" "rVote r' = rVote r" "rState r' = rState r" "rStep r' = rStep r"
    "rTick r' = rTick r" "rElectionTimeout r' = rElectionTimeout r" "rLog r' = rLog r"
    "rRandomizedElectionTimeout r' = rRandomizedElectionTimeout r" "rTrk r' = rTrk r"
  using assms by (auto elim!: send_Some split: if_split_asm)

lemma elect_step_role_ok:
  assumes "elect_step m r r'" and "role_ok r"
  shows "role_ok r'"
  using assms
proof cases
  case frame
  with assms(2) show ?thesis using role_ok_framed by blast
next
  case (follower t lead)
  then show ?thesis using role_view_ok [OF becomeFollower_Some(1)] by blast
next
  case pre_candidate
  note pre_candidate_eq = becomePreCandidate_Some(1) [OF pre_candidate]
  show ?thesis using assms(2) unfolding pre_candidate_eq by (simp add: role_ok_def)
next
  case candidate
  then show ?thesis using role_view_ok [OF becomeCandidate_Some(1)] by blast
next
  case leader
  from leader(1) obtain r1 where "role_view (rTerm r) None StateLeader StepLeader TickHeartbeat r r1" "framed r1 r'"
    by (rule becomeLeader_view)
  then show ?thesis using role_view_ok role_ok_framed by blast
next
  case (no_grant x)
  with assms(2) role_ok_cong [OF send_parts(4-7,9)] show ?thesis by blast
next
  case (self_vote x)
  with assms(2) role_ok_cong [OF send_parts(4-7,9)] show ?thesis by blast
next
  case (cast_vote x r1)
  have "role_ok r1" using assms(2) role_ok_cong [OF send_parts(4-7,9) [OF cast_vote(1)]] by simp
  with cast_vote(6) show ?thesis by simp
next
  case tally
  with assms(2) show ?thesis by simp
next
  case (membership l trk b)
  with assms(2) show ?thesis by simp
qed

lemma elect_run_role_ok: "elect_run m r r' \<Longrightarrow> role_ok r \<Longrightarrow> role_ok r'"
  by (induction rule: rtranclp_induct) (auto intro: elect_step_role_ok)

text \<open>
  The leader a node knows: a leader knows itself, a candidate and a pre-candidate know none.
\<close>

definition lead_ok :: "raft \<Rightarrow> bool" where
  "lead_ok r \<longleftrightarrow>
     (case rState r of
        StateFollower \<Rightarrow> True
      | StateLeader \<Rightarrow> rLead r = rId r
      | _ \<Rightarrow> rLead r = None_id)"

lemma lead_ok_cong:
  assumes "rState r' = rState r" "rId r' = rId r" "rState r \<noteq> StateFollower \<Longrightarrow> rLead r' = rLead r"
  shows "lead_ok r' = lead_ok r"
  using assms(3) unfolding lead_ok_def assms(1,2) by (cases "rState r") simp_all

lemma lead_ok_upd [simp]:
  "lead_ok (r\<lparr>rLog := l\<rparr>) = lead_ok r" "lead_ok (r\<lparr>rTrk := p\<rparr>) = lead_ok r"
  "lead_ok (r\<lparr>rIsLearner := b\<rparr>) = lead_ok r" "lead_ok (r\<lparr>rVote := n\<rparr>) = lead_ok r"
  "lead_ok (r\<lparr>rElectionElapsed := i\<rparr>) = lead_ok r" "lead_ok (r\<lparr>rMsgs := ms\<rparr>) = lead_ok r"
  "lead_ok (r\<lparr>rMsgsAfterAppend := ms\<rparr>) = lead_ok r" "lead_ok (r\<lparr>rReadStates := rs\<rparr>) = lead_ok r"
  by (rule lead_ok_cong, simp_all)+

lemma lead_ok_framed: "framed r r' \<Longrightarrow> lead_ok r' = lead_ok r"
  by (rule lead_ok_cong) (auto simp: framed_def)

lemma role_view_lead_ok: "role_view t v st sf tf r r' \<Longrightarrow> lead_ok r'"
  by (cases st) (auto simp: role_view_def lead_ok_def None_id_def)

lemma send_lead: "send x r = Some r' \<Longrightarrow> rLead r' = rLead r"
  by (auto elim!: send_Some split: if_split_asm)

lemma send_lead_ok: "send x r = Some r' \<Longrightarrow> lead_ok r' = lead_ok r"
  by (rule lead_ok_cong) (simp_all add: send_parts send_lead)

lemma elect_step_lead_ok:
  assumes "elect_step m r r'" and "lead_ok r"
  shows "lead_ok r'"
  using assms
proof cases
  case frame
  with assms(2) show ?thesis using lead_ok_framed by blast
next
  case (follower t lead)
  then show ?thesis using role_view_lead_ok [OF becomeFollower_Some(1)] by blast
next
  case pre_candidate
  note pre_candidate_eq = becomePreCandidate_Some(1) [OF pre_candidate]
  show ?thesis unfolding pre_candidate_eq by (simp add: lead_ok_def)
next
  case candidate
  then show ?thesis using role_view_lead_ok [OF becomeCandidate_Some(1)] by blast
next
  case leader
  from leader(1) obtain r1 where "role_view (rTerm r) None StateLeader StepLeader TickHeartbeat r r1" "framed r1 r'"
    by (rule becomeLeader_view)
  then show ?thesis using role_view_lead_ok lead_ok_framed by blast
next
  case (cast_vote x r1)
  have "lead_ok r1" using assms(2) send_lead_ok [OF cast_vote(1)] by simp
  with cast_vote(6) show ?thesis by simp
next
  case tally
  with assms(2) show ?thesis by simp
next
  case (membership l trk b)
  with assms(2) show ?thesis by simp
qed (use assms(2) send_lead_ok in blast)+

lemma elect_run_lead_ok: "elect_run m r r' \<Longrightarrow> lead_ok r \<Longrightarrow> lead_ok r'"
  by (induction rule: rtranclp_induct) (auto intro: elect_step_lead_ok)

section \<open>Step is a run of the machine\<close>

lemma callStep_run:
  assumes "callStep m r = Some (e, r')" and "role_ok r" and "has_voters r" and "msg_sane m" and "term_fits m r"
  shows "elect_run m r r'"
proof (cases "rState r")
  case StateFollower
  with assms show ?thesis using stepFollower_run by (simp add: callStep_def role_ok_def)
next
  case StateLeader
  with assms show ?thesis using stepLeader_run by (simp add: callStep_def role_ok_def)
next
  case StateCandidate
  with assms show ?thesis using stepCandidate_run by (simp add: callStep_def role_ok_def)
next
  case StatePreCandidate
  with assms show ?thesis using stepCandidate_run by (simp add: callStep_def role_ok_def)
qed

text \<open>Acknowledgements of applied entries stay in the frame, the proposal of a leader included.\<close>

lemma confChangeToMsg_nil_term [simp]: "Message_GetTerm (confChangeToMsg None) = 0"
  by (simp add: confChangeToMsg_def MarshalConfChange_def)

lemma Step_prop:
  "Message_GetType m = MsgProp \<Longrightarrow> Message_GetTerm m = 0 \<Longrightarrow> Step (Some m) r = callStep m r"
  by (simp add: Step.simps)

lemma appliedTo_framed:
  assumes "appliedTo i s r = Some r'" and "role_ok r"
  shows "framed r r'"
proof -
  obtain l where "log_appliedTo (max i (lApplied (rLog r))) s (rLog r) = Some l"
    using assms(1) by (auto simp: appliedTo.simps Let_def elim!: bindE)
  then have "r' = r\<lparr>rLog := l\<rparr> \<or> rState r = StateLeader \<and>
      (\<exists>e. callStep (confChangeToMsg None) (r\<lparr>rLog := l\<rparr>) = Some (e, r'))"
    using assms(1) by (auto simp: appliedTo.simps Let_def Step_prop elim!: bindE split: if_split_asm prod.split_asm)
  moreover have "framed r r'" if "rState r = StateLeader" "callStep (confChangeToMsg None) (r\<lparr>rLog := l\<rparr>) = Some (e, r')" for e
    using that assms(2)
    by (auto simp: callStep_def role_ok_def stepLeader_def intro: framed_log_left stepLeaderProp_framed)
  ultimately show ?thesis by auto
qed

lemma appliedSnap_framed:
  "appliedSnap s r = Some r' \<Longrightarrow> role_ok r \<Longrightarrow> framed r r'"
  unfolding appliedSnap.simps Let_def
  by (rule framed_log_left, erule appliedTo_framed) simp

lemma stepHigherTerm_run:
  assumes run: "stepHigherTerm m r = Some (go, r')" and lt: "rTerm r < Message_GetTerm m"
    and sane: "msg_sane m" and room: "has_voters r"
  shows "elect_run m r r'" and "go \<Longrightarrow> term_fits m r'" and "has_voters r'"
proof -
  consider (same) "r' = r" "go \<Longrightarrow> Message_GetType m \<in> {MsgPreVote, MsgPreVoteResp}"
    | (follow) lead where "becomeFollower (Message_GetTerm m) lead r = Some r'"
    using run by (auto simp: stepHigherTerm_def Let_def elim!: bindE split: if_split_asm)
  then have "elect_run m r r' \<and> (go \<longrightarrow> term_fits m r') \<and> has_voters r'"
  proof cases
    case same
    with room show ?thesis by (auto simp: term_fits_def)
  next
    case (follow lead)
    note v = becomeFollower_Some(1) [OF follow]
    have "elect_run m r r'" using follow lt by (intro run_follower) auto
    moreover have "has_voters r'" using v room by (simp add: role_view_def has_voters_def)
    moreover have "term_fits m r'" using v by (simp add: role_view_def term_fits_def)
    ultimately show ?thesis by simp
  qed
  then show "elect_run m r r'" and "go \<Longrightarrow> term_fits m r'" and "has_voters r'" by auto
qed

lemma stepLower_run:
  assumes "Step (Some m) r = Some (e, r')" and "Message_GetTerm m \<noteq> 0" "Message_GetTerm m < rTerm r" and "role_ok r"
  shows "elect_run m r r'"
proof -
  consider "r' = r"
    | x where "send x r = Some r'" "\<not> grant x" "Message_GetType x = MsgAppResp \<or> Message_GetType x = MsgPreVoteResp"
    | "appliedSnap (Message_GetSnapshot m) r = Some r'"
    using assms(1-3) by (auto simp: Step.simps grant_def elim!: bindE split: if_split_asm)
  then show ?thesis
  proof cases
    case (2 x)
    then show ?thesis
      using send_framed [OF 2(1)] elect_step.no_grant [OF 2(1) _ 2(2)] by (auto intro: run_frame)
  next
    case 3
    with assms(4) show ?thesis by (intro run_frame appliedSnap_framed)
  qed simp
qed

text \<open>\<open>Step\<close> after the message's term is dealt with.\<close>

definition stepBody :: "Message \<Rightarrow> raft \<Rightarrow> step_result" where
  "stepBody m r =
     (if Message_GetType m = MsgHup then
        nil_err (hup (if rPreVote r then campaignPreElection else campaignElection) r)
      else if Message_GetType m = MsgStorageAppendResp then do {
        r \<leftarrow> (if Message_GetIndex m \<noteq> 0 then do {
               l \<leftarrow> log_stableTo \<lparr>idTerm = Message_GetLogTerm m, idIndex = Message_GetIndex m\<rparr> (rLog r);
               Some (r\<lparr>rLog := l\<rparr>)
             } else Some r);
        if Message_GetSnapshot m \<noteq> None then nil_err (appliedSnap (Message_GetSnapshot m) r)
        else Some (None, r)
      }
      else if Message_GetType m = MsgStorageApplyResp then
        (if length (Message_GetEntries m) > 0 then do {
           let index = Entry_GetIndex (Message_GetEntries m ! (length (Message_GetEntries m) - 1));
           r \<leftarrow> appliedTo index (entsSize (Message_GetEntries m)) r;
           Some (None, reduceUncommittedSize (payloadsSize (Message_GetEntries m)) r)
         } else Some (None, r))
      else if Message_GetType m = MsgVote \<or> Message_GetType m = MsgPreVote then nil_err (stepVote m r)
      else callStep m r)"

lemma Step_body:
  assumes "\<not> (Message_GetTerm m \<noteq> 0 \<and> Message_GetTerm m < rTerm r)"
  shows "Step (Some m) r = do {
     (go, r) \<leftarrow> (if Message_GetTerm m \<noteq> 0 \<and> Message_GetTerm m > rTerm r
       then stepHigherTerm m r else Some (True, r));
     if \<not> go then Some (None, r) else stepBody m r
   }"
  unfolding Step.simps stepBody_def if_not_P [OF assms] by (rule refl)

text \<open>The acknowledgement of a storage write.\<close>

lemma stepBody_stable:
  assumes "stepBody m r = Some (e, r')" and "Message_GetType m = MsgStorageAppendResp"
  obtains l where "Message_GetIndex m = 0 \<and> l = rLog r \<or> Message_GetIndex m \<noteq> 0 \<and>
      log_stableTo \<lparr>idTerm = Message_GetLogTerm m, idIndex = Message_GetIndex m\<rparr> (rLog r) = Some l"
    and "Message_GetSnapshot m = None \<and> r' = r\<lparr>rLog := l\<rparr> \<or>
      Message_GetSnapshot m \<noteq> None \<and> appliedSnap (Message_GetSnapshot m) (r\<lparr>rLog := l\<rparr>) = Some r'"
proof -
  obtain r1 where r1: "(if Message_GetIndex m \<noteq> 0 then do {
      l \<leftarrow> log_stableTo \<lparr>idTerm = Message_GetLogTerm m, idIndex = Message_GetIndex m\<rparr> (rLog r);
      Some (r\<lparr>rLog := l\<rparr>) } else Some r) = Some r1"
    and r': "(if Message_GetSnapshot m \<noteq> None then nil_err (appliedSnap (Message_GetSnapshot m) r1)
      else Some (None, r1)) = Some (e, r')"
    using assms unfolding stepBody_def by (auto elim!: bindE)
  then obtain l where l: "r1 = r\<lparr>rLog := l\<rparr>" "Message_GetIndex m = 0 \<and> l = rLog r \<or> Message_GetIndex m \<noteq> 0 \<and>
      log_stableTo \<lparr>idTerm = Message_GetLogTerm m, idIndex = Message_GetIndex m\<rparr> (rLog r) = Some l"
    by (cases "Message_GetIndex m = 0") (auto elim!: bindE)
  show thesis
    by (rule that [OF l(2)]) (use r' l(1) in \<open>auto split: if_split_asm\<close>)
qed

lemma stepBody_run:
  assumes run: "stepBody m r = Some (e, r')" and fits: "term_fits m r" and ok: "role_ok r"
    and room: "has_voters r" and sane: "msg_sane m"
  shows "elect_run m r r'"
proof -
  consider (stable) "Message_GetType m = MsgStorageAppendResp"
    | (applied) "Message_GetType m = MsgStorageApplyResp"
    | (vote) "Message_GetType m = MsgVote \<or> Message_GetType m = MsgPreVote"
    | (hup) "Message_GetType m = MsgHup"
    | (other) "Message_GetType m \<notin> {MsgStorageAppendResp, MsgStorageApplyResp, MsgVote, MsgPreVote, MsgHup}"
    by blast
  then show ?thesis
  proof cases
    case stable
    have ok': "role_ok (r\<lparr>rLog := l\<rparr>)" for l using ok by simp
    show ?thesis
      using run stable
    proof (rule stepBody_stable)
      fix l
      assume "Message_GetSnapshot m = None \<and> r' = r\<lparr>rLog := l\<rparr> \<or>
        Message_GetSnapshot m \<noteq> None \<and> appliedSnap (Message_GetSnapshot m) (r\<lparr>rLog := l\<rparr>) = Some r'"
      then have "framed r r'" using appliedSnap_framed [OF _ ok'] framed_log_left framed_log by blast
      then show ?thesis by (rule run_frame)
    qed
  next
    case applied
    with run obtain i s r1 n where "r' = r \<or> appliedTo i s r = Some r1 \<and> r' = reduceUncommittedSize n r1"
      by (auto simp: stepBody_def Let_def elim!: bindE split: if_split_asm)
    then have "framed r r'"
      using appliedTo_framed [OF _ ok] quiet_framed [OF quiet_upd(12)] framed_trans framed_refl by metis
    then show ?thesis by (rule run_frame)
  next
    case vote
    then have "stepVote m r = Some r'" using run by (auto simp: stepBody_def)
    then show ?thesis using fits vote by (rule stepVote_run)
  next
    case hup
    then show ?thesis using run hup_run [OF _ room] by (auto simp: stepBody_def)
  next
    case other
    then have "callStep m r = Some (e, r')" using run by (simp add: stepBody_def)
    then show ?thesis using ok room sane fits by (rule callStep_run)
  qed
qed

lemma Step_run:
  assumes run: "Step (Some m) r = Some (e, r')" and ok: "role_ok r" and room: "has_voters r" and sane: "msg_sane m"
  shows "elect_run m r r'"
proof (cases "Message_GetTerm m \<noteq> 0 \<and> Message_GetTerm m < rTerm r")
  case True
  then show ?thesis using stepLower_run [OF run] ok by blast
next
  case False
  note S = run [unfolded Step_body [OF False]]
  show ?thesis
  proof (cases "Message_GetTerm m \<noteq> 0 \<and> rTerm r < Message_GetTerm m")
    case True
    with S obtain go r1 where r1: "stepHigherTerm m r = Some (go, r1)"
      and r': "if go then stepBody m r1 = Some (e, r') else r' = r1"
      by (auto elim!: bindE split: if_split_asm)
    note h = stepHigherTerm_run [OF r1 _ sane room]
    have 1: "elect_run m r r1" using h(1) True by simp
    have "elect_run m r1 r'"
    proof (cases go)
      case go: True
      with r' h True show ?thesis
        using stepBody_run [OF _ _ elect_run_role_ok [OF 1 ok] _ sane] by simp
    next
      case go: False
      with r' show ?thesis by simp
    qed
    with 1 show ?thesis by (rule run_trans)
  next
    case eq: False
    have "term_fits m r" using False eq by (auto simp: term_fits_def)
    moreover have "stepBody m r = Some (e, r')" using S eq by (simp split: if_split_asm)
    ultimately show ?thesis using ok room sane by (intro stepBody_run)
  qed
qed

end
