(* ===== verification/ElectionSafety.thy ===== *)
theory ElectionSafety
  imports RaftElect
begin

text \<open>
  Election safety. Two relations between the states of one node are kept by every step of
  its election machine: \<open>vote_rel\<close>, for the terms and the votes it sends, and \<open>win_rel\<close>, for
  the votes it collects. A cluster of nodes that run the code of
  src/raftsubject/raft/raft.go and exchange messages in any order, with losses and
  duplicates, then has at most one leader in a term.
\<close>

section \<open>The votes a node sends\<close>

text \<open>A vote granted to a node with a valid id.\<close>

definition ballot :: "Message \<Rightarrow> bool" where
  "ballot x \<longleftrightarrow> grant x \<and> Message_GetTo x \<noteq> 0"

text \<open>The ballots a node adds while it goes from one state to another.\<close>

definition ballots_ok :: "raft \<Rightarrow> raft \<Rightarrow> Message list \<Rightarrow> bool" where
  "ballots_ok r r' out \<longleftrightarrow>
     (\<forall>x \<in> set out. ballot x \<longrightarrow> Message_GetFrom x = rId r \<and> Message_GetTerm x \<noteq> 0 \<and>
        rTerm r \<le> Message_GetTerm x \<and> Message_GetTerm x \<le> rTerm r' \<and>
        (Message_GetTerm x = rTerm r' \<longrightarrow> rVote r' = Message_GetTo x) \<and>
        (Message_GetTerm x = rTerm r \<and> rVote r \<noteq> 0 \<longrightarrow> Message_GetTo x = rVote r)) \<and>
     (\<forall>x \<in> set out. \<forall>y \<in> set out. ballot x \<and> ballot y \<and> Message_GetTerm x = Message_GetTerm y \<longrightarrow>
        Message_GetTo x = Message_GetTo y)"

definition vote_rel :: "raft \<Rightarrow> raft \<Rightarrow> bool" where
  "vote_rel r r' \<longleftrightarrow> rId r' = rId r \<and> rTerm r \<le> rTerm r' \<and>
     (rTerm r' = rTerm r \<and> rVote r \<noteq> 0 \<longrightarrow> rVote r' = rVote r) \<and>
     (\<forall>x \<in> set (rMsgs r'). ballot x \<longrightarrow> x \<in> set (rMsgs r)) \<and>
     (\<exists>out. rMsgsAfterAppend r' = rMsgsAfterAppend r @ out \<and> ballots_ok r r' out)"

lemma ballots_okD:
  assumes "ballots_ok r r' out" and "x \<in> set out" and "ballot x"
  shows "Message_GetFrom x = rId r" "Message_GetTerm x \<noteq> 0" "rTerm r \<le> Message_GetTerm x"
    "Message_GetTerm x \<le> rTerm r'" "Message_GetTerm x = rTerm r' \<Longrightarrow> rVote r' = Message_GetTo x"
    "Message_GetTerm x = rTerm r \<Longrightarrow> rVote r \<noteq> 0 \<Longrightarrow> Message_GetTo x = rVote r"
    "y \<in> set out \<Longrightarrow> ballot y \<Longrightarrow> Message_GetTerm x = Message_GetTerm y \<Longrightarrow> Message_GetTo x = Message_GetTo y"
  using assms unfolding ballots_ok_def by blast+

lemma ballots_none: "list_all (\<lambda>x. \<not> ballot x) out \<Longrightarrow> ballots_ok r r' out"
  by (auto simp: ballots_ok_def list_all_iff)

lemma vote_rel_refl: "vote_rel r r"
  by (simp add: vote_rel_def ballots_ok_def)

lemma vote_rel_trans:
  assumes "vote_rel r r1" and "vote_rel r1 r2"
  shows "vote_rel r r2"
proof -
  obtain o1 o2 where o: "rMsgsAfterAppend r1 = rMsgsAfterAppend r @ o1" "ballots_ok r r1 o1"
    "rMsgsAfterAppend r2 = rMsgsAfterAppend r1 @ o2" "ballots_ok r1 r2 o2"
    using assms unfolding vote_rel_def by blast
  have t: "rId r1 = rId r" "rTerm r \<le> rTerm r1" "rTerm r1 \<le> rTerm r2"
    "rTerm r1 = rTerm r \<Longrightarrow> rVote r \<noteq> 0 \<Longrightarrow> rVote r1 = rVote r"
    "rTerm r2 = rTerm r1 \<Longrightarrow> rVote r1 \<noteq> 0 \<Longrightarrow> rVote r2 = rVote r1"
    using assms by (auto simp: vote_rel_def)
  let ?good = "\<lambda>x. Message_GetFrom x = rId r \<and> Message_GetTerm x \<noteq> 0 \<and> rTerm r \<le> Message_GetTerm x \<and>
      Message_GetTerm x \<le> rTerm r2 \<and> (Message_GetTerm x = rTerm r2 \<longrightarrow> rVote r2 = Message_GetTo x) \<and>
      (Message_GetTerm x = rTerm r \<and> rVote r \<noteq> 0 \<longrightarrow> Message_GetTo x = rVote r)"
  have b1: "?good x" if "x \<in> set o1" "ballot x" for x
  proof -
    note x = ballots_okD [OF o(2) that]
    have "rVote r2 = Message_GetTo x" if eq: "Message_GetTerm x = rTerm r2"
    proof -
      have "rTerm r2 = rTerm r1" "Message_GetTerm x = rTerm r1" using x(4) t(3) eq by auto
      with x(5) t(5) \<open>ballot x\<close> show ?thesis by (simp add: ballot_def)
    qed
    with x t(3) show ?thesis by auto
  qed
  have b2: "?good x" if "x \<in> set o2" "ballot x" for x
  proof -
    note x = ballots_okD [OF o(4) that]
    have "Message_GetTo x = rVote r" if "Message_GetTerm x = rTerm r" "rVote r \<noteq> 0"
    proof -
      have "rTerm r1 = rTerm r" using t(2) x(3) that(1) by simp
      with that x(6) t(4) show ?thesis by simp
    qed
    with x t(1,2) show ?thesis by auto
  qed
  have mix: "Message_GetTo x = Message_GetTo y"
    if "x \<in> set o1" "y \<in> set o2" "ballot x" "ballot y" "Message_GetTerm x = Message_GetTerm y" for x y
  proof -
    note x = ballots_okD [OF o(2) that(1,3)] and y = ballots_okD [OF o(4) that(2,4)]
    have eq: "Message_GetTerm x = rTerm r1" "Message_GetTerm y = rTerm r1" using x(4) y(3) that(5) by auto
    with x(5) y(6) that(3) show ?thesis by (simp add: ballot_def)
  qed
  have "Message_GetTo x = Message_GetTo y"
    if xy: "x \<in> set (o1 @ o2)" "y \<in> set (o1 @ o2)" "ballot x" "ballot y" "Message_GetTerm x = Message_GetTerm y" for x y
  proof -
    consider "x \<in> set o1" "y \<in> set o1" | "x \<in> set o1" "y \<in> set o2" | "x \<in> set o2" "y \<in> set o1"
      | "x \<in> set o2" "y \<in> set o2"
      using xy(1,2) by auto
    then show ?thesis
    proof cases
      case 1
      then show ?thesis by (rule ballots_okD(7) [OF o(2) _ xy(3) _ xy(4,5)])
    next
      case 2
      then show ?thesis by (rule mix [OF _ _ xy(3-5)])
    next
      case 3
      then show ?thesis using mix [OF _ _ xy(4,3) xy(5) [symmetric]] by simp
    next
      case 4
      then show ?thesis by (rule ballots_okD(7) [OF o(4) _ xy(3) _ xy(4,5)])
    qed
  qed
  with b1 b2 have "ballots_ok r r2 (o1 @ o2)"
    unfolding ballots_ok_def by (auto simp only: set_append Un_iff)
  moreover have "rMsgsAfterAppend r2 = rMsgsAfterAppend r @ o1 @ o2" using o(1,3) by simp
  moreover have "rVote r2 = rVote r" if "rTerm r2 = rTerm r" "rVote r \<noteq> 0"
  proof -
    have "rTerm r1 = rTerm r" using t(2,3) that(1) by simp
    with that t(4,5) show ?thesis by simp
  qed
  moreover have "rId r2 = rId r" "rTerm r \<le> rTerm r2" using t(1-3) assms(2) by (auto simp: vote_rel_def)
  moreover have "\<forall>x \<in> set (rMsgs r2). ballot x \<longrightarrow> x \<in> set (rMsgs r)"
    using assms by (auto simp: vote_rel_def)
  ultimately show ?thesis unfolding vote_rel_def by blast
qed

interpretation vr: node_preorder vote_rel
  by unfold_locales (auto intro: vote_rel_refl vote_rel_trans)

lemma vote_rel_framed: "framed r r' \<Longrightarrow> vote_rel r r'"
  by (force simp: vote_rel_def framed_def list_all_iff sentAppResp_def sentPlain_def ballot_def grant_def
      intro!: ballots_none)

text \<open>A role change to a later term, or within the term without touching the vote.\<close>

lemma vote_rel_role:
  assumes "role_view t v st sf tf r r'" and "rMsgsAfterAppend r' = rMsgsAfterAppend r" and "rMsgs r' = rMsgs r"
    and "rTerm r < t \<or> rTerm r = t \<and> v = None"
  shows "vote_rel r r'"
  using assms by (auto simp: vote_rel_def role_view_def ballots_ok_def split: option.splits)

lemma vote_rel_no_ballot:
  assumes "send x r = Some r'" and "\<not> grant x"
  shows "vote_rel r r'"
proof -
  obtain m' where m': "Message_GetType m' = Message_GetType x" "Message_GetReject m' = Message_GetReject x"
    and r': "if Message_GetType x \<in> {MsgAppResp, MsgVoteResp, MsgPreVoteResp}
     then r' = r\<lparr>rMsgsAfterAppend := rMsgsAfterAppend r @ [m']\<rparr>
     else Message_GetTo x \<noteq> rId r \<and> r' = r\<lparr>rMsgs := rMsgs r @ [m']\<rparr>"
    by (rule send_Some [OF assms(1)])
  have "\<not> ballot m'" using assms(2) m' by (simp add: ballot_def grant_def)
  with r' show ?thesis
    by (auto simp: vote_rel_def ballots_ok_def split: if_split_asm)
qed

lemma vote_rel_ballot:
  assumes "send x r = Some r1" and "grant x" and "Message_GetFrom x = 0" and "Message_GetTerm x = rTerm r"
    and "rVote r = Message_GetTo x \<or> rVote r = 0" and "r' = r1\<lparr>rElectionElapsed := i, rVote := Message_GetTo x\<rparr>"
  shows "vote_rel r r'"
proof -
  obtain m' where m': "Message_GetTo m' = Message_GetTo x"
    "Message_GetFrom m' = (if Message_GetFrom x = 0 then rId r else Message_GetFrom x)"
    "Message_GetTerm m' = (if Message_GetType x \<in> voteTypes then Message_GetTerm x
       else if Message_GetType x \<in> {MsgProp, MsgReadIndex} then 0 else rTerm r)"
    "Message_GetType x \<in> voteTypes \<longleftrightarrow> Message_GetTerm x \<noteq> 0"
    and r': "if Message_GetType x \<in> {MsgAppResp, MsgVoteResp, MsgPreVoteResp}
     then r1 = r\<lparr>rMsgsAfterAppend := rMsgsAfterAppend r @ [m']\<rparr>
     else Message_GetTo x \<noteq> rId r \<and> r1 = r\<lparr>rMsgs := rMsgs r @ [m']\<rparr>"
    by (rule send_Some [OF assms(1)])
  have "r1 = r\<lparr>rMsgsAfterAppend := rMsgsAfterAppend r @ [m']\<rparr>" using r' assms(2) by (simp add: grant_def)
  with m' assms(2-6) show ?thesis
    by (auto simp: vote_rel_def ballots_ok_def grant_def)
qed

lemma elect_step_vote_rel:
  assumes "elect_step m r r'"
  shows "vote_rel r r'"
  using assms
proof cases
  case frame
  then show ?thesis by (rule vote_rel_framed)
next
  case (follower t lead)
  then show ?thesis using becomeFollower_Some [OF follower(2)] by (intro vote_rel_role) auto
next
  case pre_candidate
  show ?thesis
    unfolding becomePreCandidate_Some(1) [OF pre_candidate] by (simp add: vote_rel_def ballots_ok_def)
next
  case candidate
  then show ?thesis using becomeCandidate_Some [OF candidate(2)] by (intro vote_rel_role) auto
next
  case leader
  from leader(1) obtain r1 where "role_view (rTerm r) None StateLeader StepLeader TickHeartbeat r r1"
    "rMsgsAfterAppend r1 = rMsgsAfterAppend r" "rMsgs r1 = rMsgs r" "framed r1 r'"
    by (rule becomeLeader_view)
  then show ?thesis using vote_rel_role vote_rel_framed vote_rel_trans by blast
next
  case (no_grant x)
  then show ?thesis using vote_rel_no_ballot by blast
next
  case (self_vote x)
  have "rVote r' = rVote r" "rElectionElapsed r' = rElectionElapsed r"
    using self_vote(1) by (auto elim!: send_Some split: if_split_asm)
  then have "r' = r'\<lparr>rElectionElapsed := rElectionElapsed r, rVote := Message_GetTo x\<rparr>"
    using self_vote by simp
  with self_vote show ?thesis by (intro vote_rel_ballot [OF self_vote(1)]) auto
next
  case (cast_vote x r1)
  then show ?thesis by (intro vote_rel_ballot [OF cast_vote(1)]) auto
next
  case tally
  then show ?thesis by (simp add: vote_rel_def ballots_ok_def)
next
  case (membership l trk b)
  then show ?thesis by (simp add: vote_rel_def ballots_ok_def)
qed

lemma elect_run_vote_rel: "elect_run m r r' \<Longrightarrow> vote_rel r r'"
  by (induction rule: rtranclp_induct) (auto intro: vote_rel_refl vote_rel_trans elect_step_vote_rel)

section \<open>The votes a node collects\<close>

text \<open>\<open>G n t\<close> says that member \<open>n\<close> is known to have granted its vote of term \<open>t\<close>.\<close>

definition tallied :: "raft \<Rightarrow> uint64 \<Rightarrow> uint64 \<Rightarrow> bool" where
  "tallied r t n \<longleftrightarrow> rState r = StateCandidate \<and> rTerm r = t \<and> trkVotes (rTrk r) n = Some True"

definition win_rel :: "(uint64 \<Rightarrow> uint64 \<Rightarrow> bool) \<Rightarrow> raft \<Rightarrow> raft \<Rightarrow> bool" where
  "win_rel G r r' \<longleftrightarrow>
     (\<forall>n. tallied r' (rTerm r') n \<longrightarrow> tallied r (rTerm r') n \<or> G n (rTerm r')) \<and>
     (rState r' = StateLeader \<longrightarrow>
        (rState r = StateLeader \<and> rTerm r' = rTerm r \<and> trkConfig (rTrk r') = trkConfig (rTrk r) \<or>
         joint_majority (cfgVoters (trkConfig (rTrk r'))) {n. tallied r (rTerm r') n \<or> G n (rTerm r')}))"

lemma win_rel_refl: "win_rel G r r"
  by (auto simp: win_rel_def)

lemma tallied_term: "tallied r t n \<Longrightarrow> rTerm r = t"
  by (simp add: tallied_def)

lemma win_rel_trans:
  assumes 1: "win_rel G r r1" and 2: "win_rel G r1 r2"
  shows "win_rel G r r2"
proof -
  have a: "tallied r t n \<or> G n t" if "tallied r1 t n" for t n
    using 1 that tallied_term [OF that] by (auto simp: win_rel_def)
  have sub: "{n. tallied r1 t n \<or> G n t} \<subseteq> {n. tallied r t n \<or> G n t}" for t
    using a by auto
  show ?thesis
    unfolding win_rel_def
  proof (intro conjI allI impI)
    fix n assume "tallied r2 (rTerm r2) n"
    then show "tallied r (rTerm r2) n \<or> G n (rTerm r2)" using 2 a by (auto simp: win_rel_def)
  next
    assume "rState r2 = StateLeader"
    with 2 consider "rState r1 = StateLeader" "rTerm r2 = rTerm r1" "trkConfig (rTrk r2) = trkConfig (rTrk r1)"
      | "joint_majority (cfgVoters (trkConfig (rTrk r2))) {n. tallied r1 (rTerm r2) n \<or> G n (rTerm r2)}"
      by (auto simp: win_rel_def)
    then show "rState r = StateLeader \<and> rTerm r2 = rTerm r \<and> trkConfig (rTrk r2) = trkConfig (rTrk r) \<or>
      joint_majority (cfgVoters (trkConfig (rTrk r2))) {n. tallied r (rTerm r2) n \<or> G n (rTerm r2)}"
    proof cases
      case 1
      with \<open>win_rel G r r1\<close> show ?thesis by (auto simp: win_rel_def)
    next
      case 2
      then show ?thesis using jnt.quorum_mono [OF _ sub] by blast
    qed
  qed
qed

interpretation wr: node_preorder "win_rel G" for G
  by unfold_locales (auto intro: win_rel_refl win_rel_trans)

lemma win_rel_mono: "win_rel G r r' \<Longrightarrow> (\<And>n t. G n t \<Longrightarrow> H n t) \<Longrightarrow> win_rel H r r'"
  unfolding win_rel_def
  using jnt.quorum_mono [of _ "{n. tallied r (rTerm r') n \<or> G n (rTerm r')}" "{n. tallied r (rTerm r') n \<or> H n (rTerm r')}"]
  by blast

lemma win_rel_same:
  assumes "rState r' = rState r" and "rTerm r' = rTerm r" and "trkConfig (rTrk r') = trkConfig (rTrk r)"
    and "trkVotes (rTrk r') = trkVotes (rTrk r)"
  shows "win_rel G r r'"
  using assms by (auto simp: win_rel_def tallied_def)

lemma win_rel_framed: "framed r r' \<Longrightarrow> win_rel G r r'"
  by (rule win_rel_same) (auto simp: framed_def)

lemma win_rel_fresh:
  assumes "trkVotes (rTrk r') = Map.empty" and "rState r' \<noteq> StateLeader"
  shows "win_rel G r r'"
  using assms by (auto simp: win_rel_def tallied_def)

text \<open>The grant a message carries, for a node of term \<open>t\<close>.\<close>

definition granted_by :: "Message \<Rightarrow> uint64 \<Rightarrow> uint64 \<Rightarrow> bool" where
  "granted_by m n t \<longleftrightarrow> grant m \<and> Message_GetFrom m = n \<and> Message_GetTerm m \<in> {0, t}"

lemma elect_step_win_rel:
  assumes "elect_step m r r'"
  shows "win_rel (granted_by m) r r'"
  using assms
proof cases
  case frame
  then show ?thesis by (rule win_rel_framed)
next
  case (follower t lead)
  then show ?thesis using becomeFollower_Some(1) by (intro win_rel_fresh) (auto simp: role_view_def)
next
  case pre_candidate
  show ?thesis
    unfolding becomePreCandidate_Some(1) [OF pre_candidate]
    by (rule win_rel_fresh) (simp_all add: ProgressTracker_ResetVotes_def)
next
  case candidate
  then show ?thesis using becomeCandidate_Some(1) by (intro win_rel_fresh) (auto simp: role_view_def)
next
  case leader
  from leader(1) obtain r1 where v: "role_view (rTerm r) None StateLeader StepLeader TickHeartbeat r r1" "framed r1 r'"
    by (rule becomeLeader_view)
  have "joint_majority (cfgVoters (trkConfig (rTrk r))) (voted (trkVotes (rTrk r)) True)"
    using leader(3) by (simp add: jnt.won_iff)
  then have "joint_majority (cfgVoters (trkConfig (rTrk r))) {n. tallied r (rTerm r) n \<or> granted_by m n (rTerm r)}"
    by (rule jnt.quorum_mono) (use leader(2) in \<open>auto simp: tallied_def voted_def\<close>)
  with v(1) have "win_rel (granted_by m) r r1"
    by (auto simp: win_rel_def role_view_def tallied_def)
  with v(2) show ?thesis using win_rel_framed win_rel_trans by blast
next
  case (no_grant x)
  then show ?thesis using send_parts [OF no_grant(1)] by (intro win_rel_same) auto
next
  case (self_vote x)
  then show ?thesis using send_parts [OF self_vote(1)] by (intro win_rel_same) auto
next
  case (cast_vote x r1)
  then show ?thesis using send_parts [OF cast_vote(1)] by (intro win_rel_same) auto
next
  case tally
  then show ?thesis
    by (auto simp: win_rel_def tallied_def granted_by_def grant_def ProgressTracker_RecordVote_def
        split: if_split_asm)
next
  case (membership l trk b)
  then show ?thesis by (auto simp: win_rel_def tallied_def)
qed

lemma elect_run_win_rel: "elect_run m r r' \<Longrightarrow> win_rel (granted_by m) r r'"
  by (induction rule: rtranclp_induct) (auto intro: win_rel_refl win_rel_trans elect_step_win_rel)

section \<open>Ticks and the hand-over of messages\<close>

lemma elect_run_config:
  assumes "elect_run m r r'" and "Message_GetType m \<noteq> MsgSnap"
  shows "trkConfig (rTrk r') = trkConfig (rTrk r)"
  using assms(1)
proof (induction rule: rtranclp_induct)
  case (step r1 r2)
  have "trkConfig (rTrk r2) = trkConfig (rTrk r1)"
    using step.hyps(2)
  proof cases
    case frame
    then show ?thesis by (simp add: framed_def)
  next
    case (follower t lead)
    then show ?thesis using becomeFollower_Some(1) by (auto simp: role_view_def)
  next
    case pre_candidate
    show ?thesis
      unfolding becomePreCandidate_Some(1) [OF pre_candidate] by (simp add: ProgressTracker_ResetVotes_def)
  next
    case candidate
    then show ?thesis using becomeCandidate_Some(1) by (auto simp: role_view_def)
  next
    case leader
    from leader(1) show ?thesis by (rule becomeLeader_view) (auto simp: role_view_def framed_def)
  next
    case membership
    with assms(2) show ?thesis by simp
  qed (auto simp: send_parts)
  with step.IH show ?case by simp
qed simp

lemma stepLocal_body:
  assumes "stepLocal typ r = Some r'"
  obtains e where "stepBody (Msg (Message0\<lparr>mFrom := Some (rId r), mType := Some typ\<rparr>) []) r = Some (e, r')"
  using assms by (auto simp: stepLocal_def Step_body elim!: bindE split: prod.split_asm)

lemma stepLocal_hup: "stepLocal MsgHup r = Some r' \<Longrightarrow> has_voters r \<Longrightarrow> elect_run m r r'"
  by (erule stepLocal_body) (auto simp: stepBody_def intro: hup_run)

lemma stepLocal_leader:
  assumes "stepLocal typ r = Some r'" and "typ = MsgBeat \<or> typ = MsgCheckQuorum" and "rStep r = StepLeader"
  shows "elect_run m r r'"
proof -
  obtain e where "stepBody (Msg (Message0\<lparr>mFrom := Some (rId r), mType := Some typ\<rparr>) []) r = Some (e, r')"
    using assms(1) by (rule stepLocal_body)
  then have "callStep (Msg (Message0\<lparr>mFrom := Some (rId r), mType := Some typ\<rparr>) []) r = Some (e, r')"
    using assms(2) by (auto simp: stepBody_def)
  then have "stepLeader (Msg (Message0\<lparr>mFrom := Some (rId r), mType := Some typ\<rparr>) []) r = Some (e, r')"
    using assms(3) by (simp add: callStep_def)
  then show ?thesis by (rule stepLeader_run)
qed

lemma tick_run:
  assumes "tick r = Some r'" and "role_ok r" and "has_voters r"
  shows "elect_run m r r'"
proof (cases "rTick r")
  case TickElection
  let ?r = "r\<lparr>rElectionElapsed := rElectionElapsed r + 1\<rparr>"
  from TickElection assms(1) have "r' = ?r \<or> stepLocal MsgHup (?r\<lparr>rElectionElapsed := 0\<rparr>) = Some r'"
    by (auto simp: tick_def tickElection_def Let_def split: if_split_asm)
  moreover have "has_voters (?r\<lparr>rElectionElapsed := 0\<rparr>)" using assms(3) by (simp add: has_voters_def)
  ultimately show ?thesis
    using stepLocal_hup run_trans [OF run_quiet [OF quiet_trans [OF quiet_upd(1) quiet_upd(1)]]]
      run_quiet [OF quiet_upd(1)] by metis
next
  case TickHeartbeat
  then have st: "rStep r = StepLeader" using assms(2) by (auto simp: role_ok_def split: NodeState.splits)
  let ?r = "r\<lparr>rHeartbeatElapsed := rHeartbeatElapsed r + 1, rElectionElapsed := rElectionElapsed r + 1\<rparr>"
  obtain r1 where r1: "(if rElectionElapsed ?r \<ge> rElectionTimeout ?r then do {
        let r = ?r\<lparr>rElectionElapsed := 0\<rparr>;
        r \<leftarrow> (if rCheckQuorum r then stepLocal MsgCheckQuorum r else Some r);
        Some (if rState r = StateLeader \<and> rLeadTransferee r \<noteq> None_id then abortLeaderTransfer r else r)
      } else Some ?r) = Some r1"
    and r': "(if rState r1 \<noteq> StateLeader then Some r1
      else if rHeartbeatElapsed r1 \<ge> rHeartbeatTimeout r1 then stepLocal MsgBeat (r1\<lparr>rHeartbeatElapsed := 0\<rparr>)
      else Some r1) = Some r'"
    using TickHeartbeat assms(1) unfolding tick_def tickHeartbeat_def Let_def by (auto elim!: bindE)
  have q: "quiet r ?r" "quiet r (?r\<lparr>rElectionElapsed := 0\<rparr>)"
    by (rule quiet_trans [OF quiet_upd(2) quiet_upd(1)],
        rule quiet_trans [OF quiet_trans [OF quiet_upd(2) quiet_upd(1)] quiet_upd(1)])
  have "elect_run m r r1"
  proof (cases "rElectionElapsed ?r \<ge> rElectionTimeout ?r")
    case True
    let ?r2 = "?r\<lparr>rElectionElapsed := 0\<rparr>"
    from True r1 obtain r2 where "(if rCheckQuorum ?r2 then stepLocal MsgCheckQuorum ?r2 else Some ?r2) = Some r2"
      "r1 = (if rState r2 = StateLeader \<and> rLeadTransferee r2 \<noteq> None_id then abortLeaderTransfer r2 else r2)"
      unfolding if_P [OF True] Let_def by (elim bindE) simp
    then have r2: "r2 = ?r2 \<or> stepLocal MsgCheckQuorum ?r2 = Some r2" "r1 = abortLeaderTransfer r2 \<or> r1 = r2"
      by (simp_all split: if_split_asm)
    have "elect_run m ?r2 r2"
      using r2(1) stepLocal_leader [of MsgCheckQuorum ?r2 r2 m] st by auto
    then have "elect_run m r r2" by (rule run_trans [OF run_quiet [OF q(2)]])
    moreover have "elect_run m r2 r1" using r2(2) run_quiet [OF quiet_upd(10)] by auto
    ultimately show ?thesis by (rule run_trans)
  next
    case False
    then have "r1 = ?r" using r1 by simp
    then show ?thesis using run_quiet [OF q(1)] by simp
  qed
  moreover have "elect_run m r1 r'"
  proof (cases "r' = r1")
    case False
    with r' have b: "rState r1 = StateLeader" "stepLocal MsgBeat (r1\<lparr>rHeartbeatElapsed := 0\<rparr>) = Some r'"
      by (auto split: if_split_asm)
    have "rStep r1 = StepLeader"
      using elect_run_role_ok [OF \<open>elect_run m r r1\<close> assms(2)] b(1) by (simp add: role_ok_def)
    then have "elect_run m (r1\<lparr>rHeartbeatElapsed := 0\<rparr>) r'" using stepLocal_leader [OF b(2)] by simp
    then show ?thesis by (rule run_trans [OF run_quiet [OF quiet_upd(2)]])
  qed simp
  ultimately show ?thesis by (rule run_trans)
qed

section \<open>A cluster\<close>

text \<open>
  Nodes by id, and every message they have queued for sending. A step hands a message to a
  node, ticks it, takes a batch from it, or lets its application write to its storage. The
  messages given to nodes are arbitrary but for one kind: a granted vote is one that was sent,
  and it reaches the node it was sent to. Steps that leave the membership \<open>c\<close> are outside the
  model.
\<close>

record cluster =
  clNodes :: "uint64 \<Rightarrow> raft"
  clNet :: "Message set"

definition clSet :: "uint64 \<Rightarrow> raft \<Rightarrow> cluster \<Rightarrow> cluster" where
  "clSet i r s = s\<lparr>clNodes := (clNodes s)(i := r),
     clNet := clNet s \<union> set (rMsgs r) \<union> set (rMsgsAfterAppend r)\<rparr>"

inductive cluster_step :: "JointConfig \<Rightarrow> cluster \<Rightarrow> cluster \<Rightarrow> bool" for c where
  handle: "i \<noteq> 0 \<Longrightarrow> Step (Some m) (clNodes s i) = Some (e, r) \<Longrightarrow> msg_sane m \<Longrightarrow>
    (grant m \<longrightarrow> m \<in> clNet s \<and> Message_GetTo m = i) \<Longrightarrow> cfgVoters (trkConfig (rTrk r)) = c \<Longrightarrow>
    cluster_step c s (clSet i r s)"
| tick: "i \<noteq> 0 \<Longrightarrow> tick (clNodes s i) = Some r \<Longrightarrow> cluster_step c s (clSet i r s)"
| batch: "i \<noteq> 0 \<Longrightarrow> nRaft rn = clNodes s i \<Longrightarrow> acceptReady rd rn = Some rn' \<Longrightarrow>
    cluster_step c s (clSet i (nRaft rn') s)"
| storage: "i \<noteq> 0 \<Longrightarrow> r = (clNodes s i)\<lparr>rLog := (rLog (clNodes s i))\<lparr>lStorage := ms\<rparr>\<rparr> \<Longrightarrow>
    cluster_step c s (clSet i r s)"

definition cluster_init :: "JointConfig \<Rightarrow> cluster \<Rightarrow> bool" where
  "cluster_init c s \<longleftrightarrow> clNet s = {} \<and> (\<forall>i. i \<noteq> 0 \<longrightarrow> rId (clNodes s i) = i \<and> role_ok (clNodes s i) \<and>
     rState (clNodes s i) = StateFollower \<and> cfgVoters (trkConfig (rTrk (clNodes s i))) = c \<and>
     rMsgs (clNodes s i) = [] \<and> rMsgsAfterAppend (clNodes s i) = [])"

text \<open>The members whose vote for \<open>i\<close> in term \<open>t\<close> is on the way or was delivered.\<close>

definition supporters :: "cluster \<Rightarrow> uint64 \<Rightarrow> uint64 \<Rightarrow> uint64 set" where
  "supporters s i t = {n. \<exists>x \<in> clNet s. ballot x \<and> Message_GetFrom x = n \<and> Message_GetTo x = i \<and> Message_GetTerm x = t}"

definition node_inv :: "JointConfig \<Rightarrow> cluster \<Rightarrow> uint64 \<Rightarrow> bool" where
  "node_inv c s i \<longleftrightarrow> rId (clNodes s i) = i \<and> role_ok (clNodes s i) \<and>
     cfgVoters (trkConfig (rTrk (clNodes s i))) = c \<and>
     set (rMsgs (clNodes s i)) \<union> set (rMsgsAfterAppend (clNodes s i)) \<subseteq> clNet s \<and>
     (\<forall>n. tallied (clNodes s i) (rTerm (clNodes s i)) n \<longrightarrow> n \<in> supporters s i (rTerm (clNodes s i))) \<and>
     (rState (clNodes s i) = StateLeader \<longrightarrow> joint_majority c (supporters s i (rTerm (clNodes s i))))"

definition net_inv :: "cluster \<Rightarrow> bool" where
  "net_inv s \<longleftrightarrow>
     (\<forall>x \<in> clNet s. ballot x \<longrightarrow> Message_GetFrom x \<noteq> 0 \<and> Message_GetTerm x \<noteq> 0 \<and>
        Message_GetTerm x \<le> rTerm (clNodes s (Message_GetFrom x)) \<and>
        (Message_GetTerm x = rTerm (clNodes s (Message_GetFrom x)) \<longrightarrow>
           rVote (clNodes s (Message_GetFrom x)) = Message_GetTo x)) \<and>
     (\<forall>x \<in> clNet s. \<forall>y \<in> clNet s. ballot x \<and> ballot y \<and> Message_GetFrom x = Message_GetFrom y \<and>
        Message_GetTerm x = Message_GetTerm y \<longrightarrow> Message_GetTo x = Message_GetTo y)"

lemma supporters_mono: "clNet s \<subseteq> clNet s' \<Longrightarrow> supporters s i t \<subseteq> supporters s' i t"
  by (auto simp: supporters_def)

lemma node_inv_other:
  assumes "node_inv c s j" and "j \<noteq> i"
  shows "node_inv c (clSet i r s) j"
proof -
  have sub: "supporters s j t \<subseteq> supporters (clSet i r s) j t" for t
    by (rule supporters_mono) (auto simp: clSet_def)
  have eq: "clNodes (clSet i r s) j = clNodes s j" "clNet s \<subseteq> clNet (clSet i r s)"
    using assms(2) by (auto simp: clSet_def)
  show ?thesis
    using assms(1) sub eq(2) jnt.quorum_mono [OF _ sub] unfolding node_inv_def eq(1) by blast
qed

text \<open>What a node may have done to its outgoing messages, taken ones included.\<close>

definition sent_rel :: "raft \<Rightarrow> raft \<Rightarrow> bool" where
  "sent_rel r r' \<longleftrightarrow> rId r' = rId r \<and> rTerm r \<le> rTerm r' \<and>
     (rTerm r' = rTerm r \<and> rVote r \<noteq> 0 \<longrightarrow> rVote r' = rVote r) \<and>
     (\<forall>x \<in> set (rMsgs r'). ballot x \<longrightarrow> x \<in> set (rMsgs r)) \<and>
     (\<exists>out. set (rMsgsAfterAppend r') \<subseteq> set (rMsgsAfterAppend r) \<union> set out \<and> ballots_ok r r' out)"

lemma vote_sent_rel: "vote_rel r r' \<Longrightarrow> sent_rel r r'"
  unfolding vote_rel_def sent_rel_def by (metis set_append subset_refl)

lemma net_inv_update:
  assumes net: "net_inv s" and node: "node_inv c s i" and i: "i \<noteq> 0" and rel: "sent_rel (clNodes s i) r'"
  shows "net_inv (clSet i r' s)"
proof -
  let ?r = "clNodes s i" and ?s = "clSet i r' s"
  obtain out where out: "set (rMsgsAfterAppend r') \<subseteq> set (rMsgsAfterAppend ?r) \<union> set out" "ballots_ok ?r r' out"
    using rel unfolding sent_rel_def by blast
  have id: "rId ?r = i" and sub: "set (rMsgs ?r) \<union> set (rMsgsAfterAppend ?r) \<subseteq> clNet s"
    using node by (auto simp: node_inv_def)
  have t: "rTerm ?r \<le> rTerm r'" "rTerm r' = rTerm ?r \<Longrightarrow> rVote ?r \<noteq> 0 \<Longrightarrow> rVote r' = rVote ?r"
    using rel by (auto simp: sent_rel_def)
  have src: "x \<in> clNet s \<or> x \<in> set out" if "x \<in> clNet ?s" "ballot x" for x
    using that out(1) sub rel by (auto simp: clSet_def sent_rel_def)
  have old: "Message_GetFrom x \<noteq> 0" "Message_GetTerm x \<noteq> 0"
    "Message_GetTerm x \<le> rTerm (clNodes s (Message_GetFrom x))"
    "Message_GetTerm x = rTerm (clNodes s (Message_GetFrom x)) \<Longrightarrow>
       rVote (clNodes s (Message_GetFrom x)) = Message_GetTo x" if "x \<in> clNet s" "ballot x" for x
    using net that unfolding net_inv_def by blast+
  note new = ballots_okD [OF out(2), unfolded id]
  have one: "Message_GetFrom x \<noteq> 0 \<and> Message_GetTerm x \<noteq> 0 \<and>
      Message_GetTerm x \<le> rTerm (clNodes ?s (Message_GetFrom x)) \<and>
      (Message_GetTerm x = rTerm (clNodes ?s (Message_GetFrom x)) \<longrightarrow>
         rVote (clNodes ?s (Message_GetFrom x)) = Message_GetTo x)" if x: "x \<in> clNet ?s" "ballot x" for x
  proof (cases "x \<in> clNet s")
    case True
    note o = old [OF True x(2)]
    show ?thesis
    proof (cases "Message_GetFrom x = i")
      case from_i: True
      have "rVote r' = Message_GetTo x" if eq: "Message_GetTerm x = rTerm r'"
      proof -
        have "rTerm r' = rTerm ?r" "Message_GetTerm x = rTerm ?r" using o(3) t(1) eq from_i by auto
        with o(4) t(2) x(2) from_i show ?thesis by (simp add: ballot_def)
      qed
      with from_i o t(1) show ?thesis by (auto simp: clSet_def)
    next
      case False
      with o show ?thesis by (simp add: clSet_def)
    qed
  next
    case False
    with src x have "x \<in> set out" by blast
    note n = new [OF this x(2)]
    show ?thesis using n i by (simp add: clSet_def)
  qed
  have cross: "Message_GetTo x = Message_GetTo y"
    if "x \<in> clNet s" "y \<in> set out" "ballot x" "ballot y" "Message_GetFrom x = Message_GetFrom y"
      "Message_GetTerm x = Message_GetTerm y" for x y
  proof -
    note o = old [OF that(1,3)] and n = new [OF that(2,4)]
    have "Message_GetTerm x = rTerm ?r" using o(3) n(1,3) that(5,6) by simp
    with o(4) n(1,6) that show ?thesis by (simp add: ballot_def)
  qed
  have two: "Message_GetTo x = Message_GetTo y"
    if xy: "x \<in> clNet ?s" "y \<in> clNet ?s" "ballot x" "ballot y" "Message_GetFrom x = Message_GetFrom y"
      "Message_GetTerm x = Message_GetTerm y" for x y
  proof -
    consider "x \<in> clNet s" "y \<in> clNet s" | "x \<in> clNet s" "y \<in> set out" | "x \<in> set out" "y \<in> clNet s"
      | "x \<in> set out" "y \<in> set out"
      using src [OF xy(1,3)] src [OF xy(2,4)] by blast
    then show ?thesis
    proof cases
      case 1
      then show ?thesis using net xy unfolding net_inv_def by blast
    next
      case 2
      then show ?thesis by (rule cross [OF _ _ xy(3-6)])
    next
      case 3
      then show ?thesis using cross [OF _ _ xy(4,3) xy(5,6) [symmetric]] by simp
    next
      case 4
      then show ?thesis by (rule new(7) [OF _ xy(3) _ xy(4,6)])
    qed
  qed
  show ?thesis
    unfolding net_inv_def using one two by blast
qed

lemma node_inv_update:
  assumes node: "node_inv c s i" and rel: "sent_rel (clNodes s i) r'" and ok: "role_ok r'"
    and cfg: "cfgVoters (trkConfig (rTrk r')) = c"
    and win: "win_rel (\<lambda>n t. n \<in> supporters s i t) (clNodes s i) r'"
  shows "node_inv c (clSet i r' s) i"
proof -
  let ?r = "clNodes s i" and ?s = "clSet i r' s" and ?t = "rTerm r'"
  have sub: "supporters s i t \<subseteq> supporters ?s i t" for t
    by (rule supporters_mono) (auto simp: clSet_def)
  have tal: "n \<in> supporters s i t" if "tallied ?r t n" for n t
    using node that tallied_term [OF that] by (auto simp: node_inv_def)
  have "n \<in> supporters ?s i ?t" if "tallied r' ?t n" for n
    using win that tal sub unfolding win_rel_def by blast
  moreover have "joint_majority c (supporters ?s i ?t)" if "rState r' = StateLeader"
  proof -
    from win that consider "rState ?r = StateLeader" "?t = rTerm ?r"
      | "joint_majority c {n. tallied ?r ?t n \<or> n \<in> supporters s i ?t}"
      using cfg by (auto simp: win_rel_def)
    then have "joint_majority c (supporters s i ?t)"
    proof cases
      case 1
      with node show ?thesis by (simp add: node_inv_def)
    next
      case 2
      then show ?thesis by (rule jnt.quorum_mono) (use tal in auto)
    qed
    then show ?thesis by (rule jnt.quorum_mono [OF _ sub])
  qed
  moreover have "rId r' = i" using rel node by (simp add: sent_rel_def node_inv_def)
  ultimately show ?thesis
    using ok cfg by (auto simp: node_inv_def clSet_def)
qed

definition cluster_inv :: "JointConfig \<Rightarrow> cluster \<Rightarrow> bool" where
  "cluster_inv c s \<longleftrightarrow> net_inv s \<and> (\<forall>i. i \<noteq> 0 \<longrightarrow> node_inv c s i)"

lemma cluster_inv_update:
  assumes "cluster_inv c s" and "i \<noteq> 0" and "sent_rel (clNodes s i) r'" and "role_ok r'"
    and "cfgVoters (trkConfig (rTrk r')) = c" and "win_rel (\<lambda>n t. n \<in> supporters s i t) (clNodes s i) r'"
  shows "cluster_inv c (clSet i r' s)"
  unfolding cluster_inv_def
proof (intro conjI allI impI)
  have node: "node_inv c s i" and net: "net_inv s" using assms(1,2) by (auto simp: cluster_inv_def)
  show "net_inv (clSet i r' s)" by (rule net_inv_update [OF net node assms(2,3)])
  fix j :: uint64 assume "j \<noteq> 0"
  show "node_inv c (clSet i r' s) j"
  proof (cases "j = i")
    case True
    then show ?thesis using node_inv_update [OF node assms(3-6)] by simp
  next
    case False
    then show ?thesis using node_inv_other assms(1) \<open>j \<noteq> 0\<close> by (auto simp: cluster_inv_def)
  qed
qed

lemma cluster_inv_step:
  assumes "cluster_step c s s'" and inv: "cluster_inv c s" and ne: "JointConfig_IDs c \<noteq> {}"
  shows "cluster_inv c s'"
proof -
  have ok: "role_ok (clNodes s i)" "cfgVoters (trkConfig (rTrk (clNodes s i))) = c" "has_voters (clNodes s i)"
    if "i \<noteq> 0" for i
    using inv that ne by (auto simp: cluster_inv_def node_inv_def has_voters_def)
  from assms(1) show ?thesis
  proof cases
    case (handle i m e r)
    have run: "elect_run m (clNodes s i) r" by (rule Step_run) (use handle ok in auto)
    have "n \<in> supporters s i t" if g: "granted_by m n t" for n t
    proof -
      have m: "m \<in> clNet s" "ballot m" "Message_GetFrom m = n" "Message_GetTo m = i"
        using g handle(2,5) by (auto simp: granted_by_def ballot_def)
      moreover have "Message_GetTerm m \<noteq> 0" using inv m(1,2) by (auto simp: cluster_inv_def net_inv_def)
      ultimately show ?thesis using g by (auto simp: supporters_def granted_by_def)
    qed
    then have "win_rel (\<lambda>n t. n \<in> supporters s i t) (clNodes s i) r"
      by (rule win_rel_mono [OF elect_run_win_rel [OF run]])
    then show ?thesis
      unfolding handle(1)
      by (intro cluster_inv_update [OF inv handle(2) vote_sent_rel [OF elect_run_vote_rel [OF run]]
            elect_run_role_ok [OF run ok(1) [OF handle(2)]] handle(6)])
  next
    case (tick i r)
    let ?m = "Msg Message0 []"
    have run: "elect_run ?m (clNodes s i) r" by (rule tick_run) (use tick ok in auto)
    have "win_rel (\<lambda>n t. n \<in> supporters s i t) (clNodes s i) r"
      by (rule win_rel_mono [OF elect_run_win_rel [OF run]]) (simp add: granted_by_def grant_def)
    moreover have "cfgVoters (trkConfig (rTrk r)) = c"
      using elect_run_config [OF run] ok(2) [OF tick(2)] by simp
    ultimately show ?thesis
      unfolding tick(1)
      by (intro cluster_inv_update [OF inv tick(2) vote_sent_rel [OF elect_run_vote_rel [OF run]]
            elect_run_role_ok [OF run ok(1) [OF tick(2)]]])
  next
    case (batch i rn rd rn')
    obtain l rs where r: "nRaft rn' = (clNodes s i)\<lparr>rReadStates := rs, rMsgs := [], rMsgsAfterAppend := [], rLog := l\<rparr>"
      using batch(4) unfolding batch(3) [symmetric] by (rule acceptReady_Some) blast
    show ?thesis
      unfolding batch(1)
    proof (rule cluster_inv_update [OF inv batch(2)])
      show "sent_rel (clNodes s i) (nRaft rn')" unfolding r by (auto simp: sent_rel_def ballots_ok_def intro: exI [of _ "[]"])
      show "role_ok (nRaft rn')" unfolding r using ok(1) [OF batch(2)] by simp
      show "cfgVoters (trkConfig (rTrk (nRaft rn'))) = c" unfolding r using ok(2) [OF batch(2)] by simp
      show "win_rel (\<lambda>n t. n \<in> supporters s i t) (clNodes s i) (nRaft rn')"
        unfolding r by (rule win_rel_same) simp_all
    qed
  next
    case (storage i r ms)
    show ?thesis
      unfolding storage(1)
    proof (rule cluster_inv_update [OF inv storage(2)])
      show "sent_rel (clNodes s i) r"
        unfolding storage(3) by (auto simp: sent_rel_def ballots_ok_def intro: exI [of _ "[]"])
      show "role_ok r" unfolding storage(3) using ok(1) [OF storage(2)] by simp
      show "cfgVoters (trkConfig (rTrk r)) = c" unfolding storage(3) using ok(2) [OF storage(2)] by simp
      show "win_rel (\<lambda>n t. n \<in> supporters s i t) (clNodes s i) r"
        unfolding storage(3) by (rule win_rel_same) simp_all
    qed
  qed
qed

lemma cluster_inv_run:
  assumes "(cluster_step c)\<^sup>*\<^sup>* s0 s" and "cluster_init c s0" and "JointConfig_IDs c \<noteq> {}"
  shows "cluster_inv c s"
  using assms(1)
proof (induction rule: rtranclp_induct)
  case base
  show ?case
    using assms(2) by (auto simp: cluster_inv_def net_inv_def node_inv_def cluster_init_def tallied_def)
next
  case (step s1 s2)
  then show ?case using cluster_inv_step assms(3) by blast
qed

lemma leaders_agree:
  assumes "cluster_inv c s" and "JointConfig_IDs c \<noteq> {}" and "i \<noteq> 0" "j \<noteq> 0"
    and "rState (clNodes s i) = StateLeader" "rState (clNodes s j) = StateLeader"
    and "rTerm (clNodes s i) = rTerm (clNodes s j)"
  shows "i = j"
proof -
  have "joint_majority c (supporters s i (rTerm (clNodes s i)))" "joint_majority c (supporters s j (rTerm (clNodes s j)))"
    using assms by (auto simp: cluster_inv_def node_inv_def)
  then obtain n where "n \<in> supporters s i (rTerm (clNodes s i))" "n \<in> supporters s j (rTerm (clNodes s i))"
    using jnt.quorum_meet [OF assms(2)] assms(7) by fastforce
  then show ?thesis
    using assms(1) unfolding cluster_inv_def net_inv_def supporters_def by fastforce
qed

end
