(* ===== verification/ElectionProps.thy ===== *)
theory ElectionProps
  imports ElectionSafety
begin

text \<open>
  The properties of elections, for one node and for a cluster, with a one-node election as
  their concrete run.
\<close>

section \<open>Starting and reconfiguring a node\<close>

lemma newRaft_role_ok:
  assumes "newRaft c draws = Some r"
  shows "role_ok r \<and> rState r = StateFollower"
proof -
  obtain r0 where "becomeFollower (rTerm r0) None_id r0 = Some r"
    using assms by (auto simp: newRaft_def Let_def elim!: bindE split: prod.split_asm if_split_asm)
  note v = becomeFollower_Some(1) [OF this]
  then show ?thesis using role_view_ok [OF v] by (simp add: role_view_def)
qed

lemma switchToConfig_cases:
  assumes "switchToConfig cfg trk r = Some (cs, r')"
    and "r0 = r\<lparr>rTrk := (rTrk r)\<lparr>trkConfig := cfg, trkProgress := trk\<rparr>,
      rIsLearner := (case trk (rId r) of None \<Rightarrow> False | Some pr \<Rightarrow> prIsLearner pr)\<rparr>"
  obtains (same) "r' = r0"
  | (stepped_down) "becomeFollower (rTerm r) None_id r0 = Some r'"
  | (leading) b r1 where "rState r = StateLeader" "raft_maybeCommit r0 = Some (b, r1)" "quiet r1 r'"
proof (cases "(progressOf (rId r) r0 = None \<or> rIsLearner r0) \<and> rState r = StateLeader \<or>
    rState r \<noteq> StateLeader \<or> length (csVoters (ProgressTracker_ConfState (rTrk r0))) = 0")
  case True
  with assms show ?thesis
    by (auto simp: switchToConfig_def Let_def progressOf_def elim!: bindE split: if_split_asm intro: same stepped_down)
next
  case False
  with assms obtain b r1 r2 where 1: "raft_maybeCommit r0 = Some (b, r1)"
    and 2: "(if b then bcastAppend r1 else raft_Visit (\<lambda>n _ r. if n = rId r then Some r
      else do { (_, r) \<leftarrow> maybeSendAppend n False r; Some r }) r1) = Some r2"
    and 3: "r' = r2 \<or> r' = abortLeaderTransfer r2"
    by (auto simp: switchToConfig_def Let_def progressOf_def elim!: bindE split: if_split_asm)
  have vis: "quiet r1 r2" if "raft_Visit (\<lambda>n _ r. if n = rId r then Some r
      else do { (_, r) \<leftarrow> maybeSendAppend n False r; Some r }) r1 = Some r2"
    by (rule qt.Visit_rule [OF _ that])
      (auto elim!: bindE split: if_split_asm prod.split_asm intro: quiet_refl maybeSendAppend_quiet)
  have "quiet r1 r2" using 2 bcastAppend_quiet vis by (auto split: if_split_asm)
  moreover have "quiet r2 r'" using 3 quiet_upd(10) quiet_refl by auto
  ultimately have "quiet r1 r'" by (rule quiet_trans)
  with leading 1 False show ?thesis by blast
qed

lemma raft_maybeCommit_Some:
  assumes "raft_maybeCommit r = Some (b, r')"
  obtains l where "maybeCommit \<lparr>idTerm = rTerm r, idIndex = ProgressTracker_Committed (rTrk r)\<rparr> (rLog r) = Some (b, l)"
    and "r' = r\<lparr>rLog := l\<rparr>"
  using assms by (auto simp: raft_maybeCommit_def elim!: bindE split: prod.split_asm)

lemma applyConfChange_switch:
  assumes "applyConfChange cc r = Some (cs, r')"
  obtains cfg trk where "switchToConfig cfg trk r = Some (cs, r')"
  using assms by (auto simp: applyConfChange_def Let_def elim!: bindE split: prod.split_asm)

lemma applyConfChange_role_ok:
  assumes "applyConfChange cc r = Some (cs, r')" and "role_ok r"
  shows "role_ok r'"
proof -
  obtain cfg trk where sw: "switchToConfig cfg trk r = Some (cs, r')" using assms(1) by (rule applyConfChange_switch)
  let ?z = "r\<lparr>rTrk := (rTrk r)\<lparr>trkConfig := cfg, trkProgress := trk\<rparr>,
      rIsLearner := (case trk (rId r) of None \<Rightarrow> False | Some pr \<Rightarrow> prIsLearner pr)\<rparr>"
  have ok: "role_ok ?z" using assms(2) by simp
  from sw refl show ?thesis
  proof (cases rule: switchToConfig_cases)
    case same
    with ok show ?thesis by simp
  next
    case stepped_down
    then show ?thesis using role_view_ok [OF becomeFollower_Some(1)] by blast
  next
    case (leading b r1)
    from leading(2) have "role_ok r1" by (rule raft_maybeCommit_Some) (use ok in simp)
    with leading(3) show ?thesis using role_ok_framed [OF quiet_framed] by blast
  qed
qed

lemma applyConfChange_vote_rel:
  assumes "applyConfChange cc r = Some (cs, r')"
  shows "vote_rel r r'"
proof -
  obtain cfg trk where sw: "switchToConfig cfg trk r = Some (cs, r')" using assms by (rule applyConfChange_switch)
  let ?z = "r\<lparr>rTrk := (rTrk r)\<lparr>trkConfig := cfg, trkProgress := trk\<rparr>,
      rIsLearner := (case trk (rId r) of None \<Rightarrow> False | Some pr \<Rightarrow> prIsLearner pr)\<rparr>"
  have z: "vote_rel r ?z" by (simp add: vote_rel_def ballots_ok_def)
  from sw refl show ?thesis
  proof (cases rule: switchToConfig_cases)
    case same
    with z show ?thesis by simp
  next
    case stepped_down
    note v = becomeFollower_Some [OF stepped_down]
    have "vote_rel ?z r'" by (rule vote_rel_role [OF v(1,4,3)]) simp
    with z show ?thesis by (rule vote_rel_trans)
  next
    case (leading b r1)
    from leading(2) have "vote_rel ?z r1" by (rule raft_maybeCommit_Some) (simp add: vote_rel_def ballots_ok_def)
    with z leading(3) show ?thesis using vote_rel_framed [OF quiet_framed] vote_rel_trans by blast
  qed
qed

lemma applyConfChange_lead_ok:
  assumes "applyConfChange cc r = Some (cs, r')" and "lead_ok r"
  shows "lead_ok r'"
proof -
  obtain cfg trk where sw: "switchToConfig cfg trk r = Some (cs, r')" using assms(1) by (rule applyConfChange_switch)
  let ?z = "r\<lparr>rTrk := (rTrk r)\<lparr>trkConfig := cfg, trkProgress := trk\<rparr>,
      rIsLearner := (case trk (rId r) of None \<Rightarrow> False | Some pr \<Rightarrow> prIsLearner pr)\<rparr>"
  have ok: "lead_ok ?z" using assms(2) by simp
  from sw refl show ?thesis
  proof (cases rule: switchToConfig_cases)
    case same
    with ok show ?thesis by simp
  next
    case stepped_down
    then show ?thesis using role_view_lead_ok [OF becomeFollower_Some(1)] by blast
  next
    case (leading b r1)
    from leading(2) have "lead_ok r1" by (rule raft_maybeCommit_Some) (use ok in simp)
    with leading(3) show ?thesis using lead_ok_framed [OF quiet_framed] by blast
  qed
qed

section \<open>Runs of one node\<close>

text \<open>
  What a node does from a state on, until it restarts: it handles messages and ticks, applies
  configuration changes, hands over batches, and its application writes to storage. The list
  holds what it has queued on the way to be sent after its log and vote are stored, batches
  taken in between included. It has a voter in its configuration whenever it may campaign, and
  the messages of a leader carry a term.
\<close>

abbreviation newlyQueued :: "raft \<Rightarrow> raft \<Rightarrow> Message list" where
  "newlyQueued r r' \<equiv> drop (length (rMsgsAfterAppend r)) (rMsgsAfterAppend r')"

inductive vote_run :: "raft \<Rightarrow> raft \<Rightarrow> Message list \<Rightarrow> bool" for r0 where
  start: "vote_run r0 r0 []"
| handle: "vote_run r0 r sent \<Longrightarrow> Step (Some m) r = Some (e, r') \<Longrightarrow> has_voters r \<Longrightarrow> msg_sane m \<Longrightarrow>
    vote_run r0 r' (sent @ newlyQueued r r')"
| clock: "vote_run r0 r sent \<Longrightarrow> tick r = Some r' \<Longrightarrow> has_voters r \<Longrightarrow>
    vote_run r0 r' (sent @ newlyQueued r r')"
| reconfigure: "vote_run r0 r sent \<Longrightarrow> applyConfChange cc r = Some (cs, r') \<Longrightarrow>
    vote_run r0 r' (sent @ newlyQueued r r')"
| hand_over: "vote_run r0 (nRaft rn) sent \<Longrightarrow> acceptReady rd rn = Some rn' \<Longrightarrow>
    vote_run r0 (nRaft rn') sent"
| store: "vote_run r0 r sent \<Longrightarrow> vote_run r0 (r\<lparr>rLog := (rLog r)\<lparr>lStorage := ms\<rparr>\<rparr>) sent"

text \<open>The relation of the votes only looks at the ids, terms, votes and queues.\<close>

lemma ballots_ok_cong:
  assumes "rId r1 = rId r" "rTerm r1 = rTerm r" "rVote r1 = rVote r" "rTerm r1' = rTerm r'" "rVote r1' = rVote r'"
  shows "ballots_ok r1 r1' out = ballots_ok r r' out"
  unfolding ballots_ok_def assms by (rule refl)

lemma vote_rel_sent:
  assumes "vote_rel r r'"
  shows "vote_rel (r\<lparr>rMsgsAfterAppend := s\<rparr>) (r'\<lparr>rMsgsAfterAppend := s @ newlyQueued r r'\<rparr>)"
proof -
  obtain out where out: "rMsgsAfterAppend r' = rMsgsAfterAppend r @ out" "ballots_ok r r' out"
    using assms unfolding vote_rel_def by blast
  have "newlyQueued r r' = out" by (simp add: out(1))
  moreover have "ballots_ok (r\<lparr>rMsgsAfterAppend := s\<rparr>) (r'\<lparr>rMsgsAfterAppend := t\<rparr>) out" for t
    using out(2) by (subst ballots_ok_cong [of _ r _ r']) simp_all
  ultimately show ?thesis using assms by (simp add: vote_rel_def)
qed

lemma vote_run_rel:
  assumes "vote_run r0 r sent" and "role_ok r0"
  shows "role_ok r \<and> vote_rel (r0\<lparr>rMsgsAfterAppend := []\<rparr>) (r\<lparr>rMsgsAfterAppend := sent\<rparr>)"
  using assms(1)
proof (induction rule: vote_run.induct)
  case start
  with assms(2) show ?case by (simp add: vote_rel_refl)
next
  case (handle r sent m e r')
  then have run: "elect_run m r r'" by (intro Step_run) auto
  with handle.IH show ?case
    using elect_run_role_ok vote_rel_trans [OF _ vote_rel_sent [OF elect_run_vote_rel [OF run]]] by blast
next
  case (clock r sent r')
  then have run: "elect_run (Msg Message0 []) r r'" by (intro tick_run) auto
  with clock.IH show ?case
    using elect_run_role_ok vote_rel_trans [OF _ vote_rel_sent [OF elect_run_vote_rel [OF run]]] by blast
next
  case (reconfigure r sent cc cs r')
  then show ?case
    using applyConfChange_role_ok vote_rel_trans [OF _ vote_rel_sent [OF applyConfChange_vote_rel]] by blast
next
  case (hand_over rn sent rd rn')
  obtain l rs where r: "nRaft rn' = (nRaft rn)\<lparr>rReadStates := rs, rMsgs := [], rMsgsAfterAppend := [], rLog := l\<rparr>"
    using hand_over.hyps(2) by (rule acceptReady_Some) blast
  have "vote_rel ((nRaft rn)\<lparr>rMsgsAfterAppend := sent\<rparr>) ((nRaft rn')\<lparr>rMsgsAfterAppend := sent\<rparr>)"
    unfolding r by (simp add: vote_rel_def ballots_ok_def)
  with hand_over.IH show ?case using vote_rel_trans by (auto simp: r)
next
  case (store r sent ms)
  have "vote_rel (r\<lparr>rMsgsAfterAppend := sent\<rparr>)
      (r\<lparr>rLog := (rLog r)\<lparr>lStorage := ms\<rparr>, rMsgsAfterAppend := sent\<rparr>)"
    by (simp add: vote_rel_def ballots_ok_def)
  with store.IH show ?case using vote_rel_trans by auto
qed

section \<open>A concrete election\<close>

definition demoFollower :: raft where
  "demoFollower = \<lparr>rId = 1, rTerm = 0, rVote = 0, rReadStates = [],
     rLog = \<lparr>lStorage = NewMemoryStorage,
       lUnstable = \<lparr>uSnapshot = None, uEntries = [], uOffset = 1, uSnapshotInProgress = False, uOffsetInProgress = 1\<rparr>,
       lCommitted = 0, lApplying = 0, lApplied = 0, lMaxApplyingEntsSize = noLimit, lApplyingEntsSize = 0,
       lApplyingEntsPaused = False\<rparr>,
     rMaxMsgSize = noLimit, rMaxUncommittedSize = noLimit,
     rTrk = (MakeProgressTracker 8 noLimit)\<lparr>
       trkConfig := \<lparr>cfgVoters = (Some {1}, None), cfgAutoLeave = False, cfgLearners = None, cfgLearnersNext = None\<rparr>,
       trkProgress := [1 \<mapsto> \<lparr>prMatch = 0, prNext = 1, prSentCommit = 0, prState = StateProbe, prPendingSnapshot = 0,
         prRecentActive = False, prMsgAppFlowPaused = False, prInflights = NewInflights 8 noLimit, prIsLearner = False\<rparr>]\<rparr>,
     rState = StateFollower, rIsLearner = False, rMsgs = [], rMsgsAfterAppend = [],
     rLead = 0, rLeadTransferee = 0, rPendingConfIndex = 0,
     rDisableConfChangeValidation = False, rUncommittedSize = 0,
     rReadOnly = newReadOnly ReadOnlySafe, rElectionElapsed = 0, rHeartbeatElapsed = 0,
     rCheckQuorum = False, rPreVote = False, rHeartbeatTimeout = 1, rElectionTimeout = 10,
     rRandomizedElectionTimeout = 10, rDisableProposalForwarding = False,
     rStepDownOnRemoval = False, rTick = TickElection, rStep = StepFollower,
     rPendingReadIndexMessages = [], rDraws = []\<rparr>"

definition demoHup :: Message where
  "demoHup = Msg (Message0\<lparr>mType := Some MsgHup\<rparr>) []"

definition demoVote :: Message where
  "demoVote = Msg (Message0\<lparr>mType := Some MsgVoteResp, mTo := Some 1, mFrom := Some 1, mTerm := Some 1\<rparr>) []"

lemma demo_lastIndex: "log_lastIndex (rLog demoFollower) = Some 0"
  by (simp add: demoFollower_def log_lastIndex_def maybeLastIndex_def or_panic_def MS_LastIndex_def MS_lastIndex_def NewMemoryStorage_def go_run getters len64_def zero_defs)

lemma demo_candidate: "becomeCandidate demoFollower =
    Some (demoFollower\<lparr>rTerm := 1, rVote := 1, rState := StateCandidate, rStep := StepCandidate\<rparr>)"
  using demo_lastIndex
  by (simp add: becomeCandidate_def reset_def resetRandomizedElectionTimeout_def Intn_def raft_Visit_def)
    (simp add: demoFollower_def abortLeaderTransfer_def ProgressTracker_ResetVotes_def MakeProgressTracker_def
      None_id_def progressOf_def setProgress_def newReadOnly_def)

definition demoCandidate :: raft where
  "demoCandidate = demoFollower\<lparr>rTerm := 1, rVote := 1, rState := StateCandidate, rStep := StepCandidate, rMsgsAfterAppend := [demoVote]\<rparr>"

lemma demo_parts [simp]:
  "rPreVote demoFollower = False" "rState demoFollower = StateFollower" "rId demoFollower = 1" "rTerm demoFollower = 0"
  "lApplied (rLog demoFollower) = 0" "lCommitted (rLog demoFollower) = 0"
  "trkConfig (rTrk demoFollower) = \<lparr>cfgVoters = (Some {1}, None), cfgAutoLeave = False, cfgLearners = None, cfgLearnersNext = None\<rparr>"
  "rStep demoFollower = StepFollower" "rMsgsAfterAppend demoFollower = []" "rMsgs demoFollower = []" "trkVotes (rTrk demoFollower) = Map.empty"
  "dom (trkProgress (rTrk demoFollower)) = {1}" "rElectionTimeout demoFollower = 10" "rDraws demoFollower = []"
  "rUncommittedSize demoFollower = 0"
  by (simp_all add: demoFollower_def MakeProgressTracker_def)

lemma demo_promotable: "promotable demoFollower"
  by (simp add: promotable_def demoFollower_def progressOf_def hasNextOrInProgressSnapshot_def)

lemma demo_campaign: "Step (Some demoHup) demoFollower = Some (None, demoCandidate)"
proof -
  have "campaign campaignElection demoFollower = Some demoCandidate"
    by (simp add: campaign_def demo_candidate JointConfig_IDs_def send_def None_id_def)
      (simp add: demoCandidate_def demoVote_def upd_msg_def Message0_def)
  then show ?thesis
    by (simp add: Step.simps demoHup_def hup_def demo_promotable hasUnappliedConfChanges_def nil_err_def)
qed

lemma demo_win: "\<exists>r. Step (Some demoVote) demoCandidate = Some (None, r) \<and> rState r = StateLeader \<and> rTerm r = 1"
proof -
  let ?r = "demoCandidate\<lparr>rTrk := ProgressTracker_RecordVote 1 True (rTrk demoCandidate)\<rparr>"
  have 1: "snd (snd (ProgressTracker_TallyVotes (rTrk ?r))) = VoteWon"
    unfolding TallyVotes_result
    by (simp add: demoCandidate_def ProgressTracker_RecordVote_def JointConfig_VoteResult_def MajorityConfig_VoteResult_def
      VoteResultOver_def MajorityConfig_Slice_def Let_def)
  have 2: "log_lastIndex (rLog ?r) = Some 0"  using demo_lastIndex by (simp add: demoCandidate_def)
  let ?u = "\<lparr>uSnapshot = None, uEntries = [Entry0\<lparr>eTerm := Some 1, eIndex := Some 1\<rparr>], uOffset = 1, uSnapshotInProgress = False, uOffsetInProgress = 1\<rparr>"
  have u: "truncateAndAppend [Entry0\<lparr>eTerm := Some 1, eIndex := Some 1\<rparr>] (lUnstable (rLog demoFollower)) = Some ?u"
    by (simp add: demoFollower_def truncateAndAppend_def Let_def getters len64_def go_run)
  have li: "log_lastIndex (rLog demoFollower\<lparr>lUnstable := ?u\<rparr>) = Some 1"
    by (simp add: log_lastIndex_def maybeLastIndex_def len64_def)
  obtain pr where pr: "trkProgress (rTrk demoFollower) 1 = Some pr" by (simp add: demoFollower_def)
  have "\<exists>r1. becomeLeader ?r = Some r1 \<and> bcastAppend r1 = Some r1"
    using 2 u li pr
    by (simp add: becomeLeader_def reset_def resetRandomizedElectionTimeout_def Intn_def raft_Visit_def)
      (simp add: demoCandidate_def progressOf_def setProgress_def abortLeaderTransfer_def ProgressTracker_ResetVotes_def ProgressTracker_RecordVote_def demo_lastIndex appendEntry_def
      increaseUncommittedSize_def log_append_def Let_def send_def None_id_def bcastAppend_def raft_Visit_def)
  then obtain r1 where r1: "becomeLeader ?r = Some r1" "bcastAppend r1 = Some r1" by blast
  have "rState r1 = StateLeader \<and> rTerm r1 = 1"
    using r1(1) by (rule becomeLeader_view) (auto simp: role_view_def framed_def demoCandidate_def)
  moreover have "Step (Some demoVote) demoCandidate = Some (None, r1)"
  proof -
    obtain gr rj where "ProgressTracker_TallyVotes (rTrk ?r) = (gr, rj, VoteWon)" using 1 by (metis prod.collapse)
    then have "poll 1 True demoCandidate = ((gr, rj, VoteWon), ?r)" by (simp add: poll_def)
    with r1 have "stepCandidate demoVote demoCandidate = Some (None, r1)"
      by (simp add: stepCandidate_def demoVote_def demoCandidate_def)
    then show ?thesis
      by (simp add: Step.simps callStep_def) (simp add: demoVote_def demoCandidate_def)
  qed
  ultimately show ?thesis by blast
qed

lemma demo_role_ok: "role_ok demoFollower"
  by (simp add: role_ok_def) (simp add: demoFollower_def)

lemma demo_voters: "has_voters demoFollower" "has_voters demoCandidate"
  by (simp_all add: has_voters_def demoCandidate_def JointConfig_IDs_def)

lemma demo_msgs [simp]:
  "Message_GetType demoHup = MsgHup" "Message_GetType demoVote = MsgVoteResp" "Message_GetTerm demoHup = 0"
  "Message_GetTerm demoVote = 1" "Message_GetFrom demoVote = 1" "Message_GetTo demoVote = 1"
  "\<not> Message_GetReject demoVote"
  by (simp_all add: demoHup_def demoVote_def)

lemma demo_sane: "msg_sane demoHup" "msg_sane demoVote"
  by (simp_all add: msg_sane_def)

section \<open>Properties\<close>

text \<open>
  C1. Election safety: in a cluster of nodes that start as followers of one non-empty membership
  (joint or not), whatever messages they are given, as long as a granted vote is one that was
  sent to the node that gets it, and whatever the order of messages, ticks, batches and storage
  writes, no two different nodes are leaders of the same term.
\<close>

theorem election_safety:
  assumes "cluster_init c s0" and "JointConfig_IDs c \<noteq> {}" and "(cluster_step c)\<^sup>*\<^sup>* s0 s"
    and "i \<noteq> 0" "j \<noteq> 0" and "rState (clNodes s i) = StateLeader" "rState (clNodes s j) = StateLeader"
    and "rTerm (clNodes s i) = rTerm (clNodes s j)"
  shows "i = j"
  by (rule leaders_agree [OF cluster_inv_run [OF assms(3,1,2)] assms(2,4-8)])

definition demoCluster :: cluster where
  "demoCluster = \<lparr>clNodes = (\<lambda>i. demoFollower\<lparr>rId := i\<rparr>), clNet = {}\<rparr>"

lemma demo_init: "cluster_init (Some {1}, None) demoCluster"
proof -
  have "role_ok (demoFollower\<lparr>rId := i\<rparr>) = role_ok demoFollower" for i
    by (rule role_ok_cong) simp_all
  then show ?thesis using demo_role_ok by (simp add: cluster_init_def demoCluster_def)
qed

lemma demo_run:
  "\<exists>s. (cluster_step (Some {1}, None))\<^sup>*\<^sup>* demoCluster s \<and> rState (clNodes s 1) = StateLeader \<and> rTerm (clNodes s 1) = 1"
proof -
  let ?c = "(Some {1}, None) :: JointConfig"
  obtain r where r: "Step (Some demoVote) demoCandidate = Some (None, r)" "rState r = StateLeader" "rTerm r = 1"
    using demo_win by blast
  let ?s1 = "clSet 1 demoCandidate demoCluster" and ?s2 = "clSet 1 r (clSet 1 demoCandidate demoCluster)"
  have n: "clNodes demoCluster 1 = demoFollower" "clNodes ?s1 1 = demoCandidate"
    by (simp_all add: demoCluster_def clSet_def demoFollower_def)
  have "trkConfig (rTrk r) = trkConfig (rTrk demoCandidate)"
    using Step_run [OF r(1) _ demo_voters(2) demo_sane(2)] demo_role_ok elect_run_config
      elect_run_role_ok [OF Step_run [OF demo_campaign demo_role_ok demo_voters(1) demo_sane(1)] demo_role_ok]
    by simp
  then have c: "cfgVoters (trkConfig (rTrk demoCandidate)) = ?c" "cfgVoters (trkConfig (rTrk r)) = ?c"
    by (simp_all add: demoCandidate_def)
  have "cluster_step ?c demoCluster ?s1"
    by (rule cluster_step.handle [of 1 demoHup _ None])
      (simp_all add: n demo_campaign demo_sane c(1) grant_def)
  moreover have "cluster_step ?c ?s1 ?s2"
    by (rule cluster_step.handle [of 1 demoVote _ None])
      (simp_all add: n r(1) demo_sane c(2), simp add: clSet_def demoCandidate_def)
  ultimately have "(cluster_step ?c)\<^sup>*\<^sup>* demoCluster ?s2" by simp
  moreover have "clNodes ?s2 1 = r" by (simp add: clSet_def)
  ultimately show ?thesis using r(2,3) by metis
qed

theorem election_safety_witness:
  "\<exists>s. (cluster_step (Some {1}, None))\<^sup>*\<^sup>* demoCluster s \<and>
     {j. j \<noteq> 0 \<and> rState (clNodes s j) = StateLeader \<and> rTerm (clNodes s j) = 1} = {1}"
proof -
  obtain s where s: "(cluster_step (Some {1}, None))\<^sup>*\<^sup>* demoCluster s" "rState (clNodes s 1) = StateLeader"
    "rTerm (clNodes s 1) = 1"
    using demo_run by blast
  have "j = 1" if "j \<noteq> 0" "rState (clNodes s j) = StateLeader" "rTerm (clNodes s j) = 1" for j
    by (rule election_safety [OF demo_init _ s(1)]) (use that s in \<open>simp_all add: JointConfig_IDs_def\<close>)
  with s show ?thesis by auto
qed

text \<open>
  C2. A node votes once in a term. Over any run of the node, from any state whose handlers are
  those of its role, through any sequence of messages, ticks, configuration changes, batches
  and storage writes up to a restart, with a voter in its configuration when it handles a message
  or a tick and leader messages that carry a term: its term never falls, and a vote it has cast stays as long
  as the term does. Every vote it grants on the way carries its own id and a term between the
  first and the last one; a grant in the present term is to the candidate it has recorded, a
  grant in the term it started in is to the one it had recorded then, and two grants in one
  term, however far apart, are to the same candidate. No grant leaves before the vote is stored:
  none is queued with the messages that need not wait.
\<close>

theorem one_vote_per_term:
  assumes "vote_run r0 r sent" and "role_ok r0"
  shows "rId r = rId r0 \<and> rTerm r0 \<le> rTerm r \<and>
    (rTerm r = rTerm r0 \<and> rVote r0 \<noteq> 0 \<longrightarrow> rVote r = rVote r0) \<and>
    (\<forall>x \<in> set sent. ballot x \<longrightarrow> Message_GetFrom x = rId r0 \<and>
      rTerm r0 \<le> Message_GetTerm x \<and> Message_GetTerm x \<le> rTerm r \<and>
      (Message_GetTerm x = rTerm r \<longrightarrow> rVote r = Message_GetTo x) \<and>
      (Message_GetTerm x = rTerm r0 \<and> rVote r0 \<noteq> 0 \<longrightarrow> Message_GetTo x = rVote r0)) \<and>
    (\<forall>x \<in> set sent. \<forall>y \<in> set sent.
      ballot x \<and> ballot y \<and> Message_GetTerm x = Message_GetTerm y \<longrightarrow>
      Message_GetTo x = Message_GetTo y) \<and>
    (\<forall>x \<in> set (rMsgs r). ballot x \<longrightarrow> x \<in> set (rMsgs r0))"
proof -
  have rel: "vote_rel (r0\<lparr>rMsgsAfterAppend := []\<rparr>) (r\<lparr>rMsgsAfterAppend := sent\<rparr>)"
    using vote_run_rel [OF assms] ..
  then have "ballots_ok (r0\<lparr>rMsgsAfterAppend := []\<rparr>) (r\<lparr>rMsgsAfterAppend := sent\<rparr>) sent"
    by (simp add: vote_rel_def)
  then have b: "ballots_ok r0 r sent" by (subst (asm) ballots_ok_cong [of _ r0 _ r]) simp_all
  have "\<forall>x \<in> set sent. ballot x \<longrightarrow> Message_GetFrom x = rId r0 \<and>
      rTerm r0 \<le> Message_GetTerm x \<and> Message_GetTerm x \<le> rTerm r \<and>
      (Message_GetTerm x = rTerm r \<longrightarrow> rVote r = Message_GetTo x) \<and>
      (Message_GetTerm x = rTerm r0 \<and> rVote r0 \<noteq> 0 \<longrightarrow> Message_GetTo x = rVote r0)"
    and "\<forall>x \<in> set sent. \<forall>y \<in> set sent.
      ballot x \<and> ballot y \<and> Message_GetTerm x = Message_GetTerm y \<longrightarrow>
      Message_GetTo x = Message_GetTo y"
    using b unfolding ballots_ok_def by blast+
  moreover have "rId r = rId r0" "rTerm r0 \<le> rTerm r" "rTerm r = rTerm r0 \<and> rVote r0 \<noteq> 0 \<longrightarrow> rVote r = rVote r0"
    "\<forall>x \<in> set (rMsgs r). ballot x \<longrightarrow> x \<in> set (rMsgs r0)"
    using rel by (simp_all add: vote_rel_def)
  ultimately show ?thesis by blast
qed

text \<open>The only voter campaigns, then gets its own vote and leads: its vote of the term stays.\<close>

theorem one_vote_per_term_witness:
  "\<exists>r sent. vote_run demoFollower r sent \<and> demoVote \<in> set sent \<and> rState r = StateLeader \<and>
     rTerm r = 1 \<and> rVote r = Message_GetTo demoVote"
proof -
  obtain r where r: "Step (Some demoVote) demoCandidate = Some (None, r)" "rState r = StateLeader" "rTerm r = 1"
    using demo_win by blast
  have q: "newlyQueued demoFollower demoCandidate = [demoVote]" by (simp add: demoCandidate_def)
  have "vote_run demoFollower demoCandidate ([] @ newlyQueued demoFollower demoCandidate)"
    by (rule vote_run.handle [OF vote_run.start demo_campaign demo_voters(1) demo_sane(1)])
  then have "vote_run demoFollower demoCandidate [demoVote]" unfolding q append_Nil .
  then have run: "vote_run demoFollower r ([demoVote] @ newlyQueued demoCandidate r)"
    by (rule vote_run.handle [OF _ r(1) demo_voters(2) demo_sane(2)])
  have "ballot demoVote" by (simp add: ballot_def grant_def)
  then have "rVote r = Message_GetTo demoVote"
    using one_vote_per_term [OF run demo_role_ok] r(3) by simp
  with run r(2,3) show ?thesis by fastforce
qed

text \<open>
  C6. A node becomes leader only with a quorum: if it is leader after handling a message, it
  was leader of the same term and membership before, or the members whose vote of that term it
  had tallied as a candidate, together with the sender of the message if that grants the vote,
  are a majority of both halves of its membership.
\<close>

theorem leader_needs_quorum:
  assumes "Step (Some m) r = Some (e, r')" and "role_ok r" and "has_voters r" and "msg_sane m"
    and "rState r' = StateLeader"
  shows "rState r = StateLeader \<and> rTerm r' = rTerm r \<and> trkConfig (rTrk r') = trkConfig (rTrk r) \<or>
    joint_majority (cfgVoters (trkConfig (rTrk r')))
      {n. rState r = StateCandidate \<and> rTerm r = rTerm r' \<and> trkVotes (rTrk r) n = Some True \<or>
          Message_GetType m = MsgVoteResp \<and> \<not> Message_GetReject m \<and> Message_GetFrom m = n}"
proof -
  have "win_rel (granted_by m) r r'" by (rule elect_run_win_rel [OF Step_run [OF assms(1-4)]])
  with assms(5) consider
      "rState r = StateLeader \<and> rTerm r' = rTerm r \<and> trkConfig (rTrk r') = trkConfig (rTrk r)"
    | "joint_majority (cfgVoters (trkConfig (rTrk r'))) {n. tallied r (rTerm r') n \<or> granted_by m n (rTerm r')}"
    by (auto simp: win_rel_def)
  then show ?thesis
  proof cases
    case 2
    then have "joint_majority (cfgVoters (trkConfig (rTrk r')))
      {n. rState r = StateCandidate \<and> rTerm r = rTerm r' \<and> trkVotes (rTrk r) n = Some True \<or>
          Message_GetType m = MsgVoteResp \<and> \<not> Message_GetReject m \<and> Message_GetFrom m = n}"
      by (rule jnt.quorum_mono) (auto simp: tallied_def granted_by_def grant_def)
    then show ?thesis by blast
  qed blast
qed

theorem leader_needs_quorum_witness:
  "\<exists>r. Step (Some demoVote) demoCandidate = Some (None, r) \<and>
     joint_majority (cfgVoters (trkConfig (rTrk r))) {1}"
proof -
  obtain r where r: "Step (Some demoVote) demoCandidate = Some (None, r)" "rState r = StateLeader"
    using demo_win by blast
  have ok: "role_ok demoCandidate"
    by (rule elect_run_role_ok [OF Step_run [OF demo_campaign demo_role_ok demo_voters(1) demo_sane(1)] demo_role_ok])
  have st: "rState demoCandidate \<noteq> StateLeader" "trkVotes (rTrk demoCandidate) n \<noteq> Some True" for n
    by (simp_all add: demoCandidate_def)
  have "joint_majority (cfgVoters (trkConfig (rTrk r)))
      {n. rState demoCandidate = StateCandidate \<and> rTerm demoCandidate = rTerm r \<and>
          trkVotes (rTrk demoCandidate) n = Some True \<or>
          Message_GetType demoVote = MsgVoteResp \<and> \<not> Message_GetReject demoVote \<and> Message_GetFrom demoVote = n}"
    using leader_needs_quorum [OF r(1) ok demo_voters(2) demo_sane(2) r(2)] st(1) by blast
  then have "joint_majority (cfgVoters (trkConfig (rTrk r))) {1}"
    by (rule jnt.quorum_mono) (use st(2) in auto)
  with r(1) show ?thesis by blast
qed



end
