(* ===== verification/NodeLog.thy ===== *)
theory NodeLog
  imports ElectionProps
begin

text \<open>
  The log of a running node. Every call that a raft node makes while it handles a message, a
  clock tick or a configuration change is a run of the log's state machine \<open>log_step\<close>, so the
  safety of the log carries over to the node: what it has committed never changes. The
  commit rule of the leader is here too: it commits an entry of its own term that a quorum
  has acknowledged.
\<close>

section \<open>Runs of the log\<close>

definition log_run :: "raft \<Rightarrow> raft \<Rightarrow> bool" where
  "log_run r r' \<longleftrightarrow> log_step\<^sup>*\<^sup>* (rLog r) (rLog r')"

interpretation lr: node_preorder log_run
  by unfold_locales (auto simp: log_run_def)

lemma same_log_run: "same_log l l' \<Longrightarrow> log_step\<^sup>*\<^sup>* l l'"
  using log_step.read_snapshot by (auto simp: same_log_def snapRead_def)

lemma quiet_log_run: "quiet r r' \<Longrightarrow> log_run r r'"
  by (simp add: log_run_def same_log_run quiet_log)

lemma log_run_one: "log_step (rLog r) l \<Longrightarrow> log_run r (r\<lparr>rLog := l\<rparr>)"
  by (simp add: log_run_def)

lemma log_run_eq: "rLog r' = rLog r \<Longrightarrow> log_run r r'"
  by (simp add: log_run_def)

text \<open>A change of the log between two quiet parts.\<close>

lemma log_run_parts:
  assumes "quiet r r1" and "log_step (rLog r1) l" and "quiet (r1\<lparr>rLog := l\<rparr>) r'"
  shows "log_run r r'"
  using quiet_log_run [OF assms(1)] log_run_one [OF assms(2)] quiet_log_run [OF assms(3)] lr.R_trans by blast

lemma same_log_view:
  assumes "same_log l l'"
  shows "logEnts l' = logEnts l" "logBase l' = logBase l" "logBaseTerm l' = logBaseTerm l"
    "lCommitted l' = lCommitted l" "lUnstable l' = lUnstable l" "lApplied l' = lApplied l"
    "log_ok l \<Longrightarrow> log_ok l'" "persisted l' n = persisted l n"
proof -
  obtain ms' where l': "l' = l\<lparr>lStorage := ms'\<rparr>" and e: "msEnts ms' = msEnts (lStorage l)"
    using assms by (cases l) (auto simp: same_log_def snapRead_def log_snapshot_def MS_Snapshot_def Let_def split: option.splits)
  have v: "msBase ms' = msBase (lStorage l)" "msBaseTerm ms' = msBaseTerm (lStorage l)"
    "msLog ms' = msLog (lStorage l)"
    using e by (simp_all add: ms_view)
  show 1: "logEnts l' = logEnts l" "logBase l' = logBase l" "logBaseTerm l' = logBaseTerm l"
    "lCommitted l' = lCommitted l" "lUnstable l' = lUnstable l" "lApplied l' = lApplied l"
    by (simp_all add: l' logBase_def logBaseTerm_def logEnts_def stableEnts_def v cong: option.case_cong)
  show "log_ok l'" if "log_ok l" using storage_meta_step [OF that e] l' by simp
  show "persisted l' n = persisted l n" unfolding persisted_def 1 by (simp add: l' v)
qed

section \<open>What is asked of a message\<close>

text \<open>
  A write that the storage thread reports as done has been done: the entries and the snapshot
  it names, as far as they still are in the unstable tail, are in storage.
\<close>

definition write_done :: "Message \<Rightarrow> raftLog \<Rightarrow> bool" where
  "write_done m l \<longleftrightarrow>
     (let x = \<lparr>idTerm = Message_GetLogTerm m, idIndex = Message_GetIndex m\<rparr>;
          held = Message_GetIndex m \<noteq> 0 \<and> holds_entry (lUnstable l) x
      in case uSnapshot (lUnstable l) of
           None \<Rightarrow> held \<longrightarrow> persisted l (unat (Message_GetIndex m))
         | Some s \<Rightarrow>
             if Message_GetSnapshot m \<noteq> None \<and> snapIndex (Message_GetSnapshot m) = snapIndex (Some s)
             then persisted l (if held then unat (Message_GetIndex m) else logBase l)
             else \<not> held)"

text \<open>
  Appended entries are consecutive and the log has room for them and one more; a snapshot's index can be followed by another; writes reported as done are.
\<close>

definition log_room :: "nat \<Rightarrow> raftLog \<Rightarrow> bool" where
  "log_room n l \<longleftrightarrow> length (logEnts l) + n < 2 ^ 63 \<and> Suc (logLast l + n) < 2 ^ 64"

definition msg_fits :: "Message \<Rightarrow> raftLog \<Rightarrow> bool" where
  "msg_fits m l \<longleftrightarrow> log_room (Suc (length (Message_GetEntries m))) l \<and>
     (Message_GetType m = MsgApp \<longrightarrow> contig (Suc (unat (Message_GetIndex m))) (Message_GetEntries m)) \<and>
     (Message_GetType m = MsgSnap \<longrightarrow> snapIndex (Message_GetSnapshot m) \<noteq> MaxUint64) \<and>
     (Message_GetType m = MsgStorageAppendResp \<longrightarrow> write_done m l)"

lemma msg_fits_same: "same_log l l' \<Longrightarrow> msg_fits m l' = msg_fits m l"
  by (simp add: msg_fits_def log_room_def write_done_def same_log_view cong: option.case_cong)

lemma log_room_le: "log_room n l \<Longrightarrow> k \<le> n \<Longrightarrow> log_room k l"
  by (simp add: log_room_def)

section \<open>The leader's own entries\<close>

text \<open>The entries a leader stamps follow its log.\<close>

lemma stamped_contig:
  assumes "log_ok l" and "log_lastIndex l = Some li" and "log_room (length es) l"
  shows "contig (Suc (unat li))
    (map (\<lambda>(i, e). e\<lparr>eTerm := Some t, eIndex := Some (li + 1 + of_nat i)\<rparr>) (List.enumerate 0 es))"
proof -
  have li: "li = of_nat (logLast l)" using log_lastIndex_eq [OF log_okD [OF assms(1)]] assms(2) by simp
  have room: "Suc (logLast l + length es) < 2 ^ 64" using assms(3) by (simp add: log_room_def)
  have u: "unat li = logLast l" using room unat_of_nat64 [of "logLast l"] by (simp add: li)
  have "unat (li + 1 + of_nat k) = Suc (logLast l + k)" if "k < length es" for k
    using room that unat_of_nat64 [of "Suc (logLast l + k)"] by (simp add: li ac_simps)
  with room u show ?thesis
    by (auto simp: contig_def Entry_GetIndex_def nth_enumerate_eq)
qed

lemma appendEntry_log_run:
  assumes "appendEntry es r = Some (ok, r')" and "log_ok (rLog r)" and "log_room (length es) (rLog r)"
  shows "log_run r r'"
  using assms(1)
proof (cases rule: appendEntry_parts)
  case refused
  then show ?thesis by (simp add: lr.R_refl)
next
  case (appended li l i r1)
  let ?es = "map (\<lambda>(i, e). e\<lparr>eTerm := Some (rTerm r), eIndex := Some (li + 1 + of_nat i)\<rparr>) (List.enumerate 0 es)"
  show ?thesis
  proof (cases "es = []")
    case True
    with appended have "l = rLog r1" by (auto simp: log_append_def bind_Some_conv)
    with appended(6) have "quiet r1 r'" by simp
    with appended(3) show ?thesis by (intro quiet_log_run) (rule quiet_trans)
  next
    case False
    have "log_step (rLog r) l"
      by (rule log_step.append [OF stamped_contig [OF assms(2) appended(2) assms(3)] _ _ appended(5)])
        (use False assms(3) in \<open>auto simp: log_room_def dest: arg_cong [of _ _ length]\<close>)
    with appended show ?thesis by (intro log_run_parts [OF _ _ appended(6)]) auto
  qed
qed

lemma screenProposals_length: "screenProposals i es r = Some (es', r') \<Longrightarrow> length es' = length es"
  by (induction es arbitrary: i r es') (auto elim!: bindE split: prod.split_asm)

lemma log_ok_quiet: "quiet r r' \<Longrightarrow> log_ok (rLog r) \<Longrightarrow> log_ok (rLog r')"
  by (rule same_log_view(7)) (rule quiet_log)

lemma log_room_quiet: "quiet r r' \<Longrightarrow> log_room n (rLog r') = log_room n (rLog r)"
  by (simp add: log_room_def same_log_view [OF quiet_log])

lemma stepLeaderProp_log_run:
  assumes "stepLeaderProp m r = Some (e, r')" and "log_ok (rLog r)" and "log_room (length (Message_GetEntries m)) (rLog r)"
  shows "log_run r r'"
proof (cases "r' = r")
  case False
  with assms obtain es r1 ok r2 where 1: "screenProposals 0 (Message_GetEntries m) r = Some (es, r1)"
    and 2: "appendEntry es r1 = Some (ok, r2)" and 3: "r' = r2 \<or> bcastAppend r2 = Some r'"
    by (auto simp: stepLeaderProp_def elim!: bindE split: if_split_asm prod.split_asm)
  note q = screenProposals_quiet [OF 1]
  have "log_run r1 r2"
    by (rule appendEntry_log_run [OF 2 log_ok_quiet [OF q assms(2)]])
      (use assms(3) log_room_quiet [OF q] screenProposals_length [OF 1] in simp)
  moreover have "log_run r2 r'" using 3 bcastAppend_quiet quiet_log_run lr.R_refl by blast
  ultimately show ?thesis using quiet_log_run [OF q] lr.R_trans by blast
qed (simp add: lr.R_refl)

lemma becomeLeader_log_run:
  assumes "becomeLeader r = Some r'" and "log_ok (rLog r)" and "log_room 1 (rLog r)"
  shows "log_run r r'"
  using assms(1)
proof (rule becomeLeader_Some)
  fix r1 r2
  assume r2: "rLog r2 = rLog r" "appendEntry [Entry0] r2 = Some (True, r')"
  have "log_run r2 r'" by (rule appendEntry_log_run [OF r2(2)]) (use assms r2(1) in simp_all)
  with r2(1) show ?thesis by (simp add: log_run_def)
qed

section \<open>Followers and candidates\<close>

lemma log_run_send: "send x r = Some r' \<Longrightarrow> log_run r r'"
  by (simp add: log_run_eq send_parts(8))

lemma log_run_then_send: "log_step (rLog r) l \<Longrightarrow> send x (r\<lparr>rLog := l\<rparr>) = Some r' \<Longrightarrow> log_run r r'"
  using log_run_one log_run_send lr.R_trans by blast

lemma handleAppendEntries_log_run:
  assumes "handleAppendEntries m r = Some r'" and "msg_fits m (rLog r)" and "Message_GetType m = MsgApp"
  shows "log_run r r'"
proof (cases "Message_GetIndex m < lCommitted (rLog r)")
  case True
  with assms(1) show ?thesis
    by (auto simp: handleAppendEntries_def logSliceFromMsgApp_def Let_def intro: log_run_send)
next
  case False
  then have "\<not> idIndex (lsPrev (logSliceFromMsgApp m)) < lCommitted (rLog r)" by (simp add: logSliceFromMsgApp_def)
  with assms(1) obtain res l x where ma: "maybeAppend (logSliceFromMsgApp m) (Message_GetCommit m) (rLog r) = Some (res, l)"
    and x: "send x (r\<lparr>rLog := l\<rparr>) = Some r'"
    by (auto simp: handleAppendEntries_def Let_def elim!: bindE split: prod.split_asm option.split_asm)
  have "appendable (logSliceFromMsgApp m) (rLog r)"
    using assms(2,3) by (simp add: appendable_def logSliceFromMsgApp_def msg_fits_def log_room_def)
  then show ?thesis using log_run_then_send [OF log_step.maybe_append [OF _ ma] x] by blast
qed

lemma handleHeartbeat_log_run: "handleHeartbeat m r = Some r' \<Longrightarrow> log_run r r'"
  by (auto simp: handleHeartbeat_def elim!: bindE intro: log_run_then_send log_step.commit_to)

lemma EnsureSnapshot_index [simp]: "snapIndex (Some (EnsureSnapshot s)) = snapIndex s"
  by (auto simp: getters EnsureSnapshot_def EnsureSnapshotMetadata_def zero_defs Let_def split: option.splits)

lemma handleSnapshot_log_run:
  assumes "handleSnapshot m r = Some r'" and "msg_fits m (rLog r)" and "Message_GetType m = MsgSnap"
  shows "log_run r r'"
proof -
  obtain b r1 y where r1: "raft_restore (EnsureSnapshot (Message_GetSnapshot m)) r = Some (b, r1)"
    and y: "send y r1 = Some r'"
    using assms(1) by (auto simp: handleSnapshot_def Let_def elim!: bindE split: if_split_asm)
  have "log_run r r1"
    using r1
  proof (cases rule: raft_restore_cases)
    case ignored
    then show ?thesis by (simp add: lr.R_refl)
  next
    case stepped_down
    then show ?thesis using becomeFollower_Some(2) by (simp add: log_run_eq)
  next
    case (forwarded l)
    then show ?thesis using log_run_one log_step.commit_to by simp
  next
    case (restored s' trk lrn)
    then have "log_step (rLog r) (log_restore s' (rLog r))"
      using assms(2,3) by (intro log_step.restore) (simp_all add: msg_fits_def)
    with restored show ?thesis by (simp add: log_run_def)
  qed
  with y show ?thesis using log_run_send lr.R_trans by blast
qed

lemma handlers_log_run:
  assumes "handleAppendEntries m r = Some r' \<and> Message_GetType m = MsgApp \<or> handleHeartbeat m r = Some r' \<or>
    handleSnapshot m r = Some r' \<and> Message_GetType m = MsgSnap" and "msg_fits m (rLog r)"
  shows "log_run r r'"
  using assms handleAppendEntries_log_run handleHeartbeat_log_run handleSnapshot_log_run by blast

lemma campaignIds_log: "campaignIds ct vm t ns r = Some r' \<Longrightarrow> rLog r' = rLog r"
proof (induction ns arbitrary: r)
  case (Cons n ns)
  then obtain x r1 where "send x r = Some r1" "campaignIds ct vm t ns r1 = Some r'"
    by (auto elim!: bindE simp: Let_def split: if_split_asm)
  with Cons.IH show ?case by (simp add: send_parts(8))
qed simp

lemma campaign_log: "campaign ct r = Some r' \<Longrightarrow> rLog r' = rLog r"
  by (auto simp: campaign_def elim!: bindE split: if_split_asm
      dest!: campaignIds_log becomePreCandidate_Some(1) becomeCandidate_Some(2))

lemma hup_log: "hup ct r = Some r' \<Longrightarrow> rLog r' = rLog r"
  by (auto simp: hup_def elim!: bindE split: if_split_asm dest!: campaign_log)

lemma stepFollower_log_run:
  assumes "stepFollower m r = Some (e, r')" and "msg_fits m (rLog r)"
  shows "log_run r r'"
proof -
  let ?r = "r\<lparr>rElectionElapsed := 0, rLead := Message_GetFrom m\<rparr>"
  have "log_run r r'" if "handleAppendEntries m ?r = Some r' \<and> Message_GetType m = MsgApp \<or> handleHeartbeat m ?r = Some r' \<or>
      handleSnapshot m ?r = Some r' \<and> Message_GetType m = MsgSnap"
    using handlers_log_run [OF that] assms(2) by (simp add: log_run_def)
  moreover have "log_run r r'" if "forwardToLead m r = Some r'"
    using that by (auto simp: forwardToLead_def intro: log_run_send)
  moreover have "log_run r r'" if "hup campaignTransfer r = Some r'"
    using hup_log [OF that] by (simp add: log_run_eq)
  ultimately show ?thesis
    using assms(1) unfolding stepFollower_def by (auto split: if_split_asm intro: log_run_eq)
qed

lemma stepCandidate_log_run:
  assumes run: "stepCandidate m r = Some (e, r')" and fits: "msg_fits m (rLog r)" and ok: "log_ok (rLog r)"
  shows "log_run r r'"
proof -
  let ?r1 = "r\<lparr>rTrk := ProgressTracker_RecordVote (Message_GetFrom m) (\<not> Message_GetReject m) (rTrk r)\<rparr>"
  have room: "log_room 1 (rLog ?r1)" using fits log_room_le by (auto simp: msg_fits_def)
  have foll: "log_run r r'" if "becomeFollower t lead r = Some r1"
    "handleAppendEntries m r1 = Some r' \<and> Message_GetType m = MsgApp \<or> handleHeartbeat m r1 = Some r' \<or>
      handleSnapshot m r1 = Some r' \<and> Message_GetType m = MsgSnap" for t lead r1
    using handlers_log_run [OF that(2)] becomeFollower_Some(2) [OF that(1)] fits by (simp add: log_run_def)
  have lead: "log_run ?r1 r'" if "becomeLeader ?r1 = Some r2" "bcastAppend r2 = Some r'" for r2
    using becomeLeader_log_run [OF that(1) _ room] ok quiet_log_run [OF bcastAppend_quiet [OF that(2)]] lr.R_trans
    by simp
  have vote: "log_run r r'" if p: "poll (Message_GetFrom m) (\<not> Message_GetReject m) r = ((gr, rj, res), r1)"
    and c: "(case res of
          VoteWon \<Rightarrow> (if rState r1 = StatePreCandidate then campaign campaignElection r1
            else do { r \<leftarrow> becomeLeader r1; bcastAppend r })
        | VoteLost \<Rightarrow> becomeFollower (rTerm r1) None_id r1
        | VotePending \<Rightarrow> Some r1) = Some r'" for gr rj res r1
  proof -
    have r1: "r1 = ?r1" using p by (simp add: poll_result)
    have "log_run ?r1 r'"
      using c unfolding r1
      by (auto elim!: bindE split: VoteResult.split_asm if_split_asm dest!: campaign_log becomeFollower_Some(2)
          intro: log_run_eq lead)
    then show ?thesis by (simp add: log_run_def)
  qed
  show ?thesis
    using run unfolding stepCandidate_def Let_def
    by (auto elim!: bindE split: if_split_asm prod.split_asm intro: foll vote lr.R_refl)
qed

section \<open>Leaders, votes and acknowledgements\<close>

lemma leaderAppResp_log_run:
  assumes "leaderAppResp m pr r = Some r'"
  shows "log_run r r'"
proof -
  have "leaderAppReject m (pr\<lparr>prRecentActive := True\<rparr>) r = Some r' \<or>
      leaderAppAccept m (pr\<lparr>prRecentActive := True\<rparr>) r = Some r'"
    using assms by (simp add: leaderAppResp_def Let_def split: if_split_asm)
  then show ?thesis
  proof
    assume "leaderAppAccept m (pr\<lparr>prRecentActive := True\<rparr>) r = Some r'"
    then show ?thesis
      by (cases rule: leaderAppAccept_parts) (blast intro: quiet_log_run log_run_parts log_step.maybe_commit)+
  qed (simp add: leaderAppReject_quiet quiet_log_run)
qed

lemma stepLeaderCheckQuorum_log_run: "stepLeaderCheckQuorum r = Some r' \<Longrightarrow> log_run r r'"
  by (erule stepLeaderCheckQuorum_parts) (metis quiet_log_run log_run_eq lr.R_trans becomeFollower_Some(2))

lemma stepLeader_log_run:
  assumes "stepLeader m r = Some (e, r')" and "log_ok (rLog r)" and "log_room (length (Message_GetEntries m)) (rLog r)"
  shows "log_run r r'"
  using assms(1) unfolding stepLeader_def
  by (auto split: if_split_asm option.split_asm intro: stepLeaderProp_log_run [OF _ assms(2,3)]
      intro: lr.R_refl quiet_log_run quiet_intros leaderAppResp_log_run stepLeaderCheckQuorum_log_run)

lemma stepVote_log:
  assumes "stepVote m r = Some r'"
  shows "rLog r' = rLog r"
proof -
  obtain x r1 where "send x r = Some r1" "rLog r' = rLog r1"
    using assms by (auto simp: stepVote_def Let_def elim!: bindE split: if_split_asm)
  then show ?thesis using send_parts(8) by metis
qed

lemma callStep_log_run:
  assumes "callStep m r = Some (e, r')" and "msg_fits m (rLog r)" and "log_ok (rLog r)"
  shows "log_run r r'"
proof -
  have "log_room (length (Message_GetEntries m)) (rLog r)" using assms(2) log_room_le by (auto simp: msg_fits_def)
  then show ?thesis
    using assms stepFollower_log_run stepCandidate_log_run stepLeader_log_run
    by (auto simp: callStep_def split: step_func.split_asm)
qed

text \<open>Applied entries: the leader may add the proposal to leave the joint configuration.\<close>

lemma confChangeToMsg_nil_entries: "length (Message_GetEntries (confChangeToMsg None)) = 1"
  by (simp add: confChangeToMsg_def MarshalConfChange_def Message_GetEntries_def)

lemma log_appliedTo_view:
  assumes "log_appliedTo i s l = Some l'"
  shows "logEnts l' = logEnts l" "logBase l' = logBase l"
  using assms by (auto simp: log_appliedTo_def Let_def logEnts_def stableEnts_def logBase_def elim!: bindE split: if_split_asm
      cong: option.case_cong)

lemma appliedTo_log_run:
  assumes "appliedTo i s r = Some r'" and "log_ok (rLog r)" and "log_room 2 (rLog r)"
  shows "log_run r r'"
proof -
  obtain l where l: "log_appliedTo (max i (lApplied (rLog r))) s (rLog r) = Some l"
    using assms(1) by (auto simp: appliedTo.simps Let_def elim!: bindE)
  then have c: "r' = r\<lparr>rLog := l\<rparr> \<or> (\<exists>e. callStep (confChangeToMsg None) (r\<lparr>rLog := l\<rparr>) = Some (e, r'))"
    using assms(1) by (auto simp: appliedTo.simps Let_def Step_prop elim!: bindE split: if_split_asm prod.split_asm)
  have st: "log_step (rLog r) l" by (rule log_step.applied_to [OF l])
  have ok: "log_ok l" using log_step_safe [OF st assms(2)] ..
  have "log_room 2 l" using assms(3) by (simp add: log_room_def log_appliedTo_view [OF l])
  then have "msg_fits (confChangeToMsg None) l"
    by (simp add: msg_fits_def confChangeToMsg_nil_entries numeral_2_eq_2)
  with ok c have "log_run (r\<lparr>rLog := l\<rparr>) r'" using callStep_log_run lr.R_refl by fastforce
  then show ?thesis using log_run_one [OF st] lr.R_trans by blast
qed

text \<open>A reported write: the entries, then the snapshot.\<close>

lemma stableTo_keeps:
  assumes "log_ok l" and "log_stableTo x l = Some l1"
  shows "uSnapshot (lUnstable l1) = uSnapshot (lUnstable l)" and "\<not> holds_entry (lUnstable l) x \<Longrightarrow> l1 = l"
proof -
  have u: "unstable_ok (lUnstable l)" using assms(1) by (simp add: log_ok_def log_shape_def)
  show "uSnapshot (lUnstable l1) = uSnapshot (lUnstable l)" "\<not> holds_entry (lUnstable l) x \<Longrightarrow> l1 = l"
    using assms(2) unstable_stableTo_eq [OF u, of x] by (auto simp: log_stableTo_def split: if_split_asm)
qed

lemma stableSnapTo_other:
  "uSnapshot (lUnstable l) = None \<or> snapIndex (uSnapshot (lUnstable l)) \<noteq> i \<Longrightarrow> log_stableSnapTo i l = l"
  by (auto simp: log_stableSnapTo_def unstable_stableSnapTo_def)

lemma write_done_entries:
  assumes ok: "log_ok l" and wd: "write_done m l" and snap: "Message_GetSnapshot m = None"
    and run: "log_stableTo \<lparr>idTerm = Message_GetLogTerm m, idIndex = Message_GetIndex m\<rparr> l = Some l1"
    and i: "Message_GetIndex m \<noteq> 0"
  shows "log_step\<^sup>*\<^sup>* l l1"
proof (cases "uSnapshot (lUnstable l)")
  case None
  then show ?thesis
    using wd i by (intro r_into_rtranclp log_step.stable_to [OF _ _ run]) (auto simp: write_done_def Let_def)
next
  case (Some s)
  with wd snap i have "l1 = l" by (intro stableTo_keeps(2) [OF ok run]) (auto simp: write_done_def Let_def)
  then show ?thesis by simp
qed

lemma persisted_base:
  assumes "log_ok l" and "holds_entry (lUnstable l) x" and "persisted l n"
  shows "persisted l (logBase l)"
proof -
  have sh: "log_shape l" using assms(1) by (rule log_okD)
  have "Suc (logBase l) \<le> unat (uOffset (lUnstable l))" "unat (idIndex x) < Suc (logLast l)"
    "unat (uOffset (lUnstable l)) \<le> unat (idIndex x)"
    using assms(2) shape_parts(1) [OF sh] logLast_uEnd [OF sh] by (simp_all add: holds_entry_def word_le_nat_alt)
  then have "logEnts l \<noteq> []" by auto
  with assms(3) show ?thesis by (auto simp: persisted_def)
qed

lemma write_done_snap:
  assumes ok: "log_ok l" and wd: "write_done m l" and snap: "Message_GetSnapshot m \<noteq> None"
  shows "log_step\<^sup>*\<^sup>* l (log_stableSnapTo (snapIndex (Message_GetSnapshot m)) l)"
proof (cases "uSnapshot (lUnstable l) \<noteq> None \<and> snapIndex (uSnapshot (lUnstable l)) = snapIndex (Message_GetSnapshot m)")
  case True
  then obtain s where s: "uSnapshot (lUnstable l) = Some s" "snapIndex (Message_GetSnapshot m) = snapIndex (Some s)" by auto
  have "persisted l (logBase l)"
    using wd s snap persisted_base [OF ok] by (auto simp: write_done_def Let_def split: if_split_asm)
  then show ?thesis unfolding s(2) using s(1) by (intro r_into_rtranclp log_step.stable_snap)
next
  case False
  then have "log_stableSnapTo (snapIndex (Message_GetSnapshot m)) l = l" by (intro stableSnapTo_other) auto
  then show ?thesis by simp
qed

lemma write_done_both:
  assumes ok: "log_ok l" and wd: "write_done m l" and snap: "Message_GetSnapshot m \<noteq> None"
    and run: "log_stableTo \<lparr>idTerm = Message_GetLogTerm m, idIndex = Message_GetIndex m\<rparr> l = Some l1"
    and i: "Message_GetIndex m \<noteq> 0"
  shows "log_step\<^sup>*\<^sup>* l (log_stableSnapTo (snapIndex (Message_GetSnapshot m)) l1)"
proof (cases "holds_entry (lUnstable l) \<lparr>idTerm = Message_GetLogTerm m, idIndex = Message_GetIndex m\<rparr>")
  case False
  then have "l1 = l" by (rule stableTo_keeps(2) [OF ok run])
  then show ?thesis using write_done_snap [OF ok wd snap] by simp
next
  case True
  show ?thesis
  proof (cases "uSnapshot (lUnstable l)")
    case None
    then have "log_stableSnapTo (snapIndex (Message_GetSnapshot m)) l1 = l1"
      using stableTo_keeps(1) [OF ok run] by (intro stableSnapTo_other) simp
    moreover have "log_step l l1"
      using wd i None by (intro log_step.stable_to [OF _ _ run]) (auto simp: write_done_def Let_def)
    ultimately show ?thesis by simp
  next
    case (Some s)
    with wd snap i True have "snapIndex (Message_GetSnapshot m) = snapIndex (Some s)" "persisted l (unat (Message_GetIndex m))"
      by (auto simp: write_done_def Let_def split: if_split_asm)
    with Some True run show ?thesis by (auto intro!: r_into_rtranclp log_step.stable_both)
  qed
qed

text \<open>Reported writes do not move the end of the log.\<close>

lemma stableSnapTo_end: "uEnd (lUnstable (log_stableSnapTo i l)) = uEnd (lUnstable l)"
  by (simp add: log_stableSnapTo_def unstable_stableSnapTo_def)

lemma stableTo_end:
  assumes "log_ok l" and "log_stableTo x l = Some l1"
  shows "uEnd (lUnstable l1) = uEnd (lUnstable l)"
proof (cases "holds_entry (lUnstable l) x")
  case True
  obtain u' where u': "unstable_stableTo x (lUnstable l) = Some u'" "l1 = l\<lparr>lUnstable := u'\<rparr>"
    using assms(2) by (auto simp: log_stableTo_def bind_Some_conv)
  show ?thesis
    using stableTo_drop(1-4) [OF assms(1) True u'(1)] logLast_uEnd [OF log_okD [OF assms(1)]] u'(2) by simp
qed (use stableTo_keeps(2) [OF assms] in simp)

lemma stable_room:
  assumes "log_step\<^sup>*\<^sup>* l l'" and "log_ok l" and "uEnd (lUnstable l') = uEnd (lUnstable l)" and "log_room n l"
  shows "log_room n l'"
proof -
  have k: "log_ok l'" "logBase l \<le> logBase l'" using log_steps_safe [OF assms(1,2)] by (simp_all add: log_kept_def)
  then have "logLast l' = logLast l"
    using logLast_uEnd [OF log_okD [OF assms(2)]] logLast_uEnd [OF log_okD [OF k(1)]] assms(3) by simp
  with k assms(4) show ?thesis by (simp add: log_room_def)
qed

lemma appliedSnap_log_run:
  assumes "appliedSnap snap r = Some r'" and st: "log_step\<^sup>*\<^sup>* (rLog r0) (log_stableSnapTo (snapIndex snap) (rLog r))"
    and ok: "log_ok (rLog r0)" and e: "uEnd (lUnstable (rLog r)) = uEnd (lUnstable (rLog r0))" and room: "log_room 2 (rLog r0)"
  shows "log_run r0 r'"
proof -
  let ?r = "r\<lparr>rLog := log_stableSnapTo (snapIndex snap) (rLog r)\<rparr>"
  have "log_room 2 (rLog ?r)" using stable_room [OF st ok _ room] e by (simp add: stableSnapTo_end)
  moreover have "appliedTo (snapIndex snap) 0 ?r = Some r'" using assms(1) by (simp add: appliedSnap.simps Let_def)
  ultimately have "log_run ?r r'" using log_steps_safe [OF st ok] by (intro appliedTo_log_run) simp_all
  with st show ?thesis by (simp add: log_run_def)
qed

section \<open>Step and tick\<close>

lemma stepBody_stable_log_run:
  assumes run: "stepBody m r = Some (e, r')" and ty: "Message_GetType m = MsgStorageAppendResp"
    and fits: "msg_fits m (rLog r)" and ok: "log_ok (rLog r)" and room: "log_room 2 (rLog r)"
  shows "log_run r r'"
proof -
  have wd: "write_done m (rLog r)" using fits ty by (simp add: msg_fits_def)
  obtain l where l: "Message_GetIndex m = 0 \<and> l = rLog r \<or> Message_GetIndex m \<noteq> 0 \<and>
      log_stableTo \<lparr>idTerm = Message_GetLogTerm m, idIndex = Message_GetIndex m\<rparr> (rLog r) = Some l"
    and r': "Message_GetSnapshot m = None \<and> r' = r\<lparr>rLog := l\<rparr> \<or>
      Message_GetSnapshot m \<noteq> None \<and> appliedSnap (Message_GetSnapshot m) (r\<lparr>rLog := l\<rparr>) = Some r'"
    by (rule stepBody_stable [OF run ty])
  have e: "uEnd (lUnstable l) = uEnd (lUnstable (rLog r))" using l stableTo_end [OF ok] by auto
  show ?thesis
  proof (cases "Message_GetSnapshot m = None")
    case True
    with l r' show ?thesis using write_done_entries [OF ok wd True] by (auto simp: log_run_def)
  next
    case False
    have "log_step\<^sup>*\<^sup>* (rLog r) (log_stableSnapTo (snapIndex (Message_GetSnapshot m)) l)"
      using l write_done_snap [OF ok wd False] write_done_both [OF ok wd False] by blast
    with False r' e ok room show ?thesis by (intro appliedSnap_log_run [where r = "r\<lparr>rLog := l\<rparr>"]) auto
  qed
qed

lemma stepBody_log_run:
  assumes run: "stepBody m r = Some (e, r')" and fits: "msg_fits m (rLog r)" and ok: "log_ok (rLog r)"
    and room: "log_room 2 (rLog r)"
  shows "log_run r r'"
proof -
  consider (stable) "Message_GetType m = MsgStorageAppendResp"
    | (applied) "Message_GetType m = MsgStorageApplyResp"
    | (vote) "Message_GetType m = MsgVote \<or> Message_GetType m = MsgPreVote"
    | (hup) "Message_GetType m = MsgHup"
    | (other) "Message_GetType m \<notin> {MsgStorageAppendResp, MsgStorageApplyResp, MsgVote, MsgPreVote, MsgHup}"
    by blast
  then show ?thesis
  proof cases
    case stable
    with assms show ?thesis by (intro stepBody_stable_log_run)
  next
    case applied
    with run obtain i s r1 n where "r' = r \<or> appliedTo i s r = Some r1 \<and> r' = reduceUncommittedSize n r1"
      by (auto simp: stepBody_def Let_def elim!: bindE split: if_split_asm)
    then show ?thesis
      using appliedTo_log_run [OF _ ok room] quiet_log_run [OF quiet_upd(12)] lr.R_trans lr.R_refl by metis
  next
    case vote
    then have "stepVote m r = Some r'" using run by (auto simp: stepBody_def)
    then show ?thesis by (rule log_run_eq [OF stepVote_log])
  next
    case hup
    with run show ?thesis by (auto simp: stepBody_def intro: log_run_eq hup_log)
  next
    case other
    then have "callStep m r = Some (e, r')" using run by (simp add: stepBody_def)
    then show ?thesis using fits ok by (rule callStep_log_run)
  qed
qed

lemma Step_log_run:
  assumes run: "Step (Some m) r = Some (e, r')" and fits: "msg_fits m (rLog r)" and ok: "log_ok (rLog r)"
    and room: "log_room 2 (rLog r)"
  shows "log_run r r'"
proof (cases "Message_GetTerm m \<noteq> 0 \<and> Message_GetTerm m < rTerm r")
  case True
  then consider "r' = r" | x where "send x r = Some r'"
    | "appliedSnap (Message_GetSnapshot m) r = Some r'" "Message_GetType m = MsgStorageAppendResp"
      "Message_GetSnapshot m \<noteq> None"
    using run by (auto simp: Step.simps elim!: bindE split: if_split_asm)
  then show ?thesis
  proof cases
    case 3
    then have "write_done m (rLog r)" using fits by (simp add: msg_fits_def)
    with 3 show ?thesis using appliedSnap_log_run [OF 3(1) write_done_snap [OF ok] ok _ room] by blast
  qed (auto intro: log_run_send lr.R_refl)
next
  case False
  note S = run [unfolded Step_body [OF False]]
  show ?thesis
  proof (cases "Message_GetTerm m \<noteq> 0 \<and> rTerm r < Message_GetTerm m")
    case True
    with S obtain go r1 where r1: "stepHigherTerm m r = Some (go, r1)"
      and r': "if go then stepBody m r1 = Some (e, r') else r' = r1"
      by (auto elim!: bindE split: if_split_asm)
    have l: "rLog r1 = rLog r"
      using r1 by (auto simp: stepHigherTerm_def Let_def elim!: bindE split: if_split_asm dest: becomeFollower_Some(2))
    then have "log_run r1 r'"
      using r' stepBody_log_run fits ok room lr.R_refl by (cases go) auto
    with l show ?thesis by (simp add: log_run_def)
  next
    case eq: False
    have "stepBody m r = Some (e, r')" using S eq by (simp split: if_split_asm)
    then show ?thesis using fits ok room by (rule stepBody_log_run)
  qed
qed

lemma stepLocal_log_run:
  assumes "stepLocal t r = Some r'" and "t \<in> {MsgHup, MsgBeat, MsgCheckQuorum}" and "log_ok (rLog r)" and "log_room 2 (rLog r)"
  shows "log_run r r'"
proof -
  let ?m = "Msg (Message0\<lparr>mFrom := Some (rId r), mType := Some t\<rparr>) []"
  obtain e where "Step (Some ?m) r = Some (e, r')" using assms(1) by (auto simp: stepLocal_def elim!: bindE)
  moreover have "msg_fits ?m (rLog r)"
    using assms(2,4) log_room_le [OF assms(4), of 1]
    by (auto simp: msg_fits_def Message_GetEntries_def Message0_def)
  ultimately show ?thesis using assms(3,4) by (rule Step_log_run)
qed

text \<open>The beats of a leader's clock only send, or make it step down.\<close>

lemma stepLocal_beat_log_run:
  assumes "stepLocal t r = Some r'" and t: "t \<in> {MsgBeat, MsgCheckQuorum}"
  shows "log_run r r'"
proof -
  let ?m = "Msg (Message0\<lparr>mFrom := Some (rId r), mType := Some t\<rparr>) []"
  obtain e where "stepBody ?m r = Some (e, r')" using stepLocal_body [OF assms(1)] by blast
  then have "callStep ?m r = Some (e, r')" using t by (auto simp: stepBody_def)
  then consider "r' = r" | "bcastHeartbeat r = Some r'" | "stepLeaderCheckQuorum r = Some r'"
    using t by (auto simp: callStep_def stepFollower_def stepCandidate_def stepLeader_def Let_def split: step_func.split_asm
        if_split_asm)
  then show ?thesis
    by cases (auto intro: lr.R_refl quiet_log_run bcastHeartbeat_quiet stepLeaderCheckQuorum_log_run)
qed

lemma tickHeartbeat_log_run:
  assumes "tickHeartbeat r = Some r'"
  shows "log_run r r'"
proof -
  let ?r = "r\<lparr>rHeartbeatElapsed := rHeartbeatElapsed r + 1, rElectionElapsed := rElectionElapsed r + 1\<rparr>"
  let ?z = "?r\<lparr>rElectionElapsed := 0\<rparr>"
  obtain r1 where r1: "(if rElectionElapsed ?r \<ge> rElectionTimeout ?r then do {
        let r = ?z;
        r \<leftarrow> (if rCheckQuorum r then stepLocal MsgCheckQuorum r else Some r);
        Some (if rState r = StateLeader \<and> rLeadTransferee r \<noteq> None_id then abortLeaderTransfer r else r)
      } else Some ?r) = Some r1"
    and r': "(if rState r1 \<noteq> StateLeader then Some r1
      else if rHeartbeatElapsed r1 \<ge> rHeartbeatTimeout r1 then stepLocal MsgBeat (r1\<lparr>rHeartbeatElapsed := 0\<rparr>)
      else Some r1) = Some r'"
    using assms unfolding tickHeartbeat_def Let_def by (auto elim!: bindE)
  have "log_run r r1"
  proof (cases "rElectionElapsed ?r \<ge> rElectionTimeout ?r")
    case True
    from r1 obtain r2 where "(if rCheckQuorum ?z then stepLocal MsgCheckQuorum ?z else Some ?z) = Some r2"
      and r1': "r1 = (if rState r2 = StateLeader \<and> rLeadTransferee r2 \<noteq> None_id then abortLeaderTransfer r2 else r2)"
      unfolding if_P [OF True] Let_def by (elim bindE) simp
    then have "r2 = ?z \<or> stepLocal MsgCheckQuorum ?z = Some r2" by (simp split: if_split_asm)
    then have "log_run ?z r2" using stepLocal_beat_log_run lr.R_refl by auto
    moreover have "rLog r1 = rLog r2" using r1' by (simp add: abortLeaderTransfer_def)
    ultimately show ?thesis by (simp add: log_run_def)
  next
    case False
    with r1 have "r1 = ?r" by simp
    then show ?thesis by (simp add: log_run_def)
  qed
  moreover have "log_run r1 r'"
    using r' stepLocal_beat_log_run [of MsgBeat "r1\<lparr>rHeartbeatElapsed := 0\<rparr>" r']
    by (auto simp: log_run_def split: if_split_asm)
  ultimately show ?thesis by (rule lr.R_trans)
qed

lemma tick_log_run:
  assumes "tick r = Some r'" and ok: "log_ok (rLog r)" and room: "log_room 2 (rLog r)"
  shows "log_run r r'"
proof (cases "rTick r")
  case TickElection
  let ?r = "r\<lparr>rElectionElapsed := rElectionElapsed r + 1\<rparr>"
  have "r' = ?r \<or> stepLocal MsgHup (?r\<lparr>rElectionElapsed := 0\<rparr>) = Some r'"
    using assms(1) TickElection by (auto simp: tick_def tickElection_def Let_def split: if_split_asm)
  then show ?thesis
    using stepLocal_log_run [of MsgHup "?r\<lparr>rElectionElapsed := 0\<rparr>" r'] ok room by (auto simp: log_run_def)
next
  case TickHeartbeat
  with assms(1) show ?thesis by (simp add: tick_def tickHeartbeat_log_run)
qed

section \<open>Membership, batches and the start\<close>

lemma switchToConfig_log_run:
  assumes "switchToConfig cfg trk r = Some (cs, r')"
  shows "log_run r r'"
  using assms refl
proof (cases rule: switchToConfig_cases)
  case same
  then show ?thesis by (simp add: log_run_def)
next
  case stepped_down
  then show ?thesis by (simp add: log_run_def becomeFollower_Some(2))
next
  case (leading b r1)
  let ?z = "r\<lparr>rTrk := (rTrk r)\<lparr>trkConfig := cfg, trkProgress := trk\<rparr>,
      rIsLearner := (case trk (rId r) of None \<Rightarrow> False | Some pr \<Rightarrow> prIsLearner pr)\<rparr>"
  have "log_step (rLog ?z) (rLog r1)"
    using leading(2) by (auto elim!: raft_maybeCommit_Some intro: log_step.maybe_commit)
  with quiet_log_run [OF leading(3)] show ?thesis by (simp add: log_run_def)
qed

lemma applyConfChange_log_run: "applyConfChange cc r = Some (cs, r') \<Longrightarrow> log_run r r'"
  by (erule applyConfChange_switch) (rule switchToConfig_log_run)

lemma acceptReady_log_run:
  assumes "acceptReady rd rn = Some rn'"
    and "rdCommittedEntries rd \<noteq> [] \<Longrightarrow> lApplied (rLog (nRaft rn)) \<le> Entry_GetIndex (last (rdCommittedEntries rd))"
  shows "log_run (nRaft rn) (nRaft rn')"
  using assms(1)
proof (rule acceptReady_Some)
  let ?l = "rLog (nRaft rn)"
  fix l
  assume r: "nRaft rn' = (nRaft rn)\<lparr>rReadStates := (if rdReadStates rd = [] then rReadStates (nRaft rn) else []),
      rMsgs := [], rMsgsAfterAppend := [], rLog := l\<rparr>"
    and l: "if rdCommittedEntries rd = [] then l = acceptUnstable ?l
      else acceptApplying (Entry_GetIndex (last (rdCommittedEntries rd))) (entsSize (rdCommittedEntries rd))
        (applyUnstableEntries rn) (acceptUnstable ?l) = Some l"
  have "log_step\<^sup>*\<^sup>* (acceptUnstable ?l) l"
    using l assms(2) log_step.accept_applying [of "acceptUnstable ?l"]
    by (auto simp: acceptUnstable_def split: if_split_asm)
  with log_step.accept_unstable [of ?l] show ?thesis
    by (simp add: log_run_def r converse_rtranclp_into_rtranclp)
qed

text \<open>The parts of a batch.\<close>

lemma readyWithoutAccept_Some:
  assumes "readyWithoutAccept rn = Some rd"
  shows "nextUnstableEnts (rLog (nRaft rn)) = Some (rdEntries rd)"
    and "nextCommittedEnts (applyUnstableEntries rn) (rLog (nRaft rn)) = Some (rdCommittedEntries rd)"
    and "rdSoftState rd = (if \<not> SoftState_equal (softState (nRaft rn)) (nPrevSoftSt rn) then Some (softState (nRaft rn)) else None)"
    and "rdHardState rd = (if \<not> isHardStateEqual (Some (hardState (nRaft rn))) (Some (nPrevHardSt rn))
      then Some (hardState (nRaft rn)) else None)"
    and "rdReadStates rd = rReadStates (nRaft rn)"
    and "rdSnapshot rd = (if hasNextUnstableSnapshot (rLog (nRaft rn)) then nextUnstableSnapshot (rLog (nRaft rn)) else None)"
    and "\<not> nAsyncStorageWrites rn \<Longrightarrow>
      rdMessages rd = rMsgs (nRaft rn) @ filter (\<lambda>m. Message_GetTo m \<noteq> rId (nRaft rn)) (rMsgsAfterAppend (nRaft rn))"
  using assms
  by (auto simp: readyWithoutAccept_def Let_def elim!: bindE split: if_split_asm)

lemma takeReady_Some:
  assumes "takeReady rn = Some (rd, rn')"
  shows "readyWithoutAccept rn = Some rd" and "acceptReady rd rn = Some rn'"
  using assms by (auto simp: takeReady_def elim!: bindE)

lemma takeReady_log_run:
  assumes "takeReady rn = Some (rd, rn')" and ok: "log_ok (rLog (nRaft rn))" and t: "total (logEnts (rLog (nRaft rn))) < 2 ^ 64"
  shows "log_run (nRaft rn) (nRaft rn')"
proof (rule acceptReady_log_run [OF takeReady_Some(2) [OF assms(1)]])
  assume ne: "rdCommittedEntries rd \<noteq> []"
  have "nextCommittedEnts (applyUnstableEntries rn) (rLog (nRaft rn)) = Some (rdCommittedEntries rd)"
    by (rule readyWithoutAccept_Some(2) [OF takeReady_Some(1) [OF assms(1)]])
  from nextCommittedEnts_last [OF ok t this ne] ok
  show "lApplied (rLog (nRaft rn)) \<le> Entry_GetIndex (last (rdCommittedEntries rd))"
    by (simp add: log_ok_def word_le_nat_alt)
qed

lemma loadState_log_ok:
  assumes "loadState hs r = Some r'" and "log_ok (rLog r)"
  shows "log_ok (rLog r')"
proof -
  let ?c = "HardState_GetCommit hs"
  have c: "lCommitted (rLog r) \<le> ?c" "?c \<le> of_nat (logLast (rLog r))"
    and r': "rLog r' = (rLog r)\<lparr>lCommitted := ?c\<rparr>"
    using assms log_lastIndex_eq [OF log_okD [OF assms(2)]]
    by (auto simp: loadState_def panic_if_def elim!: bindE split: if_split_asm)
  have "unat (of_nat (logLast (rLog r)) :: uint64) = logLast (rLog r)"
    using logLast_lt [OF log_okD [OF assms(2)]] by (intro unat_of_nat64) simp
  with c have u: "unat (lCommitted (rLog r)) \<le> unat ?c" "unat ?c \<le> logLast (rLog r)"
    unfolding word_le_nat_alt by simp_all
  then show ?thesis using assms(2) c(1) unfolding r' by (auto simp: log_ok_def)
qed

lemma InitialState_ents: "MS_InitialState ms = (hs, cs, ms') \<Longrightarrow> msEnts ms' = msEnts ms"
  by (auto simp: MS_InitialState_def Let_def split: if_split_asm)

lemma validate_keeps: "validate c = Inr c' \<Longrightarrow> cStorage c' = cStorage c"
  by (auto simp: validate_def Let_def split: if_split_asm)

text \<open>The log of a new node, from the fresh log on its storage to the node's first state.\<close>

lemma newRaft_log_parts:
  assumes run: "newRaft c draws = Some r" and ms: "cStorage c = Some ms" "ms_ok ms"
  obtains c' l0 ms' r1 r2 where "validate c = Inr c'"
    and "newLogWithSize ms (cMaxCommittedSizePerReady c') = Some l0"
    and "log_step\<^sup>*\<^sup>* (l0\<lparr>lStorage := ms'\<rparr>) (rLog r1)" and "log_ok (l0\<lparr>lStorage := ms'\<rparr>)"
    and "rLog r2 = rLog r1 \<or> (\<exists>hs. loadState hs r1 = Some r2)"
    and "rLog r = rLog r2 \<or> (\<exists>i. log_appliedTo i 0 (rLog r2) = Some (rLog r))"
proof -
  have "newRaft c draws = None" if "validate c = Inl e" for e
    using that by (simp add: newRaft_def or_panic_def)
  with run obtain c' where c': "validate c = Inr c'" by (cases "validate c") auto
  then have st: "cStorage c' = Some ms" using validate_keeps ms(1) by simp
  note R = run [unfolded newRaft_def Let_def or_panic_def c' sum.case option.case Option.bind.bind_lunit st]
  obtain l0 where l0: "newLogWithSize ms (cMaxCommittedSizePerReady c') = Some l0" using R by (rule bindE)
  obtain hs cs ms' where init: "MS_InitialState (lStorage l0) = (hs, cs, ms')" by (metis prod.exhaust)
  obtain r1 r2 r3 where r1: "log_step\<^sup>*\<^sup>* (l0\<lparr>lStorage := ms'\<rparr>) (rLog r1)"
    and r2: "(if \<not> IsEmptyHardState hs then loadState hs r1 else Some r1) = Some r2"
    and r3: "(if cApplied c' > 0 then do { l \<leftarrow> log_appliedTo (cApplied c') 0 (rLog r2); Some (r2\<lparr>rLog := l\<rparr>) }
      else Some r2) = Some r3"
    and r: "becomeFollower (rTerm r3) None_id r3 = Some r"
    using R unfolding l0 Option.bind.bind_lunit init prod.case
    by (elim bind_prodE bindE) (drule switchToConfig_log_run, simp add: log_run_def)
  have "log_ok l0" "lStorage l0 = ms"
    using newLogWithSize_ok [OF ms(2)] l0 by (metis option.inject)+
  then have ok: "log_ok (l0\<lparr>lStorage := ms'\<rparr>)" using storage_meta_step InitialState_ents [OF init] by blast
  have load: "rLog r2 = rLog r1 \<or> (\<exists>hs. loadState hs r1 = Some r2)"
    using r2 by (auto split: if_split_asm)
  have applied: "rLog r = rLog r2 \<or> (\<exists>i. log_appliedTo i 0 (rLog r2) = Some (rLog r))"
    using r3 becomeFollower_Some(2) [OF r] by (auto elim!: bindE split: if_split_asm)
  show thesis by (rule that [OF c' l0 r1 ok load applied])
qed

lemma newRaft_log_ok:
  assumes "newRaft c draws = Some r" and "cStorage c = Some ms" and "ms_ok ms"
  shows "log_ok (rLog r)"
  using assms
proof (rule newRaft_log_parts)
  fix l0 ms' r1 r2
  assume r1: "log_step\<^sup>*\<^sup>* (l0\<lparr>lStorage := ms'\<rparr>) (rLog r1)" "log_ok (l0\<lparr>lStorage := ms'\<rparr>)"
    and r2: "rLog r2 = rLog r1 \<or> (\<exists>hs. loadState hs r1 = Some r2)"
    and r: "rLog r = rLog r2 \<or> (\<exists>i. log_appliedTo i 0 (rLog r2) = Some (rLog r))"
  have "log_ok (rLog r1)" using log_steps_safe [OF r1] by blast
  then have ok2: "log_ok (rLog r2)" using r2 loadState_log_ok by fastforce
  then show "log_ok (rLog r)" using r log_step_safe [OF log_step.applied_to ok2] by fastforce
qed

section \<open>Runs of a node\<close>

text \<open>
  What happens to a node: it handles messages and ticks, applies configuration changes and
  hands over batches, and the application writes to the storage it shares with the node.
  Messages and log sizes are within the stated bounds.
\<close>

inductive node_step :: "raft \<Rightarrow> raft \<Rightarrow> bool" where
  handle: "Step (Some m) r = Some (e, r') \<Longrightarrow> msg_fits m (rLog r) \<Longrightarrow> log_room 2 (rLog r) \<Longrightarrow> node_step r r'"
| clock: "tick r = Some r' \<Longrightarrow> log_room 2 (rLog r) \<Longrightarrow> node_step r r'"
| reconfigure: "applyConfChange cc r = Some (cs, r') \<Longrightarrow> node_step r r'"
| hand_over: "takeReady rn = Some (rd, rn') \<Longrightarrow> total (logEnts (rLog (nRaft rn))) < 2 ^ 64 \<Longrightarrow>
    node_step (nRaft rn) (nRaft rn')"
| store: "log_step (rLog r) ((rLog r)\<lparr>lStorage := ms\<rparr>) \<Longrightarrow> node_step r (r\<lparr>rLog := (rLog r)\<lparr>lStorage := ms\<rparr>\<rparr>)"

lemma node_step_log_run: "node_step r r' \<Longrightarrow> log_ok (rLog r) \<Longrightarrow> log_run r r'"
  by (induction rule: node_step.induct)
    (auto intro: Step_log_run tick_log_run applyConfChange_log_run takeReady_log_run log_run_one)

lemma node_run_safe:
  assumes "node_step\<^sup>*\<^sup>* r r'" and "log_ok (rLog r)"
  shows "log_ok (rLog r') \<and> log_kept (rLog r) (rLog r') \<and> log_run r r'"
  using assms
proof (induction rule: rtranclp_induct)
  case base
  then show ?case using log_kept_refl lr.R_refl by simp
next
  case (step r1 r2)
  then have "log_run r1 r2" using node_step_log_run by blast
  with step show ?case
    using log_steps_safe log_kept_trans lr.R_trans [of r r1 r2] by (auto simp: log_run_def)
qed

section \<open>Properties\<close>

text \<open>
  C3. The log of a running node is safe. Start a node on any well-formed storage and let it
  handle messages, ticks and configuration changes, hand over batches, and let the application
  write to storage, in any order: the positions stay ordered, \<^verbatim>\<open>applied <= applying <= committed
  <= lastIndex\<close>; the commit and applied positions never decrease; and a position that the node
  has committed holds an entry, the same one for as long as it is not compacted away.
\<close>

theorem node_log_safety:
  assumes "newRaft c draws = Some r0" and "cStorage c = Some ms" and "ms_ok ms"
    and "node_step\<^sup>*\<^sup>* r0 r" and "node_step\<^sup>*\<^sup>* r r'"
  shows "lApplied (rLog r) \<le> lApplying (rLog r) \<and> lApplying (rLog r) \<le> lCommitted (rLog r) \<and>
    unat (lCommitted (rLog r)) \<le> logLast (rLog r) \<and>
    lCommitted (rLog r) \<le> lCommitted (rLog r') \<and> lApplied (rLog r) \<le> lApplied (rLog r') \<and>
    (\<forall>n. logBase (rLog r') < n \<and> n \<le> unat (lCommitted (rLog r)) \<longrightarrow>
      entryAt (rLog r) n \<noteq> None \<and> entryAt (rLog r') n = entryAt (rLog r) n)"
proof -
  have ok: "log_ok (rLog r)" using node_run_safe [OF assms(4) newRaft_log_ok [OF assms(1-3)]] by blast
  have k: "log_kept (rLog r) (rLog r')" using node_run_safe [OF assms(5) ok] by blast
  have "entryAt (rLog r) n \<noteq> None" if "logBase (rLog r') < n" "n \<le> unat (lCommitted (rLog r))" for n
    using that ok k by (auto simp: entryAt_def log_ok_def log_kept_def)
  with ok k show ?thesis by (simp add: log_ok_def log_kept_def)
qed

text \<open>A node on a new storage.\<close>

definition demoConfig :: RaftConfig where
  "demoConfig = \<lparr>cID = 1, cElectionTick = 10, cHeartbeatTick = 1, cStorage = Some NewMemoryStorage, cApplied = 0,
     cAsyncStorageWrites = False, cMaxSizePerMsg = noLimit, cMaxCommittedSizePerReady = 0, cMaxUncommittedEntriesSize = 0,
     cMaxInflightMsgs = 8, cMaxInflightBytes = 0, cCheckQuorum = False, cPreVote = False,
     cReadOnlyOption = ReadOnlySafe, cDisableProposalForwarding = False, cDisableConfChangeValidation = False,
     cStepDownOnRemoval = False\<rparr>"

lemma NewMemoryStorage_ok: "ms_ok NewMemoryStorage"
  by (simp add: ms_ok_def NewMemoryStorage_def ms_view getters zero_defs)

lemma demo_newRaft_log:
  "\<exists>r. newRaft demoConfig [] = Some r \<and> logEnts (rLog r) = [] \<and> lCommitted (rLog r) = 0"
proof -
  obtain c where c: "validate demoConfig = Inr c" "cStorage c = Some NewMemoryStorage" "cElectionTick c = 10" "cApplied c = 0"
    by (simp add: validate_def demoConfig_def None_id_def IsLocalMsgTarget_def LocalAppendThread_def LocalApplyThread_def)
  obtain l0 where l0: "newLogWithSize NewMemoryStorage (cMaxCommittedSizePerReady c) = Some l0" "log_ok l0"
      "lStorage l0 = NewMemoryStorage" "logEnts l0 = msLog NewMemoryStorage" "unat (lCommitted l0) = msBase NewMemoryStorage"
    by (rule newLogWithSize_ok [OF NewMemoryStorage_ok]) blast
  obtain cs ms where i: "MS_InitialState NewMemoryStorage = (None, cs, ms)" and cs: "cs = EnsureConfState None"
    by (simp add: MS_InitialState_def NewMemoryStorage_def Let_def getters zero_defs EnsureSnapshot_def EnsureSnapshotMetadata_def)
  have ok: "log_ok (l0\<lparr>lStorage := ms\<rparr>)"
    using storage_meta_step [OF l0(2)] InitialState_ents [OF i] l0(3) by simp
  have v: "msBase ms = msBase (lStorage l0)" "msLog ms = msLog (lStorage l0)"
    using InitialState_ents [OF i] l0(3) by (simp_all add: ms_view)
  have "logEnts (l0\<lparr>lStorage := ms\<rparr>) = logEnts l0"
    by (simp add: logEnts_def stableEnts_def v cong: option.case_cong)
  moreover have "msLog NewMemoryStorage = []" "msBase NewMemoryStorage = 0"
    by (simp_all add: NewMemoryStorage_def ms_view getters zero_defs)
  ultimately have empty: "logEnts (l0\<lparr>lStorage := ms\<rparr>) = []" "lCommitted l0 = 0"
    using l0(4,5) by (simp_all add: unat_eq_zero)
  obtain x where x: "log_lastEntryID (l0\<lparr>lStorage := ms\<rparr>) = Some x"
    using log_lastEntryID_eq [OF log_okD [OF ok]] by blast
  have li: "log_lastIndex (l0\<lparr>lStorage := ms\<rparr>) = Some (of_nat (logLast (l0\<lparr>lStorage := ms\<rparr>)))"
    by (rule log_lastIndex_eq [OF log_okD [OF ok]])
  have r: "Restore \<lparr>chTracker = MakeProgressTracker k b, chLastIndex = j\<rparr> cs =
      Some (Inr (trkConfig (MakeProgressTracker k b), Map.empty))" for k b j
    by (simp add: Restore_def toConfChangeSingle_def cs EnsureConfState_def zero_defs MakeProgressTracker_def)
  have same: "ProgressTracker_ConfState (MakeProgressTracker k b) = cs" for k b
    by (simp add: ProgressTracker_ConfState_def cs EnsureConfState_def zero_defs MakeProgressTracker_def MajorityConfig_Slice_def)
  have eq: "assertConfStatesEquivalent (Some cs) (Some cs) = Some ()"
    using Equivalent_iff [of cs cs] by (simp add: assertConfStatesEquivalent_def)
  have trk: "(MakeProgressTracker k b)\<lparr>trkProgress := \<lambda>x. None\<rparr> = MakeProgressTracker k b"
    "trkProgress (MakeProgressTracker k b) = Map.empty" for k b
    by (simp_all add: MakeProgressTracker_def)
  show ?thesis
    by (simp add: newRaft_def or_panic_def c l0 i x r Let_def switchToConfig_def progressOf_def trk same eq
        IsEmptyHardState_def becomeFollower_def reset_def resetRandomizedElectionTimeout_def Intn_def
        abortLeaderTransfer_def ProgressTracker_ResetVotes_def raft_Visit_def li empty)
qed

lemma demo_newRaft: "\<exists>r. newRaft demoConfig [] = Some r"
  using demo_newRaft_log by blast

theorem node_log_safety_witness:
  "\<exists>r r'. newRaft demoConfig [] = Some r \<and> node_step r r' \<and> lCommitted (rLog r) \<le> lCommitted (rLog r')"
proof -
  obtain r where r: "newRaft demoConfig [] = Some r" using demo_newRaft by blast
  let ?ms = "MS_SetHardState None (lStorage (rLog r))"
  have "node_step r (r\<lparr>rLog := (rLog r)\<lparr>lStorage := ?ms\<rparr>\<rparr>)"
    by (intro node_step.store log_step.app_hard_state)
  then show ?thesis
    using node_log_safety [OF r _ NewMemoryStorage_ok, of r] r by (auto simp: demoConfig_def)
qed

end
