(* ===== verification/LeaderCommit.thy ===== *)
theory LeaderCommit
  imports NodeLog
begin

text \<open>
  The commit rule of a leader: while it leads a term it moves its commit position only to an
  entry of that term that a quorum has acknowledged, and it does so as soon as the
  acknowledgement of a quorum is in.
\<close>

section \<open>Calls that leave the commit position alone\<close>

definition same_commit :: "raft \<Rightarrow> raft \<Rightarrow> bool" where
  "same_commit r r' \<longleftrightarrow> lCommitted (rLog r') = lCommitted (rLog r)"

interpretation sc: node_preorder same_commit
  by unfold_locales (simp_all add: same_commit_def)

lemma same_commit_log: "rLog r' = rLog r \<Longrightarrow> same_commit r r'"
  by (simp add: same_commit_def)

lemma same_commit_quiet: "quiet r r' \<Longrightarrow> same_commit r r'"
  using same_log_view(4) [OF quiet_log] by (simp add: same_commit_def)

lemma appendEntry_same_commit:
  assumes "appendEntry es r = Some (ok, r')"
  shows "same_commit r r'"
  using assms
proof (cases rule: appendEntry_parts)
  case refused
  then show ?thesis by (simp add: sc.R_refl)
next
  case (appended li l i r1)
  have "lCommitted l = lCommitted (rLog r)"
    using appended(5) by (auto simp: log_append_def Let_def elim!: bindE split: if_split_asm)
  with same_commit_quiet [OF appended(6)] show ?thesis by (simp add: same_commit_def)
qed

lemma stepLeaderProp_same_commit:
  assumes "stepLeaderProp m r = Some (e, r')"
  shows "same_commit r r'"
proof (cases "r' = r")
  case False
  with assms obtain es r1 ok r2 where 1: "screenProposals 0 (Message_GetEntries m) r = Some (es, r1)"
    and 2: "appendEntry es r1 = Some (ok, r2)" and 3: "r' = r2 \<or> bcastAppend r2 = Some r'"
    by (auto simp: stepLeaderProp_def elim!: bindE split: if_split_asm prod.split_asm)
  have "same_commit r2 r'" using 3 same_commit_quiet [OF bcastAppend_quiet] sc.R_refl by blast
  with same_commit_quiet [OF screenProposals_quiet [OF 1]] appendEntry_same_commit [OF 2]
  show ?thesis using sc.R_trans by blast
qed (simp add: sc.R_refl)

lemma appliedTo_same_commit:
  assumes "appliedTo i s r = Some r'" and "role_ok r"
  shows "same_commit r r'"
proof -
  obtain l where l: "log_appliedTo (max i (lApplied (rLog r))) s (rLog r) = Some l"
    using assms(1) by (auto simp: appliedTo.simps Let_def elim!: bindE)
  then have c: "r' = r\<lparr>rLog := l\<rparr> \<or> rState r = StateLeader \<and>
      (\<exists>e. callStep (confChangeToMsg None) (r\<lparr>rLog := l\<rparr>) = Some (e, r'))"
    using assms(1) by (auto simp: appliedTo.simps Let_def Step_prop elim!: bindE split: if_split_asm prod.split_asm)
  have "same_commit r (r\<lparr>rLog := l\<rparr>)"
    using l by (auto simp: same_commit_def log_appliedTo_def Let_def elim!: bindE split: if_split_asm)
  moreover have "same_commit (r\<lparr>rLog := l\<rparr>) r'"
    using c assms(2) stepLeaderProp_same_commit sc.R_refl
    by (auto simp: callStep_def role_ok_def stepLeader_def)
  ultimately show ?thesis by (rule sc.R_trans)
qed

lemma appliedSnap_same_commit:
  assumes "appliedSnap s r = Some r'" and "role_ok r"
  shows "same_commit r r'"
  using appliedTo_same_commit [of _ _ "r\<lparr>rLog := log_stableSnapTo (snapIndex s) (rLog r)\<rparr>" r'] assms
  by (simp add: appliedSnap.simps Let_def same_commit_def log_stableSnapTo_def)

lemma stepBody_stable_same_commit:
  assumes "stepBody m r = Some (e, r')" and "Message_GetType m = MsgStorageAppendResp" and "role_ok r"
  shows "same_commit r r'"
  using assms(1,2)
proof (rule stepBody_stable)
  fix l
  assume l: "Message_GetIndex m = 0 \<and> l = rLog r \<or> Message_GetIndex m \<noteq> 0 \<and>
      log_stableTo \<lparr>idTerm = Message_GetLogTerm m, idIndex = Message_GetIndex m\<rparr> (rLog r) = Some l"
    and r': "Message_GetSnapshot m = None \<and> r' = r\<lparr>rLog := l\<rparr> \<or>
      Message_GetSnapshot m \<noteq> None \<and> appliedSnap (Message_GetSnapshot m) (r\<lparr>rLog := l\<rparr>) = Some r'"
  have "lCommitted l = lCommitted (rLog r)" using l by (auto simp: log_stableTo_def elim!: bindE)
  then show ?thesis
    using r' appliedSnap_same_commit [of _ "r\<lparr>rLog := l\<rparr>" r'] assms(3) by (auto simp: same_commit_def)
qed

section \<open>The acknowledgement that commits\<close>

text \<open>The nodes known to hold an index once the leader has taken in a message.\<close>

definition acked_by :: "Message \<Rightarrow> raft \<Rightarrow> uint64 \<Rightarrow> uint64 set" where
  "acked_by m r i = {n. (\<exists>pr. progressOf n r = Some pr \<and> i \<le> prMatch pr) \<or>
     n = Message_GetFrom m \<and> Message_GetType m = MsgAppResp \<and> \<not> Message_GetReject m \<and> i \<le> Message_GetIndex m}"

lemma become_match [simp]:
  "prMatch (Progress_BecomeReplicate pr) = prMatch pr" "prMatch (Progress_BecomeProbe pr) = prMatch pr"
  by (simp_all add: Progress_BecomeReplicate_def Progress_BecomeProbe_def Progress_ResetState_def Let_def)

lemma leaderAckProgress_match: "leaderAckProgress m pr r = Some pr' \<Longrightarrow> prMatch pr' = prMatch pr"
  by (auto simp: leaderAckProgress_def elim!: bindE split: StateType.split_asm if_split_asm)

lemma MaybeUpdate_match: "prMatch (fst (Progress_MaybeUpdate i pr)) = max (prMatch pr) i"
  by (auto simp: Progress_MaybeUpdate_def max_def)

text \<open>The quorum index the leader computes is the largest one acknowledged by a quorum.\<close>

lemma Committed_acked:
  assumes "progressOf (Message_GetFrom m) r = Some pr" and "prMatch pr2 = max (prMatch pr) (Message_GetIndex m)"
    and "Message_GetType m = MsgAppResp" "\<not> Message_GetReject m" and "0 < i"
  shows "i \<le> ProgressTracker_Committed (rTrk (setProgress (Message_GetFrom m) pr2 r)) \<longleftrightarrow>
    joint_majority (cfgVoters (trkConfig (rTrk r))) (acked_by m r i)"
proof -
  have "{n. i = 0 \<or> (\<exists>p. trkProgress (rTrk (setProgress (Message_GetFrom m) pr2 r)) n = Some p \<and> i \<le> prMatch p)} =
      acked_by m r i"
    using assms by (auto simp: acked_by_def setProgress_def progressOf_def le_max_iff_disj)
  then show ?thesis by (simp add: Committed_iff) (simp add: setProgress_def)
qed

text \<open>What a moved commit position guarantees.\<close>

definition committed_by :: "Message \<Rightarrow> raft \<Rightarrow> raft \<Rightarrow> bool" where
  "committed_by m r r' \<longleftrightarrow> lCommitted (rLog r) < lCommitted (rLog r') \<and>
     termAt (rLog r') (unat (lCommitted (rLog r'))) = Some (rTerm r) \<and>
     joint_majority (cfgVoters (trkConfig (rTrk r))) (acked_by m r (lCommitted (rLog r')))"

lemma termAt_view:
  "logEnts l' = logEnts l \<Longrightarrow> logBase l' = logBase l \<Longrightarrow> logBaseTerm l' = logBaseTerm l \<Longrightarrow> termAt l' n = termAt l n"
  by (simp add: termAt_def)

lemma maybeCommit_result:
  assumes "maybeCommit \<lparr>idTerm = t, idIndex = i\<rparr> l = Some (b, l')" and "log_ok l"
  shows "l' = (if t \<noteq> 0 \<and> lCommitted l < i \<and> termAt l (unat i) = Some t then l\<lparr>lCommitted := i\<rparr> else l)"
  using assms(1) commitTo_eq [OF log_okD [OF assms(2)], of i]
  by (auto simp: maybeCommit_def matchTerm_eq [OF log_okD [OF assms(2)]] max_def elim!: bindE split: if_split_asm)

text \<open>An acknowledgement: the commit position moves to the quorum index, if that is of the leader's term.\<close>

lemma leaderAppAccept_exact:
  assumes run: "leaderAppAccept m pr0 r = Some r'" and pr: "progressOf (Message_GetFrom m) r = Some pr" "prMatch pr0 = prMatch pr"
    and ty: "Message_GetType m = MsgAppResp" "\<not> Message_GetReject m" and ok: "log_ok (rLog r)"
  obtains (same) "quiet r r'" "Message_GetIndex m \<le> prMatch pr"
  | (commit) i where "\<And>j. 0 < j \<Longrightarrow> j \<le> i \<longleftrightarrow> joint_majority (cfgVoters (trkConfig (rTrk r))) (acked_by m r j)"
      "lCommitted (rLog r') = (if rTerm r \<noteq> 0 \<and> lCommitted (rLog r) < i \<and> termAt (rLog r) (unat i) = Some (rTerm r)
        then i else lCommitted (rLog r))" "\<And>n. termAt (rLog r') n = termAt (rLog r) n"
  using run
proof (cases rule: leaderAppAccept_parts)
  case same
  then show ?thesis using that(1) pr(2) by (auto simp: Progress_MaybeUpdate_def split: if_split_asm)
next
  case (commit r1 b l pr2)
  let ?i = "ProgressTracker_Committed (rTrk r1)"
  have m2: "prMatch pr2 = max (prMatch pr) (Message_GetIndex m)"
    using leaderAckProgress_match [OF commit(5)] pr(2) by (simp add: MaybeUpdate_match)
  have l1: "rLog r1 = rLog r" by (simp add: commit(4) setProgress_def)
  have l: "l = (if rTerm r \<noteq> 0 \<and> lCommitted (rLog r) < ?i \<and> termAt (rLog r) (unat ?i) = Some (rTerm r)
      then (rLog r)\<lparr>lCommitted := ?i\<rparr> else rLog r)"
    using maybeCommit_result [OF commit(2)] ok by (simp add: l1)
  have l': "lCommitted (rLog r') = lCommitted l" "termAt (rLog r') n = termAt l n" for n
    using same_log_view(1-4) [OF quiet_log [OF commit(3)]] termAt_view [of "rLog r'" l] by simp_all
  show ?thesis
  proof (rule that(2))
    show "j \<le> ?i \<longleftrightarrow> joint_majority (cfgVoters (trkConfig (rTrk r))) (acked_by m r j)" if "0 < j" for j
      using Committed_acked [OF pr(1) m2 ty that] commit(4) by simp
    show "lCommitted (rLog r') = (if rTerm r \<noteq> 0 \<and> lCommitted (rLog r) < ?i \<and> termAt (rLog r) (unat ?i) = Some (rTerm r)
        then ?i else lCommitted (rLog r))"
      unfolding l'(1) l by simp
    show "termAt (rLog r') n = termAt (rLog r) n" for n
      unfolding l'(2) l using termAt_view [of "(rLog r)\<lparr>lCommitted := ?i\<rparr>" "rLog r" n] by simp
  qed
qed

lemma leaderAppAccept_commit:
  assumes "leaderAppAccept m pr0 r = Some r'" and "progressOf (Message_GetFrom m) r = Some pr" and "prMatch pr0 = prMatch pr"
    and "Message_GetType m = MsgAppResp" "\<not> Message_GetReject m" and "log_ok (rLog r)"
  shows "same_commit r r' \<or> committed_by m r r'"
  using assms
proof (cases rule: leaderAppAccept_exact)
  case same
  then show ?thesis using same_commit_quiet by blast
next
  case (commit i)
  have "0 < i" if "lCommitted (rLog r) < i" using that by (simp add: word_gt_0 word_less_nat_alt)
  then show ?thesis
    using commit(1) [of i] commit(2,3) by (auto simp: committed_by_def same_commit_def)
qed

section \<open>The leader's handlers\<close>

lemma stepLeader_commit:
  assumes run: "stepLeader m r = Some (e, r')" and ok: "log_ok (rLog r)"
  shows "same_commit r r' \<or> committed_by m r r'"
proof -
  have acc: "same_commit r r' \<or> committed_by m r r'"
    if "leaderAppResp m pr r = Some r'" "progressOf (Message_GetFrom m) r = Some pr" "Message_GetType m = MsgAppResp" for pr
  proof (cases "Message_GetReject m")
    case True
    with that(1) show ?thesis
      using same_commit_quiet [OF leaderAppReject_quiet] by (simp add: leaderAppResp_def Let_def)
  next
    case False
    with that(1) have "leaderAppAccept m (pr\<lparr>prRecentActive := True\<rparr>) r = Some r'" by (simp add: leaderAppResp_def Let_def)
    then show ?thesis using that(2) _ that(3) False ok by (rule leaderAppAccept_commit) simp
  qed
  have cq: "same_commit r r'" if "stepLeaderCheckQuorum r = Some r'"
    using that by (rule stepLeaderCheckQuorum_parts)
      (metis same_commit_quiet same_commit_log sc.R_trans becomeFollower_Some(2))
  show ?thesis
    using run acc cq unfolding stepLeader_def
    by (auto split: if_split_asm option.split_asm intro: sc.R_refl same_commit_quiet quiet_intros stepLeaderProp_same_commit)
qed

lemma stepBody_leader_commit:
  assumes run: "stepBody m r = Some (e, r')" and ok: "role_ok r" "log_ok (rLog r)" and st: "rState r = StateLeader"
  shows "same_commit r r' \<or> committed_by m r r'"
proof -
  consider (stable) "Message_GetType m = MsgStorageAppendResp"
    | (applied) "Message_GetType m = MsgStorageApplyResp"
    | (vote) "Message_GetType m = MsgVote \<or> Message_GetType m = MsgPreVote"
    | (hup) "Message_GetType m = MsgHup"
    | (other) "Message_GetType m \<notin> {MsgStorageAppendResp, MsgStorageApplyResp, MsgVote, MsgPreVote, MsgHup}"
    by blast
  then show ?thesis
  proof cases
    case stable
    with run ok(1) show ?thesis using stepBody_stable_same_commit by blast
  next
    case applied
    with run obtain i s r1 n where "r' = r \<or> appliedTo i s r = Some r1 \<and> r' = reduceUncommittedSize n r1"
      by (auto simp: stepBody_def Let_def elim!: bindE split: if_split_asm)
    then show ?thesis
      using appliedTo_same_commit [OF _ ok(1)] same_commit_quiet [OF quiet_upd(12)] sc.R_trans sc.R_refl by metis
  next
    case vote
    then have "stepVote m r = Some r'" using run by (auto simp: stepBody_def)
    then show ?thesis using same_commit_log [OF stepVote_log] by blast
  next
    case hup
    then show ?thesis using run st by (auto simp: stepBody_def hup_def intro: sc.R_refl)
  next
    case other
    then have "callStep m r = Some (e, r')" using run by (simp add: stepBody_def)
    then have "stepLeader m r = Some (e, r')" using ok(1) st by (simp add: callStep_def role_ok_def)
    then show ?thesis using ok(2) by (rule stepLeader_commit)
  qed
qed

lemma Step_leader_commit:
  assumes run: "Step (Some m) r = Some (e, r')" and ok: "role_ok r" "log_ok (rLog r)" and st: "rState r = StateLeader"
    and room: "has_voters r" and sane: "msg_sane m" and t: "rTerm r' = rTerm r"
  shows "same_commit r r' \<or> committed_by m r r'"
proof (cases "Message_GetTerm m \<noteq> 0 \<and> Message_GetTerm m < rTerm r")
  case True
  then consider "r' = r" | x where "send x r = Some r'" | "appliedSnap (Message_GetSnapshot m) r = Some r'"
    using run by (auto simp: Step.simps elim!: bindE split: if_split_asm)
  then show ?thesis
    using ok(1) by cases (auto intro: sc.R_refl same_commit_log send_parts(8) appliedSnap_same_commit)
next
  case False
  note S = run [unfolded Step_body [OF False]]
  show ?thesis
  proof (cases "Message_GetTerm m \<noteq> 0 \<and> rTerm r < Message_GetTerm m")
    case True
    with S obtain go r1 where r1: "stepHigherTerm m r = Some (go, r1)"
      and r': "if go then stepBody m r1 = Some (e, r') else r' = r1"
      by (auto elim!: bindE split: if_split_asm)
    note h = stepHigherTerm_run [OF r1 _ sane room]
    have 1: "elect_run m r r1" using h(1) True by simp
    have "elect_run m r1 r'"
      using r' h True stepBody_run [OF _ _ elect_run_role_ok [OF 1 ok(1)] _ sane] by (cases go) auto
    then have le: "rTerm r1 \<le> rTerm r" using elect_run_vote_rel t by (fastforce simp: vote_rel_def)
    have "r1 = r \<or> rTerm r1 = Message_GetTerm m"
      using r1 by (auto simp: stepHigherTerm_def Let_def elim!: bindE split: if_split_asm
          dest!: becomeFollower_Some(1) simp: role_view_def)
    with le True have "r1 = r" by auto
    then show ?thesis using r' stepBody_leader_commit [OF _ ok st] sc.R_refl by (cases go) auto
  next
    case eq: False
    have "stepBody m r = Some (e, r')" using S eq by (simp split: if_split_asm)
    then show ?thesis using ok st by (rule stepBody_leader_commit)
  qed
qed

section \<open>Properties\<close>

text \<open>
  C4. The commit rule of a leader (section 5.4.2 of the Raft paper): whatever message a leader
  handles while it leads a term, its commit position either stays or moves up, and then to an
  entry of the leader's own term which a majority of both halves of its membership are known
  to hold: by the progress it tracks, or by the acknowledgement that it is handling.
\<close>

theorem leader_commit_rule:
  assumes "Step (Some m) r = Some (e, r')" and "role_ok r" and "log_ok (rLog r)" and "rState r = StateLeader"
    and "has_voters r" and "msg_sane m" and "rTerm r' = rTerm r" and "lCommitted (rLog r') \<noteq> lCommitted (rLog r)"
  shows "lCommitted (rLog r) < lCommitted (rLog r') \<and>
    termAt (rLog r') (unat (lCommitted (rLog r'))) = Some (rTerm r) \<and>
    joint_majority (cfgVoters (trkConfig (rTrk r)))
      {n. (\<exists>pr. progressOf n r = Some pr \<and> lCommitted (rLog r') \<le> prMatch pr) \<or>
          n = Message_GetFrom m \<and> Message_GetType m = MsgAppResp \<and> \<not> Message_GetReject m \<and>
          lCommitted (rLog r') \<le> Message_GetIndex m}"
  using Step_leader_commit [OF assms(1-7)] assms(8)
  by (simp add: same_commit_def committed_by_def acked_by_def)

text \<open>The leader of a group of one, with one entry of its term, and its own acknowledgement of it.\<close>

definition demoLeader :: raft where
  "demoLeader = demoFollower\<lparr>rTerm := 1, rVote := 1, rState := StateLeader, rStep := StepLeader, rTick := TickHeartbeat,
     rLead := 1,
     rLog := (rLog demoFollower)\<lparr>lUnstable := \<lparr>uSnapshot = None, uEntries = [Entry0\<lparr>eTerm := Some 1, eIndex := Some 1\<rparr>],
       uOffset = 1, uSnapshotInProgress = False, uOffsetInProgress = 1\<rparr>\<rparr>\<rparr>"

definition demoAck :: Message where
  "demoAck = Msg (Message0\<lparr>mType := Some MsgAppResp, mTo := Some 1, mFrom := Some 1, mTerm := Some 1, mIndex := Some 1\<rparr>) []"

lemma demoAck_gets [simp]:
  "Message_GetType demoAck = MsgAppResp" "Message_GetFrom demoAck = 1" "Message_GetTerm demoAck = 1"
  "Message_GetIndex demoAck = 1" "\<not> Message_GetReject demoAck"
  by (simp_all add: demoAck_def) (simp add: Message_GetIndex_def)

lemma demoLeader_log:
  "logBase (rLog demoLeader) = 0" "logEnts (rLog demoLeader) = [Entry0\<lparr>eTerm := Some 1, eIndex := Some 1\<rparr>]"
  "log_ok (rLog demoLeader)"
proof -
  show v: "logBase (rLog demoLeader) = 0" "logEnts (rLog demoLeader) = [Entry0\<lparr>eTerm := Some 1, eIndex := Some 1\<rparr>]"
    by (simp_all add: demoLeader_def demoFollower_def logBase_def logEnts_def stableEnts_def ms_view NewMemoryStorage_def
        getters zero_defs)
  have "log_shape (rLog demoLeader)"
    using NewMemoryStorage_ok
    by (simp add: log_shape_def demoLeader_def demoFollower_def unstable_ok_def getters)
      (simp add: NewMemoryStorage_def ms_view getters zero_defs)
  then show "log_ok (rLog demoLeader)" by (simp add: log_ok_def v) (simp add: demoLeader_def demoFollower_def)
qed

lemma bcastAppend_alone:
  assumes "dom (trkProgress (rTrk r)) = {rId r}"
  shows "bcastAppend r = Some r"
proof -
  obtain pr where "trkProgress (rTrk r) (rId r) = Some pr" using assms by blast
  then show ?thesis by (simp add: bcastAppend_def raft_Visit_def assms progressOf_def)
qed

lemma demo_commit:
  "\<exists>r. Step (Some demoAck) demoLeader = Some (None, r) \<and> rTerm r = 1 \<and> lCommitted (rLog r) = 1"
proof -
  obtain pr where pr: "progressOf 1 demoLeader = Some pr" "prMatch pr = 0" "prState pr = StateProbe"
    by (simp add: demoLeader_def demoFollower_def progressOf_def)
  obtain pu where up: "Progress_MaybeUpdate 1 (pr\<lparr>prRecentActive := True\<rparr>) = (pu, True)" "prState pu = StateProbe"
    "prMatch pu = 1"
    using pr by (simp add: Progress_MaybeUpdate_def)
  let ?pr = "Progress_BecomeReplicate pu"
  let ?q = "setProgress 1 ?pr demoLeader"
  let ?s = "?q\<lparr>rLog := (rLog demoLeader)\<lparr>lCommitted := 1\<rparr>\<rparr>"
  have "prMatch ?pr = 1" using up(3) by simp
  then have com: "ProgressTracker_Committed (rTrk ?q) = 1"
    by (simp add: ProgressTracker_Committed_def JointConfig_CommittedIndex_def MajorityConfig_CommittedIndex_def
        CommittedIndexOver_def MajorityConfig_Slice_def matchAckIndexer_def setProgress_def demoLeader_def Let_def word_order.not_eq_extremum [symmetric])
  have q: "rTerm ?q = 1" "rLog ?q = rLog demoLeader" "lCommitted (rLog demoLeader) = 0" "rLeadTransferee ?s = 0" "rId ?s = 1"
    by (simp_all add: setProgress_def demoLeader_def) (simp_all add: demoFollower_def)
  have t: "termAt (rLog demoLeader) 1 = Some 1" by (simp add: termAt_def demoLeader_log getters)
  have "maybeCommit \<lparr>idTerm = 1, idIndex = 1\<rparr> (rLog demoLeader) = Some (True, (rLog demoLeader)\<lparr>lCommitted := 1\<rparr>)"
    using commitTo_eq [OF log_okD [OF demoLeader_log(3)], of 1] t
    by (simp add: maybeCommit_def matchTerm_eq [OF log_okD [OF demoLeader_log(3)]] q(3) demoLeader_log(1,2))
  then have mc: "raft_maybeCommit ?q = Some (True, ?s)" unfolding raft_maybeCommit_def com q by simp
  have "rPendingReadIndexMessages ?s = []" by (simp add: demoLeader_def demoFollower_def setProgress_def)
  then have rel: "releasePendingReadIndexMessages ?s = Some ?s" by (simp add: releasePendingReadIndexMessages_def)
  have bc: "bcastAppend ?s = Some ?s"
    by (rule bcastAppend_alone) (simp add: setProgress_def demoLeader_def)
  have ack: "leaderAckProgress demoAck pu demoLeader = Some ?pr"
    using up(2) by (simp add: leaderAckProgress_def)
  have "leaderAppAccept demoAck (pr\<lparr>prRecentActive := True\<rparr>) demoLeader = Some ?s"
    using q(4,5) unfolding leaderAppAccept_def Let_def demoAck_gets up(1) prod.case ack
    by (simp add: mc rel bc)
  then have "leaderAppResp demoAck pr demoLeader = Some ?s" by (simp add: leaderAppResp_def Let_def)
  then have "stepLeader demoAck demoLeader = Some (None, ?s)"
    using pr(1) by (simp add: stepLeader_def nil_err_def)
  moreover have "rTerm demoLeader = 1" "rStep demoLeader = StepLeader" by (simp_all add: demoLeader_def)
  ultimately have "Step (Some demoAck) demoLeader = Some (None, ?s)"
    by (simp add: Step.simps callStep_def)
  then show ?thesis by (auto simp: setProgress_def demoLeader_def)
qed

lemma demoLeader_ok: "role_ok demoLeader" "has_voters demoLeader" "msg_sane demoAck" "rState demoLeader = StateLeader"
  by (simp_all add: role_ok_def has_voters_def JointConfig_IDs_def msg_sane_def demoLeader_def)
    (simp add: demoFollower_def)

theorem leader_commit_rule_witness:
  "\<exists>r. Step (Some demoAck) demoLeader = Some (None, r) \<and> termAt (rLog r) 1 = Some 1"
proof -
  obtain r where r: "Step (Some demoAck) demoLeader = Some (None, r)" "rTerm r = 1" "lCommitted (rLog r) = 1"
    using demo_commit by blast
  have "rTerm demoLeader = 1" "lCommitted (rLog demoLeader) = 0" by (simp_all add: demoLeader_def)
  with leader_commit_rule [OF r(1) demoLeader_ok(1) demoLeader_log(3) demoLeader_ok(4,2,3)] r
  show ?thesis by auto
qed

text \<open>
  C5. The leader commits as soon as it may: an acknowledgement that moves the sender's progress
  commits every index that it makes acknowledged by a majority of both halves of the
  membership, if the entries acknowledged by such a majority from that index on are of the
  leader's term.
\<close>

theorem leader_commits_acked:
  assumes "Step (Some m) r = Some (e, r')" and "role_ok r" and "log_ok (rLog r)" and "rState r = StateLeader"
    and "Message_GetType m = MsgAppResp" and "\<not> Message_GetReject m" and "Message_GetTerm m \<in> {0, rTerm r}"
    and "progressOf (Message_GetFrom m) r = Some pr" and "prMatch pr < Message_GetIndex m" and "0 < rTerm r"
    and "joint_majority (cfgVoters (trkConfig (rTrk r))) (acked_by m r i)"
    and "\<forall>j. i \<le> j \<and> joint_majority (cfgVoters (trkConfig (rTrk r))) (acked_by m r j) \<longrightarrow>
      termAt (rLog r) (unat j) = Some (rTerm r)"
  shows "i \<le> lCommitted (rLog r')"
proof -
  have "Step (Some m) r = stepLeader m r"
    using assms(2,4,5,7) by (auto simp: Step.simps callStep_def role_ok_def)
  with assms(1,5,6,8) have acc: "leaderAppAccept m (pr\<lparr>prRecentActive := True\<rparr>) r = Some r'"
    by (simp add: stepLeader_def leaderAppResp_def Let_def)
  have pm: "prMatch (pr\<lparr>prRecentActive := True\<rparr>) = prMatch pr" by simp
  from acc assms(8) pm assms(5,6,3) show ?thesis
  proof (cases rule: leaderAppAccept_exact)
    case same
    with assms(9) show ?thesis by simp
  next
    case (commit k)
    show ?thesis
    proof (cases "i \<le> lCommitted (rLog r)")
      case True
      then show ?thesis using commit(2) by (auto split: if_split_asm)
    next
      case False
      then have "0 < i" by (simp add: word_gt_0 word_less_nat_alt not_le)
      then have ik: "i \<le> k" using commit(1) assms(11) by blast
      with \<open>0 < i\<close> have "0 < k" by (rule less_le_trans)
      then have "termAt (rLog r) (unat k) = Some (rTerm r)" using assms(12) ik commit(1) [of k] by blast
      then show ?thesis using commit(2) assms(10) False ik by (auto simp: not_le)
    qed
  qed
qed

theorem leader_commits_acked_witness:
  "\<exists>r. Step (Some demoAck) demoLeader = Some (None, r) \<and> 1 \<le> lCommitted (rLog r)"
proof -
  obtain r where r: "Step (Some demoAck) demoLeader = Some (None, r)" using demo_commit by blast
  obtain pr where pr: "progressOf 1 demoLeader = Some pr" "prMatch pr = 0"
    by (simp add: demoLeader_def demoFollower_def progressOf_def)
  have p: "progressOf n demoLeader = (if n = 1 then Some pr else None)" for n
    using pr(1) by (simp add: demoLeader_def demoFollower_def progressOf_def split: if_split_asm)
  have a: "acked_by demoAck demoLeader j = (if j \<le> 1 then {1} else {})" for j
    using pr(2) by (auto simp: acked_by_def p)
  have c: "cfgVoters (trkConfig (rTrk demoLeader)) = (Some {1}, None)" "rTerm demoLeader = 1" by (simp_all add: demoLeader_def)
  have q: "joint_majority (Some {1}, None) (acked_by demoAck demoLeader j) \<longleftrightarrow> j \<le> 1" for j
    by (simp add: a joint_majority_def majority_def)
  have t: "\<forall>j. 1 \<le> j \<and> j \<le> 1 \<longrightarrow> termAt (rLog demoLeader) (unat j) = Some 1"
    by (auto dest: order_antisym simp: termAt_def demoLeader_log getters)
  from leader_commits_acked [OF r demoLeader_ok(1) demoLeader_log(3) demoLeader_ok(4), of pr 1, unfolded c q] pr t r
  show ?thesis by simp
qed

end
