(* ===== verification/Replication.thy ===== *)
theory Replication
  imports LeaderCommit
begin

text \<open>
  Sending the log to a follower: what the messages of the leader's replication loop hold and
  that the loop ends.
\<close>

section \<open>Reading the log from an index on\<close>

lemma log_entries_eq:
  assumes "log_shape l" and "total (logEnts l) < 2 ^ 64" and "logBase l < unat i" and "unat i \<le> Suc (logLast l)"
  shows "log_entries i m l = Some (Inr (limitSize (logRange l (unat i) (Suc (logLast l))) m))"
proof -
  note lt = logLast_lt [OF assms(1)]
  have n: "unat (of_nat (logLast l) :: uint64) = logLast l" using lt by (intro unat_of_nat64) simp
  have "unat (of_nat (Suc (logLast l)) :: uint64) = Suc (logLast l)" using lt by (rule unat_of_nat64)
  then have s: "unat (of_nat (logLast l) + 1 :: uint64) = Suc (logLast l)" by (simp add: add.commute)
  show ?thesis
  proof (cases "unat i = Suc (logLast l)")
    case True
    then have "i > of_nat (logLast l)" unfolding word_less_nat_alt n by simp
    with True show ?thesis by (simp add: log_entries_def log_lastIndex_eq [OF assms(1)] logRange_def limitSize_def)
  next
    case False
    with assms(4) have le: "unat i \<le> logLast l" by simp
    then have "\<not> i > of_nat (logLast l)" unfolding word_less_nat_alt n by simp
    moreover have "i \<le> of_nat (logLast l) + 1" using le s by (simp only: word_le_nat_alt)
    ultimately show ?thesis using log_slice_eq [OF assms(1-3), of "of_nat (logLast l) + 1" m] s
      by (simp add: log_entries_def log_lastIndex_eq [OF assms(1)])
  qed
qed

lemma logRange_limit:
  assumes "logBase l < n" and "n \<le> logLast l"
  obtains k where "0 < k" and "n + k \<le> Suc (logLast l)"
    and "limitSize (logRange l n (Suc (logLast l))) m = logRange l n (n + k)" and "length (logRange l n (n + k)) = k"
proof -
  let ?es = "logRange l n (Suc (logLast l))"
  have len: "length ?es = Suc (logLast l) - n" using assms by (auto simp: logRange_def)
  obtain k where k: "k \<le> length ?es" "limitSize ?es m = take k ?es"
    by (rule limitSize_prefix [of ?es m])
  have ne: "?es \<noteq> []" using len assms(2) by auto
  then have "0 < k" using k(2) limitSize_empty [of ?es m] by (cases k) auto
  moreover have "take k ?es = logRange l n (n + k)" using k(1) len by (simp add: logRange_def min_def)
  moreover have "length (logRange l n (n + k)) = k" using k(1) len assms by (auto simp: logRange_def min_def)
  ultimately show thesis using that [of k] k len by auto
qed

lemma logRange_join:
  assumes "logBase l < a" and "a \<le> b" and "b \<le> c"
  shows "logRange l a b @ logRange l b c = logRange l a c"
proof -
  have "drop (b - Suc (logBase l)) (logEnts l) = drop (b - a) (drop (a - Suc (logBase l)) (logEnts l))"
    using assms(1,2) by simp
  moreover have "c - a = (b - a) + (c - b)" using assms by simp
  ultimately show ?thesis unfolding logRange_def by (simp only: take_add)
qed

section \<open>One message\<close>

text \<open>
  The message that carries the entries of the log from \<open>n\<close> on: the position and term before
  them, the entries, and the commit position.
\<close>

definition append_at :: "raft \<Rightarrow> uint64 \<Rightarrow> nat \<Rightarrow> Message \<Rightarrow> bool" where
  "append_at r to n m \<longleftrightarrow> Message_GetType m = MsgApp \<and> Message_GetTo m = to \<and> Message_GetFrom m = rId r \<and>
     Message_GetTerm m = rTerm r \<and> unat (Message_GetIndex m) = n - 1 \<and>
     termAt (rLog r) (n - 1) = Some (Message_GetLogTerm m) \<and> Message_GetCommit m = lCommitted (rLog r) \<and>
     Message_GetEntries m \<noteq> [] \<and>
     Message_GetEntries m = logRange (rLog r) n (n + length (Message_GetEntries m))"

text \<open>The follower is in the replicating state and the next entry for it is one the log can supply.\<close>

definition replicating :: "raft \<Rightarrow> uint64 \<Rightarrow> Progress \<Rightarrow> bool" where
  "replicating r to pr \<longleftrightarrow> progressOf to r = Some pr \<and> prState pr = StateReplicate \<and> progress_inv pr \<and>
     logBase (rLog r) < unat (prNext pr) \<and> unat (prNext pr) \<le> Suc (logLast (rLog r))"

lemma sentEntries_replicate:
  assumes "progress_inv pr" and "prState pr = StateReplicate" and "\<not> Inflights_Full (prInflights pr)" and "0 < k"
    and "unat (prNext pr) + k < 2 ^ 64"
  obtains pr' where "Progress_SentEntries k b pr = Some pr'" and "progress_inv pr'" and "prState pr' = StateReplicate"
    and "unat (prNext pr') = unat (prNext pr) + k" and "prMatch pr' = prMatch pr"
    and "Progress_IsPaused pr' \<longleftrightarrow> Inflights_Full (prInflights pr')"
    and "length (window (prInflights pr')) = Suc (length (window (prInflights pr)))"
proof -
  have n: "unat (prNext pr + of_nat k) = unat (prNext pr) + k"
    using assms(5) by (simp add: unat_word_ariths unat_of_nat)
  obtain ins where "Inflights_Add (prNext pr + of_nat k - 1) b (prInflights pr) = Some ins"
    "length (window ins) = Suc (length (window (prInflights pr)))"
    using ring.add_ok [of "prInflights pr" _ b] assms(1,3) unfolding progress_inv_def by fastforce
  then obtain pr' where "Progress_SentEntries k b pr = Some pr'" "prState pr' = StateReplicate"
    "prNext pr' = prNext pr + of_nat k" "prMatch pr' = prMatch pr"
    "Progress_IsPaused pr' \<longleftrightarrow> Inflights_Full (prInflights pr')"
    "length (window (prInflights pr')) = Suc (length (window (prInflights pr)))"
    using assms(2,4) by (simp add: Progress_SentEntries_def Progress_IsPaused_def)
  with that n progress_inv_sentEntries [OF assms(1,5)] show thesis by metis
qed

lemma progressOf_set [simp]: "progressOf to (setProgress to pr r) = Some pr"
  by (simp add: progressOf_def setProgress_def)

text \<open>What the loop does not touch.\<close>

definition only_sends :: "uint64 \<Rightarrow> raft \<Rightarrow> raft \<Rightarrow> bool" where
  "only_sends to r r' \<longleftrightarrow> (\<exists>ms p. r' = setProgress to p (r\<lparr>rMsgs := ms\<rparr>))"

lemma only_sends_trans: "only_sends to r r1 \<Longrightarrow> only_sends to r1 r2 \<Longrightarrow> only_sends to r r2"
  by (auto simp: only_sends_def setProgress_def) (metis (no_types, lifting))

lemma only_sends_same:
  assumes "only_sends to r r'"
  shows "rLog r' = rLog r" "rId r' = rId r" "rTerm r' = rTerm r" "rMaxMsgSize r' = rMaxMsgSize r"
  using assms by (auto simp: only_sends_def setProgress_def)

lemma maybeSendAppend_replicating:
  assumes rep: "replicating r to pr" and ok: "log_ok (rLog r)" and tot: "total (logEnts (rLog r)) < 2 ^ 64" and to: "to \<noteq> rId r" "rId r \<noteq> 0"
  obtains (stop) "maybeSendAppend to False r = Some (False, r)"
      and "Progress_IsPaused pr \<or> Inflights_Full (prInflights pr) \<or> unat (prNext pr) = Suc (logLast (rLog r))"
  | (sent) m r' pr' where "maybeSendAppend to False r = Some (True, r')" and "append_at r to (unat (prNext pr)) m"
      and "rMsgs r' = rMsgs r @ [m]" and "only_sends to r r'" and "replicating r' to pr'"
      and "unat (prNext pr') = unat (prNext pr) + length (Message_GetEntries m)"
      and "\<not> Progress_IsPaused pr" and "Progress_IsPaused pr' \<Longrightarrow> Inflights_Full (prInflights pr')"
      and "length (window (prInflights pr')) = Suc (length (window (prInflights pr)))"
proof (cases "Progress_IsPaused pr")
  case True
  with rep stop show thesis by (simp add: maybeSendAppend_def replicating_def)
next
  case run: False
  note sh = log_okD [OF ok] and pr = rep [unfolded replicating_def]
  let ?n = "unat (prNext pr)"
  have n0: "prNext pr \<noteq> 0" using pr by auto
  have p: "unat (prNext pr - 1) = ?n - 1" using n0 by (rule unat_pred64)
  obtain t where t: "termAt (rLog r) (?n - 1) = Some t"
  proof (cases "?n - 1 = logBase (rLog r)")
    case False
    with pr have "logBase (rLog r) < ?n - 1" "?n - 1 \<le> logLast (rLog r)" by linarith+
    with that show ?thesis by (simp add: termAt_def)
  qed (use that in \<open>simp add: termAt_def\<close>)
  then have lt: "log_term (prNext pr - 1) (rLog r) = Some (Inr t)" by (simp add: log_term_eq [OF sh] p)
  note ents = log_entries_eq [OF sh tot, of "prNext pr" "rMaxMsgSize r"]
  show thesis
  proof (cases "Inflights_Full (prInflights pr) \<or> ?n = Suc (logLast (rLog r))")
    case True
    then have "?n = Suc (logLast (rLog r)) \<Longrightarrow> logRange (rLog r) ?n (Suc (logLast (rLog r))) = []" by (simp add: logRange_def)
    with True run pr lt ents have "maybeSendAppend to False r = Some (False, r)"
      by (auto simp: maybeSendAppend_def)
    with True stop show thesis by blast
  next
    case False
    then have "?n \<le> logLast (rLog r)" using pr by simp
    with pr obtain k where k: "0 < k" "?n + k \<le> Suc (logLast (rLog r))"
      "limitSize (logRange (rLog r) ?n (Suc (logLast (rLog r)))) (rMaxMsgSize r) = logRange (rLog r) ?n (?n + k)"
      "length (logRange (rLog r) ?n (?n + k)) = k"
      using logRange_limit [of "rLog r" ?n "rMaxMsgSize r"] by auto
    let ?es = "logRange (rLog r) ?n (?n + k)"
    obtain pr' where pr': "Progress_SentEntries k (payloadsSize ?es) pr = Some pr'" "progress_inv pr'" "prState pr' = StateReplicate"
      "unat (prNext pr') = ?n + k" "prMatch pr' = prMatch pr" "Progress_IsPaused pr' \<longleftrightarrow> Inflights_Full (prInflights pr')"
      "length (window (prInflights pr')) = Suc (length (window (prInflights pr)))"
      using sentEntries_replicate [of pr k "payloadsSize ?es"] pr False k(1,2) logLast_lt [OF sh] by auto
    let ?m = "Msg (Message0\<lparr>mTo := Some to, mType := Some MsgApp, mIndex := Some (prNext pr - 1), mLogTerm := Some t,
      mEntries := ?es, mCommit := Some (lCommitted (rLog r)), mFrom := Some (rId r), mTerm := Some (rTerm r)\<rparr>) []"
    let ?p = "Progress_SentCommit (lCommitted (rLog r)) pr'"
    let ?r = "setProgress to ?p (r\<lparr>rMsgs := rMsgs r @ [?m]\<rparr>)"
    have "send (Msg ((mkMsg (Some to) MsgApp)\<lparr>mIndex := Some (prNext pr - 1), mLogTerm := Some t, mEntries := ?es,
        mCommit := Some (lCommitted (rLog r))\<rparr>) []) r = Some (r\<lparr>rMsgs := rMsgs r @ [?m]\<rparr>)"
      using to by (simp add: send_def None_id_def upd_msg_def)
    with run pr lt ents False k(1,3,4) pr'(1) have "maybeSendAppend to False r = Some (True, ?r)"
      by (simp add: maybeSendAppend_def)
    moreover have "append_at r to ?n ?m"
      using k(1,4) p t by (auto simp: append_at_def getters)
    moreover have "replicating ?r to ?p"
      using pr'(2-4) pr k(2) progress_inv_sentCommit by (simp add: replicating_def Progress_SentCommit_def setProgress_def progressOf_def progress_inv_def)
    moreover have "Progress_IsPaused ?p \<Longrightarrow> Inflights_Full (prInflights ?p)"
      using pr'(3,6) by (simp add: Progress_SentCommit_def Progress_IsPaused_def)
    ultimately show thesis using k(4) pr'(4,7) run
      by (intro sent [of ?r ?m ?p]) (auto simp: only_sends_def setProgress_def Progress_SentCommit_def getters)
  qed
qed

section \<open>The loop\<close>

text \<open>A run of messages that carries the log from \<open>n\<close> up to \<open>n'\<close> without gap or overlap.\<close>

fun appends_from :: "raft \<Rightarrow> uint64 \<Rightarrow> nat \<Rightarrow> Message list \<Rightarrow> nat \<Rightarrow> bool" where
  "appends_from r to n [] n' \<longleftrightarrow> n' = n"
| "appends_from r to n (m # ms) n' \<longleftrightarrow>
     append_at r to n m \<and> appends_from r to (n + length (Message_GetEntries m)) ms n'"

lemma append_at_same: "only_sends to r r' \<Longrightarrow> append_at r' to n m = append_at r to n m"
  by (simp add: append_at_def only_sends_same)

lemma appends_from_same: "only_sends to r r' \<Longrightarrow> appends_from r' to n ms n' = appends_from r to n ms n'"
  by (induction ms arbitrary: n) (simp_all add: append_at_same)

lemma appends_from_le: "appends_from r to n ms n' \<Longrightarrow> n \<le> n'"
  by (induction ms arbitrary: n) fastforce+

lemma appends_from_range:
  "appends_from r to n ms n' \<Longrightarrow> logBase (rLog r) < n \<Longrightarrow> concat (map Message_GetEntries ms) = logRange (rLog r) n n'"
proof (induction ms arbitrary: n)
  case Nil
  then show ?case by (simp add: logRange_def)
next
  case (Cons m ms)
  let ?k = "n + length (Message_GetEntries m)"
  have "Message_GetEntries m = logRange (rLog r) n ?k" "appends_from r to ?k ms n'"
    using Cons.prems(1) by (simp_all add: append_at_def)
  moreover have "concat (map Message_GetEntries ms) = logRange (rLog r) ?k n'"
    using Cons.IH [of ?k] Cons.prems by simp
  ultimately show ?case
    using logRange_join [of "rLog r" n ?k n'] Cons.prems(2) appends_from_le by simp
qed

lemma sendAppends_run:
  assumes "replicating r to pr" and "log_ok (rLog r)" and "total (logEnts (rLog r)) < 2 ^ 64"
    and "to \<noteq> rId r" "rId r \<noteq> 0"
  shows "\<exists>r' ms pr'. sendAppends to r = Some r' \<and> rMsgs r' = rMsgs r @ ms \<and> replicating r' to pr' \<and>
    appends_from r to (unat (prNext pr)) ms (unat (prNext pr')) \<and> (r' = r \<or> only_sends to r r') \<and>
    length (window (prInflights pr')) = length (window (prInflights pr)) + length ms \<and>
    (Inflights_Full (prInflights pr') \<or> unat (prNext pr') = Suc (logLast (rLog r)) \<or> Progress_IsPaused pr \<and> pr' = pr)"
  using assms
proof (induction "Suc (logLast (rLog r)) - unat (prNext pr)" arbitrary: r pr rule: less_induct)
  case less
  from less.prems show ?case
  proof (cases rule: maybeSendAppend_replicating)
    case stop
    then have "sendAppends to r = Some r" by (subst sendAppends.simps) simp
    with stop(2) less.prems(1) show ?thesis by (intro exI [of _ r] exI [of _ "[]"] exI [of _ pr]) auto
  next
    case (sent m r1 pr1)
    note same = only_sends_same [OF sent(4)]
    have "Message_GetEntries m \<noteq> []" using sent(2) by (simp add: append_at_def)
    then have "0 < length (Message_GetEntries m)" by simp
    moreover have "unat (prNext pr1) \<le> Suc (logLast (rLog r))" using sent(5) by (simp add: same replicating_def)
    ultimately have "Suc (logLast (rLog r1)) - unat (prNext pr1) < Suc (logLast (rLog r)) - unat (prNext pr)"
      using sent(6) unfolding same by linarith
    from less.hyps [OF this sent(5)] less.prems same obtain r' ms pr' where
      run: "sendAppends to r1 = Some r'" "rMsgs r' = rMsgs r1 @ ms" "replicating r' to pr'"
        "appends_from r1 to (unat (prNext pr1)) ms (unat (prNext pr'))" "r' = r1 \<or> only_sends to r1 r'"
        "length (window (prInflights pr')) = length (window (prInflights pr1)) + length ms"
        "Inflights_Full (prInflights pr') \<or> unat (prNext pr') = Suc (logLast (rLog r)) \<or> Progress_IsPaused pr1 \<and> pr' = pr1" by auto
    have "sendAppends to r = Some r'" using sent(1) run(1) by (subst sendAppends.simps) simp
    moreover have "appends_from r to (unat (prNext pr)) (m # ms) (unat (prNext pr'))"
      using sent(2,6) run(4) by (simp add: appends_from_same [OF sent(4)])
    moreover have "only_sends to r r'" using run(5) sent(4) only_sends_trans by blast
    moreover have "Inflights_Full (prInflights pr') \<or> unat (prNext pr') = Suc (logLast (rLog r))"
      using run(7) sent(8) by blast
    ultimately show ?thesis using run(2,3,6) sent(3,9)
      by (intro exI [of _ r'] exI [of _ "m # ms"] exI [of _ pr']) auto
  qed
qed

section \<open>Properties\<close>

text \<open>
  C10. The leader's replication loop returns. It sends a run of \<^verbatim>\<open>MsgApp\<close> messages that, put
  together, are the part of the log from the follower's next index on, without gap or overlap,
  each with the index and term before its entries and the leader's term and commit position; it
  moves the next index past what was sent and stops only when nothing is left to send or the
  follower's window is full, which has grown by one slot for each message (a follower that was
  paused is left alone); and it changes nothing but the outbox and that progress.
\<close>

theorem send_appends_complete:
  assumes "progressOf to r = Some pr" and "prState pr = StateReplicate" and "progress_inv pr"
    and "logBase (rLog r) < unat (prNext pr)" and "unat (prNext pr) \<le> Suc (logLast (rLog r))"
    and "log_ok (rLog r)" and "total (logEnts (rLog r)) < 2 ^ 64" and "to \<noteq> rId r" and "rId r \<noteq> 0"
  shows "\<exists>r' ms pr'. sendAppends to r = Some r' \<and> rMsgs r' = rMsgs r @ ms \<and>
    r' = setProgress to pr' (r\<lparr>rMsgs := rMsgs r @ ms\<rparr>) \<and> progress_inv pr' \<and>
    appends_from r to (unat (prNext pr)) ms (unat (prNext pr')) \<and>
    concat (map Message_GetEntries ms) = logRange (rLog r) (unat (prNext pr)) (unat (prNext pr')) \<and>
    length (window (prInflights pr')) = length (window (prInflights pr)) + length ms \<and>
    (Inflights_Full (prInflights pr') \<or> unat (prNext pr') = Suc (logLast (rLog r)) \<or> Progress_IsPaused pr \<and> pr' = pr)"
proof -
  have rep: "replicating r to pr" using assms(1-5) by (simp add: replicating_def)
  obtain r' ms pr' where run: "sendAppends to r = Some r'" "rMsgs r' = rMsgs r @ ms" "replicating r' to pr'"
      "appends_from r to (unat (prNext pr)) ms (unat (prNext pr'))" "r' = r \<or> only_sends to r r'"
      "length (window (prInflights pr')) = length (window (prInflights pr)) + length ms"
      "Inflights_Full (prInflights pr') \<or> unat (prNext pr') = Suc (logLast (rLog r)) \<or> Progress_IsPaused pr \<and> pr' = pr"
    using sendAppends_run [OF rep assms(6-9)] by blast
  have "r' = setProgress to pr' (r\<lparr>rMsgs := rMsgs r @ ms\<rparr>)"
    using run(2,3,5) by (auto simp: replicating_def only_sends_def setProgress_def progressOf_def fun_upd_idem)
  with run appends_from_range [OF run(4) assms(4)] show ?thesis by (auto simp: replicating_def)
qed

text \<open>A follower that has acknowledged nothing, beside the leader with one entry.\<close>

definition demoPeer :: Progress where
  "demoPeer = \<lparr>prMatch = 0, prNext = 1, prSentCommit = 0, prState = StateReplicate, prPendingSnapshot = 0,
     prRecentActive = True, prMsgAppFlowPaused = False, prInflights = NewInflights 8 0, prIsLearner = False\<rparr>"

theorem send_appends_complete_witness:
  "\<exists>r' pr'. sendAppends 2 (setProgress 2 demoPeer demoLeader) = Some r' \<and> progressOf 2 r' = Some pr' \<and>
    (Inflights_Full (prInflights pr') \<or>
     concat (map Message_GetEntries (rMsgs r')) = [Entry0\<lparr>eTerm := Some 1, eIndex := Some 1\<rparr>])"
proof -
  let ?r = "setProgress 2 demoPeer demoLeader"
  have l: "rLog ?r = rLog demoLeader" "rId ?r = 1" "rMsgs ?r = []" by (simp_all add: setProgress_def demoLeader_def demoFollower_def)
  have p: "prState demoPeer = StateReplicate" "progress_inv demoPeer" "unat (prNext demoPeer) = 1" "\<not> Progress_IsPaused demoPeer"
    using inflights_new [of 8 0] by (simp_all add: demoPeer_def progress_inv_def Progress_IsPaused_def)
  have t: "total (logEnts (rLog demoLeader)) < 2 ^ 64"
    by (simp add: demoLeader_log esize_def Entry_SizeMessage_def zero_defs sizeOpt_def
        sizeOptBytes_def sizeBytes_def sizeVarint_def sizeVarintLoop.simps)
  obtain r' ms pr' where run: "sendAppends 2 ?r = Some r'" "rMsgs r' = ms" "r' = setProgress 2 pr' (?r\<lparr>rMsgs := ms\<rparr>)"
    "concat (map Message_GetEntries ms) = logRange (rLog demoLeader) 1 (unat (prNext pr'))"
    "Inflights_Full (prInflights pr') \<or> unat (prNext pr') = 2"
    using send_appends_complete [of 2 ?r demoPeer] p(4) unfolding l p(3) using demoLeader_log t p(1-3) by auto
  moreover have "logRange (rLog demoLeader) 1 2 = [Entry0\<lparr>eTerm := Some 1, eIndex := Some 1\<rparr>]"
    by (simp add: logRange_def demoLeader_log)
  moreover have "progressOf 2 r' = Some pr'" using run(3) by simp
  ultimately show ?thesis by metis
qed

end
