(* ===== verification/ReadyContract.thy ===== *)
theory ReadyContract
  imports NodeLog
begin

text \<open>
  The contract of \<^verbatim>\<open>Ready\<close>: when collecting the pending output of a node panics, what it hands
  over, and that nothing is pending afterwards. The budget for entries being applied is an
  invariant of every step of the log.
\<close>

section \<open>The budget for entries being applied\<close>

text \<open>
  The size limit of a new node: \<^verbatim>\<open>MaxCommittedSizePerReady\<close>, which \<^verbatim>\<open>validate\<close> sets to
  \<^verbatim>\<open>MaxSizePerMsg\<close> when it is 0.
\<close>

definition applyBudget :: "RaftConfig \<Rightarrow> uint64" where
  "applyBudget c = (if cMaxCommittedSizePerReady c = 0 then cMaxSizePerMsg c else cMaxCommittedSizePerReady c)"

text \<open>While the log is not paused, the entries being applied leave some of the limit, unless it is 0.\<close>

definition budget_ok :: "uint64 \<Rightarrow> raftLog \<Rightarrow> bool" where
  "budget_ok m l \<longleftrightarrow> lMaxApplyingEntsSize l = m \<and> (\<not> lApplyingEntsPaused l \<longrightarrow>
     lApplyingEntsSize l < m \<or> lApplyingEntsSize l = 0 \<and> m = 0)"

lemma budget_ok_upd [simp]:
  "budget_ok m (l\<lparr>lUnstable := u\<rparr>) = budget_ok m l" "budget_ok m (l\<lparr>lStorage := ms\<rparr>) = budget_ok m l"
  "budget_ok m (l\<lparr>lCommitted := c\<rparr>) = budget_ok m l"
  by (simp_all add: budget_ok_def)

lemma commitTo_budget: "commitTo c l = Some l' \<Longrightarrow> budget_ok m l \<Longrightarrow> budget_ok m l'"
  by (auto simp: commitTo_def panic_if_def elim!: bindE split: if_split_asm)

lemma log_append_budget: "log_append es l = Some (li, l') \<Longrightarrow> budget_ok m l \<Longrightarrow> budget_ok m l'"
  by (auto simp: log_append_def panic_if_def Let_def elim!: bindE split: if_split_asm)

lemma maybeAppend_budget:
  assumes "maybeAppend a c l = Some (r, l')" and "budget_ok m l"
  shows "budget_ok m l'"
proof -
  have "l' = l \<or> (\<exists>l1 k. (l1 = l \<or> (\<exists>es li. log_append es l = Some (li, l1))) \<and> commitTo k l1 = Some l')"
    using assms(1) by (fastforce simp: maybeAppend_def Let_def elim!: bindE bind_prodE split: if_split_asm)
  with assms(2) show ?thesis using commitTo_budget log_append_budget by blast
qed

lemma appliedTo_budget: "log_appliedTo i siz l = Some l' \<Longrightarrow> budget_ok m l \<Longrightarrow> budget_ok m l'"
  by (auto simp: log_appliedTo_def panic_if_def Let_def budget_ok_def not_le word_gt_0 split: if_split_asm)

lemma acceptApplying_budget: "acceptApplying i siz b l = Some l' \<Longrightarrow> budget_ok m l \<Longrightarrow> budget_ok m l'"
  by (auto simp: acceptApplying_def panic_if_def Let_def budget_ok_def not_le word_gt_0 split: if_split_asm)

lemma log_step_budget: "log_step l l' \<Longrightarrow> budget_ok m l \<Longrightarrow> budget_ok m l'"
proof (induction rule: log_step.induct)
  case (maybe_commit at l b l')
  then show ?case
    using commitTo_budget by (auto simp: maybeCommit_def elim!: bindE split: if_split_asm)
next
  case (read_snapshot l)
  then show ?case by (auto simp: log_snapshot_def split: option.split prod.split)
qed (auto simp: log_restore_def acceptUnstable_def log_stableTo_def log_stableSnapTo_def elim!: bindE
  intro: log_append_budget maybeAppend_budget commitTo_budget appliedTo_budget acceptApplying_budget)

lemma log_steps_budget: "log_step\<^sup>*\<^sup>* l l' \<Longrightarrow> budget_ok m l \<Longrightarrow> budget_ok m l'"
  by (induction rule: rtranclp_induct) (auto intro: log_step_budget)

lemma validate_budget: "validate c = Inr c' \<Longrightarrow> cMaxCommittedSizePerReady c' = applyBudget c"
  by (auto simp: validate_def applyBudget_def Let_def split: if_split_asm)

lemma newLogWithSize_budget: "newLogWithSize ms m = Some l \<Longrightarrow> budget_ok m l"
  by (auto simp: newLogWithSize_def budget_ok_def word_gt_0 Let_def elim!: bindE)

lemma newRaft_budget:
  assumes "newRaft c draws = Some r" and "cStorage c = Some ms" and "ms_ok ms"
  shows "budget_ok (applyBudget c) (rLog r)"
  using assms
proof (rule newRaft_log_parts)
  fix c' l0 ms' r1 r2
  assume c: "validate c = Inr c'" and l0: "newLogWithSize ms (cMaxCommittedSizePerReady c') = Some l0"
    and r1: "log_step\<^sup>*\<^sup>* (l0\<lparr>lStorage := ms'\<rparr>) (rLog r1)"
    and r2: "rLog r2 = rLog r1 \<or> (\<exists>hs. loadState hs r1 = Some r2)"
    and r: "rLog r = rLog r2 \<or> (\<exists>i. log_appliedTo i 0 (rLog r2) = Some (rLog r))"
  have "budget_ok (applyBudget c) l0" using newLogWithSize_budget [OF l0] validate_budget [OF c] by simp
  then have "budget_ok (applyBudget c) (rLog r1)" using log_steps_budget [OF r1] by simp
  then have "budget_ok (applyBudget c) (rLog r2)"
    using r2 by (auto simp: loadState_def panic_if_def elim!: bindE split: if_split_asm)
  then show "budget_ok (applyBudget c) (rLog r)" using r appliedTo_budget by fastforce
qed

text \<open>What is handed to the application, and when handing it over panics.\<close>

lemma nextCommittedEnts_eq:
  assumes "log_ok l" and "total (logEnts l) < 2 ^ 64" and "budget_ok m l"
  shows "nextCommittedEnts u l =
    (if \<not> hasNextCommittedEnts u l then Some []
     else if m = 0 \<or> unat (lApplying l) < logBase l then None
     else Some (limitSize (logRange l (Suc (unat (lApplying l))) (Suc (unat (maxAppliableIndex u l))))
       (m - lApplyingEntsSize l)))"
proof (cases "hasNextCommittedEnts u l")
  case True
  then have more: "\<not> lApplyingEntsPaused l" "uSnapshot (lUnstable l) = None"
    "lApplying l + 1 < maxAppliableIndex u l + 1"
    unfolding hasNextCommittedEnts_def hasNextOrInProgressSnapshot_def by (metis (full_types))+
  have m: "lMaxApplyingEntsSize l = m" and "m - lApplyingEntsSize l \<le> 0 \<longleftrightarrow> m = 0"
    using assms(3) more(1) by (auto simp: budget_ok_def)
  then show ?thesis
    using True committed_slice(1) [OF assms(1,2) more(3)] more
    by (auto simp: nextCommittedEnts_def hasNextOrInProgressSnapshot_def or_panic_def panic_if_def Let_def not_le)
qed (simp add: nextCommittedEnts_def hasNextCommittedEnts_def Let_def not_less split: if_split_asm)

section \<open>Collecting the output\<close>

lemma newStorageAppendRespMsg_returns:
  assumes "log_shape (rLog r)"
  shows "\<exists>m. newStorageAppendRespMsg r rd = Some m"
  by (rule log_lastEntryID_eq [OF assms]) (simp add: newStorageAppendRespMsg_def Let_def)

lemma newStorageAppendMsg_returns:
  assumes "log_shape (rLog r)"
  shows "\<exists>m. newStorageAppendMsg r rd = Some m"
  using newStorageAppendRespMsg_returns [OF assms, of rd] by (auto simp: newStorageAppendMsg_def Let_def)

lemma newStorageAppendMsg_Some:
  assumes "newStorageAppendMsg r rd = Some m"
  shows "Message_GetTo m = LocalAppendThread \<and> (\<exists>acks. mResponses m = rMsgsAfterAppend r @ acks)"
  using assms by (auto simp: newStorageAppendMsg_def Let_def Message_GetTo_def elim!: bindE split: if_split_asm)

lemma async_messages:
  assumes "do {
      rd2 \<leftarrow> (if needStorageAppendMsg r rd1 then do {
          m \<leftarrow> newStorageAppendMsg r rd1;
          Some (rd1\<lparr>rdMessages := rdMessages rd1 @ [m]\<rparr>)
        } else Some rd1);
      Some (if needStorageApplyMsg rd2 then rd2\<lparr>rdMessages := rdMessages rd2 @ [newStorageApplyMsg r rd2]\<rparr> else rd2)
    } = Some rd"
  shows "\<exists>ms. rdMessages rd = rdMessages rd1 @ ms \<and> (rMsgsAfterAppend r \<noteq> [] \<longrightarrow>
    (\<exists>m acks. m \<in> set ms \<and> Message_GetTo m = LocalAppendThread \<and> mResponses m = rMsgsAfterAppend r @ acks))"
proof (cases "needStorageAppendMsg r rd1")
  case True
  with assms obtain m where "newStorageAppendMsg r rd1 = Some m"
    "rdMessages rd = rdMessages rd1 @ [m] \<or> (\<exists>x. rdMessages rd = rdMessages rd1 @ [m, x])"
    by (auto elim!: bindE split: if_split_asm)
  with newStorageAppendMsg_Some [of r rd1 m] show ?thesis by (elim disjE exE) auto
next
  case False
  with assms show ?thesis by (auto simp: needStorageAppendMsg_def)
qed

lemma readyWithoutAccept_async:
  assumes "readyWithoutAccept rn = Some rd" and "nAsyncStorageWrites rn"
  shows "\<exists>ms. rdMessages rd = rMsgs (nRaft rn) @ ms \<and> (rMsgsAfterAppend (nRaft rn) \<noteq> [] \<longrightarrow>
    (\<exists>m acks. m \<in> set ms \<and> Message_GetTo m = LocalAppendThread \<and> mResponses m = rMsgsAfterAppend (nRaft rn) @ acks))"
  using async_messages [OF assms(1) [unfolded readyWithoutAccept_def Let_def readyWithoutAccept_Some(1,2) [OF assms(1)]
    bind.bind_lunit if_P [OF assms(2)]]] by simp

lemma acceptReady_returns:
  assumes "log_shape (rLog (nRaft rn))" and "nAsyncStorageWrites rn \<or> nStepsOnAdvance rn = []"
    and "rdCommittedEntries rd \<noteq> [] \<Longrightarrow> Entry_GetIndex (last (rdCommittedEntries rd)) \<le> lCommitted (rLog (nRaft rn))"
  shows "\<exists>rn'. acceptReady rd rn = Some rn'"
proof -
  define n1 where "n1 = (case rdSoftState rd of None \<Rightarrow> rn | Some ss \<Rightarrow> rn\<lparr>nPrevSoftSt := ss\<rparr>)"
  define n2 where "n2 = (case rdHardState rd of None \<Rightarrow> n1
       | Some hs \<Rightarrow> if \<not> IsEmptyHardState (Some hs) then n1\<lparr>nPrevHardSt := hs\<rparr> else n1)"
  define n3 where "n3 = (if length (rdReadStates rd) \<noteq> 0 then n2\<lparr>nRaft := (nRaft n2)\<lparr>rReadStates := []\<rparr>\<rparr> else n2)"
  have n: "rLog (nRaft n3) = rLog (nRaft rn)" "nAsyncStorageWrites n3 = nAsyncStorageWrites rn"
    "nStepsOnAdvance n3 = nStepsOnAdvance rn"
    by (auto simp: n3_def n2_def n1_def split: option.split)
  obtain m where m: "newStorageAppendRespMsg (nRaft n3) rd = Some m"
    using newStorageAppendRespMsg_returns [of "nRaft n3"] assms(1) n(1) by auto
  let ?i = "Entry_GetIndex (rdCommittedEntries rd ! (length (rdCommittedEntries rd) - 1))"
  have c: "rdCommittedEntries rd \<noteq> [] \<Longrightarrow> acceptApplying ?i siz u (acceptUnstable (rLog (nRaft rn))) \<noteq> None" for siz u
    using assms(3) by (simp add: acceptApplying_def Let_def last_conv_nth acceptUnstable_def)
  have "acceptReady rd rn \<noteq> None"
    unfolding acceptReady_def Let_def n1_def [symmetric] n2_def [symmetric] n3_def [symmetric] bind_eq_None_conv
    using assms(2) m c by (auto simp: n panic_if_def bind_eq_None_conv simp del: not_None_eq One_nat_def)
  then show ?thesis by blast
qed

lemma acceptReady_advanced:
  "\<not> nAsyncStorageWrites rn \<Longrightarrow> nStepsOnAdvance rn \<noteq> [] \<Longrightarrow> acceptReady rd rn = None"
  by (cases "rdSoftState rd"; cases "rdHardState rd") (auto simp: acceptReady_def panic_if_def Let_def)

lemma takeReady_None_iff:
  assumes "log_ok (rLog (nRaft rn))" and "total (logEnts (rLog (nRaft rn))) < 2 ^ 64"
  shows "takeReady rn = None \<longleftrightarrow> \<not> nAsyncStorageWrites rn \<and> nStepsOnAdvance rn \<noteq> [] \<or>
    nextCommittedEnts (applyUnstableEntries rn) (rLog (nRaft rn)) = None"
proof -
  let ?l = "rLog (nRaft rn)"
  note sh = log_okD [OF assms(1)]
  have u: "unstable_ok (lUnstable ?l)" using sh by (simp add: log_shape_def)
  have m: "newStorageAppendMsg (nRaft rn) rd \<noteq> None" for rd using newStorageAppendMsg_returns [OF sh] by blast
  have none: "readyWithoutAccept rn = None" if "nextCommittedEnts (applyUnstableEntries rn) ?l = None"
    by (simp add: readyWithoutAccept_def Let_def that)
  have some: "readyWithoutAccept rn \<noteq> None" if "nextCommittedEnts (applyUnstableEntries rn) ?l = Some es" for es
    unfolding readyWithoutAccept_def Let_def nextUnstableEnts_def nextEntries_eq [OF u] that bind_eq_None_conv
    by (simp add: bind_eq_None_conv m del: not_None_eq)
  have last: "Entry_GetIndex (last es) \<le> lCommitted ?l"
    if "nextCommittedEnts (applyUnstableEntries rn) ?l = Some es" "es \<noteq> []" for es
    using nextCommittedEnts_last [OF assms that] nextCommittedEnts_Some(2) [OF assms that(1)]
    by (simp add: word_le_nat_alt)
  show ?thesis
  proof (cases "readyWithoutAccept rn")
    case None
    then show ?thesis using some by (cases "nextCommittedEnts (applyUnstableEntries rn) ?l") (auto simp: takeReady_def)
  next
    case (Some rd)
    note es = readyWithoutAccept_Some(2) [OF Some]
    have "acceptReady rd rn = None \<longleftrightarrow> \<not> nAsyncStorageWrites rn \<and> nStepsOnAdvance rn \<noteq> []"
      using acceptReady_returns [OF sh, of rd] last [OF es] acceptReady_advanced [of rn rd] by fastforce
    with Some es show ?thesis by (auto simp: takeReady_def bind_eq_None_conv)
  qed
qed

section \<open>Nothing is left\<close>

lemma acceptUnstable_none_left:
  assumes "log_shape l"
  shows "hasNextUnstableEnts (acceptUnstable l) = Some False" "\<not> hasNextUnstableSnapshot (acceptUnstable l)"
    "hasNextOrInProgressSnapshot (acceptUnstable l) = hasNextOrInProgressSnapshot l"
    "maxAppliableIndex b (acceptUnstable l) = maxAppliableIndex b l"
proof -
  have u: "unstable_ok (lUnstable l)" using assms by (simp add: log_shape_def)
  note eq = acceptInProgress_eq [OF u] and ok = acceptInProgress_ok [OF u]
  have "unat (of_nat (uEnd (lUnstable l)) :: uint64) = uEnd (lUnstable l)"
    using uEnd_lt [OF u] by (rule unat_of_nat64)
  then show "hasNextUnstableEnts (acceptUnstable l) = Some False"
    using nextEntries_eq [OF ok] by (simp add: hasNextUnstableEnts_def acceptUnstable_def eq nextUnstableEnts_def)
  show "\<not> hasNextUnstableSnapshot (acceptUnstable l)"
    by (simp add: hasNextUnstableSnapshot_def nextUnstableSnapshot_def nextSnapshot_def acceptUnstable_def acceptInProgress_def Let_def)
  show "hasNextOrInProgressSnapshot (acceptUnstable l) = hasNextOrInProgressSnapshot l"
    "maxAppliableIndex b (acceptUnstable l) = maxAppliableIndex b l"
    by (simp_all add: hasNextOrInProgressSnapshot_def maxAppliableIndex_def acceptUnstable_def eq Let_def)
qed

lemma max64: "unat MaxUint64 = 18446744073709551615"
  by (simp add: unat_eq_nat_uint uint_word_ariths)

lemma succ_mono64: "y \<le> x \<Longrightarrow> x \<noteq> MaxUint64 \<Longrightarrow> y + 1 \<le> x + 1" for x y :: uint64
  using unat_Suc64 [of x] unat_Suc64 [of y] by (cases "y = MaxUint64") (auto simp: word_le_nat_alt)

lemma acceptApplying_none_left:
  assumes "acceptApplying i siz b l = Some l'" and "i \<noteq> MaxUint64"
  shows "\<not> hasNextCommittedEnts b l'" "lUnstable l' = lUnstable l" "lApplying l' = i"
    "hasNextOrInProgressSnapshot l' = hasNextOrInProgressSnapshot l" "lCommitted l' = lCommitted l"
proof -
  show l': "lUnstable l' = lUnstable l" "lApplying l' = i" "lCommitted l' = lCommitted l"
    using assms(1) by (auto simp: acceptApplying_def panic_if_def Let_def split: if_split_asm)
  then show "hasNextOrInProgressSnapshot l' = hasNextOrInProgressSnapshot l"
    by (simp add: hasNextOrInProgressSnapshot_def)
  have "maxAppliableIndex b l' = maxAppliableIndex b (l\<lparr>lApplying := i, lApplyingEntsSize := lApplyingEntsSize l + siz\<rparr>)"
    using l' by (simp add: maxAppliableIndex_def Let_def)
  then have "lApplyingEntsPaused l' \<or> maxAppliableIndex b l' \<le> i"
    using assms(1) by (auto simp: acceptApplying_def panic_if_def Let_def not_less split: if_split_asm)
  then show "\<not> hasNextCommittedEnts b l'"
    using succ_mono64 [OF _ assms(2)] l'(2) by (auto simp: hasNextCommittedEnts_def not_less)
qed

lemma HasReady_after:
  assumes tk: "takeReady rn = Some (rd, rn')" and ok: "log_ok (rLog (nRaft rn))" and t: "total (logEnts (rLog (nRaft rn))) < 2 ^ 64"
  shows "HasReady rn' = Some False" and "unat (lApplying (rLog (nRaft rn'))) = unat (lApplying (rLog (nRaft rn))) + length (rdCommittedEntries rd)"
proof -
  let ?l = "rLog (nRaft rn)" and ?u = "applyUnstableEntries rn" and ?es = "rdCommittedEntries rd"
  note rd = readyWithoutAccept_Some [OF takeReady_Some(1) [OF tk]] and sh = log_okD [OF ok]
  note left = acceptUnstable_none_left [OF sh]
  obtain l where r: "nRaft rn' = (nRaft rn)\<lparr>rReadStates := (if rdReadStates rd = [] then rReadStates (nRaft rn) else []),
        rMsgs := [], rMsgsAfterAppend := [], rLog := l\<rparr>"
    and l: "if ?es = [] then l = acceptUnstable ?l
      else acceptApplying (Entry_GetIndex (last ?es)) (entsSize ?es) ?u (acceptUnstable ?l) = Some l"
    and as: "nAsyncStorageWrites rn' = nAsyncStorageWrites rn"
    and pst: "nPrevSoftSt rn' = (case rdSoftState rd of None \<Rightarrow> nPrevSoftSt rn | Some ss \<Rightarrow> ss)"
      "nPrevHardSt rn' = (case rdHardState rd of None \<Rightarrow> nPrevHardSt rn
      | Some hs \<Rightarrow> if IsEmptyHardState (Some hs) then nPrevHardSt rn else hs)"
    by (rule acceptReady_Some [OF takeReady_Some(2) [OF tk]])
  have idx: "?es \<noteq> [] \<Longrightarrow> unat (Entry_GetIndex (last ?es)) = unat (lApplying ?l) + length ?es"
    using nextCommittedEnts_last [OF ok t rd(2)] by blast
  have "?es \<noteq> [] \<Longrightarrow> Suc (unat (Entry_GetIndex (last ?es))) < 2 ^ 64"
    using idx nextCommittedEnts_Some(2) [OF ok t rd(2)] ok logLast_lt [OF sh] by (auto simp: log_ok_def)
  then have "?es \<noteq> [] \<Longrightarrow> Entry_GetIndex (last ?es) \<noteq> MaxUint64"
    using max64 by auto
  note acc = acceptApplying_none_left [OF _ this]
  have com: "\<not> hasNextCommittedEnts ?u l" 
    using l acc(1) nextCommittedEnts_Some(1) [OF ok t rd(2)] left(3,4) 
    by (cases "?es = []") (auto simp: hasNextCommittedEnts_def acceptUnstable_def)
  have lu: "lUnstable l = lUnstable (acceptUnstable ?l)" "lCommitted l = lCommitted ?l"
    using l acc(2,5) by (cases "?es = []"; simp add: acceptUnstable_def; fail)+
  have un: "hasNextUnstableEnts l = Some False" "\<not> hasNextUnstableSnapshot l"
    using left(1,2) lu(1) by (simp_all add: hasNextUnstableEnts_def hasNextUnstableSnapshot_def nextUnstableEnts_def nextUnstableSnapshot_def)
  have st: "softState (nRaft rn') = softState (nRaft rn)" "hardState (nRaft rn') = hardState (nRaft rn)"
    using r lu(2) by (simp_all add: softState_def hardState_def)
  have "SoftState_equal (softState (nRaft rn')) (nPrevSoftSt rn')"
    by (simp add: st pst rd(3) SoftState_equal_def)
  moreover have "IsEmptyHardState (Some (hardState (nRaft rn'))) \<or> isHardStateEqual (Some (hardState (nRaft rn'))) (Some (nPrevHardSt rn'))"
    by (auto simp: st pst rd(4) isHardStateEqual_def)
  ultimately show "HasReady rn' = Some False"
    using un com r by (auto simp: HasReady_def Let_def rd(5) as applyUnstableEntries_def)
  show "unat (lApplying (rLog (nRaft rn'))) = unat (lApplying ?l) + length ?es"
    using l acc(3) idx r by (cases "?es = []") (simp_all add: acceptUnstable_def)
qed

section \<open>Properties\<close>

text \<open>
  C11. Collecting the output of a node (\<^verbatim>\<open>Ready\<close>), in any state a node reaches from \<^verbatim>\<open>newRaft\<close> on a
  well-formed storage by the steps of \<open>node_step\<close> (messages, ticks, configuration changes, batches
  and storage writes within the bounds stated there), with a log whose size fits 64 bits. It panics in exactly three cases: with
  synchronous writes, when the previous batch was not advanced; and, when a committed entry is to
  be handed over, when the entry has been compacted away before, or when the configured size limit
  is 0 (\<^verbatim>\<open>MaxSizePerMsg\<close>, documented as allowing one entry per message, with
  \<^verbatim>\<open>MaxCommittedSizePerReady\<close> not set). Otherwise afterwards \<^verbatim>\<open>HasReady\<close> answers no; the entries
  handed to storage are the unstable ones no write is in progress for; the committed entries are
  those that follow the last ones handed over, without a gap, as many of them as the rest of the
  size limit allows and at least one (\<^verbatim>\<open>limitSize\<close>), and the applying position moves past them;
  the read states and the snapshot are handed over; and no message is lost: with synchronous
  writes the messages are those of the outbox and the ones for other nodes that wait for the
  write, while the ones to the node itself are stepped on \<^verbatim>\<open>Advance\<close>; with asynchronous writes
  the waiting ones travel as the responses of a message to the append thread.
\<close>

theorem ready_hands_over:
  assumes "newRaft c draws = Some r0" and "cStorage c = Some ms" and "ms_ok ms"
    and "node_step\<^sup>*\<^sup>* r0 (nRaft rn)" and "total (logEnts (rLog (nRaft rn))) < 2 ^ 64"
  shows "(takeReady rn = None \<longleftrightarrow> \<not> nAsyncStorageWrites rn \<and> nStepsOnAdvance rn \<noteq> [] \<or>
      hasNextCommittedEnts (applyUnstableEntries rn) (rLog (nRaft rn)) \<and>
      (applyBudget c = 0 \<or> unat (lApplying (rLog (nRaft rn))) < logBase (rLog (nRaft rn)))) \<and>
    (\<forall>rd rn'. takeReady rn = Some (rd, rn') \<longrightarrow> HasReady rn' = Some False \<and>
      nextUnstableEnts (rLog (nRaft rn)) = Some (rdEntries rd) \<and> rdReadStates rd = rReadStates (nRaft rn) \<and>
      rdSnapshot rd = nextUnstableSnapshot (rLog (nRaft rn)) \<and>
      rdCommittedEntries rd =
        (if hasNextCommittedEnts (applyUnstableEntries rn) (rLog (nRaft rn))
         then limitSize (logRange (rLog (nRaft rn)) (Suc (unat (lApplying (rLog (nRaft rn)))))
             (Suc (unat (maxAppliableIndex (applyUnstableEntries rn) (rLog (nRaft rn))))))
           (applyBudget c - lApplyingEntsSize (rLog (nRaft rn)))
         else []) \<and>
      (rdCommittedEntries rd \<noteq> [] \<longleftrightarrow> hasNextCommittedEnts (applyUnstableEntries rn) (rLog (nRaft rn))) \<and>
      (\<forall>k < length (rdCommittedEntries rd).
         entryAt (rLog (nRaft rn)) (Suc (unat (lApplying (rLog (nRaft rn))) + k)) = Some (rdCommittedEntries rd ! k)) \<and>
      unat (lApplying (rLog (nRaft rn'))) = unat (lApplying (rLog (nRaft rn))) + length (rdCommittedEntries rd) \<and>
      (\<not> nAsyncStorageWrites rn \<longrightarrow>
         rdMessages rd = rMsgs (nRaft rn) @ filter (\<lambda>m. Message_GetTo m \<noteq> rId (nRaft rn)) (rMsgsAfterAppend (nRaft rn)) \<and>
         (\<exists>acks. nStepsOnAdvance rn' = filter (\<lambda>m. Message_GetTo m = rId (nRaft rn)) (rMsgsAfterAppend (nRaft rn)) @ acks)) \<and>
      (nAsyncStorageWrites rn \<longrightarrow> (\<exists>ms. rdMessages rd = rMsgs (nRaft rn) @ ms \<and>
         (rMsgsAfterAppend (nRaft rn) \<noteq> [] \<longrightarrow>
           (\<exists>m acks. m \<in> set ms \<and> Message_GetTo m = LocalAppendThread \<and> mResponses m = rMsgsAfterAppend (nRaft rn) @ acks)))))"
proof (intro conjI [rotated] allI impI)
  let ?l = "rLog (nRaft rn)" and ?u = "applyUnstableEntries rn"
  have "log_ok (rLog r0)" by (rule newRaft_log_ok [OF assms(1-3)])
  with node_run_safe [OF assms(4)] have ok: "log_ok ?l" and steps: "log_step\<^sup>*\<^sup>* (rLog r0) ?l"
    by (simp_all add: log_run_def)
  have "budget_ok (applyBudget c) ?l" by (rule log_steps_budget [OF steps newRaft_budget [OF assms(1-3)]])
  note next_eq = nextCommittedEnts_eq [OF ok assms(5) this, of ?u]
  show "takeReady rn = None \<longleftrightarrow> \<not> nAsyncStorageWrites rn \<and> nStepsOnAdvance rn \<noteq> [] \<or>
      hasNextCommittedEnts ?u ?l \<and> (applyBudget c = 0 \<or> unat (lApplying ?l) < logBase ?l)"
    unfolding takeReady_None_iff [OF ok assms(5)] next_eq by simp
  fix rd rn'
  assume tk: "takeReady rn = Some (rd, rn')"
  note rd = readyWithoutAccept_Some [OF takeReady_Some(1) [OF tk]]
  note some = nextCommittedEnts_Some [OF ok assms(5) rd(2)]
  show "HasReady rn' = Some False" "unat (lApplying (rLog (nRaft rn'))) = unat (lApplying ?l) + length (rdCommittedEntries rd)"
    by (rule HasReady_after [OF tk ok assms(5)])+
  show "nextUnstableEnts ?l = Some (rdEntries rd)" "rdReadStates rd = rReadStates (nRaft rn)" by (rule rd)+
  show "rdSnapshot rd = nextUnstableSnapshot ?l"
    by (simp add: rd(6) hasNextUnstableSnapshot_def nextUnstableSnapshot_def)
  show "rdCommittedEntries rd = (if hasNextCommittedEnts ?u ?l
       then limitSize (logRange ?l (Suc (unat (lApplying ?l))) (Suc (unat (maxAppliableIndex ?u ?l))))
         (applyBudget c - lApplyingEntsSize ?l) else [])"
    using rd(2) unfolding next_eq by (simp split: if_split_asm)
  show "rdCommittedEntries rd \<noteq> [] \<longleftrightarrow> hasNextCommittedEnts ?u ?l" by (rule some(1))
  show "entryAt ?l (Suc (unat (lApplying ?l) + k)) = Some (rdCommittedEntries rd ! k)"
    if "k < length (rdCommittedEntries rd)" for k
    using some(3) that by blast
  show "rdMessages rd = rMsgs (nRaft rn) @ filter (\<lambda>m. Message_GetTo m \<noteq> rId (nRaft rn)) (rMsgsAfterAppend (nRaft rn))"
    if "\<not> nAsyncStorageWrites rn" by (rule rd(7) [OF that])
  show "\<exists>acks. nStepsOnAdvance rn' = filter (\<lambda>m. Message_GetTo m = rId (nRaft rn)) (rMsgsAfterAppend (nRaft rn)) @ acks"
    if "\<not> nAsyncStorageWrites rn"
    by (rule acceptReady_Some [OF takeReady_Some(2) [OF tk]]) (use that in blast)
  show "\<exists>ms. rdMessages rd = rMsgs (nRaft rn) @ ms \<and> (rMsgsAfterAppend (nRaft rn) \<noteq> [] \<longrightarrow>
      (\<exists>m acks. m \<in> set ms \<and> Message_GetTo m = LocalAppendThread \<and> mResponses m = rMsgsAfterAppend (nRaft rn) @ acks))"
    if "nAsyncStorageWrites rn" by (rule readyWithoutAccept_async [OF takeReady_Some(1) [OF tk] that])
qed

theorem ready_hands_over_witness:
  "\<exists>r rd rn'. newRaft demoConfig [] = Some r \<and>
    takeReady \<lparr>nRaft = r, nAsyncStorageWrites = False, nPrevSoftSt = softState r,
      nPrevHardSt = emptyState, nStepsOnAdvance = []\<rparr> = Some (rd, rn') \<and>
    HasReady rn' = Some False \<and> rdCommittedEntries rd = []"
proof -
  obtain r where r: "newRaft demoConfig [] = Some r" "logEnts (rLog r) = []" "lCommitted (rLog r) = 0"
    using demo_newRaft_log by blast
  let ?rn = "\<lparr>nRaft = r, nAsyncStorageWrites = False, nPrevSoftSt = softState r,
      nPrevHardSt = emptyState, nStepsOnAdvance = []\<rparr>"
  have "\<not> hasNextCommittedEnts (applyUnstableEntries ?rn) (rLog r)"
    using newRaft_log_ok [OF r(1) _ NewMemoryStorage_ok]
    by (simp add: hasNextCommittedEnts_def maxAppliableIndex_def r(3) log_ok_def demoConfig_def)
  with ready_hands_over [OF r(1) _ NewMemoryStorage_ok, of ?rn] r show ?thesis
    by (cases "takeReady ?rn") (auto simp: demoConfig_def)
qed

text \<open>
  The case of a size limit of 0 is met: a node restarted with one entry that is committed and
  not yet applied panics when its first batch is collected.
\<close>

definition restartStorage :: MemoryStorage where
  "restartStorage = NewMemoryStorage\<lparr>msHardState := Some (HardState0\<lparr>hsTerm := Some 1, hsCommit := Some 1\<rparr>),
     msEnts := [Entry0, Entry0\<lparr>eTerm := Some 1, eIndex := Some 1\<rparr>]\<rparr>"

definition zeroLimitConfig :: RaftConfig where
  "zeroLimitConfig = demoConfig\<lparr>cStorage := Some restartStorage, cMaxSizePerMsg := 0\<rparr>"

lemma restartStorage_ok: "ms_ok restartStorage"
  by (simp add: ms_ok_def restartStorage_def NewMemoryStorage_def ms_view getters zero_defs)

lemma restartStorage_log:
  "newLogWithSize restartStorage m = Some \<lparr>lStorage = restartStorage,
     lUnstable = \<lparr>uSnapshot = None, uEntries = [], uOffset = 2, uSnapshotInProgress = False, uOffsetInProgress = 2\<rparr>,
     lCommitted = 0, lApplying = 0, lApplied = 0, lMaxApplyingEntsSize = m, lApplyingEntsSize = 0,
     lApplyingEntsPaused = False\<rparr>"
  by (simp add: newLogWithSize_def restartStorage_def NewMemoryStorage_def MS_FirstIndex_def MS_LastIndex_def
      MS_firstIndex_def MS_lastIndex_def or_panic_def go_index_def len64_def getters zero_defs)

lemma zeroLimit_newRaft:
  "\<exists>r ms. newRaft zeroLimitConfig [] = Some r \<and> rLog r = \<lparr>lStorage = ms,
     lUnstable = \<lparr>uSnapshot = None, uEntries = [], uOffset = 2, uSnapshotInProgress = False, uOffsetInProgress = 2\<rparr>,
     lCommitted = 1, lApplying = 0, lApplied = 0, lMaxApplyingEntsSize = 0, lApplyingEntsSize = 0,
     lApplyingEntsPaused = False\<rparr> \<and> msEnts ms = msEnts restartStorage"
proof -
  obtain c where c: "validate zeroLimitConfig = Inr c" "cStorage c = Some restartStorage" "cElectionTick c = 10" "cApplied c = 0"
      "cMaxCommittedSizePerReady c = 0"
    by (simp add: validate_def zeroLimitConfig_def demoConfig_def None_id_def IsLocalMsgTarget_def LocalAppendThread_def LocalApplyThread_def)
  obtain hs cs ms where i: "MS_InitialState restartStorage = (Some hs, cs, ms)" and cs: "cs = EnsureConfState None"
    and hs: "hs = HardState0\<lparr>hsTerm := Some 1, hsCommit := Some 1\<rparr>"
    by (simp add: MS_InitialState_def restartStorage_def NewMemoryStorage_def Let_def getters zero_defs EnsureSnapshot_def EnsureSnapshotMetadata_def)
  have ms: "msEnts ms = msEnts restartStorage" by (rule InitialState_ents [OF i])
  let ?l = "\<lparr>lStorage = ms,
     lUnstable = \<lparr>uSnapshot = None, uEntries = [], uOffset = 2, uSnapshotInProgress = False, uOffsetInProgress = 2\<rparr>,
     lCommitted = 0, lApplying = 0, lApplied = 0, lMaxApplyingEntsSize = 0, lApplyingEntsSize = 0,
     lApplyingEntsPaused = False\<rparr>"
  have ok: "log_ok ?l" 
    by (rule newLogWithSize_ok [OF restartStorage_ok, of 0]) 
      (use storage_meta_step [of _ ms] restartStorage_log [of 0] ms in fastforce)
  obtain x where x: "log_lastEntryID ?l = Some x"
    using log_lastEntryID_eq [OF log_okD [OF ok]] by blast
  have li: "log_lastIndex ?l = Some 1" "log_lastIndex (?l\<lparr>lCommitted := 1\<rparr>) = Some 1"
    by (simp_all add: log_lastIndex_def maybeLastIndex_def MS_LastIndex_def MS_lastIndex_def or_panic_def go_index_def
        len64_def ms restartStorage_def getters zero_defs)
  have r: "Restore \<lparr>chTracker = MakeProgressTracker k b, chLastIndex = j\<rparr> cs =
      Some (Inr (trkConfig (MakeProgressTracker k b), Map.empty))" for k b j
    by (simp add: Restore_def toConfChangeSingle_def cs EnsureConfState_def zero_defs MakeProgressTracker_def)
  have same: "ProgressTracker_ConfState (MakeProgressTracker k b) = cs" for k b
    by (simp add: ProgressTracker_ConfState_def cs EnsureConfState_def zero_defs MakeProgressTracker_def MajorityConfig_Slice_def)
  have eq: "assertConfStatesEquivalent (Some cs) (Some cs) = Some ()"
    using Equivalent_iff [of cs cs] by (simp add: assertConfStatesEquivalent_def)
  have trk: "(MakeProgressTracker k b)\<lparr>trkProgress := \<lambda>x. None\<rparr> = MakeProgressTracker k b"
    "trkProgress (MakeProgressTracker k b) = Map.empty" for k b
    by (simp_all add: MakeProgressTracker_def)
  have "IsEmptyHardState (Some hs) = False" "HardState_GetCommit (Some hs) = 1"
    by (simp_all add: hs IsEmptyHardState_def isHardStateEqual_def emptyState_def getters zero_defs)
  then show ?thesis
    by (simp add: newRaft_def or_panic_def c restartStorage_log i x r Let_def switchToConfig_def progressOf_def trk same eq
        loadState_def panic_if_def becomeFollower_def reset_def resetRandomizedElectionTimeout_def Intn_def
        abortLeaderTransfer_def ProgressTracker_ResetVotes_def raft_Visit_def li ms)
qed

lemma zero_limit_ready_panics:
  "\<exists>r. newRaft zeroLimitConfig [] = Some r \<and> cMaxSizePerMsg zeroLimitConfig = 0 \<and>
    takeReady \<lparr>nRaft = r, nAsyncStorageWrites = False, nPrevSoftSt = softState r,
      nPrevHardSt = hardState r, nStepsOnAdvance = []\<rparr> = None"
proof -
  obtain r ms where r: "newRaft zeroLimitConfig [] = Some r" and l: "rLog r = \<lparr>lStorage = ms,
     lUnstable = \<lparr>uSnapshot = None, uEntries = [], uOffset = 2, uSnapshotInProgress = False, uOffsetInProgress = 2\<rparr>,
     lCommitted = 1, lApplying = 0, lApplied = 0, lMaxApplyingEntsSize = 0, lApplyingEntsSize = 0,
     lApplyingEntsPaused = False\<rparr>" and ms: "msEnts ms = msEnts restartStorage"
    using zeroLimit_newRaft by blast
  let ?rn = "\<lparr>nRaft = r, nAsyncStorageWrites = False, nPrevSoftSt = softState r,
      nPrevHardSt = hardState r, nStepsOnAdvance = []\<rparr>"
  have "nextCommittedEnts (applyUnstableEntries ?rn) (rLog r) = None"
    by (simp add: nextCommittedEnts_def hasNextOrInProgressSnapshot_def maxAppliableIndex_def l panic_if_def)
  then have "takeReady ?rn = None"
    by (simp add: takeReady_def readyWithoutAccept_def Let_def)
  with r show ?thesis by (simp add: zeroLimitConfig_def)
qed

end
