(* ===== verification/Twin.thy ===== *)
theory Twin
  imports NodeLog
begin

text \<open>
  The machine twin (src/tools/raftsubject/twin-lib.go): a cluster of RawNodes with memory storages
  and a multiset of messages, driven by a schedule of events, and a checker that records a violation
  the moment it sees one. The trace is text output and is left out; a violation is a value. The
  storage of a node is the one inside its log, which the harness writes; its errors, which
  SetHardState and Append never return, have no branch. \<open>None\<close> is a panic. The random draws of the
  nodes are an argument. Node numbers of a schedule are natural, 0 being out of range. A message a
  node forwards is the delivered object itself, which the code changes in place: only entries of
  the multiset that are dead already see that, so messages are values here.
\<close>

section \<open>State\<close>

record twinNode =
  tnId :: uint64
  tnRn :: RawNode
  tnTerm :: uint64
  tnCommit :: uint64
  tnState :: NodeState
  tnApplied :: uint64
  tnLastTrm :: uint64
  tnGot :: "byte list list"

record slot =
  slTerm :: uint64
  slData :: "byte list"
  slNode :: uint64

datatype violation =
    NoQuiescence | UnexpectedSnapshot | DrainNoQuiescence
  | S1 uint64 uint64 uint64
  | S2 uint64 slot uint64
  | S3_index uint64 uint64 uint64
  | S3_term uint64 uint64 uint64
  | S3_type uint64 uint64

record twin =
  twNodes :: "twinNode list"
  twNet :: "Message list"
  twLive :: "bool list"
  twLeaderOf :: "uint64 \<rightharpoonup> uint64"
  twByIndex :: "uint64 \<rightharpoonup> slot"
  twClaims :: nat
  twCommitted :: nat
  twViolations :: "violation list"
  twPending :: "byte list list"
  twDriven :: "byte list list"
  twSeq :: nat
  twHalt :: bool

definition viol :: "violation \<Rightarrow> twin \<Rightarrow> twin" where
  "viol v t = t\<lparr>twViolations := twViolations t @ [v]\<rparr>"

definition setNode :: "nat \<Rightarrow> twinNode \<Rightarrow> twin \<Rightarrow> twin" where
  "setNode i nd t = t\<lparr>twNodes := (twNodes t)[i := nd]\<rparr>"

section \<open>Starting\<close>

text \<open>\<^verbatim>\<open>"c" + itoa(t.seq)\<close>: the decimal digits of a positive number.\<close>

fun itoa :: "nat \<Rightarrow> byte list" where
  "itoa v = (if v < 10 then [of_nat (0x30 + v)] else itoa (v div 10) @ [of_nat (0x30 + v mod 10)])"

declare itoa.simps [simp del]

definition command :: "nat \<Rightarrow> byte list" where
  "command s = 0x63 # itoa s"

definition twinConfig :: "uint64 \<Rightarrow> MemoryStorage \<Rightarrow> RaftConfig" where
  "twinConfig nid st = \<lparr>cID = nid, cElectionTick = 10, cHeartbeatTick = 1, cStorage = Some st, cApplied = 0,
     cAsyncStorageWrites = False, cMaxSizePerMsg = 2 ^ 20, cMaxCommittedSizePerReady = 0,
     cMaxUncommittedEntriesSize = 0, cMaxInflightMsgs = 256, cMaxInflightBytes = 0, cCheckQuorum = False,
     cPreVote = False, cReadOnlyOption = ReadOnlySafe, cDisableProposalForwarding = False,
     cDisableConfChangeValidation = False, cStepDownOnRemoval = False\<rparr>"

definition twinSnapshot :: "uint64 list \<Rightarrow> Snapshot" where
  "twinSnapshot voters = Snapshot0\<lparr>snMetadata := Some (SnapshotMetadata0\<lparr>smIndex := Some 1, smTerm := Some 1,
     smConfState := Some (ConfState0\<lparr>csVoters := voters\<rparr>)\<rparr>)\<rparr>"

definition newTwinNode :: "uint64 list \<Rightarrow> nat list \<Rightarrow> uint64 \<Rightarrow> twinNode option option" where
  "newTwinNode voters draws nid =
     (case MS_ApplySnapshot (Some (twinSnapshot voters)) NewMemoryStorage of
        Inl e \<Rightarrow> Some None
      | Inr st \<Rightarrow> do {
          rn \<leftarrow> NewRawNode (twinConfig nid st) draws;
          Some (Some \<lparr>tnId = nid, tnRn = rn, tnTerm = 0, tnCommit = 0, tnState = StateFollower, tnApplied = 0,
            tnLastTrm = 0, tnGot = []\<rparr>)
        })"

fun addTwinNodes :: "uint64 list \<Rightarrow> (uint64 \<Rightarrow> nat list) \<Rightarrow> uint64 list \<Rightarrow> twin \<Rightarrow> twin option" where
  "addTwinNodes voters draws [] t = Some t"
| "addTwinNodes voters draws (nid # ids) t = do {
     nd \<leftarrow> newTwinNode voters (draws nid) nid;
     case nd of
       None \<Rightarrow> Some (t\<lparr>twHalt := True\<rparr>)
     | Some nd \<Rightarrow> addTwinNodes voters draws ids (t\<lparr>twNodes := twNodes t @ [nd]\<rparr>)
   }"

definition newTwin :: "nat \<Rightarrow> nat \<Rightarrow> (uint64 \<Rightarrow> nat list) \<Rightarrow> twin option" where
  "newTwin n cmds draws =
     (let voters = map of_nat [1..<Suc n];
          t = \<lparr>twNodes = [], twNet = [], twLive = [], twLeaderOf = Map.empty, twByIndex = Map.empty, twClaims = 0,
            twCommitted = 0, twViolations = [], twPending = map command [1..<Suc cmds], twDriven = [], twSeq = cmds,
            twHalt = False\<rparr>
      in addTwinNodes voters draws voters t)"

section \<open>Harvesting\<close>

text \<open>\<^verbatim>\<open>nd.st\<close> is the storage the node's log reads.\<close>

definition writeStorage :: "(MemoryStorage \<Rightarrow> MemoryStorage option) \<Rightarrow> twinNode \<Rightarrow> twinNode option" where
  "writeStorage f nd = do {
     st \<leftarrow> f (lStorage (rLog (nRaft (tnRn nd))));
     Some (nd\<lparr>tnRn := (tnRn nd)\<lparr>nRaft := (nRaft (tnRn nd))\<lparr>rLog := (rLog (nRaft (tnRn nd)))\<lparr>lStorage := st\<rparr>\<rparr>\<rparr>\<rparr>)
   }"

definition persist :: "Ready \<Rightarrow> twinNode \<Rightarrow> twinNode option" where
  "persist rd nd = do {
     nd \<leftarrow> (if \<not> IsEmptyHardState (rdHardState rd) then do {
             nd \<leftarrow> writeStorage (\<lambda>st. Some (MS_SetHardState (rdHardState rd) st)) nd;
             Some (nd\<lparr>tnTerm := HardState_GetTerm (rdHardState rd), tnCommit := HardState_GetCommit (rdHardState rd)\<rparr>)
           } else Some nd);
     if length (rdEntries rd) > 0 then writeStorage (MS_Append (rdEntries rd)) nd else Some nd
   }"

text \<open>S1: the claims of leadership.\<close>

definition recordClaim :: "Ready \<Rightarrow> twinNode \<Rightarrow> twin \<Rightarrow> twinNode \<times> twin" where
  "recordClaim rd nd t =
     (case rdSoftState rd of
        None \<Rightarrow> (nd, t)
      | Some ss \<Rightarrow>
          (let nd = nd\<lparr>tnState := ssRaftState ss\<rparr> in
           if ssRaftState ss = StateLeader then
             (let t = t\<lparr>twClaims := Suc (twClaims t)\<rparr>;
                  t = (case twLeaderOf t (tnTerm nd) of
                         Some prev \<Rightarrow> if prev \<noteq> tnId nd then viol (S1 (tnTerm nd) prev (tnId nd)) t else t
                       | None \<Rightarrow> t)
              in (nd, t\<lparr>twLeaderOf := (twLeaderOf t)(tnTerm nd \<mapsto> tnId nd)\<rparr>))
           else (nd, t)))"

definition sendAll :: "Message list \<Rightarrow> twin \<Rightarrow> twin" where
  "sendAll ms t = t\<lparr>twNet := twNet t @ ms, twLive := twLive t @ map (\<lambda>_. True) ms\<rparr>"

text \<open>S2 and S3: what is applied.\<close>

definition applyData :: "uint64 \<Rightarrow> uint64 \<Rightarrow> byte list \<Rightarrow> twinNode \<Rightarrow> twin \<Rightarrow> twin" where
  "applyData idx trm dat nd t =
     (let t = t\<lparr>twCommitted := Suc (twCommitted t)\<rparr> in
      case twByIndex t idx of
        Some s \<Rightarrow> if slTerm s \<noteq> trm \<or> slData s \<noteq> dat then viol (S2 idx s (tnId nd)) t else t
      | None \<Rightarrow> t\<lparr>twByIndex := (twByIndex t)(idx \<mapsto> \<lparr>slTerm = trm, slData = dat, slNode = tnId nd\<rparr>)\<rparr>)"

definition twin_apply :: "Entry \<Rightarrow> twinNode \<times> twin \<Rightarrow> twinNode \<times> twin" where
  "twin_apply e s =
     (case s of (nd, t) \<Rightarrow>
        let idx = Entry_GetIndex e; trm = Entry_GetTerm e;
            t = (if idx \<le> tnApplied nd then viol (S3_index (tnId nd) idx (tnApplied nd)) t else t);
            t = (if trm < tnLastTrm nd then viol (S3_term (tnId nd) trm (tnLastTrm nd)) t else t);
            nd = nd\<lparr>tnApplied := idx, tnLastTrm := trm\<rparr>;
            dat = get_list (eData e)
        in if Entry_GetType e \<noteq> EntryNormal then (nd, viol (S3_type (tnId nd) idx) t)
           else if length dat = 0 then (nd, t)
           else (nd\<lparr>tnGot := dat # tnGot nd\<rparr>, applyData idx trm dat nd t))"

text \<open>One round of the loop on node \<open>i\<close>; the flag says that the loop goes on.\<close>

definition harvestRound :: "nat \<Rightarrow> twin \<Rightarrow> (bool \<times> twin) option" where
  "harvestRound i t = do {
     let nd = twNodes t ! i;
     (rd, rn) \<leftarrow> takeReady (tnRn nd);
     nd \<leftarrow> persist rd (nd\<lparr>tnRn := rn\<rparr>);
     if \<not> IsEmptySnap (rdSnapshot rd) then Some (False, viol UnexpectedSnapshot (setNode i nd (t\<lparr>twHalt := True\<rparr>)))
     else
       (case recordClaim rd nd t of (nd, t) \<Rightarrow>
          case fold twin_apply (rdCommittedEntries rd) (nd, sendAll (rdMessages rd) t) of (nd, t) \<Rightarrow> do {
            rn \<leftarrow> Advance (tnRn nd);
            Some (True, setNode i (nd\<lparr>tnRn := rn\<rparr>) t)
          })
   }"

text \<open>At most 64 rounds; the result has the number of rounds begun.\<close>

fun harvestLoop :: "nat \<Rightarrow> nat \<Rightarrow> twin \<Rightarrow> (nat \<times> twin) option" where
  "harvestLoop 0 i t = do {
     more \<leftarrow> HasReady (tnRn (twNodes t ! i));
     Some (if more then (1, viol NoQuiescence (t\<lparr>twHalt := True\<rparr>)) else (0, t))
   }"
| "harvestLoop (Suc left) i t = do {
     more \<leftarrow> HasReady (tnRn (twNodes t ! i));
     if \<not> more then Some (0, t)
     else do {
       (on, t) \<leftarrow> harvestRound i t;
       if on then do { (rounds, t) \<leftarrow> harvestLoop left i t; Some (Suc rounds, t) }
       else Some (1, t)
     }
   }"

definition harvest :: "nat \<Rightarrow> twin \<Rightarrow> (nat \<times> twin) option" where
  "harvest = harvestLoop 64"

section \<open>Delivery\<close>

definition liveCount :: "twin \<Rightarrow> nat" where
  "liveCount t = length (filter id (twLive t))"

text \<open>The index of the first live message that a choice accepts, and of the last one.\<close>

definition firstLive :: "(Message \<Rightarrow> bool) \<Rightarrow> twin \<Rightarrow> nat option" where
  "firstLive P t = find (\<lambda>j. twLive t ! j \<and> P (twNet t ! j)) [0..<length (twNet t)]"

definition lastLive :: "twin \<Rightarrow> nat option" where
  "lastLive t = find (\<lambda>j. twLive t ! j) (rev [0..<length (twNet t)])"

definition pickFor :: "uint64 \<Rightarrow> nat \<Rightarrow> twin \<Rightarrow> nat option" where
  "pickFor to k t =
     (let js = filter (\<lambda>j. twLive t ! j \<and> Message_GetTo (twNet t ! j) = to) [0..<length (twNet t)]
      in if k < length js then Some (js ! k) else None)"

definition deliverIdx :: "nat \<Rightarrow> twin \<Rightarrow> twin option" where
  "deliverIdx j t = do {
     let m = twNet t ! j;
     let t = t\<lparr>twLive := (twLive t)[j := False]\<rparr>;
     let i = unat (Message_GetTo m - 1);
     panic_if (length (twNodes t) \<le> i);
     let nd = twNodes t ! i;
     (e, rn) \<leftarrow> RawNode_Step (Some m) (tnRn nd);
     (_, t) \<leftarrow> harvest i (setNode i (nd\<lparr>tnRn := rn\<rparr>) t);
     Some t
   }"

section \<open>Events\<close>

datatype twin_op = OpTick nat | OpCampaign nat | OpPropose nat | OpDeliver nat nat | OpDrain | OpDrainRev | OpDrainSkip nat

fun drainLoop :: "nat \<Rightarrow> (twin \<Rightarrow> nat option) \<Rightarrow> twin \<Rightarrow> twin option" where
  "drainLoop 0 pick t = Some (viol DrainNoQuiescence (t\<lparr>twHalt := True\<rparr>))"
| "drainLoop (Suc n) pick t =
     (case pick t of
        None \<Rightarrow> Some t
      | Some j \<Rightarrow> do { t \<leftarrow> deliverIdx j t; drainLoop n pick t })"

text \<open>A node of the schedule: \<^verbatim>\<open>t.nodes[o.node-1]\<close>.\<close>

definition onNode :: "nat \<Rightarrow> (RawNode \<Rightarrow> RawNode option) \<Rightarrow> twin \<Rightarrow> twin option" where
  "onNode k f t = do {
     panic_if (k = 0 \<or> length (twNodes t) < k);
     let nd = twNodes t ! (k - 1);
     rn \<leftarrow> f (tnRn nd);
     (_, t) \<leftarrow> harvest (k - 1) (setNode (k - 1) (nd\<lparr>tnRn := rn\<rparr>) t);
     Some t
   }"

definition twinPropose :: "nat \<Rightarrow> twin \<Rightarrow> twin option" where
  "twinPropose k t = do {
     panic_if (k = 0 \<or> length (twNodes t) < k);
     case twPending t of
       [] \<Rightarrow> Some (t\<lparr>twHalt := True\<rparr>)
     | cmd # rest \<Rightarrow> do {
         let nd = twNodes t ! (k - 1);
         (e, rn) \<leftarrow> Propose (Some cmd) (tnRn nd);
         let t = (if e \<noteq> None then t else t\<lparr>twPending := rest, twDriven := twDriven t @ [cmd]\<rparr>);
         (_, t) \<leftarrow> harvest (k - 1) (setNode (k - 1) (nd\<lparr>tnRn := rn\<rparr>) t);
         Some t
       }
   }"

definition twin_step :: "twin_op \<Rightarrow> twin \<Rightarrow> twin option" where
  "twin_step o' t =
     (if twHalt t then Some t
      else case o' of
        OpTick k \<Rightarrow> onNode k Tick t
      | OpCampaign k \<Rightarrow> onNode k (\<lambda>rn. do { (e, rn) \<leftarrow> Campaign rn; Some rn }) t
      | OpPropose k \<Rightarrow> twinPropose k t
      | OpDeliver k m \<Rightarrow>
          (case pickFor (of_nat k) m t of None \<Rightarrow> Some (t\<lparr>twHalt := True\<rparr>) | Some j \<Rightarrow> deliverIdx j t)
      | OpDrain \<Rightarrow> drainLoop 10000 (firstLive (\<lambda>m. True)) t
      | OpDrainRev \<Rightarrow> drainLoop 10000 lastLive t
      | OpDrainSkip k \<Rightarrow> drainLoop 10000 (firstLive (\<lambda>m. Message_GetTo m \<noteq> of_nat k)) t)"

text \<open>What the trace shows of the state after each event.\<close>

definition projection :: "twin \<Rightarrow> (NodeState \<times> uint64 \<times> uint64 \<times> uint64) list \<times> nat" where
  "projection t = (map (\<lambda>nd. (tnState nd, tnTerm nd, tnCommit nd, tnApplied nd)) (twNodes t), liveCount t)"

text \<open>S4: every node applied every command that was proposed.\<close>

definition complete :: "twin \<Rightarrow> bool" where
  "complete t \<longleftrightarrow> list_all (\<lambda>nd. list_all (\<lambda>c. c \<in> set (tnGot nd)) (twDriven t)) (twNodes t)"

text \<open>The loop of \<^verbatim>\<open>runSched\<close>: it ends with the schedule or as soon as the run is halted.\<close>

fun runOps :: "twin_op list \<Rightarrow> twin \<Rightarrow> twin option" where
  "runOps [] t = Some t"
| "runOps (o' # os) t = do { t \<leftarrow> twin_step o' t; if twHalt t then Some t else runOps os t }"

record sched =
  scN :: nat
  scCmds :: nat
  scFloor :: nat
  scOps :: "twin_op list"

definition schedRun :: "(uint64 \<Rightarrow> nat list) \<Rightarrow> sched \<Rightarrow> twin option" where
  "schedRun draws s = do { t \<leftarrow> newTwin (scN s) (scCmds s) draws; runOps (scOps s) t }"

text \<open>The last line of the trace: violations, claims, commits, completion and the exercise floor.\<close>

record verdict =
  vdViol :: nat
  vdClaims :: nat
  vdCommitted :: nat
  vdComplete :: bool
  vdFloor :: bool

definition runSched :: "(uint64 \<Rightarrow> nat list) \<Rightarrow> sched \<Rightarrow> verdict option" where
  "runSched draws s = do {
     t \<leftarrow> schedRun draws s;
     Some \<lparr>vdViol = length (twViolations t), vdClaims = twClaims t, vdCommitted = twCommitted t,
       vdComplete = (complete t \<and> length (twPending t) = 0),
       vdFloor = (\<not> (twClaims t < scFloor s \<or> twCommitted t < 1))\<rparr>
   }"

section \<open>The schedules\<close>

text \<open>The one-node probe; \<open>Inl\<close> is one of its negative results.\<close>

definition probeTwinSingle :: "(uint64 \<Rightarrow> nat list) \<Rightarrow> (int + int) option" where
  "probeTwinSingle draws = do {
     t \<leftarrow> newTwin 1 1 draws;
     panic_if (length (twNodes t) = 0);
     rn \<leftarrow> Tick (tnRn (twNodes t ! 0));
     (r1, t) \<leftarrow> harvest 0 (setNode 0 ((twNodes t ! 0)\<lparr>tnRn := rn\<rparr>) t);
     (e, rn) \<leftarrow> Campaign (tnRn (twNodes t ! 0));
     if e \<noteq> None then Some (Inl (- 3))
     else do {
       (r2, t) \<leftarrow> harvest 0 (setNode 0 ((twNodes t ! 0)\<lparr>tnRn := rn\<rparr>) t);
       (e, rn) \<leftarrow> Propose (Some [0x78]) (tnRn (twNodes t ! 0));
       if e \<noteq> None then Some (Inl (- 4))
       else do {
         (r3, t) \<leftarrow> harvest 0 (setNode 0 ((twNodes t ! 0)\<lparr>tnRn := rn\<rparr>) t);
         let nd = twNodes t ! 0;
         if twHalt t \<or> twViolations t \<noteq> [] then Some (Inl (- 5))
         else Some (Inr ((if tnState nd = StateLeader then 1 else 0) * 100000 +
                min (sint (tnTerm nd)) 9 * 10000 + int (twCommitted t) * 1000 +
                min (sint (tnApplied nd)) 9 * 10 + int (r1 + r2 + r3)))
       }
     }
   }"

text \<open>The schedules that the multi-node probes run, in order.\<close>

definition electScheds :: "sched list" where
  "electScheds = [
     \<lparr>scN = 3, scCmds = 0, scFloor = 1, scOps = [OpCampaign 1, OpDrain]\<rparr>,
     \<lparr>scN = 3, scCmds = 2, scFloor = 1, scOps = [OpPropose 1, OpCampaign 1, OpDrain, OpPropose 1, OpDrain,
       OpPropose 1, OpDrain]\<rparr>,
     \<lparr>scN = 3, scCmds = 1, scFloor = 1, scOps = [OpCampaign 1, OpDrain, OpPropose 2, OpDrain]\<rparr>,
     \<lparr>scN = 3, scCmds = 1, scFloor = 1, scOps = [OpCampaign 1, OpCampaign 2, OpDrain, OpPropose 3, OpDrain]\<rparr>,
     \<lparr>scN = 3, scCmds = 2, scFloor = 2, scOps = [OpCampaign 1, OpDrain, OpPropose 1, OpDrain, OpCampaign 2,
       OpDrain, OpPropose 2, OpDrain]\<rparr>]"

definition perturbScheds :: "sched list" where
  "perturbScheds = [
     \<lparr>scN = 3, scCmds = 1, scFloor = 1, scOps = [OpCampaign 1, OpDrainRev, OpPropose 1, OpDrainRev]\<rparr>,
     \<lparr>scN = 3, scCmds = 2, scFloor = 1, scOps = [OpCampaign 1, OpDrainRev, OpPropose 2, OpDrain, OpPropose 1,
       OpDrainRev, OpDrain]\<rparr>,
     \<lparr>scN = 3, scCmds = 1, scFloor = 1, scOps = [OpCampaign 1, OpDeliver 3 0, OpDeliver 2 0, OpDeliver 1 0,
       OpDeliver 1 0, OpDrain, OpPropose 1, OpDeliver 3 0, OpDeliver 1 0, OpDrain]\<rparr>,
     \<lparr>scN = 3, scCmds = 1, scFloor = 1, scOps = [OpCampaign 1, OpDrainSkip 3, OpPropose 1, OpDrainSkip 3]\<rparr>]"

definition tickScheds :: "sched list" where
  "tickScheds = [
     \<lparr>scN = 3, scCmds = 1, scFloor = 1, scOps = [OpCampaign 1, OpDrain, OpTick 1, OpDrain, OpTick 2, OpTick 3,
       OpPropose 1, OpDrain, OpTick 1, OpDrain]\<rparr>]"

section \<open>The choice-driven twin\<close>

text \<open>
  src/tools/raftsubject/twin-chdriver.go: each round delivers one live message, picked by ranging over a
  map. A map may be ranged over in any order, so the pick of a round is an argument, the head of a list
  of choices (the first live message once the list is used up). The size of the cluster, the number of
  commands and the bound on the rounds, constants of the code, are arguments as well.
\<close>

definition liveIdx :: "twin \<Rightarrow> nat list" where
  "liveIdx t = filter (\<lambda>j. twLive t ! j) [0..<length (twNet t)]"

definition pickLive :: "nat list \<Rightarrow> nat list \<Rightarrow> nat" where
  "pickLive picks live = (case picks of [] \<Rightarrow> live ! 0 | p # ps \<Rightarrow> live ! (p mod length live))"

text \<open>The loop, with the rounds left and the proposals in a row at quiescence; it returns the rounds completed.\<close>

fun choiceLoop :: "nat \<Rightarrow> nat \<Rightarrow> nat list \<Rightarrow> twin \<Rightarrow> (nat \<times> twin) option" where
  "choiceLoop 0 stuck picks t = Some (0, t)"
| "choiceLoop (Suc left) stuck picks t =
     (if length (liveIdx t) > 0 then do {
        t \<leftarrow> deliverIdx (pickLive picks (liveIdx t)) t;
        (rounds, t) \<leftarrow> choiceLoop left 0 (tl picks) t;
        Some (Suc rounds, t)
      }
      else if complete t \<and> length (twPending t) = 0 then Some (0, t)
      else if length (twPending t) > 0 then do {
        t \<leftarrow> twin_step (OpPropose 1) t;
        if stuck + 1 > 3 then Some (0, t\<lparr>twHalt := True\<rparr>)
        else do { (rounds, t) \<leftarrow> choiceLoop left (stuck + 1) picks t; Some (Suc rounds, t) }
      }
      else Some (0, t\<lparr>twHalt := True\<rparr>))"

definition choiceRun :: "nat \<Rightarrow> nat \<Rightarrow> nat \<Rightarrow> (uint64 \<Rightarrow> nat list) \<Rightarrow> nat list \<Rightarrow> (twin \<times> bool \<times> bool \<times> nat) option" where
  "choiceRun n cmds fuel draws picks = do {
     t \<leftarrow> newTwin n cmds draws;
     t \<leftarrow> twin_step (OpCampaign 1) t;
     (rounds, t) \<leftarrow> choiceLoop fuel 0 picks t;
     Some (t, complete t \<and> length (twPending t) = 0 \<and> \<not> twHalt t, \<not> (twClaims t < 1 \<or> twCommitted t < 1), rounds)
   }"

definition runTwinChoice :: "(uint64 \<Rightarrow> nat list) \<Rightarrow> nat list \<Rightarrow> (twin \<times> bool \<times> bool \<times> nat) option" where
  "runTwinChoice = choiceRun 3 2 400"

definition twinChoiceVerdict :: "(uint64 \<Rightarrow> nat list) \<Rightarrow> nat list \<Rightarrow> verdict option" where
  "twinChoiceVerdict draws picks = do {
     (t, finished, floorOK, rounds) \<leftarrow> runTwinChoice draws picks;
     Some \<lparr>vdViol = length (twViolations t), vdClaims = twClaims t, vdCommitted = twCommitted t,
       vdComplete = finished, vdFloor = floorOK\<rparr>
   }"

end
