(* ===== verification/TwinRun.thy ===== *)
theory TwinRun
  imports Twin
begin

text \<open>
  A run of the twin, evaluated: a cluster of one node that campaigns, wins, appends the empty entry
  of its term, commits it and applies it, in three rounds of the harvest.
\<close>

section \<open>The states\<close>

definition runMs :: MemoryStorage where
  "runMs = \<lparr>msHardState = None,
     msSnapshot = Some (Snapshot0\<lparr>snMetadata := Some (SnapshotMetadata0\<lparr>smIndex := Some 1, smTerm := Some 1,
       smConfState := Some (ConfState0\<lparr>csVoters := [1], csAutoLeave := Some False\<rparr>)\<rparr>)\<rparr>),
     msEnts = [Entry0\<lparr>eTerm := Some 1, eIndex := Some 1\<rparr>]\<rparr>"

definition runPr :: Progress where
  "runPr = \<lparr>prMatch = 1, prNext = 2, prSentCommit = 0, prState = StateProbe, prPendingSnapshot = 0,
     prRecentActive = False, prMsgAppFlowPaused = False, prInflights = NewInflights 256 noLimit, prIsLearner = False\<rparr>"

definition runTrk :: "(uint64 \<rightharpoonup> bool) \<Rightarrow> Progress \<Rightarrow> ProgressTracker" where
  "runTrk votes pr = (MakeProgressTracker 256 noLimit)\<lparr>
     trkConfig := \<lparr>cfgVoters = (Some {1}, None), cfgAutoLeave = False, cfgLearners = None, cfgLearnersNext = None\<rparr>,
     trkVotes := votes, trkProgress := [1 \<mapsto> pr]\<rparr>"

definition runLog :: raftLog where
  "runLog = \<lparr>lStorage = runMs,
     lUnstable = \<lparr>uSnapshot = None, uEntries = [], uOffset = 2, uSnapshotInProgress = False, uOffsetInProgress = 2\<rparr>,
     lCommitted = 1, lApplying = 1, lApplied = 1, lMaxApplyingEntsSize = 2 ^ 20, lApplyingEntsSize = 0,
     lApplyingEntsPaused = False\<rparr>"

definition runFollower :: raft where
  "runFollower = \<lparr>rId = 1, rTerm = 0, rVote = 0, rReadStates = [], rLog = runLog, rMaxMsgSize = 2 ^ 20,
     rMaxUncommittedSize = noLimit, rTrk = runTrk Map.empty runPr, rState = StateFollower, rIsLearner = False,
     rMsgs = [], rMsgsAfterAppend = [], rLead = 0, rLeadTransferee = 0, rPendingConfIndex = 0,
     rDisableConfChangeValidation = False, rUncommittedSize = 0, rReadOnly = newReadOnly ReadOnlySafe,
     rElectionElapsed = 0, rHeartbeatElapsed = 0, rCheckQuorum = False, rPreVote = False, rHeartbeatTimeout = 1,
     rElectionTimeout = 10, rRandomizedElectionTimeout = 10, rDisableProposalForwarding = False,
     rStepDownOnRemoval = False, rTick = TickElection, rStep = StepFollower, rPendingReadIndexMessages = [],
     rDraws = []\<rparr>"

definition runHs :: "uint64 \<Rightarrow> uint64 \<Rightarrow> uint64 \<Rightarrow> HardState" where
  "runHs t v c = HardState0\<lparr>hsTerm := Some t, hsVote := Some v, hsCommit := Some c\<rparr>"

definition runRn :: "raft \<Rightarrow> SoftState \<Rightarrow> HardState \<Rightarrow> Message list \<Rightarrow> RawNode" where
  "runRn r ss hs steps = \<lparr>nRaft = r, nAsyncStorageWrites = False, nPrevSoftSt = ss, nPrevHardSt = hs, nStepsOnAdvance = steps\<rparr>"

definition runNode :: "RawNode \<Rightarrow> twinNode" where
  "runNode rn = \<lparr>tnId = 1, tnRn = rn, tnTerm = 0, tnCommit = 0, tnState = StateFollower, tnApplied = 0, tnLastTrm = 0,
     tnGot = []\<rparr>"

definition runTwin :: "twinNode \<Rightarrow> twin" where
  "runTwin nd = \<lparr>twNodes = [nd], twNet = [], twLive = [], twLeaderOf = Map.empty, twByIndex = Map.empty, twClaims = 0,
     twCommitted = 0, twViolations = [], twPending = [], twDriven = [], twSeq = 0, twHalt = False\<rparr>"

section \<open>The start\<close>

lemma run_restore:
  "Restore \<lparr>chTracker = MakeProgressTracker 256 noLimit, chLastIndex = 1\<rparr> (ConfState0\<lparr>csVoters := [1], csAutoLeave := Some False\<rparr>) =
   Some (Inr (\<lparr>cfgVoters = (Some {1}, None), cfgAutoLeave = False, cfgLearners = None, cfgLearnersNext = None\<rparr>,
     [1 \<mapsto> \<lparr>prMatch = 0, prNext = 1, prSentCommit = 0, prState = StateProbe, prPendingSnapshot = 0, prRecentActive = True,
       prMsgAppFlowPaused = False, prInflights = NewInflights 256 noLimit, prIsLearner = False\<rparr>]))"
  by (simp add: Restore_def toConfChangeSingle_def zero_defs ccSingle_def Changer_Simple_def checkAndCopy_def checkAndReturn_def checkInvariants_def
    MakeProgressTracker_def JointConfig_IDs_def elems_def Config_Clone_def joint_def applyChanges_def applyOne_def getters makeVoter_def initProgress_def addIncoming_def
    symdiff_def Let_def isLearnerIn_def)

lemma ConfState_self: "ConfState_EqualMessage (normConfState c) (normConfState c) = Some True"
  by (simp add: ConfState_EqualMessage_def)

lemmas run_log = log_lastEntryID_def log_lastIndex_def log_firstIndex_def maybeFirstIndex_def maybeLastIndex_def
  log_term_def maybeTerm_def MS_Term_def MS_FirstIndex_def MS_firstIndex_def MS_LastIndex_def MS_lastIndex_def go_run
  or_panic_def len64_def

lemma run_start: "newTwin 1 0 (\<lambda>_. []) = Some (runTwin (runNode (runRn runFollower \<lparr>ssLead = 0, ssRaftState = StateFollower\<rparr> (runHs 0 0 1) [])))"
  apply (simp add: newTwin_def newTwinNode_def MS_ApplySnapshot_def NewMemoryStorage_def twinSnapshot_def
     EnsureSnapshot_def EnsureSnapshotMetadata_def EnsureConfState_def getters zero_defs Let_def NewRawNode_def
     newRaft_def twinConfig_def validate_def IsLocalMsgTarget_def None_id_def LocalAppendThread_def LocalApplyThread_def)
  apply (simp add: newLogWithSize_def run_log getters zero_defs MS_InitialState_def EnsureConfState_def Let_def
    run_restore [unfolded zero_defs, simplified])
  apply (simp add: switchToConfig_def Let_def MakeProgressTracker_def progressOf_def assertConfStatesEquivalent_def
    ConfState_Equivalent_def ConfState_self ProgressTracker_ConfState_def MajorityConfig_Slice_def elems_def IsEmptyHardState_def)
  apply (simp add: becomeFollower_def reset_def resetRandomizedElectionTimeout_def Intn_def raft_Visit_def
    abortLeaderTransfer_def ProgressTracker_ResetVotes_def None_id_def setProgress_def
    run_log getters zero_defs progressOf_def softState_def hardState_def)
  by (simp add: runTwin_def runNode_def runRn_def runHs_def runFollower_def runLog_def runMs_def runTrk_def runPr_def MakeProgressTracker_def newReadOnly_def zero_defs ConfState_self)

section \<open>The campaign\<close>

definition runVote :: Message where
  "runVote = Msg (Message0\<lparr>mType := Some MsgVoteResp, mTo := Some 1, mFrom := Some 1, mTerm := Some 1\<rparr>) []"

definition runCandidate :: raft where
  "runCandidate = runFollower\<lparr>rTerm := 1, rVote := 1, rState := StateCandidate, rStep := StepCandidate\<rparr>"

lemma run_lastIndex [simp]: "log_lastIndex runLog = Some 1"
  by (simp add: runLog_def runMs_def run_log getters zero_defs)

lemma run_becomeCandidate: "becomeCandidate runFollower = Some runCandidate"
  by (simp add: becomeCandidate_def reset_def resetRandomizedElectionTimeout_def Intn_def raft_Visit_def
      runFollower_def progressOf_def setProgress_def runTrk_def runPr_def abortLeaderTransfer_def
      ProgressTracker_ResetVotes_def None_id_def newReadOnly_def MakeProgressTracker_def runCandidate_def)

lemma run_campaign:
  "Step (Some (Msg (Message0\<lparr>mType := Some MsgHup\<rparr>) [])) runFollower =
     Some (None, runCandidate\<lparr>rMsgsAfterAppend := [runVote]\<rparr>)"
proof -
  have 1: "rState runFollower = StateFollower" "rId runCandidate = 1" "rTerm runCandidate = 1"
    "cfgVoters (trkConfig (rTrk runCandidate)) = (Some {1}, None)" "rPreVote runFollower = False" "rTerm runFollower = 0"
    "rMsgsAfterAppend runCandidate = []"
    by (simp_all add: runCandidate_def runFollower_def runTrk_def)
  have 2: "promotable runFollower" "\<not> hasUnappliedConfChanges runFollower \<noteq> Some False"
    apply (simp_all add: promotable_def runFollower_def progressOf_def runTrk_def runPr_def hasNextOrInProgressSnapshot_def runLog_def hasUnappliedConfChanges_def)
    done
  have "campaign campaignElection runFollower = Some (runCandidate\<lparr>rMsgsAfterAppend := [runVote]\<rparr>)"
    by (simp add: campaign_def run_becomeCandidate JointConfig_IDs_def elems_def 1 send_def None_id_def runVote_def upd_msg_def Message0_def)
  with 1 2 show ?thesis by (simp add: Step.simps hup_def nil_err_def)
qed

section \<open>The first round: the vote\<close>

lemma run_sel [simp]:
  "tnId (runNode rn) = 1" "tnRn (runNode rn) = rn" "tnTerm (runNode rn) = 0"
  "nRaft (runRn r ss hs steps) = r" "nAsyncStorageWrites (runRn r ss hs steps) = False"
  "nPrevSoftSt (runRn r ss hs steps) = ss" "nPrevHardSt (runRn r ss hs steps) = hs"
  "nStepsOnAdvance (runRn r ss hs steps) = steps"
  by (simp_all add: runNode_def runRn_def)

lemma runFollower_sel [simp]:
  "rId runFollower = 1" "rTerm runFollower = 0" "rVote runFollower = 0" "rReadStates runFollower = []"
  "rLog runFollower = runLog" "rState runFollower = StateFollower" "rMsgs runFollower = []"
  "rMsgsAfterAppend runFollower = []" "rLead runFollower = 0" "rElectionTimeout runFollower = 10"
  "rDraws runFollower = []" "rReadOnly runFollower = newReadOnly ReadOnlySafe" "rUncommittedSize runFollower = 0"
  "rLeadTransferee runFollower = 0" "rPendingConfIndex runFollower = 0" "rRandomizedElectionTimeout runFollower = 10"
  "rElectionElapsed runFollower = 0" "rHeartbeatElapsed runFollower = 0" "rMaxUncommittedSize runFollower = noLimit" "rTrk runFollower = runTrk Map.empty runPr"
  by (simp_all add: runFollower_def)

lemmas run_ready_defs = readyWithoutAccept_def nextUnstableEnts_def nextEntries_def nextCommittedEnts_def
  Let_def hasNextOrInProgressSnapshot_def maxAppliableIndex_def go_run len64_def
  softState_def hardState_def SoftState_equal_def isHardStateEqual_def getters zero_defs hasNextUnstableSnapshot_def
  nextSnapshot_def MustSync_def runHs_def

definition runReady1 :: Ready where
  "runReady1 = \<lparr>rdSoftState = Some \<lparr>ssLead = 0, ssRaftState = StateCandidate\<rparr>, rdHardState = Some (runHs 1 1 1),
     rdReadStates = [], rdEntries = [], rdSnapshot = None, rdCommittedEntries = [], rdMessages = [], rdMustSync = True\<rparr>"

lemma run_ready1:
  "readyWithoutAccept (runRn (runCandidate\<lparr>rMsgsAfterAppend := [runVote]\<rparr>) \<lparr>ssLead = 0, ssRaftState = StateFollower\<rparr>
     (runHs 0 0 1) []) = Some runReady1"
  by (simp add: run_ready_defs runCandidate_def runLog_def runVote_def runReady1_def)

lemma run_accept1:
  "acceptReady runReady1 (runRn (runCandidate\<lparr>rMsgsAfterAppend := [runVote]\<rparr>) \<lparr>ssLead = 0, ssRaftState = StateFollower\<rparr>
     (runHs 0 0 1) []) =
   Some (runRn runCandidate \<lparr>ssLead = 0, ssRaftState = StateCandidate\<rparr> (runHs 1 1 1) [runVote])"
  by (simp add: acceptReady_def runReady1_def Let_def IsEmptyHardState_def isHardStateEqual_def emptyState_def runHs_def
     getters zero_defs needStorageAppendRespMsg_def hasNextOrInProgressUnstableEnts_def needStorageApplyRespMsg_def needStorageApplyMsg_def
     IsEmptySnap_def acceptUnstable_def acceptInProgress_def runRn_def runVote_def runCandidate_def runFollower_def runLog_def)

definition runDurable1 :: raft where
  "runDurable1 = runCandidate\<lparr>rLog := runLog\<lparr>lStorage := runMs\<lparr>msHardState := Some (runHs 1 1 1)\<rparr>\<rparr>\<rparr>"

definition runEnt :: Entry where
  "runEnt = Entry0\<lparr>eTerm := Some 1, eIndex := Some 2\<rparr>"

definition runMsH :: "HardState \<Rightarrow> MemoryStorage" where
  "runMsH hs = runMs\<lparr>msHardState := Some hs\<rparr>"

definition runU :: unstable where
  "runU = \<lparr>uSnapshot = None, uEntries = [runEnt], uOffset = 2, uSnapshotInProgress = False, uOffsetInProgress = 2\<rparr>"

lemma run_lastIndex1 [simp]:
  "log_lastIndex (runLog\<lparr>lStorage := runMs\<lparr>msHardState := h\<rparr>\<rparr>) = Some 1"
  "log_lastIndex (runLog\<lparr>lStorage := runMs\<lparr>msHardState := h\<rparr>, lUnstable := runU\<rparr>) = Some 2"
  by (simp_all add: runLog_def runMs_def runU_def run_log getters zero_defs)

lemma run_unstable [simp]: "truncateAndAppend [Entry0\<lparr>eTerm := Some 1, eIndex := Some 2\<rparr>] (lUnstable runLog) = Some runU"
  by (simp add: runLog_def truncateAndAppend_def Let_def getters len64_def go_run runU_def runEnt_def)

lemma runTrk_sel [simp]:
  "trkProgress (runTrk v pr) = [1 \<mapsto> pr]" "trkVotes (runTrk v pr) = v" "trkMaxInflight (runTrk v pr) = 256"
  "trkMaxInflightBytes (runTrk v pr) = noLimit"
  "trkConfig (runTrk v pr) = \<lparr>cfgVoters = (Some {1}, None), cfgAutoLeave = False, cfgLearners = None, cfgLearnersNext = None\<rparr>"
  "(runTrk v pr)\<lparr>trkVotes := v'\<rparr> = runTrk v' pr" "(runTrk v pr)\<lparr>trkProgress := [1 \<mapsto> pr']\<rparr> = runTrk v pr'"
  by (simp_all add: runTrk_def MakeProgressTracker_def)

lemma run_won: "snd (snd (ProgressTracker_TallyVotes (runTrk [1 \<mapsto> True] pr))) = VoteWon"
  unfolding TallyVotes_result
  by (simp add: runTrk_def JointConfig_VoteResult_def MajorityConfig_VoteResult_def VoteResultOver_def
      MajorityConfig_Slice_def Let_def elems_def)

lemma runLog_sel [simp]: "lCommitted runLog = 1" "lApplied runLog = 1" "lApplying runLog = 1"
  by (simp_all add: runLog_def)

definition runAck :: Message where
  "runAck = Msg (Message0\<lparr>mType := Some MsgAppResp, mTo := Some 1, mFrom := Some 1, mTerm := Some 1, mIndex := Some 2\<rparr>) []"

definition runPr1 :: Progress where
  "runPr1 = runPr\<lparr>prState := StateReplicate, prRecentActive := True\<rparr>"

text \<open>The leader of term 1, over a log.\<close>

definition runLeader :: "Progress \<Rightarrow> Message list \<Rightarrow> raftLog \<Rightarrow> raft" where
  "runLeader pr acks l = runFollower\<lparr>rTerm := 1, rVote := 1, rState := StateLeader, rStep := StepLeader, rTick := TickHeartbeat,
     rLead := 1, rPendingConfIndex := 1, rTrk := runTrk Map.empty pr, rLog := l, rMsgsAfterAppend := acks\<rparr>"

definition runLog1 :: raftLog where
  "runLog1 = runLog\<lparr>lStorage := runMs\<lparr>msHardState := Some (runHs 1 1 1)\<rparr>, lUnstable := runU\<rparr>"

lemma run_becomeLeader:
  "becomeLeader (runDurable1\<lparr>rTrk := runTrk [1 \<mapsto> True] runPr\<rparr>) = Some (runLeader runPr1 [runAck] runLog1)"
  apply (simp add: becomeLeader_def reset_def resetRandomizedElectionTimeout_def Intn_def raft_Visit_def runDurable1_def runCandidate_def None_id_def
    abortLeaderTransfer_def ProgressTracker_ResetVotes_def progressOf_def setProgress_def)
  apply (simp add: appendEntry_def increaseUncommittedSize_def log_append_def Let_def send_def None_id_def getters payloadsSize_def payloadSize_def len64_def
    newReadOnly_def upd_msg_def)
  by (simp add: zero_defs runLeader_def runAck_def runLog1_def runPr1_def runPr_def runFollower_def newReadOnly_def Progress_BecomeReplicate_def Progress_ResetState_def
    Inflights_reset_def NewInflights_def)

lemma run_bcast: "bcastAppend (runLeader pr acks l) = Some (runLeader pr acks l)"
  by (simp add: bcastAppend_def raft_Visit_def runLeader_def progressOf_def)

lemma run_win: "Step (Some runVote) runDurable1 = Some (None, runLeader runPr1 [runAck] runLog1)"
proof -
  obtain gr rj where t: "ProgressTracker_TallyVotes (runTrk [1 \<mapsto> True] runPr) = (gr, rj, VoteWon)"
    using run_won by (metis prod.collapse)
  have rec: "ProgressTracker_RecordVote 1 True (rTrk runDurable1) = runTrk [1 \<mapsto> True] runPr"
    by (simp add: ProgressTracker_RecordVote_def runDurable1_def runCandidate_def)
  have "poll 1 True runDurable1 = ((gr, rj, VoteWon), runDurable1\<lparr>rTrk := runTrk [1 \<mapsto> True] runPr\<rparr>)"
    using t by (simp add: poll_def rec)
  moreover have "rState runDurable1 = StateCandidate" "rTerm runDurable1 = 1" "rStep runDurable1 = StepCandidate"
    by (simp_all add: runDurable1_def runCandidate_def)
  ultimately have "stepCandidate runVote runDurable1 = Some (None, runLeader runPr1 [runAck] runLog1)"
    by (simp add: stepCandidate_def runVote_def run_becomeLeader run_bcast)
  then show ?thesis
    by (simp add: Step.simps callStep_def) (simp add: runVote_def runDurable1_def runCandidate_def)
qed

lemma run_round1:
  "harvestRound 0 (runTwin (runNode (runRn (runCandidate\<lparr>rMsgsAfterAppend := [runVote]\<rparr>)
     \<lparr>ssLead = 0, ssRaftState = StateFollower\<rparr> (runHs 0 0 1) []))) =
   Some (True, runTwin ((runNode (runRn (runLeader runPr1 [runAck] runLog1)
     \<lparr>ssLead = 0, ssRaftState = StateCandidate\<rparr> (runHs 1 1 1) []))\<lparr>tnTerm := 1, tnCommit := 1, tnState := StateCandidate\<rparr>))"
proof -
  let ?n = "runNode (runRn (runCandidate\<lparr>rMsgsAfterAppend := [runVote]\<rparr>) \<lparr>ssLead = 0, ssRaftState = StateFollower\<rparr> (runHs 0 0 1) [])"
  let ?rn = "runRn runCandidate \<lparr>ssLead = 0, ssRaftState = StateCandidate\<rparr> (runHs 1 1 1) [runVote]"
  let ?rn1 = "runRn runDurable1 \<lparr>ssLead = 0, ssRaftState = StateCandidate\<rparr> (runHs 1 1 1) [runVote]"
  have t: "takeReady (tnRn ?n) = Some (runReady1, ?rn)"
    by (simp add: takeReady_def run_ready1 run_accept1)
  have p: "persist runReady1 (?n\<lparr>tnRn := ?rn\<rparr>) = Some (?n\<lparr>tnRn := ?rn1, tnTerm := 1, tnCommit := 1\<rparr>)"
    by (simp add: persist_def writeStorage_def runReady1_def IsEmptyHardState_def isHardStateEqual_def emptyState_def runHs_def
      getters zero_defs MS_SetHardState_def runRn_def runDurable1_def runCandidate_def runLog_def)
  have a: "Advance ?rn1 = Some (runRn (runLeader runPr1 [runAck] runLog1) \<lparr>ssLead = 0, ssRaftState = StateCandidate\<rparr> (runHs 1 1 1) [])"
    by (simp add: Advance_def run_win runRn_def)
  show ?thesis
    using t p a
    by (simp add: harvestRound_def runTwin_def recordClaim_def runReady1_def sendAll_def setNode_def IsEmptySnap_def
        getters runNode_def)
qed

section \<open>The second round: the entry and the claim\<close>

definition runStable :: Message where
  "runStable = Msg (Message0\<lparr>mType := Some MsgStorageAppendResp, mTo := Some 1, mFrom := Some LocalAppendThread,
     mTerm := Some 1, mIndex := Some 2, mLogTerm := Some 1\<rparr>) []"

definition runReady2 :: Ready where
  "runReady2 = \<lparr>rdSoftState = Some \<lparr>ssLead = 1, ssRaftState = StateLeader\<rparr>, rdHardState = None,
     rdReadStates = [], rdEntries = [runEnt], rdSnapshot = None, rdCommittedEntries = [], rdMessages = [], rdMustSync = True\<rparr>"

definition runLog2 :: raftLog where
  "runLog2 = runLog1\<lparr>lUnstable := runU\<lparr>uOffsetInProgress := 3\<rparr>\<rparr>"

lemma runLeader_sel [simp]:
  "rId (runLeader pr acks l) = 1" "rTerm (runLeader pr acks l) = 1" "rVote (runLeader pr acks l) = 1"
  "rReadStates (runLeader pr acks l) = []" "rLog (runLeader pr acks l) = l" "rState (runLeader pr acks l) = StateLeader"
  "rMsgs (runLeader pr acks l) = []" "rMsgsAfterAppend (runLeader pr acks l) = acks" "rLead (runLeader pr acks l) = 1"
  "rTrk (runLeader pr acks l) = runTrk Map.empty pr" "rStep (runLeader pr acks l) = StepLeader"
  "rLeadTransferee (runLeader pr acks l) = 0" "rPendingReadIndexMessages (runLeader pr acks l) = []"
  "(runLeader pr acks l)\<lparr>rMsgs := [], rMsgsAfterAppend := [], rLog := l'\<rparr> = runLeader pr [] l'"
  "(runLeader pr acks l)\<lparr>rTrk := runTrk Map.empty pr'\<rparr> = runLeader pr' acks l"
  "(runLeader pr acks l)\<lparr>rLog := l'\<rparr> = runLeader pr acks l'"
  by (simp_all add: runLeader_def) (simp_all add: runFollower_def)

lemma run_ready2:
  "readyWithoutAccept (runRn (runLeader runPr1 [runAck] runLog1) \<lparr>ssLead = 0, ssRaftState = StateCandidate\<rparr> (runHs 1 1 1) []) =
   Some runReady2"
  by (simp add: run_ready_defs runLog1_def runU_def runReady2_def) (simp add: runLog_def runAck_def)

lemma run_accept2:
  "acceptReady runReady2 (runRn (runLeader runPr1 [runAck] runLog1) \<lparr>ssLead = 0, ssRaftState = StateCandidate\<rparr> (runHs 1 1 1) []) =
   Some (runRn (runLeader runPr1 [] runLog2) \<lparr>ssLead = 1, ssRaftState = StateLeader\<rparr> (runHs 1 1 1) [runAck, runStable])"
proof -
  have "log_lastEntryID runLog1 = Some \<lparr>idTerm = 1, idIndex = 2\<rparr>"
    by (simp add: runLog1_def runLog_def runMs_def runU_def runEnt_def run_log getters zero_defs)
  moreover have "acceptUnstable runLog1 = runLog2"
    by (simp add: acceptUnstable_def acceptInProgress_def runLog1_def runLog2_def runU_def runEnt_def getters)
  moreover have "hasNextOrInProgressUnstableEnts runLog1"
    by (simp add: hasNextOrInProgressUnstableEnts_def runLog1_def runU_def)
  ultimately show ?thesis
    by (simp add: acceptReady_def runReady2_def Let_def IsEmptySnap_def getters zero_defs needStorageAppendRespMsg_def
      newStorageAppendRespMsg_def needStorageApplyRespMsg_def needStorageApplyMsg_def runAck_def runStable_def runRn_def)
qed

definition runLog3 :: raftLog where
  "runLog3 = runLog2\<lparr>lStorage := runMs\<lparr>msHardState := Some (runHs 1 1 1), msEnts := msEnts runMs @ [runEnt]\<rparr>\<rparr>"

definition runPr2 :: Progress where
  "runPr2 = runPr1\<lparr>prMatch := 2, prNext := 3\<rparr>"

lemma run_committed: "prMatch pr = 2 \<Longrightarrow> ProgressTracker_Committed (runTrk v pr) = 2"
  by (simp add: ProgressTracker_Committed_def JointConfig_CommittedIndex_def MajorityConfig_CommittedIndex_def
     matchAckIndexer_def elems_def MajorityConfig_Slice_def Let_def CommittedIndexOver_def)

lemma run_ack: "Step (Some runAck) (runLeader runPr1 [] runLog3) = Some (None, runLeader runPr2 [] (runLog3\<lparr>lCommitted := 2\<rparr>))"
proof -
  let ?r = "runLeader runPr2 [] (runLog3\<lparr>lCommitted := 2\<rparr>)"
  have c: "maybeCommit \<lparr>idTerm = 1, idIndex = 2\<rparr> runLog3 = Some (True, runLog3\<lparr>lCommitted := 2\<rparr>)"
    by (simp add: maybeCommit_def matchTerm_def commitTo_def runLog3_def runLog2_def runLog1_def runU_def runEnt_def run_log getters zero_defs runLog_def runMs_def)
  have mc: "raft_maybeCommit (runLeader runPr2 [] runLog3) = Some (True, ?r)"
    using c by (simp add: raft_maybeCommit_def run_committed runPr2_def)
  have u: "Progress_MaybeUpdate 2 (runPr1\<lparr>prRecentActive := True\<rparr>) = (runPr2, True)"
    by (simp add: Progress_MaybeUpdate_def runPr2_def runPr1_def runPr_def Let_def)
  have f: "leaderAckProgress runAck runPr2 r = Some runPr2" for r
    by (simp add: leaderAckProgress_def runPr2_def runPr1_def runPr_def Inflights_FreeLE_def NewInflights_def)
  have s: "setProgress 1 pr (runLeader pr0 acks l) = runLeader pr acks l" for pr pr0 acks l
    by (simp add: setProgress_def)
  have m: "Message_GetIndex runAck = 2" "Message_GetFrom runAck = 1" "Message_GetType runAck = MsgAppResp" "Message_GetTerm runAck = 1"
    "\<not> Message_GetReject runAck"
    by (simp_all add: runAck_def getters)
  have "leaderAppResp runAck runPr1 (runLeader runPr1 [] runLog3) = Some ?r"
    by (simp add: leaderAppResp_def leaderAppAccept_def m u f s mc releasePendingReadIndexMessages_def run_bcast)
  then have "stepLeader runAck (runLeader runPr1 [] runLog3) = Some (None, ?r)"
    by (simp add: stepLeader_def m progressOf_def)
  then show ?thesis by (simp add: Step.simps callStep_def m)
qed

definition runLog4 :: raftLog where
  "runLog4 = runLog3\<lparr>lCommitted := 2, lUnstable := runU\<lparr>uEntries := [], uOffset := 3, uOffsetInProgress := 3\<rparr>\<rparr>"

lemma run_stable:
  "Step (Some runStable) (runLeader runPr2 [] (runLog3\<lparr>lCommitted := 2\<rparr>)) = Some (None, runLeader runPr2 [] runLog4)"
proof -
  have "log_stableTo \<lparr>idTerm = 1, idIndex = 2\<rparr> (runLog3\<lparr>lCommitted := 2\<rparr>) = Some runLog4"
    by (simp add: log_stableTo_def unstable_stableTo_def maybeTerm_def runLog3_def runLog2_def runU_def runEnt_def getters zero_defs
      go_run Let_def shrinkEntriesArray_def runLog4_def maybeLastIndex_def len64_def)
  then show ?thesis by (simp add: Step.simps runStable_def getters zero_defs)
qed

lemma run_append: "MS_Append [runEnt] (runMs\<lparr>msHardState := h\<rparr>) = Some (runMs\<lparr>msHardState := h, msEnts := msEnts runMs @ [runEnt]\<rparr>)"
  by (simp add: MS_Append_def runMs_def runEnt_def getters zero_defs MS_firstIndex_def go_run len64_def)

lemma run_round2:
  "harvestRound 0 (runTwin ((runNode (runRn (runLeader runPr1 [runAck] runLog1)
     \<lparr>ssLead = 0, ssRaftState = StateCandidate\<rparr> (runHs 1 1 1) []))\<lparr>tnTerm := 1, tnCommit := 1, tnState := StateCandidate\<rparr>)) =
   Some (True, (runTwin ((runNode (runRn (runLeader runPr2 [] runLog4)
     \<lparr>ssLead = 1, ssRaftState = StateLeader\<rparr> (runHs 1 1 1) []))\<lparr>tnTerm := 1, tnCommit := 1, tnState := StateLeader\<rparr>))
     \<lparr>twClaims := 1, twLeaderOf := [1 \<mapsto> 1]\<rparr>)"
proof -
  let ?n = "(runNode (runRn (runLeader runPr1 [runAck] runLog1)
     \<lparr>ssLead = 0, ssRaftState = StateCandidate\<rparr> (runHs 1 1 1) []))\<lparr>tnTerm := 1, tnCommit := 1, tnState := StateCandidate\<rparr>"
  let ?ss = "\<lparr>ssLead = 1, ssRaftState = StateLeader\<rparr>"
  have t: "takeReady (tnRn ?n) = Some (runReady2, runRn (runLeader runPr1 [] runLog2) ?ss (runHs 1 1 1) [runAck, runStable])"
    by (simp add: takeReady_def run_ready2 run_accept2)
  have st: "lStorage runLog2 = runMs\<lparr>msHardState := Some (runHs 1 1 1)\<rparr>" by (simp add: runLog2_def runLog1_def)
  have p: "persist runReady2 (?n\<lparr>tnRn := runRn (runLeader runPr1 [] runLog2) ?ss (runHs 1 1 1) [runAck, runStable]\<rparr>) =
      Some (?n\<lparr>tnRn := runRn (runLeader runPr1 [] runLog3) ?ss (runHs 1 1 1) [runAck, runStable]\<rparr>)"
    by (simp add: persist_def writeStorage_def runReady2_def IsEmptyHardState_def st run_append runLog3_def runRn_def)
  have a: "Advance (runRn (runLeader runPr1 [] runLog3) ?ss (runHs 1 1 1) [runAck, runStable]) =
      Some (runRn (runLeader runPr2 [] runLog4) ?ss (runHs 1 1 1) [])"
    by (simp add: Advance_def run_ack run_stable runRn_def)
  show ?thesis
    using t p a
    by (simp add: harvestRound_def runTwin_def recordClaim_def runReady2_def sendAll_def setNode_def IsEmptySnap_def
        getters runNode_def Let_def)
qed

section \<open>The third round: the commit\<close>

definition runReady3 :: Ready where
  "runReady3 = \<lparr>rdSoftState = None, rdHardState = Some (runHs 1 1 2),
     rdReadStates = [], rdEntries = [], rdSnapshot = None, rdCommittedEntries = [runEnt], rdMessages = [], rdMustSync = False\<rparr>"

lemma run_slice: "log_slice 2 3 1048576 runLog4 = Some (Inr [runEnt])"
  by (simp add: log_slice_def runLog4_def runLog3_def runLog2_def runLog1_def runLog_def runU_def runMs_def
     log_mustCheckOutOfBounds_def run_log getters zero_defs Let_def MS_Entries_def runEnt_def limitSize_def slice_unstable_def)

lemma runLog4_sel [simp]:
  "lCommitted runLog4 = 2" "lApplying runLog4 = 1" "lApplied runLog4 = 1" "lMaxApplyingEntsSize runLog4 = 1048576"
  "lApplyingEntsSize runLog4 = 0" "lApplyingEntsPaused runLog4 = False"
  "lUnstable runLog4 = \<lparr>uSnapshot = None, uEntries = [], uOffset = 3, uSnapshotInProgress = False, uOffsetInProgress = 3\<rparr>"
  by (simp_all add: runLog4_def runLog3_def runLog2_def runLog1_def runLog_def runU_def)

lemma run_entsSize: "entsSize [runEnt] = 4"
  by (simp add: entsSize_def encSize_def Entry_SizeMessage_def runEnt_def zero_defs sizeOpt_def sizeOptBytes_def
      sizeVarint_def sizeVarintLoop.simps)

lemma run_ready3:
  "readyWithoutAccept (runRn (runLeader runPr2 [] runLog4) \<lparr>ssLead = 1, ssRaftState = StateLeader\<rparr> (runHs 1 1 1) []) =
   Some runReady3"
  by (simp add: run_ready_defs run_slice or_panic_def runReady3_def applyUnstableEntries_def)

definition runDone :: Message where
  "runDone = Msg (Message0\<lparr>mType := Some MsgStorageApplyResp, mTo := Some 1, mFrom := Some LocalApplyThread, mTerm := Some 0,
     mEntries := [runEnt]\<rparr>) []"

definition runLog5 :: raftLog where
  "runLog5 = runLog4\<lparr>lApplying := 2, lApplyingEntsSize := 4\<rparr>"

lemma run_accept3:
  "acceptReady runReady3 (runRn (runLeader runPr2 [] runLog4) \<lparr>ssLead = 1, ssRaftState = StateLeader\<rparr> (runHs 1 1 1) []) =
   Some (runRn (runLeader runPr2 [] runLog5) \<lparr>ssLead = 1, ssRaftState = StateLeader\<rparr> (runHs 1 1 2) [runDone])"
proof -
  have u: "acceptUnstable runLog4 = runLog4" by (simp add: acceptUnstable_def acceptInProgress_def)
  have "acceptApplying 2 4 True runLog4 = Some runLog5"
    by (simp add: acceptApplying_def runLog5_def maxAppliableIndex_def Let_def)
  moreover have "Entry_GetIndex runEnt = 2" by (simp add: runEnt_def getters)
  ultimately show ?thesis
    by (simp add: acceptReady_def runReady3_def Let_def IsEmptySnap_def IsEmptyHardState_def isHardStateEqual_def emptyState_def
      runHs_def getters zero_defs needStorageAppendRespMsg_def hasNextOrInProgressUnstableEnts_def
      needStorageApplyRespMsg_def needStorageApplyMsg_def newStorageApplyRespMsg_def u run_entsSize runDone_def applyUnstableEntries_def
      runRn_def)
qed

definition runLog6 :: raftLog where
  "runLog6 = runLog5\<lparr>lStorage := (lStorage runLog4)\<lparr>msHardState := Some (runHs 1 1 2)\<rparr>\<rparr>"

definition runLog7 :: raftLog where
  "runLog7 = runLog6\<lparr>lApplied := 2, lApplying := 2, lApplyingEntsSize := 0, lApplyingEntsPaused := False\<rparr>"

lemma runLog6_sel [simp]:
  "lCommitted runLog6 = 2" "lApplying runLog6 = 2" "lApplied runLog6 = 1" "lMaxApplyingEntsSize runLog6 = 1048576"
  "lApplyingEntsSize runLog6 = 4" "lApplyingEntsPaused runLog6 = False"
  "lUnstable runLog6 = \<lparr>uSnapshot = None, uEntries = [], uOffset = 3, uSnapshotInProgress = False, uOffsetInProgress = 3\<rparr>"
  by (simp_all add: runLog6_def runLog5_def)

lemma run_done: "Step (Some runDone) (runLeader runPr2 [] runLog6) = Some (None, runLeader runPr2 [] runLog7)"
proof -
  have "appliedTo 2 4 (runLeader runPr2 [] runLog6) = Some (runLeader runPr2 [] runLog7)"
    by (simp add: appliedTo.simps log_appliedTo_def Let_def runLog7_def)
  moreover have "Entry_GetIndex runEnt = 2" "Entry_GetData runEnt = []" by (simp_all add: runEnt_def getters zero_defs)
  moreover have "rUncommittedSize (runLeader runPr2 [] l) = 0" "(runLeader runPr2 [] l)\<lparr>rUncommittedSize := 0\<rparr> = runLeader runPr2 [] l" for l
    by (simp_all add: runLeader_def runFollower_def)
  ultimately show ?thesis
    by (simp add: Step.simps runDone_def getters run_entsSize payloadsSize_def payloadSize_def len64_def reduceUncommittedSize_def)
qed

definition runEnd :: twin where
  "runEnd = (runTwin ((runNode (runRn (runLeader runPr2 [] runLog7)
     \<lparr>ssLead = 1, ssRaftState = StateLeader\<rparr> (runHs 1 1 2) []))\<lparr>tnTerm := 1, tnCommit := 2, tnState := StateLeader,
       tnApplied := 2, tnLastTrm := 1\<rparr>))\<lparr>twClaims := 1, twLeaderOf := [1 \<mapsto> 1]\<rparr>"

lemma run_round3:
  "harvestRound 0 ((runTwin ((runNode (runRn (runLeader runPr2 [] runLog4)
     \<lparr>ssLead = 1, ssRaftState = StateLeader\<rparr> (runHs 1 1 1) []))\<lparr>tnTerm := 1, tnCommit := 1, tnState := StateLeader\<rparr>))
     \<lparr>twClaims := 1, twLeaderOf := [1 \<mapsto> 1]\<rparr>) = Some (True, runEnd)"
proof -
  let ?n = "(runNode (runRn (runLeader runPr2 [] runLog4)
     \<lparr>ssLead = 1, ssRaftState = StateLeader\<rparr> (runHs 1 1 1) []))\<lparr>tnTerm := 1, tnCommit := 1, tnState := StateLeader\<rparr>"
  let ?ss = "\<lparr>ssLead = 1, ssRaftState = StateLeader\<rparr>"
  have t: "takeReady (tnRn ?n) = Some (runReady3, runRn (runLeader runPr2 [] runLog5) ?ss (runHs 1 1 2) [runDone])"
    by (simp add: takeReady_def run_ready3 run_accept3)
  have st: "lStorage runLog5 = lStorage runLog4" by (simp add: runLog5_def)
  have p: "persist runReady3 (?n\<lparr>tnRn := runRn (runLeader runPr2 [] runLog5) ?ss (runHs 1 1 2) [runDone]\<rparr>) =
      Some (?n\<lparr>tnRn := runRn (runLeader runPr2 [] runLog6) ?ss (runHs 1 1 2) [runDone], tnTerm := 1, tnCommit := 2\<rparr>)"
    by (simp add: persist_def writeStorage_def runReady3_def IsEmptyHardState_def isHardStateEqual_def emptyState_def runHs_def
      getters zero_defs MS_SetHardState_def st runLog6_def runRn_def)
  have a: "Advance (runRn (runLeader runPr2 [] runLog6) ?ss (runHs 1 1 2) [runDone]) =
      Some (runRn (runLeader runPr2 [] runLog7) ?ss (runHs 1 1 2) [])"
    by (simp add: Advance_def run_done runRn_def)
  show ?thesis
    using t p a
    by (simp add: harvestRound_def runTwin_def recordClaim_def runReady3_def sendAll_def setNode_def IsEmptySnap_def
        getters runNode_def Let_def twin_apply_def runEnt_def zero_defs runEnd_def)
qed

section \<open>The whole run\<close>

definition runSpec :: sched where
  "runSpec = \<lparr>scN = 1, scCmds = 0, scFloor = 1, scOps = [OpCampaign 1]\<rparr>"

lemma run_more:
  "HasReady (runRn (runCandidate\<lparr>rMsgsAfterAppend := [runVote]\<rparr>) \<lparr>ssLead = 0, ssRaftState = StateFollower\<rparr> (runHs 0 0 1) []) = Some True"
  "HasReady (runRn (runLeader runPr1 [runAck] runLog1) \<lparr>ssLead = 0, ssRaftState = StateCandidate\<rparr> (runHs 1 1 1) []) = Some True"
  "HasReady (runRn (runLeader runPr2 [] runLog4) \<lparr>ssLead = 1, ssRaftState = StateLeader\<rparr> (runHs 1 1 1) []) = Some True"
  "HasReady (runRn (runLeader runPr2 [] runLog7) \<lparr>ssLead = 1, ssRaftState = StateLeader\<rparr> (runHs 1 1 2) []) = Some False"
proof -
  show "HasReady (runRn (runCandidate\<lparr>rMsgsAfterAppend := [runVote]\<rparr>) \<lparr>ssLead = 0, ssRaftState = StateFollower\<rparr> (runHs 0 0 1) []) = Some True"
    by (simp add: HasReady_def Let_def SoftState_equal_def softState_def runCandidate_def)
  show "HasReady (runRn (runLeader runPr1 [runAck] runLog1) \<lparr>ssLead = 0, ssRaftState = StateCandidate\<rparr> (runHs 1 1 1) []) = Some True"
    by (simp add: HasReady_def Let_def SoftState_equal_def softState_def)
  show "HasReady (runRn (runLeader runPr2 [] runLog4) \<lparr>ssLead = 1, ssRaftState = StateLeader\<rparr> (runHs 1 1 1) []) = Some True"
    by (simp add: HasReady_def Let_def run_ready_defs IsEmptyHardState_def emptyState_def)
  show "HasReady (runRn (runLeader runPr2 [] runLog7) \<lparr>ssLead = 1, ssRaftState = StateLeader\<rparr> (runHs 1 1 2) []) = Some False"
    by (simp add: HasReady_def Let_def run_ready_defs IsEmptyHardState_def emptyState_def runLog7_def hasNextUnstableEnts_def
      hasNextCommittedEnts_def applyUnstableEntries_def)
qed

lemma run_harvest:
  "harvest 0 (runTwin (runNode (runRn (runCandidate\<lparr>rMsgsAfterAppend := [runVote]\<rparr>)
     \<lparr>ssLead = 0, ssRaftState = StateFollower\<rparr> (runHs 0 0 1) []))) = Some (3, runEnd)"
proof -
  have n: "tnRn (twNodes (runTwin nd) ! 0) = tnRn nd" "tnRn (twNodes ((runTwin nd)\<lparr>twClaims := k, twLeaderOf := m\<rparr>) ! 0) = tnRn nd"
    "tnRn (twNodes runEnd ! 0) = runRn (runLeader runPr2 [] runLog7) \<lparr>ssLead = 1, ssRaftState = StateLeader\<rparr> (runHs 1 1 2) []"
    for nd k m
    by (simp_all add: runTwin_def runEnd_def)
  have "harvestLoop (Suc (Suc (Suc (Suc k)))) 0 (runTwin (runNode (runRn (runCandidate\<lparr>rMsgsAfterAppend := [runVote]\<rparr>)
     \<lparr>ssLead = 0, ssRaftState = StateFollower\<rparr> (runHs 0 0 1) []))) = Some (3, runEnd)" for k
    by (simp add: n run_more run_round1 run_round2 run_round3 del: One_nat_def)
  from this [of 60] show ?thesis by (simp add: harvest_def)
qed

lemma run_spec: "schedRun (\<lambda>_. []) runSpec = Some runEnd"
proof -
  have "twin_step (OpCampaign 1) (runTwin (runNode (runRn runFollower \<lparr>ssLead = 0, ssRaftState = StateFollower\<rparr> (runHs 0 0 1) []))) = Some runEnd"
    using run_harvest
    by (simp add: twin_step_def onNode_def runTwin_def Campaign_def stepNode_def run_campaign setNode_def runNode_def runRn_def)
  then show ?thesis by (simp add: schedRun_def runSpec_def run_start del: One_nat_def)
qed

text \<open>Its verdict: no violation, one claim, and an exercise floor that wants a command committed.\<close>

lemma run_verdict:
  "runSched (\<lambda>_. []) runSpec = Some \<lparr>vdViol = 0, vdClaims = 1, vdCommitted = 0, vdComplete = True, vdFloor = False\<rparr>"
proof -
  have "complete runEnd" "twViolations runEnd = []" "twClaims runEnd = 1" "twCommitted runEnd = 0" "twPending runEnd = []"
    by (simp_all add: runEnd_def runTwin_def complete_def)
  then show ?thesis by (simp add: runSched_def run_spec)
qed

text \<open>The choice-driven twin of one node and no command ends with the campaign.\<close>

lemma run_choice: "choiceRun 1 0 400 (\<lambda>_. []) [] = Some (runEnd, True, False, 0)"
proof -
  have "newTwin 1 0 (\<lambda>_. []) \<bind> (\<lambda>t. twin_step (OpCampaign 1) t) = Some runEnd"
    using run_spec by (auto simp: schedRun_def runSpec_def elim!: bindE split: if_split_asm)
  moreover have "complete runEnd" "twPending runEnd = []" "liveIdx runEnd = []" "\<not> twHalt runEnd" "twCommitted runEnd = 0"
    by (simp_all add: runEnd_def runTwin_def complete_def liveIdx_def)
  moreover have "choiceLoop (Suc left) 0 [] runEnd = Some (0, runEnd)" for left
    using calculation by simp
  from this [of 399] have "choiceLoop 400 0 [] runEnd = Some (0, runEnd)" by simp
  ultimately show ?thesis by (auto simp: choiceRun_def elim!: bindE)
qed

end
