(* ===== verification/TwinSafety.thy ===== *)
theory TwinSafety
  imports TwinRun
begin

text \<open>
  The harness's check of election safety never fails: whatever the schedule, the run is one of the
  cluster of \<open>ElectionSafety\<close>, and a leader that the harness records has the votes of a quorum.
\<close>

section \<open>What a node queues until its log is durable\<close>

definition after_ok :: "raft \<Rightarrow> bool" where
  "after_ok r \<longleftrightarrow> list_all (\<lambda>x. Message_GetType x \<in> {MsgAppResp, MsgVoteResp, MsgPreVoteResp}) (rMsgsAfterAppend r)"

lemma after_ok_send:
  assumes "send x r = Some r'" and "after_ok r"
  shows "after_ok r'"
  using assms(1) by (rule send_Some) (use assms(2) in \<open>auto simp: after_ok_def split: if_split_asm\<close>)

lemma after_ok_framed: "framed r r' \<Longrightarrow> after_ok r \<Longrightarrow> after_ok r'"
  by (auto simp: framed_def after_ok_def sentAppResp_def list_all_iff)

lemma after_ok_same: "rMsgsAfterAppend r' = rMsgsAfterAppend r \<Longrightarrow> after_ok r \<Longrightarrow> after_ok r'"
  by (simp add: after_ok_def)

lemma elect_step_after_ok:
  assumes "elect_step m r r'" and "after_ok r"
  shows "after_ok r'"
  using assms(1)
proof cases
  case frame
  then show ?thesis using assms(2) by (rule after_ok_framed)
next
  case (follower t lead)
  then show ?thesis using becomeFollower_Some(4) after_ok_same assms(2) by blast
next
  case pre_candidate
  show ?thesis
    unfolding becomePreCandidate_Some(1) [OF pre_candidate] using assms(2) by (simp add: after_ok_def)
next
  case candidate
  then show ?thesis using becomeCandidate_Some(4) after_ok_same assms(2) by blast
next
  case leader
  from leader(1) obtain r1 where "rMsgsAfterAppend r1 = rMsgsAfterAppend r" "framed r1 r'"
    by (rule becomeLeader_view)
  then show ?thesis using after_ok_same after_ok_framed assms(2) by blast
next
  case (no_grant x)
  then show ?thesis using after_ok_send assms(2) by blast
next
  case (self_vote x)
  then show ?thesis using after_ok_send assms(2) by blast
next
  case (cast_vote x r1)
  have "after_ok r1" using cast_vote(1) assms(2) by (rule after_ok_send)
  then show ?thesis unfolding cast_vote by (simp add: after_ok_def)
next
  case tally
  then show ?thesis using assms(2) by (simp add: after_ok_def)
next
  case (membership l trk b)
  then show ?thesis using assms(2) by (simp add: after_ok_def)
qed

lemma elect_run_after_ok: "elect_run m r r' \<Longrightarrow> after_ok r \<Longrightarrow> after_ok r'"
  by (induction rule: rtranclp_induct) (auto intro: elect_step_after_ok)

section \<open>Moves of one node\<close>

definition moved :: "JointConfig \<Rightarrow> uint64 \<Rightarrow> cluster \<Rightarrow> cluster \<Rightarrow> bool" where
  "moved c i s s' \<longleftrightarrow> cluster_inv c s' \<and> clNet s \<subseteq> clNet s' \<and> (\<forall>j. j \<noteq> i \<longrightarrow> clNodes s' j = clNodes s j)"

lemma moved_refl: "cluster_inv c s \<Longrightarrow> moved c i s s"
  by (simp add: moved_def)

lemma moved_trans: "moved c i s s1 \<Longrightarrow> moved c i s1 s2 \<Longrightarrow> moved c i s s2"
  by (auto simp: moved_def)

lemma clNodes_clSet [simp]: "clNodes (clSet i r s) i = r"
  by (simp add: clSet_def)

lemma moved_step:
  "cluster_step c s (clSet i r s) \<Longrightarrow> cluster_inv c s \<Longrightarrow> JointConfig_IDs c \<noteq> {} \<Longrightarrow> moved c i s (clSet i r s)"
  using cluster_inv_step [of c s "clSet i r s"] by (auto simp: moved_def clSet_def)

lemma cluster_invD:
  assumes "cluster_inv c s" and "i \<noteq> 0" and "JointConfig_IDs c \<noteq> {}"
  shows "role_ok (clNodes s i)" "cfgVoters (trkConfig (rTrk (clNodes s i))) = c" "has_voters (clNodes s i)"
    "rId (clNodes s i) = i" "set (rMsgs (clNodes s i)) \<union> set (rMsgsAfterAppend (clNodes s i)) \<subseteq> clNet s"
  using assms by (auto simp: cluster_inv_def node_inv_def has_voters_def)

text \<open>The messages that a node of the cluster may be given.\<close>

definition tame :: "Message \<Rightarrow> bool" where
  "tame m \<longleftrightarrow> msg_sane m \<and> Message_GetType m \<noteq> MsgSnap"

definition given :: "uint64 \<Rightarrow> cluster \<Rightarrow> Message \<Rightarrow> bool" where
  "given i s m \<longleftrightarrow> tame m \<and> (grant m \<longrightarrow> m \<in> clNet s \<and> Message_GetTo m = i)"

lemma given_moved: "given i s m \<Longrightarrow> moved c j s s' \<Longrightarrow> given i s' m"
  by (auto simp: given_def moved_def)

lemma moved_handle:
  assumes "cluster_inv c s" and ne: "JointConfig_IDs c \<noteq> {}" and "i \<noteq> 0"
    and run: "Step (Some m) (clNodes s i) = Some (e, r)" and g: "given i s m" and ok: "after_ok (clNodes s i)"
  shows "moved c i s (clSet i r s)" and "after_ok r"
proof -
  note v = cluster_invD [OF assms(1,3) ne]
  have el: "elect_run m (clNodes s i) r"
    using Step_run [OF run v(1,3)] g by (simp add: given_def tame_def)
  then show "after_ok r" using ok by (rule elect_run_after_ok)
  have "cfgVoters (trkConfig (rTrk r)) = c"
    using elect_run_config [OF el] v(2) g by (simp add: given_def tame_def)
  then have "cluster_step c s (clSet i r s)"
    using assms(3) run g by (intro cluster_step.handle) (auto simp: given_def tame_def)
  then show "moved c i s (clSet i r s)" using assms(1) ne by (rule moved_step)
qed

lemma moved_stepAll:
  assumes "stepAll ms (clNodes s i) = Some r" and "cluster_inv c s" and "JointConfig_IDs c \<noteq> {}" and "i \<noteq> 0"
    and "list_all (given i s) ms" and "after_ok (clNodes s i)"
  shows "\<exists>s'. moved c i s s' \<and> clNodes s' i = r \<and> after_ok r"
  using assms
proof (induction ms arbitrary: s)
  case Nil
  then show ?case using moved_refl [of c s i] by (intro exI [of _ s]) simp
next
  case (Cons m ms)
  then obtain e r1 where r1: "Step (Some m) (clNodes s i) = Some (e, r1)" "stepAll ms r1 = Some r"
    by (auto elim!: bindE)
  let ?s = "clSet i r1 s"
  have h: "moved c i s ?s" "after_ok r1"
    using moved_handle [OF Cons.prems(2,3,4) r1(1)] Cons.prems by auto
  have "list_all (given i ?s) ms"
    using Cons.prems(5) given_moved [OF _ h(1)] by (auto simp: list_all_iff)
  then obtain s' where "moved c i ?s s'" "clNodes s' i = r" "after_ok r"
    using Cons.IH [of ?s] r1(2) h Cons.prems(3,4) by (auto simp: moved_def)
  with h(1) show ?case using moved_trans by blast
qed

section \<open>The books of the harness\<close>

abbreviation nid :: "nat \<Rightarrow> uint64" where
  "nid i \<equiv> of_nat (Suc i)"

lemma unat_nid: "i < 2 ^ 64 - 1 \<Longrightarrow> unat (nid i) = Suc i"
  by (rule unat_of_nat64) simp

lemma nid_inj: "i < 2 ^ 64 - 1 \<Longrightarrow> j < 2 ^ 64 - 1 \<Longrightarrow> nid i = nid j \<longleftrightarrow> i = j"
  by (metis unat_nid nat.inject)

lemma nid_nonzero: "i < 2 ^ 64 - 1 \<Longrightarrow> nid i \<noteq> 0"
  by (metis unat_nid unat_0 nat.distinct(1))

definition node_rel :: "cluster \<Rightarrow> nat \<Rightarrow> twinNode \<Rightarrow> bool" where
  "node_rel s i nd \<longleftrightarrow> tnId nd = nid i \<and> clNodes s (nid i) = nRaft (tnRn nd) \<and>
     \<not> nAsyncStorageWrites (tnRn nd) \<and> tnTerm nd = HardState_GetTerm (Some (nPrevHardSt (tnRn nd))) \<and>
     after_ok (nRaft (tnRn nd))"

definition no_S1 :: "twin \<Rightarrow> bool" where
  "no_S1 t \<longleftrightarrow> (\<forall>tm a b. S1 tm a b \<notin> set (twViolations t))"

definition book_rel :: "JointConfig \<Rightarrow> cluster \<Rightarrow> twin \<Rightarrow> bool" where
  "book_rel c s t \<longleftrightarrow> set (twNet t) \<subseteq> clNet s \<and> no_S1 t \<and>
     (\<forall>tm l. twLeaderOf t tm = Some l \<longrightarrow> joint_majority c (supporters s l tm))"

definition twin_rel :: "JointConfig \<Rightarrow> cluster \<Rightarrow> twin \<Rightarrow> bool" where
  "twin_rel c s t \<longleftrightarrow> cluster_inv c s \<and> book_rel c s t \<and> length (twNodes t) < 2 ^ 64 - 1 \<and>
     (\<forall>i < length (twNodes t). node_rel s i (twNodes t ! i))"

lemma book_rel_moved:
  assumes "book_rel c s t" and "moved c i s s'"
  shows "book_rel c s' t"
proof -
  have "supporters s l tm \<subseteq> supporters s' l tm" for l tm
    using assms(2) by (intro supporters_mono) (simp add: moved_def)
  then have "joint_majority c (supporters s l tm) \<Longrightarrow> joint_majority c (supporters s' l tm)" for l tm
    by (metis jnt.quorum_mono)
  with assms show ?thesis by (auto simp: book_rel_def moved_def)
qed

lemma twin_rel_update:
  assumes "twin_rel c s t" and "i < length (twNodes t)" and "moved c (nid i) s s'" and "node_rel s' i nd"
    and "book_rel c s' t'" and "twNodes t' = (twNodes t)[i := nd]"
  shows "twin_rel c s' t'"
  unfolding twin_rel_def
proof (intro conjI allI impI)
  show "cluster_inv c s'" "book_rel c s' t'" using assms(3,5) by (simp_all add: moved_def)
  show "length (twNodes t') < 2 ^ 64 - 1" using assms(1,6) by (simp add: twin_rel_def)
  fix j assume j: "j < length (twNodes t')"
  show "node_rel s' j (twNodes t' ! j)"
  proof (cases "j = i")
    case True
    with assms(2,4,6) show ?thesis by simp
  next
    case False
    have "nid j \<noteq> nid i" using nid_inj [of j i] False j assms(1,2,6) by (simp add: twin_rel_def)
    with assms(1,3,6) False j show ?thesis by (simp add: twin_rel_def node_rel_def moved_def)
  qed
qed

lemma leader_votes:
  "cluster_inv c s \<Longrightarrow> i \<noteq> 0 \<Longrightarrow> rState (clNodes s i) = StateLeader \<Longrightarrow>
     joint_majority c (supporters s i (rTerm (clNodes s i)))"
  by (simp add: cluster_inv_def node_inv_def)

lemma leader_term_nonzero:
  assumes "cluster_inv c s" and "i \<noteq> 0" and "JointConfig_IDs c \<noteq> {}" and "rState (clNodes s i) = StateLeader"
  shows "rTerm (clNodes s i) \<noteq> 0"
proof -
  have "joint_majority c (supporters s i (rTerm (clNodes s i)))" by (rule leader_votes [OF assms(1,2,4)])
  then obtain n where "n \<in> supporters s i (rTerm (clNodes s i))"
    using jnt.quorum_meet [OF assms(3), of "supporters s i (rTerm (clNodes s i))"] by blast
  then obtain x where x: "x \<in> clNet s" "ballot x" "Message_GetTerm x = rTerm (clNodes s i)"
    by (auto simp: supporters_def)
  have "net_inv s" using assms(1) by (simp add: cluster_inv_def)
  with x show ?thesis unfolding net_inv_def by metis
qed

text \<open>Two quorums of votes for one term are for the same candidate.\<close>

lemma claims_agree:
  assumes "cluster_inv c s" and "JointConfig_IDs c \<noteq> {}"
    and "joint_majority c (supporters s i tm)" and "joint_majority c (supporters s j tm)"
  shows "i = j"
proof -
  obtain n where "n \<in> supporters s i tm" "n \<in> supporters s j tm"
    using jnt.quorum_meet [OF assms(2-4)] by blast
  then show ?thesis
    using assms(1) unfolding cluster_inv_def net_inv_def supporters_def by fastforce
qed

section \<open>A round of the harvest\<close>

lemma persist_Some:
  assumes "persist rd nd = Some nd'"
  obtains ms where "tnRn nd' = (tnRn nd)\<lparr>nRaft := (nRaft (tnRn nd))\<lparr>rLog := (rLog (nRaft (tnRn nd)))\<lparr>lStorage := ms\<rparr>\<rparr>\<rparr>"
    and "tnId nd' = tnId nd"
    and "tnTerm nd' = (if IsEmptyHardState (rdHardState rd) then tnTerm nd else HardState_GetTerm (rdHardState rd))"
proof -
  have w: "\<exists>ms. nd2 = nd1\<lparr>tnRn := (tnRn nd1)\<lparr>nRaft := (nRaft (tnRn nd1))\<lparr>rLog := (rLog (nRaft (tnRn nd1)))\<lparr>lStorage := ms\<rparr>\<rparr>\<rparr>\<rparr>"
    if "writeStorage f nd1 = Some nd2" for f nd1 nd2
    using that by (auto simp: writeStorage_def elim!: bindE)
  have s: "\<exists>ms. tnRn x = (tnRn x)\<lparr>nRaft := (nRaft (tnRn x))\<lparr>rLog := (rLog (nRaft (tnRn x)))\<lparr>lStorage := ms\<rparr>\<rparr>\<rparr>" for x
    by (rule exI [of _ "lStorage (rLog (nRaft (tnRn x)))"]) simp
  obtain nd1 where 1: "(if \<not> IsEmptyHardState (rdHardState rd) then do {
       nd \<leftarrow> writeStorage (\<lambda>st. Some (MS_SetHardState (rdHardState rd) st)) nd;
       Some (nd\<lparr>tnTerm := HardState_GetTerm (rdHardState rd), tnCommit := HardState_GetCommit (rdHardState rd)\<rparr>)
     } else Some nd) = Some nd1"
    and 2: "(if length (rdEntries rd) > 0 then writeStorage (MS_Append (rdEntries rd)) nd1 else Some nd1) = Some nd'"
    using assms by (auto simp: persist_def elim!: bindE)
  obtain ms1 where a: "tnRn nd1 = (tnRn nd)\<lparr>nRaft := (nRaft (tnRn nd))\<lparr>rLog := (rLog (nRaft (tnRn nd)))\<lparr>lStorage := ms1\<rparr>\<rparr>\<rparr>"
    "tnId nd1 = tnId nd"
    "tnTerm nd1 = (if IsEmptyHardState (rdHardState rd) then tnTerm nd else HardState_GetTerm (rdHardState rd))"
    using 1 s [of nd] by (auto elim!: bindE dest!: w split: if_split_asm)
  obtain ms2 where b: "tnRn nd' = (tnRn nd1)\<lparr>nRaft := (nRaft (tnRn nd1))\<lparr>rLog := (rLog (nRaft (tnRn nd1)))\<lparr>lStorage := ms2\<rparr>\<rparr>\<rparr>"
    "tnId nd' = tnId nd1" "tnTerm nd' = tnTerm nd1"
    using 2 s [of nd1] by (auto dest!: w split: if_split_asm)
  from a b show thesis by (intro that [of ms2]) simp_all
qed

text \<open>What applying leaves alone.\<close>

definition same_books :: "twinNode \<times> twin \<Rightarrow> twinNode \<times> twin \<Rightarrow> bool" where
  "same_books x y \<longleftrightarrow> tnId (fst y) = tnId (fst x) \<and> tnRn (fst y) = tnRn (fst x) \<and> tnTerm (fst y) = tnTerm (fst x) \<and>
     twNodes (snd y) = twNodes (snd x) \<and> twNet (snd y) = twNet (snd x) \<and> twLeaderOf (snd y) = twLeaderOf (snd x) \<and>
     (no_S1 (snd x) \<longrightarrow> no_S1 (snd y))"

lemma twin_apply_books: "same_books x (twin_apply e x)"
  by (cases x) (auto simp: twin_apply_def applyData_def viol_def same_books_def no_S1_def Let_def split: option.split)

lemma fold_apply_books: "same_books x (fold twin_apply es x)"
proof (induction es arbitrary: x)
  case Nil
  then show ?case by (simp add: same_books_def)
next
  case (Cons e es)
  have "same_books x (twin_apply e x)" "same_books (twin_apply e x) (fold twin_apply (e # es) x)"
    using twin_apply_books Cons by simp_all
  then show ?case by (simp add: same_books_def)
qed

lemma recordClaim_books:
  assumes "recordClaim rd nd t = (nd', t')" and "book_rel c s t" and "cluster_inv c s" and "JointConfig_IDs c \<noteq> {}"
    and "\<And>ss. rdSoftState rd = Some ss \<Longrightarrow> ssRaftState ss = StateLeader \<Longrightarrow> joint_majority c (supporters s (tnId nd) (tnTerm nd))"
  shows "book_rel c s t'" "twNodes t' = twNodes t" "twNet t' = twNet t" "tnId nd' = tnId nd" "tnRn nd' = tnRn nd"
    "tnTerm nd' = tnTerm nd"
proof -
  have same: "prev = tnId nd" if "twLeaderOf t (tnTerm nd) = Some prev" "joint_majority c (supporters s (tnId nd) (tnTerm nd))" for prev
    using claims_agree [OF assms(3,4) _ that(2)] that(1) assms(2) by (auto simp: book_rel_def)
  show "book_rel c s t'"
    using assms(1,2,5) same
    by (auto simp: recordClaim_def viol_def Let_def book_rel_def no_S1_def split: option.split_asm if_split_asm)
  show "twNodes t' = twNodes t" "twNet t' = twNet t" "tnId nd' = tnId nd" "tnRn nd' = tnRn nd" "tnTerm nd' = tnTerm nd"
    using assms(1) by (auto simp: recordClaim_def viol_def Let_def split: option.split_asm if_split_asm)
qed

text \<open>Taking a batch and making it durable.\<close>

lemma take_persist:
  assumes rel: "twin_rel c s t" and ne: "JointConfig_IDs c \<noteq> {}" and i: "i < length (twNodes t)"
    and take: "takeReady (tnRn (twNodes t ! i)) = Some (rd, rn)"
    and per: "persist rd ((twNodes t ! i)\<lparr>tnRn := rn\<rparr>) = Some nd"
  obtains s' where "moved c (nid i) s s'" and "node_rel s' i nd" and "set (rdMessages rd) \<subseteq> clNet s'"
    and "\<And>ss. rdSoftState rd = Some ss \<Longrightarrow> ssRaftState ss = StateLeader \<Longrightarrow>
      joint_majority c (supporters s' (tnId nd) (tnTerm nd))"
    and "list_all (given (nid i) s') (nStepsOnAdvance (tnRn nd))"
proof -
  let ?r = "nRaft (tnRn (twNodes t ! i))"
  have len: "i < 2 ^ 64 - 1" and inv: "cluster_inv c s" and nr: "node_rel s i (twNodes t ! i)"
    using rel i by (auto simp: twin_rel_def)
  note nz = nid_nonzero [OF len] and v = cluster_invD [OF inv nid_nonzero [OF len] ne]
  have r: "clNodes s (nid i) = ?r" "\<not> nAsyncStorageWrites (tnRn (twNodes t ! i))" "tnId (twNodes t ! i) = nid i"
    "tnTerm (twNodes t ! i) = HardState_GetTerm (Some (nPrevHardSt (tnRn (twNodes t ! i))))" "after_ok ?r"
    using nr by (auto simp: node_rel_def)
  note rd = readyWithoutAccept_Some [OF takeReady_Some(1) [OF take]] and acc = takeReady_Some(2) [OF take]
  obtain l ack where rn: "nRaft rn = ?r\<lparr>rReadStates := (if rdReadStates rd = [] then rReadStates ?r else []),
      rMsgs := [], rMsgsAfterAppend := [], rLog := l\<rparr>" "\<not> nAsyncStorageWrites rn"
    "nPrevHardSt rn = (case rdHardState rd of None \<Rightarrow> nPrevHardSt (tnRn (twNodes t ! i))
      | Some hs \<Rightarrow> if IsEmptyHardState (Some hs) then nPrevHardSt (tnRn (twNodes t ! i)) else hs)"
    "if needStorageAppendRespMsg ?r rd then \<exists>m. newStorageAppendRespMsg ?r rd = Some m \<and> ack = [m] else ack = []"
    "nStepsOnAdvance rn = filter (\<lambda>m. Message_GetTo m = rId ?r) (rMsgsAfterAppend ?r) @ ack @
          (if needStorageApplyRespMsg rd then [newStorageApplyRespMsg ?r (rdCommittedEntries rd)] else [])"
    using acc by (rule acceptReady_Some) (use r(2) in auto)
  obtain ms where nd: "tnRn nd = rn\<lparr>nRaft := (nRaft rn)\<lparr>rLog := (rLog (nRaft rn))\<lparr>lStorage := ms\<rparr>\<rparr>\<rparr>"
    "tnId nd = nid i"
    "tnTerm nd = (if IsEmptyHardState (rdHardState rd) then tnTerm (twNodes t ! i) else HardState_GetTerm (rdHardState rd))"
    using per by (rule persist_Some) (use r(3) in simp)
  let ?s1 = "clSet (nid i) (nRaft rn) s" and ?s2 = "clSet (nid i) (nRaft (tnRn nd)) (clSet (nid i) (nRaft rn) s)"
  have 1: "moved c (nid i) s ?s1"
    by (rule moved_step [OF cluster_step.batch [OF nz r(1) [symmetric] acc] inv ne])
  have 2: "moved c (nid i) ?s1 ?s2"
    by (rule moved_step [OF cluster_step.storage [where ms = ms, OF nz] _ ne]) (use 1 nd(1) in \<open>simp_all add: moved_def\<close>)
  note mv = moved_trans [OF 1 2]
  have sub: "clNet s \<subseteq> clNet ?s2" using mv by (simp add: moved_def)
  note w = v(4,5) [unfolded r(1)]
  show thesis
  proof (rule that [OF mv])
    have "tnTerm nd = HardState_GetTerm (Some (nPrevHardSt rn))"
      using nd(3) rn(3) r(4) by (auto simp: IsEmptyHardState_def split: option.splits)
    then show "node_rel ?s2 i nd"
      using nd rn(1,2) by (simp add: node_rel_def after_ok_def)
    show "set (rdMessages rd) \<subseteq> clNet ?s2"
      using rd(7) [OF r(2)] w(2) sub by auto
    show "joint_majority c (supporters ?s2 (tnId nd) (tnTerm nd))"
      if ss: "rdSoftState rd = Some ss" "ssRaftState ss = StateLeader" for ss
    proof -
      have ld: "rState ?r = StateLeader" using ss rd(3) by (auto simp: softState_def split: if_split_asm)
      have "rTerm ?r \<noteq> 0" using leader_term_nonzero [OF inv nz ne] ld r(1) by simp
      then have "tnTerm nd = rTerm ?r"
        using nd(3) rd(4) r(4)
        by (auto simp: IsEmptyHardState_def isHardStateEqual_def hardState_def emptyState_def getters zero_defs
            split: if_split_asm)
      moreover have "joint_majority c (supporters s (nid i) (rTerm ?r))"
        by (rule leader_votes [OF inv nz, unfolded r(1), OF ld])
      moreover have "supporters s (nid i) (rTerm ?r) \<subseteq> supporters ?s2 (nid i) (rTerm ?r)"
        using sub by (rule supporters_mono)
      ultimately show ?thesis using nd(2) jnt.quorum_mono by metis
    qed
    have "given (nid i) ?s2 m" if "m \<in> set (rMsgsAfterAppend ?r)" "Message_GetTo m = rId ?r" for m
      using that w sub r(5) by (auto simp: given_def tame_def msg_sane_def after_ok_def list_all_iff)
    moreover have "list_all (given (nid i) ?s2) ack"
      using rn(4) by (auto simp: newStorageAppendRespMsg_def Let_def given_def tame_def msg_sane_def grant_def
          elim!: bindE split: if_split_asm)
    moreover have "given (nid i) ?s2 (newStorageApplyRespMsg ?r (rdCommittedEntries rd))"
      by (simp add: newStorageApplyRespMsg_def given_def tame_def msg_sane_def grant_def)
    ultimately show "list_all (given (nid i) ?s2) (nStepsOnAdvance (tnRn nd))"
      unfolding nd(1) using rn(5) by (auto simp: list_all_iff)
  qed
qed

lemma harvestRound_Some:
  assumes "harvestRound i t = Some (on, t')"
  obtains rd rn nd where "takeReady (tnRn (twNodes t ! i)) = Some (rd, rn)"
    and "persist rd ((twNodes t ! i)\<lparr>tnRn := rn\<rparr>) = Some nd"
    and "if \<not> IsEmptySnap (rdSnapshot rd) then (on, t') = (False, viol UnexpectedSnapshot (setNode i nd (t\<lparr>twHalt := True\<rparr>)))
      else (case recordClaim rd nd t of (nd, t) \<Rightarrow>
          case fold twin_apply (rdCommittedEntries rd) (nd, sendAll (rdMessages rd) t) of (nd, t) \<Rightarrow> do {
            rn \<leftarrow> Advance (tnRn nd);
            Some (True, setNode i (nd\<lparr>tnRn := rn\<rparr>) t)
          }) = Some (on, t')"
  using assms by (auto simp: harvestRound_def Let_def elim!: bindE split: if_split_asm prod.split_asm)

lemma harvestRound_rel:
  assumes rel: "twin_rel c s t" and ne: "JointConfig_IDs c \<noteq> {}" and i: "i < length (twNodes t)"
    and run: "harvestRound i t = Some (on, t')"
  shows "\<exists>s'. twin_rel c s' t'"
proof -
  obtain rd rn nd where take: "takeReady (tnRn (twNodes t ! i)) = Some (rd, rn)"
    and per: "persist rd ((twNodes t ! i)\<lparr>tnRn := rn\<rparr>) = Some nd"
    and rest: "if \<not> IsEmptySnap (rdSnapshot rd) then (on, t') = (False, viol UnexpectedSnapshot (setNode i nd (t\<lparr>twHalt := True\<rparr>)))
      else (case recordClaim rd nd t of (nd, t) \<Rightarrow>
          case fold twin_apply (rdCommittedEntries rd) (nd, sendAll (rdMessages rd) t) of (nd, t) \<Rightarrow> do {
            rn \<leftarrow> Advance (tnRn nd);
            Some (True, setNode i (nd\<lparr>tnRn := rn\<rparr>) t)
          }) = Some (on, t')"
    using run by (rule harvestRound_Some)
  from rel ne i take per obtain s1 where s1: "moved c (nid i) s s1" "node_rel s1 i nd" "set (rdMessages rd) \<subseteq> clNet s1"
    "\<And>ss. rdSoftState rd = Some ss \<Longrightarrow> ssRaftState ss = StateLeader \<Longrightarrow> joint_majority c (supporters s1 (tnId nd) (tnTerm nd))"
    "list_all (given (nid i) s1) (nStepsOnAdvance (tnRn nd))"
    by (rule take_persist) blast
  have bk: "book_rel c s1 t" using book_rel_moved [OF _ s1(1)] rel by (simp add: twin_rel_def)
  have inv1: "cluster_inv c s1" using s1(1) by (simp add: moved_def)
  show ?thesis
  proof (cases "IsEmptySnap (rdSnapshot rd)")
    case False
    with rest have t': "t' = viol UnexpectedSnapshot (setNode i nd (t\<lparr>twHalt := True\<rparr>))" by simp
    have "twin_rel c s1 t'"
      by (rule twin_rel_update [OF rel i s1(1,2)])
        (use bk in \<open>simp_all add: t' viol_def setNode_def book_rel_def no_S1_def\<close>)
    then show ?thesis by blast
  next
    case True
    obtain nd2 t2 where c: "recordClaim rd nd t = (nd2, t2)" by fastforce
    note b = recordClaim_books [OF c bk inv1 ne s1(4)]
    obtain nd3 t3 where a: "fold twin_apply (rdCommittedEntries rd) (nd2, sendAll (rdMessages rd) t2) = (nd3, t3)"
      by fastforce
    have sb: "same_books (nd2, sendAll (rdMessages rd) t2) (nd3, t3)"
      using fold_apply_books [of "(nd2, sendAll (rdMessages rd) t2)" "rdCommittedEntries rd"] a by simp
    have bk3: "book_rel c s1 t3"
      using sb b(1) s1(3) by (auto simp: same_books_def book_rel_def sendAll_def no_S1_def)
    have nd3: "tnRn nd3 = tnRn nd" "tnId nd3 = tnId nd" "tnTerm nd3 = tnTerm nd" and ns: "twNodes t3 = twNodes t"
      using sb b by (simp_all add: same_books_def sendAll_def)
    obtain rn2 where ad: "Advance (tnRn nd) = Some rn2" and t': "t' = setNode i (nd3\<lparr>tnRn := rn2\<rparr>) t3"
      using rest True c a nd3(1) by (auto elim!: bindE)
    obtain r where st: "stepAll (nStepsOnAdvance (tnRn nd)) (nRaft (tnRn nd)) = Some r"
      and rn2: "rn2 = (tnRn nd)\<lparr>nRaft := r, nStepsOnAdvance := []\<rparr>"
      using ad by (auto simp: Advance_def elim!: bindE split: if_split_asm)
    have len: "i < 2 ^ 64 - 1" using rel i by (simp add: twin_rel_def)
    have n1: "clNodes s1 (nid i) = nRaft (tnRn nd)" "after_ok (nRaft (tnRn nd))" using s1(2) by (simp_all add: node_rel_def)
    obtain s2 where s2: "moved c (nid i) s1 s2" "clNodes s2 (nid i) = r" "after_ok r"
      using moved_stepAll [OF _ inv1 ne nid_nonzero [OF len] s1(5)] st n1 by auto
    have "twin_rel c s2 t'"
    proof (rule twin_rel_update [OF rel i moved_trans [OF s1(1) s2(1)]])
      show "node_rel s2 i (nd3\<lparr>tnRn := rn2\<rparr>)"
        using s1(2) s2 nd3 by (simp add: node_rel_def rn2)
      show "book_rel c s2 t'"
        using book_rel_moved [OF bk3 s2(1)] by (simp add: t' setNode_def book_rel_def no_S1_def)
      show "twNodes t' = (twNodes t)[i := nd3\<lparr>tnRn := rn2\<rparr>]" by (simp add: t' setNode_def ns)
    qed
    then show ?thesis by blast
  qed
qed

lemma harvestRound_keeps:
  assumes "harvestRound i t = Some (on, t')"
  shows "length (twNodes t') = length (twNodes t) \<and> set (twNet t) \<subseteq> set (twNet t')"
proof -
  obtain rd rn nd where
    rest: "if \<not> IsEmptySnap (rdSnapshot rd) then (on, t') = (False, viol UnexpectedSnapshot (setNode i nd (t\<lparr>twHalt := True\<rparr>)))
      else (case recordClaim rd nd t of (nd, t) \<Rightarrow>
          case fold twin_apply (rdCommittedEntries rd) (nd, sendAll (rdMessages rd) t) of (nd, t) \<Rightarrow> do {
            rn \<leftarrow> Advance (tnRn nd);
            Some (True, setNode i (nd\<lparr>tnRn := rn\<rparr>) t)
          }) = Some (on, t')"
    using assms by (rule harvestRound_Some)
  obtain nd2 t2 where c: "recordClaim rd nd t = (nd2, t2)" by fastforce
  have b: "twNodes t2 = twNodes t" "twNet t2 = twNet t"
    using c by (auto simp: recordClaim_def viol_def Let_def split: option.split_asm if_split_asm)
  obtain nd3 t3 where a: "fold twin_apply (rdCommittedEntries rd) (nd2, sendAll (rdMessages rd) t2) = (nd3, t3)"
    by fastforce
  have "same_books (nd2, sendAll (rdMessages rd) t2) (nd3, t3)"
    using fold_apply_books [of "(nd2, sendAll (rdMessages rd) t2)" "rdCommittedEntries rd"] a by simp
  then have "twNodes t3 = twNodes t" "twNet t3 = twNet t @ rdMessages rd"
    using b by (simp_all add: same_books_def sendAll_def)
  with rest c a show ?thesis
    by (auto simp: viol_def setNode_def elim!: bindE split: if_split_asm)
qed

section \<open>Runs of the harness\<close>

definition keeps :: "twin \<Rightarrow> twin \<Rightarrow> bool" where
  "keeps t t' \<longleftrightarrow> length (twNodes t') = length (twNodes t) \<and> set (twNet t) \<subseteq> set (twNet t')"

lemma keeps_refl: "keeps t t"
  by (simp add: keeps_def)

lemma keeps_trans: "keeps t t1 \<Longrightarrow> keeps t1 t2 \<Longrightarrow> keeps t t2"
  by (auto simp: keeps_def)

lemma keeps_upd [simp]:
  "keeps t (t\<lparr>twHalt := b\<rparr>)" "keeps t (viol v t)" "keeps t (setNode i nd t)"
  "keeps t (t\<lparr>twLive := ls\<rparr>)" "keeps t (t\<lparr>twPending := ps, twDriven := ds\<rparr>)"
  by (simp_all add: keeps_def viol_def setNode_def)

lemma twin_rel_upd [simp]:
  "twin_rel c s (t\<lparr>twHalt := b\<rparr>) = twin_rel c s t" "twin_rel c s (t\<lparr>twLive := ls\<rparr>) = twin_rel c s t"
  "twin_rel c s (t\<lparr>twPending := ps, twDriven := ds\<rparr>) = twin_rel c s t"
  "twin_rel c s (viol NoQuiescence t) = twin_rel c s t" "twin_rel c s (viol DrainNoQuiescence t) = twin_rel c s t"
  by (simp_all add: twin_rel_def book_rel_def no_S1_def viol_def)

lemma harvestLoop_keeps: "harvestLoop left i t = Some (n, t') \<Longrightarrow> keeps t t'"
proof (induction left arbitrary: t n)
  case 0
  then show ?case
    by (auto elim!: bindE split: if_split_asm intro: keeps_refl keeps_trans [OF keeps_upd(1) keeps_upd(2)])
next
  case (Suc left)
  then obtain more where "HasReady (tnRn (twNodes t ! i)) = Some more" by (auto elim!: bindE)
  with Suc.prems consider "t' = t" | on t1 where "harvestRound i t = Some (on, t1)"
      "if on then \<exists>k. harvestLoop left i t1 = Some (k, t') else t' = t1"
    by (auto elim!: bindE split: if_split_asm)
  then show ?case
  proof cases
    case 2
    have "keeps t t1" using harvestRound_keeps [OF 2(1)] by (simp add: keeps_def)
    moreover have "keeps t1 t'" using 2(2) Suc.IH keeps_refl by (auto split: if_split_asm)
    ultimately show ?thesis by (rule keeps_trans)
  qed (simp add: keeps_refl)
qed

lemma harvestLoop_rel:
  assumes "harvestLoop left i t = Some (n, t')" and "twin_rel c s t" and "JointConfig_IDs c \<noteq> {}" and "i < length (twNodes t)"
  shows "\<exists>s'. twin_rel c s' t'"
  using assms
proof (induction left arbitrary: t n s)
  case 0
  then have "t' = t \<or> t' = viol NoQuiescence (t\<lparr>twHalt := True\<rparr>)"
    by (auto elim!: bindE split: if_split_asm)
  moreover have "\<exists>s'. twin_rel c s' t" using "0.prems"(2) by blast
  ultimately show ?case by auto
next
  case (Suc left)
  then obtain more where "HasReady (tnRn (twNodes t ! i)) = Some more" by (auto elim!: bindE)
  with Suc.prems(1) consider "t' = t" | on t1 where "harvestRound i t = Some (on, t1)"
      "if on then \<exists>k. harvestLoop left i t1 = Some (k, t') else t' = t1"
    by (auto elim!: bindE split: if_split_asm)
  then show ?case
  proof cases
    case 1
    with Suc.prems(2) show ?thesis by blast
  next
    case 2
    obtain s1 where s1: "twin_rel c s1 t1" using harvestRound_rel [OF Suc.prems(2-4) 2(1)] by blast
    have i: "i < length (twNodes t1)" using harvestRound_keeps [OF 2(1)] Suc.prems(4) by simp
    show ?thesis
    proof (cases on)
      case True
      with 2(2) obtain k where "harvestLoop left i t1 = Some (k, t')" by auto
      then show ?thesis using s1 Suc.prems(3) i by (rule Suc.IH)
    next
      case False
      with 2(2) s1 show ?thesis by auto
    qed
  qed
qed

text \<open>Input to one node.\<close>

lemma twin_rel_input:
  assumes rel: "twin_rel c s t" and i: "i < length (twNodes t)" and mv: "moved c (nid i) s s'"
    and "clNodes s' (nid i) = r" "after_ok r"
  shows "twin_rel c s' (setNode i ((twNodes t ! i)\<lparr>tnRn := (tnRn (twNodes t ! i))\<lparr>nRaft := r\<rparr>\<rparr>) t)"
proof (rule twin_rel_update [OF rel i mv])
  show "node_rel s' i ((twNodes t ! i)\<lparr>tnRn := (tnRn (twNodes t ! i))\<lparr>nRaft := r\<rparr>\<rparr>)"
    using rel i assms(4,5) by (simp add: twin_rel_def node_rel_def)
  show "book_rel c s' (setNode i ((twNodes t ! i)\<lparr>tnRn := (tnRn (twNodes t ! i))\<lparr>nRaft := r\<rparr>\<rparr>) t)"
    using book_rel_moved [OF _ mv, of t] rel by (simp add: twin_rel_def setNode_def book_rel_def no_S1_def)
qed (simp add: setNode_def)

lemma twin_relD:
  assumes "twin_rel c s t" and "i < length (twNodes t)"
  shows "i < 2 ^ 64 - 1" "cluster_inv c s" "clNodes s (nid i) = nRaft (tnRn (twNodes t ! i))"
    "after_ok (nRaft (tnRn (twNodes t ! i)))" "set (twNet t) \<subseteq> clNet s"
  using assms by (auto simp: twin_rel_def node_rel_def book_rel_def)

lemma stepNode_rel:
  assumes rel: "twin_rel c s t" and ne: "JointConfig_IDs c \<noteq> {}" and i: "i < length (twNodes t)"
    and run: "stepNode (Some m) (tnRn (twNodes t ! i)) = Some (e, rn)" and g: "given (nid i) s m"
  shows "\<exists>s'. twin_rel c s' (setNode i ((twNodes t ! i)\<lparr>tnRn := rn\<rparr>) t)"
proof -
  note d = twin_relD [OF rel i]
  obtain r where r: "Step (Some m) (nRaft (tnRn (twNodes t ! i))) = Some (e, r)" "rn = (tnRn (twNodes t ! i))\<lparr>nRaft := r\<rparr>"
    using run by (auto simp: stepNode_def elim!: bindE)
  note h = moved_handle [OF d(2) ne nid_nonzero [OF d(1)] _ g, unfolded d(3), OF r(1) d(4)]
  have "twin_rel c (clSet (nid i) r s)
      (setNode i ((twNodes t ! i)\<lparr>tnRn := (tnRn (twNodes t ! i))\<lparr>nRaft := r\<rparr>\<rparr>) t)"
    by (rule twin_rel_input [OF rel i h(1) clNodes_clSet h(2)])
  then show ?thesis unfolding r(2) by blast
qed

lemma Tick_rel:
  assumes rel: "twin_rel c s t" and ne: "JointConfig_IDs c \<noteq> {}" and i: "i < length (twNodes t)"
    and run: "Tick (tnRn (twNodes t ! i)) = Some rn"
  shows "\<exists>s'. twin_rel c s' (setNode i ((twNodes t ! i)\<lparr>tnRn := rn\<rparr>) t)"
proof -
  note d = twin_relD [OF rel i]
  note nz = nid_nonzero [OF d(1)]
  obtain r where r: "tick (nRaft (tnRn (twNodes t ! i))) = Some r" "rn = (tnRn (twNodes t ! i))\<lparr>nRaft := r\<rparr>"
    using run by (auto simp: Tick_def elim!: bindE)
  note v = cluster_invD [OF d(2) nz ne, unfolded d(3)]
  have ok: "after_ok r" using tick_run [OF r(1) v(1,3)] d(4) by (rule elect_run_after_ok)
  have "tick (clNodes s (nid i)) = Some r" unfolding d(3) by (rule r(1))
  then have mv: "moved c (nid i) s (clSet (nid i) r s)"
    by (intro moved_step [OF cluster_step.tick [OF nz] d(2) ne])
  have "twin_rel c (clSet (nid i) r s)
      (setNode i ((twNodes t ! i)\<lparr>tnRn := (tnRn (twNodes t ! i))\<lparr>nRaft := r\<rparr>\<rparr>) t)"
    by (rule twin_rel_input [OF rel i mv clNodes_clSet ok])
  then show ?thesis unfolding r(2) by blast
qed

lemma Campaign_Propose_given:
  "given i s (Msg (Message0\<lparr>mType := Some MsgHup\<rparr>) [])"
  "given i s (Msg (Message0\<lparr>mType := Some MsgProp, mFrom := x, mEntries := es\<rparr>) [])"
  by (simp_all add: given_def tame_def msg_sane_def grant_def)

text \<open>An input and the harvest after it.\<close>

lemma harvest_keeps: "harvest i (setNode i nd t) = Some (n, t') \<Longrightarrow> keeps t t'"
  unfolding harvest_def using harvestLoop_keeps keeps_trans [OF keeps_upd(3)] by blast

lemma harvest_rel:
  assumes "\<exists>s'. twin_rel c s' (setNode i nd t)" and "JointConfig_IDs c \<noteq> {}" and "i < length (twNodes t)"
    and "harvest i (setNode i nd t) = Some (n, t')"
  shows "\<exists>s'. twin_rel c s' t'"
proof -
  obtain s' where "twin_rel c s' (setNode i nd t)" using assms(1) by blast
  moreover have "i < length (twNodes (setNode i nd t))" using assms(3) by (simp add: setNode_def)
  ultimately show ?thesis using harvestLoop_rel assms(2,4) unfolding harvest_def by blast
qed

lemma onNode_Some:
  assumes "onNode k f t = Some t'"
  obtains i rn n where "i < length (twNodes t)" "f (tnRn (twNodes t ! i)) = Some rn"
    "harvest i (setNode i ((twNodes t ! i)\<lparr>tnRn := rn\<rparr>) t) = Some (n, t')"
proof -
  obtain rn n where "\<not> (k = 0 \<or> length (twNodes t) < k)" "f (tnRn (twNodes t ! (k - 1))) = Some rn"
    "harvest (k - 1) (setNode (k - 1) ((twNodes t ! (k - 1))\<lparr>tnRn := rn\<rparr>) t) = Some (n, t')"
    using assms by (auto simp: onNode_def Let_def elim!: bindE split: if_split_asm)
  then show thesis by (intro that [of "k - 1"]) auto
qed

lemma onNode_rel:
  assumes "onNode k f t = Some t'" and ne: "JointConfig_IDs c \<noteq> {}"
    and input: "\<And>i rn. i < length (twNodes t) \<Longrightarrow> f (tnRn (twNodes t ! i)) = Some rn \<Longrightarrow>
      \<exists>s'. twin_rel c s' (setNode i ((twNodes t ! i)\<lparr>tnRn := rn\<rparr>) t)"
  shows "\<exists>s'. twin_rel c s' t'"
  using assms(1)
proof (rule onNode_Some)
  fix i rn n
  assume a: "i < length (twNodes t)" "f (tnRn (twNodes t ! i)) = Some rn"
    and h: "harvest i (setNode i ((twNodes t ! i)\<lparr>tnRn := rn\<rparr>) t) = Some (n, t')"
  show ?thesis by (rule harvest_rel [OF input [OF a] ne a(1) h])
qed

lemma twinPropose_Some:
  assumes "twinPropose k t = Some t'"
  obtains "t' = t\<lparr>twHalt := True\<rparr>"
  | i cmd rest e rn n t1 where "i < length (twNodes t)" "Propose (Some cmd) (tnRn (twNodes t ! i)) = Some (e, rn)"
    "t1 = t \<or> t1 = t\<lparr>twPending := rest, twDriven := twDriven t @ [cmd]\<rparr>"
    "harvest i (setNode i ((twNodes t ! i)\<lparr>tnRn := rn\<rparr>) t1) = Some (n, t')"
proof (cases "twPending t")
  case Nil
  with assms have "t' = t\<lparr>twHalt := True\<rparr>" by (auto simp: twinPropose_def elim!: bindE split: if_split_asm)
  then show thesis by (rule that)
next
  case (Cons cmd rest)
  with assms obtain e rn n t1 where k: "\<not> (k = 0 \<or> length (twNodes t) < k)"
    and p: "Propose (Some cmd) (tnRn (twNodes t ! (k - 1))) = Some (e, rn)"
      "t1 = (if e \<noteq> None then t else t\<lparr>twPending := rest, twDriven := twDriven t @ [cmd]\<rparr>)"
      "harvest (k - 1) (setNode (k - 1) ((twNodes t ! (k - 1))\<lparr>tnRn := rn\<rparr>) t1) = Some (n, t')"
    by (auto simp: twinPropose_def Let_def elim!: bindE split: if_split_asm)
  have "k - 1 < length (twNodes t)" using k by auto
  then show thesis using p by (intro that(2) [where i = "k - 1" and cmd = cmd and rest = rest]) auto
qed

lemma twinPropose_rel:
  assumes "twinPropose k t = Some t'" and rel: "twin_rel c s t" and ne: "JointConfig_IDs c \<noteq> {}"
  shows "\<exists>s'. twin_rel c s' t'"
  using assms(1)
proof (cases rule: twinPropose_Some)
  case 1
  have "twin_rel c s t'" unfolding 1 using rel by simp
  then show ?thesis by blast
next
  case (2 i cmd rest e rn n t1)
  have t1: "twin_rel c s t1" "twNodes t1 = twNodes t" using 2(3) rel by auto
  have "\<exists>s'. twin_rel c s' (setNode i ((twNodes t1 ! i)\<lparr>tnRn := rn\<rparr>) t1)"
    by (rule stepNode_rel [OF t1(1) ne _ _ Campaign_Propose_given(2)]) (use 2(1,2) t1(2) in \<open>simp_all add: Propose_def\<close>)
  then show ?thesis
    by (rule harvest_rel [OF _ ne]) (use 2(1,4) t1(2) in simp_all)
qed

lemma deliverIdx_Some:
  assumes "deliverIdx j t = Some t'"
  obtains i e rn n where "i = unat (Message_GetTo (twNet t ! j) - 1)" "i < length (twNodes t)"
    "RawNode_Step (Some (twNet t ! j)) (tnRn (twNodes t ! i)) = Some (e, rn)"
    "harvest i (setNode i ((twNodes t ! i)\<lparr>tnRn := rn\<rparr>) (t\<lparr>twLive := (twLive t)[j := False]\<rparr>)) = Some (n, t')"
  using assms by (auto simp: deliverIdx_def Let_def elim!: bindE split: if_split_asm)

lemma RawNode_Step_Some:
  "RawNode_Step (Some m) rn = Some (e, rn') \<Longrightarrow> rn' = rn \<or> stepNode (Some m) rn = Some (e, rn')"
  by (auto simp: RawNode_Step_def Let_def elim!: bindE split: if_split_asm)

lemma deliverIdx_rel:
  assumes "deliverIdx j t = Some t'" and rel: "twin_rel c s t" and ne: "JointConfig_IDs c \<noteq> {}"
    and "j < length (twNet t)" and tm: "list_all tame (twNet t)"
  shows "\<exists>s'. twin_rel c s' t'"
  using assms(1)
proof (rule deliverIdx_Some)
  fix i e rn n
  let ?m = "twNet t ! j" and ?t = "t\<lparr>twLive := (twLive t)[j := False]\<rparr>"
  assume i: "i = unat (Message_GetTo ?m - 1)" "i < length (twNodes t)"
    and run: "RawNode_Step (Some ?m) (tnRn (twNodes t ! i)) = Some (e, rn)"
    and h: "harvest i (setNode i ((twNodes t ! i)\<lparr>tnRn := rn\<rparr>) ?t) = Some (n, t')"
  note d = twin_relD [OF rel i(2)]
  have "Message_GetTo ?m = nid i" unfolding i(1) by simp
  moreover have "?m \<in> clNet s" "tame ?m" using d(5) assms(4) tm by (auto simp: list_all_iff)
  ultimately have g: "given (nid i) s ?m" unfolding given_def by blast
  from run have "rn = tnRn (twNodes t ! i) \<or> stepNode (Some ?m) (tnRn (twNodes t ! i)) = Some (e, rn)"
    by (rule RawNode_Step_Some)
  then have "\<exists>s'. twin_rel c s' (setNode i ((twNodes ?t ! i)\<lparr>tnRn := rn\<rparr>) ?t)"
  proof
    assume "rn = tnRn (twNodes t ! i)"
    then have "setNode i ((twNodes ?t ! i)\<lparr>tnRn := rn\<rparr>) ?t = ?t" by (simp add: setNode_def)
    moreover have "twin_rel c s ?t" using rel by simp
    ultimately show ?thesis by metis
  next
    assume "stepNode (Some ?m) (tnRn (twNodes t ! i)) = Some (e, rn)"
    then show ?thesis using i(2) rel by (intro stepNode_rel [OF _ ne _ _ g]) simp_all
  qed
  then show ?thesis
    by (rule harvest_rel [OF _ ne]) (use i h in simp_all)
qed

lemma deliverIdx_keeps: "deliverIdx j t = Some t' \<Longrightarrow> keeps t t'"
  by (erule deliverIdx_Some) (blast intro: keeps_trans [OF keeps_upd(4)] harvest_keeps)

lemma find_upt: "find P xs = Some j \<Longrightarrow> set xs \<subseteq> {..< n} \<Longrightarrow> j < n"
  by (auto simp: find_Some_iff dest: nth_mem)

lemma picks_valid:
  "firstLive P t = Some j \<Longrightarrow> j < length (twNet t)" "lastLive t = Some j \<Longrightarrow> j < length (twNet t)"
  "pickFor to k t = Some j \<Longrightarrow> j < length (twNet t)"
proof -
  show "firstLive P t = Some j \<Longrightarrow> j < length (twNet t)" "lastLive t = Some j \<Longrightarrow> j < length (twNet t)"
    unfolding firstLive_def lastLive_def by (erule find_upt, force)+
  let ?js = "filter (\<lambda>j. twLive t ! j \<and> Message_GetTo (twNet t ! j) = to) [0..<length (twNet t)]"
  assume "pickFor to k t = Some j"
  then have "k < length ?js" "j = ?js ! k" by (auto simp: pickFor_def Let_def split: if_split_asm)
  then have "j \<in> set ?js" using nth_mem by blast
  then show "j < length (twNet t)" by simp
qed

lemma drainLoop_keeps: "drainLoop n pick t = Some t' \<Longrightarrow> keeps t t'"
proof (induction n arbitrary: t)
  case 0
  then show ?case by (auto intro: keeps_trans [OF keeps_upd(1) keeps_upd(2)])
next
  case (Suc n)
  then show ?case
    by (auto elim!: bindE split: option.split_asm dest!: deliverIdx_keeps intro: keeps_refl keeps_trans)
qed

lemma twin_step_keeps:
  assumes "twin_step o' t = Some t'"
  shows "keeps t t'"
proof -
  have on: "onNode k f t = Some t' \<Longrightarrow> keeps t t'" for k f
    by (erule onNode_Some) (rule harvest_keeps)
  have pr: "twinPropose k t = Some t' \<Longrightarrow> keeps t t'" for k
    by (erule twinPropose_Some) (auto dest!: harvest_keeps intro: keeps_trans [OF keeps_upd(5)])
  show ?thesis
    using assms on pr drainLoop_keeps deliverIdx_keeps keeps_refl
    by (cases o') (auto simp: twin_step_def split: if_split_asm option.split_asm)
qed

lemma tame_keeps: "list_all tame (twNet t') \<Longrightarrow> keeps t t' \<Longrightarrow> list_all tame (twNet t)"
  by (auto simp: keeps_def list_all_iff)

lemma drainLoop_rel:
  assumes "drainLoop n pick t = Some t'" and "twin_rel c s t" and ne: "JointConfig_IDs c \<noteq> {}"
    and "list_all tame (twNet t')" and pk: "\<And>t j. pick t = Some j \<Longrightarrow> j < length (twNet t)"
  shows "\<exists>s'. twin_rel c s' t'"
  using assms(1,2,4)
proof (induction n arbitrary: t s)
  case 0
  have "t' = viol DrainNoQuiescence (t\<lparr>twHalt := True\<rparr>)" using "0.prems"(1) by simp
  then have "twin_rel c s t'" using "0.prems"(2) by simp
  then show ?case by blast
next
  case (Suc n)
  show ?case
  proof (cases "pick t")
    case None
    with Suc.prems show ?thesis by auto
  next
    case (Some j)
    with Suc.prems(1) obtain t1 where d: "deliverIdx j t = Some t1" and l: "drainLoop n pick t1 = Some t'"
      by (auto elim!: bindE)
    have tm: "list_all tame (twNet t1)" using Suc.prems(3) drainLoop_keeps [OF l] by (rule tame_keeps)
    have "list_all tame (twNet t)" using tm deliverIdx_keeps [OF d] by (rule tame_keeps)
    then obtain s1 where "twin_rel c s1 t1"
      using deliverIdx_rel [OF d Suc.prems(2) ne pk [OF Some]] by blast
    with l show ?thesis using Suc.prems(3) by (rule Suc.IH)
  qed
qed

lemma twin_step_rel:
  assumes "twin_step o' t = Some t'" and rel: "twin_rel c s t" and ne: "JointConfig_IDs c \<noteq> {}"
    and tm: "list_all tame (twNet t')"
  shows "\<exists>s'. twin_rel c s' t'"
proof (cases "twHalt t")
  case True
  with assms(1,2) show ?thesis by (auto simp: twin_step_def)
next
  case False
  have tm0: "list_all tame (twNet t)" using tm twin_step_keeps [OF assms(1)] by (rule tame_keeps)
  note run = assms(1) [unfolded twin_step_def, simplified False if_False]
  show ?thesis
  proof (cases o')
    case (OpTick k)
    with run have "onNode k Tick t = Some t'" by simp
    then show ?thesis using ne Tick_rel [OF rel ne] by (rule onNode_rel)
  next
    case (OpCampaign k)
    with run have "onNode k (\<lambda>rn. do { (e, rn) \<leftarrow> Campaign rn; Some rn }) t = Some t'" by simp
    then show ?thesis using ne
      by (rule onNode_rel)
        (auto simp: Campaign_def elim!: bindE intro: stepNode_rel [OF rel ne _ _ Campaign_Propose_given(1)])
  next
    case (OpPropose k)
    with run rel ne show ?thesis using twinPropose_rel by simp
  next
    case (OpDeliver k m)
    show ?thesis
    proof (cases "pickFor (of_nat k) m t")
      case None
      with OpDeliver run have "t' = t\<lparr>twHalt := True\<rparr>" by simp
      then have "twin_rel c s t'" using rel by simp
      then show ?thesis by blast
    next
      case (Some j)
      with OpDeliver run have "deliverIdx j t = Some t'" by simp
      then show ?thesis using rel ne picks_valid(3) [OF Some] tm0 by (rule deliverIdx_rel)
    qed
  next
    case OpDrain
    with run have "drainLoop 10000 (firstLive (\<lambda>m. True)) t = Some t'" by simp
    then show ?thesis using rel ne tm picks_valid(1) by (rule drainLoop_rel)
  next
    case OpDrainRev
    with run have "drainLoop 10000 lastLive t = Some t'" by simp
    then show ?thesis using rel ne tm picks_valid(2) by (rule drainLoop_rel)
  next
    case (OpDrainSkip k)
    with run have "drainLoop 10000 (firstLive (\<lambda>m. Message_GetTo m \<noteq> of_nat k)) t = Some t'" by simp
    then show ?thesis using rel ne tm picks_valid(1) by (rule drainLoop_rel)
  qed
qed

lemma runOps_keeps: "runOps os t = Some t' \<Longrightarrow> keeps t t'"
proof (induction os arbitrary: t)
  case (Cons o' os)
  then obtain t1 where "twin_step o' t = Some t1" "t' = t1 \<or> runOps os t1 = Some t'"
    by (auto elim!: bindE split: if_split_asm)
  then show ?case using Cons.IH twin_step_keeps keeps_trans by blast
qed (simp add: keeps_refl)

lemma runOps_rel:
  assumes "runOps os t = Some t'" and "twin_rel c s t" and ne: "JointConfig_IDs c \<noteq> {}" and "list_all tame (twNet t')"
  shows "\<exists>s'. twin_rel c s' t'"
  using assms(1,2,4)
proof (induction os arbitrary: t s)
  case Nil
  then show ?case by auto
next
  case (Cons o' os)
  then obtain t1 where st: "twin_step o' t = Some t1" and r: "t' = t1 \<or> runOps os t1 = Some t'"
    by (auto elim!: bindE split: if_split_asm)
  have "keeps t1 t'" using r runOps_keeps keeps_refl by blast
  with Cons.prems(3) have "list_all tame (twNet t1)" by (rule tame_keeps)
  then obtain s1 where "twin_rel c s1 t1" using twin_step_rel [OF st Cons.prems(2) ne] by blast
  with r Cons.IH Cons.prems(3) show ?case by blast
qed

section \<open>The start\<close>

lemma twinConfig_valid:
  assumes "validate (twinConfig i st) = Inr c"
  shows "c = (twinConfig i st)\<lparr>cMaxUncommittedEntriesSize := noLimit, cMaxCommittedSizePerReady := 2 ^ 20, cMaxInflightBytes := noLimit\<rparr>"
  using assms by (auto simp: validate_def twinConfig_def Let_def split: if_split_asm)

lemma or_panic_Some_iff: "or_panic x = Some v \<longleftrightarrow> x = Some (Inr v)"
  by (auto simp: or_panic_def split: option.split sum.split)

lemma newRaft_twin:
  assumes "newRaft (twinConfig i st) d = Some r" and init: "MS_InitialState st = (hs, cs, st')" and hs: "IsEmptyHardState hs"
  obtains l lid trk where "newLogWithSize st (2 ^ 20) = Some l" "log_lastEntryID (l\<lparr>lStorage := st'\<rparr>) = Some lid"
    "Restore (emptyChanger 256 noLimit (idIndex lid)) cs = Some (Inr (trkConfig (rTrk r), trk))"
    "rId r = i" "rTerm r = 0" "rMsgs r = []" "rMsgsAfterAppend r = []"
proof -
  note run = assms(1)
  obtain c where c: "validate (twinConfig i st) = Inr c"
    using run unfolding newRaft_def by (rule bindE) (simp add: or_panic_Some_iff)
  have cf: "cStorage c = Some st" "cMaxCommittedSizePerReady c = 2 ^ 20" "cMaxInflightMsgs c = 256"
    "cMaxInflightBytes c = noLimit" "cID c = i" "cApplied c = 0"
    using twinConfig_valid [OF c] by (simp_all add: twinConfig_def)
  obtain l where l: "newLogWithSize st (2 ^ 20) = Some l"
    using run by (auto simp: newRaft_def or_panic_Some_iff c cf elim!: bindE)
  have st: "lStorage l = st" using l by (auto simp: newLogWithSize_def elim!: bindE)
  obtain lid cfg trk cs' r0 r1 where sw: "switchToConfig cfg trk r0 = Some (cs', r1)"
    and lid: "log_lastEntryID (l\<lparr>lStorage := st'\<rparr>) = Some lid"
    and re: "Restore \<lparr>chTracker = rTrk r0, chLastIndex = idIndex lid\<rparr> cs = Some (Inr (cfg, trk))"
    and r0: "rTrk r0 = MakeProgressTracker 256 noLimit" "rId r0 = i" "rTerm r0 = 0" "rMsgs r0 = []"
      "rMsgsAfterAppend r0 = []" "rState r0 = StateFollower"
    and bf: "becomeFollower (rTerm r1) None_id r1 = Some r"
    using run l st init hs
    by (auto simp: newRaft_def or_panic_Some_iff c cf Let_def elim!: bindE split: prod.split_asm)
  obtain b where r1: "r1 = r0\<lparr>rTrk := (rTrk r0)\<lparr>trkConfig := cfg, trkProgress := trk\<rparr>, rIsLearner := b\<rparr>"
    using switchToConfig_follower [OF sw r0(6)] by blast
  note f = becomeFollower_Some [OF bf]
  show thesis
    by (rule that [OF l lid]) (use re f r0 r1 in \<open>simp_all add: emptyChanger_def role_view_def\<close>)
qed

lemma twinSnapshot_start:
  assumes "MS_ApplySnapshot (Some (twinSnapshot voters)) NewMemoryStorage = Inr st"
  obtains hs cs st' where "MS_InitialState st = (hs, cs, st')" "IsEmptyHardState hs" "csVoters cs = voters"
    "csLearners cs = []" "csVotersOutgoing cs = []" "csLearnersNext cs = []"
  using assms
  by (auto simp: MS_ApplySnapshot_def NewMemoryStorage_def MS_InitialState_def twinSnapshot_def EnsureSnapshot_def
      EnsureSnapshotMetadata_def EnsureConfState_def getters zero_defs Let_def IsEmptyHardState_def isHardStateEqual_def
      emptyState_def split: if_split_asm)

lemma newTwinNode_Some:
  assumes "newTwinNode voters d i = Some (Some nd)" and "MS_ApplySnapshot (Some (twinSnapshot voters)) NewMemoryStorage = Inr st"
  shows "newRaft (twinConfig i st) d = Some (nRaft (tnRn nd))" "tnId nd = i" "\<not> nAsyncStorageWrites (tnRn nd)"
    "tnTerm nd = 0" "nPrevHardSt (tnRn nd) = hardState (nRaft (tnRn nd))"
  using assms by (auto simp: newTwinNode_def NewRawNode_def twinConfig_def elim!: bindE)

text \<open>A node that has just been added: a follower of the membership that every node restores.\<close>

definition fresh :: "JointConfig \<Rightarrow> uint64 \<Rightarrow> twinNode \<Rightarrow> bool" where
  "fresh c i nd \<longleftrightarrow> tnId nd = i \<and> \<not> nAsyncStorageWrites (tnRn nd) \<and>
     tnTerm nd = HardState_GetTerm (Some (nPrevHardSt (tnRn nd))) \<and> rId (nRaft (tnRn nd)) = i \<and>
     role_ok (nRaft (tnRn nd)) \<and> rState (nRaft (tnRn nd)) = StateFollower \<and>
     cfgVoters (trkConfig (rTrk (nRaft (tnRn nd)))) = c \<and>
     rMsgs (nRaft (tnRn nd)) = [] \<and> rMsgsAfterAppend (nRaft (tnRn nd)) = []"

lemma twin_membership:
  assumes "0 \<notin> set voters" and "voters \<noteq> []"
  obtains c where "JointConfig_IDs c \<noteq> {}" "\<And>d i nd. newTwinNode voters d i = Some (Some nd) \<Longrightarrow> fresh c i nd"
proof (cases "\<exists>d i nd. newTwinNode voters d i = Some (Some nd)")
  case False
  have "JointConfig_IDs (Some {1}, None) \<noteq> {}" by (simp add: JointConfig_IDs_def)
  with False show thesis by (intro that) blast+
next
  case True
  then obtain d0 i0 nd0 where n0: "newTwinNode voters d0 i0 = Some (Some nd0)" by blast
  then obtain st where st: "MS_ApplySnapshot (Some (twinSnapshot voters)) NewMemoryStorage = Inr st"
    by (auto simp: newTwinNode_def split: sum.split_asm)
  obtain hs cs st' where init: "MS_InitialState st = (hs, cs, st')" "IsEmptyHardState hs" "csVoters cs = voters"
    "csLearners cs = []" "csVotersOutgoing cs = []" "csLearnersNext cs = []"
    using st by (rule twinSnapshot_start)
  obtain l lid trk where l: "newLogWithSize st (2 ^ 20) = Some l" "log_lastEntryID (l\<lparr>lStorage := st'\<rparr>) = Some lid"
    and re: "Restore (emptyChanger 256 noLimit (idIndex lid)) cs = Some (Inr (trkConfig (rTrk (nRaft (tnRn nd0))), trk))"
    using newTwinNode_Some(1) [OF n0 st] init(1,2) by (rule newRaft_twin)
  let ?c = "cfgVoters (trkConfig (rTrk (nRaft (tnRn nd0))))"
  have "conf_view (trkConfig (rTrk (nRaft (tnRn nd0)))) = (set voters, {}, {}, {})"
    using Restore_simple [OF emptyChanger_ok(1,2), of cs 256 noLimit "idIndex lid"] re init(3-6) assms by simp
  then have "JointConfig_IDs ?c \<noteq> {}"
    using assms(2) by (auto simp: conf_view_def JointConfig_IDs_def)
  moreover have "fresh ?c i nd" if nd: "newTwinNode voters d i = Some (Some nd)" for d i nd
  proof -
    note n = newTwinNode_Some [OF nd st]
    obtain l' lid' trk' where "newLogWithSize st (2 ^ 20) = Some l'" "log_lastEntryID (l'\<lparr>lStorage := st'\<rparr>) = Some lid'"
      "Restore (emptyChanger 256 noLimit (idIndex lid')) cs = Some (Inr (trkConfig (rTrk (nRaft (tnRn nd))), trk'))"
      "rId (nRaft (tnRn nd)) = i" "rTerm (nRaft (tnRn nd)) = 0" "rMsgs (nRaft (tnRn nd)) = []"
      "rMsgsAfterAppend (nRaft (tnRn nd)) = []"
      using n(1) init(1,2) by (rule newRaft_twin)
    moreover have "role_ok (nRaft (tnRn nd))" "rState (nRaft (tnRn nd)) = StateFollower"
      using newRaft_role_ok [OF n(1)] by simp_all
    ultimately show ?thesis
      using l re n by (simp add: fresh_def hardState_def getters)
  qed
  ultimately show thesis by (rule that)
qed

lemma addTwinNodes_fresh:
  assumes "addTwinNodes voters draws ids t = Some t'"
    and "\<And>d i nd. newTwinNode voters d i = Some (Some nd) \<Longrightarrow> fresh c i nd"
  shows "\<exists>nds. twNodes t' = twNodes t @ nds \<and> list_all2 (fresh c) (take (length nds) ids) nds \<and>
    length nds \<le> length ids \<and> twNet t' = twNet t \<and> twLeaderOf t' = twLeaderOf t \<and> twViolations t' = twViolations t"
  using assms(1)
proof (induction ids arbitrary: t)
  case Nil
  then show ?case by simp
next
  case (Cons i ids)
  obtain x where x: "newTwinNode voters (draws i) i = Some x"
    and rest: "case x of None \<Rightarrow> t' = t\<lparr>twHalt := True\<rparr>
     | Some nd \<Rightarrow> addTwinNodes voters draws ids (t\<lparr>twNodes := twNodes t @ [nd]\<rparr>) = Some t'"
    using Cons.prems by (auto elim!: bindE split: option.split_asm)
  show ?case
  proof (cases x)
    case None
    with rest show ?thesis by (intro exI [of _ "[]"]) auto
  next
    case (Some nd)
    with rest have "addTwinNodes voters draws ids (t\<lparr>twNodes := twNodes t @ [nd]\<rparr>) = Some t'" by simp
    from Cons.IH [OF this] obtain nds where "twNodes t' = twNodes t @ nd # nds" "list_all2 (fresh c) (take (length nds) ids) nds"
      "length nds \<le> length ids" "twNet t' = twNet t" "twLeaderOf t' = twLeaderOf t" "twViolations t' = twViolations t"
      by auto
    moreover have "fresh c i nd" using assms(2) x Some by blast
    ultimately show ?thesis by (intro exI [of _ "nd # nds"]) auto
  qed
qed

text \<open>The ids of the nodes are 1 to \<open>n\<close>; the other members of the cluster model never move.\<close>

lemma newTwin_rel:
  assumes "newTwin n cmds draws = Some t" and "0 < n" and "n < 2 ^ 63"
  obtains c s where "JointConfig_IDs c \<noteq> {}" "twin_rel c s t"
proof -
  define voters where "voters = (map of_nat [1..<Suc n] :: uint64 list)"
  have vs: "voters = map nid [0..<n]"
    unfolding voters_def by (rule nth_equalityI) (simp_all del: upt_Suc)
  have nz: "nid i \<noteq> 0" if "i < n" for i using nid_nonzero [of i] that assms(3) by simp
  then have "0 \<notin> set voters" "voters \<noteq> []"
    using assms(2) unfolding vs by (auto simp del: of_nat_Suc)
  then obtain c where c: "JointConfig_IDs c \<noteq> {}" "\<And>d i nd. newTwinNode voters d i = Some (Some nd) \<Longrightarrow> fresh c i nd"
    by (rule twin_membership) blast
  obtain nds where nds: "twNodes t = nds" "list_all2 (fresh c) (take (length nds) voters) nds" "length nds \<le> length voters"
    "twNet t = []" "twLeaderOf t = Map.empty" "twViolations t = []"
    using assms(1) addTwinNodes_fresh [OF _ c(2)] unfolding newTwin_def Let_def voters_def [symmetric] by force
  have fr: "fresh c (nid i) (nds ! i)" if "i < length nds" for i
    using list_all2_nthD2 [OF nds(2) that] that nds(3) by (simp add: vs del: of_nat_Suc)
  have len: "length nds \<le> n" "length nds < 2 ^ 64 - 1" using nds(3) assms(3) by (simp_all add: vs)
  define idle where "idle i = demoFollower\<lparr>rId := i, rTrk := (rTrk demoFollower)
      \<lparr>trkConfig := (trkConfig (rTrk demoFollower))\<lparr>cfgVoters := c\<rparr>\<rparr>\<rparr>" for i
  define r where "r i = (if 0 < unat i \<and> unat i \<le> length nds then nRaft (tnRn (nds ! (unat i - 1))) else idle i)" for i
  have idle: "role_ok (idle i)" for i
    using demo_role_ok role_ok_cong [of "idle i" demoFollower] by (simp add: idle_def)
  have at: "r (nid i) = nRaft (tnRn (nds ! i))" if "i < length nds" for i
    using unat_nid [of i] that len(2) unfolding r_def by simp
  have "rId (r i) = i \<and> role_ok (r i) \<and> rState (r i) = StateFollower \<and> cfgVoters (trkConfig (rTrk (r i))) = c \<and>
      rMsgs (r i) = [] \<and> rMsgsAfterAppend (r i) = []" for i
  proof (cases "0 < unat i \<and> unat i \<le> length nds")
    case True
    then have "nid (unat i - 1) = i" by simp
    with fr [of "unat i - 1"] True show ?thesis by (auto simp: r_def fresh_def)
  next
    case False
    then have "r i = idle i" unfolding r_def by (rule if_not_P)
    with idle show ?thesis by (simp add: idle_def)
  qed
  then have init: "cluster_init c \<lparr>clNodes = r, clNet = {}\<rparr>" by (simp add: cluster_init_def)
  have "cluster_inv c \<lparr>clNodes = r, clNet = {}\<rparr>"
    by (rule cluster_inv_run [OF rtranclp.rtrancl_refl init c(1)])
  then have "twin_rel c \<lparr>clNodes = r, clNet = {}\<rparr> t"
    using nds len fr at by (simp add: twin_rel_def book_rel_def no_S1_def node_rel_def fresh_def after_ok_def)
  with c(1) show thesis by (rule that)
qed

section \<open>The choice-driven run\<close>

lemma pickLive_valid:
  assumes "length (liveIdx t) > 0"
  shows "pickLive picks (liveIdx t) < length (twNet t)"
proof -
  have "pickLive picks (liveIdx t) \<in> set (liveIdx t)"
    using assms by (auto simp: pickLive_def split: list.split)
  then show ?thesis by (auto simp: liveIdx_def)
qed

text \<open>A round, seen from outside: a delivery, a proposal, or the end.\<close>

lemma choiceLoop_Some:
  assumes "choiceLoop (Suc left) stuck picks t = Some (n, t')"
  obtains "t' = t" | "t' = t\<lparr>twHalt := True\<rparr>"
  | j k ps rounds t1 where "j < length (twNet t)" "deliverIdx j t = Some t1" "choiceLoop left k ps t1 = Some (rounds, t')"
  | t1 where "twin_step (OpPropose 1) t = Some t1" "t' = t1\<lparr>twHalt := True\<rparr>"
  | t1 k rounds where "twin_step (OpPropose 1) t = Some t1" "choiceLoop left k picks t1 = Some (rounds, t')"
proof (cases "length (liveIdx t) > 0")
  case True
  then obtain t1 rounds where "deliverIdx (pickLive picks (liveIdx t)) t = Some t1"
    "choiceLoop left 0 (tl picks) t1 = Some (rounds, t')"
    using assms by (auto elim!: bindE)
  with pickLive_valid [OF True] show thesis by (rule that(3))
next
  case idle: False
  show thesis
  proof (cases "complete t \<and> length (twPending t) = 0 \<or> length (twPending t) = 0")
    case True
    then have "t' = t \<or> t' = t\<lparr>twHalt := True\<rparr>" using assms idle by (auto split: if_split_asm)
    then show thesis using that(1,2) by blast
  next
    case False
    then obtain t1 where t1: "twin_step (OpPropose 1) t = Some t1"
      and rest: "if stuck + 1 > 3 then t' = t1\<lparr>twHalt := True\<rparr> else \<exists>rounds. choiceLoop left (stuck + 1) picks t1 = Some (rounds, t')"
      using assms idle by (auto elim!: bindE split: if_split_asm)
    show thesis
    proof (cases "stuck + 1 > 3")
      case True
      with rest have "t' = t1\<lparr>twHalt := True\<rparr>" by simp
      with t1 show thesis by (rule that(4))
    next
      case False
      with rest obtain rounds where "choiceLoop left (stuck + 1) picks t1 = Some (rounds, t')" by (auto split: if_split_asm)
      with t1 show thesis by (rule that(5))
    qed
  qed
qed

lemma choiceLoop_keeps: "choiceLoop left stuck picks t = Some (n, t') \<Longrightarrow> keeps t t'"
proof (induction left arbitrary: stuck picks t n)
  case 0
  then show ?case by (simp add: keeps_refl)
next
  case (Suc left)
  from Suc.prems show ?case
  proof (cases rule: choiceLoop_Some)
    case (3 j k ps rounds t1)
    then show ?thesis using deliverIdx_keeps Suc.IH keeps_trans by blast
  next
    case (4 t1)
    have "keeps t1 t'" unfolding 4(2) by simp
    then show ?thesis using twin_step_keeps [OF 4(1)] keeps_trans by blast
  next
    case (5 t1 k rounds)
    then show ?thesis using twin_step_keeps Suc.IH keeps_trans by blast
  qed (simp_all add: keeps_refl)
qed

lemma choiceLoop_rel:
  assumes "choiceLoop left stuck picks t = Some (n, t')" and "twin_rel c s t" and ne: "JointConfig_IDs c \<noteq> {}"
    and tm: "list_all tame (twNet t')"
  shows "\<exists>s'. twin_rel c s' t'"
  using assms(1,2)
proof (induction left arbitrary: stuck picks t n s)
  case 0
  then show ?case by auto
next
  case (Suc left)
  have rel: "\<exists>s'. twin_rel c s' t" using Suc.prems(2) by blast
  from Suc.prems(1) show ?case
  proof (cases rule: choiceLoop_Some)
    case 1
    with rel show ?thesis by simp
  next
    case 2
    with rel show ?thesis by simp
  next
    case (3 j k ps rounds t1)
    have "list_all tame (twNet t)"
      using tm keeps_trans [OF deliverIdx_keeps [OF 3(2)] choiceLoop_keeps [OF 3(3)]] by (rule tame_keeps)
    then obtain s1 where "twin_rel c s1 t1" using deliverIdx_rel [OF 3(2) Suc.prems(2) ne 3(1)] by blast
    with 3(3) show ?thesis by (rule Suc.IH)
  next
    case (4 t1)
    have "keeps t1 t'" unfolding 4(2) by simp
    with tm have "list_all tame (twNet t1)" by (rule tame_keeps)
    then obtain s1 where s1: "twin_rel c s1 t1" using twin_step_rel [OF 4(1) Suc.prems(2) ne] by blast
    have "twin_rel c s1 t'" unfolding 4(2) using s1 by simp
    then show ?thesis by blast
  next
    case (5 t1 k rounds)
    have "list_all tame (twNet t1)" using tm choiceLoop_keeps [OF 5(2)] by (rule tame_keeps)
    then obtain s1 where "twin_rel c s1 t1" using twin_step_rel [OF 5(1) Suc.prems(2) ne] by blast
    with 5(2) show ?thesis by (rule Suc.IH)
  qed
qed

section \<open>The property\<close>

text \<open>
  C7. The S1 check of the machine twin never fires: whatever schedule of ticks, campaigns, proposals,
  single deliveries and drains is run on a cluster of any size and with any random draws, the harness
  records no second node claiming a term, so long as no snapshot is sent (the twin never compacts) and
  no message of a leader has term 0.
\<close>

theorem twin_election_safety:
  assumes "schedRun draws s = Some t" and "0 < scN s" and "scN s < 2 ^ 63"
    and "list_all (\<lambda>m. Message_GetType m \<noteq> MsgSnap \<and>
      (Message_GetType m \<in> {MsgApp, MsgHeartbeat} \<longrightarrow> Message_GetTerm m \<noteq> 0)) (twNet t)"
  shows "S1 term first second \<notin> set (twViolations t)"
proof -
  obtain t0 where t0: "newTwin (scN s) (scCmds s) draws = Some t0" "runOps (scOps s) t0 = Some t"
    using assms(1) by (auto simp: schedRun_def elim!: bindE)
  obtain c cl where c: "JointConfig_IDs c \<noteq> {}" "twin_rel c cl t0"
    using t0(1) assms(2,3) by (rule newTwin_rel)
  have "list_all tame (twNet t)" using assms(4) by (auto simp: list_all_iff tame_def msg_sane_def)
  then obtain cl' where "twin_rel c cl' t" using runOps_rel [OF t0(2) c(2,1)] by blast
  then show ?thesis by (simp add: twin_rel_def book_rel_def no_S1_def)
qed

text \<open>The evaluated run: the node claims term 1, and the check is silent.\<close>

theorem twin_election_safety_witness:
  "schedRun (\<lambda>_. []) runSpec = Some runEnd \<and> twLeaderOf runEnd 1 = Some 1 \<and> S1 1 1 1 \<notin> set (twViolations runEnd)"
proof -
  have "twNet runEnd = []" "twLeaderOf runEnd 1 = Some 1" "scN runSpec = 1"
    by (simp_all add: runEnd_def runTwin_def runSpec_def)
  with twin_election_safety [OF run_spec] show ?thesis using run_spec by simp
qed

text \<open>
  C8. The same for the choice-driven twin, and so for the program \<^verbatim>\<open>runTwinChoice\<close>: whatever live
  message each round picks, no second leader of a term is recorded, so long as no snapshot is sent and
  no message of a leader has term 0.
\<close>

theorem choice_election_safety:
  assumes "choiceRun n cmds fuel draws picks = Some (t, finished, floorOK, rounds)" and "0 < n" and "n < 2 ^ 63"
    and "list_all (\<lambda>m. Message_GetType m \<noteq> MsgSnap \<and>
      (Message_GetType m \<in> {MsgApp, MsgHeartbeat} \<longrightarrow> Message_GetTerm m \<noteq> 0)) (twNet t)"
  shows "S1 term first second \<notin> set (twViolations t)"
proof -
  obtain t0 t1 where t0: "newTwin n cmds draws = Some t0" "twin_step (OpCampaign 1) t0 = Some t1"
    and l: "choiceLoop fuel 0 picks t1 = Some (rounds, t)"
    using assms(1) by (auto simp: choiceRun_def elim!: bindE)
  obtain c cl where c: "JointConfig_IDs c \<noteq> {}" "twin_rel c cl t0"
    using t0(1) assms(2,3) by (rule newTwin_rel)
  have tm: "list_all tame (twNet t)" using assms(4) by (auto simp: list_all_iff tame_def msg_sane_def)
  then have "list_all tame (twNet t1)" using choiceLoop_keeps [OF l] by (rule tame_keeps)
  then obtain cl1 where "twin_rel c cl1 t1" using twin_step_rel [OF t0(2) c(2,1)] by blast
  then obtain cl' where "twin_rel c cl' t" using choiceLoop_rel [OF l _ c(1) tm] by blast
  then show ?thesis by (simp add: twin_rel_def book_rel_def no_S1_def)
qed

theorem choice_election_safety_witness:
  "choiceRun 1 0 400 (\<lambda>_. []) [] = Some (runEnd, True, False, 0) \<and> twLeaderOf runEnd 1 = Some 1 \<and>
     S1 1 1 2 \<notin> set (twViolations runEnd)"
proof -
  have "twNet runEnd = []" "twLeaderOf runEnd 1 = Some 1" by (simp_all add: runEnd_def runTwin_def)
  with choice_election_safety [OF run_choice] show ?thesis using run_choice by simp
qed

end
