(* ===== verification/MessageOps.thy ===== *)
theory MessageOps
  imports Codec
begin

text \<open>
  Merging, copying and comparing messages (raftpb/plain_clone.go), and the two generic operations
  \<^verbatim>\<open>proto.Clone\<close> and \<^verbatim>\<open>proto.Equal\<close> on one message type. A message here is a value: that a copy
  shares no memory with its original is not expressed, that it has the same value is. A nil
  pointer is \<open>None\<close>; the elements of a repeated field are messages. \<open>None\<close> as the result of
  a comparison is the panic of \<open>equalUnknown\<close> on unknown bytes that are no fields.
\<close>

section \<open>Fields\<close>

text \<open>\<^verbatim>\<open>if src.F != nil { v := *src.F; x.F = &v }\<close>; bytes are replaced too.\<close>

definition mergeOpt :: "'a option \<Rightarrow> 'a option \<Rightarrow> 'a option" where
  "mergeOpt x src = (case src of Some v \<Rightarrow> Some v | None \<Rightarrow> x)"

definition mergeMsg :: "'a \<Rightarrow> ('a \<Rightarrow> 'a \<Rightarrow> 'a) \<Rightarrow> 'a option \<Rightarrow> 'a option \<Rightarrow> 'a option" where
  "mergeMsg zero merge x src =
     (case src of None \<Rightarrow> x | Some s \<Rightarrow> Some (merge (case x of None \<Rightarrow> zero | Some m \<Rightarrow> m) s))"

definition sameOpt :: "'a option \<Rightarrow> 'a option \<Rightarrow> bool" where
  "sameOpt x y \<longleftrightarrow> (x = None) = (y = None) \<and> (case (x, y) of (Some a, Some b) \<Rightarrow> a = b | _ \<Rightarrow> True)"

text \<open>The rest of a comparison after a part of it that may panic.\<close>

definition andAlso :: "bool option \<Rightarrow> bool option \<Rightarrow> bool option" where
  "andAlso a b = do { ok \<leftarrow> a; if \<not> ok then Some False else b }"

definition equalOpt :: "('a \<Rightarrow> 'a \<Rightarrow> bool option) \<Rightarrow> 'a option \<Rightarrow> 'a option \<Rightarrow> bool option" where
  "equalOpt eq x y =
     (case (x, y) of (None, None) \<Rightarrow> Some True | (Some a, Some b) \<Rightarrow> eq a b | _ \<Rightarrow> Some False)"

fun equalFrom :: "('a \<Rightarrow> 'a \<Rightarrow> bool option) \<Rightarrow> 'a list \<Rightarrow> 'a list \<Rightarrow> bool option" where
  "equalFrom eq (x # xs) (y # ys) = andAlso (eq x y) (equalFrom eq xs ys)"
| "equalFrom eq _ _ = Some True"

definition equalEach :: "('a \<Rightarrow> 'a \<Rightarrow> bool option) \<Rightarrow> 'a list \<Rightarrow> 'a list \<Rightarrow> bool option" where
  "equalEach eq xs ys = (if length xs \<noteq> length ys then Some False else equalFrom eq xs ys)"

section \<open>The message types\<close>

definition Entry_mergeMessage :: "Entry \<Rightarrow> Entry \<Rightarrow> Entry" where
  "Entry_mergeMessage x src = x\<lparr>eType := mergeOpt (eType x) (eType src),
     eTerm := mergeOpt (eTerm x) (eTerm src),
     eIndex := mergeOpt (eIndex x) (eIndex src),
     eData := mergeOpt (eData x) (eData src),
     eUnknown := eUnknown x @ eUnknown src\<rparr>"

definition Entry_CloneMessage :: "Entry option \<Rightarrow> Entry option" where
  "Entry_CloneMessage x = map_option (Entry_mergeMessage Entry0) x"

definition Entry_EqualMessage :: "Entry \<Rightarrow> Entry \<Rightarrow> bool option" where
  "Entry_EqualMessage x y =
     (if \<not> sameOpt (eType x) (eType y) then Some False else
     (if \<not> sameOpt (eTerm x) (eTerm y) then Some False else
     (if \<not> sameOpt (eIndex x) (eIndex y) then Some False else
     (if \<not> sameOpt (eData x) (eData y) then Some False else
     equalUnknown (eUnknown x) (eUnknown y)))))"

definition ConfState_mergeMessage :: "ConfState \<Rightarrow> ConfState \<Rightarrow> ConfState" where
  "ConfState_mergeMessage x src = x\<lparr>csVoters := csVoters x @ csVoters src,
     csLearners := csLearners x @ csLearners src,
     csVotersOutgoing := csVotersOutgoing x @ csVotersOutgoing src,
     csLearnersNext := csLearnersNext x @ csLearnersNext src,
     csAutoLeave := mergeOpt (csAutoLeave x) (csAutoLeave src),
     csUnknown := csUnknown x @ csUnknown src\<rparr>"

definition ConfState_CloneMessage :: "ConfState option \<Rightarrow> ConfState option" where
  "ConfState_CloneMessage x = map_option (ConfState_mergeMessage ConfState0) x"

definition SnapshotMetadata_mergeMessage :: "SnapshotMetadata \<Rightarrow> SnapshotMetadata \<Rightarrow> SnapshotMetadata" where
  "SnapshotMetadata_mergeMessage x src = x\<lparr>smConfState := mergeMsg ConfState0 ConfState_mergeMessage (smConfState x) (smConfState src),
     smIndex := mergeOpt (smIndex x) (smIndex src),
     smTerm := mergeOpt (smTerm x) (smTerm src),
     smUnknown := smUnknown x @ smUnknown src\<rparr>"

definition SnapshotMetadata_CloneMessage :: "SnapshotMetadata option \<Rightarrow> SnapshotMetadata option" where
  "SnapshotMetadata_CloneMessage x = map_option (SnapshotMetadata_mergeMessage SnapshotMetadata0) x"

definition SnapshotMetadata_EqualMessage :: "SnapshotMetadata \<Rightarrow> SnapshotMetadata \<Rightarrow> bool option" where
  "SnapshotMetadata_EqualMessage x y =
     andAlso (equalOpt ConfState_EqualMessage (smConfState x) (smConfState y)) (
     (if \<not> sameOpt (smIndex x) (smIndex y) then Some False else
     (if \<not> sameOpt (smTerm x) (smTerm y) then Some False else
     equalUnknown (smUnknown x) (smUnknown y))))"

definition Snapshot_mergeMessage :: "Snapshot \<Rightarrow> Snapshot \<Rightarrow> Snapshot" where
  "Snapshot_mergeMessage x src = x\<lparr>snData := mergeOpt (snData x) (snData src),
     snMetadata := mergeMsg SnapshotMetadata0 SnapshotMetadata_mergeMessage (snMetadata x) (snMetadata src),
     snUnknown := snUnknown x @ snUnknown src\<rparr>"

definition Snapshot_CloneMessage :: "Snapshot option \<Rightarrow> Snapshot option" where
  "Snapshot_CloneMessage x = map_option (Snapshot_mergeMessage Snapshot0) x"

definition Snapshot_EqualMessage :: "Snapshot \<Rightarrow> Snapshot \<Rightarrow> bool option" where
  "Snapshot_EqualMessage x y =
     (if \<not> sameOpt (snData x) (snData y) then Some False else
     andAlso (equalOpt SnapshotMetadata_EqualMessage (snMetadata x) (snMetadata y)) (
     equalUnknown (snUnknown x) (snUnknown y)))"

definition HardState_mergeMessage :: "HardState \<Rightarrow> HardState \<Rightarrow> HardState" where
  "HardState_mergeMessage x src = x\<lparr>hsTerm := mergeOpt (hsTerm x) (hsTerm src),
     hsVote := mergeOpt (hsVote x) (hsVote src),
     hsCommit := mergeOpt (hsCommit x) (hsCommit src),
     hsUnknown := hsUnknown x @ hsUnknown src\<rparr>"

definition HardState_CloneMessage :: "HardState option \<Rightarrow> HardState option" where
  "HardState_CloneMessage x = map_option (HardState_mergeMessage HardState0) x"

definition HardState_EqualMessage :: "HardState \<Rightarrow> HardState \<Rightarrow> bool option" where
  "HardState_EqualMessage x y =
     (if \<not> sameOpt (hsTerm x) (hsTerm y) then Some False else
     (if \<not> sameOpt (hsVote x) (hsVote y) then Some False else
     (if \<not> sameOpt (hsCommit x) (hsCommit y) then Some False else
     equalUnknown (hsUnknown x) (hsUnknown y))))"

definition ConfChange_mergeMessage :: "ConfChange \<Rightarrow> ConfChange \<Rightarrow> ConfChange" where
  "ConfChange_mergeMessage x src = x\<lparr>ccId := mergeOpt (ccId x) (ccId src),
     ccType := mergeOpt (ccType x) (ccType src),
     ccNodeId := mergeOpt (ccNodeId x) (ccNodeId src),
     ccContext := mergeOpt (ccContext x) (ccContext src),
     ccUnknown := ccUnknown x @ ccUnknown src\<rparr>"

definition ConfChange_CloneMessage :: "ConfChange option \<Rightarrow> ConfChange option" where
  "ConfChange_CloneMessage x = map_option (ConfChange_mergeMessage ConfChange0) x"

definition ConfChange_EqualMessage :: "ConfChange \<Rightarrow> ConfChange \<Rightarrow> bool option" where
  "ConfChange_EqualMessage x y =
     (if \<not> sameOpt (ccId x) (ccId y) then Some False else
     (if \<not> sameOpt (ccType x) (ccType y) then Some False else
     (if \<not> sameOpt (ccNodeId x) (ccNodeId y) then Some False else
     (if \<not> sameOpt (ccContext x) (ccContext y) then Some False else
     equalUnknown (ccUnknown x) (ccUnknown y)))))"

definition ConfChangeSingle_mergeMessage :: "ConfChangeSingle \<Rightarrow> ConfChangeSingle \<Rightarrow> ConfChangeSingle" where
  "ConfChangeSingle_mergeMessage x src = x\<lparr>ccsType := mergeOpt (ccsType x) (ccsType src),
     ccsNodeId := mergeOpt (ccsNodeId x) (ccsNodeId src),
     ccsUnknown := ccsUnknown x @ ccsUnknown src\<rparr>"

definition ConfChangeSingle_CloneMessage :: "ConfChangeSingle option \<Rightarrow> ConfChangeSingle option" where
  "ConfChangeSingle_CloneMessage x = map_option (ConfChangeSingle_mergeMessage ConfChangeSingle0) x"

definition ConfChangeSingle_EqualMessage :: "ConfChangeSingle \<Rightarrow> ConfChangeSingle \<Rightarrow> bool option" where
  "ConfChangeSingle_EqualMessage x y =
     (if \<not> sameOpt (ccsType x) (ccsType y) then Some False else
     (if \<not> sameOpt (ccsNodeId x) (ccsNodeId y) then Some False else
     equalUnknown (ccsUnknown x) (ccsUnknown y)))"

definition ConfChangeV2_mergeMessage :: "ConfChangeV2 \<Rightarrow> ConfChangeV2 \<Rightarrow> ConfChangeV2" where
  "ConfChangeV2_mergeMessage x src = x\<lparr>ccv2Transition := mergeOpt (ccv2Transition x) (ccv2Transition src),
     ccv2Changes := ccv2Changes x @ map (ConfChangeSingle_mergeMessage ConfChangeSingle0) (ccv2Changes src),
     ccv2Context := mergeOpt (ccv2Context x) (ccv2Context src),
     ccv2Unknown := ccv2Unknown x @ ccv2Unknown src\<rparr>"

definition ConfChangeV2_CloneMessage :: "ConfChangeV2 option \<Rightarrow> ConfChangeV2 option" where
  "ConfChangeV2_CloneMessage x = map_option (ConfChangeV2_mergeMessage ConfChangeV20) x"

definition ConfChangeV2_EqualMessage :: "ConfChangeV2 \<Rightarrow> ConfChangeV2 \<Rightarrow> bool option" where
  "ConfChangeV2_EqualMessage x y =
     (if \<not> sameOpt (ccv2Transition x) (ccv2Transition y) then Some False else
     andAlso (equalEach ConfChangeSingle_EqualMessage (ccv2Changes x) (ccv2Changes y)) (
     (if \<not> sameOpt (ccv2Context x) (ccv2Context y) then Some False else
     equalUnknown (ccv2Unknown x) (ccv2Unknown y))))"

definition MsgFields_merge :: "MsgFields \<Rightarrow> MsgFields \<Rightarrow> MsgFields" where
  "MsgFields_merge x src = x\<lparr>mType := mergeOpt (mType x) (mType src),
     mTo := mergeOpt (mTo x) (mTo src),
     mFrom := mergeOpt (mFrom x) (mFrom src),
     mTerm := mergeOpt (mTerm x) (mTerm src),
     mLogTerm := mergeOpt (mLogTerm x) (mLogTerm src),
     mIndex := mergeOpt (mIndex x) (mIndex src),
     mEntries := mEntries x @ map (Entry_mergeMessage Entry0) (mEntries src),
     mCommit := mergeOpt (mCommit x) (mCommit src),
     mSnapshot := mergeMsg Snapshot0 Snapshot_mergeMessage (mSnapshot x) (mSnapshot src),
     mReject := mergeOpt (mReject x) (mReject src),
     mRejectHint := mergeOpt (mRejectHint x) (mRejectHint src),
     mContext := mergeOpt (mContext x) (mContext src),
     mVote := mergeOpt (mVote x) (mVote src),
     mUnknown := mUnknown x @ mUnknown src\<rparr>"

text \<open>The fields before the responses; the responses and the unknown bytes come after them.\<close>

definition MsgFields_equal :: "MsgFields \<Rightarrow> MsgFields \<Rightarrow> bool option" where
  "MsgFields_equal x y =
     (if \<not> sameOpt (mType x) (mType y) then Some False else
     (if \<not> sameOpt (mTo x) (mTo y) then Some False else
     (if \<not> sameOpt (mFrom x) (mFrom y) then Some False else
     (if \<not> sameOpt (mTerm x) (mTerm y) then Some False else
     (if \<not> sameOpt (mLogTerm x) (mLogTerm y) then Some False else
     (if \<not> sameOpt (mIndex x) (mIndex y) then Some False else
     andAlso (equalEach Entry_EqualMessage (mEntries x) (mEntries y)) (
     (if \<not> sameOpt (mCommit x) (mCommit y) then Some False else
     andAlso (equalOpt Snapshot_EqualMessage (mSnapshot x) (mSnapshot y)) (
     (if \<not> sameOpt (mReject x) (mReject y) then Some False else
     (if \<not> sameOpt (mRejectHint x) (mRejectHint y) then Some False else
     (if \<not> sameOpt (mContext x) (mContext y) then Some False else
     (if \<not> sameOpt (mVote x) (mVote y) then Some False else
     Some True)))))))))))))"

fun Message_mergeMessage :: "Message \<Rightarrow> Message \<Rightarrow> Message" where
  "Message_mergeMessage (Msg x xs) (Msg src ss) =
     Msg (MsgFields_merge x src) (xs @ map (Message_mergeMessage (Msg Message0 [])) ss)"

definition Message_CloneMessage :: "Message option \<Rightarrow> Message option" where
  "Message_CloneMessage x = map_option (Message_mergeMessage (Msg Message0 [])) x"

fun Message_EqualMessage :: "Message \<Rightarrow> Message \<Rightarrow> bool option"
  and Message_equalFrom :: "Message list \<Rightarrow> Message list \<Rightarrow> bool option"
where
  "Message_EqualMessage (Msg x xs) (Msg y ys) =
     andAlso (MsgFields_equal x y) (
       if length xs \<noteq> length ys then Some False
       else andAlso (Message_equalFrom xs ys) (equalUnknown (mUnknown x) (mUnknown y)))"
| "Message_equalFrom (x # xs) (y # ys) = andAlso (Message_EqualMessage x y) (Message_equalFrom xs ys)"
| "Message_equalFrom _ _ = Some True"

text \<open>\<^verbatim>\<open>proto.Equal\<close> and \<^verbatim>\<open>proto.Clone\<close> on two pointers of one type; identical pointers are equal values.\<close>

definition proto_Equal :: "('m \<Rightarrow> 'm \<Rightarrow> bool option) \<Rightarrow> 'm option \<Rightarrow> 'm option \<Rightarrow> bool option" where
  "proto_Equal eq x y =
     (if (x = None) \<noteq> (y = None) then Some False
      else case (x, y) of (Some a, Some b) \<Rightarrow> eq a b | _ \<Rightarrow> Some True)"

section \<open>The laws of merging and comparing\<close>

locale proto_message = codec +
  fixes merge :: "'a \<Rightarrow> 'a \<Rightarrow> 'a" and equal :: "'a \<Rightarrow> 'a \<Rightarrow> bool option"
  assumes merge_zero: "merge zero m = m" and merge_zero_right: "merge m zero = m"
    and merge_assoc: "merge (merge a b) c = merge a (merge b c)"
    and equal_refl: "equal m m = Some True"
    and equal_ok: "ok m \<Longrightarrow> ok m' \<Longrightarrow> equal m m' = Some (m = m')"
begin

lemma clone_eq: "map_option (merge zero) x = x"
  by (cases x) (simp_all add: merge_zero)

lemma equal_clone: "proto_Equal equal x (map_option (merge zero) x) = Some True"
  by (cases x) (simp_all add: proto_Equal_def merge_zero equal_refl)

lemma equal_encoding:
  assumes "ok m" and "ok m'" and "need m \<le> 10000" and "need m' \<le> 10000" and "siz m < 2 ^ 63"
  shows "equal m m' = Some (enc [] m = enc [] m')"
  using assms enc_inj [of m m'] by (auto simp: equal_ok)

lemma mergeMsg_zero: "mergeMsg zero merge None x = x" "mergeMsg zero merge x None = x"
  by (simp_all add: mergeMsg_def merge_zero split: option.split)

lemma mergeMsg_assoc: "mergeMsg zero merge (mergeMsg zero merge a b) c = mergeMsg zero merge a (mergeMsg zero merge b c)"
  by (simp add: mergeMsg_def merge_assoc merge_zero split: option.split)

lemma map_merge: "map (merge zero) ms = ms"
  by (simp add: merge_zero map_idI)

lemma equalOpt_refl: "equalOpt equal x x = Some True"
  by (simp add: equalOpt_def equal_refl split: option.split)

lemma equalOpt_ok: "pred_option ok x \<Longrightarrow> pred_option ok y \<Longrightarrow> equalOpt equal x y = Some (x = y)"
  by (auto simp: equalOpt_def equal_ok split: option.split)

lemma equalEach_refl: "equalEach equal xs xs = Some True"
  by (induction xs) (simp_all add: equalEach_def andAlso_def equal_refl)

lemma equalEach_ok: "list_all ok xs \<Longrightarrow> list_all ok ys \<Longrightarrow> equalEach equal xs ys = Some (xs = ys)"
proof -
  have "equalFrom equal xs ys = Some (xs = ys)" if "length xs = length ys" "list_all ok xs" "list_all ok ys" for xs ys
    using that by (induction xs ys rule: list_induct2) (auto simp: andAlso_def equal_ok)
  moreover assume "list_all ok xs" "list_all ok ys"
  ultimately show ?thesis by (auto simp: equalEach_def)
qed

lemmas nested_simps = mergeMsg_zero mergeMsg_assoc map_merge equalOpt_refl equalOpt_ok equalEach_refl equalEach_ok

end

lemma sameOpt_eq [simp]: "sameOpt x y \<longleftrightarrow> x = y"
  by (auto simp: sameOpt_def split: option.split)

lemma andAlso_simps [simp]:
  "andAlso (Some a) b = (if a then b else Some False)"
  "(if a then Some c else Some False) = Some (a \<and> c)" "(if a then Some False else Some c) = Some (\<not> a \<and> c)"
  by (simp_all add: andAlso_def)

lemma mergeOpt_simps [simp]: "mergeOpt None x = x" "mergeOpt x None = x" "mergeOpt (mergeOpt a b) c = mergeOpt a (mergeOpt b c)"
  by (simp_all add: mergeOpt_def split: option.split)

interpretation entryOps: proto_message Entry_SizeMessage Entry_MarshalAppend Entry_UnmarshalMessage Entry0
  Entry_ok "\<lambda>m. 1" Entry_mergeMessage Entry_EqualMessage
  by unfold_locales (auto simp: Entry_mergeMessage_def Entry0_def Entry_EqualMessage_def Entry_ok_def)

interpretation confStateOps: proto_message ConfState_SizeMessage ConfState_MarshalAppend ConfState_UnmarshalMessage ConfState0
  ConfState_ok "\<lambda>m. 1" ConfState_mergeMessage ConfState_EqualMessage
  by unfold_locales (auto simp: ConfState_mergeMessage_def ConfState0_def ConfState_EqualMessage_def ConfState_ok_def)

interpretation snapMetaOps: proto_message SnapshotMetadata_SizeMessage SnapshotMetadata_MarshalAppend SnapshotMetadata_UnmarshalMessage SnapshotMetadata0
  SnapshotMetadata_ok "\<lambda>m. 2" SnapshotMetadata_mergeMessage SnapshotMetadata_EqualMessage
  by unfold_locales (auto simp: SnapshotMetadata_mergeMessage_def SnapshotMetadata0_def SnapshotMetadata_EqualMessage_def SnapshotMetadata_ok_def confStateOps.nested_simps)

interpretation snapshotOps: proto_message Snapshot_SizeMessage Snapshot_MarshalAppend Snapshot_UnmarshalMessage Snapshot0
  Snapshot_ok "\<lambda>m. 3" Snapshot_mergeMessage Snapshot_EqualMessage
  by unfold_locales (auto simp: Snapshot_mergeMessage_def Snapshot0_def Snapshot_EqualMessage_def Snapshot_ok_def snapMetaOps.nested_simps)

interpretation hardStateOps: proto_message HardState_SizeMessage HardState_MarshalAppend HardState_UnmarshalMessage HardState0
  HardState_ok "\<lambda>m. 1" HardState_mergeMessage HardState_EqualMessage
  by unfold_locales (auto simp: HardState_mergeMessage_def HardState0_def HardState_EqualMessage_def HardState_ok_def)

interpretation confChangeOps: proto_message ConfChange_SizeMessage ConfChange_MarshalAppend ConfChange_UnmarshalMessage ConfChange0
  ConfChange_ok "\<lambda>m. 1" ConfChange_mergeMessage ConfChange_EqualMessage
  by unfold_locales (auto simp: ConfChange_mergeMessage_def ConfChange0_def ConfChange_EqualMessage_def ConfChange_ok_def)

interpretation confChangeSingleOps: proto_message ConfChangeSingle_SizeMessage ConfChangeSingle_MarshalAppend ConfChangeSingle_UnmarshalMessage ConfChangeSingle0
  ConfChangeSingle_ok "\<lambda>m. 1" ConfChangeSingle_mergeMessage ConfChangeSingle_EqualMessage
  by unfold_locales (auto simp: ConfChangeSingle_mergeMessage_def ConfChangeSingle0_def ConfChangeSingle_EqualMessage_def ConfChangeSingle_ok_def)

interpretation confChangeV2Ops: proto_message ConfChangeV2_SizeMessage ConfChangeV2_MarshalAppend ConfChangeV2_UnmarshalMessage ConfChangeV20
  ConfChangeV2_ok "\<lambda>m. 2" ConfChangeV2_mergeMessage ConfChangeV2_EqualMessage
  by unfold_locales (auto simp: ConfChangeV2_mergeMessage_def ConfChangeV20_def ConfChangeV2_EqualMessage_def ConfChangeV2_ok_def confChangeSingleOps.nested_simps)

lemma MsgFields_simps:
  "MsgFields_merge Message0 x = x" "MsgFields_merge x Message0 = x"
  "MsgFields_merge (MsgFields_merge x y) z = MsgFields_merge x (MsgFields_merge y z)"
  "MsgFields_equal x x = Some True"
  by (simp_all add: MsgFields_merge_def Message0_def MsgFields_equal_def entryOps.nested_simps snapshotOps.nested_simps)

lemma MsgFields_equal_ok:
  assumes "list_all Entry_ok (mEntries x)" and "list_all Entry_ok (mEntries y)"
    and "pred_option Snapshot_ok (mSnapshot x)" and "pred_option Snapshot_ok (mSnapshot y)" and "mUnknown x = mUnknown y"
  shows "MsgFields_equal x y = Some (x = y)"
  using assms by (cases x; cases y) (simp add: MsgFields_equal_def entryOps.nested_simps snapshotOps.nested_simps)

lemma Message_merge_zero: "Message_mergeMessage (Msg Message0 []) m = m"
proof (induction m)
  case (Msg x rs)
  then show ?case by (simp add: MsgFields_simps map_idI)
qed

lemma Message_equal_refl:
  "m = m' \<Longrightarrow> Message_EqualMessage m m' = Some True" "ms = ms' \<Longrightarrow> Message_equalFrom ms ms' = Some True"
  by (induction m m' and ms ms' rule: Message_EqualMessage_Message_equalFrom.induct) (auto simp: MsgFields_simps)

lemma Message_equal_ok:
  "Message_ok m \<Longrightarrow> Message_ok m' \<Longrightarrow> Message_EqualMessage m m' = Some (m = m')"
  "list_all Message_ok ms \<Longrightarrow> list_all Message_ok ms' \<Longrightarrow> length ms = length ms' \<Longrightarrow> Message_equalFrom ms ms' = Some (ms = ms')"
proof (induction m m' and ms ms' rule: Message_EqualMessage_Message_equalFrom.induct)
  case (1 x xs y ys)
  then show ?case by (auto simp: MsgFields_equal_ok)
qed auto

interpretation messageOps: proto_message Message_SizeMessage Message_MarshalAppend Message_UnmarshalMessage
  "Msg Message0 []" Message_ok Message_need Message_mergeMessage Message_EqualMessage
proof unfold_locales
  fix m a b c m'
  show "Message_mergeMessage (Msg Message0 []) m = m" by (rule Message_merge_zero)
  show "Message_mergeMessage m (Msg Message0 []) = m" by (cases m) (simp add: MsgFields_simps)
  show "Message_mergeMessage (Message_mergeMessage a b) c = Message_mergeMessage a (Message_mergeMessage b c)"
    by (cases a; cases b; cases c) (simp add: MsgFields_simps Message_merge_zero)
  show "Message_EqualMessage m m = Some True" by (rule Message_equal_refl(1)) simp
  show "Message_EqualMessage m m' = Some (m = m')" if "Message_ok m" "Message_ok m'" using that by (rule Message_equal_ok(1))
qed

text \<open>
  Copies have the value of the original, and every message, whatever unknown bytes it has kept, equals
  its copy; merging is associative and the empty message is neutral on both sides.
\<close>

lemma message_merge_laws:
  "Message_CloneMessage x = x" "proto_Equal Message_EqualMessage x (Message_CloneMessage x) = Some True"
  "Message_mergeMessage (Message_mergeMessage a b) c = Message_mergeMessage a (Message_mergeMessage b c)"
  "Message_mergeMessage (Msg Message0 []) a = a" "Message_mergeMessage a (Msg Message0 []) = a"
  unfolding Message_CloneMessage_def
  by (rule messageOps.clone_eq messageOps.equal_clone messageOps.merge_assoc messageOps.merge_zero messageOps.merge_zero_right)+

section \<open>Properties\<close>

text \<open>
  C23. Two messages without unknown fields are equal for \<^verbatim>\<open>proto.Equal\<close> exactly if they are written in
  the same bytes, and comparing with a copy is comparing with the original.
\<close>

theorem message_equal_iff_same_bytes:
  assumes "Message_ok m" and "Message_ok m'" and "Message_need m \<le> 10000" and "Message_need m' \<le> 10000"
    and "Message_SizeMessage m < 2 ^ 63"
  shows "proto_Equal Message_EqualMessage (Some m) (Message_CloneMessage (Some m')) =
    Some (Message_MarshalAppend [] m = Message_MarshalAppend [] m')"
  using messageOps.equal_encoding [OF assms] by (simp add: message_merge_laws proto_Equal_def)

theorem message_equal_iff_same_bytes_witness:
  "Message_EqualMessage (Msg (Message0\<lparr>mTerm := Some 3\<rparr>) []) (Msg (Message0\<lparr>mIndex := Some 3\<rparr>) []) = Some False \<and>
   Message_MarshalAppend [] (Msg (Message0\<lparr>mTerm := Some 3\<rparr>) []) \<noteq> Message_MarshalAppend [] (Msg (Message0\<lparr>mIndex := Some 3\<rparr>) [])"
proof -
  have "Message_EqualMessage (Msg (Message0\<lparr>mTerm := Some 3\<rparr>) []) (Msg (Message0\<lparr>mIndex := Some 3\<rparr>) []) = Some False"
    by (simp add: MsgFields_equal_def Message0_def equalEach_def)
  moreover have "Message_SizeMessage (Msg (Message0\<lparr>mTerm := Some 3\<rparr>) []) < 2 ^ 63"
    using sizeVarint_bounds(2) by (simp add: Message0_def sizeOpt_def sizeOptBytes_def sizeOptMsg_def sizeVarint_small)
  ultimately show ?thesis
    using message_equal_iff_same_bytes [of "Msg (Message0\<lparr>mTerm := Some 3\<rparr>) []" "Msg (Message0\<lparr>mIndex := Some 3\<rparr>) []"]
    by (simp add: Message0_def message_merge_laws proto_Equal_def)
qed

end
