(* ===== verification/GoText.thy ===== *)
theory GoText
  imports Prelude "HOL-Library.Sublist"
begin

text \<open>
  Go's byte and string functions that the tools use. A \<^verbatim>\<open>[]byte\<close> or \<^verbatim>\<open>string\<close> of text is a
  \<open>char list\<close>: a \<open>char\<close> of HOL is one byte. The regular expressions of the tools are
  written as small deterministic scanners over \<open>eat\<close> and \<open>eat1\<close>: in each of them the
  character after a repetition is not one the repetition accepts, so Go's leftmost-first
  matching and the scanner agree.
\<close>

section \<open>Scanning\<close>

abbreviation NL :: char where "NL \<equiv> CHR 0x0A"
abbreviation CR :: char where "CR \<equiv> CHR 0x0D"
abbreviation TAB :: char where "TAB \<equiv> CHR 0x09"

text \<open>A literal, and a non-empty run of characters of a class.\<close>

definition eat :: "string \<Rightarrow> string \<Rightarrow> string option" where
  "eat p s = (if prefix p s then Some (drop (length p) s) else None)"

definition eat1 :: "(char \<Rightarrow> bool) \<Rightarrow> string \<Rightarrow> string option" where
  "eat1 P s = (case s of [] \<Rightarrow> None | c # t \<Rightarrow> if P c then Some (dropWhile P t) else None)"

definition isDigit :: "char \<Rightarrow> bool" where
  "isDigit c \<longleftrightarrow> 0x30 \<le> (of_char c :: nat) \<and> (of_char c :: nat) \<le> 0x39"

definition isHex :: "char \<Rightarrow> bool" where
  "isHex c \<longleftrightarrow> isDigit c \<or> 0x61 \<le> (of_char c :: nat) \<and> (of_char c :: nat) \<le> 0x66"

text \<open>\<^verbatim>\<open>bytes.Contains\<close>, \<^verbatim>\<open>bytes.Index\<close> and \<^verbatim>\<open>bytes.Count\<close> (of a pattern that is not empty).\<close>

fun bytes_Contains :: "string \<Rightarrow> string \<Rightarrow> bool" where
  "bytes_Contains [] p \<longleftrightarrow> p = []"
| "bytes_Contains (c # s) p \<longleftrightarrow> prefix p (c # s) \<or> bytes_Contains s p"

fun bytes_Index :: "string \<Rightarrow> string \<Rightarrow> nat option" where
  "bytes_Index [] p = (if p = [] then Some 0 else None)"
| "bytes_Index (c # s) p = (if prefix p (c # s) then Some 0 else map_option Suc (bytes_Index s p))"

function bytes_Count :: "string \<Rightarrow> string \<Rightarrow> nat" where
  "bytes_Count s p = (if p = [] \<or> s = [] then 0
     else if prefix p s then Suc (bytes_Count (drop (length p) s) p) else bytes_Count (tl s) p)"
  by pat_completeness auto
termination by (relation "measure (\<lambda>(s, p). length s)") auto

declare bytes_Count.simps [simp del]

text \<open>\<^verbatim>\<open>bytes.Split(s, "\n")\<close>: the last part is what follows the last newline.\<close>

fun split_lines :: "string \<Rightarrow> string list" where
  "split_lines [] = [[]]"
| "split_lines (c # s) = (if c = NL then [] # split_lines s
     else (case split_lines s of [] \<Rightarrow> [[c]] | l # ls \<Rightarrow> (c # l) # ls))"

abbreviation first_line :: "string \<Rightarrow> string" where
  "first_line \<equiv> takeWhile (\<lambda>c. c \<noteq> NL)"

section \<open>UTF-8\<close>

text \<open>\<^verbatim>\<open>utf8.Valid\<close>: the ranges of the first bytes and of the second byte after each of them.\<close>

definition contByte :: "char \<Rightarrow> bool" where
  "contByte c \<longleftrightarrow> 0x80 \<le> (of_char c :: nat) \<and> (of_char c :: nat) \<le> 0xBF"

definition second3 :: "nat \<Rightarrow> nat \<Rightarrow> bool" where
  "second3 a b \<longleftrightarrow> (if a = 0xE0 then 0xA0 \<le> b \<and> b \<le> 0xBF
     else if a = 0xED then 0x80 \<le> b \<and> b \<le> 0x9F else 0x80 \<le> b \<and> b \<le> 0xBF)"

definition second4 :: "nat \<Rightarrow> nat \<Rightarrow> bool" where
  "second4 a b \<longleftrightarrow> (if a = 0xF0 then 0x90 \<le> b \<and> b \<le> 0xBF
     else if a = 0xF4 then 0x80 \<le> b \<and> b \<le> 0x8F else 0x80 \<le> b \<and> b \<le> 0xBF)"

fun utf8_Valid :: "string \<Rightarrow> bool" where
  "utf8_Valid [] \<longleftrightarrow> True"
| "utf8_Valid (a # s) \<longleftrightarrow>
     (if (of_char a :: nat) < 0x80 then utf8_Valid s
      else if 0xC2 \<le> (of_char a :: nat) \<and> (of_char a :: nat) \<le> 0xDF then
        (case s of b # s' \<Rightarrow> contByte b \<and> utf8_Valid s' | _ \<Rightarrow> False)
      else if 0xE0 \<le> (of_char a :: nat) \<and> (of_char a :: nat) \<le> 0xEF then
        (case s of b # c # s' \<Rightarrow> second3 (of_char a) (of_char b) \<and> contByte c \<and> utf8_Valid s' | _ \<Rightarrow> False)
      else if 0xF0 \<le> (of_char a :: nat) \<and> (of_char a :: nat) \<le> 0xF4 then
        (case s of b # c # d # s' \<Rightarrow> second4 (of_char a) (of_char b) \<and> contByte c \<and> contByte d \<and> utf8_Valid s' | _ \<Rightarrow> False)
      else False)"

section \<open>Facts\<close>

lemma eat_append [simp]: "eat p (p @ s) = Some s"
  by (simp add: eat_def)

lemma eat_Some: "eat p s = Some t \<longleftrightarrow> s = p @ t"
  by (auto simp: eat_def prefix_def split: if_split_asm)

lemma bytes_Contains_iff: "bytes_Contains s p \<longleftrightarrow> sublist p s"
  by (induction s) (auto simp: sublist_Cons_right)

lemma bytes_Index_None: "bytes_Index s p = None \<longleftrightarrow> \<not> sublist p s"
  by (induction s) (auto simp: sublist_Cons_right)


lemma split_lines_first: "split_lines (l @ NL # s) = l # split_lines s" if "NL \<notin> set l"
  using that by (induction l) auto

lemma utf8_Valid_ascii: "(\<forall>c \<in> set s. (of_char c :: nat) < 0x80) \<Longrightarrow> utf8_Valid (s @ t) = utf8_Valid t"
  by (induction s) auto

lemma bytes_Count_0: "p \<noteq> [] \<Longrightarrow> bytes_Count s p = 0 \<longleftrightarrow> \<not> sublist p s"
proof (induction s p rule: bytes_Count.induct)
  case (1 s p)
  show ?case
  proof (cases s)
    case (Cons c t)
    with 1 show ?thesis by (subst bytes_Count.simps) (auto simp: sublist_Cons_right)
  qed (use 1 in \<open>simp add: bytes_Count.simps\<close>)
qed

lemma bytes_Index_prefix: "bytes_Index s p = Some i \<Longrightarrow> \<exists>t. drop i s = p @ t"
  by (induction s arbitrary: i) (auto simp: prefix_def split: if_split_asm)

lemma bytes_Index_before: "bytes_Index s p = Some i \<Longrightarrow> p \<noteq> [] \<Longrightarrow> \<not> sublist p (take i s)"
proof (induction s arbitrary: i)
  case (Cons c s)
  then show ?case
    by (auto simp: sublist_Cons_right split: if_split_asm) (metis append_take_drop_id prefix_prefix take_Suc_Cons)
qed simp

end
