(* ===== verification/CrashView.thy ===== *)
theory CrashView
  imports GoText
begin

text \<open>
  The abort classification of the coverage harness (tools/coverageharness: split.go,
  abortkind.go, crashview.go, observe.go): from the standard error of an oracle run and the
  crash report the Go run time wrote to a channel of its own, it recovers what the program
  printed, the kind of the abort and its message, and refuses whatever is ambiguous.
  \<^verbatim>\<open>runtime.Version()\<close> of the harness binary is a parameter. The refusal texts are values of
  a datatype; reading the files and the JSON rendering of the result are left out.
\<close>

section \<open>Data\<close>

datatype abort_error =
    ErrNoTrailer | ErrOkTrailer | ErrNoRaceReport | ErrRaceOutput nat | ErrUnknownStatus string | ErrOutputUtf8
  | ErrVersion | ErrNoSystemHeader | ErrUnknownFrame | ErrRuntimeStackPanic | ErrFrameMismatch
  | ErrNoChannel | ErrReportNoAck | ErrNoAck | ErrBadAck
  | ErrNoTraceHeader | ErrUnindented | ErrSecondBoundary | ErrNoMarker
  | ErrExitStatus | ErrEmptyReport | ErrNotSuffix | ErrAmbiguousFatal nat nat | ErrGluedMarker
  | ErrReportOnNonAbort | ErrKindMismatch string string | ErrMessageStatus string

record crashEvidence =
  ceEnabled :: bool
  ceReport :: string
  ceAck :: string

record abortView =
  avKind :: string
  avMessage :: string
  avOutput :: string

definition crashAckText :: string where
  "crashAckText = ''registered'' @ [NL]"

section \<open>The regular expressions\<close>

text \<open>\<^verbatim>\<open>exitTrailerRe\<close>: the last line is \<^verbatim>\<open>exit status N\<close>; the result is what precedes it.\<close>

definition isTrailer :: "string \<Rightarrow> bool" where
  "isTrailer s = (case eat ''exit status '' s of None \<Rightarrow> False
     | Some t \<Rightarrow> (case eat1 isDigit t of None \<Rightarrow> False | Some t \<Rightarrow> t = [NL]))"

fun findTrailer :: "bool \<Rightarrow> string \<Rightarrow> string option" where
  "findTrailer bol [] = None"
| "findTrailer bol (c # s) =
     (if bol \<and> isTrailer (c # s) then Some [] else map_option ((#) c) (findTrailer (c = NL) s))"

definition exitTrailer :: "string \<Rightarrow> string option" where
  "exitTrailer s = findTrailer True s"

text \<open>The part \<^verbatim>\<open>gp=0x\<dots> m=\<dots>\<close> of a goroutine header and the state in brackets that ends it.\<close>

definition gpPart :: "string \<Rightarrow> string option" where
  "gpPart s = do {
     s \<leftarrow> eat '' gp=0x'' s;
     s \<leftarrow> eat1 isHex s;
     s \<leftarrow> eat '' m='' s;
     case eat ''nil'' s of
       Some t \<Rightarrow> Some t
     | None \<Rightarrow> do {
         s \<leftarrow> eat1 isDigit (case eat ''-'' s of Some t \<Rightarrow> t | None \<Rightarrow> s);
         s \<leftarrow> eat '' mp=0x'' s;
         eat1 isHex s
       }
   }"

definition bracketPart :: "string \<Rightarrow> bool" where
  "bracketPart s = (case eat '' ['' s of None \<Rightarrow> False
     | Some t \<Rightarrow> suffix '']:'' t \<and> (\<forall>c \<in> set (take (length t - 2) t). c \<noteq> CR \<and> c \<noteq> NL))"

definition goroutineNo :: "string \<Rightarrow> string option" where
  "goroutineNo s = do { s \<leftarrow> eat ''goroutine '' s; eat1 isDigit s }"

definition systemGoroutineHeader :: "string \<Rightarrow> bool" where
  "systemGoroutineHeader s = (case goroutineNo s of None \<Rightarrow> False
     | Some t \<Rightarrow> (case gpPart t of None \<Rightarrow> False | Some u \<Rightarrow> bracketPart u))"

text \<open>\<^verbatim>\<open>abortTraceHeaderRe\<close>: a whole line that is a goroutine header, or \<^verbatim>\<open>runtime stack:\<close>.\<close>

definition headerLine :: "string \<Rightarrow> bool" where
  "headerLine s \<longleftrightarrow> s = ''runtime stack:'' \<or> systemGoroutineHeader s \<or>
     (case goroutineNo s of None \<Rightarrow> False | Some t \<Rightarrow> bracketPart t)"

definition headerAt :: "string \<Rightarrow> bool" where
  "headerAt s \<longleftrightarrow> headerLine (first_line s) \<and> NL \<in> set s"

text \<open>The match, leftmost: what precedes it and what starts with it (the newline before it included).\<close>

fun findHeaderNL :: "string \<Rightarrow> (string \<times> string) option" where
  "findHeaderNL [] = None"
| "findHeaderNL (c # s) =
     (if c = NL \<and> headerAt s then Some ([], c # s)
      else map_option (\<lambda>(h, t). (c # h, t)) (findHeaderNL s))"

definition abortTraceHeader :: "string \<Rightarrow> (string \<times> string) option" where
  "abortTraceHeader s = (if headerAt s then Some ([], s) else findHeaderNL s)"

text \<open>\<^verbatim>\<open>terminalFrame\<close>: the name of the function.\<close>

definition callArgs :: "string \<Rightarrow> bool" where
  "callArgs s = (case eat ''('' s of None \<Rightarrow> False
     | Some t \<Rightarrow> suffix '')'' t \<and> (\<forall>c \<in> set (butlast t). c \<noteq> CR \<and> c \<noteq> NL))"

definition terminalFrame :: "string \<Rightarrow> string option" where
  "terminalFrame s = List.find (\<lambda>f. case eat f s of None \<Rightarrow> False | Some t \<Rightarrow> callArgs t)
     [''panic'', ''runtime.fatal'', ''runtime.throw'']"

text \<open>\<^verbatim>\<open>terminalSource\<close>: the line number in the run time's panic.go.\<close>

definition hexField :: "string \<Rightarrow> string \<Rightarrow> string option" where
  "hexField name s = do { s \<leftarrow> eat name s; eat1 isHex s }"

definition posTail :: "string \<Rightarrow> bool" where
  "posTail s \<longleftrightarrow> do {
     s \<leftarrow> hexField '' +0x'' s;
     s \<leftarrow> hexField '' fp=0x'' s;
     s \<leftarrow> hexField '' sp=0x'' s;
     hexField '' pc=0x'' s
   } = Some []"

definition panicLine :: "string \<Rightarrow> string option" where
  "panicLine s = (case eat ''/src/runtime/panic.go:'' s of None \<Rightarrow> None
     | Some t \<Rightarrow> List.find (\<lambda>n. case eat n t of None \<Rightarrow> False | Some u \<Rightarrow> posTail u) [''879'', ''1253'', ''1229''])"

fun findPanicLine :: "string \<Rightarrow> string option" where
  "findPanicLine s = (case panicLine s of Some n \<Rightarrow> Some n
     | None \<Rightarrow> (case s of [] \<Rightarrow> None
         | c # s' \<Rightarrow> if c = TAB \<or> c = CR \<or> c = NL then None else findPanicLine s'))"

declare findPanicLine.simps [simp del]

definition terminalSource :: "string \<Rightarrow> string option" where
  "terminalSource s = do { s \<leftarrow> eat (TAB # ''/'') s; findPanicLine s }"

text \<open>\<^verbatim>\<open>signalLineRe\<close>: cut at the newline that ends the line before a final \<^verbatim>\<open>[signal \<dots>]\<close> line.\<close>

definition isSignalLine :: "string \<Rightarrow> bool" where
  "isSignalLine s = (case eat ''[signal '' s of None \<Rightarrow> False
     | Some t \<Rightarrow> suffix (CHR '']'' # [NL]) t \<and> NL \<notin> set (take (length t - 2) t))"

fun cutSignal :: "string \<Rightarrow> string" where
  "cutSignal [] = []"
| "cutSignal (c # s) = (if c = NL \<and> isSignalLine s then [c] else c # cutSignal s)"

section \<open>split.go\<close>

definition stripTrailer :: "string \<Rightarrow> abort_error + string" where
  "stripTrailer stderr = (case exitTrailer stderr of None \<Rightarrow> Inl ErrNoTrailer | Some body \<Rightarrow> Inr body)"

definition splitNonAbortStderr :: "string \<Rightarrow> string \<Rightarrow> abort_error + string" where
  "splitNonAbortStderr stderr status =
     (case (if status = ''ok'' then
              (if exitTrailer stderr \<noteq> None then Inl ErrOkTrailer else Inr stderr)
            else if status = ''race'' then
              (case stripTrailer stderr of Inl e \<Rightarrow> Inl e
               | Inr body \<Rightarrow>
                   (case bytes_Index body ''=================='' of
                      None \<Rightarrow> Inl ErrNoRaceReport
                    | Some i \<Rightarrow> if i \<noteq> 0 then Inl (ErrRaceOutput i) else Inr []))
            else Inl (ErrUnknownStatus status)) of
        Inl e \<Rightarrow> Inl e
      | Inr pre \<Rightarrow> if \<not> utf8_Valid pre then Inl ErrOutputUtf8 else Inr pre)"

section \<open>abortkind.go\<close>

definition pinnedTraceKind :: "string \<Rightarrow> string \<Rightarrow> abort_error + string" where
  "pinnedTraceKind version trace =
     (if version \<noteq> ''go1.26.5'' then Inl ErrVersion
      else let lines = split_lines trace in
        if length lines < 3 \<or> \<not> (lines ! 0 = ''runtime stack:'' \<or> systemGoroutineHeader (lines ! 0))
        then Inl ErrNoSystemHeader
        else (case (terminalFrame (lines ! 1), terminalSource (lines ! 2)) of
            (Some f, Some n) \<Rightarrow>
              if f = ''panic'' \<and> n = ''879'' then
                (if lines ! 0 = ''runtime stack:'' then Inl ErrRuntimeStackPanic else Inr ''panic'')
              else if f = ''runtime.fatal'' \<and> n = ''1253'' \<or> f = ''runtime.throw'' \<and> n = ''1229''
              then Inr ''fatal''
              else Inl ErrFrameMismatch
          | _ \<Rightarrow> Inl ErrUnknownFrame))"

section \<open>crashview.go\<close>

definition evidence_validate :: "crashEvidence \<Rightarrow> abort_error option" where
  "evidence_validate e =
     (if \<not> ceEnabled e then Some ErrNoChannel
      else if length (ceAck e) = 0 then
        (if length (ceReport e) \<noteq> 0 then Some ErrReportNoAck else Some ErrNoAck)
      else if ceAck e \<noteq> crashAckText then Some ErrBadAck
      else None)"

text \<open>The loop over the chain: is some newline, other than a last byte, not followed by a tab?\<close>

fun unindented :: "string \<Rightarrow> bool" where
  "unindented (a # b # s) \<longleftrightarrow> a = NL \<and> b \<noteq> TAB \<or> unindented (b # s)"
| "unindented _ \<longleftrightarrow> False"

definition originKind :: "string \<Rightarrow> string \<Rightarrow> abort_error + string" where
  "originKind version report =
     (case abortTraceHeader report of
        None \<Rightarrow> Inl ErrNoTraceHeader
      | Some (head, trace) \<Rightarrow>
          if unindented (cutSignal head) then Inl ErrUnindented
          else let trace = (if hd trace = NL then tl trace else trace)
            in case pinnedTraceKind version trace of
                 Inl e \<Rightarrow> Inl e
               | Inr kind \<Rightarrow>
                   let tail = tl (dropWhile (\<lambda>c. c \<noteq> NL) trace)
                   in if bytes_Contains tail ''panic: '' \<or> bytes_Contains tail ''fatal error: '' \<or>
                        bytes_Contains tail (NL # ''runtime stack:'')
                      then Inl ErrSecondBoundary else Inr kind)"

definition makeAbortView :: "string \<Rightarrow> string \<Rightarrow> string \<Rightarrow> abort_error + abortView" where
  "makeAbortView kind report out =
     (if \<not> utf8_Valid out then Inl ErrOutputUtf8
      else case eat (if kind = ''fatal'' then ''fatal error: '' else ''panic: '') report of
        None \<Rightarrow> Inl ErrNoMarker
      | Some rest \<Rightarrow>
          let message = first_line rest;
              kind = (if kind = ''fatal'' \<and> message = ''all goroutines are asleep - deadlock!''
                then ''deadlock'' else kind)
          in Inr \<lparr>avKind = kind, avMessage = message, avOutput = out\<rparr>)"

definition exit2 :: string where
  "exit2 = ''exit status 2'' @ [NL]"

definition checkedAbortView :: "string \<Rightarrow> string \<Rightarrow> crashEvidence \<Rightarrow> abort_error + abortView" where
  "checkedAbortView version stderr e =
     (case evidence_validate e of Some err \<Rightarrow> Inl err
      | None \<Rightarrow>
          if \<not> suffix (NL # exit2) stderr then Inl ErrExitStatus
          else let body = take (length stderr - length exit2) stderr
          in if length (ceReport e) = 0 then Inl ErrEmptyReport
          else if \<not> suffix (ceReport e) body then Inl ErrNotSuffix
          else case originKind version (ceReport e) of
              Inl err \<Rightarrow> Inl err
            | Inr kind \<Rightarrow>
                let head = take (length body - length (ceReport e)) body
                in if kind = ''panic'' then makeAbortView kind (ceReport e) head
                else let panics = bytes_Count head ''panic: ''; fatals = bytes_Count head ''fatal error: ''
                  in if panics \<noteq> 0 \<or> fatals \<noteq> 1 then Inl (ErrAmbiguousFatal panics fatals)
                  else (case bytes_Index head ''fatal error: '' of
                      None \<Rightarrow> Inl (ErrAmbiguousFatal panics fatals)
                    | Some start \<Rightarrow>
                        if start \<noteq> 0 \<and> head ! (start - 1) \<noteq> NL then Inl ErrGluedMarker
                        else makeAbortView kind (drop start body) (take start body)))"

definition abortKind :: "string \<Rightarrow> string \<Rightarrow> crashEvidence \<Rightarrow> abort_error + string" where
  "abortKind version stderr e =
     (case checkedAbortView version stderr e of Inl err \<Rightarrow> Inl err | Inr view \<Rightarrow> Inr (avKind view))"

definition observedOutput :: "string \<Rightarrow> string \<Rightarrow> string \<Rightarrow> crashEvidence \<Rightarrow> abort_error + string" where
  "observedOutput version stderr status e =
     (case evidence_validate e of Some err \<Rightarrow> Inl err
      | None \<Rightarrow>
          if status = ''ok'' \<or> status = ''race'' then
            (if length (ceReport e) \<noteq> 0 then Inl ErrReportOnNonAbort else splitNonAbortStderr stderr status)
          else (case checkedAbortView version stderr e of
              Inl err \<Rightarrow> Inl err
            | Inr view \<Rightarrow> if avKind view \<noteq> status then Inl (ErrKindMismatch (avKind view) status)
                else Inr (avOutput view)))"

text \<open>
  The JSON string literal of valid UTF-8 with HTML escaping off: quotes, backslashes and control
  characters are escaped, and the two line separators of Unicode.
\<close>

definition hexDigit :: "nat \<Rightarrow> char" where
  "hexDigit n = ''0123456789abcdef'' ! n"

fun jsonBody :: "string \<Rightarrow> string" where
  "jsonBody [] = []"
| "jsonBody (c # s) =
     (if c = CHR 0xE2 \<and> take 2 s = [CHR 0x80, CHR 0xA8] then CHR 0x5C # ''u2028'' @ jsonBody (drop 2 s)
      else if c = CHR 0xE2 \<and> take 2 s = [CHR 0x80, CHR 0xA9] then CHR 0x5C # ''u2029'' @ jsonBody (drop 2 s)
      else (if c = CHR 0x22 \<or> c = CHR 0x5C then [CHR 0x5C, c]
        else if c = CHR 0x08 then CHR 0x5C # ''b'' else if c = CHR 0x0C then CHR 0x5C # ''f''
        else if c = NL then CHR 0x5C # ''n'' else if c = CR then CHR 0x5C # ''r''
        else if c = TAB then CHR 0x5C # ''t''
        else if (of_char c :: nat) < 0x20
        then CHR 0x5C # ''u00'' @ [hexDigit (of_char c div 16), hexDigit (of_char c mod 16)]
        else [c]) @ jsonBody s)"

definition outputLiteral :: "string \<Rightarrow> abort_error + string" where
  "outputLiteral s = (if \<not> utf8_Valid s then Inl ErrOutputUtf8
     else Inr (CHR 0x22 # jsonBody s @ [CHR 0x22]))"

definition observedAbortMessage :: "string \<Rightarrow> string \<Rightarrow> string \<Rightarrow> crashEvidence \<Rightarrow> abort_error + string" where
  "observedAbortMessage version stderr status e =
     (if status \<noteq> ''panic'' \<and> status \<noteq> ''fatal'' then Inl (ErrMessageStatus status)
      else case checkedAbortView version stderr e of
        Inl err \<Rightarrow> Inl err
      | Inr view \<Rightarrow> if avKind view \<noteq> status then Inl (ErrKindMismatch (avKind view) status)
          else outputLiteral (avMessage view))"

lemma hexDigit_printable: "n < 16 \<Longrightarrow> 0x20 \<le> (of_char (hexDigit n) :: nat)"
  by (auto simp: hexDigit_def less_Suc_eq numeral_eq_Suc)

text \<open>The literal fits on one line: it holds no control character.\<close>

lemma jsonBody_printable: "c \<in> set (jsonBody s) \<Longrightarrow> 0x20 \<le> (of_char c :: nat)"
proof (induction s rule: jsonBody.induct)
  case (2 a s)
  have "(of_char a :: nat) < 0x20 \<Longrightarrow> (of_char a :: nat) div 16 < 16 \<and> (of_char a :: nat) mod 16 < 16" by simp
  with 2 hexDigit_printable show ?case by (auto simp: not_less split: if_split_asm)
qed simp

section \<open>Finding the trace\<close>

lemma headerLine_start: "headerLine s \<Longrightarrow> s \<noteq> [] \<and> (hd s = CHR ''g'' \<or> hd s = CHR ''r'')"
  by (cases s) (auto simp: headerLine_def systemGoroutineHeader_def goroutineNo_def eat_Some split: option.split_asm elim!: bindE)

lemma system_not_stack: "\<not> systemGoroutineHeader ''runtime stack:''"
  by (simp add: systemGoroutineHeader_def goroutineNo_def eat_def)

lemma headerAt_start: "headerAt (c # s) \<Longrightarrow> c = CHR ''g'' \<or> c = CHR ''r''"
  using headerLine_start [of "first_line (c # s)"] by (auto simp: headerAt_def split: if_split_asm)

lemma isSignalLine_start: "isSignalLine s \<Longrightarrow> s \<noteq> [] \<and> hd s = CHR ''[''"
  by (cases s) (auto simp: isSignalLine_def eat_def split: option.split_asm if_split_asm)

lemma unindented_tail: "\<not> unindented (c # s) \<Longrightarrow> \<not> unindented s \<and> (c = NL \<longrightarrow> s = [] \<or> hd s = TAB)"
  by (cases s) auto

text \<open>In a chain whose lines after the first are indented no header and no signal line is found.\<close>

lemma findHeader_chain: "\<not> unindented h \<Longrightarrow> headerAt s \<Longrightarrow> findHeaderNL (h @ NL # s) = Some (h, NL # s)"
proof (induction h)
  case (Cons c h)
  have "\<not> (c = NL \<and> headerAt (h @ NL # s))"
    using unindented_tail [OF Cons.prems(1)] headerAt_start by (cases h) fastforce+
  with Cons unindented_tail show ?case by auto
qed simp

lemma cutSignal_chain: "\<not> unindented h \<Longrightarrow> cutSignal h = h"
proof (induction h)
  case (Cons c h)
  have "\<not> (c = NL \<and> isSignalLine h)"
    using unindented_tail [OF Cons.prems] isSignalLine_start [of h] by auto
  with Cons unindented_tail show ?case by auto
qed simp

lemma findHeader_prefix:
  "\<not> unindented h \<Longrightarrow> \<not> headerAt s \<Longrightarrow> findHeaderNL s = Some (a, b) \<Longrightarrow> findHeaderNL (h @ s) = Some (h @ a, b)"
proof (induction h)
  case (Cons c h)
  have "\<not> (c = NL \<and> headerAt (h @ s))"
    using unindented_tail [OF Cons.prems(1)] headerAt_start Cons.prems(2) by (cases h) fastforce+
  with Cons unindented_tail show ?case by auto
qed simp

lemma cutSignal_signal:
  "\<not> unindented h \<Longrightarrow> h \<noteq> [] \<Longrightarrow> last h = NL \<Longrightarrow> isSignalLine s \<Longrightarrow> cutSignal (h @ s) = h"
proof (induction h)
  case (Cons c h)
  show ?case
  proof (cases "h = []")
    case False
    then obtain d h' where h: "h = d # h'" by (cases h) auto
    have "\<not> (c = NL \<and> isSignalLine (h @ s))"
      using unindented_tail [OF Cons.prems(1)] isSignalLine_start [of "h @ s"] h by auto
    with Cons False unindented_tail show ?thesis by auto
  qed (use Cons.prems in simp)
qed simp

lemma findHeaderNL_Some: "findHeaderNL s = Some (h, t) \<Longrightarrow> s = h @ t \<and> (\<exists>t'. t = NL # t' \<and> headerAt t')"
  by (induction s arbitrary: h) (auto split: if_split_asm)

section \<open>What the run time writes\<close>

text \<open>\<^verbatim>\<open>printindented\<close>: every newline of a panic value is followed by a tab.\<close>

fun indent :: "string \<Rightarrow> string" where
  "indent [] = []"
| "indent (c # s) = (if c = NL then NL # TAB # indent s else c # indent s)"

lemma indent_chain: "\<not> unindented (indent s @ [NL])"
proof (induction s)
  case (Cons c s)
  then show ?case by (cases "indent s @ [NL]") auto
qed simp

lemma first_line_indent: "first_line (indent s @ NL # t) = first_line s"
  by (induction s) auto

text \<open>
  A report: the chain of the panics, from the first one raised to the last (\<^verbatim>\<open>printpanics\<close>, each
  later one on an indented line of its own, a mark such as \<^verbatim>\<open>[recovered]\<close> being part of the
  text), the line \<^verbatim>\<open>dopanic_m\<close> adds when a signal raised the panic, an empty line, the trace.
\<close>

definition later_panics :: "string list \<Rightarrow> string" where
  "later_panics ps = concat (map (\<lambda>p. NL # TAB # ''panic: '' @ indent p) ps)"

definition signal_line :: "string option \<Rightarrow> string" where
  "signal_line sig = (case sig of None \<Rightarrow> [] | Some t \<Rightarrow> ''[signal '' @ t @ CHR '']'' # [NL])"

definition panic_report ::
    "string \<Rightarrow> string list \<Rightarrow> string option \<Rightarrow> string \<Rightarrow> string \<Rightarrow> string \<Rightarrow> string \<Rightarrow> string" where
  "panic_report payload later sig header args source frames =
     ''panic: '' @ indent payload @ later_panics later @ NL # signal_line sig @
     NL # header @ NL # ''panic('' @ args @ '')'' @ NL # source @ NL # frames"

text \<open>The chain of several panics is printed like one panic whose value has their lines.\<close>

lemma indent_append: "indent (s @ t) = indent s @ indent t"
  by (induction s) auto

lemma later_panics_indent:
  "indent payload @ later_panics later =
     indent (payload @ concat (map (\<lambda>p. NL # ''panic: '' @ p) later))"
  by (induction later arbitrary: payload) (auto simp: later_panics_def indent_append)

lemma no_newline_chain: "NL \<notin> set s \<Longrightarrow> \<not> unindented (s @ [NL])"
proof (induction s)
  case (Cons c s)
  then show ?case by (cases "s @ [NL]") auto
qed simp

lemma signal_line_ok:
  assumes "NL \<notin> set t"
  shows "\<not> unindented (signal_line (Some t))" and "isSignalLine (signal_line (Some t))"
proof -
  show "\<not> unindented (signal_line (Some t))"
    using no_newline_chain [of "''[signal '' @ t @ '']''"] assms by (simp add: signal_line_def)
  show "isSignalLine (signal_line (Some t))"
    using assms by (auto simp: isSignalLine_def signal_line_def eat_def suffix_def)
qed

text \<open>The trace of a panic: the system header, the frame of \<^verbatim>\<open>gopanic\<close> and its pinned position.\<close>

definition panic_trace :: "string option \<Rightarrow> string \<Rightarrow> string \<Rightarrow> string \<Rightarrow> string \<Rightarrow> bool" where
  "panic_trace sig header args source frames \<longleftrightarrow> (case sig of None \<Rightarrow> True | Some t \<Rightarrow> NL \<notin> set t) \<and>
     systemGoroutineHeader header \<and> NL \<notin> set header \<and>
     CR \<notin> set args \<and> NL \<notin> set args \<and> terminalSource source = Some ''879'' \<and> NL \<notin> set source \<and>
     (frames = [] \<or> last frames = NL) \<and>
     (\<forall>p \<in> {''panic: '', ''fatal error: '', NL # ''runtime stack:''}.
        \<not> sublist p (''panic('' @ args @ '')'' @ NL # source @ NL # frames))"

lemma terminalFrame_panic: "CR \<notin> set args \<Longrightarrow> NL \<notin> set args \<Longrightarrow> terminalFrame (''panic('' @ args @ '')'') = Some ''panic''"
  by (auto simp: terminalFrame_def callArgs_def eat_def suffix_def)

lemma originKind_panic:
  assumes "panic_trace sig header args source frames"
  shows "originKind ''go1.26.5'' (panic_report payload later sig header args source frames) = Inr ''panic''"
proof -
  note tr = assms [unfolded panic_trace_def]
  let ?t = "header @ NL # ''panic('' @ args @ '')'' @ NL # source @ NL # frames"
  let ?p = "payload @ concat (map (\<lambda>p. NL # ''panic: '' @ p) later)"
  let ?h = "''panic: '' @ indent ?p @ [NL]" and ?s = "signal_line sig"
  have h: "\<not> unindented ?h" using indent_chain [of ?p] by (cases "indent ?p @ [NL]") auto
  have fl: "first_line ?t = header" using tr by (auto simp: takeWhile_append)
  then have at: "headerAt ?t" using tr by (simp add: headerAt_def headerLine_def)
  have find: "findHeaderNL (?h @ ?s @ NL # ?t) = Some (?h @ ?s, NL # ?t)"
  proof (cases sig)
    case (Some t)
    have "\<not> headerAt (?s @ NL # ?t)"
      using headerAt_start by (fastforce simp: Some signal_line_def)
    moreover have "findHeaderNL (?s @ NL # ?t) = Some (?s, NL # ?t)"
      by (rule findHeader_chain [OF _ at]) (use signal_line_ok [of t] tr Some in simp)
    ultimately show ?thesis using findHeader_prefix [OF h] by blast
  qed (use findHeader_chain [OF h at] in \<open>simp add: signal_line_def\<close>)
  have cut: "cutSignal (?h @ ?s) = ?h"
  proof (cases sig)
    case (Some t)
    with tr show ?thesis using cutSignal_signal [OF h, of ?s] signal_line_ok(2) [of t] by simp
  qed (use cutSignal_chain [OF h] in \<open>simp add: signal_line_def\<close>)
  have "\<not> headerAt (?h @ ?s @ NL # ?t)"
    using headerAt_start [of _ "''anic: '' @ indent ?p @ [NL] @ ?s @ NL # ?t"] by auto
  then have "abortTraceHeader (?h @ ?s @ NL # ?t) = Some (?h @ ?s, NL # ?t)"
    using find by (simp only: abortTraceHeader_def if_False)
  moreover have "split_lines ?t = header # (''panic('' @ args @ '')'') # source # split_lines frames"
    using tr split_lines_first [of header] split_lines_first [of "''panic('' @ args @ '')''"] split_lines_first [of source] by simp
  then have "pinnedTraceKind ''go1.26.5'' ?t = Inr ''panic''"
    using tr terminalFrame_panic [of args] system_not_stack by (auto simp: pinnedTraceKind_def Let_def)
  moreover have "tl (dropWhile (\<lambda>c. c \<noteq> NL) ?t) = ''panic('' @ args @ '')'' @ NL # source @ NL # frames"
    using tr by (simp add: dropWhile_append)
  moreover have "panic_report payload later sig header args source frames = ?h @ ?s @ NL # ?t"
    using later_panics_indent [of payload later] by (simp add: panic_report_def)
  ultimately show ?thesis
    using tr cut h by (simp add: originKind_def Let_def bytes_Contains_iff)
qed

section \<open>Views\<close>

lemma evidence_validate_None: "evidence_validate e = None \<longleftrightarrow> ceEnabled e \<and> ceAck e = crashAckText"
  by (auto simp: evidence_validate_def crashAckText_def)

lemma suffix_cut: "suffix t s \<Longrightarrow> s = take (length s - length t) s @ t"
  by (auto simp: suffix_def)

text \<open>The bytes in front of the authenticated report, and the report itself.\<close>

lemma checkedAbortView_Inr:
  assumes "checkedAbortView version stderr e = Inr v"
  obtains (panic) hd where "ceEnabled e" and "ceAck e = crashAckText" and "stderr = hd @ ceReport e @ exit2"
      and "originKind version (ceReport e) = Inr ''panic''" and "makeAbortView ''panic'' (ceReport e) hd = Inr v"
  | (fatal) k hd i where "ceEnabled e" and "ceAck e = crashAckText" and "stderr = hd @ ceReport e @ exit2"
      and "originKind version (ceReport e) = Inr k" and "k \<noteq> ''panic''"
      and "bytes_Count hd ''panic: '' = 0" and "bytes_Count hd ''fatal error: '' = 1" and "bytes_Index hd ''fatal error: '' = Some i"
      and "i = 0 \<or> hd ! (i - 1) = NL" and "makeAbortView k (drop i (hd @ ceReport e)) (take i (hd @ ceReport e)) = Inr v"
proof -
  let ?body = "take (length stderr - length exit2) stderr"
  let ?hd = "take (length ?body - length (ceReport e)) ?body"
  have val: "evidence_validate e = None" and sx: "suffix (NL # exit2) stderr" and sr: "suffix (ceReport e) ?body"
    using assms by (auto simp: checkedAbortView_def Let_def split: option.split_asm if_split_asm)
  obtain k where k: "originKind version (ceReport e) = Inr k"
    using assms val sx sr by (auto simp: checkedAbortView_def Let_def split: if_split_asm sum.split_asm)
  have e: "ceEnabled e" "ceAck e = crashAckText" using val by (simp_all add: evidence_validate_None)
  have b: "?body = ?hd @ ceReport e" by (rule suffix_cut [OF sr])
  have "stderr = ?body @ exit2" using suffix_cut [of exit2 stderr] sx by (metis suffix_ConsD)
  then have st: "stderr = ?hd @ ceReport e @ exit2" using b by (metis append_assoc)
  note run = assms [unfolded checkedAbortView_def, simplified val option.case sx sr k sum.case Let_def]
  show thesis
  proof (cases "k = ''panic''")
    case True
    then show thesis using panic [OF e st] k run by (auto split: if_split_asm)
  next
    case False
    then show thesis using fatal [OF e st k False] run b by (auto split: if_split_asm option.split_asm)
  qed
qed

lemma originKind_range:
  assumes "originKind version report = Inr k"
  shows "k = ''panic'' \<or> k = ''fatal''"
  using assms by (auto simp: originKind_def pinnedTraceKind_def Let_def split: option.split_asm if_split_asm sum.split_asm)

lemma makeAbortView_Inr:
  assumes "makeAbortView k rep out = Inr v" and "k = ''panic'' \<or> k = ''fatal''"
  obtains rest where "rest = [] \<or> hd rest = NL" and "NL \<notin> set (avMessage v)" and "utf8_Valid out" and "avOutput v = out"
    and "rep = (if k = ''fatal'' then ''fatal error: '' else ''panic: '') @ avMessage v @ rest"
    and "avKind v = (if k = ''fatal'' \<and> avMessage v = ''all goroutines are asleep - deadlock!'' then ''deadlock'' else k)"
proof -
  obtain t where t: "rep = (if k = ''fatal'' then ''fatal error: '' else ''panic: '') @ t" and m: "avMessage v = first_line t"
    and o: "utf8_Valid out" "avOutput v = out"
    and kd: "avKind v = (if k = ''fatal'' \<and> avMessage v = ''all goroutines are asleep - deadlock!'' then ''deadlock'' else k)"
    using assms(1) by (auto simp: makeAbortView_def Let_def eat_Some split: if_split_asm option.split_asm)
  have "t = avMessage v @ dropWhile (\<lambda>c. c \<noteq> NL) t" by (simp add: m)
  moreover have "dropWhile (\<lambda>c. c \<noteq> NL) t = [] \<or> hd (dropWhile (\<lambda>c. c \<noteq> NL) t) = NL"
    using hd_dropWhile [of "\<lambda>c. c \<noteq> NL" t] by blast
  moreover have "NL \<notin> set (avMessage v)" by (auto simp: m dest: set_takeWhileD)
  ultimately show thesis using that t o kd by metis
qed

section \<open>Properties\<close>

text \<open>
  C24. What the harness reports of an aborted run is what happened. A view is only given for a run
  whose crash hook was registered and whose standard error ends in the byte-identical report of
  the run time and the exit line; the output, the marker, the message and the rest put together
  are that standard error; and the kind follows the first frame of the authenticated trace, not
  what the program printed: a run that died in \<^verbatim>\<open>fatal\<close> or \<^verbatim>\<open>throw\<close> is never seen as a panic, and
  its output holds no other marker.
\<close>

theorem abort_view_sound:
  assumes "checkedAbortView version stderr e = Inr v"
  shows "ceEnabled e \<and> ceAck e = crashAckText \<and> utf8_Valid (avOutput v) \<and> NL \<notin> set (avMessage v) \<and>
    (\<exists>rest. (rest = [] \<or> hd rest = NL) \<and>
      (originKind version (ceReport e) = Inr ''panic'' \<and> avKind v = ''panic'' \<and>
         ceReport e = ''panic: '' @ avMessage v @ rest \<and> stderr = avOutput v @ ceReport e @ exit2 \<or>
       originKind version (ceReport e) = Inr ''fatal'' \<and>
         avKind v = (if avMessage v = ''all goroutines are asleep - deadlock!'' then ''deadlock'' else ''fatal'') \<and>
         stderr = avOutput v @ ''fatal error: '' @ avMessage v @ rest @ exit2 \<and>
         suffix (ceReport e @ exit2) stderr \<and>
         \<not> sublist ''panic: '' (avOutput v) \<and> \<not> sublist ''fatal error: '' (avOutput v)))"
  using assms
proof (cases rule: checkedAbortView_Inr)
  case (panic hd)
  from panic(5) show ?thesis
  proof (rule makeAbortView_Inr)
    fix rest
    assume "rest = [] \<or> List.hd rest = NL" "NL \<notin> set (avMessage v)" "utf8_Valid hd" "avOutput v = hd"
      "ceReport e = (if ''panic'' = ''fatal'' then ''fatal error: '' else ''panic: '') @ avMessage v @ rest"
      "avKind v = (if ''panic'' = ''fatal'' \<and> avMessage v = ''all goroutines are asleep - deadlock!'' then ''deadlock'' else ''panic'')"
    with panic(1-4) show ?thesis by (auto intro!: exI [of _ rest])
  qed simp
next
  case (fatal k hd i)
  have k: "k = ''fatal''" using originKind_range [OF fatal(4)] fatal(5) by blast
  have i: "i \<le> length hd" using bytes_Index_prefix [OF fatal(8)] by (cases "i \<le> length hd") auto
  have np: "\<not> sublist ''panic: '' (take i hd)"
    using fatal(6) bytes_Count_0 [of "''panic: ''" hd] sublist_order.order.trans [of "''panic: ''" "take i hd" hd] by auto
  note nf = bytes_Index_before [OF fatal(8)]
  from fatal(10) show ?thesis
  proof (rule makeAbortView_Inr)
    fix rest
    assume r: "rest = [] \<or> List.hd rest = NL" "NL \<notin> set (avMessage v)" "utf8_Valid (take i (hd @ ceReport e))"
      "avOutput v = take i (hd @ ceReport e)"
      "drop i (hd @ ceReport e) = (if k = ''fatal'' then ''fatal error: '' else ''panic: '') @ avMessage v @ rest"
      "avKind v = (if k = ''fatal'' \<and> avMessage v = ''all goroutines are asleep - deadlock!'' then ''deadlock'' else k)"
    have o: "avOutput v = take i hd" using r(4) i by simp
    have "hd @ ceReport e = avOutput v @ ''fatal error: '' @ avMessage v @ rest"
      using append_take_drop_id [of i "hd @ ceReport e"] unfolding r(4) [symmetric] r(5) k by simp
    then have "stderr = avOutput v @ ''fatal error: '' @ avMessage v @ rest @ exit2" using fatal(3) by simp
    moreover have "suffix (ceReport e @ exit2) stderr" using fatal(3) by (simp add: suffixI)
    moreover have "utf8_Valid (avOutput v)" using r(3,4) by simp
    moreover have "avKind v = (if avMessage v = ''all goroutines are asleep - deadlock!'' then ''deadlock'' else ''fatal'')"
      using r(6) k by simp
    moreover have "\<not> sublist ''panic: '' (avOutput v)" "\<not> sublist ''fatal error: '' (avOutput v)"
      unfolding o using np nf by simp_all
    ultimately show ?thesis using r(1,2) fatal(1,2) fatal(4) [unfolded k] by blast
  qed (use k in simp)
qed

text \<open>
  C25. A panic is observed exactly. The report is one as the run time writes it: the first panic's
  value with its newlines indented, any later panics of the chain, the signal line when a signal
  raised the panic, the system header, the frame of the panic and its pinned source line, and
  frames that hold no marker. If what the program printed before is valid UTF-8, the harness
  returns it byte for byte, the kind, and the first line of the panic value; a value or an output
  that contains headers, frames or markers of its own changes nothing. If it is not valid UTF-8,
  the run is refused for that reason, and so is a request for a message that is not.
\<close>

theorem runtime_panic_observed:
  assumes "panic_trace sig header args source frames"
    and "e = \<lparr>ceEnabled = True, ceReport = panic_report payload later sig header args source frames,
      ceAck = crashAckText\<rparr>"
  shows "checkedAbortView ''go1.26.5'' (out @ ceReport e @ exit2) e =
      (if utf8_Valid out
       then Inr \<lparr>avKind = ''panic'', avMessage = first_line payload, avOutput = out\<rparr>
       else Inl ErrOutputUtf8) \<and>
    observedOutput ''go1.26.5'' (out @ ceReport e @ exit2) ''panic'' e =
      (if utf8_Valid out then Inr out else Inl ErrOutputUtf8) \<and>
    observedAbortMessage ''go1.26.5'' (out @ ceReport e @ exit2) ''panic'' e =
      (if utf8_Valid out \<and> utf8_Valid (first_line payload)
       then Inr (CHR 0x22 # jsonBody (first_line payload) @ [CHR 0x22]) else Inl ErrOutputUtf8)"
proof -
  let ?r = "panic_report payload later sig header args source frames"
  have e: "ceReport e = ?r" "evidence_validate e = None" using assms(2) by (simp_all add: evidence_validate_None)
  have "last ?r = NL" "?r \<noteq> []" using assms(1) by (auto simp: panic_report_def panic_trace_def)
  then obtain r' where "?r = r' @ [NL]" by (metis append_butlast_last_id)
  then have sx: "suffix (NL # exit2) (out @ ?r @ exit2)" by (auto simp: suffix_def)
  have "first_line (indent payload @ later_panics later @ NL # t) = first_line payload" for t
    using first_line_indent [of payload] by (cases later) (simp_all add: later_panics_def)
  then have "makeAbortView ''panic'' ?r out =
      (if utf8_Valid out
       then Inr \<lparr>avKind = ''panic'', avMessage = first_line payload, avOutput = out\<rparr>
       else Inl ErrOutputUtf8)"
    by (simp add: makeAbortView_def panic_report_def eat_def)
  then have "checkedAbortView ''go1.26.5'' (out @ ?r @ exit2) e =
      (if utf8_Valid out
       then Inr \<lparr>avKind = ''panic'', avMessage = first_line payload, avOutput = out\<rparr>
       else Inl ErrOutputUtf8)"
    using sx \<open>?r \<noteq> []\<close> originKind_panic [OF assms(1), of payload later] e
    by (simp add: checkedAbortView_def Let_def suffixI)
  then show ?thesis by (simp add: observedOutput_def observedAbortMessage_def outputLiteral_def e)
qed

definition demoHeader :: string where
  "demoHeader = ''goroutine 1 gp=0xc000002380 m=0 mp=0x5a9e20 [running]:''"

definition demoSource :: string where
  "demoSource = TAB # ''/usr/local/go/src/runtime/panic.go:879 +0x132 fp=0xc00006 sp=0xc00005 pc=0x4382''"

text \<open>
  The panic value imitates a header of the run time and is recovered, a signal raises a second
  panic, and the output imitates a whole report.
\<close>

definition demoReport :: string where
  "demoReport = panic_report (''boom'' @ NL # ''goroutine 9 [running]: [recovered]'')
     [''runtime error: invalid memory address or nil pointer dereference'']
     (Some ''SIGSEGV: segmentation violation code=0x1 addr=0x0 pc=0x4a'') demoHeader ''{0x1, 0x2}'' demoSource []"

theorem runtime_panic_observed_witness:
  "observedOutput ''go1.26.5'' ((''panic: fake'' @ [NL]) @ demoReport @ exit2)
     ''panic'' \<lparr>ceEnabled = True, ceReport = demoReport, ceAck = crashAckText\<rparr> = Inr (''panic: fake'' @ [NL])"
proof -
  have "systemGoroutineHeader demoHeader" by code_simp
  moreover have "terminalSource demoSource = Some ''879''" by code_simp
  moreover have "\<not> sublist p (''panic('' @ ''{0x1, 0x2}'' @ '')'' @ NL # demoSource @ NL # [])"
    if "p \<in> {''panic: '', ''fatal error: '', NL # ''runtime stack:''}" for p
    using that unfolding bytes_Contains_iff [symmetric] by (auto simp: demoSource_def)
  ultimately have "panic_trace (Some ''SIGSEGV: segmentation violation code=0x1 addr=0x0 pc=0x4a'')
      demoHeader ''{0x1, 0x2}'' demoSource []"
    by (simp add: panic_trace_def demoHeader_def demoSource_def)
  from runtime_panic_observed [OF this refl, of "''panic: fake'' @ [NL]", folded demoReport_def] show ?thesis
    unfolding demoReport_def by simp
qed

definition demoFatal :: string where
  "demoFatal = demoHeader @ NL # ''runtime.throw({0x1, 0x2})'' @ NL # TAB #
     ''/usr/local/go/src/runtime/panic.go:1229 +0x48 fp=0xc00006 sp=0xc00005 pc=0x4382'' @ [NL]"

theorem abort_view_sound_witness:
  "\<exists>v. checkedAbortView ''go1.26.5'' (''hello'' @ NL # ''fatal error: boom'' @ NL # demoFatal @ exit2)
     \<lparr>ceEnabled = True, ceReport = demoFatal, ceAck = crashAckText\<rparr> = Inr v \<and> avKind v = ''fatal''"
proof -
  have v: "checkedAbortView ''go1.26.5'' (''hello'' @ NL # ''fatal error: boom'' @ NL # demoFatal @ exit2)
     \<lparr>ceEnabled = True, ceReport = demoFatal, ceAck = crashAckText\<rparr> = Inr \<lparr>avKind = ''fatal'', avMessage = ''boom'', avOutput = ''hello'' @ [NL]\<rparr>"
    by code_simp
  from abort_view_sound [OF v] v show ?thesis by auto
qed

end
