(* ===== verification/GoMod.thy ===== *)
theory GoMod
  imports GoText
begin

text \<open>
  The module directive of the native frontend (tools/nativefrontend/modfile.go): the strict
  scanner of go.mod and the judgement of the language version it declares, with the part of
  \<^verbatim>\<open>go/version\<close> it uses. The name of the pinned toolchain is a parameter. Finding and reading
  the file is left out: the scanner takes the lines, and whether reading them failed. A refusal
  is a value that names the line, not its text.
\<close>

section \<open>Strings\<close>

fun split_on :: "char \<Rightarrow> string \<Rightarrow> string list" where
  "split_on x [] = [[]]"
| "split_on x (c # s) = (if c = x then [] # split_on x s
     else (case split_on x s of [] \<Rightarrow> [[c]] | l # ls \<Rightarrow> (c # l) # ls))"

text \<open>The number of bytes of the white space (\<^verbatim>\<open>unicode.IsSpace\<close>) a string starts with.\<close>

definition spaceLen :: "string \<Rightarrow> nat" where
  "spaceLen s = (case s of [] \<Rightarrow> 0
     | c # t \<Rightarrow>
         if c \<in> {CHR 0x09, CHR 0x0A, CHR 0x0B, CHR 0x0C, CHR 0x0D, CHR 0x20} then 1
         else if c = CHR 0xC2 \<and> (take 1 t = [CHR 0x85] \<or> take 1 t = [CHR 0xA0]) then 2
         else if c = CHR 0xE1 \<and> take 2 t = [CHR 0x9A, CHR 0x80] then 3
         else if c = CHR 0xE2 \<and> take 1 t = [CHR 0x80] \<and> (\<exists>d \<in> set (take 1 (drop 1 t)).
             0x80 \<le> (of_char d :: nat) \<and> (of_char d :: nat) \<le> 0x8A \<or> d \<in> {CHR 0xA8, CHR 0xA9, CHR 0xAF}) then 3
         else if c = CHR 0xE2 \<and> take 2 t = [CHR 0x81, CHR 0x9F] then 3
         else if c = CHR 0xE3 \<and> take 2 t = [CHR 0x80, CHR 0x80] then 3
         else 0)"

text \<open>\<^verbatim>\<open>strings.Fields\<close>, with the field being read.\<close>

function fieldsFrom :: "string \<Rightarrow> string \<Rightarrow> string list" where
  "fieldsFrom cur s = (case s of [] \<Rightarrow> if cur = [] then [] else [cur]
     | c # t \<Rightarrow> if spaceLen s = 0 then fieldsFrom (cur @ [c]) t
         else (if cur = [] then [] else [cur]) @ fieldsFrom [] (drop (spaceLen s - 1) t))"
  by pat_completeness auto
termination by (relation "measure (\<lambda>(cur, s). length s)") auto

declare fieldsFrom.simps [simp del]

abbreviation Fields :: "string \<Rightarrow> string list" where
  "Fields \<equiv> fieldsFrom []"

section \<open>The grammars of tokens\<close>

text \<open>\<^verbatim>\<open>0|[1-9][0-9]*\<close>\<close>

definition eatNum :: "string \<Rightarrow> string option" where
  "eatNum s = (case s of [] \<Rightarrow> None
     | c # t \<Rightarrow> if c = CHR ''0'' then Some t else if isDigit c then Some (dropWhile isDigit t) else None)"

definition isLower :: "char \<Rightarrow> bool" where
  "isLower c \<longleftrightarrow> 0x61 \<le> (of_char c :: nat) \<and> (of_char c :: nat) \<le> 0x7A"

definition isUpper :: "char \<Rightarrow> bool" where
  "isUpper c \<longleftrightarrow> 0x41 \<le> (of_char c :: nat) \<and> (of_char c :: nat) \<le> 0x5A"

text \<open>\<^verbatim>\<open>goModVersionRE\<close>: what matches the group of the prerelease, if the whole matches.\<close>

definition goModVersion :: "string \<Rightarrow> string option" where
  "goModVersion s = do {
     panic_if (prefix ''0'' s);
     s \<leftarrow> eatNum s;
     s \<leftarrow> eat ''.'' s;
     s \<leftarrow> eatNum s;
     s \<leftarrow> (case eat ''.'' s of None \<Rightarrow> Some s | Some t \<Rightarrow> eatNum t);
     if s = [] then Some []
     else do {
       t \<leftarrow> eat1 isLower s;
       t \<leftarrow> eat1 isDigit t;
       if t = [] then Some s else None
     }
   }"

text \<open>The dot-separated identifiers of a prerelease or of build metadata in \<^verbatim>\<open>semverCanonicalRE\<close>.\<close>

definition isIdent :: "char \<Rightarrow> bool" where
  "isIdent c \<longleftrightarrow> isDigit c \<or> isLower c \<or> isUpper c \<or> c = CHR ''-''"

function eatDotted :: "string \<Rightarrow> string option" where
  "eatDotted s = (case eat1 isIdent s of None \<Rightarrow> None
     | Some t \<Rightarrow> (case t of c # u \<Rightarrow> if c = CHR ''.'' then eatDotted u else Some t | [] \<Rightarrow> Some t))"
  by pat_completeness auto
termination
proof (relation "measure length")
  fix s t u :: string and c
  assume "eat1 isIdent s = Some t" "t = c # u"
  then have "length t < length s"
    using length_dropWhile_le [of isIdent "tl s"] by (auto simp: eat1_def le_imp_less_Suc split: list.split_asm if_split_asm)
  with \<open>t = c # u\<close> show "(u, s) \<in> measure length" by simp
qed simp

declare eatDotted.simps [simp del]

definition semverCanonical :: "string \<Rightarrow> bool" where
  "semverCanonical s \<longleftrightarrow> do {
     s \<leftarrow> eat ''v'' s;
     s \<leftarrow> eatNum s;
     s \<leftarrow> eat ''.'' s;
     s \<leftarrow> eatNum s;
     s \<leftarrow> eat ''.'' s;
     s \<leftarrow> eatNum s;
     s \<leftarrow> (case eat ''-'' s of None \<Rightarrow> Some s | Some t \<Rightarrow> eatDotted t);
     (case eat ''+'' s of None \<Rightarrow> Some s | Some t \<Rightarrow> eatDotted t)
   } = Some []"

text \<open>\<^verbatim>\<open>modulePathElemRE\<close>\<close>

definition pathChar :: "char \<Rightarrow> bool" where
  "pathChar c \<longleftrightarrow> isDigit c \<or> isLower c \<or> isUpper c \<or> c \<in> {CHR ''_'', CHR 0x7E, CHR ''-''}"

definition modulePathElem :: "string \<Rightarrow> bool" where
  "modulePathElem s \<longleftrightarrow> s \<noteq> [] \<and> pathChar (hd s) \<and> pathChar (last s) \<and> (\<forall>c \<in> set s. pathChar c \<or> c = CHR ''.'')"

definition modulePathOK :: "string \<Rightarrow> bool" where
  "modulePathOK path \<longleftrightarrow> \<not> (path = [] \<or> prefix ''/'' path \<or> suffix ''/'' path) \<and>
     list_all modulePathElem (split_on (CHR ''/'') path)"

definition directoryPathOK :: "string \<Rightarrow> bool" where
  "directoryPathOK path \<longleftrightarrow> path = ''.'' \<or> path = ''..'' \<or> prefix ''./'' path \<or> prefix ''../'' path \<or> prefix ''/'' path"

section \<open>The scanner\<close>

datatype mod_error = ErrParen nat | ErrUsage nat | ErrReplaceDir nat | ErrQuoted nat | ErrGodebug | ErrMalformedGo
  | ErrRepeatedGo | ErrMalformedToolchain | ErrRepeatedToolchain | ErrToolchain | ErrModuleBlock nat
  | ErrRepeatedModule nat | ErrUnknownDirective | ErrInternalVerb nat | ErrScan | ErrOpenBlock nat | ErrNoModule | ErrNoGo
  | ErrBadVersion | ErrLanguage string | ErrPrerelease | ErrAbovePin

record modScan =
  msModule :: string
  msGoVersion :: string
  msToolchain :: string
  msBlockVerb :: string
  msBlockLine :: nat

definition modScan0 :: modScan where
  "modScan0 = \<lparr>msModule = [], msGoVersion = [], msToolchain = [], msBlockVerb = [], msBlockLine = 0\<rparr>"

definition goModAccepted :: "string set" where
  "goModAccepted = {''module'', ''require'', ''exclude'', ''replace'', ''retract'', ''tool'', ''ignore''}"

definition splitArrow :: "string list \<Rightarrow> (string list \<times> string list) option" where
  "splitArrow args = (if length (filter (\<lambda>a. a = ''=>'') args) = 1
     then Some (takeWhile (\<lambda>a. a \<noteq> ''=>'') args, tl (dropWhile (\<lambda>a. a \<noteq> ''=>'') args)) else None)"

definition judgeReplace :: "string list \<Rightarrow> nat \<Rightarrow> mod_error option" where
  "judgeReplace args lineno =
     (case splitArrow args of None \<Rightarrow> Some (ErrUsage lineno)
      | Some (left, right) \<Rightarrow>
          let okLeft = (length left = 1 \<and> modulePathOK (left ! 0) \<or>
                length left = 2 \<and> modulePathOK (left ! 0) \<and> semverCanonical (left ! 1))
          in if length right = 1 \<and> \<not> directoryPathOK (right ! 0) then Some (ErrReplaceDir lineno)
             else let okRight = (length right = 1 \<or>
                    length right = 2 \<and> modulePathOK (right ! 0) \<and> semverCanonical (right ! 1))
             in if \<not> okLeft \<or> \<not> okRight then Some (ErrUsage lineno) else None)"

definition judgeArgs :: "string \<Rightarrow> string list \<Rightarrow> nat \<Rightarrow> mod_error option" where
  "judgeArgs verb args lineno =
     (if ''('' \<in> set args \<or> '')'' \<in> set args then Some (ErrParen lineno)
      else if verb = ''module'' then
        (if length args \<noteq> 1 \<or> \<not> modulePathOK (args ! 0) then Some (ErrUsage lineno) else None)
      else if verb = ''require'' \<or> verb = ''exclude'' then
        (if length args \<noteq> 2 \<or> \<not> modulePathOK (args ! 0) \<or> \<not> semverCanonical (args ! 1)
         then Some (ErrUsage lineno) else None)
      else if verb = ''tool'' \<or> verb = ''ignore'' then
        (if length args \<noteq> 1 \<or> (\<exists>c \<in> set (args ! 0). c \<in> set ''[],'') then Some (ErrUsage lineno) else None)
      else if verb = ''replace'' then judgeReplace args lineno
      else if verb = ''retract'' then
        (if length args = 1 \<and> semverCanonical (args ! 0) then None
         else if length args = 5 \<and> args ! 0 = ''['' \<and> args ! 2 = '','' \<and> args ! 4 = '']'' \<and>
           semverCanonical (args ! 1) \<and> semverCanonical (args ! 3) then None
         else Some (ErrUsage lineno))
      else Some (ErrInternalVerb lineno))"

text \<open>One line of tokens, not empty, in the state of the scan.\<close>

definition modTokens :: "string \<Rightarrow> nat \<Rightarrow> string list \<Rightarrow> modScan \<Rightarrow> mod_error + modScan" where
  "modTokens pinnedTC lineno toks m =
     (if msBlockVerb m \<noteq> [] then
        (if toks = ['')''] then Inr (m\<lparr>msBlockVerb := []\<rparr>)
         else case judgeArgs (msBlockVerb m) toks lineno of Some e \<Rightarrow> Inl e | None \<Rightarrow> Inr m)
      else let verb = hd toks; args = tl toks in
        if verb = ''godebug'' then Inl ErrGodebug
        else if verb = ''go'' then
          (if length args \<noteq> 1 \<or> goModVersion (args ! 0) = None then Inl ErrMalformedGo
           else if msGoVersion m \<noteq> [] then Inl ErrRepeatedGo
           else Inr (m\<lparr>msGoVersion := args ! 0\<rparr>))
        else if verb = ''toolchain'' then
          (if length args \<noteq> 1 then Inl ErrMalformedToolchain
           else if msToolchain m \<noteq> [] then Inl ErrRepeatedToolchain
           else if args ! 0 \<noteq> pinnedTC then Inl ErrToolchain
           else Inr (m\<lparr>msToolchain := args ! 0\<rparr>))
        else if verb = ''module'' then
          (if args = [''(''] then Inl (ErrModuleBlock lineno)
           else if msModule m \<noteq> [] then Inl (ErrRepeatedModule lineno)
           else case judgeArgs verb args lineno of Some e \<Rightarrow> Inl e
             | None \<Rightarrow> Inr (m\<lparr>msModule := args ! 0\<rparr>))
        else if verb \<in> goModAccepted then
          (if args = [''(''] then Inr (m\<lparr>msBlockVerb := verb, msBlockLine := lineno\<rparr>)
           else case judgeArgs verb args lineno of Some e \<Rightarrow> Inl e | None \<Rightarrow> Inr m)
        else Inl ErrUnknownDirective)"

text \<open>The line without its comment, and its tokens: brackets and commas stand alone.\<close>

definition stripComment :: "string \<Rightarrow> string" where
  "stripComment raw = (case bytes_Index raw ''//'' of None \<Rightarrow> raw | Some i \<Rightarrow> take i raw)"

definition lineTokens :: "string \<Rightarrow> string list" where
  "lineTokens line = Fields (concat (map (\<lambda>c. if c \<in> set ''()[],'' then [CHR 0x20, c, CHR 0x20] else [c]) line))"

definition isQuoted :: "string \<Rightarrow> bool" where
  "isQuoted line \<longleftrightarrow> (\<exists>c \<in> set line. c = CHR 0x22 \<or> c = CHR 0x60)"

fun scanMod :: "string \<Rightarrow> nat \<Rightarrow> string list \<Rightarrow> modScan \<Rightarrow> mod_error + modScan" where
  "scanMod pinnedTC n [] m = Inr m"
| "scanMod pinnedTC n (raw # rest) m =
     (let line = stripComment raw; lineno = Suc n in
      if isQuoted line then Inl (ErrQuoted lineno)
      else if lineTokens line = [] then scanMod pinnedTC lineno rest m
      else case modTokens pinnedTC lineno (lineTokens line) m of Inl e \<Rightarrow> Inl e
        | Inr m \<Rightarrow> scanMod pinnedTC lineno rest m)"

definition goDirective :: "string \<Rightarrow> string list \<Rightarrow> bool \<Rightarrow> mod_error + string" where
  "goDirective pinnedTC lines scanErr =
     (case scanMod pinnedTC 0 lines modScan0 of Inl e \<Rightarrow> Inl e
      | Inr m \<Rightarrow>
          if scanErr then Inl ErrScan
          else if msBlockVerb m \<noteq> [] then Inl (ErrOpenBlock (msBlockLine m))
          else if msModule m = [] then Inl ErrNoModule
          else if msGoVersion m = [] then Inl ErrNoGo
          else Inr (msGoVersion m))"

section \<open>Versions (go/version)\<close>

record Version =
  vMajor :: string
  vMinor :: string
  vPatch :: string
  vKind :: string
  vPre :: string

definition Version0 :: Version where
  "Version0 = \<lparr>vMajor = [], vMinor = [], vPatch = [], vKind = [], vPre = []\<rparr>"

text \<open>A decimal without leading zeros, and what follows it.\<close>

definition cutInt :: "string \<Rightarrow> (string \<times> string) option" where
  "cutInt s = (let d = takeWhile isDigit s in
     if d = [] \<or> hd d = CHR ''0'' \<and> length d \<noteq> 1 then None else Some (d, dropWhile isDigit s))"

text \<open>Decimals are compared by length and then as strings.\<close>

fun lexless :: "string \<Rightarrow> string \<Rightarrow> bool" where
  "lexless [] ys \<longleftrightarrow> ys \<noteq> []"
| "lexless (x # xs) [] \<longleftrightarrow> False"
| "lexless (x # xs) (y # ys) \<longleftrightarrow> (of_char x :: nat) < of_char y \<or> x = y \<and> lexless xs ys"

definition strCmp :: "string \<Rightarrow> string \<Rightarrow> int" where
  "strCmp x y = (if x = y then 0 else if lexless x y then - 1 else 1)"

definition CmpInt :: "string \<Rightarrow> string \<Rightarrow> int" where
  "CmpInt x y = (if x = y then 0 else if length x < length y then - 1 else if length x > length y then 1
     else if lexless x y then - 1 else 1)"

definition gover_Parse :: "string \<Rightarrow> Version" where
  "gover_Parse x = (case cutInt x of None \<Rightarrow> Version0
     | Some (major, x) \<Rightarrow>
         if x = [] then Version0\<lparr>vMajor := major, vMinor := ''0'', vPatch := ''0''\<rparr>
         else if hd x \<noteq> CHR ''.'' then Version0
         else (case cutInt (tl x) of None \<Rightarrow> Version0
           | Some (minor, x) \<Rightarrow>
               let v = Version0\<lparr>vMajor := major, vMinor := minor\<rparr> in
               if x = [] then (if CmpInt minor ''21'' < 0 then v\<lparr>vPatch := ''0''\<rparr> else v)
               else if hd x = CHR ''.'' then
                 (case cutInt (tl x) of None \<Rightarrow> Version0
                  | Some (patch, x) \<Rightarrow> if x \<noteq> [] then Version0 else v\<lparr>vPatch := patch\<rparr>)
               else let kind = takeWhile (\<lambda>c. \<not> isDigit c) x; x = dropWhile (\<lambda>c. \<not> isDigit c) x in
                 if kind = [] \<or> \<not> list_all isLower kind then Version0
                 else if x = [] then v\<lparr>vKind := kind\<rparr>
                 else (case cutInt x of None \<Rightarrow> Version0
                   | Some (pre, x) \<Rightarrow> if x \<noteq> [] then Version0 else v\<lparr>vKind := kind, vPre := pre\<rparr>)))"

definition gover_Lang :: "string \<Rightarrow> string" where
  "gover_Lang x = (let v = gover_Parse x in
     if vMinor v = [] \<or> vMajor v = ''1'' \<and> vMinor v = ''0'' then vMajor v else vMajor v @ ''.'' @ vMinor v)"

definition gover_Compare :: "string \<Rightarrow> string \<Rightarrow> int" where
  "gover_Compare x y = (let vx = gover_Parse x; vy = gover_Parse y in
     if CmpInt (vMajor vx) (vMajor vy) \<noteq> 0 then CmpInt (vMajor vx) (vMajor vy)
     else if CmpInt (vMinor vx) (vMinor vy) \<noteq> 0 then CmpInt (vMinor vx) (vMinor vy)
     else if CmpInt (vPatch vx) (vPatch vy) \<noteq> 0 then CmpInt (vPatch vx) (vPatch vy)
     else if strCmp (vKind vx) (vKind vy) \<noteq> 0 then strCmp (vKind vx) (vKind vy)
     else CmpInt (vPre vx) (vPre vy))"

text \<open>The suffix after a dash and the prefix \<^verbatim>\<open>go\<close> of a toolchain name are cut off.\<close>

definition stripGo :: "string \<Rightarrow> string" where
  "stripGo x = (case eat ''go'' (takeWhile (\<lambda>c. c \<noteq> CHR ''-'') x) of None \<Rightarrow> [] | Some t \<Rightarrow> t)"

definition version_IsValid :: "string \<Rightarrow> bool" where
  "version_IsValid x \<longleftrightarrow> gover_Parse (stripGo x) \<noteq> Version0"

definition version_Lang :: "string \<Rightarrow> string" where
  "version_Lang x = (let v = gover_Lang (stripGo x) in if v = [] then [] else ''go'' @ v)"

definition version_Compare :: "string \<Rightarrow> string \<Rightarrow> int" where
  "version_Compare x y = gover_Compare (stripGo x) (stripGo y)"

text \<open>The pinned language version is that of the pinned toolchain.\<close>

definition judgeVersion :: "string \<Rightarrow> string \<Rightarrow> mod_error option" where
  "judgeVersion pinnedTC found =
     (let full = ''go'' @ found in
      if \<not> version_IsValid full then Some ErrBadVersion
      else if version_Lang full \<noteq> version_Lang pinnedTC then Some (ErrLanguage (version_Lang full))
      else if goModVersion found \<noteq> None \<and> goModVersion found \<noteq> Some [] then Some ErrPrerelease
      else if version_Compare full pinnedTC > 0 then Some ErrAbovePin
      else None)"

text \<open>The nearest go.mod of the directory: its lines and whether reading them failed, or none.\<close>

definition refuseForeignModuleVersion :: "string \<Rightarrow> (string list \<times> bool) option \<Rightarrow> mod_error option" where
  "refuseForeignModuleVersion pinnedTC modFile =
     (case modFile of None \<Rightarrow> None
      | Some (lines, scanErr) \<Rightarrow>
          (case goDirective pinnedTC lines scanErr of Inl e \<Rightarrow> Some e
           | Inr found \<Rightarrow> judgeVersion pinnedTC found))"

section \<open>The grammar of a go.mod\<close>

text \<open>A file is a sequence of items: a directive on a line, or a block of lines under one verb.\<close>

datatype item = Line string "string list" | Block string "string list list"

fun render :: "item \<Rightarrow> string list list" where
  "render (Line v a) = [v # a]"
| "render (Block v bs) = [v, ''(''] # bs @ [['')'']]"

definition args_ok :: "string \<Rightarrow> string list \<Rightarrow> bool" where
  "args_ok v a \<longleftrightarrow> judgeArgs v a 0 = None"

fun item_ok :: "string \<Rightarrow> item \<Rightarrow> bool" where
  "item_ok p (Line v a) \<longleftrightarrow>
     (if v = ''go'' then length a = 1 \<and> goModVersion (a ! 0) \<noteq> None
      else if v = ''toolchain'' then a = [p] else v \<in> goModAccepted \<and> args_ok v a)"
| "item_ok p (Block v bs) \<longleftrightarrow> v \<in> goModAccepted - {''module''} \<and> (\<forall>b \<in> set bs. args_ok v b)"

fun argOf :: "string \<Rightarrow> item \<Rightarrow> string option" where
  "argOf verb (Line v a) = (if v = verb then Some (a ! 0) else None)"
| "argOf verb (Block v bs) = None"

section \<open>The scanner implements the grammar\<close>

lemma if_None: "((if b then x else y) = None) \<longleftrightarrow> (if b then x = None else y = None)"
  by simp

lemma judgeReplace_line: "judgeReplace a n = None \<longleftrightarrow> judgeReplace a 0 = None"
  by (cases "splitArrow a") (auto simp: judgeReplace_def Let_def split: prod.split)

lemma judgeArgs_line: "judgeArgs v a n = None \<longleftrightarrow> args_ok v a"
  unfolding args_ok_def judgeArgs_def if_None judgeReplace_line [of a n] by simp

lemma args_ok_parens: "args_ok v a \<Longrightarrow> ''('' \<notin> set a \<and> '')'' \<notin> set a"
  by (simp add: args_ok_def judgeArgs_def split: if_split_asm)

text \<open>The step of the scan without its line numbers and refusals.\<close>

definition norm :: "modScan \<Rightarrow> modScan" where
  "norm m = m\<lparr>msBlockLine := 0\<rparr>"

definition forget :: "mod_error + modScan \<Rightarrow> modScan option" where
  "forget r = (case r of Inl e \<Rightarrow> None | Inr m \<Rightarrow> Some (norm m))"

lemma forget_simps:
  "forget (Inl e) = None" "forget (Inr m) = Some (norm m)"
  "forget (if b then x else y) = (if b then forget x else forget y)"
  "forget (case j of None \<Rightarrow> Inr m | Some e \<Rightarrow> Inl e) = (if j = None then Some (norm m) else None)"
  by (simp_all add: forget_def split: option.split)

definition tokStep :: "string \<Rightarrow> string list \<Rightarrow> modScan \<Rightarrow> modScan option" where
  "tokStep p t m =
     (if msBlockVerb m \<noteq> [] then
        (if t = ['')''] then Some (m\<lparr>msBlockVerb := []\<rparr>) else if args_ok (msBlockVerb m) t then Some m else None)
      else if hd t = ''go'' then
        (if length (tl t) = 1 \<and> goModVersion (tl t ! 0) \<noteq> None \<and> msGoVersion m = []
         then Some (m\<lparr>msGoVersion := tl t ! 0\<rparr>) else None)
      else if hd t = ''toolchain'' then
        (if tl t = [p] \<and> msToolchain m = [] then Some (m\<lparr>msToolchain := p\<rparr>) else None)
      else if hd t = ''module'' then
        (if args_ok ''module'' (tl t) \<and> msModule m = [] then Some (m\<lparr>msModule := tl t ! 0\<rparr>) else None)
      else if hd t \<in> goModAccepted then
        (if tl t = [''(''] then Some (m\<lparr>msBlockVerb := hd t\<rparr>)
         else if args_ok (hd t) (tl t) then Some m else None)
      else None)"

lemma tokStep_eq: "forget (modTokens p n t m) = tokStep p t (norm m)"
proof -
  have gd: "''godebug'' \<notin> goModAccepted" by (simp add: goModAccepted_def)
  have one: "length xs = 1 \<and> xs ! 0 = y \<longleftrightarrow> xs = [y]" for xs and y :: string by (cases xs) auto
  have op: "\<not> args_ok v [''(''] " for v using args_ok_parens [of v "[''('']"] by auto
  note sims = forget_simps judgeArgs_line norm_def
  show ?thesis
  proof (cases "msBlockVerb m = []")
    case False
    then show ?thesis by (simp add: modTokens_def tokStep_def sims)
  next
    case True
    consider "hd t = ''go''" | "hd t = ''toolchain''" | "hd t = ''module''" | "hd t = ''godebug''"
      | "hd t \<notin> {''go'', ''toolchain'', ''module'', ''godebug''}" by blast
    then show ?thesis
    proof cases
      case 2
      with True one [of "tl t" p] show ?thesis by (auto simp: modTokens_def tokStep_def sims Let_def)
    next
      case 3
      with True op show ?thesis by (auto simp: modTokens_def tokStep_def sims Let_def)
    qed (use True gd in \<open>simp_all add: modTokens_def tokStep_def sims Let_def\<close>)
  qed
qed

fun tokRun :: "string \<Rightarrow> string list list \<Rightarrow> modScan \<Rightarrow> modScan option" where
  "tokRun p [] m = Some m"
| "tokRun p (t # ts) m = do { m' \<leftarrow> tokStep p t m; tokRun p ts m' }"

lemma tokRun_append: "tokRun p (xs @ ys) m = do { m' \<leftarrow> tokRun p xs m; tokRun p ys m' }"
proof (induction xs arbitrary: m)
  case (Cons x xs)
  then show ?case by (cases "tokStep p x m") auto
qed simp

abbreviation fileTokens :: "string list \<Rightarrow> string list list" where
  "fileTokens lines \<equiv> filter (\<lambda>t. t \<noteq> []) (map (\<lambda>raw. lineTokens (stripComment raw)) lines)"

lemma scanMod_eq:
  "forget (scanMod p n lines m) =
     (if \<exists>raw \<in> set lines. isQuoted (stripComment raw) then None else tokRun p (fileTokens lines) (norm m))"
proof (induction lines arbitrary: n m)
  case (Cons raw lines)
  let ?t = "lineTokens (stripComment raw)"
  show ?case
  proof (cases "?t = [] \<or> isQuoted (stripComment raw)")
    case True
    with Cons show ?thesis by (auto simp: Let_def forget_simps)
  next
    case False
    show ?thesis
    proof (cases "modTokens p (Suc n) ?t m")
      case (Inl e)
      then have "tokStep p ?t (norm m) = None" using tokStep_eq [of p "Suc n" ?t m] by (simp add: forget_simps)
      with False Inl show ?thesis by (simp add: Let_def forget_simps)
    next
      case (Inr m')
      then have "tokStep p ?t (norm m) = Some (norm m')" using tokStep_eq [of p "Suc n" ?t m] by (simp add: forget_simps)
      with False Inr Cons show ?thesis by (simp add: Let_def forget_simps)
    qed
  qed
qed (simp add: forget_simps)

text \<open>What an item does to the state.\<close>

fun assign :: "(item \<Rightarrow> string option) \<Rightarrow> item list \<Rightarrow> string \<Rightarrow> string option" where
  "assign f [] x = Some x"
| "assign f (i # is) x = (case f i of None \<Rightarrow> assign f is x | Some y \<Rightarrow> if x \<noteq> [] then None else assign f is y)"

lemma assign_iff:
  "(\<forall>i \<in> set is. f i \<noteq> Some []) \<Longrightarrow> assign f is [] = Some x \<longleftrightarrow>
     (if x = [] then List.map_filter f is = [] else List.map_filter f is = [x])"
  and assign_set: "(\<forall>i \<in> set is. f i \<noteq> Some []) \<Longrightarrow> y \<noteq> [] \<Longrightarrow> assign f is y = Some x \<longleftrightarrow> x = y \<and> List.map_filter f is = []"
proof (induction "is" arbitrary: y)
  case (Cons i "is")
  { case 1 with Cons show ?case by (cases "f i") (auto simp: map_filter_simps) }
  { case 2 with Cons show ?case by (cases "f i") (auto simp: map_filter_simps) }
qed (auto simp: map_filter_simps)

definition applied :: "item list \<Rightarrow> modScan \<Rightarrow> modScan \<Rightarrow> bool" where
  "applied is m m' \<longleftrightarrow> assign (argOf ''module'') is (msModule m) = Some (msModule m') \<and>
     assign (argOf ''go'') is (msGoVersion m) = Some (msGoVersion m') \<and>
     assign (argOf ''toolchain'') is (msToolchain m) = Some (msToolchain m') \<and>
     msBlockVerb m' = msBlockVerb m \<and> msBlockLine m' = msBlockLine m"

text \<open>A block, from its first line to its closing parenthesis.\<close>

lemma tokRun_body:
  assumes "msBlockVerb m \<noteq> []" and "\<forall>b \<in> set bs. args_ok (msBlockVerb m) b"
  shows "tokRun p (bs @ [['')'']]) m = Some (m\<lparr>msBlockVerb := []\<rparr>)"
  using assms
proof (induction bs)
  case (Cons b bs)
  then have "b \<noteq> ['')'']" using args_ok_parens [of "msBlockVerb m" b] by auto
  with Cons show ?case by (simp add: tokStep_def)
qed (simp add: tokStep_def)

lemma tokRun_block:
  assumes "tokRun p ts m = Some m'" and "msBlockVerb m \<noteq> []" and "msBlockVerb m' = []"
  obtains bs rest where "ts = bs @ ['')''] # rest" and "\<forall>b \<in> set bs. args_ok (msBlockVerb m) b"
    and "tokRun p rest (m\<lparr>msBlockVerb := []\<rparr>) = Some m'"
  using assms
proof (induction ts arbitrary: thesis)
  case (Cons t ts)
  show ?case
  proof (cases "t = ['')'']")
    case True
    with Cons.prems show ?thesis by (intro Cons.prems(1) [of "[]" ts]) (auto simp: tokStep_def)
  next
    case False
    with Cons.prems have t: "args_ok (msBlockVerb m) t" "tokRun p ts m = Some m'"
      by (auto simp: tokStep_def split: if_split_asm)
    obtain bs rest where "ts = bs @ ['')''] # rest" "\<forall>b \<in> set bs. args_ok (msBlockVerb m) b"
      "tokRun p rest (m\<lparr>msBlockVerb := []\<rparr>) = Some m'"
      using Cons.IH t(2) Cons.prems(3,4) by blast
    with t(1) show ?thesis by (intro Cons.prems(1) [of "t # bs" rest]) auto
  qed
qed simp

lemma accepted_verbs: "''go'' \<notin> goModAccepted" "''toolchain'' \<notin> goModAccepted" "''module'' \<in> goModAccepted"
  "[] \<notin> goModAccepted"
  by (simp_all add: goModAccepted_def)

lemma tokStep_other:
  "msBlockVerb m = [] \<Longrightarrow> v \<notin> {''go'', ''toolchain'', ''module''} \<Longrightarrow> tokStep p (v # a) m =
     (if v \<in> goModAccepted then if a = [''(''] then Some (m\<lparr>msBlockVerb := v\<rparr>) else if args_ok v a then Some m else None
      else None)"
  unfolding tokStep_def by simp

lemma applied_other: "v \<notin> {''go'', ''toolchain'', ''module''} \<Longrightarrow> applied [Line v a] m m' \<longleftrightarrow> m' = m"
  by (auto simp: applied_def)

lemma run_item:
  assumes "item_ok p it" and "msBlockVerb m = []"
  shows "tokRun p (render it) m = Some m' \<longleftrightarrow> applied [it] m m'"
proof (cases it)
  case (Line v a)
  consider "v = ''go''" | "v = ''toolchain''" | "v = ''module''" | "v \<notin> {''go'', ''toolchain'', ''module''}" by blast
  then show ?thesis
  proof cases
    case 4
    then have "args_ok v a" "v \<in> goModAccepted" using assms(1) Line by auto
    moreover have "a \<noteq> [''('']" using args_ok_parens [OF calculation(1)] by auto
    ultimately show ?thesis using Line tokStep_other [OF assms(2) 4, of p a] applied_other [OF 4, of a m m'] by auto
  qed (use Line assms accepted_verbs in \<open>auto simp: applied_def tokStep_def\<close>)
next
  case (Block v bs)
  have v: "v \<noteq> []" "tokStep p [v, ''(''] m = Some (m\<lparr>msBlockVerb := v\<rparr>)"
    using Block assms accepted_verbs tokStep_other [OF assms(2), of v p "[''('']"] by auto
  have "tokRun p (render it) m = Some (m\<lparr>msBlockVerb := []\<rparr>)"
    using tokRun_body [of "m\<lparr>msBlockVerb := v\<rparr>" bs p] v Block assms(1) by simp
  moreover have "m\<lparr>msBlockVerb := []\<rparr> = m" using assms(2) by simp
  ultimately show ?thesis using Block by (auto simp: applied_def)
qed

lemma assign_Cons: "assign f (i # is) x = do { y \<leftarrow> assign f [i] x; assign f is y }"
  by (cases "f i") auto

lemma applied_Cons: "applied (i # is) m m' \<longleftrightarrow> (\<exists>m1. applied [i] m m1 \<and> applied is m1 m')"
proof
  assume "applied (i # is) m m'"
  then obtain x y z where "assign (argOf ''module'') [i] (msModule m) = Some x" "assign (argOf ''module'') is x = Some (msModule m')"
    "assign (argOf ''go'') [i] (msGoVersion m) = Some y" "assign (argOf ''go'') is y = Some (msGoVersion m')"
    "assign (argOf ''toolchain'') [i] (msToolchain m) = Some z" "assign (argOf ''toolchain'') is z = Some (msToolchain m')"
    "msBlockVerb m' = msBlockVerb m \<and> msBlockLine m' = msBlockLine m"
    unfolding applied_def assign_Cons [of _ i "is"] by (auto elim!: bindE)
  then show "\<exists>m1. applied [i] m m1 \<and> applied is m1 m'"
    by (intro exI [of _ "m\<lparr>msModule := x, msGoVersion := y, msToolchain := z\<rparr>"]) (simp add: applied_def)
next
  assume "\<exists>m1. applied [i] m m1 \<and> applied is m1 m'"
  then show "applied (i # is) m m'"
    unfolding applied_def assign_Cons [of _ i "is"] by auto
qed

lemma run_items:
  "list_all (item_ok p) is \<Longrightarrow> msBlockVerb m = [] \<Longrightarrow> tokRun p (concat (map render is)) m = Some m' \<longleftrightarrow> applied is m m'"
proof (induction "is" arbitrary: m)
  case Nil
  then show ?case by (auto simp: applied_def)
next
  case (Cons i "is")
  have "tokRun p (concat (map render (i # is))) m = Some m' \<longleftrightarrow>
      (\<exists>m1. tokRun p (render i) m = Some m1 \<and> tokRun p (concat (map render is)) m1 = Some m')"
    by (auto simp: tokRun_append elim!: bindE)
  also have "\<dots> \<longleftrightarrow> (\<exists>m1. applied [i] m m1 \<and> applied is m1 m')"
    using run_item [of p i m] Cons by (auto simp: applied_def)
  finally show ?case by (simp only: applied_Cons [of i "is" m m'])
qed

lemma tokStep_item:
  assumes "tokStep p (v # a) m = Some m'" and "msBlockVerb m = []"
  shows "item_ok p (Line v a) \<and> msBlockVerb m' = [] \<or>
    a = [''(''] \<and> m' = m\<lparr>msBlockVerb := v\<rparr> \<and> v \<in> goModAccepted - {''module''} \<and> msBlockVerb m' \<noteq> []"
proof -
  consider "v = ''go''" | "v = ''toolchain''" | "v = ''module''" | "v \<notin> {''go'', ''toolchain'', ''module''}" by blast
  then show ?thesis
  proof cases
    case 4
    with assms tokStep_other [OF assms(2) 4, of p a] accepted_verbs(4) show ?thesis by (auto split: if_split_asm)
  qed (use assms accepted_verbs in \<open>auto simp: tokStep_def split: if_split_asm\<close>)
qed

lemma run_complete:
  assumes "tokRun p ts m = Some m'" and "msBlockVerb m = []" and "msBlockVerb m' = []" and "[] \<notin> set ts"
  shows "\<exists>is. ts = concat (map render is) \<and> list_all (item_ok p) is"
  using assms
proof (induction ts arbitrary: m rule: length_induct)
  case (1 ts)
  show ?case
  proof (cases ts)
    case (Cons t ts')
    then obtain v a where t: "t = v # a" using "1.prems"(4) by (cases t) auto
    obtain m1 where m1: "tokStep p t m = Some m1" "tokRun p ts' m1 = Some m'" using "1.prems"(1) Cons by (auto elim!: bindE)
    show ?thesis
    proof (cases "msBlockVerb m1 = []")
      case True
      then have "item_ok p (Line v a)" using tokStep_item [OF m1(1) [unfolded t] "1.prems"(2)] by blast
      moreover obtain "is" where "ts' = concat (map render is)" "list_all (item_ok p) is"
        using "1.IH" [rule_format, of ts' m1] m1(2) True "1.prems"(3,4) Cons by auto
      ultimately show ?thesis using Cons t by (intro exI [of _ "Line v a # is"]) simp
    next
      case False
      then have b: "a = [''('']" "m1 = m\<lparr>msBlockVerb := v\<rparr>" "v \<in> goModAccepted - {''module''}"
        using tokStep_item [OF m1(1) [unfolded t] "1.prems"(2)] by blast+
      obtain bs rest where bs: "ts' = bs @ ['')''] # rest" "\<forall>b \<in> set bs. args_ok v b"
        "tokRun p rest (m1\<lparr>msBlockVerb := []\<rparr>) = Some m'"
        using tokRun_block [OF m1(2) False "1.prems"(3)] b(2) by auto
      obtain "is" where "rest = concat (map render is)" "list_all (item_ok p) is"
        using "1.IH" [rule_format, of rest "m1\<lparr>msBlockVerb := []\<rparr>"] bs "1.prems"(3,4) Cons by auto
      then show ?thesis using Cons t b bs by (intro exI [of _ "Block v bs # is"]) simp
    qed
  qed (auto intro: exI [of _ "[]"])
qed

lemma item_args:
  assumes "item_ok p it" and "p \<noteq> []"
  shows "argOf ''module'' it \<noteq> Some []" "argOf ''go'' it \<noteq> Some []" "argOf ''toolchain'' it \<noteq> Some []"
proof -
  have "\<not> args_ok ''module'' a \<or> a ! 0 \<noteq> []" for a by (auto simp: args_ok_def judgeArgs_def modulePathOK_def)
  moreover have "goModVersion [] = None" by (simp add: goModVersion_def eatNum_def)
  ultimately show "argOf ''module'' it \<noteq> Some []" "argOf ''go'' it \<noteq> Some []" "argOf ''toolchain'' it \<noteq> Some []"
    using assms by (cases it; auto)+
qed

lemma applied_init:
  assumes "list_all (item_ok p) is" and "p \<noteq> []"
  shows "applied is modScan0 m \<and> msModule m \<noteq> [] \<and> msGoVersion m \<noteq> [] \<longleftrightarrow>
    msBlockVerb m = [] \<and> msBlockLine m = 0 \<and>
    List.map_filter (argOf ''module'') is = [msModule m] \<and> List.map_filter (argOf ''go'') is = [msGoVersion m] \<and>
    List.map_filter (argOf ''toolchain'') is = (if msToolchain m = [] then [] else [msToolchain m])"
proof -
  have ne: "f \<in> {argOf ''module'', argOf ''go'', argOf ''toolchain''} \<Longrightarrow> \<forall>i \<in> set is. f i \<noteq> Some []" for f
    using assms item_args by (auto simp: list_all_iff)
  have "[] \<notin> set (List.map_filter f is)" if "\<forall>i \<in> set is. f i \<noteq> Some []" for f
    using that by (induction "is") (auto simp: map_filter_simps split: option.split)
  with ne have "[] \<notin> set (List.map_filter (argOf ''module'') is)" "[] \<notin> set (List.map_filter (argOf ''go'') is)" by blast+
  then show ?thesis
    using assign_iff [OF ne, of "argOf ''module''"] assign_iff [OF ne, of "argOf ''go''"] assign_iff [OF ne, of "argOf ''toolchain''"]
    by (auto simp: applied_def modScan0_def)
qed

lemma goDirective_run:
  "goDirective p lines False = Inr v \<longleftrightarrow> (\<forall>raw \<in> set lines. \<not> isQuoted (stripComment raw)) \<and>
    (\<exists>m. tokRun p (fileTokens lines) modScan0 = Some m \<and> msBlockVerb m = [] \<and> msModule m \<noteq> [] \<and> msGoVersion m \<noteq> [] \<and> msGoVersion m = v)"
proof -
  have n0: "norm modScan0 = modScan0" by (simp add: norm_def modScan0_def)
  have nm: "msBlockVerb (norm m) = msBlockVerb m" "msModule (norm m) = msModule m" "msGoVersion (norm m) = msGoVersion m" for m
    by (simp_all add: norm_def)
  have "goDirective p lines False = Inr v \<longleftrightarrow> (\<exists>m. forget (scanMod p 0 lines modScan0) = Some m \<and>
      msBlockVerb m = [] \<and> msModule m \<noteq> [] \<and> msGoVersion m \<noteq> [] \<and> msGoVersion m = v)"
    by (cases "scanMod p 0 lines modScan0") (auto simp: goDirective_def forget_simps nm)
  then show ?thesis unfolding scanMod_eq n0 by auto
qed

section \<open>Properties\<close>

text \<open>
  C33. The scanner accepts exactly the files of the grammar and returns their \<^verbatim>\<open>go\<close> directive: no
  line has a quoted token; the tokens are a sequence of well-formed directives and closed blocks
  of known verbs; there is exactly one \<^verbatim>\<open>module\<close> directive, exactly one \<^verbatim>\<open>go\<close> directive, and at
  most one \<^verbatim>\<open>toolchain\<close> directive, which names the pinned toolchain. Everything else is refused:
  an unterminated block, an unknown verb, \<^verbatim>\<open>godebug\<close>, a repeated directive.
\<close>

theorem go_mod_grammar:
  assumes "p \<noteq> []"
  shows "goDirective p lines False = Inr v \<longleftrightarrow>
    (\<forall>raw \<in> set lines. \<not> isQuoted (stripComment raw)) \<and>
    (\<exists>its path. fileTokens lines = concat (map render its) \<and> list_all (item_ok p) its \<and>
       List.map_filter (argOf ''module'') its = [path] \<and> List.map_filter (argOf ''go'') its = [v] \<and>
       length (List.map_filter (argOf ''toolchain'') its) \<le> 1)"
    (is "?l \<longleftrightarrow> ?q \<and> ?r")
proof
  assume ?l
  then obtain m where q: ?q and m: "tokRun p (fileTokens lines) modScan0 = Some m" "msBlockVerb m = []" "msModule m \<noteq> []"
      "msGoVersion m \<noteq> []" "msGoVersion m = v"
    unfolding goDirective_run by blast
  have b: "msBlockVerb modScan0 = []" by (simp add: modScan0_def)
  obtain its where its: "fileTokens lines = concat (map render its)" "list_all (item_ok p) its"
    using run_complete [OF m(1) b m(2)] by auto
  then have "applied its modScan0 m" using run_items [OF its(2) b, of m] m(1) by simp
  with applied_init [OF its(2) assms, of m] m q its show "?q \<and> ?r" by (intro conjI exI [of _ its] exI [of _ "msModule m"]) auto
next
  assume "?q \<and> ?r"
  then obtain its path where q: ?q and its: "fileTokens lines = concat (map render its)" "list_all (item_ok p) its"
    "List.map_filter (argOf ''module'') its = [path]" "List.map_filter (argOf ''go'') its = [v]"
    "length (List.map_filter (argOf ''toolchain'') its) \<le> 1" by blast
  let ?tc = "List.map_filter (argOf ''toolchain'') its"
  let ?m = "\<lparr>msModule = path, msGoVersion = v, msToolchain = (if ?tc = [] then [] else hd ?tc), msBlockVerb = [], msBlockLine = 0\<rparr>"
  have "[] \<notin> set ?tc" using its(2) assms item_args(3) by (induction its) (auto simp: map_filter_simps split: option.split)
  then have "?tc = (if msToolchain ?m = [] then [] else [msToolchain ?m])" using its(5) by (cases ?tc) auto
  then have "applied its modScan0 ?m \<and> msModule ?m \<noteq> [] \<and> msGoVersion ?m \<noteq> []"
    using applied_init [OF its(2) assms, of ?m] its(3,4) by simp
  then show ?l unfolding goDirective_run using q run_items [OF its(2), of modScan0 ?m] its(1)
    by (auto simp: modScan0_def)
qed

definition demoMod :: "string list" where
  "demoMod = [''module example.com/m'', '''', ''go 1.26 // language'', ''require ('', TAB # ''golang.org/x/text v0.3.0'', '')'']"

theorem go_mod_grammar_witness:
  "goDirective ''go1.26.5'' demoMod False = Inr ''1.26'' \<and>
   (\<exists>its. fileTokens demoMod = concat (map render its) \<and> list_all (item_ok ''go1.26.5'') its)"
proof -
  have g: "goDirective ''go1.26.5'' demoMod False = Inr ''1.26''" by code_simp
  have p: "''go1.26.5'' \<noteq> ([] :: string)" by simp
  have "\<exists>its. fileTokens demoMod = concat (map render its) \<and> list_all (item_ok ''go1.26.5'') its"
    using g unfolding go_mod_grammar [OF p] by blast
  with g show ?thesis by blast
qed

section \<open>The accepted versions\<close>

definition isNum :: "string \<Rightarrow> bool" where
  "isNum d \<longleftrightarrow> d \<noteq> [] \<and> (\<forall>c \<in> set d. isDigit c) \<and> (hd d = CHR ''0'' \<longrightarrow> d = ''0'')"

lemma eatNum_Some: "eatNum s = Some t \<Longrightarrow> \<exists>d. isNum d \<and> s = d @ t"
proof (cases s)
  case (Cons c u)
  assume e: "eatNum s = Some t"
  show ?thesis
  proof (cases "c = CHR ''0''")
    case True
    with e Cons show ?thesis by (intro exI [of _ "''0''"]) (auto simp: eatNum_def isNum_def isDigit_def)
  next
    case False
    with e Cons show ?thesis
      by (intro exI [of _ "c # takeWhile isDigit u"]) (auto simp: eatNum_def isNum_def dest: set_takeWhileD split: if_split_asm)
  qed
qed (simp add: eatNum_def)

lemma cutInt_num:
  assumes "isNum d" and "r = [] \<or> \<not> isDigit (hd r)"
  shows "cutInt (d @ r) = Some (d, r)"
proof -
  have "takeWhile isDigit r = []" "dropWhile isDigit r = r" using assms(2) by (cases r; simp)+
  moreover have "\<forall>c \<in> set d. isDigit c" using assms(1) by (simp add: isNum_def)
  ultimately have "takeWhile isDigit (d @ r) = d" "dropWhile isDigit (d @ r) = r"
    by (simp_all add: takeWhile_append2 dropWhile_append2)
  with assms(1) show ?thesis by (auto simp: cutInt_def isNum_def)
qed

text \<open>A version that is no prerelease is two or three decimals.\<close>

lemma goModVersion_release:
  assumes "goModVersion s = Some []"
  obtains (two) d1 d2 where "isNum d1" and "isNum d2" and "s = d1 @ ''.'' @ d2"
  | (three) d1 d2 d3 where "isNum d1" and "isNum d2" and "isNum d3" and "s = d1 @ ''.'' @ d2 @ ''.'' @ d3"
proof -
  obtain s1 s2 s3 s4 where s: "eatNum s = Some s1" "s1 = ''.'' @ s2" "eatNum s2 = Some s3"
    "(case eat ''.'' s3 of None \<Rightarrow> Some s3 | Some t \<Rightarrow> eatNum t) = Some s4" "s4 = []"
    using assms by (auto simp: goModVersion_def eat_Some elim!: bindE split: if_split_asm)
  obtain d1 d2 where d: "isNum d1" "s = d1 @ s1" "isNum d2" "s2 = d2 @ s3"
    using eatNum_Some [OF s(1)] eatNum_Some [OF s(3)] by blast
  show thesis
  proof (cases "eat ''.'' s3")
    case None
    with s d two show thesis by simp
  next
    case (Some t)
    then have "s3 = ''.'' @ t" by (simp add: eat_Some)
    moreover obtain d3 where "isNum d3" "t = d3" using Some s(4,5) eatNum_Some [of t "[]"] by auto
    ultimately show thesis using three [of d1 d2 d3] s d by simp
  qed
qed

lemma dot_not_digit: "\<not> isDigit (CHR ''.'')"
  by (simp add: isDigit_def)

lemma isNum_no_dash: "isNum d \<Longrightarrow> \<forall>c \<in> set d. c \<noteq> CHR ''-''"
  by (auto simp: isNum_def isDigit_def)

lemma isNum_digits: "isNum d \<Longrightarrow> \<forall>c \<in> set d. isDigit c"
  by (simp add: isNum_def)

text \<open>The numbers of a version are read off the text before its dots.\<close>

lemma num_dot_eq:
  assumes "isNum d" and "isNum d'" and "d @ CHR ''.'' # r = d' @ CHR ''.'' # r'"
  shows "d = d' \<and> r = r'"
proof -
  have "takeWhile isDigit (x @ CHR ''.'' # y) = x" if "isNum x" for x y
    using isNum_digits [OF that] dot_not_digit by (simp add: takeWhile_append2)
  then show ?thesis using assms by (metis same_append_eq list.inject)
qed

lemma stripGo_release: "\<forall>c \<in> set s. c \<noteq> CHR ''-'' \<Longrightarrow> stripGo (''go'' @ s) = s"
  by (simp add: stripGo_def eat_def takeWhile_eq_all_conv)

lemma parse_two:
  assumes "isNum d1" and "isNum d2"
  shows "gover_Parse (d1 @ ''.'' @ d2) =
    (let v = Version0\<lparr>vMajor := d1, vMinor := d2\<rparr> in if CmpInt d2 ''21'' < 0 then v\<lparr>vPatch := ''0''\<rparr> else v)"
  using cutInt_num [OF assms(1), of "''.'' @ d2"] cutInt_num [OF assms(2), of "[]"] dot_not_digit
  by (simp add: gover_Parse_def)

lemma parse_three:
  assumes "isNum d1" and "isNum d2" and "isNum d3"
  shows "gover_Parse (d1 @ ''.'' @ d2 @ ''.'' @ d3) = Version0\<lparr>vMajor := d1, vMinor := d2, vPatch := d3\<rparr>"
  using cutInt_num [OF assms(1), of "''.'' @ d2 @ ''.'' @ d3"] cutInt_num [OF assms(2), of "''.'' @ d3"]
    cutInt_num [OF assms(3), of "[]"] dot_not_digit
  by (simp add: gover_Parse_def)

lemma lang_126:
  assumes "isNum d1" and "isNum d2" and "gover_Parse s = v" and "vMajor v = d1" and "vMinor v = d2"
    and "gover_Lang s = ''1.26''"
  shows "d1 = ''1'' \<and> d2 = ''26''"
proof -
  have "isNum ''1''" "d2 \<noteq> []" "CHR ''.'' \<notin> set d1"
    using assms(1,2) dot_not_digit by (auto simp: isNum_def isDigit_def)
  moreover from this have "d1 @ CHR ''.'' # d2 = ''1'' @ CHR ''.'' # ''26''"
    using assms(3-6) by (auto simp: gover_Lang_def Let_def split: if_split_asm)
  ultimately show ?thesis using num_dot_eq [OF assms(1) \<open>isNum ''1''\<close>] by blast
qed

lemma num_upto_5:
  assumes "isNum d" and "\<not> CmpInt d ''5'' > 0"
  shows "d \<in> {''0'', ''1'', ''2'', ''3'', ''4'', ''5''}"
proof -
  obtain c cs where d: "d = c # cs" using assms(1) by (cases d) (auto simp: isNum_def)
  have cs: "cs = []" using assms(2) d by (auto simp: CmpInt_def split: if_split_asm)
  have "isDigit c" using assms(1) d by (simp add: isNum_def)
  then have c: "(of_char c :: nat) \<in> {0x30, 0x31, 0x32, 0x33, 0x34, 0x35}"
    using assms(2) d cs by (auto simp: CmpInt_def isDigit_def split: if_split_asm)
  have n: "(0x30 :: nat) = of_char (CHR ''0'')" "(0x31 :: nat) = of_char (CHR ''1'')" "(0x32 :: nat) = of_char (CHR ''2'')"
    "(0x33 :: nat) = of_char (CHR ''3'')" "(0x34 :: nat) = of_char (CHR ''4'')" "(0x35 :: nat) = of_char (CHR ''5'')"
    by simp_all
  have "c \<in> {CHR ''0'', CHR ''1'', CHR ''2'', CHR ''3'', CHR ''4'', CHR ''5''}"
    using c unfolding n insert_iff empty_iff of_char_eq_iff by blast
  with d cs show ?thesis by auto
qed

abbreviation acceptedVersions :: "string list" where
  "acceptedVersions \<equiv> [''1.26'', ''1.26.0'', ''1.26.1'', ''1.26.2'', ''1.26.3'', ''1.26.4'', ''1.26.5'']"

lemma judgeVersion_accepts: "v \<in> set acceptedVersions \<Longrightarrow> judgeVersion ''go1.26.5'' v = None"
proof -
  have "list_all (\<lambda>v. judgeVersion ''go1.26.5'' v = None) acceptedVersions" by code_simp
  then show "v \<in> set acceptedVersions \<Longrightarrow> judgeVersion ''go1.26.5'' v = None" unfolding list_all_iff by blast
qed

lemma pin_parts: "version_Lang ''go1.26.5'' = ''go1.26''" "stripGo ''go1.26.5'' = ''1.26.5''"
  "gover_Parse ''1.26.5'' = Version0\<lparr>vMajor := ''1'', vMinor := ''26'', vPatch := ''5''\<rparr>"
  by code_simp+

lemma judgeVersion_only:
  assumes "goModVersion s \<noteq> None" and "judgeVersion ''go1.26.5'' s = None"
  shows "s \<in> set acceptedVersions"
proof -
  have rel: "goModVersion s = Some []" and la: "version_Lang (''go'' @ s) = ''go1.26''"
    and cmp: "\<not> version_Compare (''go'' @ s) ''go1.26.5'' > 0"
    using assms by (auto simp: judgeVersion_def Let_def pin_parts(1) split: if_split_asm)
  from rel show ?thesis
  proof (cases rule: goModVersion_release)
    case (two d1 d2)
    have g: "stripGo (''go'' @ s) = s"
      using two isNum_no_dash by (intro stripGo_release) auto
    have "gover_Lang s = ''1.26''" using la g by (auto simp: version_Lang_def Let_def split: if_split_asm)
    moreover have "vMajor (gover_Parse s) = d1" "vMinor (gover_Parse s) = d2"
      using parse_two [OF two(1,2)] two(3) by (simp_all add: Let_def)
    ultimately have "d1 = ''1'' \<and> d2 = ''26''" using lang_126 [OF two(1,2)] by blast
    with two(3) show ?thesis by simp
  next
    case (three d1 d2 d3)
    have g: "stripGo (''go'' @ s) = s"
      using three isNum_no_dash by (intro stripGo_release) auto
    have v: "gover_Parse s = Version0\<lparr>vMajor := d1, vMinor := d2, vPatch := d3\<rparr>" using parse_three [OF three(1-3)] three(4) by simp
    have "gover_Lang s = ''1.26''" using la g by (auto simp: version_Lang_def Let_def split: if_split_asm)
    then have d: "d1 = ''1'' \<and> d2 = ''26''" using lang_126 [OF three(1,2) v] by simp
    have "\<not> CmpInt d3 ''5'' > 0"
      using cmp unfolding version_Compare_def g pin_parts(2) gover_Compare_def Let_def v pin_parts(3)
      using d by (auto simp: CmpInt_def split: if_split_asm)
    with num_upto_5 [OF three(3)] d three(4) show ?thesis by auto
  qed
qed

lemma scanMod_version:
  "scanMod p n lines m = Inr m' \<Longrightarrow> msGoVersion m = [] \<or> goModVersion (msGoVersion m) \<noteq> None \<Longrightarrow>
   msGoVersion m' = [] \<or> goModVersion (msGoVersion m') \<noteq> None"
proof (induction lines arbitrary: n m)
  case (Cons raw lines)
  have "msGoVersion m1 = msGoVersion m \<or> goModVersion (msGoVersion m1) \<noteq> None" if "modTokens p k t m = Inr m1" for k t m1
    using that by (auto simp: modTokens_def Let_def split: if_split_asm option.split_asm)
  with Cons show ?case by (fastforce simp: Let_def split: if_split_asm sum.split_asm)
qed simp

lemma goDirective_version: "goDirective p lines err = Inr v \<Longrightarrow> goModVersion v \<noteq> None"
  using scanMod_version [of p 0 lines modScan0]
  by (auto simp: goDirective_def modScan0_def split: sum.split_asm if_split_asm)

text \<open>
  C34. Of the modules that declare a version, exactly those are accepted whose go.mod the scanner
  accepts and whose \<^verbatim>\<open>go\<close> directive is the pinned language version or a patch release of it that
  is not above the pinned toolchain go1.26.5; other languages, prereleases and later patches are
  refused.
\<close>

theorem foreign_versions_refused:
  "refuseForeignModuleVersion ''go1.26.5'' (Some (lines, err)) = None \<longleftrightarrow>
    (\<exists>v \<in> set [''1.26'', ''1.26.0'', ''1.26.1'', ''1.26.2'', ''1.26.3'', ''1.26.4'', ''1.26.5''].
       goDirective ''go1.26.5'' lines err = Inr v)"
proof (cases "goDirective ''go1.26.5'' lines err")
  case (Inl e)
  then show ?thesis by (simp add: refuseForeignModuleVersion_def)
next
  case (Inr v)
  then have "judgeVersion ''go1.26.5'' v = None \<longleftrightarrow> v \<in> set acceptedVersions"
    using judgeVersion_accepts judgeVersion_only goDirective_version by blast
  with Inr show ?thesis by (auto simp: refuseForeignModuleVersion_def)
qed

theorem foreign_versions_refused_witness:
  "refuseForeignModuleVersion ''go1.26.5'' (Some (demoMod, False)) = None \<and>
   refuseForeignModuleVersion ''go1.26.5'' (Some ([''module m'', ''go 1.27''], False)) \<noteq> None"
proof -
  have "goDirective ''go1.26.5'' demoMod False = Inr ''1.26''" by code_simp
  then have "refuseForeignModuleVersion ''go1.26.5'' (Some (demoMod, False)) = None"
    unfolding foreign_versions_refused by simp
  moreover have "goDirective ''go1.26.5'' [''module m'', ''go 1.27''] False = Inr ''1.27''" by code_simp
  then have "refuseForeignModuleVersion ''go1.26.5'' (Some ([''module m'', ''go 1.27''], False)) \<noteq> None"
    unfolding foreign_versions_refused by simp
  ultimately show ?thesis by blast
qed

end
