(* ===== verification/BuildTags.thy ===== *)
theory BuildTags
  imports GoText
begin

text \<open>
  Build constraints and compiler directives of the native frontend (tools/nativefrontend:
  langversion.go, directives.go). A constraint is judged from its parsed expression (the
  parser is that of \<^verbatim>\<open>go/build/constraint\<close>; \<open>None\<close> is a line it rejects). A comment is judged
  from its text and from what the syntax tree says of its place, as arguments.
\<close>

section \<open>Reserved tags\<close>

datatype Expr = TagExpr string | NotExpr Expr | AndExpr Expr Expr | OrExpr Expr Expr

primrec Eval :: "(string \<Rightarrow> bool) \<Rightarrow> Expr \<Rightarrow> bool" where
  "Eval ok (TagExpr t) = ok t"
| "Eval ok (NotExpr x) = (\<not> Eval ok x)"
| "Eval ok (AndExpr x y) = (Eval ok x \<and> Eval ok y)"
| "Eval ok (OrExpr x y) = (Eval ok x \<or> Eval ok y)"

text \<open>\<^verbatim>\<open>goReleaseTag\<close>\<close>

definition goReleaseTag :: "string \<Rightarrow> bool" where
  "goReleaseTag s = (case eat ''go1'' s of None \<Rightarrow> False
     | Some t \<Rightarrow> t = [] \<or> (case eat ''.'' t of None \<Rightarrow> False | Some u \<Rightarrow> eat1 isDigit u = Some []))"

definition knownArchTags :: "string set" where
  "knownArchTags = {''386'', ''amd64'', ''amd64p32'', ''arm'', ''arm64'', ''arm64be'', ''armbe'', ''loong64'',
     ''mips'', ''mips64'', ''mips64le'', ''mips64p32'', ''mips64p32le'', ''mipsle'', ''ppc'', ''ppc64'',
     ''ppc64le'', ''riscv'', ''riscv64'', ''s390'', ''s390x'', ''sparc'', ''sparc64'', ''wasm''}"

definition knownEnvTags :: "string set" where
  "knownEnvTags = {''aix'', ''android'', ''darwin'', ''dragonfly'', ''freebsd'', ''hurd'', ''illumos'', ''ios'',
     ''js'', ''linux'', ''nacl'', ''netbsd'', ''openbsd'', ''plan9'', ''solaris'', ''wasip1'', ''windows'', ''zos'', ''unix'',
     ''gc'', ''gccgo'', ''cgo'', ''race'', ''msan'', ''asan'', ''boringcrypto''}"

definition reservedConstraintTag :: "string \<Rightarrow> bool" where
  "reservedConstraintTag tag \<longleftrightarrow>
     (if tag \<in> knownEnvTags \<or> tag \<in> knownArchTags \<or> goReleaseTag tag then True
      else if prefix ''goexperiment.'' tag then True
      else case bytes_Index tag ''.'' of None \<Rightarrow> False
        | Some i \<Rightarrow> i > 0 \<and> take i tag \<in> knownArchTags)"

primrec constraintTags :: "Expr \<Rightarrow> string set" where
  "constraintTags (TagExpr t) = {t}"
| "constraintTags (NotExpr x) = constraintTags x"
| "constraintTags (AndExpr x y) = constraintTags x \<union> constraintTags y"
| "constraintTags (OrExpr x y) = constraintTags x \<union> constraintTags y"

datatype constraint_error = ErrUnparseable | ErrReservedTag | ErrExcluded

definition judgeBuildConstraint :: "Expr option \<Rightarrow> constraint_error option" where
  "judgeBuildConstraint line =
     (case line of None \<Rightarrow> Some ErrUnparseable
      | Some expr \<Rightarrow>
          if \<exists>tag \<in> constraintTags expr. reservedConstraintTag tag then Some ErrReservedTag
          else if \<not> Eval (\<lambda>_. False) expr then Some ErrExcluded
          else None)"

section \<open>Compiler directives\<close>

definition allowedDirectiveVerbs :: "string set" where
  "allowedDirectiveVerbs = {''go:build'', ''go:noinline'', ''go:generate''}"

definition trimSuffix :: "string \<Rightarrow> string \<Rightarrow> string" where
  "trimSuffix x s = (if suffix x s then take (length s - length x) s else s)"

definition trimPrefix :: "string \<Rightarrow> string \<Rightarrow> string" where
  "trimPrefix x s = (case eat x s of None \<Rightarrow> s | Some t \<Rightarrow> t)"

definition directiveBody :: "string \<Rightarrow> string" where
  "directiveBody text = (case eat ''/*'' text of
       Some t \<Rightarrow> trimSuffix ''*/'' t
     | None \<Rightarrow> trimSuffix [CR] (trimPrefix ''//'' text))"

definition directiveVerb :: "string \<Rightarrow> string" where
  "directiveVerb body = (if \<not> prefix ''go:'' body then []
     else takeWhile (\<lambda>c. c \<noteq> CHR 0x20 \<and> c \<noteq> TAB) body)"

text \<open>
  The place of a comment: nothing but blanks before it on its line, after the package clause,
  and the next declaration after it at the top level is a function. The first may fail to be
  determined.
\<close>

record place =
  plOwnLine :: "bool option"
  plAfterPackage :: bool
  plNextFunc :: bool

datatype directive_error = ErrLineDirective | ErrDebugDirective | ErrUnknownVerb string | ErrPlaceUnknown
  | ErrNotOwnLine | ErrBuildAfterPackage | ErrNoinlinePlace

definition judgePlacement :: "place \<Rightarrow> string \<Rightarrow> directive_error option" where
  "judgePlacement pl verb =
     (case plOwnLine pl of None \<Rightarrow> Some ErrPlaceUnknown
      | Some own \<Rightarrow>
          if \<not> own then Some ErrNotOwnLine
          else if verb = ''go:build'' \<and> plAfterPackage pl then Some ErrBuildAfterPackage
          else if verb = ''go:noinline'' \<and> \<not> plNextFunc pl then Some ErrNoinlinePlace
          else None)"

definition judgeComment :: "string \<Rightarrow> place \<Rightarrow> directive_error option" where
  "judgeComment text pl =
     (let body = directiveBody text in
      if prefix ''line '' body then Some ErrLineDirective
      else if prefix ''/*'' text then None
      else if prefix ''go:'' body then
        (let verb = directiveVerb body in
         if verb = ''go:debug'' then Some ErrDebugDirective
         else if verb \<notin> allowedDirectiveVerbs then Some (ErrUnknownVerb verb)
         else judgePlacement pl verb)
      else None)"

section \<open>Facts\<close>

lemma Eval_agree: "(\<forall>t \<in> constraintTags x. ok t = ok' t) \<Longrightarrow> Eval ok x = Eval ok' x"
  by (induction x) auto

section \<open>The toolchain's side\<close>

text \<open>
  What decides whether the oracle compiles a file is \<^verbatim>\<open>matchTag\<close> of \<^verbatim>\<open>go/build\<close> with the host's
  \<^verbatim>\<open>Context\<close>: the operating system, the architecture, the compiler, whether cgo is on, and the
  lists of the user's, the tools' and the release tags. The operating systems and architectures
  are those of \<^verbatim>\<open>internal/syslist\<close>, written out here on their own: the lists of the frontend
  have to cover them.
\<close>

record Context =
  ctGOOS :: string
  ctGOARCH :: string
  ctCompiler :: string
  ctCgoEnabled :: bool
  ctBuildTags :: "string list"
  ctToolTags :: "string list"
  ctReleaseTags :: "string list"

definition syslistUnixOS :: "string list" where
  "syslistUnixOS = [''aix'', ''android'', ''darwin'', ''dragonfly'', ''freebsd'', ''hurd'', ''illumos'',
     ''ios'', ''linux'', ''netbsd'', ''openbsd'', ''solaris'']"

definition syslistKnownOS :: "string list" where
  "syslistKnownOS = syslistUnixOS @ [''js'', ''nacl'', ''plan9'', ''wasip1'', ''windows'', ''zos'']"

definition syslistKnownArch :: "string list" where
  "syslistKnownArch = [''386'', ''amd64'', ''amd64p32'', ''arm'', ''armbe'', ''arm64'', ''arm64be'',
     ''loong64'', ''mips'', ''mipsle'', ''mips64'', ''mips64le'', ''mips64p32'', ''mips64p32le'', ''ppc'',
     ''ppc64'', ''ppc64le'', ''riscv'', ''riscv64'', ''s390'', ''s390x'', ''sparc'', ''sparc64'', ''wasm'']"

definition matchTag :: "Context \<Rightarrow> string \<Rightarrow> bool" where
  "matchTag ctxt name \<longleftrightarrow>
     (if ctCgoEnabled ctxt \<and> name = ''cgo'' then True
      else if name = ctGOOS ctxt \<or> name = ctGOARCH ctxt \<or> name = ctCompiler ctxt then True
      else if ctGOOS ctxt = ''android'' \<and> name = ''linux'' then True
      else if ctGOOS ctxt = ''illumos'' \<and> name = ''solaris'' then True
      else if ctGOOS ctxt = ''ios'' \<and> name = ''darwin'' then True
      else if name = ''unix'' \<and> ctGOOS ctxt \<in> set syslistUnixOS then True
      else let name = (if name = ''boringcrypto'' then ''goexperiment.boringcrypto'' else name)
        in name \<in> set (ctBuildTags ctxt) \<or> name \<in> set (ctToolTags ctxt) \<or>
           name \<in> set (ctReleaseTags ctxt))"

text \<open>
  The contexts a toolchain builds in: a known system, one of the two compilers, the tool tags
  of an experiment, of a sanitizer or of an architecture level, and the release tags
  \<^verbatim>\<open>go1.1\<close>, \<^verbatim>\<open>go1.2\<close> and so on.
\<close>

definition toolTag :: "string \<Rightarrow> string \<Rightarrow> bool" where
  "toolTag arch t \<longleftrightarrow> prefix ''goexperiment.'' t \<or> prefix (arch @ ''.'') t \<or>
     t \<in> set [''race'', ''msan'', ''asan'']"

definition releaseTag :: "string \<Rightarrow> bool" where
  "releaseTag t \<longleftrightarrow> prefix ''go1.'' t \<and> drop 4 t \<noteq> [] \<and> list_all isDigit (drop 4 t)"

definition context_ok :: "Context \<Rightarrow> bool" where
  "context_ok ctxt \<longleftrightarrow> ctGOOS ctxt \<in> set syslistKnownOS \<and> ctGOARCH ctxt \<in> set syslistKnownArch \<and>
     ctCompiler ctxt \<in> set [''gc'', ''gccgo''] \<and> list_all (toolTag (ctGOARCH ctxt)) (ctToolTags ctxt) \<and>
     list_all releaseTag (ctReleaseTags ctxt)"

lemma knownArch_no_dot: "a \<in> knownArchTags \<Longrightarrow> CHR ''.'' \<notin> set a \<and> a \<noteq> []"
  by (auto simp: knownArchTags_def)

lemma index_dot: "CHR ''.'' \<notin> set a \<Longrightarrow> bytes_Index (a @ CHR ''.'' # x) ''.'' = Some (length a)"
  by (induction a) auto

lemma archLevel_reserved:
  assumes "a \<in> knownArchTags" and "prefix (a @ ''.'') t"
  shows "reservedConstraintTag t"
proof -
  from assms(2) obtain x where "t = a @ CHR ''.'' # x" by (auto simp: prefix_def)
  with knownArch_no_dot [OF assms(1)] index_dot [of a x] assms(1) show ?thesis
    by (simp add: reservedConstraintTag_def)
qed

lemma releaseTag_reserved: "releaseTag t \<Longrightarrow> reservedConstraintTag t"
proof -
  assume "releaseTag t"
  then obtain n where "t = ''go1.'' @ n" "n \<noteq> []" "list_all isDigit n"
    by (auto simp: releaseTag_def prefix_def)
  then have "goReleaseTag t" by (cases n) (auto simp: goReleaseTag_def eat_def eat1_def list_all_iff)
  then show ?thesis by (simp add: reservedConstraintTag_def)
qed

lemma syslist_reserved:
  "set syslistUnixOS \<subseteq> knownEnvTags" "set syslistKnownOS \<subseteq> knownEnvTags"
  "set syslistKnownArch \<subseteq> knownArchTags"
  by (simp_all add: syslistKnownOS_def syslistUnixOS_def syslistKnownArch_def knownEnvTags_def
      knownArchTags_def)

lemma toolTag_reserved:
  "toolTag a t \<Longrightarrow> a \<in> knownArchTags \<Longrightarrow> reservedConstraintTag t"
  using archLevel_reserved [of a t]
  by (auto simp: toolTag_def reservedConstraintTag_def knownEnvTags_def)

text \<open>Every tag a toolchain sets is reserved.\<close>

lemma matchTag_reserved:
  assumes "context_ok ctxt" and "ctBuildTags ctxt = []" and "matchTag ctxt t"
  shows "reservedConstraintTag t"
proof -
  have env: "reservedConstraintTag s" if "s \<in> knownEnvTags \<or> s \<in> knownArchTags" for s
    using that by (auto simp: reservedConstraintTag_def)
  have special: "reservedConstraintTag ''cgo''" "reservedConstraintTag ''linux''"
    "reservedConstraintTag ''solaris''" "reservedConstraintTag ''darwin''"
    "reservedConstraintTag ''unix''" "reservedConstraintTag ''boringcrypto''"
    "reservedConstraintTag ''gc''" "reservedConstraintTag ''gccgo''"
    by (rule env, simp add: knownEnvTags_def)+
  have own: "reservedConstraintTag (ctGOOS ctxt)" "reservedConstraintTag (ctGOARCH ctxt)"
    "reservedConstraintTag (ctCompiler ctxt)" and arch: "ctGOARCH ctxt \<in> knownArchTags"
    using assms(1) syslist_reserved env special(7,8) by (auto simp: context_ok_def)
  have listed: "reservedConstraintTag s" if "s \<in> set (ctToolTags ctxt) \<or> s \<in> set (ctReleaseTags ctxt)" for s
    using that assms(1) toolTag_reserved [OF _ arch] releaseTag_reserved
    by (auto simp: context_ok_def list_all_iff)
  show ?thesis
    using assms(2,3) special own listed [of t]
    by (cases "t = ''boringcrypto''") (auto simp: matchTag_def split: if_split_asm)
qed

section \<open>Properties\<close>

text \<open>
  C35. The verdict on a constraint is the oracle's on every host. Take any context of the
  toolchain, whatever its system, architecture, compiler and tool and release tags, with no tag
  of the user set. A constraint that is let through is one under which the oracle compiles the
  file, and one refused as excluding the file is one under which the oracle leaves it out. A
  constraint that names a tag the context sets is refused as naming a reserved tag.
\<close>

theorem accepted_constraint_inert:
  assumes "context_ok ctxt" and "ctBuildTags ctxt = []"
  shows "(judgeBuildConstraint (Some x) = None \<longrightarrow> Eval (matchTag ctxt) x) \<and>
    (judgeBuildConstraint (Some x) = Some ErrExcluded \<longrightarrow> \<not> Eval (matchTag ctxt) x) \<and>
    ((\<exists>t \<in> constraintTags x. matchTag ctxt t) \<longrightarrow>
      judgeBuildConstraint (Some x) = Some ErrReservedTag)"
proof -
  have same: "Eval (matchTag ctxt) x = Eval (\<lambda>_. False) x"
    if "\<forall>t \<in> constraintTags x. \<not> reservedConstraintTag t"
    using that matchTag_reserved [OF assms] by (intro Eval_agree) blast
  have "judgeBuildConstraint (Some x) = Some ErrReservedTag"
    if "\<exists>t \<in> constraintTags x. matchTag ctxt t"
    using that matchTag_reserved [OF assms] by (auto simp: judgeBuildConstraint_def)
  with same show ?thesis
    by (auto simp: judgeBuildConstraint_def split: if_split_asm)
qed

theorem accepted_constraint_inert_witness:
  "Eval (matchTag \<lparr>ctGOOS = ''ios'', ctGOARCH = ''arm64'', ctCompiler = ''gc'', ctCgoEnabled = True,
      ctBuildTags = [], ctToolTags = [''goexperiment.swissmap'', ''arm64.v8.0'', ''race''],
      ctReleaseTags = [''go1.1'', ''go1.26'']\<rparr>) (NotExpr (TagExpr ''with_tla'')) \<and>
   judgeBuildConstraint (Some (NotExpr (TagExpr ''darwin''))) = Some ErrReservedTag"
proof -
  let ?c = "\<lparr>ctGOOS = ''ios'', ctGOARCH = ''arm64'', ctCompiler = ''gc'', ctCgoEnabled = True,
      ctBuildTags = [], ctToolTags = [''goexperiment.swissmap'', ''arm64.v8.0'', ''race''],
      ctReleaseTags = [''go1.1'', ''go1.26'']\<rparr>"
  have ok: "context_ok ?c" by code_simp
  have "judgeBuildConstraint (Some (NotExpr (TagExpr ''with_tla''))) = None" by code_simp
  moreover have "matchTag ?c ''darwin''" by code_simp
  ultimately show ?thesis
    using accepted_constraint_inert [OF ok, of "NotExpr (TagExpr ''with_tla'')"]
      accepted_constraint_inert [OF ok, of "NotExpr (TagExpr ''darwin'')"] by simp
qed

end
