(* ===== verification/TypeOrder.thy ===== *)
theory TypeOrder
  imports GoText "HOL-Library.Multiset"
begin

text \<open>
  The order of the type table of the native frontend (tools/nativefrontend/typeorder.go): a
  depth-first search that puts every entry after the entries it depends on, and the check of
  the result. Wire values are JSON trees. The recursion of the search carries a depth bound;
  \<open>None\<close> means that the bound was met, which \<open>type_order_correct\<close> excludes.
\<close>

section \<open>Wire values\<close>

datatype json = JObj "(string \<times> json) list" | JArr "json list" | JStr string | JOther

definition jget :: "json \<Rightarrow> string \<Rightarrow> json option" where
  "jget j k = (case j of JObj kvs \<Rightarrow> map_of kvs k | _ \<Rightarrow> None)"

definition jstr :: "json option \<Rightarrow> string option" where
  "jstr j = (case j of Some (JStr s) \<Rightarrow> Some s | _ \<Rightarrow> None)"

lemma map_of_size: "map_of kvs k = Some v \<Longrightarrow> size v < Suc (size_list (size_prod (\<lambda>_. 0) size) kvs)"
  by (induction kvs) (auto split: if_split_asm)

lemma jget_size: "jget j k = Some v \<Longrightarrow> size v < size j"
  using map_of_size by (auto simp: jget_def split: json.split_asm)

section \<open>Dependencies\<close>

function wireTypeDeps :: "json \<Rightarrow> string list \<Rightarrow> string list" where
  "wireTypeDeps t out =
     (case t of
        JObj _ \<Rightarrow>
          (case jstr (jget t ''kind'') of
             Some k \<Rightarrow>
               if k = ''named'' then (case jstr (jget t ''name'') of Some n \<Rightarrow> out @ [n] | None \<Rightarrow> out)
               else if k = ''array'' then (case jget t ''elem'' of Some e \<Rightarrow> wireTypeDeps e out | None \<Rightarrow> out)
               else out
           | None \<Rightarrow> out)
      | _ \<Rightarrow> out)"
  by pat_completeness auto
termination by (relation "measure (\<lambda>(t, out). size t)") (auto dest!: jget_size)

declare wireTypeDeps.simps [simp del]

datatype type_error = ErrEntry | ErrAlias string | ErrKind string | ErrDupDef string
  | ErrCycle "string list" | ErrNoDef string string | ErrOrder nat nat

fun fieldDeps :: "json list \<Rightarrow> string list \<Rightarrow> string list option" where
  "fieldDeps [] deps = Some deps"
| "fieldDeps (f # fs) deps = (case f of
     JObj _ \<Rightarrow> fieldDeps fs (case jget f ''type'' of Some t \<Rightarrow> wireTypeDeps t deps | None \<Rightarrow> deps)
   | _ \<Rightarrow> None)"

definition defDeps :: "string \<Rightarrow> json \<Rightarrow> type_error + string list" where
  "defDeps name def =
     (let kind = (case jstr (jget def ''kind'') of Some k \<Rightarrow> k | None \<Rightarrow> []) in
      if kind = ''struct'' then
        (case jget def ''fields'' of
           Some (JArr fs) \<Rightarrow> (case fieldDeps fs [] of Some ds \<Rightarrow> Inr ds | None \<Rightarrow> Inl ErrEntry)
         | _ \<Rightarrow> Inl ErrEntry)
      else if kind = ''defined'' then
        Inr (case jget def ''target'' of Some t \<Rightarrow> wireTypeDeps t [] | None \<Rightarrow> [])
      else if kind = ''interface'' \<or> kind = ''unsupported'' then Inr []
      else if kind = ''alias'' then Inl (ErrAlias name)
      else Inl (ErrKind name))"

definition typeDefDeps :: "json \<Rightarrow> type_error + string \<times> string list" where
  "typeDefDeps td =
     (case td of
        JObj _ \<Rightarrow>
          (case jstr (jget td ''name'') of
             None \<Rightarrow> Inl ErrEntry
           | Some name \<Rightarrow>
               if name = [] then Inl ErrEntry
               else (case jget td ''def'' of
                   Some (JObj kvs) \<Rightarrow>
                     (case defDeps name (JObj kvs) of Inl e \<Rightarrow> Inl e | Inr ds \<Rightarrow> Inr (name, ds))
                 | _ \<Rightarrow> Inl ErrEntry))
      | _ \<Rightarrow> Inl ErrEntry)"

text \<open>The first loop of both functions: the names, distinct, and the dependencies.\<close>

fun readDefs :: "json list \<Rightarrow> string list \<Rightarrow> type_error + (string \<times> string list) list" where
  "readDefs [] seen = Inr []"
| "readDefs (td # tds) seen =
     (case typeDefDeps td of Inl e \<Rightarrow> Inl e
      | Inr (name, deps) \<Rightarrow>
          if name \<in> set seen then Inl (ErrDupDef name)
          else (case readDefs tds (name # seen) of Inl e \<Rightarrow> Inl e | Inr es \<Rightarrow> Inr ((name, deps) # es)))"

definition emptyStructName :: string where
  "emptyStructName = ''struct{}''"

definition indexOf :: "(string \<times> string list) list \<Rightarrow> string \<Rightarrow> nat option" where
  "indexOf es d = map_of (zip (map fst es) [0..<length es]) d"

section \<open>The search\<close>

datatype color = White | Gray | Black

record dfs =
  dColor :: "color list"
  dOrdered :: "json list"
  dPath :: "string list"

text \<open>The names from the first occurrence of \<open>n\<close> on the path, closed by \<open>n\<close>.\<close>

definition cyclePath :: "string list \<Rightarrow> string \<Rightarrow> string list" where
  "cyclePath path n = (if n \<in> set path then dropWhile (\<lambda>m. m \<noteq> n) path else path) @ [n]"

fun visit :: "nat \<Rightarrow> json list \<Rightarrow> (string \<times> string list) list \<Rightarrow> nat \<Rightarrow> dfs \<Rightarrow> (type_error + dfs) option"
  and visitDeps :: "nat \<Rightarrow> json list \<Rightarrow> (string \<times> string list) list \<Rightarrow> nat \<Rightarrow> string list \<Rightarrow> dfs \<Rightarrow> (type_error + dfs) option"
where
  "visit 0 tds es i st = None"
| "visit (Suc f) tds es i st =
     (case dColor st ! i of
        Black \<Rightarrow> Some (Inr st)
      | Gray \<Rightarrow> Some (Inl (ErrCycle (cyclePath (dPath st) (fst (es ! i)))))
      | White \<Rightarrow>
          (case visitDeps f tds es i (snd (es ! i))
              (st\<lparr>dColor := (dColor st)[i := Gray], dPath := dPath st @ [fst (es ! i)]\<rparr>) of
             None \<Rightarrow> None
           | Some (Inl e) \<Rightarrow> Some (Inl e)
           | Some (Inr st) \<Rightarrow> Some (Inr (st\<lparr>dPath := butlast (dPath st), dColor := (dColor st)[i := Black],
               dOrdered := dOrdered st @ [tds ! i]\<rparr>))))"
| "visitDeps f tds es i [] st = Some (Inr st)"
| "visitDeps f tds es i (d # ds) st =
     (if d = emptyStructName then visitDeps f tds es i ds st
      else case indexOf es d of
        None \<Rightarrow> Some (Inl (ErrNoDef (fst (es ! i)) d))
      | Some j \<Rightarrow>
          (case visit f tds es j st of
             None \<Rightarrow> None
           | Some (Inl e) \<Rightarrow> Some (Inl e)
           | Some (Inr st) \<Rightarrow> visitDeps f tds es i ds st))"

text \<open>\<^verbatim>\<open>for i := range typeDefs { visit(i) }\<close>\<close>

fun visitAll :: "nat \<Rightarrow> json list \<Rightarrow> (string \<times> string list) list \<Rightarrow> nat list \<Rightarrow> dfs \<Rightarrow> (type_error + dfs) option" where
  "visitAll f tds es [] st = Some (Inr st)"
| "visitAll f tds es (i # is) st =
     (case visit f tds es i st of None \<Rightarrow> None | Some (Inl e) \<Rightarrow> Some (Inl e)
      | Some (Inr st) \<Rightarrow> visitAll f tds es is st)"

definition dfs0 :: "nat \<Rightarrow> dfs" where
  "dfs0 n = \<lparr>dColor = replicate n White, dOrdered = [], dPath = []\<rparr>"

definition orderTypeDefsByDependency :: "json list \<Rightarrow> (type_error + json list) option" where
  "orderTypeDefsByDependency tds =
     (case readDefs tds [] of Inl e \<Rightarrow> Some (Inl e)
      | Inr es \<Rightarrow>
          (case visitAll (Suc (length tds)) tds es [0..<length tds] (dfs0 (length tds)) of
             None \<Rightarrow> None | Some (Inl e) \<Rightarrow> Some (Inl e) | Some (Inr st) \<Rightarrow> Some (Inr (dOrdered st))))"

section \<open>The check\<close>

fun checkDeps :: "(string \<times> string list) list \<Rightarrow> nat \<Rightarrow> string list \<Rightarrow> type_error option" where
  "checkDeps es i [] = None"
| "checkDeps es i (d # ds) =
     (if d = emptyStructName then checkDeps es i ds
      else case indexOf es d of None \<Rightarrow> Some (ErrNoDef (fst (es ! i)) d)
        | Some j \<Rightarrow> if j \<ge> i then Some (ErrOrder i j) else checkDeps es i ds)"

fun checkEntries :: "(string \<times> string list) list \<Rightarrow> nat list \<Rightarrow> type_error option" where
  "checkEntries es [] = None"
| "checkEntries es (i # is) = (case checkDeps es i (snd (es ! i)) of Some e \<Rightarrow> Some e | None \<Rightarrow> checkEntries es is)"

definition checkTypeDefOrder :: "json list \<Rightarrow> type_error option" where
  "checkTypeDefOrder tds = (case readDefs tds [] of Inl e \<Rightarrow> Some e | Inr es \<Rightarrow> checkEntries es [0..<length es])"

section \<open>Reading the table\<close>

lemma readDefs_iff:
  "readDefs tds seen = Inr es \<longleftrightarrow>
     map typeDefDeps tds = map Inr es \<and> distinct (map fst es) \<and> set (map fst es) \<inter> set seen = {}"
proof (induction tds arbitrary: seen es)
  case (Cons td tds)
  show ?case
  proof (cases "typeDefDeps td")
    case (Inr nd)
    obtain name deps where nd: "nd = (name, deps)" by (cases nd)
    show ?thesis
    proof (cases es)
      case Nil
      with Inr nd show ?thesis by (auto split: sum.split if_split_asm)
    next
      case (Cons e es')
      have "readDefs (td # tds) seen = Inr es \<longleftrightarrow> name \<notin> set seen \<and> e = nd \<and> readDefs tds (name # seen) = Inr es'"
        using Inr nd Cons by (auto split: sum.split if_split)
      with Cons.IH [of "name # seen" es'] Inr nd Cons show ?thesis by (simp add: Int_insert_right) (metis image_eqI fst_conv)
    qed
  qed auto
qed auto

lemma indexOf_iff:
  assumes "distinct (map fst es)"
  shows "indexOf es d = Some j \<longleftrightarrow> j < length es \<and> fst (es ! j) = d"
proof -
  have "map_of (zip (map fst es) [0..<length es]) d = Some j \<longleftrightarrow> (d, j) \<in> set (zip (map fst es) [0..<length es])"
    using assms by (intro map_of_eq_Some_iff) simp
  then show ?thesis by (auto simp: indexOf_def set_zip intro!: exI [of _ j])
qed

definition before :: "(string \<times> string list) list \<Rightarrow> nat set \<Rightarrow> string list \<Rightarrow> bool" where
  "before es S ds \<longleftrightarrow> (\<forall>d \<in> set ds. d = emptyStructName \<or> (\<exists>j \<in> S. indexOf es d = Some j))"

lemma before_simps [simp]: "before es S []"
  "before es S (d # ds) \<longleftrightarrow> (d = emptyStructName \<or> (\<exists>j \<in> S. indexOf es d = Some j)) \<and> before es S ds"
  by (auto simp: before_def)

lemma before_mono: "before es S ds \<Longrightarrow> S \<subseteq> T \<Longrightarrow> before es T ds"
  unfolding before_def by blast

lemma checkDeps_iff: "checkDeps es i ds = None \<longleftrightarrow> before es {..<i} ds"
  by (induction ds) (auto split: option.split)

lemma checkEntries_iff: "checkEntries es is = None \<longleftrightarrow> (\<forall>i \<in> set is. before es {..<i} (snd (es ! i)))"
  by (induction "is") (auto simp flip: checkDeps_iff split: option.split)

lemma check_iff:
  "checkTypeDefOrder tds = None \<longleftrightarrow>
     (\<exists>es. readDefs tds [] = Inr es \<and> (\<forall>i < length es. before es {..<i} (snd (es ! i))))"
  by (auto simp: checkTypeDefOrder_def checkEntries_iff split: sum.split)

section \<open>The search keeps the order\<close>

definition colored :: "dfs \<Rightarrow> color \<Rightarrow> nat set" where
  "colored st c = {i. i < length (dColor st) \<and> dColor st ! i = c}"

lemma colored_upd:
  "i < length (dColor st) \<Longrightarrow> colored (st\<lparr>dColor := (dColor st)[i := c], dOrdered := xs, dPath := p\<rparr>) c' =
     (if c = c' then insert i (colored st c') else colored st c' - {i})"
  by (auto simp: colored_def nth_list_update)

lemma colored_upd2:
  "i < length (dColor st) \<Longrightarrow> colored (st\<lparr>dColor := (dColor st)[i := c], dPath := p\<rparr>) c' =
     (if c = c' then insert i (colored st c') else colored st c' - {i})"
  by (auto simp: colored_def nth_list_update)

text \<open>The entries out so far are those of \<open>bs\<close>, each after its dependencies.\<close>

definition search_inv :: "json list \<Rightarrow> (string \<times> string list) list \<Rightarrow> nat list \<Rightarrow> dfs \<Rightarrow> bool" where
  "search_inv tds es bs st \<longleftrightarrow> length (dColor st) = length es \<and> dOrdered st = map ((!) tds) bs \<and> distinct bs \<and>
     set bs = colored st Black \<and> (\<forall>k < length bs. before es (set (take k bs)) (snd (es ! (bs ! k))))"

lemma search_inv_push:
  assumes "search_inv tds es bs st" and "dColor st ! i = White" and "i < length es"
  shows "search_inv tds es bs (st\<lparr>dColor := (dColor st)[i := Gray], dPath := p\<rparr>)"
    and "colored (st\<lparr>dColor := (dColor st)[i := Gray], dPath := p\<rparr>) Gray = insert i (colored st Gray)"
    and "i \<notin> colored st Gray"
  using assms colored_upd2 [where i = i and st = st and c = Gray and p = p]
  by (auto simp: search_inv_def colored_def)

lemma search_inv_pop:
  assumes "search_inv tds es bs st" and "dColor st ! i = Gray" and "i < length es" and "before es (set bs) (snd (es ! i))"
    and st'_def: "st' = st\<lparr>dPath := p, dColor := (dColor st)[i := Black], dOrdered := dOrdered st @ [tds ! i]\<rparr>"
  shows "search_inv tds es (bs @ [i]) st'" and "colored st' Gray = colored st Gray - {i}"
proof -
  have len: "i < length (dColor st)" using assms(1,3) by (simp add: search_inv_def)
  have c: "colored st' c = (if c = Black then insert i (colored st c) else colored st c - {i})" for c
    using len by (auto simp: st'_def colored_def nth_list_update)
  then show "colored st' Gray = colored st Gray - {i}" by simp
  have "i \<notin> set bs" using assms(1,2) by (auto simp: search_inv_def colored_def)
  moreover have "before es (set (take k (bs @ [i]))) (snd (es ! ((bs @ [i]) ! k)))" if "k < length (bs @ [i])" for k
    using that assms(1,4) by (cases "k = length bs") (auto simp: search_inv_def nth_append)
  ultimately show "search_inv tds es (bs @ [i]) st'"
    using assms(1) c [of Black] by (simp add: search_inv_def) (simp add: st'_def)
qed

lemma visit_inv:
  "visit f tds es i st = Some (Inr st') \<Longrightarrow> search_inv tds es bs st \<Longrightarrow> i < length es \<Longrightarrow> distinct (map fst es) \<Longrightarrow>
     \<exists>cs. search_inv tds es (bs @ cs) st' \<and> colored st' Gray = colored st Gray \<and> i \<in> set (bs @ cs)"
  "visitDeps f tds es i ds st = Some (Inr st') \<Longrightarrow> search_inv tds es bs st \<Longrightarrow> distinct (map fst es) \<Longrightarrow>
     \<exists>cs. search_inv tds es (bs @ cs) st' \<and> colored st' Gray = colored st Gray \<and> before es (set (bs @ cs)) ds"
proof (induction f tds es i st and f tds es i ds st arbitrary: st' bs and st' bs rule: visit_visitDeps.induct)
  case (2 f tds es i st)
  show ?case
  proof (cases "dColor st ! i")
    case White
    let ?st = "st\<lparr>dColor := (dColor st)[i := Gray], dPath := dPath st @ [fst (es ! i)]\<rparr>"
    note push = search_inv_push(1,2) [OF "2.prems"(2) White "2.prems"(3), where p = "dPath st @ [fst (es ! i)]"]
    obtain st1 where st1: "visitDeps f tds es i (snd (es ! i)) ?st = Some (Inr st1)"
      and st': "st' = st1\<lparr>dPath := butlast (dPath st1), dColor := (dColor st1)[i := Black], dOrdered := dOrdered st1 @ [tds ! i]\<rparr>"
      using "2.prems"(1) White by (auto split: option.split_asm sum.split_asm)
    obtain cs where cs: "search_inv tds es (bs @ cs) st1" "colored st1 Gray = colored ?st Gray" "before es (set (bs @ cs)) (snd (es ! i))"
      using "2.IH" [OF White st1 push(1) "2.prems"(4)] by blast
    have "dColor st1 ! i = Gray" using cs(2) push(2) by (auto simp: colored_def)
    note pop = search_inv_pop [OF cs(1) this "2.prems"(3) cs(3) st']
    then show ?thesis using cs(2) push(2) search_inv_push(3) [OF "2.prems"(2) White "2.prems"(3)] by (intro exI [of _ "cs @ [i]"]) auto
  next
    case Black
    with "2.prems" show ?thesis by (intro exI [of _ "[]"]) (auto simp: search_inv_def colored_def)
  qed (use "2.prems" in auto)
next
  case (4 f tds es i d ds st)
  show ?case
  proof (cases "d = emptyStructName")
    case True
    with 4 show ?thesis by auto
  next
    case False
    obtain j st1 where j: "indexOf es d = Some j" "visit f tds es j st = Some (Inr st1)" "visitDeps f tds es i ds st1 = Some (Inr st')"
      using "4.prems"(1) False by (auto split: option.split_asm sum.split_asm)
    have lt: "j < length es" using j(1) indexOf_iff [OF "4.prems"(3)] by blast
    obtain cs where cs: "search_inv tds es (bs @ cs) st1" "colored st1 Gray = colored st Gray" "j \<in> set (bs @ cs)"
      using "4.IH"(2) [OF False j(1,2) "4.prems"(2) lt "4.prems"(3)] by blast
    obtain cs' where cs': "search_inv tds es ((bs @ cs) @ cs') st'" "colored st' Gray = colored st1 Gray" "before es (set ((bs @ cs) @ cs')) ds"
      using "4.IH"(3) [OF False j(1,2) refl j(3) cs(1) "4.prems"(3)] by blast
    show ?thesis using cs cs' j(1) by (intro exI [of _ "cs @ cs'"]) auto
  qed
qed (auto intro: exI [of _ "[]"])

section \<open>The depth bound\<close>

lemma colored_bound: "length (dColor st) = n \<Longrightarrow> card (colored st c) \<le> n"
  using card_mono [of "{..<n}" "colored st c"] by (auto simp: colored_def)

lemma visit_bound:
  "search_inv tds es bs st \<Longrightarrow> i < length es \<Longrightarrow> distinct (map fst es) \<Longrightarrow> length es < f + card (colored st Gray) \<Longrightarrow>
     visit f tds es i st \<noteq> None"
  "search_inv tds es bs st \<Longrightarrow> distinct (map fst es) \<Longrightarrow> length es < f + card (colored st Gray) \<Longrightarrow>
     visitDeps f tds es i ds st \<noteq> None"
proof (induction f tds es i st and f tds es i ds st arbitrary: bs and bs rule: visit_visitDeps.induct)
  case (1 tds es i st)
  then show ?case using colored_bound [of st "length es" Gray] by (simp add: search_inv_def)
next
  case (2 f tds es i st)
  show ?case
  proof (cases "dColor st ! i")
    case White
    note push = search_inv_push(1,2) [OF "2.prems"(1) White "2.prems"(2), where p = "dPath st @ [fst (es ! i)]"]
    have "finite (colored st Gray)" by (simp add: colored_def)
    then have "card (colored (st\<lparr>dColor := (dColor st)[i := Gray], dPath := dPath st @ [fst (es ! i)]\<rparr>) Gray) = Suc (card (colored st Gray))"
      using push(2) search_inv_push(3) [OF "2.prems"(1) White "2.prems"(2)] by simp
    with "2.IH" [OF White push(1) "2.prems"(3)] "2.prems"(4) White show ?thesis
      by (auto split: option.split sum.split)
  qed auto
next
  case (4 f tds es i d ds st)
  show ?case
  proof (cases "d = emptyStructName \<or> indexOf es d = None")
    case True
    with 4 show ?thesis by auto
  next
    case False
    then obtain j where d: "d \<noteq> emptyStructName" and j: "indexOf es d = Some j" by auto
    have lt: "j < length es" using j indexOf_iff [OF "4.prems"(2)] by blast
    obtain r where r: "visit f tds es j st = Some r" using "4.IH"(2) [OF d j "4.prems"(1) lt "4.prems"(2,3)] by auto
    show ?thesis
    proof (cases r)
      case (Inr st1)
      obtain cs where "search_inv tds es (bs @ cs) st1" "colored st1 Gray = colored st Gray"
        using visit_inv(1) [OF _ "4.prems"(1) lt "4.prems"(2)] r Inr by blast
      with "4.IH"(3) [OF d j r [unfolded Inr] refl _ "4.prems"(2)] "4.prems"(3) have "visitDeps f tds es i ds st1 \<noteq> None" by metis
      with d j r Inr show ?thesis by simp
    qed (use d j r in simp)
  qed
qed simp

section \<open>A table that can be ordered is ordered\<close>

definition ranked :: "(nat \<Rightarrow> nat) \<Rightarrow> (string \<times> string list) list \<Rightarrow> bool" where
  "ranked rk es \<longleftrightarrow> (\<forall>i < length es. before es {j. rk j < rk i} (snd (es ! i)))"

lemma visit_ranked:
  "search_inv tds es bs st \<Longrightarrow> i < length es \<Longrightarrow> distinct (map fst es) \<Longrightarrow> ranked rk es \<Longrightarrow>
     \<forall>g \<in> colored st Gray. rk i < rk g \<Longrightarrow> visit f tds es i st \<noteq> Some (Inl e)"
  "search_inv tds es bs st \<Longrightarrow> i < length es \<Longrightarrow> distinct (map fst es) \<Longrightarrow> ranked rk es \<Longrightarrow>
     \<forall>g \<in> colored st Gray. rk i \<le> rk g \<Longrightarrow> before es {j. rk j < rk i} ds \<Longrightarrow> visitDeps f tds es i ds st \<noteq> Some (Inl e)"
proof (induction f tds es i st and f tds es i ds st arbitrary: bs e and bs e rule: visit_visitDeps.induct)
  case (2 f tds es i st)
  show ?case
  proof (cases "dColor st ! i")
    case White
    note push = search_inv_push(1,2) [OF "2.prems"(1) White "2.prems"(2), where p = "dPath st @ [fst (es ! i)]"]
    have "before es {j. rk j < rk i} (snd (es ! i))" using "2.prems"(2,4) by (simp add: ranked_def)
    with "2.IH" [OF White push(1) "2.prems"(2,3,4)] push(2) "2.prems"(5) White show ?thesis
      by (auto simp: less_imp_le split: option.split sum.split)
  next
    case Gray
    then have "i \<in> colored st Gray" using "2.prems"(1,2) by (simp add: colored_def search_inv_def)
    with "2.prems"(5) show ?thesis by blast
  qed simp
next
  case (4 f tds es i d ds st)
  show ?case
  proof (cases "d = emptyStructName")
    case True
    with 4 show ?thesis by auto
  next
    case False
    then obtain j where j: "indexOf es d = Some j" "rk j < rk i" using "4.prems"(6) by auto
    have lt: "j < length es" using j indexOf_iff [OF "4.prems"(3)] by blast
    have "\<forall>g \<in> colored st Gray. rk j < rk g" using j(2) "4.prems"(5) by fastforce
    then have no: "visit f tds es j st \<noteq> Some (Inl e)" for e using "4.IH"(2) [OF False j(1) "4.prems"(1) lt "4.prems"(3,4)] by blast
    show ?thesis
    proof (cases "visit f tds es j st")
      case (Some r)
      with no obtain st1 where st1: "visit f tds es j st = Some (Inr st1)" by (cases r) auto
      obtain cs where "search_inv tds es (bs @ cs) st1" "colored st1 Gray = colored st Gray"
        using visit_inv(1) [OF st1 "4.prems"(1) lt "4.prems"(3)] by blast
      with "4.IH"(3) [OF False j(1) st1 refl _ "4.prems"(2,3,4)] "4.prems"(5,6) have "visitDeps f tds es i ds st1 \<noteq> Some (Inl e)" by simp
      with False j st1 show ?thesis by simp
    qed (use False j in simp)
  qed
qed auto

section \<open>The loop\<close>

lemma visitAll_run:
  assumes "search_inv tds es bs st" and "colored st Gray = {}" and "set is \<subseteq> {..<length es}" and "distinct (map fst es)" and "length es < f"
  shows "\<exists>r. visitAll f tds es is st = Some r \<and> (ranked rk es \<longrightarrow> (\<exists>st'. r = Inr st')) \<and>
    (\<forall>st'. r = Inr st' \<longrightarrow> (\<exists>cs. search_inv tds es (bs @ cs) st' \<and> set is \<subseteq> set (bs @ cs)))"
  using assms
proof (induction "is" arbitrary: st bs)
  case Nil
  then show ?case by (auto intro: exI [of _ "[]"])
next
  case (Cons i "is")
  have i: "i < length es" using Cons.prems(3) by simp
  obtain r where r: "visit f tds es i st = Some r"
    using visit_bound(1) [OF Cons.prems(1) i Cons.prems(4), of f] Cons.prems(2,5) by auto
  show ?case
  proof (cases r)
    case (Inl e)
    with r visit_ranked(1) [OF Cons.prems(1) i Cons.prems(4), of rk f e] Cons.prems(2) show ?thesis by auto
  next
    case (Inr st1)
    obtain cs where cs: "search_inv tds es (bs @ cs) st1" "colored st1 Gray = {}" "i \<in> set (bs @ cs)"
      using visit_inv(1) [OF r [unfolded Inr] Cons.prems(1) i Cons.prems(4)] Cons.prems(2) by auto
    from Cons.IH [OF cs(1,2) _ Cons.prems(4,5)] Cons.prems(3) obtain q where q: "visitAll f tds es is st1 = Some q"
      "ranked rk es \<longrightarrow> (\<exists>st'. q = Inr st')"
      "\<forall>st'. q = Inr st' \<longrightarrow> (\<exists>cs'. search_inv tds es ((bs @ cs) @ cs') st' \<and> set is \<subseteq> set ((bs @ cs) @ cs'))" by auto
    have "\<exists>cs'. search_inv tds es (bs @ cs') st' \<and> set (i # is) \<subseteq> set (bs @ cs')" if q': "q = Inr st'" for st'
    proof -
      obtain cs' where "search_inv tds es ((bs @ cs) @ cs') st'" "set is \<subseteq> set ((bs @ cs) @ cs')" using q(3) q' by blast
      with cs(3) show ?thesis by (intro exI [of _ "cs @ cs'"]) auto
    qed
    with q r Inr show ?thesis by simp
  qed
qed

lemma search_inv0: "length es = n \<Longrightarrow> search_inv tds es [] (dfs0 n)" "colored (dfs0 n) Gray = {}"
  by (auto simp: search_inv_def colored_def dfs0_def)

text \<open>A permutation of the entries that puts each after its dependencies passes the check.\<close>

lemma check_permuted:
  assumes "readDefs tds [] = Inr es" and "distinct bs" and "set bs = {..<length es}"
    and "\<forall>k < length bs. before es (set (take k bs)) (snd (es ! (bs ! k)))"
  shows "checkTypeDefOrder (map ((!) tds) bs) = None"
proof -
  have rd: "map typeDefDeps tds = map Inr es" "distinct (map fst es)" using assms(1) by (auto simp: readDefs_iff)
  have len: "length tds = length es" using rd(1) by (metis length_map)
  let ?es = "map ((!) es) bs"
  have "typeDefDeps (tds ! i) = Inr (es ! i)" if "i < length es" for i
    using rd(1) that len by (metis nth_map)
  then have "map typeDefDeps (map ((!) tds) bs) = map Inr ?es" using assms(3) by auto
  moreover have dist: "distinct (map fst ?es)"
  proof -
    have "map fst ?es = map ((!) (map fst es)) bs" using assms(3) by auto
    moreover have "inj_on ((!) (map fst es)) (set bs)" using inj_on_nth [OF rd(2)] assms(3) by auto
    ultimately show ?thesis using assms(2) by (simp only: distinct_map)
  qed
  ultimately have "readDefs (map ((!) tds) bs) [] = Inr ?es" by (simp add: readDefs_iff)
  moreover have "before ?es {..<k} (snd (?es ! k))" if k: "k < length ?es" for k
  proof -
    have "\<exists>m < k. indexOf ?es d = Some m" if "j \<in> set (take k bs)" "indexOf es d = Some j" for j d
    proof -
      obtain m where "m < k" "bs ! m = j" using \<open>j \<in> set (take k bs)\<close> k by (auto simp: in_set_conv_nth)
      then show ?thesis using that(2) k indexOf_iff [OF dist] indexOf_iff [OF rd(2)] by auto
    qed
    then show ?thesis using assms(4) k unfolding before_def by (simp del: map_map) (metis lessThan_iff)
  qed
  ultimately show ?thesis unfolding check_iff by blast
qed

lemma visitDeps_black:
  "before es (colored st Black) ds \<Longrightarrow> visitDeps (Suc f) tds es i ds st = Some (Inr st)"
  by (induction ds) (auto simp: colored_def)

text \<open>An ordered table: after \<open>k\<close> entries the search has put out the first \<open>k\<close>.\<close>

definition at_entry :: "json list \<Rightarrow> nat \<Rightarrow> dfs" where
  "at_entry tds k = \<lparr>dColor = replicate k Black @ replicate (length tds - k) White, dOrdered = take k tds, dPath = []\<rparr>"

lemma visit_ordered:
  assumes "k < length tds" and "length es = length tds" and "before es {..<k} (snd (es ! k))"
  shows "visit (Suc (Suc f)) tds es k (at_entry tds k) = Some (Inr (at_entry tds (Suc k)))"
proof -
  let ?st = "(at_entry tds k)\<lparr>dColor := (dColor (at_entry tds k))[k := Gray], dPath := dPath (at_entry tds k) @ [fst (es ! k)]\<rparr>"
  have len: "length tds - k = Suc (length tds - Suc k)" using assms(1) by simp
  have "{..<k} \<subseteq> colored ?st Black" using assms(1) by (auto simp: colored_def at_entry_def nth_append nth_list_update)
  with before_mono [OF assms(3)] have "visitDeps (Suc f) tds es k (snd (es ! k)) ?st = Some (Inr ?st)"
    by (intro visitDeps_black)
  moreover have "dColor (at_entry tds k) ! k = White" using len by (simp add: at_entry_def nth_append)
  moreover have "replicate k Black @ Black # xs = replicate (Suc k) Black @ xs" for xs
    by (simp add: replicate_app_Cons_same)
  ultimately show ?thesis
    using assms(1) by (simp add: at_entry_def len list_update_append take_Suc_conv_app_nth del: replicate_app_Cons_same)
qed

lemma visitAll_ordered:
  assumes "length es = length tds" and "\<forall>i < length es. before es {..<i} (snd (es ! i))" and "k \<le> length tds"
  shows "visitAll (Suc (Suc f)) tds es [k..<length tds] (at_entry tds k) = Some (Inr (at_entry tds (length tds)))"
  using assms(3)
proof (induction "length tds - k" arbitrary: k)
  case (Suc m)
  then have "k < length tds" by simp
  moreover from this have "[k..<length tds] = k # [Suc k..<length tds]" by (rule upt_conv_Cons)
  ultimately show ?case using Suc.hyps(1) [of "Suc k"] Suc.hyps(2) visit_ordered [of k tds es f] assms(1,2) by simp
qed simp

lemma ranked_by_order:
  assumes "mset tds' = mset tds" and "checkTypeDefOrder tds' = None"
  obtains es rk where "readDefs tds [] = Inr es" and "ranked rk es"
proof -
  obtain es' where es': "readDefs tds' [] = Inr es'" and ord: "\<forall>i < length es'. before es' {..<i} (snd (es' ! i))"
    using assms(2) unfolding check_iff by blast
  let ?g = "\<lambda>td. projr (typeDefDeps td)"
  define es where "es = map ?g tds"
  have m': "map typeDefDeps tds' = map Inr es'" and d': "distinct (map fst es')" using es' by (auto simp: readDefs_iff)
  have "typeDefDeps td = Inr (?g td)" if "td \<in> set tds'" for td
    using that m' by (metis (no_types, lifting) imageE image_eqI list.set_map sum.sel(2))
  then have all: "map typeDefDeps tds = map Inr es" using mset_eq_setD [OF assms(1)] by (simp add: es_def)
  have "es' = map ?g tds'" using m' by (metis (no_types, lifting) list.map_comp list.map_id0 comp_apply id_apply list.map_cong0 sum.sel(2))
  then have mm: "mset es' = mset es" using assms(1) by (simp add: es_def)
  then have d: "distinct (map fst es)" using d' mset_eq_imp_distinct_iff [of "map fst es" "map fst es'"] by simp
  have "readDefs tds [] = Inr es" using all d by (simp add: readDefs_iff)
  moreover have "ranked (\<lambda>i. the (indexOf es' (fst (es ! i)))) es"
  proof -
    have pos: "indexOf es' (fst (es ! i)) = Some k" if "es' ! k = es ! i" "k < length es'" for i k
      using that indexOf_iff [OF d'] by auto
    have orig: "\<exists>m. indexOf es x = Some m \<and> the (indexOf es' (fst (es ! m))) = j" if x: "indexOf es' x = Some j" for x j
    proof -
      have j: "j < length es'" "fst (es' ! j) = x" using x indexOf_iff [OF d'] by auto
      then have "es' ! j \<in> set es" using mset_eq_setD [OF mm] nth_mem by blast
      then obtain m where "m < length es" "es ! m = es' ! j" by (auto simp: in_set_conv_nth)
      with j x show ?thesis using indexOf_iff [OF d] by auto
    qed
    have "before es {j. the (indexOf es' (fst (es ! j))) < the (indexOf es' (fst (es ! i)))} (snd (es ! i))" if i: "i < length es" for i
    proof -
      have "es ! i \<in> set es'" using mset_eq_setD [OF mm] i nth_mem by blast
      then obtain k where k: "k < length es'" "es' ! k = es ! i" by (auto simp: in_set_conv_nth)
      then have "before es' {..<k} (snd (es ! i))" using ord by metis
      then show ?thesis unfolding before_def using orig pos [OF k(2,1)] by fastforce
    qed
    then show ?thesis by (simp add: ranked_def)
  qed
  ultimately show thesis using that by blast
qed

section \<open>Properties\<close>

text \<open>
  C26. The type table is ordered whenever it can be. The search ends; what it returns is a
  permutation of the table in which every entry comes after the entries it depends on, so that the
  final check accepts it; it fails only if no order of the entries passes the check (a missing or
  repeated entry, a malformed one, or a cycle); and a table that is in order already is returned
  as it is.
\<close>

theorem type_order_correct:
  "\<exists>r. orderTypeDefsByDependency tds = Some r \<and>
    (case r of
       Inr out \<Rightarrow> mset out = mset tds \<and> checkTypeDefOrder out = None
     | Inl e \<Rightarrow> (\<nexists>tds'. mset tds' = mset tds \<and> checkTypeDefOrder tds' = None)) \<and>
    (checkTypeDefOrder tds = None \<longrightarrow> r = Inr tds)"
proof (cases "readDefs tds []")
  case (Inl e)
  then show ?thesis using ranked_by_order [of _ tds] by (auto simp: orderTypeDefsByDependency_def checkTypeDefOrder_def)
next
  case (Inr es)
  have len: "length es = length tds" and d: "distinct (map fst es)" using Inr by (auto simp: readDefs_iff dest: map_eq_imp_length_eq)
  let ?n = "length tds" and ?run = "visitAll (Suc (length tds)) tds es [0..<length tds] (dfs0 (length tds))"
  have run: "\<exists>q. ?run = Some q \<and> (ranked rk es \<longrightarrow> (\<exists>st'. q = Inr st')) \<and>
      (\<forall>st'. q = Inr st' \<longrightarrow> (\<exists>cs. search_inv tds es ([] @ cs) st' \<and> set [0..<?n] \<subseteq> set ([] @ cs)))" for rk
    by (rule visitAll_run [OF search_inv0(1) [OF len] search_inv0(2) _ d]) (auto simp: len)
  obtain q where q: "?run = Some q" using run by blast
  have "mset (dOrdered st) = mset tds \<and> checkTypeDefOrder (dOrdered st) = None" if st: "q = Inr st" for st
  proof -
    obtain cs where cs: "search_inv tds es cs st" "{..<?n} \<subseteq> set cs" using run q st by (auto simp: atLeast0LessThan)
    then have set: "set cs = {..<length es}" "distinct cs" by (auto simp: search_inv_def colored_def len)
    have "set cs = set [0..<?n]" unfolding set(1) len by (simp add: atLeast0LessThan)
    then have "mset cs = mset [0..<?n]" using set(2) by (simp only: set_eq_iff_mset_eq_distinct distinct_upt)
    then have "mset (map ((!) tds) cs) = mset (map ((!) tds) [0..<?n])" by (simp only: mset_map)
    then show ?thesis using check_permuted [OF Inr set(2,1)] cs(1) by (simp add: search_inv_def map_nth)
  qed
  moreover have "\<nexists>tds'. mset tds' = mset tds \<and> checkTypeDefOrder tds' = None" if e: "q = Inl e" for e
  proof
    assume "\<exists>tds'. mset tds' = mset tds \<and> checkTypeDefOrder tds' = None"
    then obtain rk where "ranked rk es" using ranked_by_order [of _ tds] Inr by (metis sum.inject(2))
    with run [of rk] q e show False by simp
  qed
  moreover have "q = Inr (at_entry tds ?n)" if chk: "checkTypeDefOrder tds = None"
  proof (cases tds)
    case (Cons td tds')
    have "\<forall>i < length es. before es {..<i} (snd (es ! i))" using chk Inr unfolding check_iff by auto
    then have "visitAll (Suc (Suc (length tds'))) tds es [0..<?n] (at_entry tds 0) = Some (Inr (at_entry tds ?n))"
      by (intro visitAll_ordered [OF len]) simp_all
    then show ?thesis using q Cons by (simp add: dfs0_def at_entry_def)
  qed (use q in \<open>simp add: dfs0_def at_entry_def\<close>)
  ultimately show ?thesis using q Inr by (cases q) (auto simp: orderTypeDefsByDependency_def at_entry_def)
qed

definition demoDef :: "string \<Rightarrow> string \<Rightarrow> json" where
  "demoDef name target = JObj [(''name'', JStr name), (''def'', JObj [(''kind'', JStr ''defined''),
     (''target'', JObj [(''kind'', JStr ''array''), (''elem'', JObj [(''kind'', JStr ''named''), (''name'', JStr target)])])])]"

theorem type_order_correct_witness:
  "orderTypeDefsByDependency [demoDef ''B'' ''A'', demoDef ''A'' ''struct{}''] =
     Some (Inr [demoDef ''A'' ''struct{}'', demoDef ''B'' ''A'']) \<and>
   checkTypeDefOrder [demoDef ''A'' ''struct{}'', demoDef ''B'' ''A''] = None \<and>
   orderTypeDefsByDependency [demoDef ''A'' ''struct{}'', demoDef ''B'' ''A''] =
     Some (Inr [demoDef ''A'' ''struct{}'', demoDef ''B'' ''A''])"
proof -
  have "orderTypeDefsByDependency [demoDef ''B'' ''A'', demoDef ''A'' ''struct{}''] =
     Some (Inr [demoDef ''A'' ''struct{}'', demoDef ''B'' ''A''])" by code_simp
  moreover from this type_order_correct [of "[demoDef ''B'' ''A'', demoDef ''A'' ''struct{}'']"]
  have "checkTypeDefOrder [demoDef ''A'' ''struct{}'', demoDef ''B'' ''A''] = None" by simp
  ultimately show ?thesis
    using type_order_correct [of "[demoDef ''A'' ''struct{}'', demoDef ''B'' ''A'']"] by auto
qed

end
