(* ===== verification/InitTask.thy ===== *)
theory InitTask
  imports GoText "HOL-Library.Char_ord" "HOL-Library.List_Lexorder"
begin

text \<open>
  The facts of package initialization (tools/nativefrontend/inittask.go): the symbol prefix of an
  import path, and the table of the standard library with its lookup. The order of strings is
  Go's, byte by byte.
\<close>

section \<open>Symbol prefixes\<close>

definition initTaskSuffix :: string where
  "initTaskSuffix = ''..inittask''"

text \<open>\<^verbatim>\<open>strings.LastIndexByte\<close>\<close>

definition lastIndexByte :: "string \<Rightarrow> char \<Rightarrow> int" where
  "lastIndexByte s c = int (length s) - 1 - int (length (takeWhile (\<lambda>d. d \<noteq> c) (rev s)))"

definition needsEscape :: "string \<Rightarrow> nat \<Rightarrow> bool" where
  "needsEscape path i \<longleftrightarrow>
     (let c = path ! i; n = (of_char c :: nat) in
      n \<le> 0x20 \<or> c = CHR ''.'' \<and> int i > lastIndexByte path CHR ''/'' \<or> c = CHR ''%'' \<or> c = CHR 0x22 \<or> n \<ge> 0x7F)"

definition hexDigit :: "nat \<Rightarrow> char" where
  "hexDigit d = char_of (if d < 10 then 0x30 + d else 0x57 + d)"

text \<open>\<^verbatim>\<open>fmt.Fprintf(&b, "%%%02x", c)\<close>\<close>

definition escapeByte :: "char \<Rightarrow> string" where
  "escapeByte c = [CHR ''%'', hexDigit (of_char c div 16), hexDigit (of_char c mod 16)]"

definition pathToPrefix :: "string \<Rightarrow> string" where
  "pathToPrefix path =
     (if length (filter (needsEscape path) [0..<length path]) = 0 then path
      else concat (map (\<lambda>i. if needsEscape path i then escapeByte (path ! i) else [path ! i]) [0..<length path]))"

section \<open>The table of the standard library\<close>

record stdInitEntry =
  siNode :: bool
  siDeps :: "string list"
  siKnown :: bool
  siPath :: string

type_synonym std_table = "(string \<times> stdInitEntry) list"

text \<open>\<^verbatim>\<open>strings.Split\<close> at one byte.\<close>

fun split_at :: "char \<Rightarrow> string \<Rightarrow> string list" where
  "split_at d [] = [[]]"
| "split_at d (c # s) = (if c = d then [] # split_at d s
     else (case split_at d s of [] \<Rightarrow> [[c]] | l # ls \<Rightarrow> (c # l) # ls))"

definition parseRow :: "string \<Rightarrow> (string \<times> stdInitEntry) option" where
  "parseRow line =
     (if line = [] \<or> prefix ''#'' line then None
      else let cols = split_at TAB line in
        if length cols < 3 then None
        else Some (cols ! 0,
          \<lparr>siNode = (cols ! 1 = ''1''),
           siDeps = (if cols ! 2 = [] then [] else split_at CHR '','' (cols ! 2)),
           siKnown = (cols ! 1 \<noteq> ''?''),
           siPath = (if 4 \<le> length cols then cols ! 3 else [])\<rparr>))"

text \<open>A later row of the same package replaces the earlier one: it is found first.\<close>

definition parseStdInitTable :: "string \<Rightarrow> std_table" where
  "parseStdInitTable tsv =
     fold (\<lambda>line table. case parseRow line of None \<Rightarrow> table | Some row \<Rightarrow> row # table) (split_at NL tsv) []"

definition stdInitDisplay :: "std_table \<Rightarrow> string \<Rightarrow> string" where
  "stdInitDisplay table p =
     (case map_of table p of Some entry \<Rightarrow> if siPath entry \<noteq> [] then siPath entry else p | None \<Rightarrow> p)"

datatype init_error = ErrNotInTable string | ErrNoArchive string | ErrSharedPrefix string string
  | ErrInitCycle "string list" | ErrUncertain "string list" | ErrUndecided "string list" "string list" "string list"

definition stdInitLookup :: "std_table \<Rightarrow> string \<Rightarrow> string \<Rightarrow> init_error + stdInitEntry" where
  "stdInitLookup table p path =
     (case map_of table p of
        None \<Rightarrow> Inl (ErrNotInTable path)
      | Some entry \<Rightarrow> if \<not> siKnown entry then Inl (ErrNoArchive path) else Inr entry)"

section \<open>Reading a prefix back\<close>

definition hexVal :: "char \<Rightarrow> nat" where
  "hexVal c = (let n = of_char c in if n < 0x3A then n - 0x30 else n - 0x57)"

fun unescape :: "string \<Rightarrow> string" where
  "unescape [] = []"
| "unescape (c # s) =
     (if c = CHR ''%'' then (case s of a # b # t \<Rightarrow> char_of (16 * hexVal a + hexVal b) # unescape t | _ \<Rightarrow> c # unescape s)
      else c # unescape s)"

lemma hexVal_hexDigit: "d < 16 \<Longrightarrow> hexVal (hexDigit d) = d"
  by (auto simp: hexVal_def hexDigit_def Let_def)

lemma of_char_bound: "(of_char c :: nat) < 256"
  using mod_less_divisor [of 256 "of_char c :: nat"] by simp

lemma of_char_nibble: "(of_char c :: nat) div 16 < 16"
  using less_mult_imp_div_less [of "of_char c" 16 16] of_char_bound [of c] by simp

lemma unescape_escapeByte [simp]: "unescape (escapeByte c @ s) = c # unescape s"
  using of_char_nibble [of c] by (simp add: escapeByte_def hexVal_hexDigit)

lemma pathToPrefix_concat:
  "pathToPrefix path = concat (map (\<lambda>i. if needsEscape path i then escapeByte (path ! i) else [path ! i]) [0..<length path])"
proof (cases "filter (needsEscape path) [0..<length path] = []")
  case True
  then have "map (\<lambda>i. if needsEscape path i then escapeByte (path ! i) else [path ! i]) [0..<length path] = map (\<lambda>c. [c]) path"
    by (auto simp: filter_empty_conv intro!: nth_equalityI)
  with True show ?thesis by (simp add: pathToPrefix_def)
qed (simp add: pathToPrefix_def)

lemma unescape_concat:
  "(\<forall>i \<in> set is. \<not> esc i \<longrightarrow> f i \<noteq> CHR ''%'') \<Longrightarrow>
   unescape (concat (map (\<lambda>i. if esc i then escapeByte (f i) else [f i]) is)) = map f is"
  by (induction "is") auto

lemma unescape_pathToPrefix: "unescape (pathToPrefix path) = path"
  unfolding pathToPrefix_concat by (subst unescape_concat) (auto simp: needsEscape_def Let_def map_nth)

lemma pathToPrefix_inj: "pathToPrefix p = pathToPrefix q \<Longrightarrow> p = q"
  by (metis unescape_pathToPrefix)

lemma hexDigit_range: "d < 16 \<Longrightarrow> (of_char (hexDigit d) :: nat) \<in> {0x30..0x39} \<union> {0x61..0x66}"
  by (auto simp: hexDigit_def)

text \<open>What the prefix is made of: printable bytes, and no dot after the last slash.\<close>

lemma pathToPrefix_bytes:
  assumes "c \<in> set (pathToPrefix path)"
  shows "0x20 < (of_char c :: nat) \<and> (of_char c :: nat) < 0x7F \<and> c \<noteq> CHR 0x22"
proof -
  obtain i where i: "i < length path" and c: "c \<in> set (if needsEscape path i then escapeByte (path ! i) else [path ! i])"
    using assms unfolding pathToPrefix_concat by auto
  show ?thesis
  proof (cases "needsEscape path i")
    case True
    with of_char_nibble [of "path ! i"] hexDigit_range [of "of_char (path ! i) div 16"] hexDigit_range [of "of_char (path ! i) mod 16"] c
    show ?thesis by (auto simp: escapeByte_def)
  next
    case False
    with c show ?thesis by (auto simp: needsEscape_def Let_def)
  qed
qed

definition lastPart :: "string \<Rightarrow> string" where
  "lastPart s = rev (takeWhile (\<lambda>d. d \<noteq> CHR ''/'') (rev s))"

lemma lastPart_append: "CHR ''/'' \<notin> set b \<Longrightarrow> lastPart (a @ b) = lastPart a @ b"
  by (induction b rule: rev_induct) (auto simp: lastPart_def takeWhile_append)

lemma hexDigit_plain: "d < 16 \<Longrightarrow> CHR ''.'' \<noteq> hexDigit d \<and> CHR ''/'' \<noteq> hexDigit d"
  using hexDigit_range [of d] by (intro conjI notI) (drule sym, simp)+

lemma escapeByte_plain: "CHR ''.'' \<notin> set (escapeByte c)" "CHR ''/'' \<notin> set (escapeByte c)"
  using hexDigit_plain [OF of_char_nibble [of c]] hexDigit_plain [of "of_char c mod 16"]
  by (auto simp: escapeByte_def)

lemma after_last_slash:
  assumes "int i > lastIndexByte path CHR ''/''" and "i < length path"
  shows "path ! i \<noteq> CHR ''/''"
proof -
  let ?t = "takeWhile (\<lambda>d. d \<noteq> CHR ''/'') (rev path)"
  have "length path - Suc i < length ?t" using assms by (simp add: lastIndexByte_def)
  then have "rev path ! (length path - Suc i) \<in> set ?t" by (metis nth_mem takeWhile_nth)
  then show ?thesis using assms(2) by (auto simp: rev_nth dest: set_takeWhileD)
qed

lemma at_last_slash:
  assumes "lastIndexByte path CHR ''/'' = int k"
  shows "k < length path" and "path ! k = CHR ''/''"
proof -
  let ?t = "takeWhile (\<lambda>d. d \<noteq> CHR ''/'') (rev path)"
  have k: "length path = Suc (k + length ?t)" using assms by (simp add: lastIndexByte_def)
  then show "k < length path" by simp
  have "length ?t < length (rev path)" using k by simp
  from nth_length_takeWhile [OF this] have "rev path ! length ?t = CHR ''/''" by simp
  then show "path ! k = CHR ''/''" using k by (simp add: rev_nth)
qed

lemma lastIndexByte_range: "lastIndexByte s c \<ge> - 1"
  using length_takeWhile_le [of "\<lambda>d. d \<noteq> c" "rev s"] by (simp add: lastIndexByte_def)

lemma pathToPrefix_last_part: "CHR ''.'' \<notin> set (lastPart (pathToPrefix path))"
proof -
  define e where "e = (\<lambda>i. if needsEscape path i then escapeByte (path ! i) else [path ! i])"
  define k where "k = nat (lastIndexByte path CHR ''/'' + 1)"
  have le: "k \<le> length path" by (simp add: k_def lastIndexByte_def)
  have after: "CHR ''/'' \<notin> set (e i) \<and> CHR ''.'' \<notin> set (e i)" if "k \<le> i" "i < length path" for i
  proof -
    have "int i > lastIndexByte path CHR ''/''" using that(1) by (simp add: k_def)
    with after_last_slash [OF _ that(2)] show ?thesis by (auto simp: e_def escapeByte_plain needsEscape_def Let_def)
  qed
  have "lastPart (concat (map e [0..<k])) = []"
  proof (cases k)
    case (Suc j)
    then have "lastIndexByte path CHR ''/'' = int j" by (simp add: k_def)
    from at_last_slash [OF this] have "\<not> needsEscape path j" "path ! j = CHR ''/''" by (simp_all add: needsEscape_def)
    with Suc show ?thesis by (simp add: lastPart_def e_def)
  qed (simp add: lastPart_def)
  moreover have "pathToPrefix path = concat (map e [0..<k]) @ concat (map e [k..<length path])"
    unfolding pathToPrefix_concat e_def [symmetric] using upt_add_eq_append [of 0 k "length path - k"] le by simp
  moreover have "CHR ''/'' \<notin> set (concat (map e [k..<length path]))" using after by simp
  ultimately have "lastPart (pathToPrefix path) = concat (map e [k..<length path])" by (simp add: lastPart_append)
  then show ?thesis using after by auto
qed

section \<open>Properties\<close>

text \<open>
  C32. The symbol prefix of an import path determines the path: reading the escapes back gives it, so
  two packages share a prefix only if they have the same path. The prefix is made of printable
  bytes without quotes, has no dot after its last slash, and is the path itself exactly if
  no byte of it has to be escaped.
\<close>

theorem path_prefix_faithful:
  "unescape (pathToPrefix path) = path \<and> (pathToPrefix path = pathToPrefix path' \<longleftrightarrow> path = path') \<and>
   list_all (\<lambda>c. 0x20 < (of_char c :: nat) \<and> (of_char c :: nat) < 0x7F \<and> c \<noteq> CHR 0x22) (pathToPrefix path) \<and>
   CHR ''.'' \<notin> set (lastPart (pathToPrefix path)) \<and>
   (pathToPrefix path = path \<longleftrightarrow> list_all (\<lambda>i. \<not> needsEscape path i) [0..<length path])"
proof -
  have "pathToPrefix path = path \<longleftrightarrow> list_all (\<lambda>i. \<not> needsEscape path i) [0..<length path]"
  proof
    assume id: "pathToPrefix path = path"
    show "list_all (\<lambda>i. \<not> needsEscape path i) [0..<length path]"
    proof (rule ccontr)
      assume "\<not> ?thesis"
      then obtain i where i: "i < length path" "needsEscape path i" by (auto simp: list_all_iff)
      have "length (pathToPrefix path) = (\<Sum>j\<leftarrow>[0..<length path]. if needsEscape path j then Suc (Suc (Suc 0)) else 1)"
        unfolding pathToPrefix_concat length_concat by (simp add: comp_def escapeByte_def if_distrib cong: if_cong)
      also have "\<dots> > (\<Sum>j\<leftarrow>[0..<length path]. 1)"
        using i unfolding interv_sum_list_conv_sum_set_nat by (intro sum_strict_mono_ex1) auto
      finally show False using id by (simp add: sum_list_triv)
    qed
  qed (simp add: pathToPrefix_def list_all_iff filter_empty_conv)
  then show ?thesis
    using unescape_pathToPrefix pathToPrefix_bytes pathToPrefix_last_part
    by (simp add: list_all_iff) (metis unescape_pathToPrefix)
qed

theorem path_prefix_faithful_witness:
  "pathToPrefix ''a/v1.0'' = ''a/v1%2e0'' \<and> unescape ''a/v1%2e0'' = ''a/v1.0'' \<and> pathToPrefix ''a/v1%2e0'' \<noteq> ''a/v1%2e0''"
proof -
  have p: "pathToPrefix ''a/v1.0'' = ''a/v1%2e0''" by code_simp
  moreover have "\<not> list_all (\<lambda>i. \<not> needsEscape ''a/v1%2e0'' i) [0..<length ''a/v1%2e0'']" by code_simp
  ultimately show ?thesis
    using path_prefix_faithful [of "''a/v1.0''"] path_prefix_faithful [of "''a/v1%2e0''"] by simp
qed

end
