(* ===== verification/InitSchedule.thy ===== *)
theory InitSchedule
  imports InitTask "HOL-Library.AList"
begin

text \<open>
  The order of package initialization (tools/nativefrontend/load.go: \<open>buildInitGraph\<close>,
  \<open>solveInitNodes\<close>, \<open>walkInitSchedule\<close>, \<open>specInitOrder\<close>; staticinit.go:
  \<open>checkStaticinitSensitivity\<close>). A Go map that the code ranges over is an association list
  in an order of its own, which the results do not depend on; a map to \<^verbatim>\<open>bool\<close> that is only read
  is a function, absent keys being false. What the frontend reads off the syntax trees of a package
  is part of its record: the import paths of each file, and the answer of \<open>sourceInitWork\<close>.
\<close>

section \<open>Source packages and the graph\<close>

record sourcePkg =
  spPath :: string
  spFiles :: "string option list list"
  spLibrary :: bool
  spCertain :: bool
  spMaybe :: "string list"

text \<open>The import paths of all files, each once, sorted. A path that cannot be unquoted is passed over.\<close>

definition importPathsOf :: "string option list list \<Rightarrow> string list" where
  "importPathsOf files = sort (remdups (List.map_filter id (concat files)))"

record initGraph =
  gDeps :: "(string \<times> string list) list"
  gSrc :: "(string \<times> sourcePkg) list"
  gNode :: "string \<Rightarrow> bool"
  gWork :: "string \<Rightarrow> bool"
  gUncertain :: "(string \<times> string list) list"

definition depsOf :: "initGraph \<Rightarrow> string \<Rightarrow> string list" where
  "depsOf g p = (case map_of (gDeps g) p of Some ds \<Rightarrow> ds | None \<Rightarrow> [])"

definition isSrc :: "initGraph \<Rightarrow> string \<Rightarrow> bool" where
  "isSrc g p \<longleftrightarrow> map_of (gSrc g) p \<noteq> None"

section \<open>The nodes\<close>

definition solveStep :: "(string \<Rightarrow> string list) \<Rightarrow> (string \<Rightarrow> bool) \<Rightarrow> string \<Rightarrow> (string \<Rightarrow> bool) \<times> bool \<Rightarrow> (string \<Rightarrow> bool) \<times> bool" where
  "solveStep deps work p s =
     (case s of (node, changed) \<Rightarrow>
        if node p then (node, changed)
        else if work p \<or> list_ex node (deps p) then (node(p := True), True)
        else (node, changed))"

lemma solveStep_mono: "node q \<Longrightarrow> fst (solveStep deps work p (node, c)) q"
  by (auto simp: solveStep_def)

lemma solveFold:
  "fold (solveStep deps work) ps (node, c) = (node', c') \<Longrightarrow>
     (\<forall>q. node q \<longrightarrow> node' q) \<and> (\<forall>q. node' q \<longrightarrow> node q \<or> q \<in> set ps) \<and>
     (c' \<longleftrightarrow> c \<or> node' \<noteq> node)"
proof (induction ps arbitrary: node c)
  case (Cons p ps)
  obtain n1 c1 where s: "solveStep deps work p (node, c) = (n1, c1)" by fastforce
  have s1: "(\<forall>q. node q \<longrightarrow> n1 q) \<and> (\<forall>q. n1 q \<longrightarrow> node q \<or> q = p) \<and> (c1 \<longleftrightarrow> c \<or> n1 \<noteq> node)"
    using s by (auto simp: solveStep_def fun_eq_iff split: if_split_asm)
  with Cons.IH [of n1 c1] Cons.prems s show ?case by (simp add: fun_eq_iff) blast
qed auto

function solveLoop :: "string list \<Rightarrow> (string \<Rightarrow> string list) \<Rightarrow> (string \<Rightarrow> bool) \<Rightarrow> (string \<Rightarrow> bool) \<Rightarrow> string \<Rightarrow> bool" where
  "solveLoop srcs deps work node =
     (case fold (solveStep deps work) srcs (node, False) of
        (node', changed) \<Rightarrow> if changed then solveLoop srcs deps work node' else node')"
  by pat_completeness auto
termination
proof (relation "measure (\<lambda>(srcs, deps, work, node). card {p \<in> set srcs. \<not> node p})", goal_cases)
  case (2 srcs deps work node node' changed)
  from solveFold [of deps work srcs node False node' changed] 2
  have "{p \<in> set srcs. \<not> node' p} \<subset> {p \<in> set srcs. \<not> node p}" by (auto simp: fun_eq_iff)
  then show ?case by (simp add: psubset_card_mono)
qed simp

declare solveLoop.simps [simp del]

definition solveInitNodes :: "initGraph \<Rightarrow> (string \<Rightarrow> bool) \<Rightarrow> string \<Rightarrow> bool" where
  "solveInitNodes g work =
     solveLoop (map fst (gSrc g)) (depsOf g) work
       (\<lambda>p. p \<in> set (map fst (gDeps g)) \<and> \<not> isSrc g p \<and> work p)"

section \<open>The walk\<close>

text \<open>The packages dn are those already put out.\<close>

definition ready :: "(string \<Rightarrow> string list) \<Rightarrow> string list \<Rightarrow> string \<Rightarrow> bool" where
  "ready deps out p \<longleftrightarrow> list_all (\<lambda>d. d \<in> set out) (deps p)"

fun walkPass :: "nat \<Rightarrow> string list \<Rightarrow> (string \<Rightarrow> string list) \<Rightarrow> (string \<Rightarrow> bool) \<Rightarrow> bool \<Rightarrow> string list \<Rightarrow> init_error + string list" where
  "walkPass 0 keys deps node pass out = Inr out"
| "walkPass (Suc remaining) keys deps node pass out =
     (case find (\<lambda>p. p \<notin> set out \<and> node p = pass \<and> ready deps out p) keys of
        Some p \<Rightarrow> walkPass remaining keys deps node pass (out @ [p])
      | None \<Rightarrow> Inl (ErrInitCycle (filter (\<lambda>p. p \<notin> set out \<and> node p = pass) keys)))"

definition walkInitSchedule :: "string list \<Rightarrow> initGraph \<Rightarrow> (string \<Rightarrow> bool) \<Rightarrow> init_error + string list" where
  "walkInitSchedule keys g node =
     (case walkPass (length (filter (\<lambda>p. node p = False) keys)) keys (depsOf g) node False [] of
        Inl e \<Rightarrow> Inl e
      | Inr out \<Rightarrow> walkPass (length (filter (\<lambda>p. node p = True) keys)) keys (depsOf g) node True out)"

section \<open>The graph of a program\<close>

text \<open>A unit enters the graph with its import declarations; its imports become pending.\<close>

definition unitWork :: "std_table \<Rightarrow> sourcePkg \<Rightarrow> sourcePkg \<Rightarrow> string \<Rightarrow> initGraph \<Rightarrow> init_error + initGraph" where
  "unitWork table mainUnit u p g =
     (if spLibrary u then
        (case stdInitLookup table p (spPath u) of
           Inl e \<Rightarrow> Inl e
         | Inr entry \<Rightarrow> Inr (g\<lparr>gWork := (gWork g)(p := siNode entry)\<rparr>))
      else if u = mainUnit then Inr (g\<lparr>gWork := (gWork g)(p := True)\<rparr>)
      else
        let g = g\<lparr>gWork := (gWork g)(p := spCertain u \<or> spMaybe u \<noteq> [])\<rparr> in
        Inr (if \<not> spCertain u \<and> spMaybe u \<noteq> [] then g\<lparr>gUncertain := AList.update p (spMaybe u) (gUncertain g)\<rparr> else g))"

fun addUnits :: "std_table \<Rightarrow> sourcePkg \<Rightarrow> sourcePkg list \<Rightarrow> initGraph \<Rightarrow> (string \<times> string) list \<Rightarrow> init_error + initGraph \<times> (string \<times> string) list" where
  "addUnits table mainUnit [] g pending = Inr (g, pending)"
| "addUnits table mainUnit (u # us) g pending =
     (let p = pathToPrefix (spPath u) in
      case map_of (gSrc g) p of
        Some other \<Rightarrow> Inl (ErrSharedPrefix (spPath other) (spPath u))
      | None \<Rightarrow>
          (let paths = importPathsOf (spFiles u);
               g = g\<lparr>gSrc := AList.update p u (gSrc g), gDeps := AList.update p (map pathToPrefix paths) (gDeps g)\<rparr> in
           case unitWork table mainUnit u p g of
             Inl e \<Rightarrow> Inl e
           | Inr g \<Rightarrow> addUnits table mainUnit us g (pending @ map (\<lambda>q. (pathToPrefix q, q)) paths)))"

text \<open>The closure over the other packages, a worklist. Every package is looked up at most once.\<close>

lemma stdInitLookup_Inr: "stdInitLookup table p d = Inr entry \<longleftrightarrow> map_of table p = Some entry \<and> siKnown entry"
  by (auto simp: stdInitLookup_def split: option.split)

definition addRow :: "string \<Rightarrow> stdInitEntry \<Rightarrow> initGraph \<Rightarrow> initGraph" where
  "addRow p entry g = g\<lparr>gDeps := AList.update p (siDeps entry) (gDeps g),
     gNode := (gNode g)(p := siNode entry), gWork := (gWork g)(p := siNode entry)\<rparr>"

function closeImports :: "std_table \<Rightarrow> (string \<times> string) list \<Rightarrow> initGraph \<Rightarrow> init_error + initGraph" where
  "closeImports table [] g = Inr g"
| "closeImports table ((p, display) # pending) g =
     (if p \<in> set (map fst (gDeps g)) then closeImports table pending g
      else if isSrc g p then closeImports table pending g
      else case stdInitLookup table p display of
        Inl e \<Rightarrow> Inl e
      | Inr entry \<Rightarrow>
          closeImports table (pending @ map (\<lambda>d. (d, stdInitDisplay table d)) (siDeps entry)) (addRow p entry g))"
  by pat_completeness auto
termination
proof (relation "measures [\<lambda>(table, pending, g). card (set (map fst table) - set (map fst (gDeps g))), \<lambda>(table, pending, g). length pending]", goal_cases)
  case (4 table p display pending g entry)
  then have "p \<in> set (map fst table) - set (map fst (gDeps g))"
    using map_of_SomeD [of table p entry] by (force simp: stdInitLookup_Inr)
  moreover have "set (map fst (gDeps (addRow p entry g))) = insert p (set (map fst (gDeps g)))"
    by (simp add: addRow_def dom_update)
  ultimately have "set (map fst table) - set (map fst (gDeps (addRow p entry g))) \<subset> set (map fst table) - set (map fst (gDeps g))"
    by auto
  then show ?case by (simp add: psubset_card_mono)
qed auto

definition emptyGraph :: initGraph where
  "emptyGraph = \<lparr>gDeps = [], gSrc = [], gNode = (\<lambda>_. False), gWork = (\<lambda>_. False), gUncertain = []\<rparr>"

definition buildInitGraph :: "std_table \<Rightarrow> sourcePkg list \<Rightarrow> sourcePkg \<Rightarrow> init_error + initGraph" where
  "buildInitGraph table units mainUnit =
     (case addUnits table mainUnit units emptyGraph [] of
        Inl e \<Rightarrow> Inl e
      | Inr (g, pending) \<Rightarrow>
          (case closeImports table pending g of
             Inl e \<Rightarrow> Inl e
           | Inr g \<Rightarrow> Inr (g\<lparr>gNode := solveInitNodes g (gWork g)\<rparr>)))"

section \<open>The check of uncertain packages\<close>

definition staticinitEnumCap :: nat where
  "staticinitEnumCap = 12"

definition observable :: "initGraph \<Rightarrow> (string \<Rightarrow> bool) \<Rightarrow> string list \<Rightarrow> string list" where
  "observable g work walk = filter (\<lambda>p. isSrc g p \<and> work p) walk"

text \<open>Bit \<open>i\<close> of the mask says that the \<open>i\<close>-th uncertain package has work.\<close>

definition prunedBy :: "string list \<Rightarrow> nat \<Rightarrow> string list" where
  "prunedBy uncertain m = map ((!) uncertain) (filter (\<lambda>i. \<not> bit m i) [0..<length uncertain])"

definition checkMask :: "initGraph \<Rightarrow> string list \<Rightarrow> string list \<Rightarrow> string list \<Rightarrow> nat \<Rightarrow> init_error option" where
  "checkMask g keys emitted uncertain m =
     (if m = 2 ^ length uncertain - 1 then None
      else
        let pruned = prunedBy uncertain m;
            work = (\<lambda>p. gWork g p \<and> p \<notin> set pruned) in
        case walkInitSchedule keys g (solveInitNodes g work) of
          Inl e \<Rightarrow> Some e
        | Inr order \<Rightarrow>
            if observable g work emitted \<noteq> observable g work order
            then Some (ErrUndecided pruned (observable g work emitted) (observable g work order)) else None)"

fun firstError :: "(nat \<Rightarrow> init_error option) \<Rightarrow> nat list \<Rightarrow> init_error option" where
  "firstError f [] = None"
| "firstError f (m # ms) = (case f m of Some e \<Rightarrow> Some e | None \<Rightarrow> firstError f ms)"

definition uncertainKeys :: "initGraph \<Rightarrow> string list" where
  "uncertainKeys g = sort (map fst (filter (\<lambda>(p, sites). sites \<noteq> []) (gUncertain g)))"

definition checkStaticinitSensitivity :: "initGraph \<Rightarrow> string list \<Rightarrow> string list \<Rightarrow> init_error option" where
  "checkStaticinitSensitivity g keys emitted =
     (let uncertain = uncertainKeys g in
      if uncertain = [] then None
      else if length uncertain > staticinitEnumCap then Some (ErrUncertain uncertain)
      else firstError (checkMask g keys emitted uncertain) [0..<2 ^ length uncertain])"

section \<open>The order\<close>

definition symbol :: "string \<Rightarrow> string" where
  "symbol p = p @ initTaskSuffix"

definition specInitOrder :: "std_table \<Rightarrow> sourcePkg list \<Rightarrow> sourcePkg \<Rightarrow> init_error + sourcePkg list" where
  "specInitOrder table units mainUnit =
     (if length units < 2 then Inr units
      else case buildInitGraph table units mainUnit of
        Inl e \<Rightarrow> Inl e
      | Inr g \<Rightarrow>
          (let keys = sort_key symbol (map fst (gDeps g)) in
           case walkInitSchedule keys g (gNode g) of
             Inl e \<Rightarrow> Inl e
           | Inr walk \<Rightarrow>
               (case checkStaticinitSensitivity g keys walk of
                  Some e \<Rightarrow> Inl e
                | None \<Rightarrow> Inr (List.map_filter (map_of (gSrc g)) walk))))"

section \<open>The nodes are what reaches work\<close>

lemma solveFold_unchanged:
  "fold (solveStep deps work) ps (node, c) = (node', False) \<Longrightarrow>
     node' = node \<and> \<not> c \<and> (\<forall>p \<in> set ps. \<not> node p \<longrightarrow> \<not> work p \<and> \<not> list_ex node (deps p))"
proof (induction ps arbitrary: node c)
  case (Cons p ps)
  obtain n1 c1 where s: "solveStep deps work p (node, c) = (n1, c1)" by fastforce
  with Cons.IH [of n1 c1] Cons.prems have "node' = n1" "\<not> c1"
    "\<forall>q \<in> set ps. \<not> n1 q \<longrightarrow> \<not> work q \<and> \<not> list_ex n1 (deps q)" by simp_all
  moreover from s \<open>\<not> c1\<close> have "n1 = node" "\<not> c" "\<not> node p \<longrightarrow> \<not> work p \<and> \<not> list_ex node (deps p)"
    by (auto simp: solveStep_def split: if_split_asm)
  ultimately show ?case by simp
qed simp

text \<open>Anything that contains the start and is closed under the rule contains the result.\<close>

lemma solveFold_least:
  assumes "\<forall>p \<in> set srcs. work p \<or> list_ex N (deps p) \<longrightarrow> N p" and "\<forall>p. node p \<longrightarrow> N p" and "set ps \<subseteq> set srcs"
    and "fold (solveStep deps work) ps (node, c) = (node', c')"
  shows "\<forall>p. node' p \<longrightarrow> N p"
  using assms(2-)
proof (induction ps arbitrary: node c)
  case (Cons p ps)
  obtain n1 c1 where s: "solveStep deps work p (node, c) = (n1, c1)" by fastforce
  have "list_ex node (deps p) \<Longrightarrow> list_ex N (deps p)" using Cons.prems(1) by (auto simp: list_ex_iff)
  then have "\<forall>q. n1 q \<longrightarrow> N q" using s Cons.prems(1,2) assms(1) by (auto simp: solveStep_def split: if_split_asm)
  with Cons.IH [of n1 c1] Cons.prems s show ?case by simp
qed auto

lemma solveLoop_fixpoint:
  "(\<forall>p \<in> set srcs. work p \<or> list_ex (solveLoop srcs deps work node) (deps p) \<longrightarrow> solveLoop srcs deps work node p) \<and>
     (\<forall>p. node p \<longrightarrow> solveLoop srcs deps work node p)"
proof (induction srcs deps work node rule: solveLoop.induct)
  case (1 srcs deps work node)
  obtain n c where f: "fold (solveStep deps work) srcs (node, False) = (n, c)" by fastforce
  note unf = solveLoop.simps [of srcs deps work node] f
  show ?case
  proof (cases c)
    case True
    with 1 [OF f [symmetric]] solveFold [OF f] show ?thesis by (simp add: unf)
  next
    case False
    with solveFold_unchanged [of deps work srcs node False n] f show ?thesis by (auto simp: unf)
  qed
qed

lemma solveLoop_least:
  assumes "\<forall>p \<in> set srcs. work p \<or> list_ex N (deps p) \<longrightarrow> N p" and "\<forall>p. node p \<longrightarrow> N p"
  shows "solveLoop srcs deps work node p \<Longrightarrow> N p"
  using assms
proof (induction srcs deps work node rule: solveLoop.induct)
  case (1 srcs deps work node)
  obtain n c where f: "fold (solveStep deps work) srcs (node, False) = (n, c)" by fastforce
  have "\<forall>p. n p \<longrightarrow> N p" using solveFold_least [OF "1.prems"(2,3) subset_refl f] .
  with "1.IH" [OF f [symmetric]] "1.prems" f show ?case by (auto simp: solveLoop.simps [of srcs deps work node] split: if_split_asm)
qed

text \<open>The imports of source packages.\<close>

definition srcEdges :: "initGraph \<Rightarrow> (string \<times> string) set" where
  "srcEdges g = {(p, q). isSrc g p \<and> q \<in> set (depsOf g p)}"

lemma isSrc_iff: "isSrc g p \<longleftrightarrow> p \<in> set (map fst (gSrc g))"
  by (auto simp: isSrc_def map_of_eq_None_iff)

lemma solveInitNodes_reach:
  "solveInitNodes g work p \<longleftrightarrow>
     (\<exists>q. (p, q) \<in> (srcEdges g)\<^sup>* \<and> work q \<and> (isSrc g q \<or> q \<in> set (map fst (gDeps g))))"
  (is "_ \<longleftrightarrow> ?R p")
proof
  let ?ok = "\<lambda>q. isSrc g q \<or> q \<in> set (map fst (gDeps g))"
  have step: "?R p" if e: "isSrc g p" "q \<in> set (depsOf g p)" and R: "?R q" for p q
  proof -
    obtain r where r: "(q, r) \<in> (srcEdges g)\<^sup>*" "work r" "?ok r" using R by blast
    have "(p, q) \<in> srcEdges g" using e by (simp add: srcEdges_def)
    then have "(p, r) \<in> (srcEdges g)\<^sup>*" using r(1) by (rule converse_rtrancl_into_rtrancl)
    with r(2,3) show ?thesis by (intro exI [of _ r]) simp
  qed
  define N where "N = ?R"
  have closed: "\<forall>p \<in> set (map fst (gSrc g)). work p \<or> list_ex N (depsOf g p) \<longrightarrow> N p"
    using step unfolding N_def list_ex_iff Ball_def isSrc_iff [symmetric] by blast
  have start: "\<forall>p. p \<in> set (map fst (gDeps g)) \<and> \<not> isSrc g p \<and> work p \<longrightarrow> N p"
    unfolding N_def by blast
  show "solveInitNodes g work p \<Longrightarrow> ?R p"
    using solveLoop_least [OF closed start] unfolding solveInitNodes_def N_def by blast
next
  let ?n = "solveInitNodes g work"
  note fixp = solveLoop_fixpoint [of "map fst (gSrc g)" work "depsOf g" "\<lambda>p. p \<in> set (map fst (gDeps g)) \<and> \<not> isSrc g p \<and> work p",
      folded solveInitNodes_def]
  assume "?R p"
  then obtain q where "(p, q) \<in> (srcEdges g)\<^sup>*" and q: "work q" "isSrc g q \<or> q \<in> set (map fst (gDeps g))" by blast
  then show "?n p"
  proof (induction rule: converse_rtrancl_induct)
    case base
    with q fixp show ?case by (cases "isSrc g q") (auto simp: isSrc_iff)
  next
    case (step a b)
    with fixp show ?case by (auto simp: isSrc_iff srcEdges_def list_ex_iff)
  qed
qed

section \<open>The walk is the least schedule\<close>

text \<open>
  A schedule of the keys: each once, the packages that are no nodes first, every package after the
  ones it imports.
\<close>

definition schedule :: "string list \<Rightarrow> (string \<Rightarrow> string list) \<Rightarrow> (string \<Rightarrow> bool) \<Rightarrow> string list \<Rightarrow> bool" where
  "schedule keys deps node os \<longleftrightarrow>
     distinct os \<and> set os = set keys \<and> sorted (map node os) \<and>
     (\<forall>i < length os. ready deps (take i os) (os ! i))"

text \<open>A package that may come next in a pass, and a run of such steps that takes the least each time.\<close>

definition candidate :: "string list \<Rightarrow> (string \<Rightarrow> string list) \<Rightarrow> (string \<Rightarrow> bool) \<Rightarrow> bool \<Rightarrow> string list \<Rightarrow> string \<Rightarrow> bool" where
  "candidate keys deps node pass out p \<longleftrightarrow> p \<in> set keys \<and> p \<notin> set out \<and> node p = pass \<and> ready deps out p"

fun least_run :: "string list \<Rightarrow> (string \<Rightarrow> string list) \<Rightarrow> (string \<Rightarrow> bool) \<Rightarrow> bool \<Rightarrow> string list \<Rightarrow> string list \<Rightarrow> bool" where
  "least_run keys deps node pass out [] \<longleftrightarrow> True"
| "least_run keys deps node pass out (p # ps) \<longleftrightarrow>
     candidate keys deps node pass out p \<and> (\<forall>q. candidate keys deps node pass out q \<longrightarrow> symbol p \<le> symbol q) \<and>
     least_run keys deps node pass (out @ [p]) ps"

lemma find_least:
  "sorted (map symbol keys) \<Longrightarrow> find P keys = Some p \<Longrightarrow> p \<in> set keys \<and> P p \<and> (\<forall>q \<in> set keys. P q \<longrightarrow> symbol p \<le> symbol q)"
  by (induction keys) (auto split: if_split_asm)

lemma walkPass_run:
  assumes "sorted (map symbol keys)"
  shows "walkPass r keys deps node pass out = Inr os \<Longrightarrow>
    \<exists>ps. os = out @ ps \<and> length ps = r \<and> least_run keys deps node pass out ps"
proof (induction r arbitrary: out)
  case (Suc r)
  then obtain p where f: "find (\<lambda>p. p \<notin> set out \<and> node p = pass \<and> ready deps out p) keys = Some p"
    and "walkPass r keys deps node pass (out @ [p]) = Inr os" by (auto split: option.split_asm)
  with Suc.IH obtain ps where "os = (out @ [p]) @ ps" "length ps = r" "least_run keys deps node pass (out @ [p]) ps" by blast
  moreover note find_least [OF assms f]
  ultimately show ?case by (intro exI [of _ "p # ps"]) (auto simp: candidate_def)
qed simp

lemma walkPass_blocked:
  "walkPass r keys deps node pass out = Inl e \<Longrightarrow>
    \<exists>ps. length ps < r \<and> distinct (out @ ps) = distinct out \<and> set ps \<subseteq> {p \<in> set keys. node p = pass} \<and>
      (\<forall>q. \<not> candidate keys deps node pass (out @ ps) q) \<and>
      e = ErrInitCycle (filter (\<lambda>p. p \<notin> set (out @ ps) \<and> node p = pass) keys)"
proof (induction r arbitrary: out)
  case (Suc r)
  show ?case
  proof (cases "find (\<lambda>p. p \<notin> set out \<and> node p = pass \<and> ready deps out p) keys")
    case None
    with Suc.prems show ?thesis by (intro exI [of _ "[]"]) (auto simp: find_None_iff candidate_def)
  next
    case (Some p)
    then have p: "p \<in> set keys" "p \<notin> set out" "node p = pass" by (auto simp: find_Some_iff)
    from Some Suc.prems have "walkPass r keys deps node pass (out @ [p]) = Inl e" by simp
    from Suc.IH [OF this] obtain ps where "length ps < r" "distinct ((out @ [p]) @ ps) = distinct (out @ [p])"
      "set ps \<subseteq> {p \<in> set keys. node p = pass}" "\<forall>q. \<not> candidate keys deps node pass ((out @ [p]) @ ps) q"
      "e = ErrInitCycle (filter (\<lambda>q. q \<notin> set ((out @ [p]) @ ps) \<and> node q = pass) keys)" by blast
    with p show ?thesis by (intro exI [of _ "p # ps"]) auto
  qed
qed simp

lemma least_run_nth:
  "least_run keys deps node pass out ps \<Longrightarrow> i < length ps \<Longrightarrow>
     candidate keys deps node pass (out @ take i ps) (ps ! i) \<and>
     (\<forall>q. candidate keys deps node pass (out @ take i ps) q \<longrightarrow> symbol (ps ! i) \<le> symbol q)"
proof (induction ps arbitrary: out i)
  case (Cons p ps)
  show ?case
  proof (cases i)
    case (Suc j)
    with Cons.prems Cons.IH [of "out @ [p]" j] show ?thesis by simp
  qed (use Cons.prems in simp)
qed simp

lemma least_run_facts:
  "least_run keys deps node pass out ps \<Longrightarrow> distinct out \<Longrightarrow>
     distinct (out @ ps) \<and> set ps \<subseteq> {p \<in> set keys. node p = pass}"
proof (induction ps arbitrary: out)
  case (Cons p ps)
  then show ?case using Cons.IH [of "out @ [p]"] by (auto simp: candidate_def)
qed simp

lemma schedule_flag:
  assumes "schedule keys deps node os" and "schedule keys deps node os'" and "i < length os"
  shows "length os' = length os" and "node (os ! i) = node (os' ! i)"
proof -
  have "mset os = mset os'" using assms(1,2) by (simp add: schedule_def set_eq_iff_mset_eq_distinct [symmetric])
  then show len: "length os' = length os" by (metis size_mset)
  have "sort (map node os) = map node os'" using assms(2) \<open>mset os = mset os'\<close> by (intro properties_for_sort) (auto simp: schedule_def)
  moreover have "sort (map node os) = map node os" using assms(1) by (simp add: schedule_def sorted_sort_id)
  ultimately have "map node os = map node os'" by simp
  then show "node (os ! i) = node (os' ! i)" using assms(3) len by (metis nth_map)
qed

lemma pass_full:
  assumes "distinct keys" and "distinct xs" and "set xs \<subseteq> {p \<in> set keys. node p = b}" and "length xs = length (filter (\<lambda>p. node p = b) keys)"
  shows "set xs = {p \<in> set keys. node p = b}"
  using assms by (intro card_subset_eq) (auto simp: distinct_card distinct_length_filter Int_def conj_commute)

lemma walk_runs:
  assumes "sorted (map symbol keys)" and "distinct keys" and "walkInitSchedule keys g node = Inr os"
  obtains ps qs where "os = ps @ qs" and "least_run keys (depsOf g) node False [] ps" and "least_run keys (depsOf g) node True ps qs"
    and "set ps = {p \<in> set keys. \<not> node p}" and "set qs = {p \<in> set keys. node p}" and "distinct os"
proof -
  let ?deps = "depsOf g"
  obtain out where out: "walkPass (length (filter (\<lambda>p. node p = False) keys)) keys ?deps node False [] = Inr out"
    and os: "walkPass (length (filter (\<lambda>p. node p = True) keys)) keys ?deps node True out = Inr os"
    using assms(3) by (auto simp: walkInitSchedule_def split: sum.split_asm)
  obtain ps where ps: "out = [] @ ps" "length ps = length (filter (\<lambda>p. node p = False) keys)" "least_run keys ?deps node False [] ps"
    using walkPass_run [OF assms(1) out] by blast
  obtain qs where qs: "os = out @ qs" "length qs = length (filter (\<lambda>p. node p = True) keys)" "least_run keys ?deps node True out qs"
    using walkPass_run [OF assms(1) os] by blast
  note full = pass_full [OF assms(2)]
  note p = least_run_facts [OF ps(3)] and q = least_run_facts [OF qs(3)]
  have "distinct out" "set ps = {p \<in> set keys. \<not> node p}" using p full [of ps node False] ps by auto
  moreover from this q have "distinct os" "set qs = {p \<in> set keys. node p}" using full [of qs node True] qs by auto
  ultimately show thesis using that ps qs by auto
qed

lemma sorted_constant: "\<forall>x \<in> set xs. f x = c \<Longrightarrow> sorted (map f xs)"
  by (induction xs) auto

lemma walk_schedule:
  assumes "sorted (map symbol keys)" and "distinct keys" and "walkInitSchedule keys g node = Inr os"
  shows "schedule keys (depsOf g) node os"
    and "i < length os \<Longrightarrow> candidate keys (depsOf g) node (node (os ! i)) (take i os) q \<Longrightarrow> symbol (os ! i) \<le> symbol q"
proof -
  obtain ps qs where w: "os = ps @ qs" "least_run keys (depsOf g) node False [] ps" "least_run keys (depsOf g) node True ps qs"
    "set ps = {p \<in> set keys. \<not> node p}" "set qs = {p \<in> set keys. node p}" "distinct os" using walk_runs [OF assms] .
  have at: "candidate keys (depsOf g) node (node (os ! i)) (take i os) (os ! i) \<and>
      (\<forall>q. candidate keys (depsOf g) node (node (os ! i)) (take i os) q \<longrightarrow> symbol (os ! i) \<le> symbol q)" if i: "i < length os" for i
  proof (cases "i < length ps")
    case True
    with least_run_nth [OF w(2) True] w(1) show ?thesis by (auto simp: nth_append candidate_def)
  next
    case False
    then have "i - length ps < length qs" using i w(1) by simp
    from least_run_nth [OF w(3) this] False w(1) show ?thesis by (auto simp: nth_append candidate_def)
  qed
  then show "i < length os \<Longrightarrow> candidate keys (depsOf g) node (node (os ! i)) (take i os) q \<Longrightarrow> symbol (os ! i) \<le> symbol q" by blast
  have "sorted (map node ps)" "sorted (map node qs)" using w(4,5) sorted_constant [of ps node False] sorted_constant [of qs node True] by auto
  then have "sorted (map node os)" using w(1,4,5) by (auto simp: sorted_append)
  then show "schedule keys (depsOf g) node os" using at w by (auto simp: schedule_def candidate_def)
qed

text \<open>The least schedule, in the order of the symbol names.\<close>

lemma nth_fresh: "distinct xs \<Longrightarrow> i < length xs \<Longrightarrow> xs ! i \<notin> set (take i xs)"
  by (auto simp: in_set_conv_nth distinct_conv_nth)

lemma walk_least:
  assumes "sorted (map symbol keys)" and "distinct keys" and "walkInitSchedule keys g node = Inr os"
    and "schedule keys (depsOf g) node os'"
  shows "map symbol os \<le> map symbol os'"
proof (cases "os = os'")
  case False
  note sch = walk_schedule(1) [OF assms(1-3)]
  have len: "length os = length os'" using sch assms(4) by (metis schedule_def distinct_card)
  obtain pre x xs y ys where "x \<noteq> y" "os = pre @ [x] @ xs" "os' = pre @ [y] @ ys"
    using same_length_different [OF False len] by blast
  then obtain i where i: "i < length os" "take i os = take i os'" "os ! i \<noteq> os' ! i" by (auto intro: that [of "length pre"])
  have "candidate keys (depsOf g) node (node (os ! i)) (take i os) (os' ! i)"
    using assms(4) i len schedule_flag(2) [OF sch assms(4) i(1)] nth_fresh [of os' i] nth_mem [of i os']
    by (auto simp: candidate_def schedule_def)
  then have "symbol (os ! i) \<le> symbol (os' ! i)" by (rule walk_schedule(2) [OF assms(1-3) i(1)])
  with i(3) have "symbol (os ! i) < symbol (os' ! i)" by (auto simp: symbol_def less_le)
  then have "(map symbol os, map symbol os') \<in> lexord {(u, v). u < v}"
    using i len by (auto simp: lexord_take_index_conv take_map intro!: exI [of _ i])
  then show ?thesis by (simp add: list_le_def list_less_def)
qed simp

section \<open>A walk that stops\<close>

lemma schedule_candidate:
  assumes "schedule keys deps node os" and "p \<in> set keys" and "node p = pass" and "p \<notin> set out"
    and "pass \<longrightarrow> {q \<in> set keys. \<not> node q} \<subseteq> set out"
  shows "\<exists>q. candidate keys deps node pass out q"
proof -
  let ?P = "\<lambda>i. i < length os \<and> node (os ! i) = pass \<and> os ! i \<notin> set out"
  have "\<exists>i. ?P i" using assms(1-4) by (metis schedule_def in_set_conv_nth)
  then obtain i where i: "?P i" and first: "\<forall>j < i. \<not> ?P j" using exists_least_iff [of ?P] by blast
  have "os ! j \<in> set out" if j: "j < i" for j
  proof (cases "node (os ! j) = pass")
    case True
    then show ?thesis using first i j by (metis order.strict_trans)
  next
    case False
    have "map node os ! j \<le> map node os ! i" using assms(1) i j by (intro sorted_nth_mono) (auto simp: schedule_def)
    then have "pass \<and> \<not> node (os ! j)" using False i j by auto
    moreover have "os ! j \<in> set keys" using assms(1) i j nth_mem [of j os] by (auto simp: schedule_def)
    ultimately show ?thesis using assms(5) by blast
  qed
  then have "set (take i os) \<subseteq> set out" using i by (auto simp: in_set_conv_nth)
  moreover have "ready deps (take i os) (os ! i)" "os ! i \<in> set keys" using assms(1) i nth_mem [of i os] by (auto simp: schedule_def)
  ultimately show ?thesis using i by (intro exI [of _ "os ! i"]) (auto simp: candidate_def ready_def list_all_iff)
qed

text \<open>What the walk has dn when it stops: the packages before this pass and some of this pass.\<close>

lemma walk_stop:
  assumes "sorted (map symbol keys)" and "distinct keys" and "walkInitSchedule keys g node = Inl e"
  obtains pass dn p where "p \<in> set keys" and "node p = pass" and "p \<notin> set dn"
    and "pass \<longrightarrow> {q \<in> set keys. \<not> node q} \<subseteq> set dn" and "\<forall>q. \<not> candidate keys (depsOf g) node pass dn q"
    and "e = ErrInitCycle (filter (\<lambda>p. p \<notin> set dn \<and> node p = pass) keys)"
proof -
  note found = that
  let ?deps = "depsOf g"
  have stop: thesis
    if w: "walkPass (length (filter (\<lambda>p. node p = pass) keys)) keys ?deps node pass out = Inl e"
      and out: "distinct out" "set out = (if pass then {q \<in> set keys. \<not> node q} else {})" for pass out
  proof -
    obtain ps where ps: "length ps < length (filter (\<lambda>p. node p = pass) keys)" "set ps \<subseteq> {p \<in> set keys. node p = pass}"
      "\<forall>q. \<not> candidate keys ?deps node pass (out @ ps) q" "e = ErrInitCycle (filter (\<lambda>p. p \<notin> set (out @ ps) \<and> node p = pass) keys)"
      using walkPass_blocked [OF w] by blast
    have "\<not> set (filter (\<lambda>p. node p = pass) keys) \<subseteq> set ps"
    proof
      assume "set (filter (\<lambda>p. node p = pass) keys) \<subseteq> set ps"
      from card_mono [OF _ this] card_length [of ps] ps(1) distinct_card [of "filter (\<lambda>p. node p = pass) keys"] assms(2)
      show False by simp
    qed
    then obtain p where "p \<in> set keys" "node p = pass" "p \<notin> set (out @ ps)" using out(2) by (auto split: if_split_asm)
    then show thesis using found [of p pass "out @ ps"] ps(3,4) out(2) by (auto split: if_split_asm)
  qed
  show thesis
  proof (cases "walkPass (length (filter (\<lambda>p. node p = False) keys)) keys ?deps node False []")
    case (Inl e')
    with assms(3) stop [of False "[]"] show thesis by (simp add: walkInitSchedule_def)
  next
    case (Inr out)
    obtain ps where ps: "out = [] @ ps" "length ps = length (filter (\<lambda>p. node p = False) keys)" "least_run keys ?deps node False [] ps"
      using walkPass_run [OF assms(1) Inr] by blast
    have "distinct out" "set out = {q \<in> set keys. \<not> node q}"
      using least_run_facts [OF ps(3)] ps(1,2) pass_full [OF assms(2), of ps node False] by auto
    with assms(3) Inr stop [of True out] show thesis by (simp add: walkInitSchedule_def)
  qed
qed

lemma walk_no_schedule:
  assumes "sorted (map symbol keys)" and "distinct keys" and "walkInitSchedule keys g node = Inl e"
  shows "\<not> schedule keys (depsOf g) node os"
proof
  assume "schedule keys (depsOf g) node os"
  note c = schedule_candidate [OF this]
  show False by (rule walk_stop [OF assms]) (use c in blast)
qed

text \<open>
  If no package that is left out of the schedule imports one that is in it, the walk stops only
  at packages each of which imports another one of them: there is an import cycle.
\<close>

lemma walk_cycle:
  assumes "sorted (map symbol keys)" and "distinct keys" and "walkInitSchedule keys g node = Inl e"
    and "\<forall>p \<in> set keys. set (depsOf g p) \<subseteq> set keys" and "\<forall>p \<in> set keys. \<not> node p \<longrightarrow> list_all (\<lambda>d. \<not> node d) (depsOf g p)"
  shows "\<exists>bs. e = ErrInitCycle bs \<and> bs \<noteq> [] \<and> set bs \<subseteq> set keys \<and> (\<forall>p \<in> set bs. \<exists>d \<in> set (depsOf g p). d \<in> set bs)"
proof -
  obtain pass dn p where s: "p \<in> set keys" "node p = pass" "p \<notin> set dn" "pass \<longrightarrow> {q \<in> set keys. \<not> node q} \<subseteq> set dn"
    "\<forall>q. \<not> candidate keys (depsOf g) node pass dn q" "e = ErrInitCycle (filter (\<lambda>p. p \<notin> set dn \<and> node p = pass) keys)"
    using walk_stop [OF assms(1-3)] .
  have "\<exists>d \<in> set (depsOf g q). d \<in> set keys \<and> d \<notin> set dn \<and> node d = pass" if q: "q \<in> set keys" "q \<notin> set dn" "node q = pass" for q
  proof -
    obtain d where d: "d \<in> set (depsOf g q)" "d \<notin> set dn" using s(5) q by (auto simp: candidate_def ready_def list_all_iff)
    have "d \<in> set keys" using assms(4) q(1) d(1) by blast
    moreover have "node d = pass"
    proof (cases pass)
      case True
      with s(4) d(2) \<open>d \<in> set keys\<close> show ?thesis by blast
    next
      case False
      with assms(5) q(1,3) d(1) show ?thesis by (auto simp: list_all_iff)
    qed
    ultimately show ?thesis using d by blast
  qed
  note blocked = this
  let ?bs = "filter (\<lambda>p. p \<notin> set dn \<and> node p = pass) keys"
  have "p \<in> set ?bs" using s(1-3) by simp
  from length_pos_if_in_set [OF this] have "?bs \<noteq> []" unfolding length_greater_0_conv .
  moreover have "\<forall>q \<in> set ?bs. \<exists>d \<in> set (depsOf g q). d \<in> set ?bs" using blocked by simp
  moreover have "set ?bs \<subseteq> set keys" by auto
  ultimately show ?thesis using s(6) by blast
qed

end
