(* ===== verification/InitOrder.thy ===== *)
theory InitOrder
  imports InitSchedule
begin

text \<open>
  The properties of the initialization order of a program: the graph that
  \<open>buildInitGraph\<close> returns is the closure of the imports of the program, the walk over it is
  its least schedule, and \<open>specInitOrder\<close> returns an order only if no choice of the
  compiler could change it.
\<close>

section \<open>The graph is the closure of the program\<close>

definition unitPrefix :: "sourcePkg \<Rightarrow> string" where
  "unitPrefix u = pathToPrefix (spPath u)"

definition unitDeps :: "sourcePkg \<Rightarrow> string list" where
  "unitDeps u = map pathToPrefix (importPathsOf (spFiles u))"

definition unitUncertain :: "sourcePkg \<Rightarrow> sourcePkg \<Rightarrow> bool" where
  "unitUncertain mainUnit u \<longleftrightarrow> \<not> spLibrary u \<and> u \<noteq> mainUnit \<and> \<not> spCertain u \<and> spMaybe u \<noteq> []"

text \<open>The packages the program needs: its own, and the imports of every needed one.\<close>

inductive needed :: "std_table \<Rightarrow> sourcePkg list \<Rightarrow> string \<Rightarrow> bool" for table units where
  own: "u \<in> set units \<Longrightarrow> needed table units (unitPrefix u)"
| imported: "u \<in> set units \<Longrightarrow> d \<in> set (unitDeps u) \<Longrightarrow> needed table units d"
| row: "needed table units p \<Longrightarrow> p \<notin> unitPrefix ` set units \<Longrightarrow> map_of table p = Some entry \<Longrightarrow> d \<in> set (siDeps entry) \<Longrightarrow>
     needed table units d"

lemma update_fresh: "k \<notin> fst ` set al \<Longrightarrow> AList.update k v al = al @ [(k, v)]"
  by (induction al) auto

lemma unitWork_Inr:
  assumes "unitWork table mainUnit u p g = Inr g'"
  shows "gSrc g' = gSrc g" and "gDeps g' = gDeps g" and "gNode g' = gNode g"
    and "\<exists>w. gWork g' = (gWork g)(p := w) \<and> (unitUncertain mainUnit u \<longrightarrow> w)"
    and "gUncertain g' = (if unitUncertain mainUnit u then AList.update p (spMaybe u) (gUncertain g) else gUncertain g)"
  using assms by (auto simp: unitWork_def unitUncertain_def Let_def split: if_split_asm sum.split_asm)

text \<open>The graph of the units read so far.\<close>

definition units_graph :: "sourcePkg \<Rightarrow> sourcePkg list \<Rightarrow> initGraph \<Rightarrow> bool" where
  "units_graph mainUnit us g \<longleftrightarrow>
     gSrc g = map (\<lambda>u. (unitPrefix u, u)) us \<and> gDeps g = map (\<lambda>u. (unitPrefix u, unitDeps u)) us \<and>
     distinct (map unitPrefix us) \<and>
     gUncertain g = map (\<lambda>u. (unitPrefix u, spMaybe u)) (filter (unitUncertain mainUnit) us) \<and>
     (\<forall>u \<in> set us. unitUncertain mainUnit u \<longrightarrow> gWork g (unitPrefix u))"

lemma addUnits_Inr:
  "addUnits table mainUnit us g pending = Inr (g', pending') \<Longrightarrow> units_graph mainUnit ds g \<Longrightarrow>
     units_graph mainUnit (ds @ us) g' \<and> map fst pending' = map fst pending @ concat (map unitDeps us)"
proof (induction us arbitrary: g pending ds)
  case (Cons u us)
  let ?p = "unitPrefix u"
  let ?g = "g\<lparr>gSrc := AList.update ?p u (gSrc g), gDeps := AList.update ?p (unitDeps u) (gDeps g)\<rparr>"
  have new: "?p \<notin> unitPrefix ` set ds"
    using Cons.prems by (force simp: units_graph_def unitPrefix_def Let_def map_of_eq_None_iff image_iff split: option.split_asm)
  then have up: "gSrc ?g = map (\<lambda>u. (unitPrefix u, u)) (ds @ [u])" "gDeps ?g = map (\<lambda>u. (unitPrefix u, unitDeps u)) (ds @ [u])"
    using Cons.prems(2) by (auto simp: units_graph_def update_fresh image_image)
  obtain g1 where g1: "unitWork table mainUnit u ?p ?g = Inr g1"
    and rest: "addUnits table mainUnit us g1 (pending @ map (\<lambda>q. (pathToPrefix q, q)) (importPathsOf (spFiles u))) = Inr (g', pending')"
    using Cons.prems(1) by (auto simp: Let_def unitPrefix_def unitDeps_def split: option.split_asm sum.split_asm)
  have "AList.update ?p (spMaybe u) (gUncertain g) = gUncertain g @ [(?p, spMaybe u)]"
    using Cons.prems(2) new by (intro update_fresh) (auto simp: units_graph_def)
  moreover have "\<forall>v \<in> set ds. unitPrefix v \<noteq> ?p" using new by (metis imageI)
  ultimately have "units_graph mainUnit (ds @ [u]) g1"
    using unitWork_Inr [OF g1] up new Cons.prems(2) by (auto simp: units_graph_def)
  from Cons.IH [OF rest this] show ?case by (simp add: unitDeps_def comp_def)
qed simp

text \<open>The graph while imports are pending: everything a key imports is a key or pending.\<close>

definition keysOf :: "initGraph \<Rightarrow> string set" where
  "keysOf g = set (map fst (gDeps g))"

definition graph_ok :: "std_table \<Rightarrow> sourcePkg list \<Rightarrow> sourcePkg \<Rightarrow> string set \<Rightarrow> initGraph \<Rightarrow> bool" where
  "graph_ok table units mainUnit pend g \<longleftrightarrow>
     gSrc g = map (\<lambda>u. (unitPrefix u, u)) units \<and> distinct (map unitPrefix units) \<and> distinct (map fst (gDeps g)) \<and>
     gUncertain g = map (\<lambda>u. (unitPrefix u, spMaybe u)) (filter (unitUncertain mainUnit) units) \<and>
     (\<forall>u \<in> set units. unitUncertain mainUnit u \<longrightarrow> gWork g (unitPrefix u)) \<and>
     (\<forall>u \<in> set units. map_of (gDeps g) (unitPrefix u) = Some (unitDeps u)) \<and>
     (\<forall>p \<in> keysOf g - unitPrefix ` set units. \<exists>entry. map_of table p = Some entry \<and> siKnown entry \<and>
        map_of (gDeps g) p = Some (siDeps entry) \<and> gWork g p = siNode entry) \<and>
     (\<forall>p \<in> keysOf g. set (depsOf g p) \<subseteq> keysOf g \<union> pend) \<and>
     (\<forall>p \<in> keysOf g \<union> pend. needed table units p)"

lemma graph_ok_units:
  assumes "units_graph mainUnit units g"
  shows "graph_ok table units mainUnit (\<Union>u \<in> set units. set (unitDeps u)) g"
proof -
  have keys: "keysOf g = unitPrefix ` set units" using assms by (auto simp: units_graph_def keysOf_def)
  have fst: "map fst (gDeps g) = map unitPrefix units" using assms by (simp add: units_graph_def comp_def)
  have "map_of (gDeps g) (unitPrefix u) = Some (unitDeps u)" if "u \<in> set units" for u
    using that assms fst by (intro map_of_is_SomeI) (auto simp: units_graph_def comp_def)
  with assms keys fst show ?thesis
    by (auto simp: graph_ok_def units_graph_def depsOf_def comp_def intro: needed.intros)
qed

lemma graph_ok_row:
  assumes "graph_ok table units mainUnit (insert p pend) g" and "p \<notin> keysOf g" and "map_of table p = Some entry" and "siKnown entry"
  shows "graph_ok table units mainUnit (pend \<union> set (siDeps entry)) (addRow p entry g)"
proof -
  have up: "gDeps (addRow p entry g) = gDeps g @ [(p, siDeps entry)]"
    using assms(2) by (simp add: addRow_def keysOf_def update_fresh)
  then have keys: "keysOf (addRow p entry g) = insert p (keysOf g)" by (auto simp: keysOf_def)
  have units: "\<forall>u \<in> set units. unitPrefix u \<noteq> p \<and> unitPrefix u \<in> keysOf g"
  proof
    fix u assume "u \<in> set units"
    then have "map_of (gDeps g) (unitPrefix u) = Some (unitDeps u)" using assms(1) by (simp add: graph_ok_def)
    then have "unitPrefix u \<in> keysOf g" using map_of_SomeD [of "gDeps g"] by (force simp: keysOf_def)
    with assms(2) show "unitPrefix u \<noteq> p \<and> unitPrefix u \<in> keysOf g" by auto
  qed
  have "map_of (gDeps g) p = None" using assms(2) by (simp add: keysOf_def map_of_eq_None_iff)
  then have lookup: "map_of (gDeps (addRow p entry g)) q = (if q = p then Some (siDeps entry) else map_of (gDeps g) q)" for q
    using up by (auto simp: map_add_def split: option.split)
  have need: "needed table units p" using assms(1) by (simp add: graph_ok_def)
  then have "needed table units d" if "d \<in> set (siDeps entry)" for d
    using that units assms(3) by (auto intro: needed.row)
  moreover have "set (depsOf (addRow p entry g) q) \<subseteq> insert p (keysOf g) \<union> (pend \<union> set (siDeps entry))" if "q \<in> insert p (keysOf g)" for q
  proof (cases "q = p")
    case False
    then have "depsOf (addRow p entry g) q = depsOf g q" using lookup [of q] by (simp add: depsOf_def)
    moreover have "set (depsOf g q) \<subseteq> keysOf g \<union> insert p pend" using False that assms(1) unfolding graph_ok_def by blast
    ultimately show ?thesis by auto
  qed (auto simp: depsOf_def lookup)
  moreover have "\<exists>e. map_of table q = Some e \<and> siKnown e \<and> map_of (gDeps (addRow p entry g)) q = Some (siDeps e) \<and>
      gWork (addRow p entry g) q = siNode e" if q: "q \<in> insert p (keysOf g) - unitPrefix ` set units" for q
  proof (cases "q = p")
    case False
    with q have "q \<in> keysOf g - unitPrefix ` set units" by blast
    then obtain e where "map_of table q = Some e" "siKnown e" "map_of (gDeps g) q = Some (siDeps e)" "gWork g q = siNode e"
      using assms(1) unfolding graph_ok_def by blast
    with False show ?thesis by (intro exI [of _ e]) (simp add: lookup, simp add: addRow_def)
  qed (use assms(3,4) in \<open>simp add: lookup, simp add: addRow_def\<close>)
  moreover have "distinct (map fst (gDeps (addRow p entry g)))" using assms(1,2) up by (simp add: graph_ok_def keysOf_def)
  moreover have "gSrc (addRow p entry g) = gSrc g" "gUncertain (addRow p entry g) = gUncertain g"
    "\<forall>u \<in> set units. gWork (addRow p entry g) (unitPrefix u) = gWork g (unitPrefix u)"
    using units by (simp_all add: addRow_def)
  ultimately show ?thesis
    using assms(1) units need unfolding graph_ok_def keys lookup by auto
qed

lemma graph_ok_skip: "graph_ok table units mainUnit (insert p pend) g \<Longrightarrow> p \<in> keysOf g \<Longrightarrow> graph_ok table units mainUnit pend g"
  by (auto simp: graph_ok_def)

lemma graph_ok_isSrc: "graph_ok table units mainUnit pend g \<Longrightarrow> isSrc g p \<longleftrightarrow> p \<in> unitPrefix ` set units"
  by (simp add: graph_ok_def isSrc_iff image_image)

lemma graph_ok_src: "graph_ok table units mainUnit pend g \<Longrightarrow> isSrc g p \<Longrightarrow> p \<in> keysOf g"
proof -
  assume ok: "graph_ok table units mainUnit pend g" and "isSrc g p"
  then obtain u where "u \<in> set units" "p = unitPrefix u" by (auto simp: graph_ok_def isSrc_iff)
  then have "map_of (gDeps g) p = Some (unitDeps u)" using ok by (simp add: graph_ok_def)
  then show "p \<in> keysOf g" using map_of_SomeD [of "gDeps g"] by (force simp: keysOf_def)
qed

lemma closeImports_Inr:
  "closeImports table pending g = Inr g' \<Longrightarrow> graph_ok table units mainUnit (fst ` set pending) g \<Longrightarrow>
     graph_ok table units mainUnit {} g'"
proof (induction table pending g rule: closeImports.induct)
  case (2 table p display pending g)
  show ?case
  proof (cases "p \<in> keysOf g")
    case True
    with 2 show ?thesis by (simp add: keysOf_def graph_ok_skip [unfolded keysOf_def])
  next
    case False
    then have no: "p \<notin> fst ` set (gDeps g)" "\<not> isSrc g p" using graph_ok_src [OF "2.prems"(2)] by (auto simp: keysOf_def)
    then obtain entry where e: "stdInitLookup table p display = Inr entry"
      and run: "closeImports table (pending @ map (\<lambda>d. (d, stdInitDisplay table d)) (siDeps entry)) (addRow p entry g) = Inr g'"
      using "2.prems"(1) by (auto split: sum.split_asm)
    have "graph_ok table units mainUnit (fst ` set pending \<union> set (siDeps entry)) (addRow p entry g)"
      using e "2.prems"(2) False by (intro graph_ok_row) (auto simp: stdInitLookup_Inr)
    then show ?thesis using "2.IH"(3) [OF _ _ e run] no by (simp add: image_Un image_image)
  qed
qed simp

lemma buildInitGraph_ok:
  assumes "buildInitGraph table units mainUnit = Inr g"
  shows "graph_ok table units mainUnit {} g" and "gNode g = solveInitNodes g (gWork g)"
proof -
  obtain g0 pending g1 where a: "addUnits table mainUnit units emptyGraph [] = Inr (g0, pending)"
    and c: "closeImports table pending g0 = Inr g1" and g: "g = g1\<lparr>gNode := solveInitNodes g1 (gWork g1)\<rparr>"
    using assms by (auto simp: buildInitGraph_def split: sum.split_asm)
  have "units_graph mainUnit [] emptyGraph" by (simp add: units_graph_def emptyGraph_def)
  from addUnits_Inr [OF a this] have "units_graph mainUnit units g0" "fst ` set pending = (\<Union>u \<in> set units. set (unitDeps u))"
    by (simp_all flip: set_map add: comp_def)
  with graph_ok_units have "graph_ok table units mainUnit {} g1" by (intro closeImports_Inr [OF c]) simp
  then show "graph_ok table units mainUnit {} g" using g by (simp add: graph_ok_def depsOf_def keysOf_def del: map_of_eq_Some_iff Some_eq_map_of_iff)
  have "depsOf g = depsOf g1" "isSrc g = isSrc g1" using g by (simp_all add: depsOf_def isSrc_def fun_eq_iff)
  then show "gNode g = solveInitNodes g (gWork g)" using g by (simp add: solveInitNodes_def)
qed

lemma graph_ok_needed:
  assumes "graph_ok table units mainUnit {} g"
  shows "keysOf g = Collect (needed table units)"
proof -
  have unit: "unitPrefix u \<in> keysOf g \<and> depsOf g (unitPrefix u) = unitDeps u" if "u \<in> set units" for u
  proof -
    have "map_of (gDeps g) (unitPrefix u) = Some (unitDeps u)" using assms that by (simp add: graph_ok_def)
    then show ?thesis using map_of_SomeD [of "gDeps g"] by (force simp: keysOf_def depsOf_def)
  qed
  have closed: "set (depsOf g p) \<subseteq> keysOf g" if "p \<in> keysOf g" for p using assms that by (simp add: graph_ok_def)
  have "p \<in> keysOf g" if "needed table units p" for p
    using that
  proof induction
    case (row p entry d)
    then obtain e where e: "map_of table p = Some e" "map_of (gDeps g) p = Some (siDeps e)" using assms unfolding graph_ok_def by blast
    then have "depsOf g p = siDeps entry" using row by (simp only: depsOf_def option.case option.inject)
    with closed [of p] row show ?case by auto
  next
    case (imported u d)
    then show ?case using unit [of u] closed [of "unitPrefix u"] by auto
  qed (simp add: unit)
  moreover have "needed table units p" if "p \<in> keysOf g" for p using assms that by (simp add: graph_ok_def)
  ultimately show ?thesis by blast
qed

definition unreadable :: "std_table \<Rightarrow> string \<Rightarrow> bool" where
  "unreadable table p \<longleftrightarrow> (case map_of table p of None \<Rightarrow> True | Some entry \<Rightarrow> \<not> siKnown entry)"

lemma stdInitLookup_Inl: "stdInitLookup table p d = Inl e \<Longrightarrow> unreadable table p"
  by (auto simp: stdInitLookup_def unreadable_def split: option.split_asm)

lemma addUnits_Inl:
  "addUnits table mainUnit us g pending = Inl e \<Longrightarrow> units_graph mainUnit ds g \<Longrightarrow>
     \<not> distinct (map unitPrefix (ds @ us)) \<or> (\<exists>u \<in> set us. spLibrary u \<and> unreadable table (unitPrefix u))"
proof (induction us arbitrary: g pending ds)
  case (Cons u us)
  let ?p = "unitPrefix u"
  let ?g = "g\<lparr>gSrc := AList.update ?p u (gSrc g), gDeps := AList.update ?p (unitDeps u) (gDeps g)\<rparr>"
  show ?case
  proof (cases "map_of (gSrc g) ?p")
    case (Some other)
    then have "?p \<in> unitPrefix ` set ds" using Cons.prems(2) map_of_SomeD [OF Some] by (auto simp: units_graph_def)
    then show ?thesis by auto
  next
    case None
    show ?thesis
    proof (cases "unitWork table mainUnit u ?p ?g")
      case (Inl e')
      then show ?thesis by (auto simp: unitWork_def Let_def dest: stdInitLookup_Inl split: if_split_asm sum.split_asm)
    next
      case (Inr g1)
      have "addUnits table mainUnit [u] g pending = Inr (g1, pending @ map (\<lambda>q. (pathToPrefix q, q)) (importPathsOf (spFiles u)))"
        using None Inr by (simp add: Let_def unitPrefix_def unitDeps_def)
      from addUnits_Inr [OF this Cons.prems(2)] have "units_graph mainUnit (ds @ [u]) g1" by blast
      from Cons.IH [OF _ this] Cons.prems(1) None Inr show ?thesis
        by (auto simp: Let_def unitPrefix_def unitDeps_def)
    qed
  qed
qed simp

lemma closeImports_Inl:
  "closeImports table pending g = Inl e \<Longrightarrow> graph_ok table units mainUnit (fst ` set pending) g \<Longrightarrow>
     \<exists>p. needed table units p \<and> unreadable table p"
proof (induction table pending g rule: closeImports.induct)
  case (2 table p display pending g)
  have need: "needed table units p" using "2.prems"(2) by (simp add: graph_ok_def)
  show ?case
  proof (cases "p \<in> keysOf g")
    case True
    with 2 show ?thesis by (simp add: keysOf_def graph_ok_skip [unfolded keysOf_def])
  next
    case False
    have no: "p \<notin> fst ` set (gDeps g)" "\<not> isSrc g p" using graph_ok_src [OF "2.prems"(2)] False by (auto simp: keysOf_def)
    show ?thesis
    proof (cases "stdInitLookup table p display")
      case (Inr entry)
      have "graph_ok table units mainUnit (fst ` set pending \<union> set (siDeps entry)) (addRow p entry g)"
        using Inr "2.prems"(2) False by (intro graph_ok_row) (auto simp: stdInitLookup_Inr)
      then show ?thesis using "2.IH"(3) [OF _ _ Inr] "2.prems"(1) Inr no by (simp add: image_Un image_image)
    qed (use need stdInitLookup_Inl in blast)
  qed
qed simp

section \<open>The order of the units\<close>

lemma firstError_None: "firstError f ms = None \<longleftrightarrow> (\<forall>m \<in> set ms. f m = None)"
  by (induction ms) (auto split: option.split)

text \<open>Every set of uncertain packages is the pruned set of one mask.\<close>

lemma prunedBy_any:
  assumes "U \<subseteq> set us" and "distinct us"
  obtains m where "m < 2 ^ length us" and "set (prunedBy us m) = U"
proof
  let ?m = "horner_sum of_bool 2 (map (\<lambda>p. p \<notin> U) us) :: nat"
  show "?m < 2 ^ length us" using horner_sum_of_bool_2_less [of "map (\<lambda>p. p \<notin> U) us"] by simp
  have "set (prunedBy us ?m) = {us ! i | i. i < length us \<and> us ! i \<in> U}"
    by (auto simp: prunedBy_def bit_horner_sum_bit_iff)
  also have "\<dots> = U" using assms(1) by (auto simp: in_set_conv_nth subset_iff)
  finally show "set (prunedBy us ?m) = U" .
qed

lemma prunedBy_full:
  assumes "m = 2 ^ length us - 1"
  shows "prunedBy us m = []"
  unfolding assms mask_eq_exp_minus_1 [symmetric] by (simp add: prunedBy_def filter_empty_conv bit_mask_iff)

lemma keys_facts:
  assumes "graph_ok table units mainUnit {} g"
  shows "sorted (map symbol (sort_key symbol (map fst (gDeps g))))" and "distinct (sort_key symbol (map fst (gDeps g)))"
    and "set (sort_key symbol (map fst (gDeps g))) = keysOf g"
  using assms by (auto simp: graph_ok_def keysOf_def)

text \<open>
  The check accepts only if pruning any of the uncertain packages leaves the order of the packages
  with work as it is.
\<close>

lemma check_accepts:
  assumes "graph_ok table units mainUnit {} g" and "gNode g = solveInitNodes g (gWork g)"
    and "walkInitSchedule keys g (gNode g) = Inr walk" and "checkStaticinitSensitivity g keys walk = None"
    and "U \<subseteq> unitPrefix ` {u \<in> set units. unitUncertain mainUnit u}"
  shows "\<exists>order. walkInitSchedule keys g (solveInitNodes g (\<lambda>p. gWork g p \<and> p \<notin> U)) = Inr order \<and>
    observable g (\<lambda>p. gWork g p \<and> p \<notin> U) walk = observable g (\<lambda>p. gWork g p \<and> p \<notin> U) order"
proof (cases "U = {}")
  case True
  with assms(2,3) show ?thesis by simp
next
  case False
  have "gUncertain g = map (\<lambda>u. (unitPrefix u, spMaybe u)) (filter (unitUncertain mainUnit) units)"
    "distinct (map unitPrefix units)" using assms(1) by (auto simp: graph_ok_def)
  then have "mset (uncertainKeys g) = mset (map unitPrefix (filter (unitUncertain mainUnit) units))"
    by (simp add: uncertainKeys_def filter_map comp_def unitUncertain_def cong: conj_cong)
  then have us: "set (uncertainKeys g) = unitPrefix ` {u \<in> set units. unitUncertain mainUnit u}" "distinct (uncertainKeys g)"
    using \<open>distinct (map unitPrefix units)\<close> mset_eq_imp_distinct_iff [of "uncertainKeys g"] mset_eq_setD
    by (fastforce simp: distinct_map inj_on_def)+
  obtain m where m: "m < 2 ^ length (uncertainKeys g)" "set (prunedBy (uncertainKeys g) m) = U"
    using prunedBy_any [OF assms(5) [folded us(1)] us(2)] .
  have "uncertainKeys g \<noteq> []" using False assms(5) us(1) by auto
  then have "checkMask g keys walk (uncertainKeys g) m = None"
    using assms(4) m(1) by (auto simp: checkStaticinitSensitivity_def firstError_None Let_def split: if_split_asm)
  moreover have "m \<noteq> 2 ^ length (uncertainKeys g) - 1" using prunedBy_full [of m "uncertainKeys g"] m(2) False by auto
  ultimately show ?thesis using m(2) by (auto simp: checkMask_def Let_def split: sum.split_asm if_split_asm)
qed

lemma filter_split:
  assumes "filter P xs = a @ x # b"
  shows "\<exists>us vs. xs = us @ x # vs \<and> filter P us = a"
  using assms
proof (induction xs arbitrary: a)
  case (Cons y xs)
  show ?case
  proof (cases "P y \<and> a = []")
    case True
    with Cons.prems show ?thesis by (intro exI [of _ "[]"] exI [of _ xs]) auto
  next
    case False
    with Cons.prems have "filter P xs = (if P y then tl a else a) @ x # b" by (cases a) (auto split: if_split_asm)
    from Cons.IH [OF this] obtain us vs where "xs = us @ x # vs" "filter P us = (if P y then tl a else a)" by blast
    moreover have "P y \<Longrightarrow> y # tl a = a" using Cons.prems False by (cases a) auto
    ultimately show ?thesis by (intro exI [of _ "y # us"] exI [of _ vs]) auto
  qed
qed simp

lemma schedule_split:
  assumes "schedule keys deps node (a @ p # b)"
  shows "set (deps p) \<subseteq> set a"
  using assms unfolding schedule_def by (auto simp: ready_def list_all_iff dest!: spec [of _ "length a"])

text \<open>The units of a walk, by their prefixes.\<close>

lemma units_of_walk:
  assumes "graph_ok table units mainUnit {} g"
  shows "map unitPrefix (List.map_filter (map_of (gSrc g)) walk) = filter (isSrc g) walk"
    and "set (List.map_filter (map_of (gSrc g)) walk) \<subseteq> set units"
proof -
  have src: "u \<in> set units \<and> unitPrefix u = p" if "map_of (gSrc g) p = Some u" for p u
    using map_of_SomeD [OF that] assms by (auto simp: graph_ok_def)
  then show "map unitPrefix (List.map_filter (map_of (gSrc g)) walk) = filter (isSrc g) walk"
    by (induction walk) (auto simp: List.map_filter_simps isSrc_def split: option.split)
  show "set (List.map_filter (map_of (gSrc g)) walk) \<subseteq> set units"
    using src by (auto simp: List.map_filter_def)
qed

lemma units_once:
  assumes "graph_ok table units mainUnit {} g" and "schedule keys deps node walk" and "set keys = keysOf g"
  shows "mset (List.map_filter (map_of (gSrc g)) walk) = mset units"
proof -
  let ?out = "List.map_filter (map_of (gSrc g)) walk"
  note w = units_of_walk [OF assms(1), of walk]
  have "distinct (map unitPrefix ?out)" unfolding w(1) using assms(2) by (simp add: schedule_def)
  moreover have "set (map unitPrefix ?out) = set (map unitPrefix units)"
  proof -
    have "{p \<in> keysOf g. isSrc g p} = {p. isSrc g p}" using graph_ok_src [OF assms(1)] by blast
    also have "\<dots> = set (map unitPrefix units)" using assms(1) by (auto simp: isSrc_iff graph_ok_def)
    finally show ?thesis unfolding w(1) using assms(2,3) by (simp add: schedule_def)
  qed
  moreover have dist: "distinct (map unitPrefix units)" using assms(1) by (simp add: graph_ok_def)
  moreover from dist have "inj_on unitPrefix (set units)" by (simp add: distinct_map)
  ultimately have "set ?out = set units" "distinct ?out"
    using w(2) inj_on_image_eq_iff [of unitPrefix "set units" "set ?out" "set units"] by (auto simp: distinct_map)
  then show ?thesis using dist by (simp add: distinct_map set_eq_iff_mset_eq_distinct [symmetric])
qed

lemma units_after_imports:
  assumes "graph_ok table units mainUnit {} g" and "schedule keys (depsOf g) node walk"
    and "List.map_filter (map_of (gSrc g)) walk = xs @ u # ys"
  shows "set (unitDeps u) \<inter> unitPrefix ` set units \<subseteq> unitPrefix ` set xs"
proof -
  note w = units_of_walk [OF assms(1), of walk]
  have u: "u \<in> set units" using w(2) assms(3) by simp
  have "filter (isSrc g) walk = map unitPrefix xs @ unitPrefix u # map unitPrefix ys" using w(1) assms(3) by simp
  then obtain a b where ab: "walk = a @ unitPrefix u # b" "filter (isSrc g) a = map unitPrefix xs"
    using filter_split by metis
  have "depsOf g (unitPrefix u) = unitDeps u" using assms(1) u by (simp add: graph_ok_def depsOf_def)
  with schedule_split [OF assms(2) [unfolded ab(1)]] have "set (unitDeps u) \<subseteq> set a" by simp
  moreover have "unitPrefix ` set units \<subseteq> {p. isSrc g p}" using assms(1) by (auto simp: isSrc_iff graph_ok_def)
  ultimately have "set (unitDeps u) \<inter> unitPrefix ` set units \<subseteq> set (filter (isSrc g) a)" by auto
  then show ?thesis using ab(2) by simp
qed

lemma order_certain:
  assumes "specInitOrder table units mainUnit = Inr out" and "2 \<le> length units"
  shows "mset out = mset units \<and>
    (\<forall>xs u ys. out = xs @ u # ys \<longrightarrow> set (unitDeps u) \<inter> unitPrefix ` set units \<subseteq> unitPrefix ` set xs) \<and>
    (\<exists>g. buildInitGraph table units mainUnit = Inr g \<and>
      (\<forall>U \<subseteq> unitPrefix ` {u \<in> set units. unitUncertain mainUnit u}.
        \<exists>order. walkInitSchedule (sort_key symbol (map fst (gDeps g))) g (solveInitNodes g (\<lambda>p. gWork g p \<and> p \<notin> U)) = Inr order \<and>
          filter (\<lambda>p. isSrc g p \<and> gWork g p \<and> p \<notin> U) order = filter (\<lambda>p. gWork g p \<and> p \<notin> U) (map unitPrefix out)))"
proof -
  obtain g walk where g: "buildInitGraph table units mainUnit = Inr g"
    and w: "walkInitSchedule (sort_key symbol (map fst (gDeps g))) g (gNode g) = Inr walk"
    and c: "checkStaticinitSensitivity g (sort_key symbol (map fst (gDeps g))) walk = None"
    and out: "out = List.map_filter (map_of (gSrc g)) walk"
    using assms by (auto simp: specInitOrder_def Let_def split: if_split_asm sum.split_asm option.split_asm)
  note ok = buildInitGraph_ok [OF g] and k = keys_facts [OF buildInitGraph_ok(1) [OF g]]
  note sch = walk_schedule(1) [OF k(1,2) w]
  have "filter (\<lambda>p. gWork g p \<and> p \<notin> U) (map unitPrefix out) = observable g (\<lambda>p. gWork g p \<and> p \<notin> U) walk" for U
    unfolding out units_of_walk(1) [OF ok(1)] by (simp add: observable_def conj_commute conj_left_commute)
  then have "\<exists>order. walkInitSchedule (sort_key symbol (map fst (gDeps g))) g (solveInitNodes g (\<lambda>p. gWork g p \<and> p \<notin> U)) = Inr order \<and>
      filter (\<lambda>p. isSrc g p \<and> gWork g p \<and> p \<notin> U) order = filter (\<lambda>p. gWork g p \<and> p \<notin> U) (map unitPrefix out)"
    if "U \<subseteq> unitPrefix ` {u \<in> set units. unitUncertain mainUnit u}" for U
    using check_accepts [OF ok w c that] unfolding observable_def by auto
  moreover have "mset out = mset units" unfolding out by (rule units_once [OF ok(1) sch k(3)])
  moreover have "set (unitDeps u) \<inter> unitPrefix ` set units \<subseteq> unitPrefix ` set xs" if "out = xs @ u # ys" for xs u ys
    by (rule units_after_imports [OF ok(1) sch]) (use that out in simp)
  ultimately show ?thesis using g by blast
qed

section \<open>Sample programs\<close>

text \<open>
  A main package that imports \<^verbatim>\<open>x\<close>, whose initializers may be static, and \<^verbatim>\<open>x-y\<close>, which is first: its
  symbol name is the lesser one. And a main package above two packages that import each other.
\<close>

definition demoUnit :: "string \<Rightarrow> string list \<Rightarrow> bool \<Rightarrow> sourcePkg" where
  "demoUnit path imps certain = \<lparr>spPath = path, spFiles = [map Some imps], spLibrary = False, spCertain = certain,
     spMaybe = (if certain then [] else [''var v = f'']) \<rparr>"

definition demoMain :: sourcePkg where
  "demoMain = demoUnit ''main'' [''x'', ''x-y''] True"

definition demoGraph :: initGraph where
  "demoGraph = projr (buildInitGraph [] [demoMain, demoUnit ''x'' [] False, demoUnit ''x-y'' [] True] demoMain)"

definition demoMain2 :: sourcePkg where
  "demoMain2 = demoUnit ''main'' [''b''] True"

definition demoCyclic :: "sourcePkg list" where
  "demoCyclic = [demoMain2, demoUnit ''b'' [''c''] True, demoUnit ''c'' [''b''] True]"

section \<open>Properties\<close>

text \<open>
  C31. The packages with an initialization record are exactly the ones with work of their own and the
  source packages that reach one of those through imports of source packages, whatever the order in which
  the maps are ranged over.
\<close>

theorem init_nodes_reach_work:
  "solveInitNodes g work p \<longleftrightarrow>
     (\<exists>q. (p, q) \<in> {(a, b). isSrc g a \<and> b \<in> set (depsOf g a)}\<^sup>* \<and> work q \<and>
        (isSrc g q \<or> q \<in> set (map fst (gDeps g))))"
  using solveInitNodes_reach unfolding srcEdges_def .

text \<open>
  C29. The initialization graph is complete. If it is built, its packages are exactly those the program
  needs, each once; the edges of a source package are its import declarations, and edges
  and work of any other package are those of its row in the table. It is refused only if two units have
  the same path, or a needed package has no readable row.
\<close>

theorem init_graph_complete:
  "case buildInitGraph table units mainUnit of
     Inr g \<Rightarrow>
       distinct (map fst (gDeps g)) \<and> set (map fst (gDeps g)) = Collect (needed table units) \<and>
       map fst (gSrc g) = map unitPrefix units \<and>
       list_all (\<lambda>u. depsOf g (unitPrefix u) = unitDeps u) units \<and>
       list_all (\<lambda>p. isSrc g p \<or> (case map_of table p of None \<Rightarrow> False
          | Some entry \<Rightarrow> siKnown entry \<and> depsOf g p = siDeps entry \<and> gWork g p = siNode entry)) (map fst (gDeps g))
   | Inl e \<Rightarrow> \<not> distinct (map spPath units) \<or> (\<exists>p. needed table units p \<and> unreadable table p)"
proof (cases "buildInitGraph table units mainUnit")
  case (Inr g)
  note ok = buildInitGraph_ok(1) [OF Inr]
  have "isSrc g p \<or> (case map_of table p of None \<Rightarrow> False
      | Some entry \<Rightarrow> siKnown entry \<and> depsOf g p = siDeps entry \<and> gWork g p = siNode entry)" if "p \<in> keysOf g" for p
  proof (cases "isSrc g p")
    case False
    then have "p \<in> keysOf g - unitPrefix ` set units" using that graph_ok_isSrc [OF ok] by blast
    then obtain entry where "map_of table p = Some entry" "siKnown entry" "map_of (gDeps g) p = Some (siDeps entry)" "gWork g p = siNode entry"
      using ok unfolding graph_ok_def by blast
    then show ?thesis by (simp add: depsOf_def)
  qed simp
  moreover have "distinct (map fst (gDeps g))" "map fst (gSrc g) = map unitPrefix units"
    "\<forall>u \<in> set units. depsOf g (unitPrefix u) = unitDeps u" using ok by (simp_all add: graph_ok_def depsOf_def comp_def)
  ultimately show ?thesis using graph_ok_needed [OF ok] Inr by (simp add: list_all_iff keysOf_def)
next
  case (Inl e)
  have init: "units_graph mainUnit [] emptyGraph" by (simp add: units_graph_def emptyGraph_def)
  have paths: "distinct (map spPath units) \<Longrightarrow> distinct (map unitPrefix units)"
    using pathToPrefix_inj by (auto simp: distinct_map unitPrefix_def inj_on_def)
  show ?thesis
  proof (cases "addUnits table mainUnit units emptyGraph []")
    case (Inl e')
    from addUnits_Inl [OF this init] paths show ?thesis using \<open>buildInitGraph table units mainUnit = Inl e\<close> by (auto intro: needed.own)
  next
    case (Inr gp)
    obtain g pending where gp: "gp = (g, pending)" by (cases gp)
    from addUnits_Inr [OF Inr [unfolded gp] init] have "units_graph mainUnit units g" "fst ` set pending = (\<Union>u \<in> set units. set (unitDeps u))"
      by (simp_all flip: set_map add: comp_def)
    with graph_ok_units have "graph_ok table units mainUnit (fst ` set pending) g" by simp
    moreover have "closeImports table pending g = Inl e"
      using Inl Inr gp by (auto simp: buildInitGraph_def split: sum.split_asm)
    ultimately show ?thesis using closeImports_Inl Inl by fastforce
  qed
qed

theorem init_graph_complete_witness:
  "set (map fst (gDeps demoGraph)) = Collect (needed [] [demoMain, demoUnit ''x'' [] False, demoUnit ''x-y'' [] True]) \<and>
   map fst (gDeps demoGraph) = [''main'', ''x'', ''x-y'']"
proof -
  have "\<not> isl (buildInitGraph [] [demoMain, demoUnit ''x'' [] False, demoUnit ''x-y'' [] True] demoMain)" by code_simp
  then have "buildInitGraph [] [demoMain, demoUnit ''x'' [] False, demoUnit ''x-y'' [] True] demoMain = Inr demoGraph"
    by (cases "buildInitGraph [] [demoMain, demoUnit ''x'' [] False, demoUnit ''x-y'' [] True] demoMain") (auto simp: demoGraph_def)
  moreover have "map fst (gDeps demoGraph) = [''main'', ''x'', ''x-y'']" by code_simp
  ultimately show ?thesis
    using init_graph_complete [where table = "[]" and mainUnit = demoMain and
      units = "[demoMain, demoUnit ''x'' [] False, demoUnit ''x-y'' [] True]"] by simp
qed

text \<open>
  C28. The walk returns the least schedule: every package once, those without a record first, each
  after the packages it imports, and among all such orders the first one in the order of the symbol
  names. It refuses exactly if there is no such order.
\<close>

theorem init_walk_least:
  assumes "distinct (map fst (gDeps g))"
  shows "case walkInitSchedule (sort_key symbol (map fst (gDeps g))) g node of
      Inr os \<Rightarrow> schedule (map fst (gDeps g)) (depsOf g) node os \<and>
        (\<forall>os'. schedule (map fst (gDeps g)) (depsOf g) node os' \<longrightarrow> map symbol os \<le> map symbol os')
    | Inl e \<Rightarrow> (\<nexists>os. schedule (map fst (gDeps g)) (depsOf g) node os)"
proof -
  let ?keys = "sort_key symbol (map fst (gDeps g))"
  have s: "sorted (map symbol ?keys)" "distinct ?keys" using assms by simp_all
  have eq: "schedule ?keys = schedule (map fst (gDeps g))" by (simp add: schedule_def fun_eq_iff)
  show ?thesis
    using walk_schedule(1) [OF s, of g node] walk_least [OF s, of g node] walk_no_schedule [OF s, of g node]
    unfolding eq by (auto split: sum.split)
qed

theorem init_walk_least_witness:
  "schedule (map fst (gDeps demoGraph)) (depsOf demoGraph) (gNode demoGraph) [''x-y'', ''x'', ''main''] \<and>
   walkInitSchedule (sort_key symbol (map fst (gDeps demoGraph))) demoGraph (gNode demoGraph) = Inr [''x-y'', ''x'', ''main'']"
proof -
  have "walkInitSchedule (sort_key symbol (map fst (gDeps demoGraph))) demoGraph (gNode demoGraph) = Inr [''x-y'', ''x'', ''main'']"
    by code_simp
  moreover have "distinct (map fst (gDeps demoGraph))" by code_simp
  ultimately show ?thesis using init_walk_least [of demoGraph "gNode demoGraph"] by simp
qed

text \<open>
  C30. For a program the walk is refused only for an import cycle: if the table is consistent (a row
  without a record imports no package with one), the packages it names are needed, and each of
  them imports another one of them.
\<close>

theorem init_refusal_is_cycle:
  assumes "buildInitGraph table units mainUnit = Inr g"
    and "walkInitSchedule (sort_key symbol (map fst (gDeps g))) g (gNode g) = Inl e"
    and "list_all (\<lambda>p. isSrc g p \<or> gNode g p \<or> list_all (\<lambda>d. \<not> gNode g d) (depsOf g p)) (map fst (gDeps g))"
  shows "\<exists>bs. e = ErrInitCycle bs \<and> bs \<noteq> [] \<and> list_all (\<lambda>p. needed table units p \<and> list_ex (\<lambda>d. d \<in> set bs) (depsOf g p)) bs"
proof -
  note ok = buildInitGraph_ok(1) [OF assms(1)] and node = buildInitGraph_ok(2) [OF assms(1)]
  note k = keys_facts [OF ok]
  have closed: "\<forall>p \<in> keysOf g. set (depsOf g p) \<subseteq> keysOf g" using ok by (simp add: graph_ok_def)
  have "list_all (\<lambda>d. \<not> gNode g d) (depsOf g p)" if p: "p \<in> keysOf g" "\<not> gNode g p" for p
  proof (cases "isSrc g p")
    case True
    then show ?thesis using p(2) unfolding node solveInitNodes_reach
      by (auto simp: list_all_iff srcEdges_def intro: converse_rtrancl_into_rtrancl)
  next
    case False
    with assms(3) p show ?thesis by (auto simp: list_all_iff keysOf_def)
  qed
  then obtain bs where "e = ErrInitCycle bs" "bs \<noteq> []" "set bs \<subseteq> keysOf g" "\<forall>p \<in> set bs. \<exists>d \<in> set (depsOf g p). d \<in> set bs"
    using walk_cycle [OF k(1,2) assms(2)] closed unfolding k(3) by blast
  then show ?thesis using graph_ok_needed [OF ok] by (auto simp: list_all_iff list_ex_iff)
qed

theorem init_refusal_is_cycle_witness:
  "\<exists>bs. ErrInitCycle [''b'', ''c'', ''main''] = ErrInitCycle bs \<and> bs \<noteq> [] \<and>
     list_all (\<lambda>p. needed [] demoCyclic p \<and> list_ex (\<lambda>d. d \<in> set bs) (depsOf (projr (buildInitGraph [] demoCyclic demoMain2)) p)) bs"
proof -
  let ?g = "projr (buildInitGraph [] demoCyclic demoMain2)"
  have "\<not> isl (buildInitGraph [] demoCyclic demoMain2)" by code_simp
  then have "buildInitGraph [] demoCyclic demoMain2 = Inr ?g" by (cases "buildInitGraph [] demoCyclic demoMain2") auto
  moreover have "walkInitSchedule (sort_key symbol (map fst (gDeps ?g))) ?g (gNode ?g) = Inl (ErrInitCycle [''b'', ''c'', ''main''])"
    by code_simp
  moreover have "list_all (\<lambda>p. isSrc ?g p \<or> gNode ?g p \<or> list_all (\<lambda>d. \<not> gNode ?g d) (depsOf ?g p)) (map fst (gDeps ?g))"
    by code_simp
  ultimately show ?thesis by (rule init_refusal_is_cycle)
qed

text \<open>
  C27. An initialization order that is returned is right and certain. It holds every unit once, each
  after the units it imports; and whichever of the packages with only possibly static initializers
  the compiler prunes, the packages that then have work come in this order in the least schedule.
\<close>

theorem init_order_certain:
  assumes "specInitOrder table units mainUnit = Inr out" and "2 \<le> length units"
  shows "mset out = mset units \<and>
    (\<forall>xs u ys. out = xs @ u # ys \<longrightarrow> set (unitDeps u) \<inter> unitPrefix ` set units \<subseteq> unitPrefix ` set xs) \<and>
    (\<exists>g. buildInitGraph table units mainUnit = Inr g \<and>
      (\<forall>U \<subseteq> unitPrefix ` {u \<in> set units. unitUncertain mainUnit u}.
        \<exists>order. walkInitSchedule (sort_key symbol (map fst (gDeps g))) g (solveInitNodes g (\<lambda>p. gWork g p \<and> p \<notin> U)) = Inr order \<and>
          filter (\<lambda>p. isSrc g p \<and> gWork g p \<and> p \<notin> U) order = filter (\<lambda>p. gWork g p \<and> p \<notin> U) (map unitPrefix out)))"
  using assms by (rule order_certain)

theorem init_order_certain_witness:
  "specInitOrder [] [demoMain, demoUnit ''x'' [] False, demoUnit ''x-y'' [] True] demoMain =
     Inr [demoUnit ''x-y'' [] True, demoUnit ''x'' [] False, demoMain] \<and>
   set (unitDeps demoMain) \<inter> unitPrefix ` {demoMain, demoUnit ''x'' [] False, demoUnit ''x-y'' [] True}
     \<subseteq> unitPrefix ` {demoUnit ''x-y'' [] True, demoUnit ''x'' [] False}"
proof -
  have run: "specInitOrder [] [demoMain, demoUnit ''x'' [] False, demoUnit ''x-y'' [] True] demoMain =
     Inr [demoUnit ''x-y'' [] True, demoUnit ''x'' [] False, demoMain]" by code_simp
  from init_order_certain [OF this] have "\<forall>xs u ys. [demoUnit ''x-y'' [] True, demoUnit ''x'' [] False, demoMain] = xs @ u # ys \<longrightarrow>
      set (unitDeps u) \<inter> unitPrefix ` set [demoMain, demoUnit ''x'' [] False, demoUnit ''x-y'' [] True] \<subseteq> unitPrefix ` set xs" by simp
  then have "set (unitDeps demoMain) \<inter> unitPrefix ` set [demoMain, demoUnit ''x'' [] False, demoUnit ''x-y'' [] True]
      \<subseteq> unitPrefix ` set [demoUnit ''x-y'' [] True, demoUnit ''x'' [] False]"
    by (elim allE [of _ "[demoUnit ''x-y'' [] True, demoUnit ''x'' [] False]"] allE [of _ demoMain] allE [of _ "[]"]) simp
  with run show ?thesis by simp
qed

lemma main_last:
  assumes "out = xs @ m # ys" and "distinct (map unitPrefix out)"
    and "\<forall>xs u ys. out = xs @ u # ys \<longrightarrow> set (unitDeps u) \<inter> unitPrefix ` set out \<subseteq> unitPrefix ` set xs"
    and "\<forall>u \<in> set out. (unitPrefix m, unitPrefix u) \<in> {(a, b). \<exists>v \<in> set out. a = unitPrefix v \<and> b \<in> set (unitDeps v)}\<^sup>*"
  shows "ys = []"
proof (rule ccontr)
  let ?E = "{(a, b). \<exists>v \<in> set out. a = unitPrefix v \<and> b \<in> set (unitDeps v)}"
  have "b \<in> unitPrefix ` set out \<longrightarrow> b \<in> unitPrefix ` set (xs @ [m])" if "(unitPrefix m, b) \<in> ?E\<^sup>*" for b
    using that
  proof induction
    case (step a b)
    then obtain v where v: "v \<in> set out" "a = unitPrefix v" "b \<in> set (unitDeps v)" by blast
    have "a \<in> unitPrefix ` set out" using v(1,2) by simp
    with step.IH have "a \<in> unitPrefix ` set (xs @ [m])" by (rule mp)
    then obtain w where w: "w \<in> set (xs @ [m])" "unitPrefix w = unitPrefix v" unfolding v(2) by (metis imageE)
    have "inj_on unitPrefix (set out)" using assms(2) by (simp add: distinct_map)
    moreover have "w \<in> set out" using w(1) assms(1) by auto
    ultimately have "w = v" using v(1) w(2) by (simp add: inj_onD)
    with w(1) obtain as bs where ab: "xs @ [m] = as @ v # bs" by (meson split_list)
    then have "out = as @ v # (bs @ ys)" using assms(1) by simp
    with assms(3) v(3) have "b \<in> unitPrefix ` set out \<longrightarrow> b \<in> unitPrefix ` set as" by blast
    then show ?case using ab by (metis Un_iff image_Un set_append)
  qed simp
  note reached = this
  assume "ys \<noteq> []"
  then obtain u where u: "u \<in> set ys" by (meson list.set_sel(1))
  with assms(1,4) reached have "unitPrefix u \<in> unitPrefix ` set (xs @ [m])" by auto
  moreover have "unitPrefix u \<in> unitPrefix ` set ys" using u by simp
  ultimately show False using assms(1,2) by auto
qed

text \<open>
  The main package is initialized last, if every unit is reached from it through imports.
\<close>

lemma init_main_last:
  assumes "specInitOrder table units mainUnit = Inr out" and "2 \<le> length units" and "mainUnit \<in> set units"
    and "\<forall>u \<in> set units. (unitPrefix mainUnit, unitPrefix u) \<in>
       {(a, b). \<exists>v \<in> set units. a = unitPrefix v \<and> b \<in> set (unitDeps v)}\<^sup>*"
  shows "last out = mainUnit"
proof -
  note oc = order_certain [OF assms(1,2)]
  note out = oc [THEN conjunct1] and imp = oc [THEN conjunct2, THEN conjunct1]
  obtain g where g: "buildInitGraph table units mainUnit = Inr g" using oc [THEN conjunct2, THEN conjunct2] by (elim exE conjE)
  have set: "set out = set units" using out by (rule mset_eq_setD)
  have "distinct (map unitPrefix units)" using buildInitGraph_ok(1) [OF g] by (simp add: graph_ok_def)
  then have "distinct (map unitPrefix out)" using mset_eq_imp_distinct_iff [of "map unitPrefix out" "map unitPrefix units"] out by simp
  moreover obtain xs ys where xy: "out = xs @ mainUnit # ys" using assms(3) set by (metis split_list)
  ultimately have "ys = []" using main_last [OF xy] imp assms(4) unfolding set by blast
  with xy show ?thesis by simp
qed

lemma init_main_last_demo:
  "last [demoUnit ''x-y'' [] True, demoUnit ''x'' [] False, demoMain] = demoMain"
proof (rule init_main_last)
  show "specInitOrder [] [demoMain, demoUnit ''x'' [] False, demoUnit ''x-y'' [] True] demoMain =
     Inr [demoUnit ''x-y'' [] True, demoUnit ''x'' [] False, demoMain]" by code_simp
  have "set (unitDeps demoMain) = unitPrefix ` {demoUnit ''x'' [] False, demoUnit ''x-y'' [] True}" by code_simp
  then show "\<forall>u \<in> set [demoMain, demoUnit ''x'' [] False, demoUnit ''x-y'' [] True]. (unitPrefix demoMain, unitPrefix u) \<in>
       {(a, b). \<exists>v \<in> set [demoMain, demoUnit ''x'' [] False, demoUnit ''x-y'' [] True]. a = unitPrefix v \<and> b \<in> set (unitDeps v)}\<^sup>*"
    by (auto intro!: r_into_rtrancl)
qed simp_all

end
