(* ===== verification/Spec2Isabelle.thy ===== *)
theory Spec2Isabelle
  imports Confchange Replication ReadyContract TwinSafety MessageOps CrashView GoMod BuildTags TypeOrder InitOrder
begin

text \<open>
  A verification of the Go code of GoLean. The repository gives Go a formal semantics; its Go
  code is a Raft library that the semantics is applied to (src/raftsubject), the frontend that
  turns Go packages into the programs of the semantics (src/tools/nativefrontend), and the harness
  that compares the semantics with the Go toolchain (src/tools/coverageharness). This development
  models the whole of the Raft library that changes state, and of the tools the parts whose behaviour
  does not depend on the syntax trees and type information of the Go toolchain.

  \<^bold>\<open>Conventions.\<close> Prelude has Go's machine types and run-time panics. A method takes its receiver's
  record and returns the updated one. \<open>None\<close> is a panic, an \<^verbatim>\<open>error\<close> result is a value of a
  datatype (or the left side of a sum), \<^verbatim>\<open>uint64\<close> is \<open>64 word\<close> with its wrap-around, a map is
  a partial function or, if the code ranges over it, a list in an order of its own. Pointers to
  messages and to progress records are values; the storage that the log shares with the
  application is a field of the log that either may write. Calls of the logger and of the
  trace hooks have no effect but the panic of \<^verbatim>\<open>Panicf\<close>.

  \<^bold>\<open>The Raft library and how its parts interact.\<close> The application drives a RawNode: it feeds ticks,
  proposals and messages into the raft state machine, takes a batch (Ready) out, writes it
  to its storage and acknowledges it. The state machine keeps a log (storage and unstable tail), a tracker
  of the members and their progress, and a queue of reads; membership changes go through
  confchange; messages are encoded by raftpb.

  \<^item> Quorum models quorum/*.go. Locales \<open>quorum_system\<close>, \<open>voting\<close>, \<open>committing\<close> and
    \<open>deciding\<close> state what elections and commits rely on; they are interpreted for majority
    and joint configurations. Shown: the committed index is the largest index a quorum acknowledged, a vote
    is won exactly with a quorum, quorums meet.
  \<^item> Raftpb, Wire, Codec and MessageOps model raftpb/*.go and proto/proto.go: the nine message types, varints
    and fields, size, marshal and unmarshal, merging, copying and comparing. Locale \<open>codec\<close> is the
    contract of an embedded message, \<open>proto_message\<close> that of a mergeable and comparable one; both are
    interpreted for all nine. Shown: round trips, exact sizes, equality is equality of encodings. The
    decoder's recursion depth is the 10000 of the source; nesting within it is a hypothesis.
  \<^item> Inflights and Tracker model tracker/*.go. Locale \<open>flow_window\<close> is a bounded FIFO window, refined by
    the growing ring buffer. Shown: every operation keeps \<open>Match < Next\<close> and the window
    well-formed; a rejection in the snapshot state breaks the documented value of \<open>Next\<close>.
  \<^item> Confchange models confchange/*.go. Locale \<open>changer\<close> is the contract of an operation. Shown: no panic, the
    invariant is kept, quorums overlap across every change, entering and leaving a joint configuration gives
    every node the role the changes name, restoring gives a configuration back.
  \<^item> Storage, Unstable, RaftLog, RaftUtil model raft/storage.go, log_unstable.go, log.go, util.go, types.go.
    Locale \<open>log_storage\<close> is the contract of the Storage interface, interpreted for MemoryStorage. LogProps and
    LogSafety relate every operation to one abstract log and show, over all interleavings with the
    application's writes, that no committed entry is lost or changed.
  \<^item> ReadOnly models raft/read_only.go. Shown: a read is released only with the acknowledgement of a quorum.
  \<^item> Raft and RaftStep model raft/raft.go, RawNode models rawnode.go, bootstrap.go, status.go and
    node_decls.go: configuration, every handler, every transition, the clock and the application's interface. The
    randomized timeout reads draws from a stream in the state.
  \<^item> RaftFrame (locale \<open>node_preorder\<close>: relations that follow the structure of the handlers), RaftElect,
    ElectionSafety, ElectionProps: each \<open>Step\<close> and tick is a run of a small election
    machine; over any run a node votes once in a term, its handlers and the leader it knows fit its role,
    it leads only with a quorum, and a cluster under any order, loss
    and duplication of messages has at most one leader per term. The membership is fixed in that
    theorem; Confchange has the overlap across a change.
  \<^item> NodeLog, LeaderCommit: the log safety carries over to the node; a leader commits only
    entries of its term that a quorum holds, and does so as soon as a quorum has acknowledged.
  \<^item> Replication, ReadyContract: the sending loop, a \<^verbatim>\<open>for\<close> without a bound and therefore a
    \<open>partial_function\<close>, is shown to return and to send the whole log; the cases in which
    collecting a Ready panics are exactly determined, a size limit of 0 among them, and in all others it
    hands over the pending output, committed entries up to the size limit, and leaves nothing pending.

  \<^bold>\<open>The tools.\<close>

  \<^item> Twin models raftsubject/twin-lib.go and twin-chdriver.go (under src/tools): a cluster of RawNodes and a
    multiset of messages driven by a schedule or by choices, with a checker of the safety of elections and of the log. TwinRun evaluates
    a run of one node from the start to an applied entry. TwinSafety shows that every run is one of the
    cluster of ElectionSafety, so that the check of election safety never fires. The 64 rounds of a
    harvest, the 10000 deliveries of a drain and the 400 rounds of the choice-driven loop are the bounds of the source, not fuel: beyond
    them the code itself stops.
  \<^item> GoText: the byte and string functions they use.
  \<^item> CrashView models coverageharness/crashview.go, abortkind.go, split.go and observe.go: what a program printed, how
    it ended and with which message, told apart from an adversarial standard error. Shown: a view is given
    only for an authenticated report and is exact for a report of a panic as the run time writes it, chains
    and signals included, if the program's output is valid UTF-8; other output is refused.
  \<^item> GoMod models nativefrontend/modfile.go. Shown: the scanner accepts exactly the files of a grammar, and the
    version judgement accepts exactly the pinned language.
  \<^item> BuildTags models langversion.go and directives.go. Shown: the verdict on a constraint is that of
    \<^verbatim>\<open>matchTag\<close> of go/build in every context of the toolchain, whose lists are written out separately.
  \<^item> TypeOrder models typeorder.go. The depth-first search has a depth bound, the number of
    entries and one, which is shown to be enough. Shown: it returns a permutation in dependency order if there is
    one, the table itself if that is in order, and refuses otherwise.
  \<^item> InitTask, InitSchedule and InitOrder model inittask.go, the initialization order of load.go and the
    sensitivity check of staticinit.go. Shown: prefixes determine paths, the graph is the closure of the
    program, its nodes are what reaches work, the walk is the least schedule and fails only on a
    cycle, the order that is returned does not depend on what the compiler prunes. Loops end by
    a measure; none of them has fuel.

  \<^bold>\<open>Not modelled.\<close> The translation proper (emit.go, unseq.go, mono.go, wire.go, the classification of initializers
    in staticinit.go and the rest of the frontend) is a function of go/ast and go/types values, and
    lowerdiag reports on it; those packages are not part of the tree. Finding, reading and writing files, running
    the toolchain and generating Go source (the rest of the harness) are input and output. The
    constraint parser and the regular expressions are the standard library's: the first is a
    parameter, the second are written out as scanners. In the Raft library, text output (String,
    Describe, MarshalJSON), logging and tracing, the text form of configuration changes and WithProgress are
    left out. The other drivers of the subject (replay, codec, and the concurrent raftharness on the upstream library) print what it does. Sharing of memory between messages is not expressed.
\<close>

end
